(* ===== verification/Prelude.thy ===== *)
theory Prelude
  imports Main
begin

section \<open>Shared prelude\<close>

text \<open>
  What every component of the development shares: the reading of C integers, the constants of
  \<^verbatim>\<open>kernel/include/param.h\<close>, the error type, and the two list idioms the kernel is written
  with: a scan of a fixed table for the first entry that satisfies a test, and a loop over an
  index range.

  The kernel's tables (\<^verbatim>\<open>proc[NPROC]\<close>, \<^verbatim>\<open>sems[SEM_MAX_NUM]\<close>, \<dots>) are lists and a
  pointer into a table is an index. A C \<^verbatim>\<open>int\<close> is an \<^typ>\<open>int\<close>; where the code's result
  depends on the width, the wrap-around is written with \<open>i32\<close> (two's complement, 32 bits) or
  \<open>u32\<close> (unsigned, 32 bits).
\<close>

named_theorems kdefs \<open>definitions unfolded by the proofs of a component\<close>

subsection \<open>C integers\<close>

definition i32 :: "int \<Rightarrow> int" where
  "i32 x = (x + 2147483648) mod 4294967296 - 2147483648"

definition u32 :: "int \<Rightarrow> int" where
  "u32 x = x mod 4294967296"

definition u64 :: "int \<Rightarrow> int" where
  "u64 x = x mod 18446744073709551616"

lemma i32_id: "- 2147483648 \<le> x \<Longrightarrow> x < 2147483648 \<Longrightarrow> i32 x = x"
  by (simp add: i32_def)

lemma u32_id: "0 \<le> x \<Longrightarrow> x < 4294967296 \<Longrightarrow> u32 x = x"
  by (simp add: u32_def)

lemma u32_range: "0 \<le> u32 x" "u32 x < 4294967296"
  by (simp_all add: u32_def)

subsection \<open>Constants of param.h\<close>

abbreviation (input) NPROC :: nat where "NPROC \<equiv> 64"
abbreviation (input) BANKER_MAX_RES :: nat where "BANKER_MAX_RES \<equiv> 8"
abbreviation (input) MLFQ_LEVELS :: int where "MLFQ_LEVELS \<equiv> 4"
abbreviation (input) MLFQ_BOOST_TICKS :: int where "MLFQ_BOOST_TICKS \<equiv> 200"
abbreviation (input) SCHED_NORMAL :: int where "SCHED_NORMAL \<equiv> 0"
abbreviation (input) SCHED_RT_LLF :: int where "SCHED_RT_LLF \<equiv> 1"

subsection \<open>Errors\<close>

text \<open>A call of \<^verbatim>\<open>panic\<close> stops the machine: it is the error of a sum type.\<close>

datatype kerror = Panic string

type_synonym 'a res = "kerror + 'a"

subsection \<open>First match in a table\<close>

fun find_idx :: "('a \<Rightarrow> bool) \<Rightarrow> 'a list \<Rightarrow> nat option" where
  "find_idx P [] = None"
| "find_idx P (x # xs) = (if P x then Some 0 else map_option Suc (find_idx P xs))"

lemma find_idx_None_iff: "find_idx P xs = None \<longleftrightarrow> (\<forall>i < length xs. \<not> P (xs ! i))"
  by (induction xs) (auto simp: nth_Cons split: nat.splits)

lemma find_idx_SomeD:
  "find_idx P xs = Some i \<Longrightarrow> i < length xs \<and> P (xs ! i) \<and> (\<forall>j < i. \<not> P (xs ! j))"
proof (induction xs arbitrary: i)
  case (Cons x xs)
  then show ?case
    by (cases i) (auto split: if_splits simp: less_Suc_eq_0_disj)
qed simp

lemma find_idx_SomeI:
  assumes "i < length xs" "P (xs ! i)" "\<forall>j < i. \<not> P (xs ! j)"
  shows "find_idx P xs = Some i"
proof (cases "find_idx P xs")
  case None
  with assms show ?thesis by (simp add: find_idx_None_iff)
next
  case (Some k)
  then have "k < length xs" "P (xs ! k)" "\<forall>j < k. \<not> P (xs ! j)"
    using find_idx_SomeD [OF Some] by auto
  with assms have "k = i" by (metis linorder_neqE_nat)
  with Some show ?thesis by simp
qed

lemma find_idx_Some_iff:
  "find_idx P xs = Some i \<longleftrightarrow> i < length xs \<and> P (xs ! i) \<and> (\<forall>j < i. \<not> P (xs ! j))"
  using find_idx_SomeD find_idx_SomeI by metis

lemma find_idx_exists: "i < length xs \<Longrightarrow> P (xs ! i) \<Longrightarrow> \<exists>k. find_idx P xs = Some k"
  by (cases "find_idx P xs") (auto simp: find_idx_None_iff)

subsection \<open>Updating one entry of a table\<close>

abbreviation upd_at :: "'a list \<Rightarrow> nat \<Rightarrow> ('a \<Rightarrow> 'a) \<Rightarrow> 'a list" where
  "upd_at xs i f \<equiv> xs[i := f (xs ! i)]"

lemma map_upd_at_same: "i < length xs \<Longrightarrow> f (g (xs ! i)) = f (xs ! i) \<Longrightarrow>
    map f (upd_at xs i g) = map f xs"
  by (simp add: map_update list_update_same_conv)

lemma field_upd_at: "(\<And>x. f (g x) = f x) \<Longrightarrow> f (upd_at xs i g ! a) = f (xs ! a)"
  by (cases "i < length xs"; cases "a = i") (auto simp: list_update_beyond not_less)

lemma ball_set_upd: "\<forall>x \<in> set xs. P x \<Longrightarrow> P y \<Longrightarrow> \<forall>x \<in> set (xs[i := y]). P x"
  using set_update_subset_insert [of xs i y] by auto

lemma sum_list_upd:
  "i < length xs \<Longrightarrow>
    sum_list (map f (xs[i := y])) = sum_list (map f xs) - f (xs ! i) + (f y :: int)"
proof (induction xs arbitrary: i)
  case (Cons x xs)
  then show ?case by (cases i) auto
qed simp

subsection \<open>Counted loops over an array\<close>

text \<open>\<^verbatim>\<open>for (r = 0; r < n; r++) a[r] = f(r, a[r]);\<close> The entries from \<open>n\<close> on keep their value.\<close>

definition for_vec :: "nat \<Rightarrow> (nat \<Rightarrow> 'a \<Rightarrow> 'a) \<Rightarrow> 'a list \<Rightarrow> 'a list" where
  "for_vec n f xs = map (\<lambda>r. if r < n then f r (xs ! r) else xs ! r) [0..<length xs]"

lemma length_for_vec [simp]: "length (for_vec n f xs) = length xs"
  by (simp add: for_vec_def)

lemma nth_for_vec [simp]:
  "r < length xs \<Longrightarrow> for_vec n f xs ! r = (if r < n then f r (xs ! r) else xs ! r)"
  by (simp add: for_vec_def)

lemma for_vec_for_vec:
  "for_vec n f (for_vec n g xs) = for_vec n (\<lambda>r x. f r (g r x)) xs"
  by (rule nth_equalityI) auto

lemma for_vec_id: "(\<And>r. r < n \<Longrightarrow> r < length xs \<Longrightarrow> f r (xs ! r) = xs ! r) \<Longrightarrow> for_vec n f xs = xs"
  by (rule nth_equalityI) auto

lemma list_all_upt: "list_all P [0..<n] \<longleftrightarrow> (\<forall>r < n. P r)"
  by (auto simp: list_all_iff)

lemma list_ex_upt: "list_ex P [0..<n] \<longleftrightarrow> (\<exists>r < n. P r)"
  by (auto simp: list_ex_iff)

lemma not_list_ex_upt: "\<not> list_ex P [0..<n] \<longleftrightarrow> (\<forall>r < n. \<not> P r)"
  by (auto simp: list_ex_iff)

end
