(* ===== verification/Proc.thy ===== *)
theory Proc
  imports Prelude
begin

section \<open>The process table\<close>

text \<open>
  The data of \<^verbatim>\<open>kernel/include/proc.h\<close> and the operations of \<^verbatim>\<open>kernel/proc/proc.c\<close> that
  every other component uses: looking a process up by pid, sleeping and waking on a channel, and
  killing. The process table \<^verbatim>\<open>struct proc proc[NPROC]\<close> is a list of \<open>proc\<close> records; a
  \<^verbatim>\<open>struct proc *\<close> is an index into it (\<open>None\<close> for the null pointer).

  Spin locks are not part of this state: every operation below runs under the locks the source
  takes, so it is one atomic step; theory \<open>Spinlock\<close> models the locks themselves. Fields
  of \<^verbatim>\<open>struct proc\<close> that only the memory, trap or file code reads are left out here.
\<close>

subsection \<open>Data\<close>

datatype procstate =
  UNUSED | SLEEPING | SUSPENDED_SLEEP | SUSPENDED | RUNNABLE | RUNNING | ZOMBIE

text \<open>
  A sleep channel is the address of the object waited for. The addresses that the modelled code
  sleeps on are distinct objects, so each kind is a constructor, with its indices.
\<close>

datatype chan =
    ChProc nat            \<comment> \<open>\<^verbatim>\<open>p\<close>, a process (wait, join, message queues)\<close>
  | ChSem nat             \<comment> \<open>\<^verbatim>\<open>&sems[i]\<close>\<close>
  | ChSemset nat nat      \<comment> \<open>\<^verbatim>\<open>&semsets[i].sems[j]\<close>\<close>
  | ChMon nat             \<comment> \<open>\<^verbatim>\<open>&monitors[i]\<close>\<close>
  | ChCond nat nat        \<comment> \<open>\<^verbatim>\<open>&monitors[i].conds[j]\<close>\<close>
  | ChSleeplock nat       \<comment> \<open>a registered sleep lock\<close>
  | ChPipeRead            \<comment> \<open>\<^verbatim>\<open>&pi->nread\<close>\<close>
  | ChPipeWrite           \<comment> \<open>\<^verbatim>\<open>&pi->nwrite\<close>\<close>
  | ChDmsg nat            \<comment> \<open>\<^verbatim>\<open>&p->dmsg_count\<close>\<close>
  | ChFlock nat           \<comment> \<open>\<^verbatim>\<open>&ip->flock_type\<close>\<close>
  | ChTicks               \<comment> \<open>\<^verbatim>\<open>&ticks\<close>\<close>
  | ChLog                 \<comment> \<open>\<^verbatim>\<open>&log\<close>\<close>

text \<open>The compile-time choice \<^verbatim>\<open>SCHED_MLFQ\<close> / \<^verbatim>\<open>SCHED_DYNPRIO\<close> of the Makefile.\<close>

datatype sched_cfg = CfgMLFQ | CfgDYNPRIO

record dmsg =
  dm_len :: int
  dm_sender :: int
  dm_data :: "int list"

record proc =
  p_state :: procstate
  p_parent :: "nat option"
  p_chan :: "chan option"
  p_killed :: bool
  p_xstate :: int
  p_pid :: int
  p_tgid :: int
  p_tgroup_ref :: int
  p_sz :: int
  p_priority :: int
  p_wait_time :: int
  p_cpu_time :: int
  p_dyn_priority :: int
  p_pi_boost :: int
  mlfq_level :: int
  mlfq_ticks :: int
  rt_policy :: int
  rt_period :: int
  rt_runtime :: int
  rt_deadline :: int
  rt_release :: int
  rt_deadline_tick :: int
  rt_remaining :: int
  rt_misses :: int
  midsched_suspending :: bool
  p_pthread :: "nat option"
  dmsg_queue :: "dmsg list"
  dmsg_count :: int
  dmsg_bytes :: int
  dmsg_closed :: bool
  bkr_active :: bool
  bkr_max :: "int list"
  bkr_alloc :: "int list"

type_synonym ptable = "proc list"

text \<open>An all-zero process, as the table holds after boot.\<close>

definition proc0 :: proc where
  "proc0 = \<lparr>p_state = UNUSED, p_parent = None, p_chan = None, p_killed = False, p_xstate = 0,
     p_pid = 0, p_tgid = 0, p_tgroup_ref = 0, p_sz = 0, p_priority = 0, p_wait_time = 0,
     p_cpu_time = 0, p_dyn_priority = 0, p_pi_boost = 0, mlfq_level = 0, mlfq_ticks = 0,
     rt_policy = 0, rt_period = 0, rt_runtime = 0, rt_deadline = 0, rt_release = 0,
     rt_deadline_tick = 0, rt_remaining = 0, rt_misses = 0, midsched_suspending = False,
     p_pthread = None, dmsg_queue = [], dmsg_count = 0, dmsg_bytes = 0, dmsg_closed = False,
     bkr_active = False, bkr_max = replicate BANKER_MAX_RES 0,
     bkr_alloc = replicate BANKER_MAX_RES 0\<rparr>"

subsection \<open>Sleeping and waking\<close>

text \<open>
  \<^verbatim>\<open>sleep(chan, lk)\<close> up to its call of \<open>sched()\<close>, and the part after it. Between the two
  the process is off the CPU.
\<close>

definition sleep_begin :: "chan \<Rightarrow> proc \<Rightarrow> proc" where
  "sleep_begin ch p = p\<lparr>p_chan := Some ch, p_state := SLEEPING, mlfq_ticks := 0\<rparr>"

definition sleep_end :: "proc \<Rightarrow> proc" where
  "sleep_end p = p\<lparr>p_chan := None\<rparr>"

definition mlfq_reset :: "sched_cfg \<Rightarrow> proc \<Rightarrow> proc" where
  "mlfq_reset c p = (case c of CfgMLFQ \<Rightarrow> p\<lparr>mlfq_level := 0, mlfq_ticks := 0\<rparr> | CfgDYNPRIO \<Rightarrow> p)"

text \<open>The body of the loops of \<^verbatim>\<open>wakeup\<close> and \<^verbatim>\<open>wakeupOneProc\<close>.\<close>

definition waiting_on :: "chan \<Rightarrow> proc \<Rightarrow> bool" where
  "waiting_on ch p \<longleftrightarrow>
     (p_state p = SLEEPING \<or> p_state p = SUSPENDED_SLEEP) \<and> p_chan p = Some ch"

definition wake_proc :: "sched_cfg \<Rightarrow> proc \<Rightarrow> proc" where
  "wake_proc c p =
     (if p_state p = SLEEPING then mlfq_reset c (p\<lparr>p_state := RUNNABLE\<rparr>)
      else if p_state p = SUSPENDED_SLEEP then p\<lparr>p_state := SUSPENDED\<rparr>
      else p)"

definition wakeup :: "sched_cfg \<Rightarrow> chan \<Rightarrow> ptable \<Rightarrow> ptable" where
  "wakeup c ch ps = map (\<lambda>p. if waiting_on ch p then wake_proc c p else p) ps"

definition wakeupOneProc :: "sched_cfg \<Rightarrow> chan \<Rightarrow> ptable \<Rightarrow> ptable" where
  "wakeupOneProc c ch ps =
     (case find_idx (waiting_on ch) ps of
        None \<Rightarrow> ps
      | Some i \<Rightarrow> upd_at ps i (wake_proc c))"

text \<open>\<^verbatim>\<open>wakeup1(p)\<close>: wake \<open>p\<close> if it sleeps in \<^verbatim>\<open>wait()\<close>, on itself.\<close>

definition wakeup1 :: "sched_cfg \<Rightarrow> nat \<Rightarrow> ptable \<Rightarrow> ptable" where
  "wakeup1 c i ps = (if waiting_on (ChProc i) (ps ! i) then upd_at ps i (wake_proc c) else ps)"

subsection \<open>Killing\<close>

definition mark_killed :: "sched_cfg \<Rightarrow> proc \<Rightarrow> proc" where
  "mark_killed c p =
     (let p = p\<lparr>p_killed := True\<rparr> in
      if p_state p = SLEEPING then mlfq_reset c (p\<lparr>p_state := RUNNABLE\<rparr>)
      else if p_state p = SUSPENDED \<or> p_state p = SUSPENDED_SLEEP
      then mlfq_reset c (p\<lparr>p_state := RUNNABLE, midsched_suspending := False\<rparr>)
      else p)"

definition kill :: "sched_cfg \<Rightarrow> int \<Rightarrow> ptable \<Rightarrow> int \<times> ptable" where
  "kill c pid ps =
     (case find_idx (\<lambda>p. p_pid p = pid) ps of
        None \<Rightarrow> (-1, ps)
      | Some i \<Rightarrow> (0, upd_at ps i (mark_killed c)))"

text \<open>
  \<^verbatim>\<open>is_descendant\<close> follows the parent pointers. On a cycle of parents the C loop would not
  end, which is the value \<open>None\<close> here.
\<close>

partial_function (option) is_descendant :: "ptable \<Rightarrow> int \<Rightarrow> nat option \<Rightarrow> bool option" where
  "is_descendant ps root_pid cur =
     (case cur of
        None \<Rightarrow> Some False
      | Some i \<Rightarrow> if p_pid (ps ! i) = root_pid then Some True
                else is_descendant ps root_pid (p_parent (ps ! i)))"

fun killtree_loop :: "sched_cfg \<Rightarrow> int \<Rightarrow> nat list \<Rightarrow> bool \<times> ptable \<Rightarrow> (bool \<times> ptable) option" where
  "killtree_loop c pid [] s = Some s"
| "killtree_loop c pid (i # is) (found, ps) =
     (if p_state (ps ! i) = UNUSED then killtree_loop c pid is (found, ps)
      else if p_pid (ps ! i) = pid
      then killtree_loop c pid is (True, upd_at ps i (mark_killed c))
      else case is_descendant ps pid (Some i) of
             None \<Rightarrow> None
           | Some b \<Rightarrow> killtree_loop c pid is
                        (if b then (True, upd_at ps i (mark_killed c)) else (found, ps)))"

definition killtree :: "sched_cfg \<Rightarrow> int \<Rightarrow> ptable \<Rightarrow> (int \<times> ptable) option" where
  "killtree c pid ps =
     (case killtree_loop c pid [0..<length ps] (False, ps) of
        None \<Rightarrow> None
      | Some (found, ps') \<Rightarrow> Some (if found then 0 else -1, ps'))"

definition procnum :: "ptable \<Rightarrow> nat" where
  "procnum ps = fold (\<lambda>p n. if p_state p \<noteq> UNUSED then n + 1 else n) ps 0"

subsection \<open>Lemmas\<close>

lemma mlfq_reset_simps [simp]:
  "p_state (mlfq_reset c p) = p_state p" "p_chan (mlfq_reset c p) = p_chan p"
  "p_pid (mlfq_reset c p) = p_pid p" "p_parent (mlfq_reset c p) = p_parent p"
  "p_killed (mlfq_reset c p) = p_killed p" "p_priority (mlfq_reset c p) = p_priority p"
  "p_pi_boost (mlfq_reset c p) = p_pi_boost p"
  by (cases c; simp add: mlfq_reset_def)+

lemma wake_proc_simps [simp]:
  "p_chan (wake_proc c p) = p_chan p" "p_pid (wake_proc c p) = p_pid p"
  "p_parent (wake_proc c p) = p_parent p" "p_killed (wake_proc c p) = p_killed p"
  "p_priority (wake_proc c p) = p_priority p" "p_pi_boost (wake_proc c p) = p_pi_boost p"
  by (simp_all add: wake_proc_def)

lemma wake_proc_state:
  "p_state (wake_proc c p) =
     (case p_state p of SLEEPING \<Rightarrow> RUNNABLE | SUSPENDED_SLEEP \<Rightarrow> SUSPENDED | st \<Rightarrow> st)"
  by (auto simp: wake_proc_def split: procstate.splits)

lemma not_waiting_wake_proc [simp]: "\<not> waiting_on ch (wake_proc c p)"
  by (auto simp: waiting_on_def wake_proc_state split: procstate.splits)

lemma mark_killed_simps [simp]:
  "p_pid (mark_killed c p) = p_pid p" "p_parent (mark_killed c p) = p_parent p"
  "p_killed (mark_killed c p)" "p_chan (mark_killed c p) = p_chan p"
  by (simp_all add: mark_killed_def Let_def)

lemma length_wakeup [simp]: "length (wakeup c ch ps) = length ps"
  by (simp add: wakeup_def)

lemma length_wakeupOneProc [simp]: "length (wakeupOneProc c ch ps) = length ps"
  by (simp add: wakeupOneProc_def split: option.splits)

lemma nth_wakeup:
  "i < length ps \<Longrightarrow>
    wakeup c ch ps ! i = (if waiting_on ch (ps ! i) then wake_proc c (ps ! i) else ps ! i)"
  by (simp add: wakeup_def)

lemma nth_wakeupOneProc:
  "i < length ps \<Longrightarrow>
    wakeupOneProc c ch ps ! i =
      (if find_idx (waiting_on ch) ps = Some i then wake_proc c (ps ! i) else ps ! i)"
  by (auto simp: wakeupOneProc_def nth_list_update split: option.splits)

subsection \<open>Ancestors\<close>

definition parent_rel :: "ptable \<Rightarrow> (nat \<times> nat) set" where
  "parent_rel ps = {(i, j). i < length ps \<and> p_parent (ps ! i) = Some j}"

text \<open>The parent pointers stay inside the table and have no cycle.\<close>

definition parents_ok :: "ptable \<Rightarrow> bool" where
  "parents_ok ps \<longleftrightarrow> wf ((parent_rel ps)\<inverse>) \<and> (\<forall>i j. (i, j) \<in> parent_rel ps \<longrightarrow> j < length ps)"

definition descends :: "ptable \<Rightarrow> nat \<Rightarrow> int \<Rightarrow> bool" where
  "descends ps i pid \<longleftrightarrow> (\<exists>j. (i, j) \<in> (parent_rel ps)\<^sup>* \<and> p_pid (ps ! j) = pid)"

lemma descends_step:
  assumes "i < length ps"
  shows "descends ps i pid \<longleftrightarrow> p_pid (ps ! i) = pid \<or>
    (\<exists>j. p_parent (ps ! i) = Some j \<and> descends ps j pid)"
proof
  assume "descends ps i pid"
  then obtain j where j: "(i, j) \<in> (parent_rel ps)\<^sup>*" "p_pid (ps ! j) = pid"
    by (auto simp: descends_def)
  from j(1) show "p_pid (ps ! i) = pid \<or> (\<exists>j. p_parent (ps ! i) = Some j \<and> descends ps j pid)"
  proof (cases rule: converse_rtranclE)
    case (step k)
    with j(2) show ?thesis by (auto simp: parent_rel_def descends_def)
  qed (use j(2) in auto)
next
  assume "p_pid (ps ! i) = pid \<or> (\<exists>j. p_parent (ps ! i) = Some j \<and> descends ps j pid)"
  with assms show "descends ps i pid"
    unfolding descends_def parent_rel_def
    by (auto intro: converse_rtrancl_into_rtrancl)
qed

lemma is_descendant_spec:
  assumes ok: "parents_ok ps" and i: "i < length ps"
  shows "is_descendant ps pid (Some i) = Some (descends ps i pid)"
proof -
  from ok have "wf ((parent_rel ps)\<inverse>)" by (simp add: parents_ok_def)
  then show ?thesis
    using i
  proof (induction i)
    case (less i)
    show ?case
    proof (cases "p_parent (ps ! i)")
      case None
      with less.prems show ?thesis
        by (auto simp: is_descendant.simps [of ps pid "Some i"] is_descendant.simps [of ps pid None]
            descends_step)
    next
      case (Some j)
      then have j: "(i, j) \<in> parent_rel ps" using less.prems by (simp add: parent_rel_def)
      with ok have "j < length ps" by (auto simp: parents_ok_def)
      with j less.IH have "is_descendant ps pid (Some j) = Some (descends ps j pid)" by blast
      with Some less.prems show ?thesis
        by (auto simp: is_descendant.simps [of ps pid "Some i"] descends_step)
    qed
  qed
qed

lemma upd_mark_killed [simp]:
  "p_pid (upd_at ps i (mark_killed c) ! a) = p_pid (ps ! a)"
  "p_parent (upd_at ps i (mark_killed c) ! a) = p_parent (ps ! a)"
  by (rule field_upd_at, simp)+

lemma parent_rel_mark [simp]: "parent_rel (upd_at ps i (mark_killed c)) = parent_rel ps"
  by (auto simp: parent_rel_def)

lemma descends_mark [simp]: "descends (upd_at ps i (mark_killed c)) k pid = descends ps k pid"
  by (simp add: descends_def)

lemma parents_ok_mark [simp]: "parents_ok (upd_at ps i (mark_killed c)) = parents_ok ps"
  by (simp add: parents_ok_def)

definition kill_at :: "sched_cfg \<Rightarrow> int \<Rightarrow> ptable \<Rightarrow> nat \<Rightarrow> proc" where
  "kill_at c pid ps i =
     (if p_state (ps ! i) \<noteq> UNUSED \<and> descends ps i pid then mark_killed c (ps ! i) else ps ! i)"

lemma killtree_loop_spec:
  assumes "parents_ok ps" "distinct is" "\<forall>i \<in> set is. i < length ps"
  shows "\<exists>ps'. killtree_loop c pid is (found, ps) =
      Some (found \<or> (\<exists>i \<in> set is. p_state (ps ! i) \<noteq> UNUSED \<and> descends ps i pid), ps') \<and>
    length ps' = length ps \<and>
    (\<forall>i < length ps. ps' ! i = (if i \<in> set is then kill_at c pid ps i else ps ! i))"
  using assms
proof (induction "is" arbitrary: found ps)
  case (Cons i "is")
  define hit where "hit \<longleftrightarrow> p_state (ps ! i) \<noteq> UNUSED \<and> descends ps i pid"
  define ps1 where "ps1 = (if hit then upd_at ps i (mark_killed c) else ps)"
  have step: "killtree_loop c pid (i # is) (found, ps) = killtree_loop c pid is (found \<or> hit, ps1)"
    using Cons.prems
    by (cases "descends ps i pid") (auto simp: hit_def ps1_def is_descendant_spec, simp add: descends_step)
  have ps1: "parents_ok ps1" "length ps1 = length ps"
    "\<And>k. descends ps1 k pid = descends ps k pid"
    "\<And>k. k \<noteq> i \<Longrightarrow> ps1 ! k = ps ! k" "ps1 ! i = kill_at c pid ps i"
    using Cons.prems by (auto simp: ps1_def hit_def kill_at_def)
  have "\<exists>ps'. killtree_loop c pid is (found \<or> hit, ps1) =
      Some ((found \<or> hit) \<or> (\<exists>i \<in> set is. p_state (ps1 ! i) \<noteq> UNUSED \<and> descends ps1 i pid), ps') \<and>
    length ps' = length ps1 \<and>
    (\<forall>i < length ps1. ps' ! i = (if i \<in> set is then kill_at c pid ps1 i else ps1 ! i))"
    by (rule Cons.IH) (use Cons.prems ps1 in auto)
  then obtain ps' where ps': "killtree_loop c pid is (found \<or> hit, ps1) =
      Some ((found \<or> hit) \<or> (\<exists>i \<in> set is. p_state (ps1 ! i) \<noteq> UNUSED \<and> descends ps1 i pid), ps')"
    "length ps' = length ps1"
    "\<forall>i < length ps1. ps' ! i = (if i \<in> set is then kill_at c pid ps1 i else ps1 ! i)" by blast
  have "(\<exists>k \<in> set is. p_state (ps1 ! k) \<noteq> UNUSED \<and> descends ps1 k pid) \<longleftrightarrow>
      (\<exists>k \<in> set is. p_state (ps ! k) \<noteq> UNUSED \<and> descends ps k pid)"
    using Cons.prems(2) ps1(3,4) by (metis distinct.simps(2))
  moreover have "\<forall>k < length ps. ps' ! k = (if k \<in> set (i # is) then kill_at c pid ps k else ps ! k)"
  proof (intro allI impI)
    fix k assume k: "k < length ps"
    have "kill_at c pid ps1 k = kill_at c pid ps k" if "k \<noteq> i"
      using ps1(3) ps1(4) [OF that] by (simp add: kill_at_def)
    with k ps'(3) ps1(2,4,5) Cons.prems(2)
    show "ps' ! k = (if k \<in> set (i # is) then kill_at c pid ps k else ps ! k)"
      by (cases "k = i") auto
  qed
  ultimately show ?case
    using step ps' ps1(2) by (auto simp: hit_def)
qed simp

lemma killtree_spec:
  assumes "parents_ok ps"
  shows "killtree c pid ps =
    Some (if \<exists>i < length ps. p_state (ps ! i) \<noteq> UNUSED \<and> descends ps i pid then 0 else -1,
          map (kill_at c pid ps) [0..<length ps])"
proof -
  obtain ps' where ps': "killtree_loop c pid [0..<length ps] (False, ps) =
      Some (\<exists>i \<in> set [0..<length ps]. p_state (ps ! i) \<noteq> UNUSED \<and> descends ps i pid, ps')"
    "length ps' = length ps" "\<forall>i < length ps. ps' ! i = kill_at c pid ps i"
    using killtree_loop_spec [OF assms, of "[0..<length ps]" c pid False] by auto
  then have "ps' = map (kill_at c pid ps) [0..<length ps]" by (auto intro!: nth_equalityI)
  with ps'(1) show ?thesis by (auto simp: killtree_def)
qed

lemma procnum_eq: "procnum ps = length (filter (\<lambda>p. p_state p \<noteq> UNUSED) ps)"
proof -
  have "fold (\<lambda>p n. if p_state p \<noteq> UNUSED then n + 1 else n) ps k =
      k + length (filter (\<lambda>p. p_state p \<noteq> UNUSED) ps)" for k
    by (induction ps arbitrary: k) auto
  then show ?thesis by (simp add: procnum_def)
qed

subsection \<open>Properties\<close>

text \<open>
  \<^verbatim>\<open>wakeup\<close> leaves no process waiting on the channel: sleepers become runnable,
  suspended sleepers become suspended, and every other process is untouched.
  \<^verbatim>\<open>wakeupOneProc\<close> does this to the first waiting process of the table and to no other.
\<close>

theorem wakeup_exact:
  assumes "i < length ps"
  shows "wakeup c ch ps ! i = (if waiting_on ch (ps ! i) then wake_proc c (ps ! i) else ps ! i) \<and>
    \<not> waiting_on ch (wakeup c ch ps ! i) \<and>
    (wakeupOneProc c ch ps ! i =
      (if waiting_on ch (ps ! i) \<and> (\<forall>j < i. \<not> waiting_on ch (ps ! j))
       then wake_proc c (ps ! i) else ps ! i))"
  using assms by (simp add: nth_wakeup nth_wakeupOneProc find_idx_Some_iff)

theorem wakeup_exact_witness:
  "wakeup CfgMLFQ (ChSem 0) [proc0\<lparr>p_state := SLEEPING, p_chan := Some (ChSem 0)\<rparr>] ! 0 =
     wake_proc CfgMLFQ (proc0\<lparr>p_state := SLEEPING, p_chan := Some (ChSem 0)\<rparr>)"
  using wakeup_exact [of 0 "[proc0\<lparr>p_state := SLEEPING, p_chan := Some (ChSem 0)\<rparr>]" CfgMLFQ "ChSem 0"]
  by (simp add: waiting_on_def)

text \<open>
  With parent pointers that stay in the table and have no cycle, \<^verbatim>\<open>killtree\<close> returns,
  and it marks as killed exactly the live processes whose chain of ancestors (themselves included)
  contains the given pid; its result is 0 exactly when there is one.
\<close>

theorem killtree_exact:
  assumes "parents_ok ps"
  shows "\<exists>ps'. killtree c pid ps =
      Some (if \<exists>i < length ps. p_state (ps ! i) \<noteq> UNUSED \<and> descends ps i pid then 0 else -1, ps') \<and>
    length ps' = length ps \<and>
    (\<forall>i < length ps. ps' ! i =
       (if p_state (ps ! i) \<noteq> UNUSED \<and> descends ps i pid then mark_killed c (ps ! i) else ps ! i))"
  using killtree_spec [OF assms] by (simp add: kill_at_def)

text \<open>Three processes: pid 1, its child 2, and 3, a child of 2.\<close>

definition family :: ptable where
  "family = [proc0\<lparr>p_state := RUNNING, p_pid := 1\<rparr>,
     proc0\<lparr>p_state := RUNNABLE, p_pid := 2, p_parent := Some 0\<rparr>,
     proc0\<lparr>p_state := SLEEPING, p_pid := 3, p_parent := Some 1\<rparr>]"

lemma family_ok: "parents_ok family"
proof -
  have len: "length family = 3" by (simp add: family_def)
  have "p_parent (family ! i) = (if i = 0 then None else Some (i - 1))" if "i < 3" for i
    using that by (auto simp: family_def proc0_def less_Suc_eq numeral_eq_Suc)
  then have "(parent_rel family)\<inverse> \<subseteq> less_than" "\<And>i j. (i, j) \<in> parent_rel family \<Longrightarrow> j < 3"
    by (auto simp: parent_rel_def len split: if_splits)
  then show ?thesis
    using wf_subset [OF wf_less_than] by (auto simp: parents_ok_def len)
qed

theorem killtree_exact_witness:
  "\<exists>ps'. killtree CfgMLFQ 2 family = Some (0, ps') \<and> p_killed (ps' ! 2)"
proof -
  have step: "descends family 1 2" "descends family 2 2"
    by (auto simp: descends_step family_def)
  have "\<exists>i < length family. p_state (family ! i) \<noteq> UNUSED \<and> descends family i 2"
    using step by (intro exI [of _ 1]) (simp add: family_def)
  moreover have "2 < length family" "p_state (family ! 2) \<noteq> UNUSED" by (simp_all add: family_def)
  ultimately show ?thesis
    using killtree_exact [OF family_ok, of CfgMLFQ 2] step(2) by auto
qed

end
