(* ===== verification/Banker.thy ===== *)
theory Banker
  imports Proc "HOL-Library.Multiset"
begin

section \<open>Deadlock avoidance: the banker's algorithm\<close>

text \<open>
  The banker of \<^verbatim>\<open>kernel/proc/proc.c\<close>: a global pool of up to eight resource types and, in
  each process, its declared maximum and its current allocation. The state is the pair of
  \<^verbatim>\<open>struct banker_state\<close> and the process table. The system calls \<^verbatim>\<open>sys_banker_*\<close> of
  \<^verbatim>\<open>kernel/sysproc.c\<close> copy the user's array in; that copy is the parameter \<open>copyin_ints\<close>
  (\<open>None\<close> when the copy faults).
\<close>

subsection \<open>State and operations\<close>

record banker_state =
  bk_inited :: bool
  bk_nres :: int
  bk_total :: "int list"
  bk_avail :: "int list"

type_synonym bsys = "banker_state \<times> ptable"

abbreviation bk_n :: "banker_state \<Rightarrow> nat" where
  "bk_n b \<equiv> nat (bk_nres b)"

definition banker_need_ok :: "nat \<Rightarrow> proc \<Rightarrow> int list \<Rightarrow> bool" where
  "banker_need_ok n p work = list_all (\<lambda>r. bkr_max p ! r - bkr_alloc p ! r \<le> work ! r) [0..<n]"

text \<open>One pass of the \<^verbatim>\<open>for\<close> loop inside \<^verbatim>\<open>for(;;)\<close>: new \<open>work\<close>, \<open>finish\<close>, \<open>progress\<close>.\<close>

fun banker_pass :: "nat \<Rightarrow> ptable \<Rightarrow> bool list \<Rightarrow> int list \<Rightarrow> int list \<times> bool list \<times> bool" where
  "banker_pass n (p # ps) (f # fs) work =
     (if f then (let (w, fs', pr) = banker_pass n ps fs work in (w, True # fs', pr))
      else if banker_need_ok n p work
      then (let (w, fs', pr) = banker_pass n ps fs (for_vec n (\<lambda>r x. x + bkr_alloc p ! r) work)
            in (w, True # fs', True))
      else (let (w, fs', pr) = banker_pass n ps fs work in (w, False # fs', pr)))"
| "banker_pass n _ fs work = (work, fs, False)"

lemma banker_pass_progress:
  "banker_pass n ps fs work = (w, fs', pr) \<Longrightarrow>
    length fs' = length fs \<and> count_list fs' False \<le> count_list fs False \<and>
    (pr \<longrightarrow> count_list fs' False < count_list fs False)"
  by (induction n ps fs work arbitrary: w fs' pr rule: banker_pass.induct)
     (fastforce split: if_splits prod.splits)+

function banker_loop :: "nat \<Rightarrow> ptable \<Rightarrow> bool list \<Rightarrow> int list \<Rightarrow> int list \<times> bool list" where
  "banker_loop n ps fs work =
     (let (w, fs', pr) = banker_pass n ps fs work in
      if pr then banker_loop n ps fs' w else (w, fs'))"
  by pat_completeness auto
termination
  by (relation "measure (\<lambda>(n, ps, fs, work). count_list fs False)")
     (auto dest: banker_pass_progress [OF sym])

declare banker_loop.simps [simp del]

definition banker_finish0 :: "ptable \<Rightarrow> bool list" where
  "banker_finish0 ps = map (\<lambda>p. p_state p = UNUSED \<or> \<not> bkr_active p) ps"

definition banker_is_safe_locked :: "bsys \<Rightarrow> bool" where
  "banker_is_safe_locked s =
     (let (b, ps) = s;
          work = map (\<lambda>r. bk_avail b ! r) [0..<bk_n b];
          (w, finish) = banker_loop (bk_n b) ps (banker_finish0 ps) work
      in list_all (\<lambda>f. f) finish)"

definition banker_any_alloc_locked :: "bsys \<Rightarrow> bool" where
  "banker_any_alloc_locked s =
     (let (b, ps) = s in
      list_ex (\<lambda>p. bkr_active p \<and> list_ex (\<lambda>r. bkr_alloc p ! r > 0) [0..<bk_n b]) ps)"

definition banker_init_state :: banker_state where
  "banker_init_state = \<lparr>bk_inited = False, bk_nres = 0, bk_total = replicate BANKER_MAX_RES 0,
     bk_avail = replicate BANKER_MAX_RES 0\<rparr>"

definition banker_clear :: "proc \<Rightarrow> proc" where
  "banker_clear p = p\<lparr>bkr_active := False, bkr_max := replicate BANKER_MAX_RES 0,
     bkr_alloc := replicate BANKER_MAX_RES 0\<rparr>"

definition banker_init :: "int \<Rightarrow> int list \<Rightarrow> bsys \<Rightarrow> int \<times> bsys" where
  "banker_init nres tot s =
     (let (b, ps) = s in
      if nres \<le> 0 \<or> nres > int BANKER_MAX_RES then (-1, s)
      else if list_ex (\<lambda>r. tot ! r < 0) [0..<nat nres] then (-1, s)
      else if bk_inited b \<and> banker_any_alloc_locked s then (-1, s)
      else
        (let vec = for_vec (nat nres) (\<lambda>r _. tot ! r) (replicate BANKER_MAX_RES 0) in
         (0, (\<lparr>bk_inited = True, bk_nres = nres, bk_total = vec, bk_avail = vec\<rparr>,
              map banker_clear ps))))"

definition banker_set_max :: "nat \<Rightarrow> int \<Rightarrow> int list \<Rightarrow> bsys \<Rightarrow> int \<times> bsys" where
  "banker_set_max i nres mx s =
     (let (b, ps) = s; p = ps ! i in
      if nres \<le> 0 \<or> nres > int BANKER_MAX_RES then (-1, s)
      else if \<not> bk_inited b \<or> nres \<noteq> bk_nres b then (-1, s)
      else if list_ex (\<lambda>r. mx ! r < 0 \<or> mx ! r > bk_total b ! r \<or> mx ! r < bkr_alloc p ! r)
                [0..<nat nres] then (-1, s)
      else
        (let p = (if \<not> bkr_active p then p\<lparr>bkr_alloc := replicate BANKER_MAX_RES 0\<rparr> else p);
             p = p\<lparr>bkr_active := True,
                   bkr_max := for_vec (nat nres) (\<lambda>r _. mx ! r) (replicate BANKER_MAX_RES 0)\<rparr>
         in (0, (b, ps[i := p]))))"

text \<open>The tentative grant, and the undo of it when the state is not safe.\<close>

definition banker_grant :: "nat \<Rightarrow> nat \<Rightarrow> int list \<Rightarrow> bsys \<Rightarrow> bsys" where
  "banker_grant i n v s =
     (let (b, ps) = s in
      (b\<lparr>bk_avail := for_vec n (\<lambda>r x. x - v ! r) (bk_avail b)\<rparr>,
       upd_at ps i (\<lambda>p. p\<lparr>bkr_alloc := for_vec n (\<lambda>r x. x + v ! r) (bkr_alloc p)\<rparr>)))"

definition banker_take_back :: "nat \<Rightarrow> nat \<Rightarrow> int list \<Rightarrow> bsys \<Rightarrow> bsys" where
  "banker_take_back i n v s =
     (let (b, ps) = s in
      (b\<lparr>bk_avail := for_vec n (\<lambda>r x. x + v ! r) (bk_avail b)\<rparr>,
       upd_at ps i (\<lambda>p. p\<lparr>bkr_alloc := for_vec n (\<lambda>r x. x - v ! r) (bkr_alloc p)\<rparr>)))"

definition banker_request :: "nat \<Rightarrow> int \<Rightarrow> int list \<Rightarrow> bsys \<Rightarrow> int \<times> bsys" where
  "banker_request i nres req s =
     (let (b, ps) = s; p = ps ! i in
      if nres \<le> 0 \<or> nres > int BANKER_MAX_RES then (-1, s)
      else if \<not> bk_inited b \<or> nres \<noteq> bk_nres b \<or> \<not> bkr_active p then (-1, s)
      else if list_ex (\<lambda>r. req ! r < 0 \<or> req ! r > bkr_max p ! r - bkr_alloc p ! r
                           \<or> req ! r > bk_avail b ! r) [0..<nat nres] then (-1, s)
      else
        (let s' = banker_grant i (nat nres) req s in
         if \<not> banker_is_safe_locked s' then (-1, banker_take_back i (nat nres) req s')
         else (0, s')))"

definition banker_release :: "nat \<Rightarrow> int \<Rightarrow> int list \<Rightarrow> bsys \<Rightarrow> int \<times> bsys" where
  "banker_release i nres rel s =
     (let (b, ps) = s; p = ps ! i in
      if nres \<le> 0 \<or> nres > int BANKER_MAX_RES then (-1, s)
      else if \<not> bk_inited b \<or> nres \<noteq> bk_nres b \<or> \<not> bkr_active p then (-1, s)
      else if list_ex (\<lambda>r. rel ! r < 0 \<or> rel ! r > bkr_alloc p ! r) [0..<nat nres] then (-1, s)
      else (0, banker_take_back i (nat nres) rel s))"

definition banker_release_proc :: "nat \<Rightarrow> bsys \<Rightarrow> bsys" where
  "banker_release_proc i s =
     (let (b, ps) = s; p = ps ! i in
      if \<not> bk_inited b \<or> \<not> bkr_active p then s
      else (b\<lparr>bk_avail := for_vec (bk_n b) (\<lambda>r x. x + bkr_alloc p ! r) (bk_avail b)\<rparr>,
            ps[i := p\<lparr>bkr_alloc := for_vec (bk_n b) (\<lambda>_ _. 0) (bkr_alloc p),
                      bkr_max := for_vec (bk_n b) (\<lambda>_ _. 0) (bkr_max p),
                      bkr_active := False\<rparr>]))"

text \<open>The system calls: the calling process is \<open>i\<close>.\<close>

definition sys_banker_init :: "(nat \<Rightarrow> int list option) \<Rightarrow> int \<Rightarrow> bsys \<Rightarrow> int \<times> bsys" where
  "sys_banker_init copyin_ints n s =
     (if n \<le> 0 \<or> n > int BANKER_MAX_RES then (-1, s)
      else case copyin_ints (nat n) of None \<Rightarrow> (-1, s) | Some tot \<Rightarrow> banker_init n tot s)"

definition sys_banker_set_max :: "(nat \<Rightarrow> int list option) \<Rightarrow> nat \<Rightarrow> int \<Rightarrow> bsys \<Rightarrow> int \<times> bsys" where
  "sys_banker_set_max copyin_ints i n s =
     (if n \<le> 0 \<or> n > int BANKER_MAX_RES then (-1, s)
      else case copyin_ints (nat n) of None \<Rightarrow> (-1, s) | Some mx \<Rightarrow> banker_set_max i n mx s)"

definition sys_banker_request :: "(nat \<Rightarrow> int list option) \<Rightarrow> nat \<Rightarrow> int \<Rightarrow> bsys \<Rightarrow> int \<times> bsys" where
  "sys_banker_request copyin_ints i n s =
     (if n \<le> 0 \<or> n > int BANKER_MAX_RES then (-1, s)
      else case copyin_ints (nat n) of None \<Rightarrow> (-1, s) | Some req \<Rightarrow> banker_request i n req s)"

definition sys_banker_release :: "(nat \<Rightarrow> int list option) \<Rightarrow> nat \<Rightarrow> int \<Rightarrow> bsys \<Rightarrow> int \<times> bsys" where
  "sys_banker_release copyin_ints i n s =
     (if n \<le> 0 \<or> n > int BANKER_MAX_RES then (-1, s)
      else case copyin_ints (nat n) of None \<Rightarrow> (-1, s) | Some rel \<Rightarrow> banker_release i n rel s)"

subsection \<open>Specification: a safe completion order\<close>

text \<open>
  The textbook notion the code is meant to decide: an order of the unfinished processes in which
  each can obtain its remaining need from what is free plus what its predecessors return.
\<close>

fun banker_seq_ok :: "nat \<Rightarrow> int list \<Rightarrow> proc list \<Rightarrow> bool" where
  "banker_seq_ok n work [] = True"
| "banker_seq_ok n work (p # order) =
     (banker_need_ok n p work \<and>
      banker_seq_ok n (for_vec n (\<lambda>r x. x + bkr_alloc p ! r) work) order)"

definition unfinished :: "ptable \<Rightarrow> proc list" where
  "unfinished ps = filter (\<lambda>p. p_state p \<noteq> UNUSED \<and> bkr_active p) ps"

definition safe_state :: "bsys \<Rightarrow> bool" where
  "safe_state s \<longleftrightarrow>
     (\<exists>order. mset order = mset (unfinished (snd s)) \<and>
        banker_seq_ok (bk_n (fst s)) (take (bk_n (fst s)) (bk_avail (fst s))) order)"

subsection \<open>The safety check decides the specification\<close>

definition seq_work :: "nat \<Rightarrow> int list \<Rightarrow> proc list \<Rightarrow> int list" where
  "seq_work n work ps = fold (\<lambda>p. for_vec n (\<lambda>r x. x + bkr_alloc p ! r)) ps work"

definition left :: "ptable \<Rightarrow> bool list \<Rightarrow> proc list" where
  "left ps fs = map fst (filter (\<lambda>(p, f). \<not> f) (zip ps fs))"

lemma left_simps [simp]:
  "left [] fs = []" "left ps [] = []"
  "left (p # ps) (f # fs) = (if f then left ps fs else p # left ps fs)"
  by (auto simp: left_def)

lemma seq_work_simps [simp]:
  "seq_work n w [] = w"
  "seq_work n w (p # ps) = seq_work n (for_vec n (\<lambda>r x. x + bkr_alloc p ! r) w) ps"
  by (simp_all add: seq_work_def)

lemma length_seq_work [simp]: "length (seq_work n w ps) = length w"
  by (induction ps arbitrary: w) auto

lemma seq_work_append: "seq_work n w (xs @ ys) = seq_work n (seq_work n w xs) ys"
  by (simp add: seq_work_def)

lemma banker_seq_ok_append:
  "banker_seq_ok n w (xs @ ys) \<longleftrightarrow> banker_seq_ok n w xs \<and> banker_seq_ok n (seq_work n w xs) ys"
  by (induction xs arbitrary: w) auto

lemma nth_seq_work:
  "r < n \<Longrightarrow> n \<le> length w \<Longrightarrow>
    seq_work n w ps ! r = w ! r + (\<Sum>p \<leftarrow> ps. bkr_alloc p ! r)"
  by (induction ps arbitrary: w) auto

lemma need_ok_mono:
  "banker_need_ok n p w \<Longrightarrow> (\<And>r. r < n \<Longrightarrow> w ! r \<le> w' ! r) \<Longrightarrow> banker_need_ok n p w'"
  by (force simp: banker_need_ok_def list_all_upt)

lemma banker_pass_spec:
  "banker_pass n ps fs w = (w', fs', pr) \<Longrightarrow> length ps = length fs \<Longrightarrow>
    \<exists>done. banker_seq_ok n w done \<and> w' = seq_work n w done \<and>
      mset (left ps fs) = mset done + mset (left ps fs') \<and>
      (\<not> pr \<longrightarrow> w' = w \<and> (\<forall>p \<in> set (left ps fs'). \<not> banker_need_ok n p w))"
proof (induction n ps fs w arbitrary: w' fs' pr rule: banker_pass.induct)
  case (1 n p ps f fs w)
  let ?w1 = "for_vec n (\<lambda>r x. x + bkr_alloc p ! r) w"
  consider "f" | "\<not> f" "banker_need_ok n p w" | "\<not> f" "\<not> banker_need_ok n p w" by blast
  then show ?case
  proof cases
    case 1
    then show ?thesis
      using "1.IH"(1) "1.prems" by (fastforce split: prod.splits)
  next
    case 2
    obtain w2 fs2 pr2 where r: "banker_pass n ps fs ?w1 = (w2, fs2, pr2)"
      by (metis prod_cases3)
    with 2 "1.prems" have eqs: "w' = w2" "fs' = True # fs2" pr by auto
    from "1.IH"(2) [OF 2 r] "1.prems" obtain d where
      "banker_seq_ok n ?w1 d" "w2 = seq_work n ?w1 d"
      "mset (left ps fs) = mset d + mset (left ps fs2)" by auto
    with 2 eqs show ?thesis by (intro exI [of _ "p # d"]) auto
  next
    case 3
    then show ?thesis
      using "1.IH"(3) "1.prems" by (fastforce split: prod.splits)
  qed
qed (auto intro: exI [of _ "[]"])

lemma banker_loop_spec:
  "banker_loop n ps fs w = (w', fs') \<Longrightarrow> length ps = length fs \<Longrightarrow>
    length fs' = length fs \<and>
    (\<exists>done. banker_seq_ok n w done \<and> w' = seq_work n w done \<and>
      mset (left ps fs) = mset done + mset (left ps fs') \<and>
      (\<forall>p \<in> set (left ps fs'). \<not> banker_need_ok n p w'))"
proof (induction n ps fs w rule: banker_loop.induct)
  case (1 n ps fs w)
  obtain w1 fs1 pr where pass: "banker_pass n ps fs w = (w1, fs1, pr)"
    by (metis prod_cases3)
  from banker_pass_progress [OF pass] have len: "length fs1 = length fs" by simp
  from banker_pass_spec [OF pass "1.prems"(2)] obtain d where
    d: "banker_seq_ok n w d" "w1 = seq_work n w d"
      "mset (left ps fs) = mset d + mset (left ps fs1)"
      "\<not> pr \<longrightarrow> w1 = w \<and> (\<forall>p \<in> set (left ps fs1). \<not> banker_need_ok n p w)" by blast
  show ?case
  proof (cases pr)
    case True
    then have "banker_loop n ps fs1 w1 = (w', fs')"
      using "1.prems"(1) pass by (simp add: banker_loop.simps [of n ps fs w])
    from "1.IH" [OF pass [symmetric] refl refl True this] len "1.prems"(2) obtain e where
      "length fs' = length fs" "banker_seq_ok n w1 e" "w' = seq_work n w1 e"
      "mset (left ps fs1) = mset e + mset (left ps fs')"
      "\<forall>p \<in> set (left ps fs'). \<not> banker_need_ok n p w'" by auto
    with d show ?thesis
      by (intro conjI exI [of _ "d @ e"]) (auto simp: banker_seq_ok_append seq_work_append)
  next
    case False
    with pass "1.prems"(1) have "w' = w1" "fs' = fs1"
      by (auto simp: banker_loop.simps [of n ps fs w])
    with d False len show ?thesis by auto
  qed
qed

lemma seq_ok_next:
  assumes "banker_seq_ok n w order" "mset order = mset d + M" "M \<noteq> {#}"
    and "n \<le> length w"
    and "\<And>p r. p \<in> set d \<Longrightarrow> r < n \<Longrightarrow> 0 \<le> bkr_alloc p ! r"
  shows "\<exists>p \<in># M. banker_need_ok n p (seq_work n w d)"
  using assms
proof (induction order arbitrary: w d)
  case (Cons p order)
  show ?case
  proof (cases "p \<in> set d")
    case True
    let ?w = "for_vec n (\<lambda>r x. x + bkr_alloc p ! r) w"
    obtain d' where dd: "mset d = add_mset p (mset d')" "set d' \<subseteq> set d"
      using True set_remove1_subset [of p d] by (metis insert_DiffM mset_remove1 set_mset_mset)
    with Cons.prems(2) have "mset order = mset d' + M" by simp
    moreover have "banker_seq_ok n ?w order" using Cons.prems(1) by simp
    moreover have "\<And>q r. q \<in> set d' \<Longrightarrow> r < n \<Longrightarrow> 0 \<le> bkr_alloc q ! r"
      using Cons.prems(5) dd(2) by blast
    ultimately obtain q where q: "q \<in># M" "banker_need_ok n q (seq_work n ?w d')"
      using Cons.IH [of ?w d'] Cons.prems(3,4) by auto
    have "seq_work n ?w d' ! r = seq_work n w d ! r" if "r < n" for r
    proof -
      have sum: "(\<Sum>q \<leftarrow> xs. bkr_alloc q ! r) = (\<Sum>q \<in># mset xs. bkr_alloc q ! r)" for xs
        by (simp add: sum_mset_sum_list flip: mset_map)
      show ?thesis
        using that Cons.prems(4) by (simp add: nth_seq_work sum dd(1))
    qed
    then have "banker_need_ok n q (seq_work n w d)" using q(2) by (auto intro: need_ok_mono)
    with q(1) show ?thesis by blast
  next
    case False
    with Cons.prems(2) have "p \<in># M"
      by (metis list.set_intros(1) set_mset_mset union_iff)
    moreover have "banker_need_ok n p (seq_work n w d)"
    proof (rule need_ok_mono)
      show "banker_need_ok n p w" using Cons.prems(1) by simp
      fix r assume "r < n"
      with Cons.prems(4,5) show "w ! r \<le> seq_work n w d ! r"
        by (simp add: nth_seq_work) (rule sum_list_nonneg, auto)
    qed
    ultimately show ?thesis by blast
  qed
qed simp

lemma length_finish0 [simp]: "length (banker_finish0 ps) = length ps"
  by (simp add: banker_finish0_def)

lemma left_finish0: "left ps (banker_finish0 ps) = unfinished ps"
  by (induction ps) (auto simp: banker_finish0_def unfinished_def)

lemma left_Nil_iff: "length ps = length fs \<Longrightarrow> left ps fs = [] \<longleftrightarrow> list_all (\<lambda>f. f) fs"
  by (induction ps fs rule: list_induct2) auto

lemma map_nth_take: "n \<le> length xs \<Longrightarrow> map ((!) xs) [0..<n] = take n xs"
  by (rule nth_equalityI) auto

lemma banker_safe_iff:
  assumes len: "bk_n b \<le> length (bk_avail b)"
    and nonneg: "\<And>p r. p \<in> set (unfinished ps) \<Longrightarrow> r < bk_n b \<Longrightarrow> 0 \<le> bkr_alloc p ! r"
  shows "banker_is_safe_locked (b, ps) \<longleftrightarrow> safe_state (b, ps)"
proof -
  let ?n = "bk_n b" and ?w = "take (bk_n b) (bk_avail b)" and ?fs = "banker_finish0 ps"
  obtain w' fs' where loop: "banker_loop ?n ps ?fs ?w = (w', fs')" by fastforce
  have "length ps = length ?fs" by simp
  from banker_loop_spec [OF loop this] obtain d where
    d: "banker_seq_ok ?n ?w d" "w' = seq_work ?n ?w d"
      "mset (unfinished ps) = mset d + mset (left ps fs')" "length fs' = length ps"
      "\<forall>p \<in> set (left ps fs'). \<not> banker_need_ok ?n p w'"
    by (auto simp: left_finish0)
  have code: "banker_is_safe_locked (b, ps) \<longleftrightarrow> left ps fs' = []"
    using loop d(4) len by (simp add: banker_is_safe_locked_def left_Nil_iff map_nth_take)
  show ?thesis
  proof
    assume "banker_is_safe_locked (b, ps)"
    with code d show "safe_state (b, ps)" by (auto simp: safe_state_def)
  next
    assume "safe_state (b, ps)"
    then obtain order where o: "mset order = mset (unfinished ps)" "banker_seq_ok ?n ?w order"
      by (auto simp: safe_state_def)
    show "banker_is_safe_locked (b, ps)"
    proof (rule ccontr)
      assume "\<not> ?thesis"
      then have ne: "mset (left ps fs') \<noteq> {#}" by (simp add: code)
      have "set d \<subseteq> set (unfinished ps)" using d(3) by (metis set_mset_mset set_mset_union sup_ge1)
      with nonneg have "\<And>p r. p \<in> set d \<Longrightarrow> r < ?n \<Longrightarrow> 0 \<le> bkr_alloc p ! r" by blast
      from seq_ok_next [OF o(2) _ ne _ this, unfolded o(1), OF d(3)] len d(2,5)
      show False by auto
    qed
  qed
qed

subsection \<open>The pool invariant\<close>

text \<open>
  Conservation (what is free plus what active processes hold is the total), the bounds
  \<open>0 \<le> alloc \<le> max \<le> total\<close> for active processes, and that a process outside the
  banker holds nothing.
\<close>

definition held :: "nat \<Rightarrow> proc \<Rightarrow> int" where
  "held r p = (if bkr_active p then bkr_alloc p ! r else 0)"

definition proc_ok :: "banker_state \<Rightarrow> proc \<Rightarrow> bool" where
  "proc_ok b p \<longleftrightarrow> length (bkr_max p) = BANKER_MAX_RES \<and> length (bkr_alloc p) = BANKER_MAX_RES \<and>
     (if bkr_active p
      then bk_inited b \<and> (\<forall>r < BANKER_MAX_RES. if r < bk_n b
             then 0 \<le> bkr_alloc p ! r \<and> bkr_alloc p ! r \<le> bkr_max p ! r \<and>
                  bkr_max p ! r \<le> bk_total b ! r
             else bkr_alloc p ! r = 0)
      else (\<forall>r < BANKER_MAX_RES. bkr_alloc p ! r = 0))"

definition banker_inv :: "bsys \<Rightarrow> bool" where
  "banker_inv s \<longleftrightarrow> (let (b, ps) = s in
     length (bk_avail b) = BANKER_MAX_RES \<and> length (bk_total b) = BANKER_MAX_RES \<and>
     bk_n b \<le> BANKER_MAX_RES \<and> (\<forall>p \<in> set ps. proc_ok b p) \<and>
     (\<forall>r < bk_n b. 0 \<le> bk_avail b ! r \<and>
        bk_avail b ! r + (\<Sum>p \<leftarrow> ps. held r p) = bk_total b ! r))"

lemma banker_invD:
  assumes "banker_inv (b, ps)"
  shows "length (bk_avail b) = BANKER_MAX_RES" "length (bk_total b) = BANKER_MAX_RES"
    "bk_n b \<le> BANKER_MAX_RES" "\<And>p. p \<in> set ps \<Longrightarrow> proc_ok b p"
    "\<And>r. r < bk_n b \<Longrightarrow> 0 \<le> bk_avail b ! r"
    "\<And>r. r < bk_n b \<Longrightarrow> bk_avail b ! r + (\<Sum>p \<leftarrow> ps. held r p) = bk_total b ! r"
  using assms by (auto simp: banker_inv_def)

lemma banker_inv_upd:
  assumes inv: "banker_inv (b, ps)" and i: "i < length ps"
    and b': "bk_inited b' = bk_inited b" "bk_nres b' = bk_nres b" "bk_total b' = bk_total b"
      "length (bk_avail b') = BANKER_MAX_RES"
    and ok: "proc_ok b p'"
    and avail: "\<And>r. r < bk_n b \<Longrightarrow> 0 \<le> bk_avail b' ! r"
      "\<And>r. r < bk_n b \<Longrightarrow> bk_avail b' ! r + held r p' = bk_avail b ! r + held r (ps ! i)"
  shows "banker_inv (b', ps[i := p'])"
proof -
  have ok': "proc_ok b' p" if "p \<in> set (ps[i := p'])" for p
    using that set_update_subset_insert [of ps i p'] ok banker_invD(4) [OF inv] b'
    by (auto simp: proc_ok_def)
  have "bk_avail b' ! r + (\<Sum>p \<leftarrow> ps[i := p']. held r p) = bk_total b ! r"
    if "r < bk_n b" for r
    using avail(2) [OF that] banker_invD(6) [OF inv that] by (simp add: sum_list_upd i)
  with ok' avail(1) show ?thesis
    using banker_invD(2,3) [OF inv] b' by (simp add: banker_inv_def)
qed

lemma banker_inv_safe_iff:
  assumes "banker_inv (b, ps)"
  shows "banker_is_safe_locked (b, ps) \<longleftrightarrow> safe_state (b, ps)"
proof (rule banker_safe_iff)
  show "bk_n b \<le> length (bk_avail b)" using banker_invD(1,3) [OF assms] by simp
  fix p r assume p: "p \<in> set (unfinished ps)" "r < bk_n b"
  then have "proc_ok b p" "bkr_active p" "r < BANKER_MAX_RES"
    using banker_invD(3,4) [OF assms] by (auto simp: unfinished_def)
  with p show "0 \<le> bkr_alloc p ! r" by (auto simp: proc_ok_def)
qed

lemma banker_init_inv:
  assumes "banker_inv (b, ps)"
  shows "banker_inv (snd (banker_init nres tot (b, ps)))"
proof (cases "fst (banker_init nres tot (b, ps)) = 0")
  case True
  have held0: "(\<Sum>p \<leftarrow> ps. held r (banker_clear p)) = 0" for r
    by (induction ps) (auto simp: held_def banker_clear_def)
  have ok: "proc_ok b' (banker_clear p)" for b' p
    by (simp add: proc_ok_def banker_clear_def)
  from True have "0 < nres" "nres \<le> 8" "\<forall>r < nat nres. 0 \<le> tot ! r"
    by (auto simp: banker_init_def Let_def not_list_ex_upt split: if_splits)
  with True ok held0 show ?thesis
    by (auto simp: banker_init_def banker_inv_def Let_def comp_def split: if_splits)
next
  case False
  with assms show ?thesis by (auto simp: banker_init_def Let_def split: if_splits)
qed

lemma proc_okD:
  assumes "banker_inv (b, ps)" "i < length ps"
  shows "proc_ok b (ps ! i)"
  using banker_invD(4) [OF assms(1)] assms(2) by simp

lemma banker_set_max_inv:
  assumes inv: "banker_inv (b, ps)" and i: "i < length ps"
  shows "banker_inv (snd (banker_set_max i nres mx (b, ps)))"
proof (cases "fst (banker_set_max i nres mx (b, ps)) = 0")
  case True
  let ?p = "ps ! i"
  define p' where "p' = (if bkr_active ?p then ?p else ?p\<lparr>bkr_alloc := replicate BANKER_MAX_RES 0\<rparr>)
    \<lparr>bkr_active := True,
     bkr_max := for_vec (bk_n b) (\<lambda>r _. mx ! r) (replicate BANKER_MAX_RES 0)\<rparr>"
  from True have g: "bk_inited b" "nres = bk_nres b"
    "\<And>r. r < bk_n b \<Longrightarrow> 0 \<le> mx ! r \<and> mx ! r \<le> bk_total b ! r \<and> bkr_alloc ?p ! r \<le> mx ! r"
    by (auto simp: banker_set_max_def Let_def not_list_ex_upt split: if_splits)
  have res: "banker_set_max i nres mx (b, ps) = (0, (b, ps[i := p']))"
    using True by (auto simp: banker_set_max_def Let_def p'_def split: if_splits)
  have "proc_ok b p'" "\<And>r. r < bk_n b \<Longrightarrow> held r p' = held r ?p"
    using proc_okD [OF inv i] g banker_invD(3) [OF inv]
    by (auto simp: p'_def proc_ok_def held_def split: if_splits)
  with res show ?thesis
    by (simp add: banker_inv_upd [OF inv i] banker_invD [OF inv])
next
  case False
  with inv show ?thesis by (auto simp: banker_set_max_def Let_def split: if_splits)
qed

lemma banker_take_back_inv:
  assumes inv: "banker_inv (b, ps)" and i: "i < length ps"
    and v: "bkr_active (ps ! i)" "n = bk_n b"
      "\<And>r. r < n \<Longrightarrow> 0 \<le> v ! r \<and> v ! r \<le> bkr_alloc (ps ! i) ! r"
  shows "banker_inv (banker_take_back i n v (b, ps))"
proof -
  let ?p = "(ps ! i)\<lparr>bkr_alloc := for_vec n (\<lambda>r x. x - v ! r) (bkr_alloc (ps ! i))\<rparr>"
  have ok: "proc_ok b ?p"
    unfolding proc_ok_def using proc_okD [OF inv i] v by (fastforce simp: proc_ok_def)
  show ?thesis
    unfolding banker_take_back_def Let_def prod.case
  proof (rule banker_inv_upd [OF inv i _ _ _ _ ok])
    fix r assume r: "r < bk_n b"
    with banker_invD [OF inv] have "r < length (bk_avail b)" by simp
    moreover have "r < length (bkr_alloc (ps ! i))"
      using r banker_invD(3) [OF inv] proc_okD [OF inv i] by (simp add: proc_ok_def)
    ultimately show "0 \<le> bk_avail (b\<lparr>bk_avail := for_vec n (\<lambda>r x. x + v ! r) (bk_avail b)\<rparr>) ! r"
      and "bk_avail (b\<lparr>bk_avail := for_vec n (\<lambda>r x. x + v ! r) (bk_avail b)\<rparr>) ! r + held r ?p
           = bk_avail b ! r + held r (ps ! i)"
      using v r banker_invD(5) [OF inv r] by (auto simp: held_def)
  qed (use banker_invD [OF inv] in auto)
qed

lemma banker_grant_inv:
  assumes inv: "banker_inv (b, ps)" and i: "i < length ps"
    and v: "bkr_active (ps ! i)" "n = bk_n b"
      "\<And>r. r < n \<Longrightarrow> 0 \<le> v ! r \<and> v ! r \<le> bkr_max (ps ! i) ! r - bkr_alloc (ps ! i) ! r \<and>
         v ! r \<le> bk_avail b ! r"
  shows "banker_inv (banker_grant i n v (b, ps))"
proof -
  let ?p = "(ps ! i)\<lparr>bkr_alloc := for_vec n (\<lambda>r x. x + v ! r) (bkr_alloc (ps ! i))\<rparr>"
  have ok: "proc_ok b ?p"
    unfolding proc_ok_def using proc_okD [OF inv i] v by (fastforce simp: proc_ok_def)
  show ?thesis
    unfolding banker_grant_def Let_def prod.case
  proof (rule banker_inv_upd [OF inv i _ _ _ _ ok])
    fix r assume r: "r < bk_n b"
    with banker_invD [OF inv] have "r < length (bk_avail b)" by simp
    moreover have "r < length (bkr_alloc (ps ! i))"
      using r banker_invD(3) [OF inv] proc_okD [OF inv i] by (simp add: proc_ok_def)
    ultimately show "0 \<le> bk_avail (b\<lparr>bk_avail := for_vec n (\<lambda>r x. x - v ! r) (bk_avail b)\<rparr>) ! r"
      and "bk_avail (b\<lparr>bk_avail := for_vec n (\<lambda>r x. x - v ! r) (bk_avail b)\<rparr>) ! r + held r ?p
           = bk_avail b ! r + held r (ps ! i)"
      using v r by (auto simp: held_def)
  qed (use banker_invD [OF inv] in auto)
qed

lemma banker_take_back_grant:
  assumes "i < length ps"
  shows "banker_take_back i n v (banker_grant i n v (b, ps)) = (b, ps)"
proof -
  have "for_vec n (\<lambda>r x. x - v ! r) (for_vec n (\<lambda>r x. x + v ! r) xs) = xs"
    and "for_vec n (\<lambda>r x. x + v ! r) (for_vec n (\<lambda>r x. x - v ! r) xs) = xs" for xs :: "int list"
    by (simp_all add: for_vec_for_vec for_vec_id)
  with assms show ?thesis by (simp add: banker_grant_def banker_take_back_def)
qed

lemma banker_request_ok:
  assumes "fst (banker_request i nres req (b, ps)) = 0"
  shows "0 < nres" "bk_inited b" "nres = bk_nres b" "bkr_active (ps ! i)"
    "\<And>r. r < bk_n b \<Longrightarrow> 0 \<le> req ! r \<and> req ! r \<le> bkr_max (ps ! i) ! r - bkr_alloc (ps ! i) ! r \<and>
       req ! r \<le> bk_avail b ! r"
    "banker_is_safe_locked (banker_grant i (bk_n b) req (b, ps))"
    "banker_request i nres req (b, ps) = (0, banker_grant i (bk_n b) req (b, ps))"
  using assms by (auto simp: banker_request_def Let_def not_list_ex_upt split: if_splits)

lemma banker_request_denied:
  assumes "fst (banker_request i nres req (b, ps)) \<noteq> 0" "i < length ps"
  shows "banker_request i nres req (b, ps) = (-1, (b, ps))"
  using assms(1) banker_take_back_grant [OF assms(2)]
  by (auto simp: banker_request_def Let_def split: if_splits)

lemma banker_request_inv:
  assumes inv: "banker_inv (b, ps)" and i: "i < length ps"
  shows "banker_inv (snd (banker_request i nres req (b, ps)))"
proof (cases "fst (banker_request i nres req (b, ps)) = 0")
  case True
  note ok = banker_request_ok [OF True]
  have "banker_inv (banker_grant i (bk_n b) req (b, ps))"
    by (rule banker_grant_inv [OF inv i]) (use ok in auto)
  with ok(7) show ?thesis by simp
qed (simp add: banker_request_denied i inv)

lemma banker_release_ok:
  assumes "fst (banker_release i nres rel (b, ps)) = 0"
  shows "bk_inited b" "nres = bk_nres b" "bkr_active (ps ! i)"
    "\<And>r. r < bk_n b \<Longrightarrow> 0 \<le> rel ! r \<and> rel ! r \<le> bkr_alloc (ps ! i) ! r"
    "banker_release i nres rel (b, ps) = (0, banker_take_back i (bk_n b) rel (b, ps))"
  using assms by (auto simp: banker_release_def Let_def not_list_ex_upt split: if_splits)

lemma banker_release_denied:
  assumes "fst (banker_release i nres rel (b, ps)) \<noteq> 0"
  shows "banker_release i nres rel (b, ps) = (-1, (b, ps))"
  using assms by (auto simp: banker_release_def Let_def split: if_splits)

lemma banker_release_inv:
  assumes inv: "banker_inv (b, ps)" and i: "i < length ps"
  shows "banker_inv (snd (banker_release i nres rel (b, ps)))"
proof (cases "fst (banker_release i nres rel (b, ps)) = 0")
  case True
  note ok = banker_release_ok [OF True]
  have "banker_inv (banker_take_back i (bk_n b) rel (b, ps))"
    by (rule banker_take_back_inv [OF inv i]) (use ok in auto)
  with ok(5) show ?thesis by simp
qed (simp add: banker_release_denied inv)

lemma banker_release_proc_inv:
  assumes inv: "banker_inv (b, ps)" and i: "i < length ps"
  shows "banker_inv (banker_release_proc i (b, ps))"
proof (cases "bk_inited b \<and> bkr_active (ps ! i)")
  case True
  note D = banker_invD [OF inv] proc_okD [OF inv i]
  have "proc_ok b ((ps ! i)\<lparr>bkr_alloc := for_vec (bk_n b) (\<lambda>_ _. 0) (bkr_alloc (ps ! i)),
          bkr_max := for_vec (bk_n b) (\<lambda>_ _. 0) (bkr_max (ps ! i)), bkr_active := False\<rparr>)"
    using D(7) True by (auto simp: proc_ok_def)
  then show ?thesis
    using True D unfolding banker_release_proc_def Let_def prod.case
    by (auto intro!: banker_inv_upd [OF inv i] simp: held_def proc_ok_def)
qed (use inv in \<open>auto simp: banker_release_proc_def\<close>)

subsection \<open>Every call keeps a safe state safe\<close>

lemma seq_ok_mono:
  assumes "banker_seq_ok n w order" "\<And>r. r < n \<Longrightarrow> w ! r \<le> w' ! r"
    "n \<le> length w" "n \<le> length w'"
  shows "banker_seq_ok n w' order"
  using assms
proof (induction order arbitrary: w w')
  case (Cons p order)
  have "banker_seq_ok n (for_vec n (\<lambda>r x. x + bkr_alloc p ! r) w') order"
    by (rule Cons.IH [of "for_vec n (\<lambda>r x. x + bkr_alloc p ! r) w"]) (use Cons.prems in auto)
  with Cons.prems(1,2) show ?case by (auto intro: need_ok_mono)
qed simp

text \<open>Replacing one process of the order: \<open>m\<close> takes its place, and hands on at least as much.\<close>

lemma seq_ok_replace:
  assumes ok: "banker_seq_ok n w (pre @ p # post)" and len: "length w = n" "length w' = n"
    and w': "\<And>r. r < n \<Longrightarrow> w ! r \<le> w' ! r"
    and m: "banker_seq_ok n (seq_work n w' pre) m"
    and more: "\<And>r. r < n \<Longrightarrow> w ! r + bkr_alloc p ! r \<le> w' ! r + (\<Sum>q \<leftarrow> m. bkr_alloc q ! r)"
  shows "banker_seq_ok n w' (pre @ m @ post)"
proof -
  from ok have split: "banker_seq_ok n w pre" "banker_seq_ok n (seq_work n w (pre @ [p])) post"
    by (simp_all add: banker_seq_ok_append seq_work_append)
  have "banker_seq_ok n w' pre"
    by (rule seq_ok_mono [OF split(1) w']) (simp_all add: len)
  moreover have "banker_seq_ok n (seq_work n w' (pre @ m)) post"
  proof (rule seq_ok_mono [OF split(2)])
    fix r assume "r < n"
    with more [OF this] show "seq_work n w (pre @ [p]) ! r \<le> seq_work n w' (pre @ m) ! r"
      by (simp add: nth_seq_work len)
  qed (simp_all add: len)
  ultimately show ?thesis using m by (simp add: banker_seq_ok_append seq_work_append)
qed

definition in_banker :: "proc \<Rightarrow> bool" where
  "in_banker p \<longleftrightarrow> p_state p \<noteq> UNUSED \<and> bkr_active p"

lemma mset_unfinished_upd:
  assumes "i < length ps"
  shows "mset (unfinished (ps[i := p'])) =
    (if in_banker p' then {#p'#} else {#}) +
    (mset (unfinished ps) - (if in_banker (ps ! i) then {#ps ! i#} else {#}))"
proof -
  have "unfinished qs = filter in_banker qs" for qs
    by (simp add: unfinished_def in_banker_def [abs_def])
  with assms show ?thesis by (simp add: mset_update mset_filter filter_diff_mset)
qed

lemma unfinished_split:
  assumes "i < length ps" "in_banker (ps ! i)" "mset order = mset (unfinished ps)"
  obtains pre post where "order = pre @ ps ! i # post"
    "mset (pre @ post) = mset (unfinished ps) - {#ps ! i#}"
proof -
  from assms have "ps ! i \<in> set (unfinished ps)"
    by (simp add: unfinished_def in_banker_def)
  with assms(3) have "ps ! i \<in> set order" by (metis set_mset_mset)
  then obtain pre post where "order = pre @ ps ! i # post" by (meson split_list)
  with assms(3) that show thesis by (metis add_mset_remove_trivial mset_append mset.simps(2) union_mset_add_mset_right)
qed

lemma safe_stateI:
  "mset order = mset (unfinished ps) \<Longrightarrow> banker_seq_ok (bk_n b) (take (bk_n b) (bk_avail b)) order \<Longrightarrow>
    safe_state (b, ps)"
  by (auto simp: safe_state_def)

lemma safe_state_upd:
  assumes inv: "banker_inv (b, ps)" and i: "i < length ps" "p_state (ps ! i) \<noteq> UNUSED"
    "bkr_active (ps ! i)" and safe: "safe_state (b, ps)"
    and b': "bk_nres b' = bk_nres b" "length (bk_avail b') = BANKER_MAX_RES"
      "\<And>r. r < bk_n b \<Longrightarrow> bk_avail b ! r \<le> bk_avail b' ! r"
    and sum: "\<And>r. r < bk_n b \<Longrightarrow> bk_avail b ! r + bkr_alloc (ps ! i) ! r \<le> bk_avail b' ! r + held r p'"
    and need: "bkr_active p' \<Longrightarrow> p_state p' \<noteq> UNUSED \<and>
      (\<forall>r < bk_n b. bkr_max p' ! r - bkr_alloc p' ! r - bk_avail b' ! r \<le>
         bkr_max (ps ! i) ! r - bkr_alloc (ps ! i) ! r - bk_avail b ! r)"
  shows "safe_state (b', ps[i := p'])"
proof -
  let ?n = "bk_n b" and ?w = "take (bk_n b) (bk_avail b)" and ?w' = "take (bk_n b) (bk_avail b')"
  let ?m = "if bkr_active p' then [p'] else []"
  note D = banker_invD [OF inv]
  from safe obtain order where o: "mset order = mset (unfinished ps)" "banker_seq_ok ?n ?w order"
    by (auto simp: safe_state_def)
  have inb: "in_banker (ps ! i)" using i by (simp add: in_banker_def)
  from unfinished_split [OF i(1) inb o(1)] obtain pre post where
    order: "order = pre @ ps ! i # post" "mset (pre @ post) = mset (unfinished ps) - {#ps ! i#}"
    by blast
  have len: "length ?w = ?n" "length ?w' = ?n" using D(1,3) b'(2) by auto
  have "banker_need_ok ?n (ps ! i) (seq_work ?n ?w pre)"
    using o(2) by (simp add: order(1) banker_seq_ok_append)
  then have m: "banker_seq_ok ?n (seq_work ?n ?w' pre) ?m"
    using need len by (fastforce simp: banker_need_ok_def list_all_upt nth_seq_work)
  from o(2) have "banker_seq_ok ?n ?w' (pre @ ?m @ post)"
    unfolding order(1)
    by (rule seq_ok_replace [OF _ len _ m]) (use b'(3) sum in \<open>auto simp: held_def split: if_splits\<close>)
  moreover have "mset (pre @ ?m @ post) = mset (unfinished (ps[i := p']))"
    using order(2) inb need i(1) by (simp add: mset_unfinished_upd in_banker_def)
  ultimately show ?thesis
    using safe_stateI [of "pre @ ?m @ post" "ps[i := p']" b'] b'(1) by simp
qed

lemma banker_release_safe:
  assumes inv: "banker_inv (b, ps)" and i: "i < length ps" "p_state (ps ! i) \<noteq> UNUSED"
    and safe: "safe_state (b, ps)"
  shows "safe_state (snd (banker_release i nres rel (b, ps)))"
proof (cases "fst (banker_release i nres rel (b, ps)) = 0")
  case True
  note ok = banker_release_ok [OF True] and D = banker_invD [OF inv]
  have len: "length (bkr_alloc (ps ! i)) = BANKER_MAX_RES"
    using proc_okD [OF inv i(1)] by (simp add: proc_ok_def)
  have "safe_state (banker_take_back i (bk_n b) rel (b, ps))"
    unfolding banker_take_back_def Let_def prod.case
    by (rule safe_state_upd [OF inv i ok(3) safe]) (use D(1,3) len ok(3,4) i in \<open>auto simp: held_def\<close>)
  with ok(5) show ?thesis by simp
qed (simp add: banker_release_denied safe)

lemma banker_release_proc_safe:
  assumes inv: "banker_inv (b, ps)" and i: "i < length ps" "p_state (ps ! i) \<noteq> UNUSED"
    and safe: "safe_state (b, ps)"
  shows "safe_state (banker_release_proc i (b, ps))"
proof (cases "bk_inited b \<and> bkr_active (ps ! i)")
  case True
  note D = banker_invD [OF inv]
  have "\<And>r. r < bk_n b \<Longrightarrow> 0 \<le> bkr_alloc (ps ! i) ! r"
    using proc_okD [OF inv i(1)] D(3) True by (auto simp: proc_ok_def)
  then show ?thesis
    using True D(1,3) unfolding banker_release_proc_def Let_def prod.case
    by (auto intro!: safe_state_upd [OF inv i _ safe] simp: held_def)
qed (use safe in \<open>auto simp: banker_release_proc_def\<close>)

lemma banker_request_safe:
  assumes inv: "banker_inv (b, ps)" and i: "i < length ps" and safe: "safe_state (b, ps)"
  shows "safe_state (snd (banker_request i nres req (b, ps)))"
proof (cases "fst (banker_request i nres req (b, ps)) = 0")
  case True
  note ok = banker_request_ok [OF True]
  obtain b' ps' where g: "banker_grant i (bk_n b) req (b, ps) = (b', ps')" by fastforce
  have "banker_inv (b', ps')"
    using banker_request_inv [OF inv i, of nres req] by (simp add: ok(7) g)
  with ok(6,7) show ?thesis by (simp add: g banker_inv_safe_iff)
qed (simp add: banker_request_denied i safe)

lemma banker_init_safe:
  assumes "safe_state (b, ps)"
  shows "safe_state (snd (banker_init nres tot (b, ps)))"
proof -
  have "unfinished (map banker_clear ps) = []" by (auto simp: unfinished_def banker_clear_def filter_empty_conv)
  with assms show ?thesis by (auto simp: banker_init_def Let_def intro: safe_stateI [of "[]"])
qed

text \<open>No entry that is off the table is still in the banker.\<close>

definition unused_clear :: "ptable \<Rightarrow> bool" where
  "unused_clear ps \<longleftrightarrow> (\<forall>p \<in> set ps. p_state p = UNUSED \<longrightarrow> \<not> bkr_active p)"

lemma sum_held_unfinished:
  "unused_clear ps \<Longrightarrow> (\<Sum>p \<leftarrow> ps. held r p) = (\<Sum>p \<in># mset (unfinished ps). bkr_alloc p ! r)"
  by (induction ps) (auto simp: unused_clear_def unfinished_def held_def)

lemma banker_set_max_ok:
  assumes "fst (banker_set_max i nres mx (b, ps)) = 0"
  shows "bk_inited b" "nres = bk_nres b"
    "\<And>r. r < bk_n b \<Longrightarrow> 0 \<le> mx ! r \<and> mx ! r \<le> bk_total b ! r \<and> bkr_alloc (ps ! i) ! r \<le> mx ! r"
    "banker_set_max i nres mx (b, ps) =
       (0, (b, ps[i := (if bkr_active (ps ! i) then ps ! i
                        else (ps ! i)\<lparr>bkr_alloc := replicate BANKER_MAX_RES 0\<rparr>)
              \<lparr>bkr_active := True,
               bkr_max := for_vec (bk_n b) (\<lambda>r _. mx ! r) (replicate BANKER_MAX_RES 0)\<rparr>]))"
  using assms by (auto simp: banker_set_max_def Let_def not_list_ex_upt split: if_splits)

lemma banker_set_max_denied:
  assumes "fst (banker_set_max i nres mx (b, ps)) \<noteq> 0"
  shows "banker_set_max i nres mx (b, ps) = (-1, (b, ps))"
  using assms by (auto simp: banker_set_max_def Let_def split: if_splits)

text \<open>Without process \<open>i\<close>, which holds nothing, the others still have an order.\<close>

lemma safe_without:
  assumes inv: "banker_inv (b, ps)" and i: "i < length ps" and safe: "safe_state (b, ps)"
    and zero: "\<And>r. r < bk_n b \<Longrightarrow> bkr_alloc (ps ! i) ! r = 0"
  obtains order where
    "mset order = mset (unfinished ps) - (if in_banker (ps ! i) then {#ps ! i#} else {#})"
    "banker_seq_ok (bk_n b) (take (bk_n b) (bk_avail b)) order"
proof -
  let ?n = "bk_n b" and ?w = "take (bk_n b) (bk_avail b)"
  from safe obtain order where o: "mset order = mset (unfinished ps)" "banker_seq_ok ?n ?w order"
    by (auto simp: safe_state_def)
  show thesis
  proof (cases "in_banker (ps ! i)")
    case True
    from unfinished_split [OF i True o(1)] obtain pre post where
      order: "order = pre @ ps ! i # post" "mset (pre @ post) = mset (unfinished ps) - {#ps ! i#}"
      by blast
    have len: "length ?w = ?n" using banker_invD(1,3) [OF inv] by simp
    have "banker_seq_ok ?n ?w (pre @ [] @ post)"
      by (rule seq_ok_replace [OF o(2) [unfolded order(1)] len len]) (use zero in auto)
    with that [of "pre @ post"] order(2) True show thesis by simp
  qed (use that [of order] o in simp)
qed

lemma banker_set_max_safe:
  assumes inv: "banker_inv (b, ps)" and i: "i < length ps" "p_state (ps ! i) \<noteq> UNUSED"
    and clear: "unused_clear ps" and safe: "safe_state (b, ps)"
    and zero: "\<And>r. r < bk_n b \<Longrightarrow> bkr_alloc (ps ! i) ! r = 0"
  shows "safe_state (snd (banker_set_max i nres mx (b, ps)))"
proof (cases "fst (banker_set_max i nres mx (b, ps)) = 0")
  case True
  note ok = banker_set_max_ok [OF True] and D = banker_invD [OF inv]
  let ?n = "bk_n b" and ?w = "take (bk_n b) (bk_avail b)"
  define p' where "p' = (if bkr_active (ps ! i) then ps ! i
      else (ps ! i)\<lparr>bkr_alloc := replicate BANKER_MAX_RES 0\<rparr>)
      \<lparr>bkr_active := True, bkr_max := for_vec ?n (\<lambda>r _. mx ! r) (replicate BANKER_MAX_RES 0)\<rparr>"
  have p': "in_banker p'" "\<And>r. r < ?n \<Longrightarrow> bkr_max p' ! r = mx ! r \<and> bkr_alloc p' ! r = 0"
    using i(2) D(3) zero by (auto simp: p'_def in_banker_def)
  from safe_without [OF inv i(1) safe zero] obtain order where
    o: "mset order = mset (unfinished ps) - (if in_banker (ps ! i) then {#ps ! i#} else {#})"
      "banker_seq_ok ?n ?w order" by blast
  have "mset (order @ [p']) = mset (unfinished (ps[i := p']))"
    by (simp add: mset_unfinished_upd i(1) p'(1) o(1))
  moreover have "mx ! r \<le> seq_work ?n ?w order ! r" if r: "r < ?n" for r
  proof -
    have "(\<Sum>p \<leftarrow> order. bkr_alloc p ! r) = (\<Sum>p \<in># mset order. bkr_alloc p ! r)"
      by (simp add: sum_mset_sum_list flip: mset_map)
    also have "\<dots> = (\<Sum>p \<in># mset (unfinished ps). bkr_alloc p ! r)"
    proof (cases "in_banker (ps ! i)")
      case True
      then have "ps ! i \<in># mset (unfinished ps)"
        using i(1) by (simp add: unfinished_def in_banker_def)
      then obtain M where "mset (unfinished ps) = add_mset (ps ! i) M" by (metis insert_DiffM)
      with o(1) zero [OF r] True show ?thesis by simp
    qed (simp add: o(1))
    finally have "seq_work ?n ?w order ! r = bk_total b ! r"
      using D(1,3) D(6) [OF r] r sum_held_unfinished [OF clear, of r] by (simp add: nth_seq_work)
    with ok(3) [OF r] show ?thesis by simp
  qed
  then have "banker_seq_ok ?n ?w (order @ [p'])"
    using o(2) p'(2) by (simp add: banker_seq_ok_append banker_need_ok_def list_all_upt)
  ultimately have "safe_state (b, ps[i := p'])" by (rule safe_stateI)
  with ok(4) show ?thesis by (simp add: p'_def)
qed (simp add: banker_set_max_denied safe)

subsection \<open>A safe state is never stuck\<close>

definition banker_need :: "banker_state \<Rightarrow> proc \<Rightarrow> int list" where
  "banker_need b p = map (\<lambda>r. bkr_max p ! r - bkr_alloc p ! r) [0..<bk_n b]"

lemma banker_need_bounds:
  assumes inv: "banker_inv (b, ps)" and i: "i < length ps" "in_banker (ps ! i)"
    and ok: "banker_need_ok (bk_n b) (ps ! i) (take (bk_n b) (bk_avail b))" and r: "r < bk_n b"
  shows "0 \<le> banker_need b (ps ! i) ! r \<and>
    banker_need b (ps ! i) ! r \<le> bkr_max (ps ! i) ! r - bkr_alloc (ps ! i) ! r \<and>
    banker_need b (ps ! i) ! r \<le> bk_avail b ! r"
proof -
  have "bkr_alloc (ps ! i) ! r \<le> bkr_max (ps ! i) ! r"
    using proc_okD [OF inv i(1)] i(2) banker_invD(3) [OF inv] r
    by (auto simp: proc_ok_def in_banker_def)
  with ok r show ?thesis by (simp add: banker_need_def banker_need_ok_def list_all_upt)
qed

lemma grant_need_safe:
  assumes inv: "banker_inv (b, ps)" and i: "i < length ps" "in_banker (ps ! i)"
    and o: "mset (ps ! i # rest) = mset (unfinished ps)"
      "banker_seq_ok (bk_n b) (take (bk_n b) (bk_avail b)) (ps ! i # rest)"
  shows "safe_state (banker_grant i (bk_n b) (banker_need b (ps ! i)) (b, ps))"
proof -
  let ?n = "bk_n b" and ?w = "take (bk_n b) (bk_avail b)" and ?req = "banker_need b (ps ! i)"
  let ?p = "(ps ! i)\<lparr>bkr_alloc := for_vec ?n (\<lambda>r x. x + ?req ! r) (bkr_alloc (ps ! i))\<rparr>"
  let ?a = "for_vec ?n (\<lambda>r x. x - ?req ! r) (bk_avail b)"
  note D = banker_invD [OF inv]
  have len: "length (bkr_alloc (ps ! i)) = BANKER_MAX_RES"
    using proc_okD [OF inv i(1)] by (simp add: proc_ok_def)
  have eq: "for_vec ?n (\<lambda>r x. x + bkr_alloc ?p ! r) (take ?n ?a) =
      for_vec ?n (\<lambda>r x. x + bkr_alloc (ps ! i) ! r) ?w"
    using D(1,3) len by (auto intro!: nth_equalityI)
  have first: "banker_need_ok ?n (ps ! i) ?w" using o(2) by simp
  have "banker_need_ok ?n ?p (take ?n ?a)"
    using D(1,3) len banker_need_bounds [OF inv i first]
    by (auto simp: banker_need_ok_def list_all_upt banker_need_def)
  then have "banker_seq_ok ?n (take ?n ?a) (?p # rest)"
    unfolding banker_seq_ok.simps eq using o(2) by simp
  moreover have "in_banker ?p" using i(2) by (simp add: in_banker_def)
  then have "mset (?p # rest) = mset (unfinished (ps[i := ?p]))"
    by (simp add: mset_unfinished_upd i o(1) [symmetric])
  ultimately show ?thesis
    using safe_stateI [of "?p # rest" "ps[i := ?p]" "b\<lparr>bk_avail := ?a\<rparr>"]
    by (simp add: banker_grant_def)
qed

lemma banker_progress:
  assumes inv: "banker_inv (b, ps)" and safe: "safe_state (b, ps)" and "unfinished ps \<noteq> []"
    and inited: "bk_inited b" "0 < bk_nres b"
  obtains i where "i < length ps" "in_banker (ps ! i)"
    "fst (banker_request i (bk_nres b) (banker_need b (ps ! i)) (b, ps)) = 0"
proof -
  let ?n = "bk_n b" and ?w = "take (bk_n b) (bk_avail b)"
  from safe obtain order where order: "mset order = mset (unfinished ps)" "banker_seq_ok ?n ?w order"
    by (auto simp: safe_state_def)
  with assms(3) obtain p rest where pr: "order = p # rest" by (cases order) auto
  with order(1) have "p \<in> set (unfinished ps)" by (metis list.set_intros(1) set_mset_mset)
  then obtain i where i: "i < length ps" "p = ps ! i" "in_banker (ps ! i)"
    by (auto simp: unfinished_def in_banker_def in_set_conv_nth)
  let ?req = "banker_need b (ps ! i)"
  have first: "banker_need_ok ?n (ps ! i) ?w" using order(2) pr i(2) by simp
  note req = banker_need_bounds [OF inv i(1,3) first]
  obtain b' ps' where g: "banker_grant i ?n ?req (b, ps) = (b', ps')" by fastforce
  have "safe_state (b', ps')"
    using grant_need_safe [OF inv i(1,3), of rest] order pr i(2) g by simp
  moreover have "banker_inv (b', ps')"
    using banker_grant_inv [OF inv i(1) _ refl req] i(3) g by (simp add: in_banker_def)
  ultimately have "banker_is_safe_locked (banker_grant i ?n ?req (b, ps))"
    unfolding g by (simp add: banker_inv_safe_iff)
  moreover have "\<not> list_ex (\<lambda>r. ?req ! r < 0 \<or> ?req ! r > bkr_max (ps ! i) ! r - bkr_alloc (ps ! i) ! r
      \<or> ?req ! r > bk_avail b ! r) [0..<?n]"
    unfolding not_list_ex_upt using req by (meson not_less)
  ultimately have "fst (banker_request i (bk_nres b) ?req (b, ps)) = 0"
    using banker_invD(3) [OF inv] inited i(3) by (simp add: banker_request_def Let_def in_banker_def)
  with that [OF i(1,3)] show thesis .
qed

subsection \<open>Runs of the banker\<close>

text \<open>
  A run interleaves the banker's calls, each made by a live process, with steps of the rest of the
  kernel, which never write the banker's fields of a process and free only process entries that
  left the banker. A process declares its maximum while it holds nothing.
\<close>

definition banker_frame :: "proc \<Rightarrow> proc \<Rightarrow> bool" where
  "banker_frame p q \<longleftrightarrow> bkr_active q = bkr_active p \<and> bkr_max q = bkr_max p \<and>
     bkr_alloc q = bkr_alloc p \<and>
     (bkr_active p \<longrightarrow> (p_state q = UNUSED \<longleftrightarrow> p_state p = UNUSED))"

inductive banker_step :: "bsys \<Rightarrow> bsys \<Rightarrow> bool" where
  init: "banker_step s (snd (banker_init nres tot s))"
| set_max: "i < length (snd s) \<Longrightarrow> p_state (snd s ! i) \<noteq> UNUSED \<Longrightarrow>
    (\<And>r. r < bk_n (fst s) \<Longrightarrow> bkr_alloc (snd s ! i) ! r = 0) \<Longrightarrow>
    banker_step s (snd (banker_set_max i nres mx s))"
| request: "i < length (snd s) \<Longrightarrow> p_state (snd s ! i) \<noteq> UNUSED \<Longrightarrow>
    banker_step s (snd (banker_request i nres req s))"
| release: "i < length (snd s) \<Longrightarrow> p_state (snd s ! i) \<noteq> UNUSED \<Longrightarrow>
    banker_step s (snd (banker_release i nres rel s))"
| leave: "i < length (snd s) \<Longrightarrow> p_state (snd s ! i) \<noteq> UNUSED \<Longrightarrow>
    banker_step s (banker_release_proc i s)"
| other: "list_all2 banker_frame ps qs \<Longrightarrow> banker_step (b, ps) (b, qs)"

inductive_cases banker_stepE: "banker_step s s'"

lemma banker_pass_frame:
  "list_all2 banker_frame ps qs \<Longrightarrow> banker_pass n ps fs w = banker_pass n qs fs w"
proof (induction n ps fs w arbitrary: qs rule: banker_pass.induct)
  case (1 n p ps f fs w)
  then obtain q qs' where q: "qs = q # qs'" "banker_frame p q" "list_all2 banker_frame ps qs'"
    by (auto simp: list_all2_Cons1)
  then have "banker_need_ok n q = banker_need_ok n p" "bkr_alloc q = bkr_alloc p"
    by (auto simp: banker_frame_def banker_need_ok_def fun_eq_iff)
  with 1 q show ?case by (simp del: split_paired_All)
qed (auto simp: list_all2_Cons1)

lemma banker_loop_frame:
  "list_all2 banker_frame ps qs \<Longrightarrow> banker_loop n ps fs w = banker_loop n qs fs w"
proof (induction n ps fs w rule: banker_loop.induct)
  case (1 n ps fs w)
  then show ?case
    by (auto simp: banker_loop.simps [of n ps] banker_loop.simps [of n qs]
        banker_pass_frame [OF "1.prems"] split: prod.splits)
qed

lemma banker_frame_safe:
  assumes "list_all2 banker_frame ps qs"
  shows "banker_is_safe_locked (b, qs) = banker_is_safe_locked (b, ps)"
proof -
  have "banker_finish0 qs = banker_finish0 ps"
    using assms by (induction rule: list_all2_induct) (auto simp: banker_finish0_def banker_frame_def)
  with banker_loop_frame [OF assms] show ?thesis by (simp add: banker_is_safe_locked_def)
qed

lemma banker_frame_inv:
  assumes fr: "list_all2 banker_frame ps qs" and inv: "banker_inv (b, ps)"
  shows "banker_inv (b, qs)"
proof -
  have "(\<Sum>q \<leftarrow> qs. held r q) = (\<Sum>p \<leftarrow> ps. held r p)" for r
    using fr by (induction rule: list_all2_induct) (auto simp: held_def banker_frame_def)
  moreover have "proc_ok b q" if "q \<in> set qs" for q
  proof -
    from that fr obtain p where "p \<in> set ps" "banker_frame p q"
      by (metis in_set_conv_nth list_all2_conv_all_nth)
    with banker_invD(4) [OF inv] show ?thesis by (auto simp: proc_ok_def banker_frame_def)
  qed
  ultimately show ?thesis using inv by (auto simp: banker_inv_def)
qed

definition banker_good :: "bsys \<Rightarrow> bool" where
  "banker_good s \<longleftrightarrow> banker_inv s \<and> unused_clear (snd s) \<and> safe_state s"

lemma unused_clear_upd:
  "unused_clear ps \<Longrightarrow> p_state p' \<noteq> UNUSED \<Longrightarrow> unused_clear (ps[i := p'])"
  using set_update_subset_insert [of ps i p'] by (auto simp: unused_clear_def)

lemma unused_clear_ops:
  assumes "unused_clear ps" "i < length ps" "p_state (ps ! i) \<noteq> UNUSED"
  shows "unused_clear (snd (snd (banker_set_max i nres mx (b, ps))))"
    "unused_clear (snd (snd (banker_request i nres req (b, ps))))"
    "unused_clear (snd (snd (banker_release i nres rel (b, ps))))"
    "unused_clear (snd (banker_release_proc i (b, ps)))"
  using assms
  by (auto simp: banker_set_max_def banker_request_def banker_release_def banker_release_proc_def
      banker_grant_def banker_take_back_def Let_def intro!: unused_clear_upd)

lemma banker_step_good:
  assumes "banker_step s s'" "banker_good s"
  shows "banker_good s'"
proof -
  obtain b ps where s: "s = (b, ps)" by fastforce
  with assms(2) have g: "banker_inv (b, ps)" "unused_clear ps" "safe_state (b, ps)"
    by (simp_all add: banker_good_def)
  from assms(1) show ?thesis
    unfolding s
  proof (cases rule: banker_step.cases)
    case (init nres tot)
    moreover have "unused_clear (snd (snd (banker_init nres tot (b, ps))))"
      using g(2) by (auto simp: banker_init_def Let_def unused_clear_def banker_clear_def)
    ultimately show ?thesis
      using g banker_init_inv banker_init_safe by (auto simp: banker_good_def)
  next
    case (other qs)
    then have "banker_inv (b, qs)" using g(1) by (auto intro: banker_frame_inv)
    moreover have "unused_clear qs"
      using other g(2) by (metis banker_frame_def in_set_conv_nth list_all2_conv_all_nth unused_clear_def)
    ultimately show ?thesis
      using other g banker_frame_safe [of ps qs b]
      by (auto simp: banker_good_def banker_inv_safe_iff)
  qed (use g in \<open>auto simp: banker_good_def unused_clear_ops banker_set_max_inv banker_set_max_safe
      banker_request_inv banker_request_safe banker_release_inv banker_release_safe
      banker_release_proc_inv banker_release_proc_safe\<close>)
qed

lemma banker_good_boot: "banker_good (banker_init_state, replicate NPROC proc0)"
proof -
  have "(\<Sum>p \<leftarrow> replicate k proc0. held r p) = 0" for k r
    by (induction k) (auto simp: held_def proc0_def)
  then have "banker_inv (banker_init_state, replicate NPROC proc0)"
    by (auto simp: banker_inv_def banker_init_state_def proc_ok_def proc0_def)
  moreover have "unfinished (replicate NPROC proc0) = []"
    by (auto simp: unfinished_def filter_empty_conv proc0_def)
  then have "safe_state (banker_init_state, replicate NPROC proc0)"
    by (auto intro: safe_stateI [of "[]"])
  ultimately show ?thesis by (auto simp: banker_good_def unused_clear_def proc0_def)
qed

lemma banker_run_good:
  "banker_step\<^sup>*\<^sup>* (banker_init_state, replicate NPROC proc0) s \<Longrightarrow> banker_good s"
  by (induction rule: rtranclp_induct) (auto intro: banker_good_boot banker_step_good)

subsection \<open>Properties\<close>

text \<open>
  C1. The safety check of the banker decides the textbook notion: under the pool invariant it
  answers yes exactly when the processes in the banker have an order in which each can obtain its
  remaining need from what is free and what the earlier ones return.
\<close>

theorem banker_safety_decided:
  assumes "banker_inv (b, ps)"
  shows "banker_is_safe_locked (b, ps) \<longleftrightarrow>
    (\<exists>order. mset order = mset (unfinished ps) \<and>
       banker_seq_ok (bk_n b) (take (bk_n b) (bk_avail b)) order)"
  using banker_inv_safe_iff [OF assms] by (simp add: safe_state_def)

text \<open>
  C2. Every state a run of the system reaches from boot, by any interleaving of the banker's calls
  with the rest of the kernel, keeps the pool invariant (nothing is lost or made up, and no process
  exceeds what it declared) and is safe, provided processes declare maxima while holding nothing.
\<close>

theorem banker_run_safe:
  assumes "banker_step\<^sup>*\<^sup>* (banker_init_state, replicate NPROC proc0) s"
  shows "banker_inv s \<and> safe_state s"
  using banker_run_good [OF assms] by (simp add: banker_good_def)

text \<open>
  C3. A request is granted exactly when its arguments are valid, it is within the caller's
  remaining need and the free resources, and the state after the grant is safe; a granted request
  moves exactly the requested amounts, a denied one changes nothing.
\<close>

theorem banker_request_correct:
  assumes "banker_inv (b, ps)" "i < length ps"
  shows "banker_request i nres req (b, ps) =
    (if 0 < nres \<and> nres \<le> int BANKER_MAX_RES \<and> bk_inited b \<and> nres = bk_nres b \<and> bkr_active (ps ! i) \<and>
        (\<forall>r < bk_n b. 0 \<le> req ! r \<and> req ! r \<le> bkr_max (ps ! i) ! r - bkr_alloc (ps ! i) ! r \<and>
           req ! r \<le> bk_avail b ! r) \<and>
        safe_state (banker_grant i (bk_n b) req (b, ps))
     then (0, banker_grant i (bk_n b) req (b, ps)) else (-1, (b, ps)))"
proof (cases "fst (banker_request i nres req (b, ps)) = 0")
  case True
  note ok = banker_request_ok [OF True]
  obtain b' ps' where g: "banker_grant i (bk_n b) req (b, ps) = (b', ps')" by fastforce
  have "banker_inv (b', ps')"
    using banker_grant_inv [OF assms ok(4) refl ok(5)] by (simp add: g)
  then have "safe_state (b', ps')" using ok(6) by (simp add: g banker_inv_safe_iff)
  moreover have "nres \<le> 8" using ok(3) banker_invD(3) [OF assms(1)] by simp
  ultimately show ?thesis using ok by (simp add: g)
next
  case False
  have "\<not> (0 < nres \<and> nres \<le> 8 \<and> bk_inited b \<and> nres = bk_nres b \<and> bkr_active (ps ! i) \<and>
        (\<forall>r < bk_n b. 0 \<le> req ! r \<and> req ! r \<le> bkr_max (ps ! i) ! r - bkr_alloc (ps ! i) ! r \<and>
           req ! r \<le> bk_avail b ! r) \<and> safe_state (banker_grant i (bk_n b) req (b, ps)))"
    (is "\<not> ?C")
  proof
    assume C: ?C
    obtain b' ps' where g: "banker_grant i (bk_n b) req (b, ps) = (b', ps')" by fastforce
    have "banker_inv (b', ps')"
      using banker_grant_inv [OF assms _ refl, of req] C by (simp add: g)
    with C have "banker_is_safe_locked (b', ps')" by (simp add: g banker_inv_safe_iff)
    moreover have "\<not> list_ex (\<lambda>r. req ! r < 0 \<or> req ! r > bkr_max (ps ! i) ! r - bkr_alloc (ps ! i) ! r
        \<or> req ! r > bk_avail b ! r) [0..<bk_n b]"
      unfolding not_list_ex_upt using C by (meson not_less)
    ultimately show False using C False by (simp add: banker_request_def Let_def g)
  qed
  with banker_request_denied [OF False assms(2)] show ?thesis by simp
qed

text \<open>
  C4. A safe state is never stuck: as long as some process is in the banker, one of them can ask
  for all it may still need and is granted it at once.
\<close>

theorem banker_never_stuck:
  assumes "banker_inv (b, ps)" "safe_state (b, ps)" "unfinished ps \<noteq> []" "bk_inited b" "0 < bk_nres b"
  shows "\<exists>i < length ps. in_banker (ps ! i) \<and>
    fst (banker_request i (bk_nres b) (banker_need b (ps ! i)) (b, ps)) = 0"
  using banker_progress [OF assms] by blast

text \<open>A pool of ten units and two processes, for the concrete cases below.\<close>

definition bk_demo :: bsys where
  "bk_demo = (\<lparr>bk_inited = True, bk_nres = 1, bk_total = [10, 0, 0, 0, 0, 0, 0, 0],
       bk_avail = [3, 0, 0, 0, 0, 0, 0, 0]\<rparr>,
     [proc0\<lparr>p_state := RUNNING, bkr_active := True, bkr_max := [7, 0, 0, 0, 0, 0, 0, 0],
            bkr_alloc := [4, 0, 0, 0, 0, 0, 0, 0]\<rparr>,
      proc0\<lparr>p_state := RUNNABLE, bkr_active := True, bkr_max := [9, 0, 0, 0, 0, 0, 0, 0],
            bkr_alloc := [3, 0, 0, 0, 0, 0, 0, 0]\<rparr>])"

lemma denied_state: "x = (if C then (0 :: int, t) else (-1, s)) \<Longrightarrow> fst x = -1 \<Longrightarrow> snd x = s"
  by (simp split: if_splits)

lemma bk_demo_inv: "banker_inv (fst bk_demo, snd bk_demo)"
  by (auto simp: bk_demo_def banker_inv_def proc_ok_def held_def proc0_def less_Suc_eq
      eval_nat_numeral)

lemma bk_demo_safe: "banker_is_safe_locked (fst bk_demo, snd bk_demo)"
  by code_simp

theorem banker_safety_decided_witness:
  "\<exists>order. mset order = mset (unfinished (snd bk_demo)) \<and>
     banker_seq_ok 1 (take 1 (bk_avail (fst bk_demo))) order"
  using banker_safety_decided [OF bk_demo_inv] bk_demo_safe by (simp add: bk_demo_def)

theorem banker_run_safe_witness:
  "safe_state (snd (banker_init 1 [10] (banker_init_state, replicate NPROC proc0)))"
proof -
  let ?s = "(banker_init_state, replicate NPROC proc0)"
  have "banker_step ?s (snd (banker_init 1 [10] ?s))" by (rule banker_step.init)
  then have "banker_step\<^sup>*\<^sup>* ?s (snd (banker_init 1 [10] ?s))" by (rule r_into_rtranclp)
  then show ?thesis using banker_run_safe by blast
qed

theorem banker_request_correct_witness:
  "fst (banker_request 1 1 [4] bk_demo) = -1 \<and> fst (banker_request 0 1 [3] bk_demo) = 0 \<and>
   snd (banker_request 1 1 [4] bk_demo) = bk_demo"
proof -
  have len: "0 < length (snd bk_demo)" "1 < length (snd bk_demo)" by (simp_all add: bk_demo_def)
  have denied: "fst (banker_request 1 1 [4] bk_demo) = -1" by code_simp
  moreover have "fst (banker_request 0 1 [3] bk_demo) = 0" by code_simp
  moreover have "snd (banker_request 1 1 [4] bk_demo) = bk_demo"
    using denied_state [OF banker_request_correct [OF bk_demo_inv len(2), of 1 "[4]"]] denied
    by simp
  ultimately show ?thesis by blast
qed

theorem banker_never_stuck_witness:
  "\<exists>i < length (snd bk_demo). in_banker (snd bk_demo ! i) \<and>
     fst (banker_request i 1 (banker_need (fst bk_demo) (snd bk_demo ! i)) bk_demo) = 0"
proof -
  have "safe_state (fst bk_demo, snd bk_demo)"
    using bk_demo_safe banker_inv_safe_iff [OF bk_demo_inv] by simp
  moreover have "unfinished (snd bk_demo) \<noteq> []" "bk_inited (fst bk_demo)" "0 < bk_nres (fst bk_demo)"
    by (simp_all add: bk_demo_def unfinished_def)
  ultimately show ?thesis
    using banker_never_stuck [OF bk_demo_inv] by (simp add: bk_demo_def)
qed

text \<open>
  C34. \<^verbatim>\<open>banker_set_max\<close> makes no safety check: a process that already holds resources can
  raise its maximum and turn a safe state into an unsafe one, from which the two processes can
  both wait for ever.
\<close>

theorem banker_set_max_breaks_safety:
  "\<exists>s i nres mx. banker_inv s \<and> safe_state s \<and> fst (banker_set_max i nres mx s) = 0 \<and>
     \<not> safe_state (snd (banker_set_max i nres mx s))"
proof -
  let ?s' = "snd (banker_set_max 0 1 [10] bk_demo)"
  have "banker_inv (fst ?s', snd ?s')"
    using banker_set_max_inv [OF bk_demo_inv, of 0 1 "[10]"] by (simp add: bk_demo_def)
  moreover have "\<not> banker_is_safe_locked (fst ?s', snd ?s')" by code_simp
  ultimately have "\<not> safe_state ?s'" by (metis banker_inv_safe_iff prod.collapse)
  moreover have "fst (banker_set_max 0 1 [10] bk_demo) = 0" by code_simp
  moreover have "safe_state bk_demo"
    using bk_demo_safe banker_inv_safe_iff [OF bk_demo_inv] by simp
  ultimately show ?thesis using bk_demo_inv by (metis prod.collapse)
qed

end
