(* ===== verification/Sched.thy ===== *)
theory Sched
  imports Proc "HOL-Library.Monad_Syntax"
begin

section \<open>Schedulers\<close>

text \<open>
  The scheduling code of \<^verbatim>\<open>kernel/proc/proc.c\<close>: the least-laxity-first real-time class, the
  multi-level feedback queue (\<^verbatim>\<open>SCHED_MLFQ\<close>), the dynamic priorities
  (\<^verbatim>\<open>SCHED_DYNPRIO\<close>), the two older scheduler bodies, and the mid-term scheduler that suspends
  whole processes. A round of \<^verbatim>\<open>scheduler()\<close> is the body of its \<^verbatim>\<open>for(;;)\<close> up to the
  \<^verbatim>\<open>swtch\<close>; its result names the process switched to, or \<open>None\<close> for
  \<^verbatim>\<open>wfi\<close>.

  The real-time fields are C \<^verbatim>\<open>int\<close>s and \<^verbatim>\<open>ticks\<close> is a \<^verbatim>\<open>uint\<close>, so the additions
  that can leave the range are wrapped with \<open>i32\<close> and the comparisons with \<open>u32\<close>.
  The refresh loop may not end, so the functions that call it return an option.
\<close>

subsection \<open>Priorities\<close>

definition mlfq_clamp :: "int \<Rightarrow> int" where
  "mlfq_clamp l = (let l = (if l < 0 then 0 else l) in if l \<ge> MLFQ_LEVELS then MLFQ_LEVELS - 1 else l)"

definition setPriority :: "sched_cfg \<Rightarrow> int \<Rightarrow> int \<Rightarrow> ptable \<Rightarrow> int \<times> ptable" where
  "setPriority c pid priority ps =
     (let priority = (if priority < 0 then 0 else priority);
          priority = (if priority > 20 then 20 else priority)
      in case find_idx (\<lambda>p. p_pid p = pid) ps of
           None \<Rightarrow> (-1, ps)
         | Some i \<Rightarrow>
             (0, upd_at ps i (\<lambda>p.
                let p = p\<lparr>p_priority := priority\<rparr> in
                case c of
                  CfgMLFQ \<Rightarrow> p\<lparr>mlfq_level := mlfq_clamp ((MLFQ_LEVELS - 1) - (priority * MLFQ_LEVELS div 21)),
                              mlfq_ticks := 0\<rparr>
                | CfgDYNPRIO \<Rightarrow> p\<lparr>p_dyn_priority := priority\<rparr>)))"

subsection \<open>Real-time class\<close>

definition rt_reset_locked :: "proc \<Rightarrow> proc" where
  "rt_reset_locked p = p\<lparr>rt_policy := SCHED_NORMAL, rt_period := 0, rt_runtime := 0, rt_deadline := 0,
     rt_release := 0, rt_deadline_tick := 0, rt_remaining := 0, rt_misses := 0\<rparr>"

definition rt_setup_locked :: "int \<Rightarrow> int \<Rightarrow> int \<Rightarrow> int \<Rightarrow> proc \<Rightarrow> proc" where
  "rt_setup_locked period runtime deadline now p =
     p\<lparr>rt_policy := SCHED_RT_LLF, rt_period := period, rt_runtime := runtime, rt_deadline := deadline,
       rt_release := i32 now, rt_deadline_tick := i32 (now + deadline), rt_remaining := runtime,
       rt_misses := 0\<rparr>"

text \<open>One turn of the refresh loop, and the loop.\<close>

definition rt_next_period :: "proc \<Rightarrow> proc" where
  "rt_next_period p =
     (let p = (if rt_remaining p > 0 then p\<lparr>rt_misses := i32 (rt_misses p + 1)\<rparr> else p);
          p = p\<lparr>rt_release := i32 (rt_release p + rt_period p)\<rparr>;
          p = p\<lparr>rt_deadline_tick := i32 (rt_release p + rt_deadline p)\<rparr>
      in p\<lparr>rt_remaining := rt_runtime p\<rparr>)"

partial_function (option) rt_refresh_loop :: "int \<Rightarrow> proc \<Rightarrow> proc option" where
  "rt_refresh_loop now p =
     (if now \<ge> u32 (rt_release p + rt_period p) then rt_refresh_loop now (rt_next_period p) else Some p)"

definition rt_refresh_locked :: "proc \<Rightarrow> int \<Rightarrow> proc option" where
  "rt_refresh_locked p now =
     (if rt_policy p \<noteq> SCHED_RT_LLF then Some p
      else if rt_period p \<le> 0 \<or> rt_deadline p \<le> 0 \<or> rt_runtime p \<le> 0 then Some p
      else do {
        p \<leftarrow> rt_refresh_loop now p;
        Some (if rt_remaining p < 0 then p\<lparr>rt_remaining := 0\<rparr> else p)
      })"

definition rt_eligible_locked :: "proc \<Rightarrow> int \<Rightarrow> bool" where
  "rt_eligible_locked p now =
     (if rt_policy p \<noteq> SCHED_RT_LLF then False
      else if rt_remaining p \<le> 0 then False
      else if u32 (rt_release p) > now then False
      else True)"

definition rt_laxity_locked :: "proc \<Rightarrow> int \<Rightarrow> int" where
  "rt_laxity_locked p now = i32 (i32 (rt_deadline_tick p - i32 now) - rt_remaining p)"

text \<open>The scan of \<^verbatim>\<open>rt_pick\<close>: \<open>best\<close> is the process chosen so far and its laxity.\<close>

fun rt_pick_loop :: "int \<Rightarrow> nat list \<Rightarrow> (nat \<times> int) option \<times> ptable \<Rightarrow>
    ((nat \<times> int) option \<times> ptable) option" where
  "rt_pick_loop now [] s = Some s"
| "rt_pick_loop now (i # is) (best, ps) =
     (if p_state (ps ! i) = RUNNABLE \<and> rt_policy (ps ! i) = SCHED_RT_LLF
      then do {
        p \<leftarrow> rt_refresh_locked (ps ! i) now;
        let ps = ps[i := p];
        if rt_eligible_locked p now then
          let laxity = rt_laxity_locked p now in
          (case best of
             None \<Rightarrow> rt_pick_loop now is (Some (i, laxity), ps)
           | Some (b, best_laxity) \<Rightarrow>
               if laxity < best_laxity then rt_pick_loop now is (Some (i, laxity), ps)
               else rt_pick_loop now is (best, ps))
        else rt_pick_loop now is (best, ps)
      }
      else rt_pick_loop now is (best, ps))"

definition rt_pick :: "int \<Rightarrow> ptable \<Rightarrow> (nat option \<times> ptable) option" where
  "rt_pick now ps = do {
     (best, ps) \<leftarrow> rt_pick_loop now [0..<length ps] (None, ps);
     Some (map_option fst best, ps)
   }"

definition rt_set :: "int \<Rightarrow> int \<Rightarrow> int \<Rightarrow> int \<Rightarrow> int \<Rightarrow> ptable \<Rightarrow> int \<times> ptable" where
  "rt_set now pid period runtime deadline ps =
     (if period \<le> 0 \<or> runtime \<le> 0 \<or> deadline \<le> 0 then (-1, ps)
      else if runtime > deadline \<or> deadline > period then (-1, ps)
      else case find_idx (\<lambda>p. p_pid p = pid) ps of
             None \<Rightarrow> (-1, ps)
           | Some i \<Rightarrow> (0, upd_at ps i (rt_setup_locked period runtime deadline now)))"

definition rt_clear :: "int \<Rightarrow> ptable \<Rightarrow> int \<times> ptable" where
  "rt_clear pid ps =
     (case find_idx (\<lambda>p. p_pid p = pid) ps of
        None \<Rightarrow> (-1, ps)
      | Some i \<Rightarrow> (0, upd_at ps i rt_reset_locked))"

text \<open>\<^verbatim>\<open>rt_tick\<close> and \<^verbatim>\<open>rt_should_preempt\<close>; \<open>cur\<close> is \<^verbatim>\<open>myproc()\<close>.\<close>

definition rt_tick :: "int \<Rightarrow> nat option \<Rightarrow> ptable \<Rightarrow> (bool \<times> ptable) option" where
  "rt_tick now cur ps =
     (case cur of
        None \<Rightarrow> Some (False, ps)
      | Some i \<Rightarrow>
          if rt_policy (ps ! i) \<noteq> SCHED_RT_LLF then Some (False, ps)
          else if p_state (ps ! i) \<noteq> RUNNING then Some (False, ps)
          else if rt_policy (ps ! i) = SCHED_RT_LLF then Some (False, ps)
          else do {
            p \<leftarrow> rt_refresh_locked (ps ! i) now;
            let p = (if rt_remaining p > 0 then p\<lparr>rt_remaining := rt_remaining p - 1\<rparr> else p);
            if rt_remaining p \<le> 0 then Some (True, ps[i := p\<lparr>rt_remaining := 0\<rparr>])
            else Some (False, ps[i := p])
          })"

fun rt_preempt_loop :: "int \<Rightarrow> int option \<Rightarrow> nat list \<Rightarrow> ptable \<Rightarrow> (bool \<times> ptable) option" where
  "rt_preempt_loop now cur_laxity [] ps = Some (False, ps)"
| "rt_preempt_loop now cur_laxity (i # is) ps =
     (if p_state (ps ! i) = RUNNABLE \<and> rt_policy (ps ! i) = SCHED_RT_LLF
      then do {
        p \<leftarrow> rt_refresh_locked (ps ! i) now;
        let ps = ps[i := p];
        if rt_eligible_locked p now then
          (case cur_laxity of
             None \<Rightarrow> Some (True, ps)
           | Some l \<Rightarrow> if rt_laxity_locked p now < l then Some (True, ps)
                       else rt_preempt_loop now cur_laxity is ps)
        else rt_preempt_loop now cur_laxity is ps
      }
      else rt_preempt_loop now cur_laxity is ps)"

definition rt_should_preempt :: "int \<Rightarrow> nat option \<Rightarrow> ptable \<Rightarrow> (bool \<times> ptable) option" where
  "rt_should_preempt now cur ps = do {
     (cur_laxity, ps) \<leftarrow>
       (case cur of
          None \<Rightarrow> Some (None, ps)
        | Some i \<Rightarrow>
            if rt_policy (ps ! i) = SCHED_RT_LLF \<and> p_state (ps ! i) = RUNNING
            then do {
              p \<leftarrow> rt_refresh_locked (ps ! i) now;
              Some (if rt_eligible_locked p now then Some (rt_laxity_locked p now) else None, ps[i := p])
            }
            else Some (None, ps));
     rt_preempt_loop now cur_laxity [0..<length ps] ps
   }"

subsection \<open>Dynamic priorities\<close>

definition pi_effective_base :: "proc \<Rightarrow> int" where
  "pi_effective_base p =
     (let base = p_priority p;
          base = (if p_pi_boost p > base then p_pi_boost p else base);
          base = (if base < 0 then 0 else base)
      in if base > 20 then 20 else base)"

text \<open>The body of the \<^verbatim>\<open>for\<close> loop for a runnable process of the normal class.\<close>

definition dyn_update :: "proc \<Rightarrow> proc" where
  "dyn_update p =
     (let p = p\<lparr>p_wait_time := p_wait_time p + 1\<rparr>;
          base_prio = pi_effective_base p;
          d = base_prio + p_wait_time p div 5 - p_cpu_time p div 5;
          d = (if d < 0 then 0 else d);
          d = (if d > 20 then 20 else d)
      in p\<lparr>p_dyn_priority := d\<rparr>)"

fun dyn_scan :: "nat \<Rightarrow> nat option \<Rightarrow> int \<Rightarrow> ptable \<Rightarrow> nat option \<times> ptable" where
  "dyn_scan i pmax priority_max [] = (pmax, [])"
| "dyn_scan i pmax priority_max (p # ps) =
     (if p_state p = RUNNABLE \<and> rt_policy p = SCHED_NORMAL
      then
        (let p = dyn_update p;
             (r, ps') = (if p_dyn_priority p > priority_max
                         then dyn_scan (i + 1) (Some i) (p_dyn_priority p) ps
                         else dyn_scan (i + 1) pmax priority_max ps)
         in (r, p # ps'))
      else (let (r, ps') = dyn_scan (i + 1) pmax priority_max ps in (r, p # ps')))"

definition dyn_dispatch :: "proc \<Rightarrow> proc" where
  "dyn_dispatch p = p\<lparr>p_state := RUNNING, p_wait_time := 0, p_cpu_time := p_cpu_time p + 1\<rparr>"

text \<open>\<^verbatim>\<open>scheduler1\<close>: the runnable process of the greatest static priority.\<close>

fun scheduler1_scan :: "nat \<Rightarrow> nat option \<Rightarrow> int \<Rightarrow> ptable \<Rightarrow> nat option" where
  "scheduler1_scan i pmax priority_max [] = pmax"
| "scheduler1_scan i pmax priority_max (p # ps) =
     (if p_state p = RUNNABLE \<and> p_priority p > priority_max
      then scheduler1_scan (i + 1) (Some i) (p_priority p) ps
      else scheduler1_scan (i + 1) pmax priority_max ps)"

definition scheduler1 :: "ptable \<Rightarrow> nat option \<times> ptable" where
  "scheduler1 ps =
     (case scheduler1_scan 0 None (-1) ps of
        None \<Rightarrow> (None, ps)
      | Some i \<Rightarrow> (Some i, upd_at ps i (\<lambda>p. p\<lparr>p_state := RUNNING\<rparr>)))"

subsection \<open>Multi-level feedback queue\<close>

definition mlfq_time_slice :: "int list" where
  "mlfq_time_slice = [1, 2, 4, 8]"

definition mlfq_tick :: "nat option \<Rightarrow> ptable \<Rightarrow> bool \<times> ptable" where
  "mlfq_tick cur ps =
     (case cur of
        None \<Rightarrow> (False, ps)
      | Some i \<Rightarrow>
          let p = ps ! i in
          if p_state p \<noteq> RUNNING then (False, ps)
          else
            (let p = p\<lparr>mlfq_level := mlfq_clamp (mlfq_level p)\<rparr>;
                 p = p\<lparr>mlfq_ticks := mlfq_ticks p + 1\<rparr>
             in if mlfq_ticks p \<ge> mlfq_time_slice ! nat (mlfq_level p)
                then
                  (let p = (if mlfq_level p < MLFQ_LEVELS - 1 then p\<lparr>mlfq_level := mlfq_level p + 1\<rparr> else p)
                   in (True, ps[i := p\<lparr>mlfq_ticks := 0\<rparr>]))
                else (False, ps[i := p])))"

definition mlfq_boost :: "int \<Rightarrow> int \<times> ptable \<Rightarrow> int \<times> ptable" where
  "mlfq_boost now s =
     (let (last_boost, ps) = s in
      if now = last_boost then s
      else (now, map (\<lambda>p. if p_state p \<noteq> UNUSED then p\<lparr>mlfq_level := 0, mlfq_ticks := 0\<rparr> else p) ps))"

text \<open>
  The two nested loops that choose a process. The inner one runs over \<open>i = 0, \<dots>, NPROC - 1\<close> and
  clamps the level of every process it looks at.
\<close>

definition mlfq_match :: "int \<Rightarrow> proc \<Rightarrow> bool" where
  "mlfq_match level p \<longleftrightarrow> p_state p = RUNNABLE \<and> mlfq_level p = level \<and> rt_policy p = SCHED_NORMAL"

fun mlfq_level_scan :: "int \<Rightarrow> nat \<Rightarrow> nat list \<Rightarrow> ptable \<Rightarrow> nat option \<times> ptable" where
  "mlfq_level_scan level rr [] ps = (None, ps)"
| "mlfq_level_scan level rr (i # is) ps =
     (let idx = (rr + i) mod NPROC;
          ps = upd_at ps idx (\<lambda>p. p\<lparr>mlfq_level := mlfq_clamp (mlfq_level p)\<rparr>)
      in if mlfq_match level (ps ! idx) then (Some idx, ps)
         else mlfq_level_scan level rr is ps)"

fun mlfq_select :: "nat list \<Rightarrow> nat list \<Rightarrow> ptable \<Rightarrow> nat option \<times> nat list \<times> ptable" where
  "mlfq_select rr [] ps = (None, rr, ps)"
| "mlfq_select rr (l # ls) ps =
     (case mlfq_level_scan (int l) (rr ! l) [0..<NPROC] ps of
        (Some idx, ps) \<Rightarrow> (Some idx, rr[l := (idx + 1) mod NPROC], ps)
      | (None, ps) \<Rightarrow> mlfq_select rr ls ps)"

definition mlfq_pick :: "nat list \<Rightarrow> ptable \<Rightarrow> nat option \<times> nat list \<times> ptable" where
  "mlfq_pick rr ps = mlfq_select rr [0, 1, 2, 3] ps"

subsection \<open>Mid-term scheduler\<close>

record midsched =
  midsched_enabled :: bool
  midsched_last_suspend :: int

definition midsched_can_suspend :: "ptable \<Rightarrow> nat \<Rightarrow> nat option \<Rightarrow> bool" where
  "midsched_can_suspend ps i cur =
     (let p = ps ! i in
      if p_state p \<noteq> RUNNABLE \<and> p_state p \<noteq> SLEEPING then False
      else if midsched_suspending p then False
      else if p_sz p = 0 then False
      else if p_pid p \<le> 1 then False
      else if cur = Some i then False
      else if rt_policy p = SCHED_RT_LLF then False
      else True)"

text \<open>Bring one suspended process back.\<close>

definition midsched_resume :: "sched_cfg \<Rightarrow> proc \<Rightarrow> proc" where
  "midsched_resume c p =
     (if p_state p = SUSPENDED then mlfq_reset c (p\<lparr>p_state := RUNNABLE\<rparr>)
      else if p_state p = SUSPENDED_SLEEP
      then mlfq_reset c (if p_chan p \<noteq> None then p\<lparr>p_state := SLEEPING\<rparr> else p\<lparr>p_state := RUNNABLE\<rparr>)
      else p)"

definition midsched_resume_all :: "sched_cfg \<Rightarrow> ptable \<Rightarrow> ptable" where
  "midsched_resume_all c ps = map (\<lambda>p. (midsched_resume c p)\<lparr>midsched_suspending := False\<rparr>) ps"

definition midsched_set :: "sched_cfg \<Rightarrow> bool \<Rightarrow> midsched \<times> ptable \<Rightarrow> bool \<times> midsched \<times> ptable" where
  "midsched_set c on s =
     (let (m, ps) = s; old = midsched_enabled m; m = m\<lparr>midsched_enabled := on\<rparr>
      in (old, m, if \<not> on then midsched_resume_all c ps else ps))"

fun midsched_victim :: "ptable \<Rightarrow> nat option \<Rightarrow> nat list \<Rightarrow> nat option \<Rightarrow> int \<Rightarrow> nat option" where
  "midsched_victim ps cur [] victim maxsz = victim"
| "midsched_victim ps cur (i # is) victim maxsz =
     (if midsched_can_suspend ps i cur \<and> p_sz (ps ! i) > maxsz
      then midsched_victim ps cur is (Some i) (p_sz (ps ! i))
      else midsched_victim ps cur is victim maxsz)"

text \<open>
  \<^verbatim>\<open>midsched_suspend_one\<close> releases the victim's lock around \<^verbatim>\<open>swapout_proc\<close>, so it is
  two steps: the first chooses and suspends (result: the victim and its former state), the second
  runs when \<^verbatim>\<open>swapout_proc\<close> has returned \<open>swapped\<close>. Other processes run between them.
\<close>

definition midsched_suspend_begin ::
    "sched_cfg \<Rightarrow> int \<Rightarrow> nat option \<Rightarrow> ptable \<Rightarrow> (nat \<times> procstate) option \<times> ptable" where
  "midsched_suspend_begin c noff cur ps =
     (if noff > 0 then (None, ps)
      else case midsched_victim ps cur [0..<length ps] None 0 of
             None \<Rightarrow> (None, ps)
           | Some v \<Rightarrow>
               if \<not> midsched_can_suspend ps v cur then (None, ps)
               else
                 (let prev = p_state (ps ! v) in
                  (Some (v, prev),
                   upd_at ps v (\<lambda>p. mlfq_reset c
                     (p\<lparr>p_state := (if prev = SLEEPING then SUSPENDED_SLEEP else SUSPENDED),
                        midsched_suspending := True\<rparr>)))))"

definition midsched_suspend_end ::
    "int \<Rightarrow> int \<Rightarrow> nat \<times> procstate \<Rightarrow> midsched \<times> ptable \<Rightarrow> int \<times> midsched \<times> ptable" where
  "midsched_suspend_end now swapped vp s =
     (let (v, prev) = vp; (m, ps) = s;
          ps = upd_at ps v (\<lambda>p. p\<lparr>midsched_suspending := False\<rparr>)
      in if swapped \<le> 0
         then (0, m, if p_state (ps ! v) = SUSPENDED \<or> p_state (ps ! v) = SUSPENDED_SLEEP
                     then upd_at ps v (\<lambda>p. p\<lparr>p_state := prev\<rparr>) else ps)
         else (swapped, m\<lparr>midsched_last_suspend := now\<rparr>, ps))"

definition midsched_maybe_resume :: "sched_cfg \<Rightarrow> ptable \<Rightarrow> ptable" where
  "midsched_maybe_resume c ps =
     (case find_idx (\<lambda>p. (p_state p = SUSPENDED \<or> p_state p = SUSPENDED_SLEEP) \<and>
                         \<not> midsched_suspending p) ps of
        None \<Rightarrow> ps
      | Some i \<Rightarrow> upd_at ps i (midsched_resume c))"

text \<open>\<open>free\<close> and \<open>cached\<close> are the results of \<^verbatim>\<open>freebytes\<close> and \<^verbatim>\<open>swap_pbuf_stats\<close>.\<close>

definition midsched_maintain :: "sched_cfg \<Rightarrow> int \<Rightarrow> int \<Rightarrow> int \<Rightarrow> midsched \<Rightarrow> ptable \<Rightarrow> ptable" where
  "midsched_maintain c now free cached m ps =
     (if \<not> midsched_enabled m then ps
      else if u32 (now - midsched_last_suspend m) < 50 then ps
      else if free > 4096 * 4096 \<and> (cached < 64 \<or> free > 8192 * 4096)
      then midsched_maybe_resume c ps else ps)"

subsection \<open>A round of the scheduler\<close>

definition scheduler_dynprio ::
    "int \<Rightarrow> int \<Rightarrow> int \<Rightarrow> midsched \<Rightarrow> ptable \<Rightarrow> (nat option \<times> ptable) option" where
  "scheduler_dynprio now free cached m ps = do {
     let ps = midsched_maintain CfgDYNPRIO now free cached m ps;
     (rt, ps) \<leftarrow> rt_pick now ps;
     case rt of
       Some i \<Rightarrow> Some (Some i, upd_at ps i (\<lambda>p. p\<lparr>p_state := RUNNING\<rparr>))
     | None \<Rightarrow>
         (case dyn_scan 0 None (-1) ps of
            (None, ps) \<Rightarrow> Some (None, ps)
          | (Some i, ps) \<Rightarrow>
              if p_state (ps ! i) = RUNNABLE then Some (Some i, upd_at ps i dyn_dispatch)
              else Some (None, ps))
   }"

definition scheduler_mlfq ::
    "int \<Rightarrow> int \<Rightarrow> int \<Rightarrow> midsched \<Rightarrow> nat list \<Rightarrow> ptable \<Rightarrow> (nat option \<times> nat list \<times> ptable) option" where
  "scheduler_mlfq now free cached m rr ps = do {
     let ps = midsched_maintain CfgMLFQ now free cached m ps;
     (rt, ps) \<leftarrow> rt_pick now ps;
     case rt of
       Some i \<Rightarrow> Some (Some i, rr, upd_at ps i (\<lambda>p. p\<lparr>p_state := RUNNING, mlfq_ticks := 0\<rparr>))
     | None \<Rightarrow>
         (case mlfq_pick rr ps of
            (None, rr, ps) \<Rightarrow> Some (None, rr, ps)
          | (Some i, rr, ps) \<Rightarrow>
              Some (Some i, rr, upd_at ps i (\<lambda>p. p\<lparr>p_state := RUNNING, mlfq_ticks := 0\<rparr>)))
   }"

definition yield :: "proc \<Rightarrow> proc" where
  "yield p = p\<lparr>mlfq_ticks := 0, p_state := RUNNABLE\<rparr>"

text \<open>\<^verbatim>\<open>clockintr\<close>: \<open>(ticks, last_boost, proc)\<close>.\<close>

definition clockintr :: "sched_cfg \<Rightarrow> int \<times> int \<times> ptable \<Rightarrow> int \<times> int \<times> ptable" where
  "clockintr c s =
     (let (ticks, last_boost, ps) = s;
          ticks = u32 (ticks + 1);
          ps = wakeup c ChTicks ps
      in case c of
           CfgMLFQ \<Rightarrow> if ticks mod MLFQ_BOOST_TICKS = 0 then (ticks, mlfq_boost ticks (last_boost, ps))
                      else (ticks, last_boost, ps)
         | CfgDYNPRIO \<Rightarrow> (ticks, last_boost, ps))"

text \<open>The scheduling part of the timer interrupt in \<^verbatim>\<open>usertrap\<close>: does it yield?\<close>

definition timer_sched :: "sched_cfg \<Rightarrow> int \<Rightarrow> nat \<Rightarrow> ptable \<Rightarrow> (bool \<times> ptable) option" where
  "timer_sched c now cur ps = do {
     (t, ps) \<leftarrow> rt_tick now (Some cur) ps;
     if t then Some (True, upd_at ps cur yield)
     else do {
       (r, ps) \<leftarrow> rt_should_preempt now (Some cur) ps;
       if r then Some (True, upd_at ps cur yield)
       else case c of
              CfgMLFQ \<Rightarrow> (case mlfq_tick (Some cur) ps of
                            (m, ps) \<Rightarrow> Some (m, if m then upd_at ps cur yield else ps))
            | CfgDYNPRIO \<Rightarrow> Some (True, upd_at ps cur yield)
     }
   }"

subsection \<open>Refreshing a real-time process\<close>

text \<open>
  The parameters \<^verbatim>\<open>rt_set\<close> accepts, a release in the past, and a clock that is a period away
  from the end of the signed range.
\<close>

definition rt_ok :: "int \<Rightarrow> proc \<Rightarrow> bool" where
  "rt_ok now p \<longleftrightarrow> 0 < rt_runtime p \<and> rt_runtime p \<le> rt_deadline p \<and> rt_deadline p \<le> rt_period p \<and>
     0 \<le> rt_release p \<and> rt_release p \<le> now \<and> now + 2 * rt_period p < 2147483648 \<and>
     0 \<le> rt_misses p \<and> rt_misses p + now - rt_release p < 2147483648 \<and> 0 \<le> rt_remaining p"

lemma rt_next_period_fields:
  assumes "rt_ok now p" "rt_release p + rt_period p \<le> now"
  shows "rt_next_period p = p\<lparr>rt_misses := rt_misses p + (if rt_remaining p > 0 then 1 else 0),
      rt_release := rt_release p + rt_period p,
      rt_deadline_tick := rt_release p + rt_period p + rt_deadline p, rt_remaining := rt_runtime p\<rparr>"
  using assms by (simp add: rt_next_period_def rt_ok_def i32_id Let_def)

lemma rt_next_period_ok:
  assumes "rt_ok now p" "rt_release p + rt_period p \<le> now"
  shows "rt_ok now (rt_next_period p)"
  using assms unfolding rt_next_period_fields [OF assms] by (simp add: rt_ok_def)

definition rt_periods :: "int \<Rightarrow> proc \<Rightarrow> int" where
  "rt_periods now p = (now - rt_release p) div rt_period p"

definition rt_advance :: "int \<Rightarrow> proc \<Rightarrow> proc" where
  "rt_advance now p =
     (let k = rt_periods now p; rel = rt_release p + k * rt_period p in
      if k = 0 then p
      else p\<lparr>rt_misses := rt_misses p + (if rt_remaining p > 0 then k else k - 1), rt_release := rel,
             rt_deadline_tick := rel + rt_deadline p, rt_remaining := rt_runtime p\<rparr>)"

lemma rt_periods_next:
  assumes "rt_ok now p" "rt_release p + rt_period p \<le> now"
  shows "rt_periods now p = rt_periods now (rt_next_period p) + 1"
proof -
  have "rt_period p \<noteq> 0" using assms(1) by (auto simp: rt_ok_def)
  then show ?thesis
    unfolding rt_periods_def rt_next_period_fields [OF assms]
    using div_add_self2 [of "rt_period p" "now - (rt_release p + rt_period p)"] by simp
qed

lemma rt_refresh_loop_eq:
  assumes "rt_ok now p"
  shows "rt_refresh_loop now p = Some (rt_advance now p)"
  using assms
proof (induction "nat (rt_periods now p)" arbitrary: p rule: less_induct)
  case less
  have pos: "0 < rt_period p" and cond: "u32 (rt_release p + rt_period p) = rt_release p + rt_period p"
    using less.prems by (auto simp: rt_ok_def intro!: u32_id)
  show ?case
  proof (cases "rt_release p + rt_period p \<le> now")
    case True
    let ?q = "rt_next_period p"
    note f = rt_next_period_fields [OF less.prems True] and ok = rt_next_period_ok [OF less.prems True]
    have k: "rt_periods now p = rt_periods now ?q + 1" by (rule rt_periods_next [OF less.prems True])
    have q0: "0 \<le> rt_periods now ?q"
      using ok by (auto simp: rt_periods_def rt_ok_def intro!: pos_imp_zdiv_nonneg_iff [THEN iffD2])
    have "rt_refresh_loop now ?q = Some (rt_advance now ?q)"
      by (rule less.hyps) (use k q0 ok in auto)
    moreover have "rt_advance now ?q = rt_advance now p"
    proof -
      have "rt_remaining ?q > 0" using less.prems by (simp add: f rt_ok_def)
      moreover have "rt_periods now p \<noteq> 0" using k q0 by simp
      moreover have "rt_release ?q + rt_periods now ?q * rt_period ?q =
          rt_release p + rt_periods now p * rt_period p"
        unfolding k by (simp add: f algebra_simps)
      ultimately show ?thesis
        using q0 by (simp add: rt_advance_def Let_def k) (simp add: f)
    qed
    ultimately show ?thesis
      using True cond by (simp add: rt_refresh_loop.simps [of now p])
  next
    case False
    have "rt_periods now p = 0"
      using False less.prems by (simp add: rt_periods_def rt_ok_def)
    with False cond show ?thesis
      by (simp add: rt_refresh_loop.simps [of now p] rt_advance_def)
  qed
qed

lemma rt_advance_keeps [simp]:
  "p_state (rt_advance now p) = p_state p" "rt_policy (rt_advance now p) = rt_policy p"
  "rt_period (rt_advance now p) = rt_period p" "rt_runtime (rt_advance now p) = rt_runtime p"
  "rt_deadline (rt_advance now p) = rt_deadline p"
  by (simp_all add: rt_advance_def Let_def)

lemma rt_advance_nonneg: "rt_ok now p \<Longrightarrow> 0 \<le> rt_remaining (rt_advance now p)"
  by (simp add: rt_advance_def rt_ok_def Let_def)

lemma rt_refresh_locked_eq:
  assumes "rt_ok now p" "rt_policy p = SCHED_RT_LLF"
  shows "rt_refresh_locked p now = Some (rt_advance now p)"
  using rt_refresh_loop_eq [OF assms(1)] rt_advance_nonneg [OF assms(1)] assms
  by (auto simp: rt_refresh_locked_def rt_ok_def)

lemma rt_advance_window:
  assumes "rt_ok now p"
  shows "rt_release (rt_advance now p) \<le> now" "now < rt_release (rt_advance now p) + rt_period p"
proof -
  have pos: "0 < rt_period p" using assms by (simp add: rt_ok_def)
  have rel: "rt_release (rt_advance now p) = rt_release p + rt_periods now p * rt_period p"
    by (simp add: rt_advance_def Let_def)
  from pos have m: "0 \<le> (now - rt_release p) mod rt_period p" "(now - rt_release p) mod rt_period p < rt_period p"
    by simp_all
  have "now - rt_release p = rt_periods now p * rt_period p + (now - rt_release p) mod rt_period p"
    by (simp add: rt_periods_def)
  with m rel show "rt_release (rt_advance now p) \<le> now" "now < rt_release (rt_advance now p) + rt_period p"
    by linarith+
qed

text \<open>The loop does not end once the clock is at the top of its range: the comparison is vacuous.\<close>

lemma rt_refresh_loop_diverges: "rt_refresh_loop 4294967295 p = None"
proof -
  have "now \<noteq> 4294967295" if "rt_refresh_loop now p = Some q" for now p q
    using that
  proof (rule rt_refresh_loop.raw_induct [of "\<lambda>now p q. now \<noteq> 4294967295", rotated])
    fix f :: "int \<Rightarrow> proc \<Rightarrow> proc option" and now p q
    assume IH: "\<And>now p q. f now p = Some q \<Longrightarrow> now \<noteq> 4294967295"
      and eq: "(if now \<ge> u32 (rt_release p + rt_period p) then f now (rt_next_period p) else Some p) = Some q"
    show "now \<noteq> 4294967295"
      using eq IH u32_range(2) [of "rt_release p + rt_period p"] by (auto split: if_splits)
  qed
  then show ?thesis by (metis not_None_eq)
qed

subsection \<open>Choosing the first best entry of a table\<close>

text \<open>
  Every scheduler loop here keeps the best candidate seen and replaces it on a strictly better one:
  the result is the first entry with the greatest key among the candidates.
\<close>

definition first_best :: "('a \<Rightarrow> bool) \<Rightarrow> ('a \<Rightarrow> int) \<Rightarrow> 'a list \<Rightarrow> nat option \<Rightarrow> bool" where
  "first_best cand key xs r =
     (case r of
        None \<Rightarrow> \<forall>i < length xs. \<not> cand (xs ! i)
      | Some i \<Rightarrow> i < length xs \<and> cand (xs ! i) \<and>
          (\<forall>j < length xs. cand (xs ! j) \<longrightarrow>
             key (xs ! j) \<le> key (xs ! i) \<and> (j < i \<longrightarrow> key (xs ! j) < key (xs ! i))))"

lemma first_best_Nil [simp]: "first_best cand key [] r \<longleftrightarrow> r = None"
  by (auto simp: first_best_def split: option.splits)

lemma first_best_snoc:
  assumes "first_best cand key xs r"
  shows "first_best cand key (xs @ [x])
    (if cand x \<and> (\<forall>i. r = Some i \<longrightarrow> key x > key (xs ! i)) then Some (length xs) else r)"
proof (cases r)
  case None
  with assms show ?thesis
    by (auto simp: first_best_def nth_append less_Suc_eq)
next
  case (Some i)
  with assms show ?thesis
    by (auto simp: first_best_def nth_append less_Suc_eq)
qed

locale selector =
  fixes pick :: "'a list \<Rightarrow> nat option" and cand :: "'a \<Rightarrow> bool" and key :: "'a \<Rightarrow> int"
  assumes pick_first_best: "first_best cand key xs (pick xs)"
begin

lemma pick_Some:
  assumes "pick xs = Some i"
  shows "i < length xs" "cand (xs ! i)" "\<And>j. j < length xs \<Longrightarrow> cand (xs ! j) \<Longrightarrow> key (xs ! j) \<le> key (xs ! i)"
  using pick_first_best [of xs] by (auto simp: assms first_best_def)

lemma pick_None_iff: "pick xs = None \<longleftrightarrow> (\<forall>i < length xs. \<not> cand (xs ! i))"
  using pick_first_best [of xs] by (auto simp: first_best_def split: option.splits)

text \<open>A candidate that beats all others is chosen.\<close>

lemma pick_strict_max:
  assumes "i < length xs" "cand (xs ! i)"
    "\<And>j. j < length xs \<Longrightarrow> j \<noteq> i \<Longrightarrow> cand (xs ! j) \<Longrightarrow> key (xs ! j) < key (xs ! i)"
  shows "pick xs = Some i"
proof (cases "pick xs")
  case None
  with assms show ?thesis by (auto simp: pick_None_iff)
next
  case (Some k)
  note k = pick_Some [OF Some]
  have "k = i"
  proof (rule ccontr)
    assume "k \<noteq> i"
    with assms(3) k have "key (xs ! k) < key (xs ! i)" by blast
    with k(3) [OF assms(1,2)] show False by simp
  qed
  with Some show ?thesis by simp
qed

text \<open>Among equals, the first of the table is chosen.\<close>

lemma pick_among_equals:
  assumes "\<And>i j. i < length xs \<Longrightarrow> j < length xs \<Longrightarrow> cand (xs ! i) \<Longrightarrow> cand (xs ! j) \<Longrightarrow> key (xs ! i) = key (xs ! j)"
  shows "pick xs = find_idx cand xs"
proof (cases "pick xs")
  case None
  then show ?thesis by (metis find_idx_None_iff pick_None_iff)
next
  case (Some i)
  note i = pick_Some [OF Some]
  have "\<not> cand (xs ! j)" if "j < i" for j
    using pick_first_best [of xs] that assms [of j i] i(1,2)
    by (auto simp: Some first_best_def dest: less_trans)
  with find_idx_SomeI [of i xs cand] i Some show ?thesis by simp
qed

end

text \<open>The bound the loops carry: the key of the best entry, \<open>low\<close> before there is one.\<close>

definition bound_of :: "('a \<Rightarrow> int) \<Rightarrow> int \<Rightarrow> 'a list \<Rightarrow> nat option \<Rightarrow> int" where
  "bound_of key low xs r = (case r of None \<Rightarrow> low | Some i \<Rightarrow> key (xs ! i))"

lemma first_best_extend:
  assumes fb: "first_best cand key xs r" and low: "\<And>y. cand y \<Longrightarrow> low < key y"
  shows "cand y \<Longrightarrow> key y > bound_of key low xs r \<Longrightarrow> first_best cand key (xs @ [y]) (Some (length xs))"
    "\<not> (cand y \<and> key y > bound_of key low xs r) \<Longrightarrow> first_best cand key (xs @ [y]) r"
    "cand y \<Longrightarrow> bound_of key low (xs @ [y]) (Some (length xs)) = key y"
    "bound_of key low (xs @ [y]) r = bound_of key low xs r"
proof -
  have r: "i < length xs" if "r = Some i" for i using fb that by (simp add: first_best_def)
  show "bound_of key low (xs @ [y]) r = bound_of key low xs r"
    using r by (auto simp: bound_of_def nth_append split: option.splits)
  show "cand y \<Longrightarrow> bound_of key low (xs @ [y]) (Some (length xs)) = key y"
    by (simp add: bound_of_def)
  show "cand y \<Longrightarrow> key y > bound_of key low xs r \<Longrightarrow> first_best cand key (xs @ [y]) (Some (length xs))"
    using first_best_snoc [OF fb, of y] by (auto simp: bound_of_def split: if_splits)
  assume "\<not> (cand y \<and> key y > bound_of key low xs r)"
  then show "first_best cand key (xs @ [y]) r"
    using first_best_snoc [OF fb, of y] low [of y] by (cases r) (auto simp: bound_of_def split: if_splits)
qed

definition sched1_cand :: "proc \<Rightarrow> bool" where
  "sched1_cand p \<longleftrightarrow> p_state p = RUNNABLE \<and> p_priority p > -1"

lemma scheduler1_scan_best:
  "first_best sched1_cand p_priority xs r \<Longrightarrow>
    first_best sched1_cand p_priority (xs @ ys)
      (scheduler1_scan (length xs) r (bound_of p_priority (-1) xs r) ys)"
proof (induction ys arbitrary: xs r)
  case (Cons y ys)
  note ext = first_best_extend [OF Cons.prems, of "-1" y]
  have low: "\<And>y. sched1_cand y \<Longrightarrow> -1 < p_priority y" by (simp add: sched1_cand_def)
  have "-1 \<le> bound_of p_priority (-1) xs r"
    using Cons.prems by (auto simp: bound_of_def first_best_def sched1_cand_def split: option.splits)
  then have eq: "(p_state y = RUNNABLE \<and> p_priority y > bound_of p_priority (-1) xs r) \<longleftrightarrow>
      (sched1_cand y \<and> p_priority y > bound_of p_priority (-1) xs r)"
    by (auto simp: sched1_cand_def)
  show ?case
  proof (cases "sched1_cand y \<and> p_priority y > bound_of p_priority (-1) xs r")
    case True
    with Cons.IH [OF ext(1) [OF low]] ext(3) [OF low] eq show ?thesis by simp
  next
    case False
    with Cons.IH [OF ext(2) [OF low]] ext(4) [OF low] eq show ?thesis by auto
  qed
qed simp

interpretation sched1: selector "scheduler1_scan 0 None (-1)" sched1_cand p_priority
  by unfold_locales (use scheduler1_scan_best [of "[]" None] in \<open>simp add: bound_of_def\<close>)

definition dyn_cand :: "proc \<Rightarrow> bool" where
  "dyn_cand p \<longleftrightarrow> p_state p = RUNNABLE \<and> rt_policy p = SCHED_NORMAL"

definition dyn_key :: "proc \<Rightarrow> int" where
  "dyn_key p = p_dyn_priority (dyn_update p)"

lemma dyn_key_range: "0 \<le> dyn_key p" "dyn_key p \<le> 20"
  by (simp_all add: dyn_key_def dyn_update_def Let_def)

lemma dyn_scan_Cons:
  "dyn_scan i r m (y # ys) =
     (let (r', ps') = (if dyn_cand y \<and> dyn_key y > m then dyn_scan (i + 1) (Some i) (dyn_key y) ys
                       else dyn_scan (i + 1) r m ys)
      in (r', (if dyn_cand y then dyn_update y else y) # ps'))"
  by (simp add: dyn_cand_def dyn_key_def Let_def split: prod.splits)

lemma dyn_scan_best:
  "first_best dyn_cand dyn_key xs r \<Longrightarrow>
    first_best dyn_cand dyn_key (xs @ ys) (fst (dyn_scan (length xs) r (bound_of dyn_key (-1) xs r) ys)) \<and>
    snd (dyn_scan (length xs) r (bound_of dyn_key (-1) xs r) ys) =
      map (\<lambda>p. if dyn_cand p then dyn_update p else p) ys"
proof (induction ys arbitrary: xs r)
  case (Cons y ys)
  note ext = first_best_extend [OF Cons.prems, of "-1" y]
  have low: "\<And>y. dyn_cand y \<Longrightarrow> -1 < dyn_key y" using dyn_key_range(1) by (metis less_le_trans neg_less_0_iff_less zero_less_one)
  show ?case
  proof (cases "dyn_cand y \<and> dyn_key y > bound_of dyn_key (-1) xs r")
    case True
    with Cons.IH [OF ext(1) [OF low]] ext(3) [OF low] show ?thesis
      by (auto simp: dyn_scan_Cons Let_def simp del: dyn_scan.simps(2) split: prod.splits)
  next
    case False
    with Cons.IH [OF ext(2) [OF low]] ext(4) [OF low] show ?thesis
      by (auto simp: dyn_scan_Cons Let_def simp del: dyn_scan.simps(2) split: prod.splits)
  qed
qed simp

interpretation dyn: selector "\<lambda>ps. fst (dyn_scan 0 None (-1) ps)" dyn_cand dyn_key
  by unfold_locales (use dyn_scan_best [of "[]" None] in \<open>simp add: bound_of_def\<close>)

lemma dyn_scan_table: "snd (dyn_scan 0 None (-1) ps) = map (\<lambda>p. if dyn_cand p then dyn_update p else p) ps"
  using dyn_scan_best [of "[]" None ps] by (simp add: bound_of_def)

subsection \<open>Least laxity first\<close>

definition rt_cand :: "int \<Rightarrow> proc \<Rightarrow> bool" where
  "rt_cand now p \<longleftrightarrow> p_state p = RUNNABLE \<and> rt_eligible_locked p now"

definition rt_fresh :: "int \<Rightarrow> proc \<Rightarrow> proc" where
  "rt_fresh now p = (if p_state p = RUNNABLE \<and> rt_policy p = SCHED_RT_LLF then rt_advance now p else p)"

definition rt_table_ok :: "int \<Rightarrow> ptable \<Rightarrow> bool" where
  "rt_table_ok now ps \<longleftrightarrow>
     (\<forall>p \<in> set ps. p_state p = RUNNABLE \<and> rt_policy p = SCHED_RT_LLF \<longrightarrow> rt_ok now p)"

abbreviation rt_key :: "int \<Rightarrow> proc \<Rightarrow> int" where
  "rt_key now p \<equiv> - rt_laxity_locked p now"

abbreviation with_laxity :: "int \<Rightarrow> ptable \<Rightarrow> nat option \<Rightarrow> (nat \<times> int) option" where
  "with_laxity now xs r \<equiv> map_option (\<lambda>i. (i, rt_laxity_locked (xs ! i) now)) r"

lemma rt_pick_loop_step:
  assumes ok: "p_state y = RUNNABLE \<and> rt_policy y = SCHED_RT_LLF \<longrightarrow> rt_ok now y"
    and fb: "first_best (rt_cand now) (rt_key now) xs r"
  shows "\<exists>r'. first_best (rt_cand now) (rt_key now) (xs @ [rt_fresh now y]) r' \<and>
    rt_pick_loop now (length xs # is) (with_laxity now xs r, xs @ y # ys) =
    rt_pick_loop now is (with_laxity now (xs @ [rt_fresh now y]) r', xs @ rt_fresh now y # ys)"
proof -
  have r: "i < length xs" if "r = Some i" for i using fb that by (simp add: first_best_def)
  let ?r' = "if rt_cand now (rt_fresh now y) \<and>
      (\<forall>i. r = Some i \<longrightarrow> rt_key now (rt_fresh now y) > rt_key now (xs ! i)) then Some (length xs) else r"
  note snoc = first_best_snoc [OF fb, of "rt_fresh now y"]
  show ?thesis
  proof (cases "p_state y = RUNNABLE \<and> rt_policy y = SCHED_RT_LLF")
    case True
    with ok have "rt_refresh_locked y now = Some (rt_advance now y)" by (simp add: rt_refresh_locked_eq)
    then have "rt_pick_loop now (length xs # is) (with_laxity now xs r, xs @ y # ys) =
        rt_pick_loop now is (with_laxity now (xs @ [rt_fresh now y]) ?r', xs @ rt_fresh now y # ys)"
      using True r by (cases r) (auto simp: rt_fresh_def rt_cand_def nth_append Let_def)
    with snoc show ?thesis by blast
  next
    case False
    then have "rt_fresh now y = y" "\<not> rt_cand now y"
      by (auto simp: rt_fresh_def rt_cand_def rt_eligible_locked_def split: if_splits)
    with False r snoc show ?thesis
      by (cases r) (auto simp: nth_append intro!: exI [of _ r])
  qed
qed

lemma rt_pick_loop_best:
  assumes "rt_table_ok now ys" "first_best (rt_cand now) (rt_key now) xs r"
  shows "\<exists>r'. first_best (rt_cand now) (rt_key now) (xs @ map (rt_fresh now) ys) r' \<and>
    rt_pick_loop now [length xs..<length xs + length ys] (with_laxity now xs r, xs @ ys) =
      Some (with_laxity now (xs @ map (rt_fresh now) ys) r', xs @ map (rt_fresh now) ys)"
  using assms
proof (induction ys arbitrary: xs r)
  case (Cons y ys)
  from Cons.prems(1) have ok: "p_state y = RUNNABLE \<and> rt_policy y = SCHED_RT_LLF \<longrightarrow> rt_ok now y"
    and ok': "rt_table_ok now ys" by (auto simp: rt_table_ok_def)
  let ?xs = "xs @ [rt_fresh now y]"
  have upt: "[length xs..<length xs + length (y # ys)] = length xs # [length ?xs..<length ?xs + length ys]"
    by (simp add: upt_conv_Cons del: upt_Suc)
  from rt_pick_loop_step [OF ok Cons.prems(2)] obtain r1 where
    r1: "first_best (rt_cand now) (rt_key now) ?xs r1"
    "rt_pick_loop now (length xs # [length ?xs..<length ?xs + length ys]) (with_laxity now xs r, xs @ y # ys) =
     rt_pick_loop now [length ?xs..<length ?xs + length ys] (with_laxity now ?xs r1, xs @ rt_fresh now y # ys)"
    by blast
  from Cons.IH [OF ok' r1(1)] r1(2) upt show ?case by simp
qed auto

lemma rt_pick_spec:
  assumes "rt_table_ok now ps"
  obtains r where "rt_pick now ps = Some (r, map (rt_fresh now) ps)"
    "first_best (rt_cand now) (rt_key now) (map (rt_fresh now) ps) r"
  using rt_pick_loop_best [OF assms, of "[]" None] that
  by (auto simp: rt_pick_def option.map_comp comp_def option.map_ident)

text \<open>A real-time process that may run keeps every other process off the CPU.\<close>

lemma rt_first_mlfq:
  assumes ok: "rt_table_ok now (midsched_maintain CfgMLFQ now free cached m ps)"
    and i: "i < length (midsched_maintain CfgMLFQ now free cached m ps)"
      "rt_cand now (rt_fresh now (midsched_maintain CfgMLFQ now free cached m ps ! i))"
  shows "\<exists>k rr' ps'. scheduler_mlfq now free cached m rr ps = Some (Some k, rr', ps') \<and> rr' = rr \<and>
     rt_policy (ps' ! k) = SCHED_RT_LLF"
proof -
  let ?ps = "midsched_maintain CfgMLFQ now free cached m ps"
  from rt_pick_spec [OF ok] obtain r where r: "rt_pick now ?ps = Some (r, map (rt_fresh now) ?ps)"
    "first_best (rt_cand now) (rt_key now) (map (rt_fresh now) ?ps) r" by blast
  from r(2) i obtain k where k: "r = Some k" "k < length ?ps" "rt_cand now (map (rt_fresh now) ?ps ! k)"
    by (cases r) (auto simp: first_best_def)
  then have "rt_policy (map (rt_fresh now) ?ps ! k) = SCHED_RT_LLF"
    by (simp add: rt_cand_def rt_eligible_locked_def split: if_splits)
  with r(1) k show ?thesis by (simp add: scheduler_mlfq_def)
qed

subsection \<open>The feedback queue\<close>

definition mlfq_table_ok :: "ptable \<Rightarrow> bool" where
  "mlfq_table_ok ps \<longleftrightarrow> length ps = NPROC \<and> (\<forall>p \<in> set ps. 0 \<le> mlfq_level p \<and> mlfq_level p < MLFQ_LEVELS)"

definition mlfq_cand :: "proc \<Rightarrow> bool" where
  "mlfq_cand p \<longleftrightarrow> p_state p = RUNNABLE \<and> rt_policy p = SCHED_NORMAL"

lemma mlfq_match_cand: "mlfq_match l p \<longleftrightarrow> mlfq_cand p \<and> mlfq_level p = l"
  by (auto simp: mlfq_match_def mlfq_cand_def)

lemma mlfq_clamp_id: "0 \<le> l \<Longrightarrow> l < 4 \<Longrightarrow> mlfq_clamp l = l"
  by (simp add: mlfq_clamp_def)

lemma mlfq_clamp_range: "0 \<le> mlfq_clamp l" "mlfq_clamp l < 4"
  by (simp_all add: mlfq_clamp_def Let_def)

lemma mlfq_level_scan_find:
  assumes "mlfq_table_ok ps"
  shows "mlfq_level_scan l rr is ps =
    (map_option (\<lambda>i. (rr + i) mod NPROC) (find (\<lambda>i. mlfq_match l (ps ! ((rr + i) mod NPROC))) is), ps)"
proof (induction "is")
  case (Cons i "is")
  let ?k = "(rr + i) mod 64"
  have "?k < length ps" using assms by (simp add: mlfq_table_ok_def)
  then have "0 \<le> mlfq_level (ps ! ?k)" "mlfq_level (ps ! ?k) < 4"
    using assms by (auto simp: mlfq_table_ok_def)
  then have "upd_at ps ?k (\<lambda>p. p\<lparr>mlfq_level := mlfq_clamp (mlfq_level p)\<rparr>) = ps"
    by (simp add: mlfq_clamp_id)
  with Cons show ?case by (simp add: Let_def)
qed simp

text \<open>The cyclic distance from \<open>a\<close> to \<open>b\<close>.\<close>

definition cyc :: "nat \<Rightarrow> nat \<Rightarrow> nat" where
  "cyc a b = (if a \<le> b then b - a else b + NPROC - a)"

lemma cyc_less: "a < 64 \<Longrightarrow> b < 64 \<Longrightarrow> cyc a b < 64"
  by (auto simp: cyc_def)

lemma cyc_add: "a < 64 \<Longrightarrow> b < 64 \<Longrightarrow> (a + cyc a b) mod 64 = b"
  by (auto simp: cyc_def)

lemma mod64_small: "x < 128 \<Longrightarrow> x mod 64 = (if x < 64 then x else x - (64 :: nat))"
  by (auto simp: le_mod_geq not_less)

lemma cyc_unique: "a < 64 \<Longrightarrow> d < 64 \<Longrightarrow> cyc a ((a + d) mod 64) = d"
  by (auto simp: cyc_def mod64_small)

lemma cyc_next: "a < 64 \<Longrightarrow> b < 64 \<Longrightarrow> k < 64 \<Longrightarrow> cyc a k < cyc a b \<Longrightarrow>
    cyc ((k + 1) mod 64) b = cyc a b - cyc a k - 1"
  by (auto simp: cyc_def mod64_small split: if_splits)

lemma mlfq_level_scan_spec:
  assumes ok: "mlfq_table_ok ps" and rr: "rr < NPROC"
  shows "mlfq_level_scan l rr [0..<NPROC] ps = (r, ps') \<Longrightarrow> ps' = ps \<and>
    (case r of
       None \<Rightarrow> \<forall>i < NPROC. \<not> mlfq_match l (ps ! i)
     | Some k \<Rightarrow> k < NPROC \<and> mlfq_match l (ps ! k) \<and>
         (\<forall>i < NPROC. mlfq_match l (ps ! i) \<longrightarrow> cyc rr k \<le> cyc rr i))"
proof -
  assume scan: "mlfq_level_scan l rr [0..<NPROC] ps = (r, ps')"
  let ?P = "\<lambda>i. mlfq_match l (ps ! ((rr + i) mod 64))"
  show ?thesis
  proof (cases "find ?P [0..<64]")
    case None
    then have no: "\<not> ?P d" if "d < 64" for d using that by (auto simp: find_None_iff)
    have "\<not> mlfq_match l (ps ! i)" if "i < 64" for i
      using no [OF cyc_less [OF rr that]] cyc_add [OF rr that] by simp
    with scan None show ?thesis by (simp add: mlfq_level_scan_find [OF ok])
  next
    case (Some d)
    then have d: "d < 64" "?P d" "\<And>e. e < d \<Longrightarrow> \<not> ?P e"
      by (auto simp: find_Some_iff)
    let ?k = "(rr + d) mod 64"
    have ck: "cyc rr ?k = d" using cyc_unique rr d(1) by simp
    have "cyc rr ?k \<le> cyc rr i" if "i < 64" "mlfq_match l (ps ! i)" for i
    proof (rule ccontr)
      assume "\<not> ?thesis"
      then have "cyc rr i < d" by (simp add: ck)
      from d(3) [OF this] that cyc_add [OF rr that(1)] show False by simp
    qed
    with scan Some d(2) show ?thesis by (auto simp: mlfq_level_scan_find [OF ok])
  qed
qed

definition mlfq_rr_ok :: "nat list \<Rightarrow> bool" where
  "mlfq_rr_ok rr \<longleftrightarrow> length rr = 4 \<and> (\<forall>k \<in> set rr. k < NPROC)"

lemma mlfq_select_split:
  assumes ok: "mlfq_table_ok ps" and rr: "mlfq_rr_ok rr" and ls: "\<forall>l \<in> set ls. l < 4"
    and sel: "mlfq_select rr ls ps = (r, rr', ps')"
  shows "ps' = ps \<and>
    (case r of
       None \<Rightarrow> rr' = rr \<and> (\<forall>l \<in> set ls. \<forall>i < NPROC. \<not> mlfq_match (int l) (ps ! i))
     | Some k \<Rightarrow> \<exists>pre l post. ls = pre @ l # post \<and>
         (\<forall>l \<in> set pre. \<forall>i < NPROC. \<not> mlfq_match (int l) (ps ! i)) \<and>
         k < NPROC \<and> mlfq_match (int l) (ps ! k) \<and> rr' = rr[l := (k + 1) mod NPROC] \<and>
         (\<forall>i < NPROC. mlfq_match (int l) (ps ! i) \<longrightarrow> cyc (rr ! l) k \<le> cyc (rr ! l) i))"
  using ls sel
proof (induction ls)
  case (Cons l ls)
  have rl: "rr ! l < 64" using rr Cons.prems(1) by (auto simp: mlfq_rr_ok_def)
  obtain r1 ps1 where scan: "mlfq_level_scan (int l) (rr ! l) [0..<64] ps = (r1, ps1)" by fastforce
  note spec = mlfq_level_scan_spec [OF ok rl scan]
  show ?case
  proof (cases r1)
    case None
    with spec scan Cons.prems(2) have "mlfq_select rr ls ps = (r, rr', ps')" by simp
    with Cons.IH Cons.prems(1) have IH: "ps' = ps \<and>
      (case r of
         None \<Rightarrow> rr' = rr \<and> (\<forall>l \<in> set ls. \<forall>i < NPROC. \<not> mlfq_match (int l) (ps ! i))
       | Some k \<Rightarrow> \<exists>pre l post. ls = pre @ l # post \<and>
           (\<forall>l \<in> set pre. \<forall>i < NPROC. \<not> mlfq_match (int l) (ps ! i)) \<and>
           k < NPROC \<and> mlfq_match (int l) (ps ! k) \<and> rr' = rr[l := (k + 1) mod NPROC] \<and>
           (\<forall>i < NPROC. mlfq_match (int l) (ps ! i) \<longrightarrow> cyc (rr ! l) k \<le> cyc (rr ! l) i))"
      by simp
    show ?thesis
    proof (cases r)
      case (Some k)
      with IH obtain pre l' post where "ls = pre @ l' # post"
        "\<forall>l \<in> set pre. \<forall>i < NPROC. \<not> mlfq_match (int l) (ps ! i)"
        "k < NPROC" "mlfq_match (int l') (ps ! k)" "rr' = rr[l' := (k + 1) mod NPROC]"
        "\<forall>i < NPROC. mlfq_match (int l') (ps ! i) \<longrightarrow> cyc (rr ! l') k \<le> cyc (rr ! l') i" by auto
      with IH Some None spec show ?thesis
        by (intro conjI) (simp, simp, intro exI [of _ "l # pre"] exI [of _ l'], auto)
    qed (use IH None spec in auto)
  next
    case (Some k)
    with spec scan Cons.prems(2) show ?thesis
      by (auto intro!: exI [of _ "[]"])
  qed
qed simp

lemma upt4_prefix: "[0, 1, 2, 3] = pre @ l # (post :: nat list) \<Longrightarrow> set pre = {..<l} \<and> l < 4"
  by (auto simp: Cons_eq_append_conv append_eq_Cons_conv lessThan_Suc numeral_eq_Suc less_Suc_eq)

lemma mlfq_select_pick:
  assumes ok: "mlfq_table_ok ps" and rr: "mlfq_rr_ok rr"
    and sel: "mlfq_pick rr ps = (Some k, rr', ps')"
  defines "l \<equiv> nat (mlfq_level (ps ! k))"
  shows "ps' = ps" "k < NPROC" "mlfq_cand (ps ! k)" "l < 4" "rr' = rr[l := (k + 1) mod NPROC]"
    "\<And>i. i < NPROC \<Longrightarrow> mlfq_cand (ps ! i) \<Longrightarrow> mlfq_level (ps ! k) \<le> mlfq_level (ps ! i)"
    "\<And>i. i < NPROC \<Longrightarrow> mlfq_cand (ps ! i) \<Longrightarrow> mlfq_level (ps ! i) = mlfq_level (ps ! k) \<Longrightarrow>
       cyc (rr ! l) k \<le> cyc (rr ! l) i"
proof -
  from mlfq_select_split [OF ok rr _ sel [unfolded mlfq_pick_def]] obtain pre l' post where
    sp: "ps' = ps" "[0, 1, 2, 3] = pre @ l' # post"
      "\<forall>l \<in> set pre. \<forall>i < 64. \<not> mlfq_match (int l) (ps ! i)" "k < 64" "mlfq_match (int l') (ps ! k)"
      "rr' = rr[l' := (k + 1) mod 64]"
      "\<forall>i < 64. mlfq_match (int l') (ps ! i) \<longrightarrow> cyc (rr ! l') k \<le> cyc (rr ! l') i" by auto
  have pre: "set pre = {..<l'}" "l' < 4" using upt4_prefix [OF sp(2)] by auto
  have lev: "mlfq_level (ps ! k) = int l'" "l = l'" using sp(5) by (auto simp: mlfq_match_cand l_def)
  show "ps' = ps" "k < 64" "mlfq_cand (ps ! k)" "l < 4" "rr' = rr[l := (k + 1) mod 64]"
    using sp lev pre by (auto simp: mlfq_match_cand)
  fix i assume i: "i < 64" "mlfq_cand (ps ! i)"
  have "0 \<le> mlfq_level (ps ! i)" using ok i(1) by (auto simp: mlfq_table_ok_def)
  then show "mlfq_level (ps ! k) \<le> mlfq_level (ps ! i)"
    using sp(3) i lev(1) pre(1) by (auto simp: mlfq_match_cand) (metis lessThan_iff nat_less_iff not_less nat_0_le)
  show "mlfq_level (ps ! i) = mlfq_level (ps ! k) \<Longrightarrow> cyc (rr ! l) k \<le> cyc (rr ! l) i"
    using sp(7) i lev by (auto simp: mlfq_match_cand)
qed

lemma mlfq_select_none:
  assumes ok: "mlfq_table_ok ps" and rr: "mlfq_rr_ok rr"
    and sel: "mlfq_pick rr ps = (None, rr', ps')"
  shows "ps' = ps" "rr' = rr" "\<And>i. i < NPROC \<Longrightarrow> \<not> mlfq_cand (ps ! i)"
proof -
  have all: "\<forall>l \<in> set [0, 1, 2, 3]. l < (4 :: nat)" by simp
  note sp = mlfq_select_split [OF ok rr all sel [unfolded mlfq_pick_def], simplified option.case]
  show "ps' = ps" "rr' = rr" using sp by blast+
  fix i assume i: "i < (64 :: nat)"
  then have lev: "0 \<le> mlfq_level (ps ! i)" "mlfq_level (ps ! i) < 4"
    using ok by (auto simp: mlfq_table_ok_def)
  then have "nat (mlfq_level (ps ! i)) \<in> set [0, 1, 2, 3]" by auto
  with sp i have "\<not> mlfq_match (int (nat (mlfq_level (ps ! i)))) (ps ! i)" by blast
  with lev show "\<not> mlfq_cand (ps ! i)" by (simp add: mlfq_match_cand)
qed

lemma mlfq_select_rr_ok:
  assumes ok: "mlfq_table_ok ps" and rr: "mlfq_rr_ok rr"
  shows "mlfq_rr_ok (fst (snd (mlfq_pick rr ps)))"
proof -
  obtain r rr' ps' where sel: "mlfq_pick rr ps = (r, rr', ps')" by (metis prod_cases3)
  show ?thesis
  proof (cases r)
    case None
    with mlfq_select_none [OF ok rr] sel rr show ?thesis by simp
  next
    case (Some k)
    have "mlfq_rr_ok (rr[l := (k + 1) mod 64])" for l
      using rr ball_set_upd [of rr "\<lambda>k. k < 64" "(k + 1) mod 64" l] by (simp add: mlfq_rr_ok_def)
    with mlfq_select_pick(5) [OF ok rr] sel Some show ?thesis by simp
  qed
qed

text \<open>
  A process that stays ready at the lowest populated level comes nearer to the round-robin pointer
  with every choice that is not its own.
\<close>

lemma mlfq_distance_decreases:
  assumes ok: "mlfq_table_ok ps" and rr: "mlfq_rr_ok rr" and i: "i < NPROC" "mlfq_cand (ps ! i)"
    and low: "\<And>j. j < NPROC \<Longrightarrow> mlfq_cand (ps ! j) \<Longrightarrow> mlfq_level (ps ! i) \<le> mlfq_level (ps ! j)"
    and other: "fst (mlfq_pick rr ps) \<noteq> Some i"
  defines "l \<equiv> nat (mlfq_level (ps ! i))"
  shows "cyc (fst (snd (mlfq_pick rr ps)) ! l) i < cyc (rr ! l) i"
proof -
  obtain r rr' ps' where sel: "mlfq_pick rr ps = (r, rr', ps')" by (metis prod_cases3)
  from mlfq_select_none(3) [OF ok rr] sel i obtain k where k: "r = Some k" by (cases r) auto
  note p = mlfq_select_pick [OF ok rr sel [unfolded k]]
  have lev: "mlfq_level (ps ! k) = mlfq_level (ps ! i)"
    using p(2,3,6) i low by (meson antisym)
  have ne: "k \<noteq> i" using other sel k by simp
  have rl: "rr ! l < 64" "l < length rr" using p(4) lev rr by (auto simp: l_def mlfq_rr_ok_def)
  have "cyc (rr ! l) k \<le> cyc (rr ! l) i" using p(7) [OF i] lev by (simp add: l_def)
  moreover have "cyc (rr ! l) k \<noteq> cyc (rr ! l) i"
    using cyc_add [OF rl(1) i(1)] cyc_add [OF rl(1) p(2)] ne by auto
  ultimately have "cyc (rr ! l) k < cyc (rr ! l) i" by simp
  with cyc_next [OF rl(1) i(1) p(2)] p(5) lev sel rl(2) show ?thesis by (simp add: l_def)
qed

subsection \<open>Time slices\<close>

definition slice_of :: "proc \<Rightarrow> int" where
  "slice_of p = mlfq_time_slice ! nat (mlfq_level p)"

lemma slice_pos: "0 \<le> l \<Longrightarrow> l < 4 \<Longrightarrow> 1 \<le> mlfq_time_slice ! nat l"
proof -
  assume "0 \<le> l" "l < 4"
  then have "l \<in> {0, 1, 2, 3}" by auto
  then show ?thesis by (auto simp: mlfq_time_slice_def)
qed

lemma mlfq_tick_within:
  assumes "i < length ps" "p_state (ps ! i) = RUNNING" "0 \<le> mlfq_level (ps ! i)" "mlfq_level (ps ! i) < 4"
    and "mlfq_ticks (ps ! i) + 1 < slice_of (ps ! i)"
  shows "mlfq_tick (Some i) ps = (False, upd_at ps i (\<lambda>p. p\<lparr>mlfq_ticks := mlfq_ticks p + 1\<rparr>))"
  using assms by (simp add: mlfq_tick_def slice_of_def mlfq_clamp_id Let_def)

lemma mlfq_tick_expires:
  assumes "i < length ps" "p_state (ps ! i) = RUNNING" "0 \<le> mlfq_level (ps ! i)" "mlfq_level (ps ! i) < 4"
    and "mlfq_ticks (ps ! i) + 1 \<ge> slice_of (ps ! i)"
  shows "mlfq_tick (Some i) ps = (True, upd_at ps i (\<lambda>p. p\<lparr>mlfq_level :=
    (if mlfq_level p < 3 then mlfq_level p + 1 else mlfq_level p), mlfq_ticks := 0\<rparr>))"
  using assms by (simp add: mlfq_tick_def slice_of_def mlfq_clamp_id Let_def)

text \<open>\<open>n\<close> timer ticks in a row that do not ask for a yield.\<close>

definition ticks_n :: "nat \<Rightarrow> nat \<Rightarrow> ptable \<Rightarrow> ptable" where
  "ticks_n n i ps = ((\<lambda>ps. snd (mlfq_tick (Some i) ps)) ^^ n) ps"

lemma ticks_n_within:
  assumes "i < length ps" "p_state (ps ! i) = RUNNING" "0 \<le> mlfq_level (ps ! i)" "mlfq_level (ps ! i) < 4"
  shows "mlfq_ticks (ps ! i) + int n < slice_of (ps ! i) \<Longrightarrow>
    ticks_n n i ps = upd_at ps i (\<lambda>p. p\<lparr>mlfq_ticks := mlfq_ticks p + int n\<rparr>)"
proof (induction n)
  case (Suc n)
  let ?ps = "upd_at ps i (\<lambda>p. p\<lparr>mlfq_ticks := mlfq_ticks p + int n\<rparr>)"
  have "ticks_n (Suc n) i ps = snd (mlfq_tick (Some i) (ticks_n n i ps))" by (simp add: ticks_n_def)
  also have "\<dots> = snd (mlfq_tick (Some i) ?ps)" using Suc by simp
  also have "\<dots> = upd_at ?ps i (\<lambda>p. p\<lparr>mlfq_ticks := mlfq_ticks p + 1\<rparr>)"
    using mlfq_tick_within [of i ?ps] assms Suc.prems by (simp add: slice_of_def)
  finally show ?case using assms(1) by (simp add: algebra_simps)
qed (simp add: ticks_n_def)

subsection \<open>Properties\<close>

text \<open>
  Refreshing a real-time process returns, and moves its release by the whole number of periods
  that have passed: afterwards the clock is inside the current period, the deadline is that of the
  period, and one miss is counted for every period that ended with budget left.
\<close>

theorem rt_refresh_exact:
  assumes "rt_policy p = SCHED_RT_LLF" "rt_ok now p"
  defines "k \<equiv> (now - rt_release p) div rt_period p"
  shows "\<exists>q. rt_refresh_locked p now = Some q \<and>
    rt_release q \<le> now \<and> now < rt_release q + rt_period q \<and>
    rt_release q = rt_release p + k * rt_period p \<and>
    rt_misses q = rt_misses p + (if k = 0 then 0 else if rt_remaining p > 0 then k else k - 1) \<and>
    (if k = 0 then rt_remaining q = rt_remaining p \<and> rt_deadline_tick q = rt_deadline_tick p
     else rt_remaining q = rt_runtime p \<and> rt_deadline_tick q = rt_release q + rt_deadline p)"
proof -
  have "rt_refresh_locked p now = Some (rt_advance now p)"
    using rt_refresh_locked_eq assms by simp
  moreover have "k = rt_periods now p" by (simp add: k_def rt_periods_def)
  ultimately show ?thesis
    using rt_advance_window [OF assms(2)]
    by (intro exI [of _ "rt_advance now p"]) (auto simp: rt_advance_def Let_def)
qed

theorem rt_refresh_exact_witness:
  "\<exists>q. rt_refresh_locked (proc0\<lparr>rt_policy := 1, rt_period := 10, rt_runtime := 2, rt_deadline := 5,
      rt_release := 3, rt_remaining := 1\<rparr>) 38 = Some q \<and> rt_release q = 33 \<and> rt_misses q = 3"
  using rt_refresh_exact [of "proc0\<lparr>rt_policy := 1, rt_period := 10, rt_runtime := 2, rt_deadline := 5,
      rt_release := 3, rt_remaining := 1\<rparr>" 38]
  by (auto simp: rt_ok_def proc0_def)

text \<open>
  \<^verbatim>\<open>rt_pick\<close> returns, and chooses among the runnable real-time processes with budget
  left one of least laxity, the first in the table when several share it; it chooses none exactly
  when there is no such process.
\<close>

theorem rt_pick_least_laxity:
  assumes "rt_table_ok now ps"
  shows "\<exists>r. rt_pick now ps = Some (r, map (rt_fresh now) ps) \<and>
    (case r of
       None \<Rightarrow> \<forall>i < length ps. \<not> rt_cand now (rt_fresh now (ps ! i))
     | Some i \<Rightarrow> i < length ps \<and> rt_cand now (rt_fresh now (ps ! i)) \<and>
         (\<forall>j < length ps. rt_cand now (rt_fresh now (ps ! j)) \<longrightarrow>
            rt_laxity_locked (rt_fresh now (ps ! i)) now \<le> rt_laxity_locked (rt_fresh now (ps ! j)) now \<and>
            (j < i \<longrightarrow> rt_laxity_locked (rt_fresh now (ps ! i)) now < rt_laxity_locked (rt_fresh now (ps ! j)) now)))"
  by (rule rt_pick_spec [OF assms]) (auto simp: first_best_def split: option.splits)

definition rt_demo :: ptable where
  "rt_demo = [proc0\<lparr>p_state := RUNNABLE\<rparr>,
     proc0\<lparr>p_state := RUNNABLE, rt_policy := 1, rt_period := 10, rt_runtime := 2, rt_deadline := 8,
           rt_release := 0, rt_remaining := 2, rt_deadline_tick := 8\<rparr>,
     proc0\<lparr>p_state := RUNNABLE, rt_policy := 1, rt_period := 10, rt_runtime := 3, rt_deadline := 6,
           rt_release := 0, rt_remaining := 3, rt_deadline_tick := 6\<rparr>]"

theorem rt_pick_least_laxity_witness: "\<exists>ps'. rt_pick 1 rt_demo = Some (Some 2, ps')"
proof -
  have ok: "rt_table_ok 1 rt_demo" by (auto simp: rt_table_ok_def rt_demo_def rt_ok_def proc0_def)
  have fresh: "map (rt_fresh 1) rt_demo = rt_demo"
    by (simp add: rt_demo_def rt_fresh_def rt_advance_def rt_periods_def proc0_def)
  have at: "rt_fresh 1 (rt_demo ! i) = rt_demo ! i" if "i < 3" for i
    using that fresh by (metis length_map nth_map rt_demo_def length_Cons list.size(3) numeral_3_eq_3)
  have len: "length rt_demo = 3" by (simp add: rt_demo_def)
  have c: "rt_cand 1 (rt_demo ! 1)" "rt_cand 1 (rt_demo ! 2)" "\<not> rt_cand 1 (rt_demo ! 0)"
      "rt_laxity_locked (rt_demo ! 1) 1 = 5" "rt_laxity_locked (rt_demo ! 2) 1 = 2"
    by (simp_all add: rt_demo_def rt_cand_def rt_eligible_locked_def rt_laxity_locked_def proc0_def
        u32_def i32_def)
  from rt_pick_least_laxity [OF ok] obtain r where r: "rt_pick 1 rt_demo = Some (r, map (rt_fresh 1) rt_demo)"
    "r = None \<Longrightarrow> \<forall>i < 3. \<not> rt_cand 1 (rt_fresh 1 (rt_demo ! i))"
    "\<And>i. r = Some i \<Longrightarrow> i < 3 \<and> rt_cand 1 (rt_fresh 1 (rt_demo ! i)) \<and>
       (\<forall>j < 3. rt_cand 1 (rt_fresh 1 (rt_demo ! j)) \<longrightarrow>
          rt_laxity_locked (rt_fresh 1 (rt_demo ! i)) 1 \<le> rt_laxity_locked (rt_fresh 1 (rt_demo ! j)) 1)"
    unfolding len by (elim exE) (fastforce split: option.splits)
  have "2 < (3 :: nat)" by simp
  then have "r \<noteq> None" using r(2) c(2) at [of 2] by metis
  then obtain i where i: "r = Some i" by blast
  with r(3) at c(2) have b: "i < 3" "rt_cand 1 (rt_demo ! i)"
    "rt_laxity_locked (rt_demo ! i) 1 \<le> rt_laxity_locked (rt_demo ! 2) 1" by auto
  from b(1) have "i = 0 \<or> i = 1 \<or> i = 2" by auto
  with b c have "i = 2" by auto
  with r(1) i show ?thesis by blast
qed

text \<open>
  The feedback queue chooses a ready process of the least level that has one, and among those
  of that level the next one in round-robin order; it moves the round-robin pointer of the level
  past the choice and changes nothing else. It idles only when no normal process is ready.
\<close>

theorem mlfq_select_correct:
  assumes "mlfq_table_ok ps" "mlfq_rr_ok rr"
  shows "case mlfq_pick rr ps of
      (None, rr', ps') \<Rightarrow> rr' = rr \<and> ps' = ps \<and> (\<forall>i < NPROC. \<not> mlfq_cand (ps ! i))
    | (Some k, rr', ps') \<Rightarrow> ps' = ps \<and> k < NPROC \<and> mlfq_cand (ps ! k) \<and>
        rr' = rr[nat (mlfq_level (ps ! k)) := (k + 1) mod NPROC] \<and>
        (\<forall>i < NPROC. mlfq_cand (ps ! i) \<longrightarrow>
           mlfq_level (ps ! k) \<le> mlfq_level (ps ! i) \<and>
           (mlfq_level (ps ! i) = mlfq_level (ps ! k) \<longrightarrow>
              cyc (rr ! nat (mlfq_level (ps ! k))) k \<le> cyc (rr ! nat (mlfq_level (ps ! k))) i))"
proof -
  obtain r rr' ps' where sel: "mlfq_pick rr ps = (r, rr', ps')" by (metis prod_cases3)
  show ?thesis
  proof (cases r)
    case None
    with mlfq_select_none [OF assms] sel show ?thesis by simp
  next
    case (Some k)
    with mlfq_select_pick [OF assms] sel show ?thesis by simp
  qed
qed

definition mlfq_demo :: ptable where
  "mlfq_demo = proc0\<lparr>p_state := RUNNABLE, mlfq_level := 2\<rparr> #
     replicate 61 proc0 @ [proc0\<lparr>p_state := RUNNABLE, mlfq_level := 1\<rparr>, proc0\<lparr>p_state := RUNNABLE, mlfq_level := 1\<rparr>]"

lemma mlfq_demo_ok: "mlfq_table_ok mlfq_demo" "mlfq_rr_ok [0, 0, 0, 0]"
  by (auto simp: mlfq_table_ok_def mlfq_demo_def mlfq_rr_ok_def proc0_def)

theorem mlfq_select_correct_witness:
  "\<exists>k. fst (mlfq_pick [0, 0, 0, 0] mlfq_demo) = Some k \<and> mlfq_level (mlfq_demo ! k) \<le> 1"
proof -
  obtain r rr' ps' where sel: "mlfq_pick [0, 0, 0, 0] mlfq_demo = (r, rr', ps')"
    by (metis prod_cases3)
  have c: "mlfq_cand (mlfq_demo ! 62)" "mlfq_level (mlfq_demo ! 62) = 1"
    by (simp_all add: mlfq_demo_def mlfq_cand_def nth_append proc0_def)
  have n: "62 < (64 :: nat)" by simp
  note sel_ok = mlfq_select_correct [OF mlfq_demo_ok, unfolded sel]
  show ?thesis
  proof (cases r)
    case None
    with sel_ok have "\<forall>i < 64. \<not> mlfq_cand (mlfq_demo ! i)" by simp
    with c n show ?thesis by blast
  next
    case (Some k)
    with sel_ok have "\<forall>i < 64. mlfq_cand (mlfq_demo ! i) \<longrightarrow> mlfq_level (mlfq_demo ! k) \<le> mlfq_level (mlfq_demo ! i)"
      by simp
    with c n have "mlfq_level (mlfq_demo ! k) \<le> 1" by metis
    with Some sel show ?thesis by simp
  qed
qed


primrec demo_rr :: "nat \<Rightarrow> nat list" where
  "demo_rr 0 = [0, 0, 0, 0]"
| "demo_rr (Suc n) = fst (snd (mlfq_pick (demo_rr n) mlfq_demo))"


text \<open>
  A process that keeps running uses up exactly the slice of its level: the timer asks it to
  yield at the tick that completes the slice and at none before, and it then goes one level down
  (at the last level it stays) with a fresh slice.
\<close>

theorem mlfq_slice_exact:
  assumes "i < length ps" "p_state (ps ! i) = RUNNING" "0 \<le> mlfq_level (ps ! i)" "mlfq_level (ps ! i) < MLFQ_LEVELS"
    and n: "mlfq_ticks (ps ! i) + int n < slice_of (ps ! i)"
  shows "case mlfq_tick (Some i) (ticks_n n i ps) of (yields, ps') \<Rightarrow>
     (yields \<longleftrightarrow> mlfq_ticks (ps ! i) + int n + 1 = slice_of (ps ! i)) \<and>
     (if yields then mlfq_level (ps' ! i) = min (MLFQ_LEVELS - 1) (mlfq_level (ps ! i) + 1) \<and> mlfq_ticks (ps' ! i) = 0
      else mlfq_level (ps' ! i) = mlfq_level (ps ! i) \<and> mlfq_ticks (ps' ! i) = mlfq_ticks (ps ! i) + int n + 1)"
proof -
  let ?ps = "upd_at ps i (\<lambda>p. p\<lparr>mlfq_ticks := mlfq_ticks p + int n\<rparr>)"
  have t: "ticks_n n i ps = ?ps" by (rule ticks_n_within [OF assms])
  have s: "slice_of (?ps ! i) = slice_of (ps ! i)" using assms(1) by (simp add: slice_of_def)
  show ?thesis
  proof (cases "mlfq_ticks (ps ! i) + int n + 1 < slice_of (ps ! i)")
    case True
    then show ?thesis unfolding t using mlfq_tick_within [of i ?ps] assms s by simp
  next
    case False
    then show ?thesis unfolding t using mlfq_tick_expires [of i ?ps] assms s by simp
  qed
qed

theorem mlfq_slice_exact_witness:
  "fst (mlfq_tick (Some 0) (ticks_n 3 0 [proc0\<lparr>p_state := RUNNING, mlfq_level := 2\<rparr>]))"
  using mlfq_slice_exact [of 0 "[proc0\<lparr>p_state := RUNNING, mlfq_level := 2\<rparr>]" 3]
  by (auto simp: slice_of_def mlfq_time_slice_def proc0_def split: prod.splits)

text \<open>
  Without a real-time process ready, a round of the dynamic-priority scheduler ages every ready
  process and switches to the first of those whose aged priority is greatest; it idles only when no
  normal process is ready.
\<close>

theorem dynprio_round_correct:
  fixes now free cached m ps
  defines "qs \<equiv> map (rt_fresh now) (midsched_maintain CfgDYNPRIO now free cached m ps)"
  assumes "rt_table_ok now (midsched_maintain CfgDYNPRIO now free cached m ps)"
    and "\<forall>q \<in> set qs. \<not> rt_cand now q"
  shows "case scheduler_dynprio now free cached m ps of
      None \<Rightarrow> False
    | Some (None, ps') \<Rightarrow> (\<forall>q \<in> set qs. \<not> dyn_cand q) \<and> ps' = qs
    | Some (Some i, ps') \<Rightarrow> i < length qs \<and> dyn_cand (qs ! i) \<and>
        (\<forall>j < length qs. dyn_cand (qs ! j) \<longrightarrow> dyn_key (qs ! j) \<le> dyn_key (qs ! i)) \<and>
        ps' = (map (\<lambda>q. if dyn_cand q then dyn_update q else q) qs)[i := dyn_dispatch (dyn_update (qs ! i))]"
proof -
  let ?t = "map (\<lambda>q. if dyn_cand q then dyn_update q else q) qs"
  obtain r where r: "rt_pick now (midsched_maintain CfgDYNPRIO now free cached m ps) = Some (r, qs)"
    "first_best (rt_cand now) (rt_key now) qs r"
    unfolding qs_def by (rule rt_pick_spec [OF assms(2)])
  have "r = None" using r(2) assms(3) by (cases r) (auto simp: first_best_def)
  with r(1) have pick: "rt_pick now (midsched_maintain CfgDYNPRIO now free cached m ps) = Some (None, qs)"
    by simp
  have scan: "dyn_scan 0 None (-1) qs = (fst (dyn_scan 0 None (-1) qs), ?t)"
    using dyn_scan_table [of qs] by (metis prod.collapse)
  show ?thesis
  proof (cases "fst (dyn_scan 0 None (-1) qs)")
    case None
    then have no: "\<not> dyn_cand q" if "q \<in> set qs" for q
      using dyn.pick_None_iff [of qs] that by (metis in_set_conv_nth)
    then have "?t = qs" by (auto intro: map_idI)
    with None scan pick no show ?thesis by (simp add: scheduler_dynprio_def)
  next
    case (Some i)
    note i = dyn.pick_Some [OF Some]
    have "p_state (?t ! i) = RUNNABLE" using i by (simp add: dyn_cand_def dyn_update_def Let_def)
    with Some scan pick i show ?thesis by (simp add: scheduler_dynprio_def)
  qed
qed

theorem dynprio_round_correct_witness:
  "\<exists>i ps'. scheduler_dynprio 5 0 0 \<lparr>midsched_enabled = False, midsched_last_suspend = 0\<rparr>
     [proc0\<lparr>p_state := RUNNABLE, p_priority := 3\<rparr>, proc0\<lparr>p_state := RUNNABLE, p_priority := 7\<rparr>] = Some (Some i, ps')"
proof -
  define m where "m = \<lparr>midsched_enabled = False, midsched_last_suspend = 0\<rparr>"
  define ps where "ps = [proc0\<lparr>p_state := RUNNABLE, p_priority := 3\<rparr>, proc0\<lparr>p_state := RUNNABLE, p_priority := 7\<rparr>]"
  have keep: "midsched_maintain CfgDYNPRIO 5 0 0 m ps = ps" by (simp add: midsched_maintain_def m_def)
  have fr: "map (rt_fresh 5) ps = ps" by (simp add: ps_def rt_fresh_def proc0_def)
  have no: "\<forall>q \<in> set ps. \<not> rt_cand 5 q"
    by (simp add: ps_def rt_cand_def rt_eligible_locked_def proc0_def)
  have ok: "rt_table_ok 5 ps" by (simp add: ps_def rt_table_ok_def proc0_def)
  have cand: "ps ! 0 \<in> set ps" "dyn_cand (ps ! 0)" by (simp_all add: ps_def dyn_cand_def proc0_def)
  note round = dynprio_round_correct [of 5 0 0 m ps, unfolded keep fr, OF ok no]
  have "\<exists>i ps'. scheduler_dynprio 5 0 0 m ps = Some (Some i, ps')"
  proof (cases "scheduler_dynprio 5 0 0 m ps")
    case (Some x)
    with round cand show ?thesis by (cases x; cases "fst x") auto
  qed (use round in simp)
  then show ?thesis by (simp only: m_def ps_def)
qed

text \<open>
  C37. \<^verbatim>\<open>midsched_suspend_one\<close> can lose a wakeup: when the victim was asleep, is woken
  while its pages are being written out, and the swap-out then fails, it is put back to sleep on
  the channel whose wakeup has already been given.
\<close>

theorem midsched_suspend_loses_wakeup:
  assumes "midsched_suspend_begin c noff cur ps = (Some (v, SLEEPING), ps1)" "v < length ps"
    and "p_chan (ps ! v) = Some ch" and "swapped \<le> 0"
  shows "waiting_on ch (snd (snd (midsched_suspend_end now swapped (v, SLEEPING) (m, wakeup c ch ps1))) ! v)"
proof -
  have ps1: "ps1 = upd_at ps v (\<lambda>p. mlfq_reset c (p\<lparr>p_state := SUSPENDED_SLEEP, midsched_suspending := True\<rparr>))"
    using assms(1) by (auto simp: midsched_suspend_begin_def Let_def split: if_splits option.splits)
  have woken: "p_state (wakeup c ch ps1 ! v) = SUSPENDED" "p_chan (wakeup c ch ps1 ! v) = Some ch"
    using assms(2,3) by (simp_all add: ps1 nth_wakeup waiting_on_def wake_proc_state)
  have "v < length (wakeup c ch ps1)" using assms(2) by (simp add: ps1)
  with woken assms(4) show ?thesis by (simp add: midsched_suspend_end_def waiting_on_def)
qed

theorem midsched_suspend_loses_wakeup_witness:
  "\<exists>ps1. midsched_suspend_begin CfgMLFQ 0 None
      [proc0\<lparr>p_state := SLEEPING, p_chan := Some (ChSem 0), p_pid := 5, p_sz := 4096\<rparr>] = (Some (0, SLEEPING), ps1) \<and>
    waiting_on (ChSem 0) (snd (snd (midsched_suspend_end 7 0 (0, SLEEPING)
      (\<lparr>midsched_enabled = True, midsched_last_suspend = 0\<rparr>, wakeup CfgMLFQ (ChSem 0) ps1))) ! 0)"
proof -
  let ?ps = "[proc0\<lparr>p_state := SLEEPING, p_chan := Some (ChSem 0), p_pid := 5, p_sz := 4096\<rparr>]"
  have "fst (midsched_suspend_begin CfgMLFQ 0 None ?ps) = Some (0, SLEEPING)"
    by (simp add: midsched_suspend_begin_def midsched_can_suspend_def proc0_def)
  then obtain ps1 where b: "midsched_suspend_begin CfgMLFQ 0 None ?ps = (Some (0, SLEEPING), ps1)"
    by (metis prod.collapse)
  from midsched_suspend_loses_wakeup [OF b, of "ChSem 0" 0] b show ?thesis by auto
qed

end
