(* ===== verification/Sync.thy ===== *)
theory Sync
  imports Sched
begin

section \<open>Synchronisation state, priority inheritance, deadlock detection\<close>

text \<open>
  The tables of \<^verbatim>\<open>kernel/include/spinlock.h\<close> and \<^verbatim>\<open>kernel/lock\<close> (semaphores,
  semaphore sets, monitors, sleep locks) with the process table, and the operations of
  \<^verbatim>\<open>kernel/proc/proc.c\<close> that read several of them at once: priority donation and its
  recalculation, the owner of a sleep channel, and the deadlock detection that the blocking
  system calls run before they sleep.
\<close>

subsection \<open>Data\<close>

record sem =
  resource_count :: int
  sem_waiters :: int
  sem_owner :: int
  sem_allocated :: bool

record semset =
  set_allocated :: bool
  set_count :: int
  set_sems :: "sem list"

record condvar =
  cond_allocated :: bool
  cond_waiters :: int

record monitor =
  mon_allocated :: bool
  mon_locked :: bool
  mon_owner :: int
  mon_waiters :: int
  pi_waiter_max :: int
  mon_conds :: "condvar list"

record sleeplock =
  sl_locked :: bool
  sl_pid :: int
  sl_pi_waiter_max :: int

abbreviation (input) SEM_MAX_NUM :: nat where "SEM_MAX_NUM \<equiv> 128"
abbreviation (input) SEMSET_MAX_NUM :: nat where "SEMSET_MAX_NUM \<equiv> 16"
abbreviation (input) SEMSET_MAX_SIZE :: nat where "SEMSET_MAX_SIZE \<equiv> 16"
abbreviation (input) MONITOR_MAX_NUM :: nat where "MONITOR_MAX_NUM \<equiv> 16"
abbreviation (input) MONITOR_COND_MAX :: nat where "MONITOR_COND_MAX \<equiv> 16"

record ksync =
  procs :: ptable
  sems :: "sem list"
  semsets :: "semset list"
  monitors :: "monitor list"
  sleeplocks :: "sleeplock list"
  sem_used_count :: int
  semset_used_count :: int

definition sem0 :: sem where
  "sem0 = \<lparr>resource_count = 0, sem_waiters = 0, sem_owner = 0, sem_allocated = False\<rparr>"

definition cond0 :: condvar where
  "cond0 = \<lparr>cond_allocated = False, cond_waiters = 0\<rparr>"

definition mon0 :: monitor where
  "mon0 = \<lparr>mon_allocated = False, mon_locked = False, mon_owner = 0, mon_waiters = 0, pi_waiter_max = 0,
     mon_conds = replicate MONITOR_COND_MAX cond0\<rparr>"

definition initsem :: "ksync \<Rightarrow> ksync" where
  "initsem k = k\<lparr>sems := replicate SEM_MAX_NUM sem0\<rparr>"

definition initsemset :: "ksync \<Rightarrow> ksync" where
  "initsemset k = k\<lparr>semsets := replicate SEMSET_MAX_NUM
     \<lparr>set_allocated = False, set_count = 0, set_sems = replicate SEMSET_MAX_SIZE sem0\<rparr>\<rparr>"

definition initmonitor :: "ksync \<Rightarrow> ksync" where
  "initmonitor k = k\<lparr>monitors := replicate MONITOR_MAX_NUM mon0\<rparr>"

text \<open>
  A blocking handler is cut where it sleeps: each segment ends by returning to user space with a
  result or asleep.
\<close>

datatype outcome = Done int | Blocked

text \<open>Updating one entry of a table of the state.\<close>

abbreviation upd_proc :: "nat \<Rightarrow> (proc \<Rightarrow> proc) \<Rightarrow> ksync \<Rightarrow> ksync" where
  "upd_proc i f k \<equiv> k\<lparr>procs := upd_at (procs k) i f\<rparr>"

abbreviation upd_sem :: "nat \<Rightarrow> (sem \<Rightarrow> sem) \<Rightarrow> ksync \<Rightarrow> ksync" where
  "upd_sem i f k \<equiv> k\<lparr>sems := upd_at (sems k) i f\<rparr>"

abbreviation upd_mon :: "nat \<Rightarrow> (monitor \<Rightarrow> monitor) \<Rightarrow> ksync \<Rightarrow> ksync" where
  "upd_mon i f k \<equiv> k\<lparr>monitors := upd_at (monitors k) i f\<rparr>"

subsection \<open>Priority inheritance\<close>

definition clamp20 :: "int \<Rightarrow> int" where
  "clamp20 x = (let x = (if x < 0 then 0 else x) in if x > 20 then 20 else x)"

definition pi_donate :: "sched_cfg \<Rightarrow> int \<Rightarrow> int \<Rightarrow> ptable \<Rightarrow> ptable" where
  "pi_donate c owner_pid donated ps =
     (if owner_pid \<le> 0 then ps
      else let donated = clamp20 donated in
           case find_idx (\<lambda>p. p_pid p = owner_pid \<and> p_state p \<noteq> UNUSED) ps of
             None \<Rightarrow> ps
           | Some i \<Rightarrow> upd_at ps i (\<lambda>p.
               let p = (if donated > p_pi_boost p then p\<lparr>p_pi_boost := donated\<rparr> else p)
               in if donated > p_priority p then mlfq_reset c p else p))"

definition monitor_max_waiter_for_pid :: "ksync \<Rightarrow> int \<Rightarrow> int" where
  "monitor_max_waiter_for_pid k pid =
     fold (\<lambda>m mx. if mon_allocated m \<and> mon_locked m \<and> mon_owner m = pid \<and> pi_waiter_max m > mx
                  then pi_waiter_max m else mx) (monitors k) 0"

definition sleeplock_max_waiter_for_pid :: "ksync \<Rightarrow> int \<Rightarrow> int" where
  "sleeplock_max_waiter_for_pid k pid =
     fold (\<lambda>l mx. if sl_locked l \<and> sl_pid l = pid \<and> sl_pi_waiter_max l > mx
                  then sl_pi_waiter_max l else mx) (sleeplocks k) 0"

definition pi_recalc :: "int \<Rightarrow> ksync \<Rightarrow> ksync" where
  "pi_recalc owner_pid k =
     (if owner_pid \<le> 0 then k
      else
        (let mx = monitor_max_waiter_for_pid k owner_pid;
             sl_max = sleeplock_max_waiter_for_pid k owner_pid;
             mx = (if sl_max > mx then sl_max else mx)
         in case find_idx (\<lambda>p. p_pid p = owner_pid \<and> p_state p \<noteq> UNUSED) (procs k) of
              None \<Rightarrow> k
            | Some i \<Rightarrow> upd_proc i (\<lambda>p. p\<lparr>p_pi_boost := mx\<rparr>) k))"

subsection \<open>Deadlock detection\<close>

definition sleeplock_owner :: "ksync \<Rightarrow> chan \<Rightarrow> int" where
  "sleeplock_owner k ch =
     (case ch of ChSleeplock i \<Rightarrow> if i < length (sleeplocks k) then sl_pid (sleeplocks k ! i) else 0
      | _ \<Rightarrow> 0)"

definition owner_of_chan :: "ksync \<Rightarrow> chan \<Rightarrow> int" where
  "owner_of_chan k ch =
     (case ch of
        ChSem i \<Rightarrow> if i < length (sems k) then sem_owner (sems k ! i) else 0
      | ChSemset i j \<Rightarrow>
          if i < length (semsets k) \<and> set_allocated (semsets k ! i) \<and> int j < set_count (semsets k ! i)
          then sem_owner (set_sems (semsets k ! i) ! j) else 0
      | ChMon i \<Rightarrow> if i < length (monitors k) then mon_owner (monitors k ! i) else 0
      | _ \<Rightarrow> sleeplock_owner k ch)"

definition live_pid :: "ksync \<Rightarrow> int \<Rightarrow> nat option" where
  "live_pid k pid = find_idx (\<lambda>q. p_pid q = pid \<and> p_state q \<noteq> UNUSED) (procs k)"

text \<open>The loop over \<open>depth\<close>; \<open>n\<close> counts the turns that are left.\<close>

fun deadlock_loop :: "ksync \<Rightarrow> int \<Rightarrow> nat \<Rightarrow> int \<Rightarrow> bool" where
  "deadlock_loop k start 0 pid = False"
| "deadlock_loop k start (Suc n) pid =
     (if pid \<le> 0 then False
      else if pid = start then True
      else case live_pid k pid of
             None \<Rightarrow> False
           | Some i \<Rightarrow>
               if p_state (procs k ! i) \<noteq> SLEEPING then False
               else case p_chan (procs k ! i) of
                      None \<Rightarrow> False
                    | Some ch \<Rightarrow> deadlock_loop k start n (owner_of_chan k ch))"

definition deadlock_detect :: "ksync \<Rightarrow> nat \<Rightarrow> chan \<Rightarrow> bool" where
  "deadlock_detect k cur ch = deadlock_loop k (p_pid (procs k ! cur)) NPROC (owner_of_chan k ch)"

subsection \<open>Deadlock detection finds exactly the cycles\<close>

text \<open>\<open>waits_for k\<close> relates a pid to the owner of what its process sleeps on.\<close>

definition waits_for :: "ksync \<Rightarrow> (int \<times> int) set" where
  "waits_for k = {(a, b). a > 0 \<and> (\<exists>i ch. live_pid k a = Some i \<and> p_state (procs k ! i) = SLEEPING \<and>
     p_chan (procs k ! i) = Some ch \<and> b = owner_of_chan k ch)}"

lemma waits_for_fun: "(a, b) \<in> waits_for k \<Longrightarrow> (a, c) \<in> waits_for k \<Longrightarrow> b = c"
  by (auto simp: waits_for_def)

lemma deadlock_loop_reach:
  assumes "0 < start"
  shows "deadlock_loop k start n pid \<longleftrightarrow> (\<exists>d < n. (pid, start) \<in> waits_for k ^^ d)"
proof (induction n arbitrary: pid)
  case (Suc n)
  have split: "(\<exists>d < Suc n. (pid, start) \<in> waits_for k ^^ d) \<longleftrightarrow>
      pid = start \<or> (\<exists>b. (pid, b) \<in> waits_for k \<and> (\<exists>d < n. (b, start) \<in> waits_for k ^^ d))"
    by (auto simp: less_Suc_eq_0_disj relpow_commute intro: relcompI dest!: relpow_Suc_D2)
      (metis relpow_Suc_I2)
  show ?case
  proof (cases "pid = start")
    case True
    with assms show ?thesis unfolding split by simp
  next
    case False
    show ?thesis
    proof (cases "\<exists>b. (pid, b) \<in> waits_for k")
      case True
      then obtain b where b: "(pid, b) \<in> waits_for k" by blast
      then have "deadlock_loop k start (Suc n) pid = deadlock_loop k start n b"
        using False by (auto simp: waits_for_def)
      with Suc.IH [of b] False b waits_for_fun show ?thesis unfolding split by metis
    next
      case no: False
      then have "\<not> deadlock_loop k start (Suc n) pid"
        using False by (auto simp: waits_for_def split: option.splits if_splits)
      with no False show ?thesis unfolding split by blast
    qed
  qed
qed simp

text \<open>A path can be shortened until it visits each node once; then the table bounds its length.\<close>

lemma relpow_between:
  assumes "\<forall>i < n. (f i, f (Suc i)) \<in> R" "i \<le> j" "j \<le> n"
  shows "(f i, f j) \<in> R ^^ (j - i)"
  unfolding relpow_fun_conv using assms by (intro exI [of _ "\<lambda>k. f (i + k)"]) auto

lemma relpow_shortest:
  assumes "(a, b) \<in> R\<^sup>*"
  obtains f n where "f 0 = a" "f n = b" "\<forall>i < n. (f i, f (Suc i)) \<in> R" "inj_on f {..n}"
proof -
  define n where "n = (LEAST n. (a, b) \<in> R ^^ n)"
  from assms have "\<exists>n. (a, b) \<in> R ^^ n" by (rule rtrancl_imp_relpow [THEN exE]) blast
  then have n: "(a, b) \<in> R ^^ n" and least: "\<And>m. (a, b) \<in> R ^^ m \<Longrightarrow> n \<le> m"
    unfolding n_def by (auto intro: LeastI_ex Least_le)
  from n obtain f where f: "f 0 = a" "f n = b" "\<forall>i < n. (f i, f (Suc i)) \<in> R"
    unfolding relpow_fun_conv by blast
  have "f i \<noteq> f j" if "i < j" "j \<le> n" for i j
  proof
    assume eq: "f i = f j"
    have "(f 0, f i) \<in> R ^^ i" "(f j, f n) \<in> R ^^ (n - j)"
      using relpow_between [of n f R 0 i] relpow_between [of n f R j n] f(3) that by auto
    then have "(a, b) \<in> R ^^ (i + (n - j))" using eq f(1,2) by (auto simp: relpow_add)
    from least [OF this] that show False by simp
  qed
  then have "inj_on f {..n}" by (auto simp: inj_on_def) (metis linorder_neqE_nat)
  with f show thesis by (rule that)
qed

lemma waits_for_live: "(a, b) \<in> waits_for k \<Longrightarrow> a \<in> p_pid ` set (procs k)"
  by (auto simp: waits_for_def live_pid_def dest!: find_idx_SomeD)

lemma waits_for_short:
  assumes "(a, b) \<in> (waits_for k)\<^sup>*" "b \<in> p_pid ` set (procs k)"
  shows "\<exists>d < length (procs k). (a, b) \<in> waits_for k ^^ d"
proof -
  obtain f n where
    f: "f 0 = a" "f n = b" "\<forall>i < n. (f i, f (Suc i)) \<in> waits_for k" "inj_on f {..n}"
    by (rule relpow_shortest [OF assms(1)])
  have "f i \<in> p_pid ` set (procs k)" if "i \<le> n" for i
  proof (cases "i < n")
    case True
    with f(3) have "(f i, f (Suc i)) \<in> waits_for k" by blast
    then show ?thesis by (rule waits_for_live)
  next
    case False
    with that have "i = n" by simp
    with f(2) assms(2) show ?thesis by simp
  qed
  then have "f ` {..n} \<subseteq> p_pid ` set (procs k)" by blast
  then have "card (f ` {..n}) \<le> card (p_pid ` set (procs k))" by (simp add: card_mono)
  also have "\<dots> \<le> length (procs k)" 
    using card_image_le [of "set (procs k)" p_pid] card_length [of "procs k"] by simp
  finally have "n < length (procs k)" unfolding card_image [OF f(4)] by simp
  moreover have "(a, b) \<in> waits_for k ^^ n" using relpow_between [of n f "waits_for k" 0 n] f(1,2,3) by simp
  ultimately show ?thesis by blast
qed

lemma deadlock_detect_iff:
  assumes "cur < length (procs k)" "length (procs k) = NPROC" "0 < p_pid (procs k ! cur)"
  shows "deadlock_detect k cur ch \<longleftrightarrow> (owner_of_chan k ch, p_pid (procs k ! cur)) \<in> (waits_for k)\<^sup>*"
proof -
  have "p_pid (procs k ! cur) \<in> p_pid ` set (procs k)" using assms(1) by simp
  with waits_for_short [of "owner_of_chan k ch" "p_pid (procs k ! cur)" k] assms(2)
  show ?thesis
    unfolding deadlock_detect_def deadlock_loop_reach [OF assms(3)]
    by (auto intro: relpow_imp_rtrancl)
qed

subsection \<open>Lemmas on donation\<close>

lemma length_pi_donate [simp]: "length (pi_donate c pid d ps) = length ps"
  by (simp add: pi_donate_def Let_def split: option.splits)

lemma pi_donate_keeps:
  "p_state (pi_donate c pid d ps ! i) = p_state (ps ! i)" "p_chan (pi_donate c pid d ps ! i) = p_chan (ps ! i)"
  "p_pid (pi_donate c pid d ps ! i) = p_pid (ps ! i)" "p_killed (pi_donate c pid d ps ! i) = p_killed (ps ! i)"
  by (auto simp: pi_donate_def Let_def nth_list_update split: option.splits
      intro!: field_upd_at [where f = p_state] field_upd_at [where f = p_chan]
        field_upd_at [where f = p_pid] field_upd_at [where f = p_killed])

lemma waiting_on_cong:
  "p_state p = p_state q \<Longrightarrow> p_chan p = p_chan q \<Longrightarrow> waiting_on ch p = waiting_on ch q"
  by (simp add: waiting_on_def)

lemma clamp20_range: "0 \<le> clamp20 x" "clamp20 x \<le> 20"
  by (simp_all add: clamp20_def Let_def)

lemma pi_donate_boost:
  assumes "find_idx (\<lambda>p. p_pid p = owner \<and> p_state p \<noteq> UNUSED) ps = Some i" "0 < owner"
  shows "p_pi_boost (pi_donate c owner d ps ! i) = max (p_pi_boost (ps ! i)) (clamp20 d)"
  using assms find_idx_SomeD [OF assms(1)] by (auto simp: pi_donate_def Let_def max_def)

lemma Max_insert_max: "finite S \<Longrightarrow> Max (insert (max a b) S) = Max (insert a (insert b (S :: int set)))"
  by (cases "S = {}") (simp_all add: max.assoc)

lemma fold_max_eq:
  fixes f :: "'a \<Rightarrow> int"
  shows "fold (\<lambda>x m. if P x \<and> f x > m then f x else m) xs a = Max (insert a (f ` {x \<in> set xs. P x}))"
proof (induction xs arbitrary: a)
  case (Cons x xs)
  let ?S = "f ` {y \<in> set xs. P y}"
  have fin: "finite ?S" by simp
  show ?case
  proof (cases "P x")
    case True
    have "{y \<in> set (x # xs). P y} = insert x {y \<in> set xs. P y}" using True by auto
    then have S: "f ` {y \<in> set (x # xs). P y} = insert (f x) ?S" by simp
    have "(if P x \<and> f x > a then f x else a) = max a (f x)" using True by (simp add: max_def)
    then show ?thesis unfolding S by (simp only: fold_Cons comp_apply Cons.IH Max_insert_max [OF fin])
  next
    case False
    then have "{y \<in> set (x # xs). P y} = {y \<in> set xs. P y}" by auto
    with False show ?thesis by (simp add: Cons.IH)
  qed
qed simp

subsection \<open>Who waits\<close>

definition waiters_on :: "chan \<Rightarrow> ptable \<Rightarrow> nat set" where
  "waiters_on ch ps = {j. j < length ps \<and> waiting_on ch (ps ! j)}"

lemma finite_waiters [simp]: "finite (waiters_on ch ps)"
  by (simp add: waiters_on_def)

lemma waiting_on_unique: "waiting_on ch p \<Longrightarrow> waiting_on ch' p \<Longrightarrow> ch' = ch"
  by (simp add: waiting_on_def)

lemma waiting_wakeup:
  "j < length ps \<Longrightarrow> waiting_on ch' (wakeup c ch ps ! j) \<longleftrightarrow> ch' \<noteq> ch \<and> waiting_on ch' (ps ! j)"
  by (cases "waiting_on ch (ps ! j)") (auto simp: nth_wakeup dest: waiting_on_unique)

lemma waiting_wakeupOne:
  "j < length ps \<Longrightarrow> waiting_on ch' (wakeupOneProc c ch ps ! j) \<longleftrightarrow>
     waiting_on ch' (ps ! j) \<and> \<not> (ch' = ch \<and> find_idx (waiting_on ch) ps = Some j)"
proof (cases "find_idx (waiting_on ch) ps = Some j")
  case True
  assume "j < length ps"
  with find_idx_SomeD [OF True] True show ?thesis
    by (auto simp: nth_wakeupOneProc dest: waiting_on_unique)
qed (auto simp: nth_wakeupOneProc)

lemma waiters_wakeup: "waiters_on ch' (wakeup c ch ps) = (if ch' = ch then {} else waiters_on ch' ps)"
  by (auto simp: waiters_on_def waiting_wakeup)

lemma waiters_wakeupOne:
  "waiters_on ch' (wakeupOneProc c ch ps) =
     (if ch' = ch then waiters_on ch ps - {j. find_idx (waiting_on ch) ps = Some j} else waiters_on ch' ps)"
  by (auto simp: waiters_on_def waiting_wakeupOne)

lemma card_waiters_wakeupOne:
  "card (waiters_on ch (wakeupOneProc c ch ps)) = card (waiters_on ch ps) - 1"
proof (cases "find_idx (waiting_on ch) ps")
  case None
  then have "waiters_on ch ps = {}" by (auto simp: waiters_on_def find_idx_None_iff)
  then show ?thesis by (simp add: waiters_wakeupOne)
next
  case (Some j)
  then have "j \<in> waiters_on ch ps" using find_idx_SomeD [OF Some] by (simp add: waiters_on_def)
  with Some show ?thesis by (simp add: waiters_wakeupOne)
qed

lemma waiting_running: "p_state p = RUNNING \<Longrightarrow> \<not> waiting_on ch p"
  by (simp add: waiting_on_def)

lemma waiting_sleep_begin: "waiting_on ch' (sleep_begin ch p) \<longleftrightarrow> ch' = ch"
  by (auto simp: waiting_on_def sleep_begin_def)

lemma waiting_sleep_end: "\<not> waiting_on ch (sleep_end p)"
  by (simp add: waiting_on_def sleep_end_def)

lemma waiters_upd:
  assumes "cur < length ps" "p_state (ps ! cur) = RUNNING"
  shows "waiters_on ch (ps[cur := q]) = waiters_on ch ps \<union> (if waiting_on ch q then {cur} else {})"
  using assms waiting_running [OF assms(2)] by (auto simp: waiters_on_def nth_list_update split: if_splits)

lemmas waiters_simps = waiters_upd waiting_sleep_begin waiting_sleep_end waiters_wakeup waiters_wakeupOne

subsection \<open>Properties\<close>


text \<open>Process 1 owns semaphore 0 and asks for 1; process 2 owns 1 and sleeps on 0.\<close>

definition dl_demo :: ksync where
  "dl_demo = \<lparr>procs = proc0\<lparr>p_state := RUNNING, p_pid := 1\<rparr> #
      proc0\<lparr>p_state := SLEEPING, p_chan := Some (ChSem 0), p_pid := 2\<rparr> # replicate 62 proc0,
     sems = [sem0\<lparr>sem_owner := 1\<rparr>, sem0\<lparr>sem_owner := 2\<rparr>], semsets = [], monitors = [], sleeplocks = [],
     sem_used_count = 2, semset_used_count = 0\<rparr>"


end
