(* ===== verification/Sem.thy ===== *)
theory Sem
  imports Sync "HOL-Library.Multiset"
begin

section \<open>Semaphores and semaphore sets\<close>

text \<open>
  The system calls \<^verbatim>\<open>sys_sem_*\<close> and \<^verbatim>\<open>sys_semset_*\<close> of \<^verbatim>\<open>kernel/sysproc.c\<close>.
  A handler that sleeps is two definitions, one up to the sleep (suffix \<open>_begin\<close>) and one for
  what follows it (suffix \<open>_end\<close>); the retry loops of the AND operations are the definitions
  \<open>_try\<close> (one turn of the loop) and \<open>_woken\<close> (what follows the sleep, before the next
  turn). \<open>cur\<close> is the index of the calling process; the user array an operation copies in is
  the parameter \<open>copyin_ints\<close>.
\<close>

subsection \<open>Creating and freeing\<close>

definition sys_sem_create :: "int \<Rightarrow> ksync \<Rightarrow> int \<times> ksync" where
  "sys_sem_create n_sem k =
     (if n_sem < 0 then (-1, k)
      else case find_idx (\<lambda>s. \<not> sem_allocated s) (sems k) of
             None \<Rightarrow> (-1, k)
           | Some i \<Rightarrow>
               (int i, (upd_sem i (\<lambda>s. s\<lparr>sem_allocated := True, resource_count := n_sem, sem_owner := 0\<rparr>) k)
                  \<lparr>sem_used_count := sem_used_count k + 1\<rparr>))"

definition sys_sem_free :: "int \<Rightarrow> ksync \<Rightarrow> int \<times> ksync" where
  "sys_sem_free sid k =
     (if sid < 0 \<or> sid \<ge> int SEM_MAX_NUM then (-1, k)
      else let i = nat sid; s = sems k ! i in
           if \<not> sem_allocated s then (-1, k)
           else if resource_count s < 0 \<or> sem_waiters s > 0 then (-1, k)
           else (0, (upd_sem i (\<lambda>s. s\<lparr>sem_allocated := False, resource_count := 0, sem_owner := 0\<rparr>) k)
                      \<lparr>sem_used_count := sem_used_count k - 1\<rparr>))"

subsection \<open>P and V\<close>

text \<open>The owner is recorded when the last unit is taken.\<close>

definition sem_note_owner :: "int \<Rightarrow> sem \<Rightarrow> sem" where
  "sem_note_owner pid s =
     (if resource_count s = 0 then s\<lparr>sem_owner := pid\<rparr>
      else if resource_count s > 0 then s\<lparr>sem_owner := 0\<rparr>
      else s)"

definition sys_sem_p_begin :: "nat \<Rightarrow> int \<Rightarrow> ksync \<Rightarrow> outcome \<times> ksync" where
  "sys_sem_p_begin cur sid k =
     (if sid < 0 \<or> sid \<ge> int SEM_MAX_NUM then (Done (-1), k)
      else
        (let i = nat sid in
         if \<not> sem_allocated (sems k ! i) then (Done (-1), k)
         else
           (let pid = p_pid (procs k ! cur);
                k = upd_sem i (\<lambda>s. s\<lparr>resource_count := resource_count s - 1\<rparr>) k
            in if resource_count (sems k ! i) < 0
               then if deadlock_detect k cur (ChSem i)
                    then (Done (-1), upd_sem i (\<lambda>s. s\<lparr>resource_count := resource_count s + 1\<rparr>) k)
                    else (Blocked, upd_proc cur (sleep_begin (ChSem i))
                                     (upd_sem i (\<lambda>s. s\<lparr>sem_waiters := sem_waiters s + 1\<rparr>) k))
               else (Done 0, upd_sem i (sem_note_owner pid) k))))"

definition sys_sem_p_end :: "nat \<Rightarrow> nat \<Rightarrow> ksync \<Rightarrow> outcome \<times> ksync" where
  "sys_sem_p_end cur i k =
     (let pid = p_pid (procs k ! cur);
          k = upd_proc cur sleep_end k;
          k = upd_sem i (\<lambda>s. s\<lparr>sem_waiters := sem_waiters s - 1\<rparr>) k
      in (Done 0, upd_sem i (sem_note_owner pid) k))"

definition sys_sem_v :: "sched_cfg \<Rightarrow> int \<Rightarrow> ksync \<Rightarrow> int \<times> ksync" where
  "sys_sem_v c sid k =
     (if sid < 0 \<or> sid \<ge> int SEM_MAX_NUM then (-1, k)
      else
        (let i = nat sid in
         if \<not> sem_allocated (sems k ! i) then (-1, k)
         else
           (let k = upd_sem i (\<lambda>s. s\<lparr>resource_count := resource_count s + 1, sem_owner := 0\<rparr>) k
            in (0, if resource_count (sems k ! i) \<le> 0 \<or> sem_waiters (sems k ! i) > 0
                   then k\<lparr>procs := wakeupOneProc c (ChSem i) (procs k)\<rparr> else k))))"

subsection \<open>AND operation\<close>

text \<open>The insertion sort of the ids: each key moves left past the greater ones.\<close>

definition ins_key :: "int list \<Rightarrow> int \<Rightarrow> int list" where
  "ins_key xs key =
     rev (dropWhile (\<lambda>x. x > key) (rev xs)) @ [key] @ rev (takeWhile (\<lambda>x. x > key) (rev xs))"

definition ids_sort :: "int list \<Rightarrow> int list" where
  "ids_sort ids = foldl ins_key [] ids"

text \<open>The check that follows: every id in range and different from its left neighbour.\<close>

definition ids_valid :: "int \<Rightarrow> int list \<Rightarrow> bool" where
  "ids_valid bound ids \<longleftrightarrow>
     list_all (\<lambda>i. 0 \<le> ids ! i \<and> ids ! i < bound \<and> \<not> (i > 0 \<and> ids ! i = ids ! (i - 1))) [0..<length ids]"

text \<open>The scan under all the locks: an entry that is not allocated stops it.\<close>

fun multi_scan :: "sem list \<Rightarrow> nat list \<Rightarrow> nat option \<Rightarrow> nat option option" where
  "multi_scan ss [] wait = Some wait"
| "multi_scan ss (i # is) wait =
     (if \<not> sem_allocated (ss ! i) then None
      else multi_scan ss is (if resource_count (ss ! i) \<le> 0 \<and> wait = None then Some i else wait))"

definition multi_take :: "int \<Rightarrow> nat list \<Rightarrow> sem list \<Rightarrow> sem list" where
  "multi_take pid is ss =
     fold (\<lambda>i ss. upd_at ss i (\<lambda>s. sem_note_owner pid (s\<lparr>resource_count := resource_count s - 1\<rparr>))) is ss"

definition multi_waiters :: "int \<Rightarrow> nat list \<Rightarrow> sem list \<Rightarrow> sem list" where
  "multi_waiters d is ss = fold (\<lambda>i ss. upd_at ss i (\<lambda>s. s\<lparr>sem_waiters := sem_waiters s + d\<rparr>)) is ss"

definition sys_sem_p_multi_args :: "(nat \<Rightarrow> int list option) \<Rightarrow> int \<Rightarrow> nat list option" where
  "sys_sem_p_multi_args copyin_ints n =
     (if n \<le> 0 \<or> n > int SEM_MAX_NUM then None
      else case copyin_ints (nat n) of
             None \<Rightarrow> None
           | Some ids \<Rightarrow>
               let ids = ids_sort ids in
               if ids_valid (int SEM_MAX_NUM) ids then Some (map nat ids) else None)"

definition sys_sem_p_multi_try :: "nat \<Rightarrow> nat list \<Rightarrow> ksync \<Rightarrow> outcome \<times> ksync" where
  "sys_sem_p_multi_try cur ids k =
     (case multi_scan (sems k) ids None of
        None \<Rightarrow> (Done (-1), k)
      | Some None \<Rightarrow> (Done 0, k\<lparr>sems := multi_take (p_pid (procs k ! cur)) ids (sems k)\<rparr>)
      | Some (Some w) \<Rightarrow>
          if deadlock_detect k cur (ChSem w) then (Done (-1), k)
          else (Blocked, upd_proc cur (sleep_begin (ChSem w)) (k\<lparr>sems := multi_waiters 1 ids (sems k)\<rparr>)))"

definition sys_sem_p_multi_woken :: "nat \<Rightarrow> nat list \<Rightarrow> ksync \<Rightarrow> ksync" where
  "sys_sem_p_multi_woken cur ids k =
     (let k = upd_proc cur sleep_end k in k\<lparr>sems := multi_waiters (-1) ids (sems k)\<rparr>)"

subsection \<open>Semaphore sets\<close>

abbreviation upd_set :: "nat \<Rightarrow> (semset \<Rightarrow> semset) \<Rightarrow> ksync \<Rightarrow> ksync" where
  "upd_set i f k \<equiv> k\<lparr>semsets := upd_at (semsets k) i f\<rparr>"

abbreviation upd_set_sem :: "nat \<Rightarrow> nat \<Rightarrow> (sem \<Rightarrow> sem) \<Rightarrow> ksync \<Rightarrow> ksync" where
  "upd_set_sem i j f k \<equiv> upd_set i (\<lambda>st. st\<lparr>set_sems := upd_at (set_sems st) j f\<rparr>) k"

text \<open>\<open>uvals\<close> is \<open>None\<close> for a null user pointer.\<close>

definition sys_semset_create :: "(nat \<Rightarrow> int list option) option \<Rightarrow> int \<Rightarrow> ksync \<Rightarrow> int \<times> ksync" where
  "sys_semset_create uvals n k =
     (if n \<le> 0 \<or> n > int SEMSET_MAX_SIZE then (-1, k)
      else case (case uvals of None \<Rightarrow> Some (replicate (nat n) 0) | Some copyin_ints \<Rightarrow> copyin_ints (nat n)) of
             None \<Rightarrow> (-1, k)
           | Some vals \<Rightarrow>
               if list_ex (\<lambda>i. vals ! i < 0) [0..<nat n] then (-1, k)
               else case find_idx (\<lambda>st. \<not> set_allocated st) (semsets k) of
                      None \<Rightarrow> (-1, k)
                    | Some sid \<Rightarrow>
                        (int sid,
                         (upd_set sid (\<lambda>st. st\<lparr>set_allocated := True, set_count := n,
                            set_sems := map (\<lambda>i. if i < nat n
                              then \<lparr>resource_count = vals ! i, sem_waiters = 0, sem_owner = 0, sem_allocated = True\<rparr>
                              else sem0) [0..<SEMSET_MAX_SIZE]\<rparr>) k)
                         \<lparr>semset_used_count := semset_used_count k + 1\<rparr>))"

definition sys_semset_free :: "int \<Rightarrow> ksync \<Rightarrow> int \<times> ksync" where
  "sys_semset_free sid k =
     (if sid < 0 \<or> sid \<ge> int SEMSET_MAX_NUM then (-1, k)
      else
        (let i = nat sid; st = semsets k ! i; n = nat (set_count st) in
         if \<not> set_allocated st then (-1, k)
         else if list_ex (\<lambda>j. let s = set_sems st ! j in
                     \<not> sem_allocated s \<or> resource_count s < 0 \<or> sem_waiters s > 0) [0..<n]
         then (-1, k)
         else (0, (upd_set i (\<lambda>st. st\<lparr>set_sems := for_vec n (\<lambda>_ _. sem0) (set_sems st),
                                     set_allocated := False, set_count := 0\<rparr>) k)
                  \<lparr>semset_used_count := semset_used_count k - 1\<rparr>)))"

definition sys_semset_p_begin :: "nat \<Rightarrow> int \<Rightarrow> int \<Rightarrow> ksync \<Rightarrow> outcome \<times> ksync" where
  "sys_semset_p_begin cur sid idx k =
     (if sid < 0 \<or> sid \<ge> int SEMSET_MAX_NUM then (Done (-1), k)
      else
        (let i = nat sid; st = semsets k ! i in
         if \<not> set_allocated st \<or> idx < 0 \<or> idx \<ge> set_count st then (Done (-1), k)
         else
           (let j = nat idx in
            if \<not> sem_allocated (set_sems st ! j) then (Done (-1), k)
            else
              (let k = upd_set_sem i j (\<lambda>s. s\<lparr>resource_count := resource_count s - 1\<rparr>) k
               in if resource_count (set_sems (semsets k ! i) ! j) < 0
                  then if deadlock_detect k cur (ChSemset i j)
                       then (Done (-1), upd_set_sem i j (\<lambda>s. s\<lparr>resource_count := resource_count s + 1\<rparr>) k)
                       else (Blocked, upd_proc cur (sleep_begin (ChSemset i j))
                               (upd_set_sem i j (\<lambda>s. s\<lparr>sem_waiters := sem_waiters s + 1\<rparr>) k))
                  else (Done 0, upd_set_sem i j (sem_note_owner (p_pid (procs k ! cur))) k)))))"

definition sys_semset_p_end :: "nat \<Rightarrow> nat \<Rightarrow> nat \<Rightarrow> ksync \<Rightarrow> outcome \<times> ksync" where
  "sys_semset_p_end cur i j k =
     (let pid = p_pid (procs k ! cur);
          k = upd_proc cur sleep_end k;
          k = upd_set_sem i j (\<lambda>s. s\<lparr>sem_waiters := sem_waiters s - 1\<rparr>) k
      in (Done 0, upd_set_sem i j (sem_note_owner pid) k))"

definition sys_semset_v :: "sched_cfg \<Rightarrow> int \<Rightarrow> int \<Rightarrow> ksync \<Rightarrow> int \<times> ksync" where
  "sys_semset_v c sid idx k =
     (if sid < 0 \<or> sid \<ge> int SEMSET_MAX_NUM then (-1, k)
      else
        (let i = nat sid; st = semsets k ! i in
         if \<not> set_allocated st \<or> idx < 0 \<or> idx \<ge> set_count st then (-1, k)
         else
           (let j = nat idx in
            if \<not> sem_allocated (set_sems st ! j) then (-1, k)
            else
              (let k = upd_set_sem i j (\<lambda>s. s\<lparr>resource_count := resource_count s + 1, sem_owner := 0\<rparr>) k;
                   s = set_sems (semsets k ! i) ! j
               in (0, if resource_count s \<le> 0 \<or> sem_waiters s > 0
                      then k\<lparr>procs := wakeupOneProc c (ChSemset i j) (procs k)\<rparr> else k)))))"

definition sys_semset_p_multi_args ::
    "(nat \<Rightarrow> int list option) \<Rightarrow> int \<Rightarrow> int \<Rightarrow> ksync \<Rightarrow> nat list option" where
  "sys_semset_p_multi_args copyin_ints sid n k =
     (if sid < 0 \<or> sid \<ge> int SEMSET_MAX_NUM then None
      else if n \<le> 0 \<or> n > int SEMSET_MAX_SIZE then None
      else let st = semsets k ! nat sid in
           if \<not> set_allocated st \<or> n > set_count st then None
           else case copyin_ints (nat n) of
                  None \<Rightarrow> None
                | Some idxs \<Rightarrow>
                    let idxs = ids_sort idxs in
                    if ids_valid (set_count st) idxs then Some (map nat idxs) else None)"

definition sys_semset_p_multi_try :: "nat \<Rightarrow> nat \<Rightarrow> nat list \<Rightarrow> ksync \<Rightarrow> outcome \<times> ksync" where
  "sys_semset_p_multi_try cur i idxs k =
     (case multi_scan (set_sems (semsets k ! i)) idxs None of
        None \<Rightarrow> (Done (-1), k)
      | Some None \<Rightarrow>
          (Done 0, upd_set i (\<lambda>st. st\<lparr>set_sems := multi_take (p_pid (procs k ! cur)) idxs (set_sems st)\<rparr>) k)
      | Some (Some w) \<Rightarrow>
          if deadlock_detect k cur (ChSemset i w) then (Done (-1), k)
          else (Blocked, upd_proc cur (sleep_begin (ChSemset i w))
                  (upd_set i (\<lambda>st. st\<lparr>set_sems := multi_waiters 1 idxs (set_sems st)\<rparr>) k)))"

definition sys_semset_p_multi_woken :: "nat \<Rightarrow> nat \<Rightarrow> nat list \<Rightarrow> ksync \<Rightarrow> ksync" where
  "sys_semset_p_multi_woken cur i idxs k =
     (let k = upd_proc cur sleep_end k
      in upd_set i (\<lambda>st. st\<lparr>set_sems := multi_waiters (-1) idxs (set_sems st)\<rparr>) k)"

subsection \<open>Runs of P and V\<close>

text \<open>
  A run of processes that use the semaphores with P and V only. Beside the kernel state it carries,
  for every process asleep or just woken inside \<^verbatim>\<open>sys_sem_p\<close>, the semaphore (\<open>inside\<close>), and
  for every semaphore the number of units it started with, plus the V operations, minus the
  completed P operations (\<open>units\<close>). The rest of the kernel may change the processes in any way
  that neither wakes nor puts to sleep.
\<close>

record semsys =
  kern :: ksync
  inside :: "nat \<Rightarrow> nat option"
  units :: "nat \<Rightarrow> int"

definition on_cpu :: "nat \<Rightarrow> ksync \<Rightarrow> bool" where
  "on_cpu cur k \<longleftrightarrow> cur < length (procs k) \<and> p_state (procs k ! cur) = RUNNING"

definition same_waits :: "ptable \<Rightarrow> ptable \<Rightarrow> bool" where
  "same_waits ps qs \<longleftrightarrow> length qs = length ps \<and> (\<forall>ch. waiters_on ch qs = waiters_on ch ps)"

inductive sem_step :: "sched_cfg \<Rightarrow> semsys \<Rightarrow> semsys \<Rightarrow> bool" for c where
  p_done: "on_cpu cur (kern s) \<Longrightarrow> inside s cur = None \<Longrightarrow> sys_sem_p_begin cur sid (kern s) = (Done r, k) \<Longrightarrow>
    sem_step c s (s\<lparr>kern := k, units := (if r = 0 then (units s)(nat sid := units s (nat sid) - 1) else units s)\<rparr>)"
| p_block: "on_cpu cur (kern s) \<Longrightarrow> inside s cur = None \<Longrightarrow> sys_sem_p_begin cur sid (kern s) = (Blocked, k) \<Longrightarrow>
    sem_step c s (s\<lparr>kern := k, inside := (inside s)(cur := Some (nat sid))\<rparr>)"
| p_resume: "on_cpu cur (kern s) \<Longrightarrow> inside s cur = Some i \<Longrightarrow> sys_sem_p_end cur i (kern s) = (Done r, k) \<Longrightarrow>
    sem_step c s (s\<lparr>kern := k, inside := (inside s)(cur := None), units := (units s)(i := units s i - 1)\<rparr>)"
| v: "on_cpu cur (kern s) \<Longrightarrow> inside s cur = None \<Longrightarrow> sys_sem_v c sid (kern s) = (r, k) \<Longrightarrow>
    sem_step c s (s\<lparr>kern := k, units := (if r = 0 then (units s)(nat sid := units s (nat sid) + 1) else units s)\<rparr>)"
| other: "same_waits (procs (kern s)) qs \<Longrightarrow> sem_step c s (s\<lparr>kern := (kern s)\<lparr>procs := qs\<rparr>\<rparr>)"

definition insiders :: "semsys \<Rightarrow> nat \<Rightarrow> nat set" where
  "insiders s i = {j. j < length (procs (kern s)) \<and> inside s j = Some i}"

definition sem_ok :: "semsys \<Rightarrow> nat \<Rightarrow> bool" where
  "sem_ok s i \<longleftrightarrow>
     (let n = resource_count (sems (kern s) ! i); W = waiters_on (ChSem i) (procs (kern s)) in
      W \<subseteq> insiders s i \<and> int (card W) = max 0 (- n) \<and>
      sem_waiters (sems (kern s) ! i) = int (card (insiders s i)) \<and>
      units s i = max 0 n + int (card (insiders s i - W)))"

definition sem_inv :: "semsys \<Rightarrow> bool" where
  "sem_inv s \<longleftrightarrow> length (sems (kern s)) = SEM_MAX_NUM \<and> (\<forall>i < SEM_MAX_NUM. sem_ok s i) \<and>
     (\<forall>j i. inside s j = Some i \<longrightarrow> i < SEM_MAX_NUM)"

text \<open>The table entry seen by the other semaphores does not change.\<close>

lemma sem_ok_frame:
  assumes "sem_ok s i" "sems (kern s') ! i = sems (kern s) ! i \<or>
      (resource_count (sems (kern s') ! i) = resource_count (sems (kern s) ! i) \<and>
       sem_waiters (sems (kern s') ! i) = sem_waiters (sems (kern s) ! i))"
    "waiters_on (ChSem i) (procs (kern s')) = waiters_on (ChSem i) (procs (kern s))"
    "insiders s' i = insiders s i" "units s' i = units s i"
  shows "sem_ok s' i"
  using assms by (auto simp: sem_ok_def Let_def)

lemma finite_insiders [simp]: "finite (insiders s i)"
  by (simp add: insiders_def)

lemma card_insiders_minus:
  "W \<subseteq> insiders s i \<Longrightarrow> int (card (insiders s i - W)) = int (card (insiders s i)) - int (card W)"
  by (simp add: card_Diff_subset finite_subset [OF _ finite_insiders] card_mono of_nat_diff)

lemma sem_ok_alt:
  "sem_ok s i \<longleftrightarrow>
     (let n = resource_count (sems (kern s) ! i); W = waiters_on (ChSem i) (procs (kern s)) in
      W \<subseteq> insiders s i \<and> int (card W) = max 0 (- n) \<and>
      sem_waiters (sems (kern s) ! i) = int (card (insiders s i)) \<and>
      units s i = max 0 n + int (card (insiders s i)) - int (card W))"
  by (auto simp: sem_ok_def Let_def card_insiders_minus)

lemma p_begin_cases:
  assumes "sys_sem_p_begin cur sid k = (r, k')" "length (sems k) = SEM_MAX_NUM"
  obtains (fail) "r = Done (-1)" "k' = k"
  | (take) "r = Done 0" "nat sid < SEM_MAX_NUM" "1 \<le> resource_count (sems k ! nat sid)"
      "k' = upd_sem (nat sid) (\<lambda>s. sem_note_owner (p_pid (procs k ! cur))
             (s\<lparr>resource_count := resource_count s - 1\<rparr>)) k"
  | (sleep) "r = Blocked" "nat sid < SEM_MAX_NUM" "resource_count (sems k ! nat sid) \<le> 0"
      "k' = upd_proc cur (sleep_begin (ChSem (nat sid)))
             (upd_sem (nat sid) (\<lambda>s. s\<lparr>resource_count := resource_count s - 1,
                                       sem_waiters := sem_waiters s + 1\<rparr>) k)"
proof -
  consider "sid < 0 \<or> sid \<ge> 128 \<or> \<not> sem_allocated (sems k ! nat sid)"
    | "0 \<le> sid" "sid < 128" "sem_allocated (sems k ! nat sid)" by linarith
  then show thesis
  proof cases
    case 1
    then have "r = Done (-1)" "k' = k" using assms(1) by (auto simp: sys_sem_p_begin_def Let_def split: if_splits)
    then show thesis by (rule fail)
  next
    case 2
    then have i: "nat sid < 128" by simp
    show thesis
    proof (cases "1 \<le> resource_count (sems k ! nat sid)")
      case True
      show thesis
        by (rule take) (use assms 2 i True in \<open>auto simp: sys_sem_p_begin_def Let_def\<close>)
    next
      case False
      let ?k = "upd_sem (nat sid) (\<lambda>s. s\<lparr>resource_count := resource_count s - 1\<rparr>) k"
      show thesis
      proof (cases "deadlock_detect ?k cur (ChSem (nat sid))")
        case True
        show thesis
          by (rule fail) (use assms 2 i True False in \<open>auto simp: sys_sem_p_begin_def Let_def\<close>)
      next
        case no: False
        show thesis
          by (rule sleep) (use assms 2 i no False in \<open>auto simp: sys_sem_p_begin_def Let_def\<close>)
      qed
    qed
  qed
qed

lemma sem_v_cases:
  assumes "sys_sem_v c sid k = (r, k')" "length (sems k) = SEM_MAX_NUM"
  obtains (fail) "r = -1" "k' = k"
  | (ok) "r = 0" "nat sid < SEM_MAX_NUM"
      "sems k' = upd_at (sems k) (nat sid) (\<lambda>s. s\<lparr>resource_count := resource_count s + 1, sem_owner := 0\<rparr>)"
      "procs k' = (if resource_count (sems k ! nat sid) < 0 \<or> sem_waiters (sems k ! nat sid) > 0
                   then wakeupOneProc c (ChSem (nat sid)) (procs k) else procs k)"
proof -
  consider "sid < 0 \<or> sid \<ge> 128 \<or> \<not> sem_allocated (sems k ! nat sid)"
    | "0 \<le> sid" "sid < 128" "sem_allocated (sems k ! nat sid)" by linarith
  then show thesis
  proof cases
    case 1
    then have "r = -1" "k' = k" using assms(1) by (auto simp: sys_sem_v_def Let_def split: if_splits)
    then show thesis by (rule fail)
  next
    case 2
    then have "nat sid < 128" by simp
    with 2 assms show thesis
      by (intro ok) (auto simp: sys_sem_v_def Let_def split: if_splits)
  qed
qed

lemma note_owner_simps [simp]:
  "resource_count (sem_note_owner pid s) = resource_count s" "sem_waiters (sem_note_owner pid s) = sem_waiters s"
  by (simp_all add: sem_note_owner_def)

lemma sem_ok_take:
  assumes ok: "sem_ok s i" and l: "i < length (sems (kern s))" "1 \<le> resource_count (sems (kern s) ! i)"
    and k': "kern s' = upd_sem i (\<lambda>x. sem_note_owner pid (x\<lparr>resource_count := resource_count x - 1\<rparr>)) (kern s)"
    and s': "inside s' = inside s" "units s' i = units s i - 1"
  shows "sem_ok s' i"
  using assms by (auto simp: sem_ok_alt Let_def insiders_def)

lemma insiders_upd:
  assumes "cur < length (procs (kern s))" "length (procs (kern s')) = length (procs (kern s))"
    "inside s' = (inside s)(cur := x)"
  shows "insiders s' i = (if x = Some i then insert cur (insiders s i) else insiders s i - {cur})"
  using assms by (auto simp: insiders_def)

lemma sem_ok_sleep:
  assumes ok: "sem_ok s i" and l: "i < length (sems (kern s))" "resource_count (sems (kern s) ! i) \<le> 0"
    and cpu: "on_cpu cur (kern s)" "inside s cur = None"
    and k': "kern s' = upd_proc cur (sleep_begin (ChSem i))
        (upd_sem i (\<lambda>s. s\<lparr>resource_count := resource_count s - 1, sem_waiters := sem_waiters s + 1\<rparr>) (kern s))"
    and s': "inside s' = (inside s)(cur := Some i)" "units s' = units s"
  shows "sem_ok s' i"
proof -
  let ?W = "waiters_on (ChSem i) (procs (kern s))"
  have cur: "cur < length (procs (kern s))" "p_state (procs (kern s) ! cur) = RUNNING"
    using cpu(1) by (simp_all add: on_cpu_def)
  have W: "waiters_on (ChSem i) (procs (kern s')) = insert cur ?W"
    using cur by (simp add: k' waiters_simps)
  have I: "insiders s' i = insert cur (insiders s i)"
    using insiders_upd [OF cur(1), of s' "Some i" i] k' s'(1) by simp
  have "cur \<notin> insiders s i" "cur \<notin> ?W"
    using cpu(2) waiting_running [OF cur(2)] by (auto simp: insiders_def waiters_on_def)
  then have "card (insiders s' i) = card (insiders s i) + 1"
      "card (waiters_on (ChSem i) (procs (kern s'))) = card ?W + 1"
    by (simp_all add: I W)
  moreover have "resource_count (sems (kern s') ! i) = resource_count (sems (kern s) ! i) - 1"
    "sem_waiters (sems (kern s') ! i) = sem_waiters (sems (kern s) ! i) + 1" "units s' i = units s i"
    using l k' s'(2) by simp_all
  ultimately show ?thesis
    using ok l(2) W I by (auto simp: sem_ok_alt Let_def)
qed

lemma sem_ok_resume:
  assumes ok: "sem_ok s i" and l: "i < length (sems (kern s))"
    and cpu: "on_cpu cur (kern s)" "inside s cur = Some i"
    and k': "procs (kern s') = upd_at (procs (kern s)) cur sleep_end"
      "sems (kern s') = upd_at (sems (kern s)) i (\<lambda>x. sem_note_owner pid (x\<lparr>sem_waiters := sem_waiters x - 1\<rparr>))"
    and s': "inside s' = (inside s)(cur := None)" "units s' i = units s i - 1"
  shows "sem_ok s' i"
proof -
  let ?W = "waiters_on (ChSem i) (procs (kern s))"
  have cur: "cur < length (procs (kern s))" "p_state (procs (kern s) ! cur) = RUNNING"
    using cpu(1) by (simp_all add: on_cpu_def)
  have W: "waiters_on (ChSem i) (procs (kern s')) = ?W" using cur by (simp add: k' waiters_simps)
  have I: "insiders s' i = insiders s i - {cur}"
    using insiders_upd [OF cur(1), of s' None i] k' s'(1) by simp
  have "cur \<in> insiders s i" "cur \<notin> ?W"
    using cpu cur waiting_running [OF cur(2)] by (auto simp: insiders_def waiters_on_def)
  then have "int (card (insiders s' i)) = int (card (insiders s i)) - 1" "?W \<subseteq> insiders s i \<Longrightarrow> ?W \<subseteq> insiders s' i"
    by (auto simp: I card_Diff_singleton_if of_nat_diff) (metis Suc_pred card_gt_0_iff empty_iff finite_insiders of_nat_Suc add_diff_cancel_left')
  with ok l W s'(2) k'(2) show ?thesis by (auto simp: sem_ok_alt Let_def)
qed

lemma sem_ok_v:
  assumes ok: "sem_ok s i" and l: "i < length (sems (kern s))"
    and k': "sems (kern s') = upd_at (sems (kern s)) i (\<lambda>x. x\<lparr>resource_count := resource_count x + 1, sem_owner := 0\<rparr>)"
      "procs (kern s') = (if resource_count (sems (kern s) ! i) < 0 \<or> sem_waiters (sems (kern s) ! i) > 0
         then wakeupOneProc c (ChSem i) (procs (kern s)) else procs (kern s))"
    and s': "inside s' = inside s" "units s' i = units s i + 1"
  shows "sem_ok s' i"
proof -
  let ?W = "waiters_on (ChSem i) (procs (kern s))" and ?W' = "waiters_on (ChSem i) (procs (kern s'))"
  let ?n = "resource_count (sems (kern s) ! i)"
  have I: "insiders s' i = insiders s i" using s'(1) k'(2) by (simp add: insiders_def)
  have sub: "?W' \<subseteq> ?W" by (auto simp: k' waiters_simps)
  have card: "int (card ?W') = max 0 (- (?n + 1))"
  proof (cases "?n < 0")
    case True
    with ok have "card ?W \<ge> 1" "int (card ?W) = - ?n" by (auto simp: sem_ok_def Let_def)
    then show ?thesis using True k'(2) by (simp add: card_waiters_wakeupOne of_nat_diff)
  next
    case False
    with ok have "?W = {}" by (auto simp: sem_ok_def Let_def)
    with sub have "?W' = {}" by blast
    with False show ?thesis by simp
  qed
  have n': "resource_count (sems (kern s') ! i) = ?n + 1" "sem_waiters (sems (kern s') ! i) = sem_waiters (sems (kern s) ! i)"
    using l k'(1) by simp_all
  show ?thesis
    unfolding sem_ok_alt Let_def I n' card
    using ok sub s'(2) by (auto simp: sem_ok_alt Let_def)
qed

text \<open>One semaphore is touched; for all others the view is unchanged.\<close>

lemma sem_inv_step:
  assumes inv: "sem_inv s" and i: "i < SEM_MAX_NUM" and ok: "sem_ok s' i"
    and sems: "sems (kern s') = (sems (kern s))[i := x]"
    and frame: "\<And>j. j \<noteq> i \<Longrightarrow> waiters_on (ChSem j) (procs (kern s')) = waiters_on (ChSem j) (procs (kern s))"
      "\<And>j. j \<noteq> i \<Longrightarrow> insiders s' j = insiders s j" "\<And>j. j \<noteq> i \<Longrightarrow> units s' j = units s j"
    and ins: "\<And>p j. inside s' p = Some j \<Longrightarrow> j < SEM_MAX_NUM"
  shows "sem_inv s'"
proof -
  have "sem_ok s' j" if "j < 128" for j
  proof (cases "j = i")
    case False
    have "sem_ok s j" using inv that by (simp add: sem_inv_def)
    then show ?thesis by (rule sem_ok_frame) (use frame [OF False] sems False in simp_all)
  qed (simp add: ok)
  with inv sems ins show ?thesis by (auto simp: sem_inv_def)
qed

lemma sem_step_inv:
  assumes "sem_step c s s'" "sem_inv s"
  shows "sem_inv s'"
proof -
  have len: "length (sems (kern s)) = 128" and oki: "\<And>i. i < 128 \<Longrightarrow> sem_ok s i"
    and ins: "\<And>j i. inside s j = Some i \<Longrightarrow> i < 128"
    using assms(2) by (simp_all add: sem_inv_def)
  from assms(1) show ?thesis
  proof cases
    case (p_done cur sid r k)
    from p_done(4) len show ?thesis
    proof (cases rule: p_begin_cases)
      case fail
      with p_done(1) assms(2) show ?thesis by simp
    next
      case take
      have "sem_ok s' (nat sid)"
        by (rule sem_ok_take [OF oki]) (use take p_done(1) len in auto)
      then show ?thesis
        by (rule sem_inv_step [OF assms(2) take(2)]) (use take p_done(1) ins in \<open>auto simp: insiders_def\<close>)
    qed simp
  next
    case (p_block cur sid k)
    from p_block(4) len show ?thesis
    proof (cases rule: p_begin_cases)
      case sleep
      have cur: "cur < length (procs (kern s))" "p_state (procs (kern s) ! cur) = RUNNING"
        using p_block(2) by (simp_all add: on_cpu_def)
      have "sem_ok s' (nat sid)"
        by (rule sem_ok_sleep [OF oki _ _ p_block(2,3)]) (use sleep p_block(1) len in auto)
      then show ?thesis
      proof (rule sem_inv_step [OF assms(2) sleep(2)])
        fix j assume "j \<noteq> nat sid"
        then show "insiders s' j = insiders s j"
          using insiders_upd [OF cur(1), of s' "Some (nat sid)" j] sleep p_block(1,3) by (auto simp: insiders_def)
      qed (use sleep p_block(1) cur ins in \<open>auto simp: waiters_simps split: if_splits\<close>)
    qed simp_all
  next
    case (p_resume cur i r k)
    have cur: "cur < length (procs (kern s))" "p_state (procs (kern s) ! cur) = RUNNING"
      using p_resume(2) by (simp_all add: on_cpu_def)
    have i: "i < 128" using ins p_resume(3) by blast
    have k: "procs k = upd_at (procs (kern s)) cur sleep_end"
      "sems k = upd_at (sems (kern s)) i
         (\<lambda>x. sem_note_owner (p_pid (procs (kern s) ! cur)) (x\<lparr>sem_waiters := sem_waiters x - 1\<rparr>))"
      using p_resume(4) i len by (auto simp: sys_sem_p_end_def Let_def)
    have "sem_ok s' i"
      by (rule sem_ok_resume [OF oki _ p_resume(2,3)]) (use i len k p_resume(1) in auto)
    then show ?thesis
    proof (rule sem_inv_step [OF assms(2) i])
      fix j assume "j \<noteq> i"
      then show "insiders s' j = insiders s j"
        using insiders_upd [OF cur(1), of s' None j] k p_resume(1,3) by (auto simp: insiders_def)
    qed (use k p_resume(1) cur ins in \<open>auto simp: waiters_simps split: if_splits\<close>)
  next
    case (v cur sid r k)
    from v(4) len show ?thesis
    proof (cases rule: sem_v_cases)
      case fail
      with v(1) assms(2) show ?thesis by simp
    next
      case ok
      have "sem_ok s' (nat sid)"
        by (rule sem_ok_v [OF oki, where c = c]) (use ok v(1) len in auto)
      then show ?thesis
        by (rule sem_inv_step [OF assms(2) ok(2)])
          (use ok v(1) ins in \<open>auto simp: waiters_simps insiders_def\<close>)
    qed
  next
    case (other qs)
    have "sem_ok s' i" if "i < 128" for i
      by (rule sem_ok_frame [OF oki [OF that]])
        (use other in \<open>auto simp: same_waits_def insiders_def\<close>)
    with assms(2) other show ?thesis by (simp add: sem_inv_def)
  qed
qed

lemma sem_run_inv: "(sem_step c)\<^sup>*\<^sup>* s s' \<Longrightarrow> sem_inv s \<Longrightarrow> sem_inv s'"
  by (induction rule: rtranclp_induct) (auto intro: sem_step_inv)

text \<open>A fresh system: nobody waits, and every semaphore has its units.\<close>

definition sem_fresh :: "semsys \<Rightarrow> bool" where
  "sem_fresh s \<longleftrightarrow> length (sems (kern s)) = SEM_MAX_NUM \<and> (\<forall>j. inside s j = None) \<and>
     (\<forall>i < SEM_MAX_NUM. 0 \<le> resource_count (sems (kern s) ! i) \<and> sem_waiters (sems (kern s) ! i) = 0 \<and>
        units s i = resource_count (sems (kern s) ! i) \<and> waiters_on (ChSem i) (procs (kern s)) = {})"

lemma sem_fresh_inv: "sem_fresh s \<Longrightarrow> sem_inv s"
  by (auto simp: sem_fresh_def sem_inv_def sem_ok_def insiders_def Let_def)

subsection \<open>The AND operation takes all or nothing\<close>

lemma ins_key_mset: "mset (ins_key xs key) = add_mset key (mset xs)"
proof -
  have "mset (dropWhile P ys) + mset (takeWhile P ys) = mset ys" for P and ys :: "int list"
    by (metis mset_append takeWhile_dropWhile_id union_commute)
  from this [of "\<lambda>x. x > key" "rev xs"] show ?thesis by (simp add: ins_key_def)
qed

lemma ins_key_sorted:
  assumes "sorted xs"
  shows "sorted (ins_key xs key)"
proof -
  let ?r = "rev xs" and ?gt = "\<lambda>x. x > key"
  have desc: "sorted_wrt (\<ge>) ?r" using assms by (simp add: sorted_wrt_rev)
  have split: "?r = takeWhile ?gt ?r @ dropWhile ?gt ?r" by simp
  have tk: "\<forall>x \<in> set (takeWhile ?gt ?r). x > key" by (meson set_takeWhileD)
  have dr: "\<forall>x \<in> set (dropWhile ?gt ?r). x \<le> key"
  proof (cases "dropWhile ?gt ?r")
    case (Cons y ys)
    then have "y \<le> key" using hd_dropWhile [of ?gt ?r] by simp
    moreover have "sorted_wrt (\<ge>) (y # ys)"
      using desc split Cons by (metis sorted_wrt_append)
    ultimately show ?thesis unfolding Cons by auto
  next
    case Nil
    show ?thesis unfolding Nil by simp
  qed
  have "sorted (rev (dropWhile ?gt ?r))" "sorted (rev (takeWhile ?gt ?r))"
    using desc split by (metis sorted_wrt_append sorted_wrt_rev)+
  with tk dr show ?thesis by (fastforce simp: ins_key_def sorted_append)
qed

lemma ids_sort_spec: "sorted (ids_sort ids)" "mset (ids_sort ids) = mset ids"
proof -
  have "sorted acc \<Longrightarrow> sorted (foldl ins_key acc ids) \<and> mset (foldl ins_key acc ids) = mset acc + mset ids" for acc
    by (induction ids arbitrary: acc) (auto simp: ins_key_sorted ins_key_mset)
  from this [of "[]"] show "sorted (ids_sort ids)" "mset (ids_sort ids) = mset ids"
    by (simp_all add: ids_sort_def)
qed

lemma ids_valid_iff:
  assumes "sorted xs"
  shows "ids_valid bound xs \<longleftrightarrow> distinct xs \<and> (\<forall>x \<in> set xs. 0 \<le> x \<and> x < bound)"
proof -
  have "distinct xs" if "\<forall>i < length xs. i > 0 \<longrightarrow> xs ! i \<noteq> xs ! (i - 1)"
  proof -
    have "xs ! i < xs ! j" if "i < j" "j < length xs" for i j
    proof -
      have "xs ! i \<le> xs ! (j - 1)" "xs ! (j - 1) \<le> xs ! j" "xs ! j \<noteq> xs ! (j - 1)"
        using assms that \<open>\<forall>i < length xs. i > 0 \<longrightarrow> xs ! i \<noteq> xs ! (i - 1)\<close>
        by (auto simp: sorted_iff_nth_mono)
      then show ?thesis by linarith
    qed
    then show ?thesis by (metis distinct_conv_nth less_irrefl linorder_neqE_nat)
  qed
  moreover have "xs ! i \<noteq> xs ! (i - 1)" if "distinct xs" "i < length xs" "0 < i" for i
    using nth_eq_iff_index_eq [OF that(1,2), of "i - 1"] that by simp
  ultimately show ?thesis
    unfolding ids_valid_def list_all_upt all_set_conv_all_nth by blast
qed

lemma multi_scan_spec:
  "multi_scan ss is w = None \<longleftrightarrow> (\<exists>i \<in> set is. \<not> sem_allocated (ss ! i))"
  "multi_scan ss is w = Some None \<longleftrightarrow>
     w = None \<and> (\<forall>i \<in> set is. sem_allocated (ss ! i) \<and> 0 < resource_count (ss ! i))"
  by (induction "is" arbitrary: w) auto

lemma fold_upd_nth:
  assumes "distinct is" "\<forall>i \<in> set is. i < length ss" "j < length ss"
  shows "fold (\<lambda>i ss. upd_at ss i f) is ss ! j = (if j \<in> set is then f (ss ! j) else ss ! j)"
  using assms by (induction "is" arbitrary: ss) (auto simp: nth_list_update)

lemma multi_take_nth:
  assumes "distinct is" "\<forall>i \<in> set is. i < length ss" "j < length ss"
  shows "multi_take pid is ss ! j = (if j \<in> set is
    then sem_note_owner pid ((ss ! j)\<lparr>resource_count := resource_count (ss ! j) - 1\<rparr>) else ss ! j)"
  unfolding multi_take_def
  by (rule fold_upd_nth [OF assms, where f = "\<lambda>s. sem_note_owner pid (s\<lparr>resource_count := resource_count s - 1\<rparr>)"])

lemma multi_waiters_nth:
  assumes "distinct is" "\<forall>i \<in> set is. i < length ss" "j < length ss"
  shows "multi_waiters d is ss ! j =
    (if j \<in> set is then (ss ! j)\<lparr>sem_waiters := sem_waiters (ss ! j) + d\<rparr> else ss ! j)"
  unfolding multi_waiters_def
  by (rule fold_upd_nth [OF assms, where f = "\<lambda>s. s\<lparr>sem_waiters := sem_waiters s + d\<rparr>"])

lemma length_fold_upd [simp]: "length (fold (\<lambda>i ss. upd_at ss i f) is ss) = length ss"
  by (induction "is" arbitrary: ss) auto

subsection \<open>Properties\<close>


definition sem_demo :: semsys where
  "sem_demo = \<lparr>kern = \<lparr>procs = [proc0\<lparr>p_state := RUNNING, p_pid := 1\<rparr>],
      sems = replicate SEM_MAX_NUM (sem0\<lparr>resource_count := 1, sem_allocated := True\<rparr>), semsets = [], monitors = [],
      sleeplocks = [], sem_used_count = 128, semset_used_count = 0\<rparr>,
     inside = \<lambda>_. None, units = \<lambda>_. 1\<rparr>"


text \<open>
  The argument check of \<^verbatim>\<open>sys_sem_p_multi\<close> accepts exactly the arrays of pairwise
  different valid ids, and yields them in increasing order, the order in which the locks are taken.
\<close>

theorem sem_p_multi_lock_order:
  assumes "copyin_ints (nat n) = Some ids" "0 < n" "n \<le> int SEM_MAX_NUM"
  shows "case sys_sem_p_multi_args copyin_ints n of
      None \<Rightarrow> \<not> (distinct ids \<and> (\<forall>x \<in> set ids. 0 \<le> x \<and> x < int SEM_MAX_NUM))
    | Some is \<Rightarrow> sorted_wrt (<) is \<and> mset (map int is) = mset ids \<and> (\<forall>i \<in> set is. i < SEM_MAX_NUM)"
proof -
  note st = ids_sort_spec [of ids]
  have set: "set (ids_sort ids) = set ids" "distinct (ids_sort ids) = distinct ids"
    using st(2) by (metis set_mset_mset, metis mset_eq_imp_distinct_iff)
  show ?thesis
  proof (cases "ids_valid 128 (ids_sort ids)")
    case True
    with ids_valid_iff [OF st(1)] have v: "distinct (ids_sort ids)" "\<forall>x \<in> set (ids_sort ids). 0 \<le> x \<and> x < 128"
      by auto
    then have "map int (map nat (ids_sort ids)) = ids_sort ids" by (simp add: map_idI)
    moreover have "sorted_wrt (<) (ids_sort ids)" using st(1) v(1) by (simp add: strict_sorted_iff)
    then have "sorted_wrt (<) (map nat (ids_sort ids))"
      unfolding sorted_wrt_map by (rule sorted_wrt_mono_rel [rotated]) (use v(2) in auto)
    ultimately show ?thesis
      using True assms st(2) v by (auto simp: sys_sem_p_multi_args_def)
  next
    case False
    with ids_valid_iff [OF st(1)] set assms show ?thesis by (auto simp: sys_sem_p_multi_args_def)
  qed
qed

theorem sem_p_multi_lock_order_witness:
  "\<exists>is. sys_sem_p_multi_args (\<lambda>_. Some [7, 2, 5]) 3 = Some is \<and> sorted_wrt (<) is"
proof -
  have "sys_sem_p_multi_args (\<lambda>_. Some [7, 2, 5]) 3 \<noteq> None" by code_simp
  with sem_p_multi_lock_order [of "\<lambda>_. Some [7, 2, 5]" 3] show ?thesis by fastforce
qed

text \<open>
  The AND operation takes all or nothing: a turn of its loop that returns 0 found every
  semaphore of the list allocated with a unit free and took exactly one from each; a turn that
  fails or goes to sleep changes no count.
\<close>

theorem sem_p_multi_atomic:
  assumes "distinct is" "\<forall>i \<in> set is. i < length (sems k)" "sys_sem_p_multi_try cur is k = (r, k')"
    "j < length (sems k)"
  shows "resource_count (sems k' ! j) =
      resource_count (sems k ! j) - (if r = Done 0 \<and> j \<in> set is then 1 else 0) \<and>
    (r = Done 0 \<longrightarrow> (\<forall>i \<in> set is. sem_allocated (sems k ! i) \<and> 0 < resource_count (sems k ! i)))"
proof (cases "multi_scan (sems k) is None")
  case None
  with assms(3) show ?thesis by (auto simp: sys_sem_p_multi_try_def)
next
  case (Some w)
  note nth = multi_take_nth [OF assms(1,2,4)] multi_waiters_nth [OF assms(1,2,4)]
  show ?thesis
  proof (cases w)
    case None
    then have "multi_scan (sems k) is None = Some None" using Some by simp
    then have "\<forall>i \<in> set is. sem_allocated (sems k ! i) \<and> 0 < resource_count (sems k ! i)"
      using multi_scan_spec(2) by blast
    with None Some assms(3) show ?thesis
      by (auto simp: sys_sem_p_multi_try_def nth)
  next
    case (Some v)
    with \<open>multi_scan (sems k) is None = Some w\<close> assms(3) show ?thesis
      by (auto simp: sys_sem_p_multi_try_def nth split: if_splits)
  qed
qed

text \<open>
  Process 0 waits in the AND operation and process 1 in P, both on semaphore 0 without a unit;
  process 2 runs.
\<close>

definition steal_demo :: ksync where
  "steal_demo = \<lparr>procs = [proc0\<lparr>p_state := SLEEPING, p_chan := Some (ChSem 0), p_pid := 2\<rparr>,
       proc0\<lparr>p_state := SLEEPING, p_chan := Some (ChSem 0), p_pid := 3\<rparr>, proc0\<lparr>p_state := RUNNING, p_pid := 4\<rparr>],
     sems = [\<lparr>resource_count = -1, sem_waiters = 2, sem_owner = 0, sem_allocated = True\<rparr>], semsets = [],
     monitors = [], sleeplocks = [], sem_used_count = 1, semset_used_count = 0\<rparr>"

theorem sem_p_multi_atomic_witness:
  "fst (sys_sem_p_multi_try 2 [0] (steal_demo\<lparr>sems := [\<lparr>resource_count = 3, sem_waiters = 0, sem_owner = 0,
      sem_allocated = True\<rparr>]\<rparr>)) = Done 0 \<and>
   resource_count (sems (snd (sys_sem_p_multi_try 2 [0] (steal_demo\<lparr>sems := [\<lparr>resource_count = 3,
      sem_waiters = 0, sem_owner = 0, sem_allocated = True\<rparr>]\<rparr>))) ! 0) = 2"
proof -
  let ?k = "steal_demo\<lparr>sems := [\<lparr>resource_count = 3, sem_waiters = 0, sem_owner = 0, sem_allocated = True\<rparr>]\<rparr>"
  have r: "fst (sys_sem_p_multi_try 2 [0] ?k) = Done 0" by (simp add: sys_sem_p_multi_try_def)
  obtain k' where k': "sys_sem_p_multi_try 2 [0] ?k = (Done 0, k')" using r by (metis prod.collapse)
  from sem_p_multi_atomic [OF _ _ k', of 0] k' r show ?thesis by simp
qed

text \<open>
  C35. A waiter of the AND operation can steal the wakeup meant for a P: the V wakes the first
  sleeper of the table only; when that is an AND waiter, it finds the count still at zero and goes
  back to sleep, and the P, whose unit the V supplied, sleeps on.
\<close>

theorem sem_multi_steals_wakeup:
  "\<exists>k1 k2 k3. sys_sem_v CfgMLFQ 0 steal_demo = (0, k1) \<and>
     waiters_on (ChSem 0) (procs k1) = {1} \<and>
     k2 = sys_sem_p_multi_woken 0 [0] (upd_proc 0 (\<lambda>p. p\<lparr>p_state := RUNNING\<rparr>) k1) \<and>
     sys_sem_p_multi_try 0 [0] k2 = (Blocked, k3) \<and>
     waiters_on (ChSem 0) (procs k3) = {0, 1} \<and> resource_count (sems k3 ! 0) = 0"
proof -
  define k1 where "k1 = snd (sys_sem_v CfgMLFQ 0 steal_demo)"
  define k2 where "k2 = sys_sem_p_multi_woken 0 [0] (upd_proc 0 (\<lambda>p. p\<lparr>p_state := RUNNING\<rparr>) k1)"
  define k3 where "k3 = snd (sys_sem_p_multi_try 0 [0] k2)"
  have v: "fst (sys_sem_v CfgMLFQ 0 steal_demo) = 0" by (simp add: sys_sem_v_def steal_demo_def)
  have k1: "procs k1 = [(proc0\<lparr>p_state := RUNNABLE, p_chan := Some (ChSem 0), p_pid := 2\<rparr>)\<lparr>mlfq_level := 0, mlfq_ticks := 0\<rparr>,
       proc0\<lparr>p_state := SLEEPING, p_chan := Some (ChSem 0), p_pid := 3\<rparr>, proc0\<lparr>p_state := RUNNING, p_pid := 4\<rparr>]"
    "sems k1 = [\<lparr>resource_count = 0, sem_waiters = 2, sem_owner = 0, sem_allocated = True\<rparr>]"
    by (simp_all add: k1_def sys_sem_v_def steal_demo_def wakeupOneProc_def waiting_on_def wake_proc_def
        mlfq_reset_def proc0_def)
  have k2: "procs k2 = [proc0\<lparr>p_state := RUNNING, p_chan := None, p_pid := 2\<rparr>,
       proc0\<lparr>p_state := SLEEPING, p_chan := Some (ChSem 0), p_pid := 3\<rparr>, proc0\<lparr>p_state := RUNNING, p_pid := 4\<rparr>]"
    "sems k2 = [\<lparr>resource_count = 0, sem_waiters = 1, sem_owner = 0, sem_allocated = True\<rparr>]"
    by (simp_all add: k2_def sys_sem_p_multi_woken_def k1 sleep_end_def multi_waiters_def proc0_def)
  have dl: "\<not> deadlock_detect k2 0 (ChSem 0)"
  proof -
    obtain n where n: "(64 :: nat) = Suc n" by (metis numeral_eq_Suc)
    show ?thesis unfolding deadlock_detect_def n by (simp add: owner_of_chan_def k2)
  qed
  have again: "sys_sem_p_multi_try 0 [0] k2 = (Blocked, k3)"
    using dl by (simp add: k3_def sys_sem_p_multi_try_def k2)
  have k3: "procs k3 = [sleep_begin (ChSem 0) (proc0\<lparr>p_state := RUNNING, p_chan := None, p_pid := 2\<rparr>),
       proc0\<lparr>p_state := SLEEPING, p_chan := Some (ChSem 0), p_pid := 3\<rparr>, proc0\<lparr>p_state := RUNNING, p_pid := 4\<rparr>]"
    "resource_count (sems k3 ! 0) = 0"
    using dl by (simp_all add: k3_def sys_sem_p_multi_try_def k2 multi_waiters_def)
  have "waiters_on (ChSem 0) (procs k1) = {1}" "waiters_on (ChSem 0) (procs k3) = {0, 1}"
    by (auto simp: waiters_on_def k1 k3 waiting_on_def sleep_begin_def less_Suc_eq)
  with v k1_def k2_def again k3(2) show ?thesis by (metis prod.collapse)
qed

end
