(* ===== verification/Monitor.thy ===== *)
theory Monitor
  imports Sync
begin

section \<open>Monitors, condition variables and sleep locks\<close>

text \<open>
  The system calls \<^verbatim>\<open>sys_mon_*\<close> and \<^verbatim>\<open>sys_cond_*\<close> of \<^verbatim>\<open>kernel/sysproc.c\<close>, the
  release of a dying process's monitors (\<^verbatim>\<open>kernel/proc/proc.c\<close>), and the sleep locks of
  \<^verbatim>\<open>kernel/lock/sleeplock.c\<close>. A \<^verbatim>\<open>while (locked) sleep(...)\<close> loop is the definition
  with suffix \<open>_loop\<close>, which runs from the test of the condition to the next sleep or the end;
  \<open>_woken\<close> is what follows a sleep. Both kinds of lock are instances of one interface, the
  locale \<open>mutex\<close>, in which mutual exclusion is proved once.
\<close>

subsection \<open>Monitors\<close>

definition mon_valid :: "int \<Rightarrow> bool" where
  "mon_valid mid \<longleftrightarrow> \<not> (mid < 0 \<or> mid \<ge> int MONITOR_MAX_NUM)"

definition sys_mon_create :: "ksync \<Rightarrow> int \<times> ksync" where
  "sys_mon_create k =
     (case find_idx (\<lambda>m. \<not> mon_allocated m) (monitors k) of
        None \<Rightarrow> (-1, k)
      | Some i \<Rightarrow>
          (int i, upd_mon i (\<lambda>m. m\<lparr>mon_allocated := True, mon_locked := False, mon_owner := 0, mon_waiters := 0,
             pi_waiter_max := 0, mon_conds := replicate MONITOR_COND_MAX cond0\<rparr>) k))"

definition sys_mon_free :: "int \<Rightarrow> ksync \<Rightarrow> int \<times> ksync" where
  "sys_mon_free mid k =
     (if \<not> mon_valid mid then (-1, k)
      else let m = monitors k ! nat mid in
           if \<not> mon_allocated m \<or> mon_locked m \<or> mon_waiters m > 0 then (-1, k)
           else if list_ex (\<lambda>v. cond_allocated v \<or> cond_waiters v > 0) (mon_conds m) then (-1, k)
           else (0, upd_mon (nat mid) (\<lambda>m. m\<lparr>mon_allocated := False, pi_waiter_max := 0\<rparr>) k))"

definition donor_prio :: "proc \<Rightarrow> int" where
  "donor_prio p = (let d = p_priority p in if p_pi_boost p > d then p_pi_boost p else d)"

text \<open>\<open>i\<close> is the index of the monitor, \<open>cur\<close> that of the caller.\<close>

definition mon_enter_loop :: "sched_cfg \<Rightarrow> nat \<Rightarrow> nat \<Rightarrow> ksync \<Rightarrow> outcome \<times> ksync" where
  "mon_enter_loop c cur i k =
     (let m = monitors k ! i; p = procs k ! cur in
      if mon_locked m then
        (if p_killed p then (Done (-1), k)
         else if deadlock_detect k cur (ChMon i) then (Done (-1), k)
         else
           (let donor = donor_prio p;
                k = (if donor > pi_waiter_max m then upd_mon i (\<lambda>m. m\<lparr>pi_waiter_max := donor\<rparr>) k else k);
                k = (if mon_owner m > 0 then k\<lparr>procs := pi_donate c (mon_owner m) donor (procs k)\<rparr> else k);
                k = upd_mon i (\<lambda>m. m\<lparr>mon_waiters := mon_waiters m + 1\<rparr>) k
            in (Blocked, upd_proc cur (sleep_begin (ChMon i)) k)))
      else (Done 0, upd_mon i (\<lambda>m. m\<lparr>mon_locked := True, mon_owner := p_pid p, pi_waiter_max := 0\<rparr>) k))"

definition sys_mon_enter :: "sched_cfg \<Rightarrow> nat \<Rightarrow> int \<Rightarrow> ksync \<Rightarrow> outcome \<times> ksync" where
  "sys_mon_enter c cur mid k =
     (if \<not> mon_valid mid then (Done (-1), k)
      else let m = monitors k ! nat mid in
           if \<not> mon_allocated m \<or> mon_owner m = p_pid (procs k ! cur) then (Done (-1), k)
           else mon_enter_loop c cur (nat mid) k)"

definition mon_enter_woken :: "sched_cfg \<Rightarrow> nat \<Rightarrow> nat \<Rightarrow> ksync \<Rightarrow> outcome \<times> ksync" where
  "mon_enter_woken c cur i k =
     (let k = upd_proc cur sleep_end k;
          k = upd_mon i (\<lambda>m. m\<lparr>mon_waiters := mon_waiters m - 1\<rparr>) k
      in mon_enter_loop c cur i k)"

definition sys_mon_exit :: "sched_cfg \<Rightarrow> nat \<Rightarrow> int \<Rightarrow> ksync \<Rightarrow> int \<times> ksync" where
  "sys_mon_exit c cur mid k =
     (if \<not> mon_valid mid then (-1, k)
      else
        (let i = nat mid; m = monitors k ! i; pid = p_pid (procs k ! cur) in
         if \<not> mon_allocated m \<or> mon_owner m \<noteq> pid then (-1, k)
         else
           (let k = upd_mon i (\<lambda>m. m\<lparr>mon_locked := False, mon_owner := 0, pi_waiter_max := 0\<rparr>) k;
                k = k\<lparr>procs := wakeupOneProc c (ChMon i) (procs k)\<rparr>
            in (0, pi_recalc pid k))))"

definition monitor_release_one :: "sched_cfg \<Rightarrow> int \<Rightarrow> nat \<Rightarrow> ksync \<Rightarrow> ksync" where
  "monitor_release_one c pid i k =
     (let m = monitors k ! i in
      if mon_allocated m \<and> mon_locked m \<and> mon_owner m = pid
      then (upd_mon i (\<lambda>m. m\<lparr>mon_locked := False, mon_owner := 0, pi_waiter_max := 0\<rparr>) k)
             \<lparr>procs := wakeupOneProc c (ChMon i) (procs k)\<rparr>
      else k)"

definition monitor_release_on_exit :: "sched_cfg \<Rightarrow> nat \<Rightarrow> ksync \<Rightarrow> ksync" where
  "monitor_release_on_exit c cur k =
     (let pid = p_pid (procs k ! cur) in fold (monitor_release_one c pid) [0..<MONITOR_MAX_NUM] k)"

subsection \<open>Condition variables\<close>

abbreviation upd_cond :: "nat \<Rightarrow> nat \<Rightarrow> (condvar \<Rightarrow> condvar) \<Rightarrow> ksync \<Rightarrow> ksync" where
  "upd_cond i j f k \<equiv> upd_mon i (\<lambda>m. m\<lparr>mon_conds := upd_at (mon_conds m) j f\<rparr>) k"

definition cond_valid :: "int \<Rightarrow> int \<Rightarrow> bool" where
  "cond_valid mid cid \<longleftrightarrow> \<not> (mid < 0 \<or> mid \<ge> int MONITOR_MAX_NUM \<or> cid < 0 \<or> cid \<ge> int MONITOR_COND_MAX)"

definition sys_cond_create :: "int \<Rightarrow> ksync \<Rightarrow> int \<times> ksync" where
  "sys_cond_create mid k =
     (if \<not> mon_valid mid then (-1, k)
      else let m = monitors k ! nat mid in
           if \<not> mon_allocated m then (-1, k)
           else case find_idx (\<lambda>v. \<not> cond_allocated v) (mon_conds m) of
                  None \<Rightarrow> (-1, k)
                | Some j \<Rightarrow> (int j, upd_cond (nat mid) j (\<lambda>v. v\<lparr>cond_allocated := True, cond_waiters := 0\<rparr>) k))"

definition sys_cond_free :: "int \<Rightarrow> int \<Rightarrow> ksync \<Rightarrow> int \<times> ksync" where
  "sys_cond_free mid cid k =
     (if \<not> cond_valid mid cid then (-1, k)
      else let m = monitors k ! nat mid; v = mon_conds m ! nat cid in
           if \<not> mon_allocated m \<or> \<not> cond_allocated v \<or> cond_waiters v > 0 then (-1, k)
           else (0, upd_cond (nat mid) (nat cid) (\<lambda>v. v\<lparr>cond_allocated := False\<rparr>) k))"

definition sys_cond_wait :: "sched_cfg \<Rightarrow> nat \<Rightarrow> int \<Rightarrow> int \<Rightarrow> ksync \<Rightarrow> outcome \<times> ksync" where
  "sys_cond_wait c cur mid cid k =
     (if \<not> cond_valid mid cid then (Done (-1), k)
      else
        (let i = nat mid; j = nat cid; m = monitors k ! i in
         if \<not> mon_allocated m \<or> \<not> cond_allocated (mon_conds m ! j) \<or> mon_owner m \<noteq> p_pid (procs k ! cur)
         then (Done (-1), k)
         else
           (let k = upd_cond i j (\<lambda>v. v\<lparr>cond_waiters := cond_waiters v + 1\<rparr>) k;
                k = upd_mon i (\<lambda>m. m\<lparr>mon_locked := False, mon_owner := 0\<rparr>) k;
                k = k\<lparr>procs := wakeupOneProc c (ChMon i) (procs k)\<rparr>
            in (Blocked, upd_proc cur (sleep_begin (ChCond i j)) k))))"

text \<open>The loop that takes the monitor again, and the code after each of the two sleeps.\<close>

definition cond_reacquire :: "nat \<Rightarrow> nat \<Rightarrow> ksync \<Rightarrow> outcome \<times> ksync" where
  "cond_reacquire cur i k =
     (if mon_locked (monitors k ! i)
      then (Blocked, upd_proc cur (sleep_begin (ChMon i))
              (upd_mon i (\<lambda>m. m\<lparr>mon_waiters := mon_waiters m + 1\<rparr>) k))
      else (Done 0, upd_mon i (\<lambda>m. m\<lparr>mon_locked := True, mon_owner := p_pid (procs k ! cur)\<rparr>) k))"

definition cond_wait_woken :: "nat \<Rightarrow> nat \<Rightarrow> nat \<Rightarrow> ksync \<Rightarrow> outcome \<times> ksync" where
  "cond_wait_woken cur i j k =
     (let k = upd_proc cur sleep_end k;
          k = upd_cond i j (\<lambda>v. v\<lparr>cond_waiters := cond_waiters v - 1\<rparr>) k
      in if p_killed (procs k ! cur) then (Done (-1), k) else cond_reacquire cur i k)"

definition cond_reacquire_woken :: "nat \<Rightarrow> nat \<Rightarrow> ksync \<Rightarrow> outcome \<times> ksync" where
  "cond_reacquire_woken cur i k =
     (let k = upd_proc cur sleep_end k;
          k = upd_mon i (\<lambda>m. m\<lparr>mon_waiters := mon_waiters m - 1\<rparr>) k
      in if p_killed (procs k ! cur) then (Done (-1), k) else cond_reacquire cur i k)"

definition sys_cond_signal :: "sched_cfg \<Rightarrow> nat \<Rightarrow> int \<Rightarrow> int \<Rightarrow> ksync \<Rightarrow> int \<times> ksync" where
  "sys_cond_signal c cur mid cid k =
     (if \<not> cond_valid mid cid then (-1, k)
      else let i = nat mid; j = nat cid; m = monitors k ! i; v = mon_conds m ! j in
           if \<not> mon_allocated m \<or> \<not> cond_allocated v \<or> mon_owner m \<noteq> p_pid (procs k ! cur) then (-1, k)
           else (0, if cond_waiters v > 0 then k\<lparr>procs := wakeupOneProc c (ChCond i j) (procs k)\<rparr> else k))"

definition sys_cond_broadcast :: "sched_cfg \<Rightarrow> nat \<Rightarrow> int \<Rightarrow> int \<Rightarrow> ksync \<Rightarrow> int \<times> ksync" where
  "sys_cond_broadcast c cur mid cid k =
     (if \<not> cond_valid mid cid then (-1, k)
      else let i = nat mid; j = nat cid; m = monitors k ! i; v = mon_conds m ! j in
           if \<not> mon_allocated m \<or> \<not> cond_allocated v \<or> mon_owner m \<noteq> p_pid (procs k ! cur) then (-1, k)
           else (0, if cond_waiters v > 0 then k\<lparr>procs := wakeup c (ChCond i j) (procs k)\<rparr> else k))"

subsection \<open>Sleep locks\<close>

abbreviation upd_sl :: "nat \<Rightarrow> (sleeplock \<Rightarrow> sleeplock) \<Rightarrow> ksync \<Rightarrow> ksync" where
  "upd_sl i f k \<equiv> k\<lparr>sleeplocks := upd_at (sleeplocks k) i f\<rparr>"

text \<open>\<^verbatim>\<open>MAX_SLEEPLOCKS\<close> is \<^verbatim>\<open>NINODE + NBUF\<close> \<open>= 80\<close>.\<close>

definition initsleeplock :: "ksync \<Rightarrow> ksync res" where
  "initsleeplock k =
     (if length (sleeplocks k) < 80
      then Inr (k\<lparr>sleeplocks := sleeplocks k @ [\<lparr>sl_locked = False, sl_pid = 0, sl_pi_waiter_max = 0\<rparr>]\<rparr>)
      else Inl (Panic ''sleeplock table overflow''))"

definition acquiresleep :: "sched_cfg \<Rightarrow> nat \<Rightarrow> nat \<Rightarrow> ksync \<Rightarrow> outcome \<times> ksync" where
  "acquiresleep c cur i k =
     (let l = sleeplocks k ! i; p = procs k ! cur in
      if sl_locked l then
        (let donor = donor_prio p;
             k = (if donor > sl_pi_waiter_max l then upd_sl i (\<lambda>l. l\<lparr>sl_pi_waiter_max := donor\<rparr>) k else k);
             k = (if sl_pid l > 0 then k\<lparr>procs := pi_donate c (sl_pid l) donor (procs k)\<rparr> else k)
         in (Blocked, upd_proc cur (sleep_begin (ChSleeplock i)) k))
      else (Done 0, upd_sl i (\<lambda>l. l\<lparr>sl_locked := True, sl_pid := p_pid p, sl_pi_waiter_max := 0\<rparr>) k))"

definition acquiresleep_woken :: "sched_cfg \<Rightarrow> nat \<Rightarrow> nat \<Rightarrow> ksync \<Rightarrow> outcome \<times> ksync" where
  "acquiresleep_woken c cur i k = acquiresleep c cur i (upd_proc cur sleep_end k)"

definition releasesleep :: "sched_cfg \<Rightarrow> nat \<Rightarrow> ksync \<Rightarrow> ksync" where
  "releasesleep c i k =
     (let owner_pid = sl_pid (sleeplocks k ! i);
          k = upd_sl i (\<lambda>l. l\<lparr>sl_locked := False, sl_pid := 0, sl_pi_waiter_max := 0\<rparr>) k;
          k = k\<lparr>procs := wakeup c (ChSleeplock i) (procs k)\<rparr>
      in if owner_pid > 0 then pi_recalc owner_pid k else k)"

definition holdingsleep :: "nat \<Rightarrow> nat \<Rightarrow> ksync \<Rightarrow> bool" where
  "holdingsleep cur i k \<longleftrightarrow> sl_locked (sleeplocks k ! i) \<and> sl_pid (sleeplocks k ! i) = p_pid (procs k ! cur)"

subsection \<open>The interface of a lock\<close>

text \<open>
  What a step does to one lock, seen from outside: a process takes it, a process gives it up, or
  nothing happens to it.
\<close>

datatype lock_event = Take int | Drop int | Silent

text \<open>Mutual exclusion of a sequence of events, with \<open>h\<close> the holder at its start.\<close>

fun exclusive :: "int option \<Rightarrow> lock_event list \<Rightarrow> bool" where
  "exclusive h [] = True"
| "exclusive None (Take p # es) = exclusive (Some p) es"
| "exclusive (Some q) (Take p # es) = False"
| "exclusive (Some q) (Drop p # es) = (p = q \<and> exclusive None es)"
| "exclusive None (Drop p # es) = False"
| "exclusive h (Silent # es) = exclusive h es"

fun holder_after :: "int option \<Rightarrow> lock_event list \<Rightarrow> int option" where
  "holder_after h [] = h"
| "holder_after h (Take p # es) = holder_after (Some p) es"
| "holder_after h (Drop p # es) = holder_after None es"
| "holder_after h (Silent # es) = holder_after h es"

inductive lock_run :: "('s \<Rightarrow> lock_event \<Rightarrow> 's \<Rightarrow> bool) \<Rightarrow> 's \<Rightarrow> lock_event list \<Rightarrow> 's \<Rightarrow> bool" for ev where
  stop: "lock_run ev s [] s"
| step: "ev s e s1 \<Longrightarrow> lock_run ev s1 es s' \<Longrightarrow> lock_run ev s (e # es) s'"

locale mutex =
  fixes ev :: "'s \<Rightarrow> lock_event \<Rightarrow> 's \<Rightarrow> bool" and holder :: "'s \<Rightarrow> int option" and ok :: "'s \<Rightarrow> bool"
  assumes take_free: "ok s \<Longrightarrow> ev s (Take p) s' \<Longrightarrow> holder s = None \<and> holder s' = Some p"
    and drop_own: "ok s \<Longrightarrow> ev s (Drop p) s' \<Longrightarrow> holder s = Some p \<and> holder s' = None"
    and silent_same: "ok s \<Longrightarrow> ev s Silent s' \<Longrightarrow> holder s' = holder s"
    and ok_step: "ok s \<Longrightarrow> ev s e s' \<Longrightarrow> ok s'"
begin

lemma run_exclusive:
  "lock_run ev s es s' \<Longrightarrow> ok s \<Longrightarrow> exclusive (holder s) es \<and> holder s' = holder_after (holder s) es"
proof (induction rule: lock_run.induct)
  case (step s e s1 es s')
  then have ok1: "ok s1" by (blast intro: ok_step)
  with step have IH: "exclusive (holder s1) es \<and> holder s' = holder_after (holder s1) es" by blast
  show ?case
  proof (cases e)
    case (Take p)
    with take_free [OF step.prems] step.hyps(1) IH show ?thesis by auto
  next
    case (Drop p)
    with drop_own [OF step.prems] step.hyps(1) IH show ?thesis by auto
  next
    case Silent
    with silent_same [OF step.prems] step.hyps(1) IH show ?thesis by auto
  qed
qed simp

end

subsection \<open>Monitors are locks\<close>

text \<open>
  The steps of the system as monitor \<open>i\<close> sees them. A process that waits inside a monitor keeps
  it from being freed (\<^verbatim>\<open>sys_mon_free\<close> refuses while \<^verbatim>\<open>waiters\<close> counts are positive),
  so the code after a sleep runs on an allocated monitor. Any change of the process table is
  allowed in between.
\<close>

abbreviation pid_of :: "ksync \<Rightarrow> nat \<Rightarrow> int" where
  "pid_of k cur \<equiv> p_pid (procs k ! cur)"

inductive mon_ev :: "sched_cfg \<Rightarrow> nat \<Rightarrow> ksync \<Rightarrow> lock_event \<Rightarrow> ksync \<Rightarrow> bool" for c i where
  create: "mon_ev c i k Silent (snd (sys_mon_create k))"
| free: "mon_ev c i k Silent (snd (sys_mon_free mid k))"
| enter: "0 < pid_of k cur \<Longrightarrow> sys_mon_enter c cur mid k = (r, k') \<Longrightarrow>
    mon_ev c i k (if r = Done 0 \<and> nat mid = i then Take (pid_of k cur) else Silent) k'"
| enter_woken: "0 < pid_of k cur \<Longrightarrow> j < MONITOR_MAX_NUM \<Longrightarrow> mon_allocated (monitors k ! j) \<Longrightarrow>
    mon_enter_woken c cur j k = (r, k') \<Longrightarrow>
    mon_ev c i k (if r = Done 0 \<and> j = i then Take (pid_of k cur) else Silent) k'"
| exit: "0 < pid_of k cur \<Longrightarrow> sys_mon_exit c cur mid k = (r, k') \<Longrightarrow>
    mon_ev c i k (if r = 0 \<and> nat mid = i then Drop (pid_of k cur) else Silent) k'"
| die: "0 < pid_of k cur \<Longrightarrow>
    mon_ev c i k (if mon_allocated (monitors k ! i) \<and> mon_locked (monitors k ! i) \<and> mon_owner (monitors k ! i) = pid_of k cur
                  then Drop (pid_of k cur) else Silent) (monitor_release_on_exit c cur k)"
| cond_create: "mon_ev c i k Silent (snd (sys_cond_create mid k))"
| cond_free: "mon_ev c i k Silent (snd (sys_cond_free mid cid k))"
| cond_wait: "0 < pid_of k cur \<Longrightarrow> sys_cond_wait c cur mid cid k = (r, k') \<Longrightarrow>
    mon_ev c i k (if r = Blocked \<and> nat mid = i then Drop (pid_of k cur) else Silent) k'"
| cond_woken: "0 < pid_of k cur \<Longrightarrow> j < MONITOR_MAX_NUM \<Longrightarrow> mon_allocated (monitors k ! j) \<Longrightarrow>
    cond_wait_woken cur j l k = (r, k') \<Longrightarrow>
    mon_ev c i k (if r = Done 0 \<and> j = i then Take (pid_of k cur) else Silent) k'"
| reacquire_woken: "0 < pid_of k cur \<Longrightarrow> j < MONITOR_MAX_NUM \<Longrightarrow> mon_allocated (monitors k ! j) \<Longrightarrow>
    cond_reacquire_woken cur j k = (r, k') \<Longrightarrow>
    mon_ev c i k (if r = Done 0 \<and> j = i then Take (pid_of k cur) else Silent) k'"
| signal: "mon_ev c i k Silent (snd (sys_cond_signal c cur mid cid k))"
| broadcast: "mon_ev c i k Silent (snd (sys_cond_broadcast c cur mid cid k))"
| other: "mon_ev c i k Silent (k\<lparr>procs := qs\<rparr>)"

definition mon_holder :: "nat \<Rightarrow> ksync \<Rightarrow> int option" where
  "mon_holder i k = (if mon_locked (monitors k ! i) then Some (mon_owner (monitors k ! i)) else None)"

definition mon_ok :: "monitor \<Rightarrow> bool" where
  "mon_ok m \<longleftrightarrow> (mon_locked m \<longrightarrow> mon_allocated m) \<and> (\<not> mon_locked m \<longrightarrow> mon_owner m = 0)"

definition mons_ok :: "ksync \<Rightarrow> bool" where
  "mons_ok k \<longleftrightarrow> length (monitors k) = MONITOR_MAX_NUM \<and> (\<forall>m \<in> set (monitors k). mon_ok m)"

lemma mon_holder_iff:
  "mon_holder i k = None \<longleftrightarrow> \<not> mon_locked (monitors k ! i)"
  "mon_holder i k = Some p \<longleftrightarrow> mon_locked (monitors k ! i) \<and> mon_owner (monitors k ! i) = p"
  by (auto simp: mon_holder_def)

text \<open>The lock part of a monitor, which is all that the interface sees.\<close>

definition mon_core :: "monitor \<Rightarrow> bool \<times> bool \<times> int" where
  "mon_core m = (mon_allocated m, mon_locked m, mon_owner m)"

lemma mon_core_iff:
  "mon_core m = mon_core m' \<longleftrightarrow>
     mon_allocated m = mon_allocated m' \<and> mon_locked m = mon_locked m' \<and> mon_owner m = mon_owner m'"
  by (simp add: mon_core_def)

lemma mon_core_simps [simp]:
  "mon_core (m\<lparr>mon_waiters := x\<rparr>) = mon_core m" "mon_core (m\<lparr>pi_waiter_max := y\<rparr>) = mon_core m"
  "mon_core (m\<lparr>mon_conds := z\<rparr>) = mon_core m"
  by (simp_all add: mon_core_def)

lemma map_core_id [simp]: "(map f xs)[i := f (xs ! i)] = map f xs"
  by (cases "i < length xs") (simp_all add: list_update_same_conv list_update_beyond)

lemma monitors_pi_recalc [simp]: "monitors (pi_recalc pid k) = monitors k"
  by (simp add: pi_recalc_def Let_def split: option.splits)

lemma monitors_upd_proc [simp]: "monitors (k\<lparr>procs := ps\<rparr>) = monitors k"
  by simp

text \<open>
  Effect of a step on the lock parts: they all stay, or one monitor \<open>j\<close> is taken from free, is
  given up by its owner, or (in create and free) changes its allocation while unlocked.
\<close>

definition core_same :: "ksync \<Rightarrow> ksync \<Rightarrow> bool" where
  "core_same k k' \<longleftrightarrow> map mon_core (monitors k') = map mon_core (monitors k)"

definition core_set :: "ksync \<Rightarrow> nat \<Rightarrow> bool \<times> bool \<times> int \<Rightarrow> ksync \<Rightarrow> bool" where
  "core_set k j x k' \<longleftrightarrow> j < length (monitors k) \<and>
     map mon_core (monitors k') = (map mon_core (monitors k))[j := x]"

lemma core_same_refl [simp]: "core_same k k" "core_same k (k\<lparr>procs := ps\<rparr>)"
  by (simp_all add: core_same_def)

lemma core_same_upd:
  "j < length (monitors k) \<Longrightarrow> mon_core m = mon_core (monitors k ! j) \<Longrightarrow>
    core_same k (k\<lparr>monitors := (monitors k)[j := m]\<rparr>)"
  by (simp add: core_same_def map_update list_update_same_conv)

lemma core_same_nth:
  "core_same k k' \<Longrightarrow> j < length (monitors k) \<Longrightarrow> mon_core (monitors k' ! j) = mon_core (monitors k ! j)"
  unfolding core_same_def by (metis length_map nth_map)

lemma core_same_holder: "core_same k k' \<Longrightarrow> i < length (monitors k) \<Longrightarrow> mon_holder i k' = mon_holder i k"
  using core_same_nth [of k k' i] by (simp add: mon_holder_def mon_core_iff)

lemma core_set_nth:
  "core_set k j x k' \<Longrightarrow> i < length (monitors k) \<Longrightarrow>
    mon_core (monitors k' ! i) = (if i = j then x else mon_core (monitors k ! i))"
  unfolding core_set_def by (metis length_list_update length_map nth_list_update nth_map)

lemma length_core: "core_same k k' \<Longrightarrow> length (monitors k') = length (monitors k)"
  "core_set k j x k' \<Longrightarrow> length (monitors k') = length (monitors k)"
  unfolding core_same_def core_set_def by (metis length_map length_list_update)+

lemma mons_ok_nth: "mons_ok k \<longleftrightarrow> length (monitors k) = MONITOR_MAX_NUM \<and> (\<forall>i < MONITOR_MAX_NUM. mon_ok (monitors k ! i))"
  by (auto simp: mons_ok_def all_set_conv_all_nth)

lemma mon_ok_core: "mon_core m = (a, l, w) \<Longrightarrow> mon_ok m \<longleftrightarrow> (l \<longrightarrow> a) \<and> (\<not> l \<longrightarrow> w = 0)"
  by (auto simp: mon_ok_def mon_core_def)

lemma core_same_ok: "core_same k k' \<Longrightarrow> mons_ok k \<Longrightarrow> mons_ok k'"
  using core_same_nth [of k k'] length_core(1) [of k k'] by (auto simp: mons_ok_nth mon_ok_def mon_core_iff)

lemma core_set_ok:
  assumes "core_set k j (a, l, w) k'" "mons_ok k" "l \<longrightarrow> a" "\<not> l \<longrightarrow> w = 0"
  shows "mons_ok k'"
proof -
  have "mon_ok (monitors k' ! i)" if "i < 16" for i
    using core_set_nth [OF assms(1), of i] assms(2-4) that
    by (cases "i = j") (auto simp: mons_ok_nth mon_ok_def mon_core_def)
  with assms(1,2) length_core(2) [OF assms(1)] show ?thesis by (simp add: mons_ok_nth)
qed

lemma core_set_holder:
  assumes "core_set k j (a, l, w) k'" "i < length (monitors k)"
  shows "mon_holder i k' = (if i = j then (if l then Some w else None) else mon_holder i k)"
  using core_set_nth [OF assms] by (cases "i = j") (auto simp: mon_holder_def mon_core_def)

lemma core_set_upd:
  "j < length (monitors k) \<Longrightarrow> mon_core m = x \<Longrightarrow> core_set k j x (k\<lparr>monitors := (monitors k)[j := m]\<rparr>)"
  by (auto simp: core_set_def map_update)

lemma core_set_same: "core_same k k1 \<Longrightarrow> core_set k1 j x k2 \<Longrightarrow> core_set k j x k2"
  using length_core(1) [of k k1] by (simp add: core_same_def core_set_def)

lemma core_set_then: "core_set k j x k1 \<Longrightarrow> monitors k2 = monitors k1 \<Longrightarrow> core_set k j x k2"
  by (simp add: core_set_def)

lemma core_same_trans: "core_same k k1 \<Longrightarrow> core_same k1 k2 \<Longrightarrow> core_same k k2"
  by (simp add: core_same_def)

text \<open>Taking the monitor, shared by the ways into it.\<close>

definition takes :: "nat \<Rightarrow> int \<Rightarrow> ksync \<Rightarrow> outcome \<Rightarrow> ksync \<Rightarrow> bool" where
  "takes j pid k r k' \<longleftrightarrow>
     (if r = Done 0 then \<not> mon_locked (monitors k ! j) \<and> core_set k j (True, True, pid) k' else core_same k k')"

lemma mon_enter_loop_takes:
  assumes j: "j < length (monitors k)" "mon_allocated (monitors k ! j)" and r: "mon_enter_loop c cur j k = (r, k')"
  shows "takes j (pid_of k cur) k r k'"
proof (cases "mon_locked (monitors k ! j)")
  case True
  have "map mon_core (monitors (snd (mon_enter_loop c cur j k))) = map mon_core (monitors k)"
    using True j(1) by (simp add: mon_enter_loop_def Let_def map_update)
  then have "core_same k k'" by (simp add: r core_same_def)
  moreover have "r \<noteq> Done 0" using r True by (auto simp: mon_enter_loop_def Let_def split: if_splits)
  ultimately show ?thesis by (simp add: takes_def)
next
  case False
  with r have "r = Done 0" "k' = upd_mon j (\<lambda>m. m\<lparr>mon_locked := True, mon_owner := pid_of k cur, pi_waiter_max := 0\<rparr>) k"
    by (auto simp: mon_enter_loop_def)
  then show ?thesis
    using False j by (simp add: takes_def core_set_upd mon_core_def)
qed

lemma cond_reacquire_takes:
  assumes j: "j < length (monitors k)" "mon_allocated (monitors k ! j)" and r: "cond_reacquire cur j k = (r, k')"
  shows "takes j (pid_of k cur) k r k'"
proof (cases "mon_locked (monitors k ! j)")
  case True
  with r j show ?thesis
    by (auto simp: cond_reacquire_def takes_def core_same_def map_update)
next
  case False
  with r have "r = Done 0" "k' = upd_mon j (\<lambda>m. m\<lparr>mon_locked := True, mon_owner := pid_of k cur\<rparr>) k"
    by (auto simp: cond_reacquire_def)
  then show ?thesis
    using False j by (simp add: takes_def core_set_upd mon_core_def)
qed

lemma takes_after:
  assumes "core_same k k1" "takes j pid k1 r k'" "j < length (monitors k)"
  shows "takes j pid k r k'"
  using assms core_same_nth [OF assms(1,3)]
  by (auto simp: takes_def mon_core_iff intro: core_set_same core_same_trans)

lemma sleep_end_keeps [simp]: "p_pid (upd_at ps cur sleep_end ! i) = p_pid (ps ! i)"
  "p_killed (upd_at ps cur sleep_end ! i) = p_killed (ps ! i)"
  by (rule field_upd_at, simp add: sleep_end_def)+

lemma enter_woken_takes:
  assumes j: "j < length (monitors k)" "mon_allocated (monitors k ! j)" and r: "mon_enter_woken c cur j k = (r, k')"
  shows "takes j (pid_of k cur) k r k'"
proof -
  let ?k = "upd_mon j (\<lambda>m. m\<lparr>mon_waiters := mon_waiters m - 1\<rparr>) (upd_proc cur sleep_end k)"
  have same: "core_same k ?k" using j by (simp add: core_same_def map_update)
  from r have "mon_enter_loop c cur j ?k = (r, k')" by (simp add: mon_enter_woken_def Let_def)
  from mon_enter_loop_takes [OF _ _ this] j have "takes j (pid_of k cur) ?k r k'" by simp
  from takes_after [OF same this j(1)] show ?thesis .
qed

lemma cond_wait_woken_takes:
  assumes j: "j < length (monitors k)" "mon_allocated (monitors k ! j)" and r: "cond_wait_woken cur j l k = (r, k')"
  shows "takes j (pid_of k cur) k r k'"
proof -
  let ?k = "upd_cond j l (\<lambda>v. v\<lparr>cond_waiters := cond_waiters v - 1\<rparr>) (upd_proc cur sleep_end k)"
  have same: "core_same k ?k" using j by (simp add: core_same_def map_update)
  show ?thesis
  proof (cases "p_killed (procs k ! cur)")
    case True
    with r have "r = Done (-1)" "k' = ?k" by (simp_all add: cond_wait_woken_def Let_def)
    with same show ?thesis by (simp add: takes_def)
  next
    case False
    with r have "cond_reacquire cur j ?k = (r, k')" by (simp add: cond_wait_woken_def Let_def)
    from cond_reacquire_takes [OF _ _ this] j have "takes j (pid_of k cur) ?k r k'" by simp
    from takes_after [OF same this j(1)] show ?thesis .
  qed
qed

lemma cond_reacquire_woken_takes:
  assumes j: "j < length (monitors k)" "mon_allocated (monitors k ! j)" and r: "cond_reacquire_woken cur j k = (r, k')"
  shows "takes j (pid_of k cur) k r k'"
proof -
  let ?k = "upd_mon j (\<lambda>m. m\<lparr>mon_waiters := mon_waiters m - 1\<rparr>) (upd_proc cur sleep_end k)"
  have same: "core_same k ?k" using j by (simp add: core_same_def map_update)
  show ?thesis
  proof (cases "p_killed (procs k ! cur)")
    case True
    with r have "r = Done (-1)" "k' = ?k" by (simp_all add: cond_reacquire_woken_def Let_def)
    with same show ?thesis by (simp add: takes_def)
  next
    case False
    with r have "cond_reacquire cur j ?k = (r, k')" by (simp add: cond_reacquire_woken_def Let_def)
    from cond_reacquire_takes [OF _ _ this] j have "takes j (pid_of k cur) ?k r k'" by simp
    from takes_after [OF same this j(1)] show ?thesis .
  qed
qed

lemma sys_mon_enter_takes:
  assumes "length (monitors k) = MONITOR_MAX_NUM" "sys_mon_enter c cur mid k = (r, k')"
  shows "takes (nat mid) (pid_of k cur) k r k'"
proof (cases "mon_valid mid \<and> mon_allocated (monitors k ! nat mid) \<and> mon_owner (monitors k ! nat mid) \<noteq> pid_of k cur")
  case True
  with assms have "mon_enter_loop c cur (nat mid) k = (r, k')" by (auto simp: sys_mon_enter_def Let_def)
  moreover have "nat mid < length (monitors k)" using True assms(1) by (auto simp: mon_valid_def)
  ultimately show ?thesis using True mon_enter_loop_takes by blast
next
  case False
  with assms(2) have "r = Done (-1)" "k' = k" by (auto simp: sys_mon_enter_def Let_def split: if_splits)
  then show ?thesis by (simp add: takes_def)
qed

definition drops :: "nat \<Rightarrow> int \<Rightarrow> ksync \<Rightarrow> bool \<Rightarrow> ksync \<Rightarrow> bool" where
  "drops j pid k done k' \<longleftrightarrow>
     (if done then mon_locked (monitors k ! j) \<and> mon_owner (monitors k ! j) = pid \<and> core_set k j (True, False, 0) k'
      else core_same k k')"

lemma mon_exit_drops:
  assumes ok: "mons_ok k" and pid: "0 < pid_of k cur" and r: "sys_mon_exit c cur mid k = (r, k')"
  shows "drops (nat mid) (pid_of k cur) k (r = 0) k'"
proof (cases "mon_valid mid \<and> mon_allocated (monitors k ! nat mid) \<and> mon_owner (monitors k ! nat mid) = pid_of k cur")
  case True
  then have j: "nat mid < length (monitors k)" using ok by (auto simp: mon_valid_def mons_ok_def)
  then have "mon_ok (monitors k ! nat mid)" using ok by (simp add: mons_ok_def)
  with True pid have "mon_locked (monitors k ! nat mid)" by (auto simp: mon_ok_def)
  moreover have "r = 0" "monitors k' = monitors (upd_mon (nat mid)
      (\<lambda>m. m\<lparr>mon_locked := False, mon_owner := 0, pi_waiter_max := 0\<rparr>) k)"
    using r True by (auto simp: sys_mon_exit_def Let_def)
  ultimately show ?thesis
    using True j by (auto simp: drops_def core_set_def map_update mon_core_def)
next
  case False
  with r have "r = -1" "k' = k" by (auto simp: sys_mon_exit_def Let_def split: if_splits)
  then show ?thesis by (simp add: drops_def)
qed

lemma cond_wait_drops:
  assumes ok: "mons_ok k" and pid: "0 < pid_of k cur" and r: "sys_cond_wait c cur mid cid k = (r, k')"
  shows "drops (nat mid) (pid_of k cur) k (r = Blocked) k'"
proof (cases "cond_valid mid cid \<and> mon_allocated (monitors k ! nat mid) \<and>
    cond_allocated (mon_conds (monitors k ! nat mid) ! nat cid) \<and> mon_owner (monitors k ! nat mid) = pid_of k cur")
  case True
  then have j: "nat mid < length (monitors k)" using ok by (auto simp: cond_valid_def mons_ok_def)
  then have "mon_ok (monitors k ! nat mid)" using ok by (simp add: mons_ok_def)
  with True pid have "mon_locked (monitors k ! nat mid)" by (auto simp: mon_ok_def)
  moreover have "r = Blocked" "map mon_core (monitors k') = (map mon_core (monitors k))[nat mid := (True, False, 0)]"
    using r True j by (auto simp: sys_cond_wait_def Let_def map_update mon_core_def)
  ultimately show ?thesis using True j by (auto simp: drops_def core_set_def)
next
  case False
  with r have "r = Done (-1)" "k' = k" by (auto simp: sys_cond_wait_def Let_def split: if_splits)
  then show ?thesis by (simp add: drops_def)
qed

text \<open>A dying process gives up all its monitors.\<close>

definition die_core :: "int \<Rightarrow> bool \<times> bool \<times> int \<Rightarrow> bool \<times> bool \<times> int" where
  "die_core pid x = (let (a, l, w) = x in if a \<and> l \<and> w = pid then (True, False, 0) else x)"

lemma release_fold_core:
  assumes "distinct js" "\<forall>j \<in> set js. j < length (monitors k)"
  shows "length (monitors (fold (monitor_release_one c pid) js k)) = length (monitors k) \<and>
    (\<forall>i < length (monitors k). mon_core (monitors (fold (monitor_release_one c pid) js k) ! i) =
       (if i \<in> set js then die_core pid (mon_core (monitors k ! i)) else mon_core (monitors k ! i)))"
  using assms(1,2)
proof (induction js arbitrary: k)
  case (Cons j js)
  have len: "length (monitors (monitor_release_one c pid j k)) = length (monitors k)" by (simp add: monitor_release_one_def Let_def)
  have nth: "mon_core (monitors (monitor_release_one c pid j k) ! i) =
      (if i = j then die_core pid (mon_core (monitors k ! i)) else mon_core (monitors k ! i))"
    if "i < length (monitors k)" for i
    using that by (auto simp: monitor_release_one_def Let_def nth_list_update die_core_def mon_core_def)
  have "length (monitors (fold (monitor_release_one c pid) js (monitor_release_one c pid j k))) = length (monitors (monitor_release_one c pid j k)) \<and>
    (\<forall>i < length (monitors (monitor_release_one c pid j k)). mon_core (monitors (fold (monitor_release_one c pid) js (monitor_release_one c pid j k)) ! i) =
       (if i \<in> set js then die_core pid (mon_core (monitors (monitor_release_one c pid j k) ! i)) else mon_core (monitors (monitor_release_one c pid j k) ! i)))"
    by (rule Cons.IH) (use Cons.prems len in auto)
  with len nth Cons.prems(1) show ?case by auto
qed simp

lemma release_on_exit_core:
  assumes "length (monitors k) = MONITOR_MAX_NUM"
  shows "length (monitors (monitor_release_on_exit c cur k)) = MONITOR_MAX_NUM"
    "\<And>i. i < MONITOR_MAX_NUM \<Longrightarrow> mon_core (monitors (monitor_release_on_exit c cur k) ! i) =
       die_core (pid_of k cur) (mon_core (monitors k ! i))"
  using release_fold_core [of "[0..<16]" k c "pid_of k cur"] assms
  by (simp_all add: monitor_release_on_exit_def Let_def)

lemma create_core:
  assumes "mons_ok k"
  shows "core_same k (snd (sys_mon_create k)) \<or>
    (\<exists>j. \<not> mon_locked (monitors k ! j) \<and> core_set k j (True, False, 0) (snd (sys_mon_create k)))"
proof (cases "find_idx (\<lambda>m. \<not> mon_allocated m) (monitors k)")
  case None
  then show ?thesis by (simp add: sys_mon_create_def)
next
  case (Some j)
  note f = find_idx_SomeD [OF Some]
  with assms have "\<not> mon_locked (monitors k ! j)" by (auto simp: mons_ok_def mon_ok_def)
  moreover have "core_set k j (True, False, 0) (snd (sys_mon_create k))"
    using f Some by (simp add: sys_mon_create_def core_set_upd mon_core_def)
  ultimately show ?thesis by blast
qed

lemma free_core:
  assumes "mons_ok k"
  shows "core_same k (snd (sys_mon_free mid k)) \<or>
    (\<exists>j. \<not> mon_locked (monitors k ! j) \<and> core_set k j (False, False, 0) (snd (sys_mon_free mid k)))"
proof (cases "fst (sys_mon_free mid k) = 0")
  case True
  then have v: "mon_valid mid" "\<not> mon_locked (monitors k ! nat mid)"
    and k': "snd (sys_mon_free mid k) = upd_mon (nat mid) (\<lambda>m. m\<lparr>mon_allocated := False, pi_waiter_max := 0\<rparr>) k"
    by (auto simp: sys_mon_free_def Let_def split: if_splits)
  have j: "nat mid < length (monitors k)" using v(1) assms by (auto simp: mon_valid_def mons_ok_def)
  then have "mon_owner (monitors k ! nat mid) = 0" using assms v(2) by (auto simp: mons_ok_def mon_ok_def)
  with j v(2) have "core_set k (nat mid) (False, False, 0) (snd (sys_mon_free mid k))"
    unfolding k' by (intro core_set_upd) (simp_all add: mon_core_def)
  with v(2) show ?thesis by blast
next
  case False
  then have "snd (sys_mon_free mid k) = k" by (auto simp: sys_mon_free_def Let_def)
  then show ?thesis by simp
qed

lemma cond_ops_core:
  assumes "length (monitors k) = MONITOR_MAX_NUM"
  shows "core_same k (snd (sys_cond_create mid k))" "core_same k (snd (sys_cond_free mid cid k))"
    "core_same k (snd (sys_cond_signal c cur mid cid k))" "core_same k (snd (sys_cond_broadcast c cur mid cid k))"
  using assms
  by (auto simp: sys_cond_create_def sys_cond_free_def sys_cond_signal_def sys_cond_broadcast_def Let_def
      mon_valid_def cond_valid_def mon_core_def split: option.splits intro!: core_same_upd)

text \<open>Everything the interface needs, in one place.\<close>

lemma core_set_mutex:
  assumes "core_set k j (a, l, w) k'" "mons_ok k" "i < MONITOR_MAX_NUM" "l \<longrightarrow> a" "\<not> l \<longrightarrow> w = 0"
  shows "mons_ok k'" "mon_holder i k' = (if i = j then (if l then Some w else None) else mon_holder i k)"
  using core_set_ok [OF assms(1,2,4,5)] core_set_holder [OF assms(1), of i] assms(2,3)
  by (simp_all add: mons_ok_def)

lemma core_same_mutex:
  assumes "core_same k k'" "mons_ok k" "i < MONITOR_MAX_NUM"
  shows "mons_ok k'" "mon_holder i k' = mon_holder i k"
  using core_same_ok [OF assms(1,2)] core_same_holder [OF assms(1), of i] assms(2,3)
  by (simp_all add: mons_ok_def)

lemma takes_mutex:
  assumes "takes j pid k r k'" "mons_ok k" "i < MONITOR_MAX_NUM"
  shows "mons_ok k'"
    "r = Done 0 \<and> j = i \<Longrightarrow> mon_holder i k = None \<and> mon_holder i k' = Some pid"
    "\<not> (r = Done 0 \<and> j = i) \<Longrightarrow> mon_holder i k' = mon_holder i k"
proof (atomize (full), cases "r = Done 0")
  case True
  with assms(1) have t: "\<not> mon_locked (monitors k ! j)" "core_set k j (True, True, pid) k'"
    by (simp_all add: takes_def)
  from core_set_mutex [OF t(2) assms(2,3)] t(1) True
  show "mons_ok k' \<and> (r = Done 0 \<and> j = i \<longrightarrow> mon_holder i k = None \<and> mon_holder i k' = Some pid) \<and>
    (\<not> (r = Done 0 \<and> j = i) \<longrightarrow> mon_holder i k' = mon_holder i k)"
    by (auto simp: mon_holder_iff(1))
next
  case False
  with assms(1) have "core_same k k'" by (simp add: takes_def)
  from core_same_mutex [OF this assms(2,3)] False
  show "mons_ok k' \<and> (r = Done 0 \<and> j = i \<longrightarrow> mon_holder i k = None \<and> mon_holder i k' = Some pid) \<and>
    (\<not> (r = Done 0 \<and> j = i) \<longrightarrow> mon_holder i k' = mon_holder i k)"
    by simp
qed

lemma drops_mutex:
  assumes "drops j pid k d k'" "mons_ok k" "i < MONITOR_MAX_NUM"
  shows "mons_ok k'"
    "d \<and> j = i \<Longrightarrow> mon_holder i k = Some pid \<and> mon_holder i k' = None"
    "\<not> (d \<and> j = i) \<Longrightarrow> mon_holder i k' = mon_holder i k"
proof (atomize (full), cases d)
  case True
  with assms(1) have t: "mon_locked (monitors k ! j)" "mon_owner (monitors k ! j) = pid"
      "core_set k j (True, False, 0) k'"
    by (simp_all add: drops_def)
  from core_set_mutex [OF t(3) assms(2,3)] t(1,2) True
  show "mons_ok k' \<and> (d \<and> j = i \<longrightarrow> mon_holder i k = Some pid \<and> mon_holder i k' = None) \<and>
    (\<not> (d \<and> j = i) \<longrightarrow> mon_holder i k' = mon_holder i k)"
    by (auto simp: mon_holder_iff(2))
next
  case False
  with assms(1) have "core_same k k'" by (simp add: drops_def)
  from core_same_mutex [OF this assms(2,3)] False
  show "mons_ok k' \<and> (d \<and> j = i \<longrightarrow> mon_holder i k = Some pid \<and> mon_holder i k' = None) \<and>
    (\<not> (d \<and> j = i) \<longrightarrow> mon_holder i k' = mon_holder i k)"
    by simp
qed

lemma quiet_mutex:
  assumes q: "core_same k k' \<or> (\<exists>j. \<not> mon_locked (monitors k ! j) \<and> core_set k j (a, False, 0) k')"
    and "mons_ok k" "i < MONITOR_MAX_NUM"
  shows "mons_ok k' \<and> mon_holder i k' = mon_holder i k"
  using q
proof
  assume "core_same k k'"
  from core_same_mutex [OF this assms(2,3)] show ?thesis by blast
next
  assume "\<exists>j. \<not> mon_locked (monitors k ! j) \<and> core_set k j (a, False, 0) k'"
  then obtain j where j: "\<not> mon_locked (monitors k ! j)" "core_set k j (a, False, 0) k'" by blast
  from core_set_mutex [OF j(2) assms(2,3)] j(1) show ?thesis
    using mon_holder_iff(1) [of i k] by auto
qed

lemma die_mutex:
  fixes c cur
  assumes "mons_ok k" "i < MONITOR_MAX_NUM"
  defines "k' \<equiv> monitor_release_on_exit c cur k"
  defines "own \<equiv> mon_allocated (monitors k ! i) \<and> mon_locked (monitors k ! i) \<and> mon_owner (monitors k ! i) = pid_of k cur"
  shows "mons_ok k'"
    "own \<Longrightarrow> mon_holder i k = Some (pid_of k cur) \<and> mon_holder i k' = None"
    "\<not> own \<Longrightarrow> mon_holder i k' = mon_holder i k"
proof -
  have len: "length (monitors k) = 16" using assms(1) by (simp add: mons_ok_def)
  note core = release_on_exit_core [OF len, where c = c and cur = cur, folded k'_def]
  have "mon_ok (monitors k' ! j)" if "j < 16" for j
    using core(2) [OF that] assms(1) that
    by (auto simp: mons_ok_nth die_core_def mon_core_def mon_ok_def split: if_splits)
  with core(1) show "mons_ok k'" by (simp add: mons_ok_nth)
  have own_ok: "mon_ok (monitors k ! i)" using assms(1,2) by (simp add: mons_ok_nth)
  show "own \<Longrightarrow> mon_holder i k = Some (pid_of k cur) \<and> mon_holder i k' = None"
    using core(2) [OF assms(2)] by (auto simp: own_def mon_holder_def die_core_def mon_core_def)
  show "\<not> own \<Longrightarrow> mon_holder i k' = mon_holder i k"
    using core(2) [OF assms(2)] own_ok
    by (auto simp: own_def mon_holder_def die_core_def mon_core_def mon_ok_def split: if_splits)
qed

lemma mon_ev_mutex:
  assumes "mon_ev c i k e k'" "mons_ok k" "i < MONITOR_MAX_NUM"
  shows "mons_ok k' \<and>
    (case e of
       Take p \<Rightarrow> mon_holder i k = None \<and> mon_holder i k' = Some p
     | Drop p \<Rightarrow> mon_holder i k = Some p \<and> mon_holder i k' = None
     | Silent \<Rightarrow> mon_holder i k' = mon_holder i k)"
proof -
  have len: "length (monitors k) = 16" using assms(2) by (simp add: mons_ok_def)
  from assms(1) show ?thesis
  proof cases
    case create
    with quiet_mutex [OF create_core [OF assms(2)] assms(2,3)] show ?thesis by simp
  next
    case free
    with quiet_mutex [OF free_core [OF assms(2)] assms(2,3)] show ?thesis by simp
  next
    case (enter cur mid r)
    from takes_mutex [OF sys_mon_enter_takes [OF len enter(3)] assms(2,3)] enter(1) show ?thesis by simp
  next
    case (enter_woken cur j r)
    from takes_mutex [OF enter_woken_takes [OF _ enter_woken(4,5)] assms(2,3)] enter_woken(1,3) len
    show ?thesis by simp
  next
    case (exit cur mid r)
    from drops_mutex [OF mon_exit_drops [OF assms(2) exit(2,3)] assms(2,3)] exit(1) show ?thesis by simp
  next
    case (die cur)
    with die_mutex [OF assms(2,3), where c = c and cur = cur] show ?thesis by simp
  next
    case cond_create
    with quiet_mutex [OF disjI1 [OF cond_ops_core(1) [OF len]] assms(2,3)] show ?thesis by simp
  next
    case cond_free
    with quiet_mutex [OF disjI1 [OF cond_ops_core(2) [OF len]] assms(2,3)] show ?thesis by simp
  next
    case (cond_wait cur mid cid r)
    from drops_mutex [OF cond_wait_drops [OF assms(2) cond_wait(2,3)] assms(2,3)] cond_wait(1) show ?thesis by simp
  next
    case (cond_woken cur j l r)
    from takes_mutex [OF cond_wait_woken_takes [OF _ cond_woken(4,5)] assms(2,3)] cond_woken(1,3) len
    show ?thesis by simp
  next
    case (reacquire_woken cur j r)
    from takes_mutex [OF cond_reacquire_woken_takes [OF _ reacquire_woken(4,5)] assms(2,3)] reacquire_woken(1,3) len
    show ?thesis by simp
  next
    case signal
    with quiet_mutex [OF disjI1 [OF cond_ops_core(3) [OF len]] assms(2,3)] show ?thesis by simp
  next
    case broadcast
    with quiet_mutex [OF disjI1 [OF cond_ops_core(4) [OF len]] assms(2,3)] show ?thesis by simp
  next
    case (other qs)
    with assms(2) show ?thesis by (simp add: mons_ok_def mon_holder_def)
  qed
qed

interpretation mon: mutex "mon_ev c i" "mon_holder i" "\<lambda>k. mons_ok k \<and> i < MONITOR_MAX_NUM" for c i
  by unfold_locales (use mon_ev_mutex in fastforce)+

subsection \<open>Sleep locks are locks\<close>

text \<open>A sleep lock is released by the process that holds it, as all callers check or ensure.\<close>

inductive sl_ev :: "sched_cfg \<Rightarrow> nat \<Rightarrow> ksync \<Rightarrow> lock_event \<Rightarrow> ksync \<Rightarrow> bool" for c i where
  acquire: "j < length (sleeplocks k) \<Longrightarrow> acquiresleep c cur j k = (r, k') \<Longrightarrow>
    sl_ev c i k (if r = Done 0 \<and> j = i then Take (pid_of k cur) else Silent) k'"
| woken: "j < length (sleeplocks k) \<Longrightarrow> acquiresleep_woken c cur j k = (r, k') \<Longrightarrow>
    sl_ev c i k (if r = Done 0 \<and> j = i then Take (pid_of k cur) else Silent) k'"
| release: "j < length (sleeplocks k) \<Longrightarrow> holdingsleep cur j k \<Longrightarrow>
    sl_ev c i k (if j = i then Drop (pid_of k cur) else Silent) (releasesleep c j k)"
| other: "sl_ev c i k Silent (k\<lparr>procs := qs\<rparr>)"

definition sl_holder :: "nat \<Rightarrow> ksync \<Rightarrow> int option" where
  "sl_holder i k = (if sl_locked (sleeplocks k ! i) then Some (sl_pid (sleeplocks k ! i)) else None)"

lemma sleeplocks_pi_recalc [simp]: "sleeplocks (pi_recalc pid k) = sleeplocks k"
  by (simp add: pi_recalc_def Let_def split: option.splits)

lemma acquiresleep_holder:
  assumes "acquiresleep c cur j k = (r, k')" "j < length (sleeplocks k)" "i < length (sleeplocks k)"
  shows "length (sleeplocks k') = length (sleeplocks k) \<and>
    (if r = Done 0 \<and> j = i then sl_holder i k = None \<and> sl_holder i k' = Some (pid_of k cur)
     else sl_holder i k' = sl_holder i k)"
proof (cases "sl_locked (sleeplocks k ! j)")
  case True
  then have "r = Blocked" using assms(1) by (auto simp: acquiresleep_def Let_def)
  moreover have "length (sleeplocks (snd (acquiresleep c cur j k))) = length (sleeplocks k)"
    "sl_holder i (snd (acquiresleep c cur j k)) = sl_holder i k"
    using True assms(2,3) by (auto simp: acquiresleep_def Let_def sl_holder_def nth_list_update)
  ultimately show ?thesis by (simp add: assms(1))
next
  case False
  with assms show ?thesis by (cases "j = i") (auto simp: acquiresleep_def sl_holder_def)
qed

lemma releasesleep_holder:
  assumes "holdingsleep cur j k" "j < length (sleeplocks k)" "i < length (sleeplocks k)"
  shows "length (sleeplocks (releasesleep c j k)) = length (sleeplocks k) \<and>
    (if j = i then sl_holder i k = Some (pid_of k cur) \<and> sl_holder i (releasesleep c j k) = None
     else sl_holder i (releasesleep c j k) = sl_holder i k)"
  using assms by (cases "j = i") (auto simp: releasesleep_def Let_def sl_holder_def holdingsleep_def)

lemma sl_ev_mutex:
  assumes "sl_ev c i k e k'" "i < length (sleeplocks k)"
  shows "i < length (sleeplocks k') \<and>
    (case e of
       Take p \<Rightarrow> sl_holder i k = None \<and> sl_holder i k' = Some p
     | Drop p \<Rightarrow> sl_holder i k = Some p \<and> sl_holder i k' = None
     | Silent \<Rightarrow> sl_holder i k' = sl_holder i k)"
  using assms(1)
proof cases
  case (acquire j cur r)
  from acquiresleep_holder [OF acquire(3,2) assms(2)] acquire(1) assms(2) show ?thesis by (simp split: if_splits)
next
  case (woken j cur r)
  let ?k = "upd_proc cur sleep_end k"
  have "acquiresleep c cur j ?k = (r, k')" using woken(3) by (simp add: acquiresleep_woken_def)
  have h: "sl_holder i ?k = sl_holder i k" "pid_of ?k cur = pid_of k cur" by (simp_all add: sl_holder_def)
  from acquiresleep_holder [OF \<open>acquiresleep c cur j ?k = (r, k')\<close>, of i] woken(1,2) assms(2) show ?thesis
    unfolding h by (simp split: if_splits)
next
  case (release j cur)
  from releasesleep_holder [OF release(4,3) assms(2)] release(1,2) assms(2) show ?thesis by (simp split: if_splits)
next
  case (other qs)
  with assms(2) show ?thesis by (simp add: sl_holder_def)
qed

interpretation slk: mutex "sl_ev c i" "sl_holder i" "\<lambda>k. i < length (sleeplocks k)" for c i
  by unfold_locales (use sl_ev_mutex in fastforce)+

subsection \<open>Properties\<close>

text \<open>
  C20. Mutual exclusion of monitors: in every run of the monitor and condition-variable calls, at
  most one process is inside a monitor at a time. A process gets in only when nobody is inside, and
  only the process inside leaves, by exit, by waiting on a condition or by dying; the monitor's
  owner field names it throughout.
\<close>

theorem monitor_mutual_exclusion:
  assumes "mons_ok k" "i < MONITOR_MAX_NUM" "lock_run (mon_ev c i) k es k'"
  shows "exclusive (mon_holder i k) es \<and> mon_holder i k' = holder_after (mon_holder i k) es"
  using mon.run_exclusive [OF assms(3)] assms(1,2) by simp

definition mon_demo :: ksync where
  "mon_demo = \<lparr>procs = [proc0\<lparr>p_state := RUNNING, p_pid := 7\<rparr>], sems = [], semsets = [],
     monitors = replicate MONITOR_MAX_NUM (mon0\<lparr>mon_allocated := True\<rparr>), sleeplocks = [],
     sem_used_count = 0, semset_used_count = 0\<rparr>"

theorem monitor_mutual_exclusion_witness:
  "\<exists>k'. lock_run (mon_ev CfgMLFQ 3) mon_demo [Take 7] k' \<and> mon_holder 3 k' = Some 7"
proof -
  have ok: "mons_ok mon_demo" by (auto simp: mons_ok_def mon_demo_def mon_ok_def mon0_def)
  have enter: "sys_mon_enter CfgMLFQ 0 3 mon_demo = (Done 0, snd (sys_mon_enter CfgMLFQ 0 3 mon_demo))"
    by (simp add: sys_mon_enter_def mon_valid_def mon_enter_loop_def mon_demo_def mon0_def)
  have pid: "pid_of mon_demo 0 = 7" by (simp add: mon_demo_def)
  from mon_ev.enter [OF _ enter, of 3] pid
  have "mon_ev CfgMLFQ 3 mon_demo (Take 7) (snd (sys_mon_enter CfgMLFQ 0 3 mon_demo))" by simp
  then have run: "lock_run (mon_ev CfgMLFQ 3) mon_demo [Take 7] (snd (sys_mon_enter CfgMLFQ 0 3 mon_demo))"
    by (rule lock_run.step) (rule lock_run.stop)
  from monitor_mutual_exclusion [OF ok _ run] run show ?thesis by auto
qed

text \<open>
  C29. Mutual exclusion of sleep locks: in every run of acquiring, waking and releasing, at most one
  process holds a sleep lock at a time, and its pid field names it.
\<close>

theorem sleeplock_mutual_exclusion:
  assumes "i < length (sleeplocks k)" "lock_run (sl_ev c i) k es k'"
  shows "exclusive (sl_holder i k) es \<and> sl_holder i k' = holder_after (sl_holder i k) es"
  using slk.run_exclusive [OF assms(2,1)] .

theorem sleeplock_mutual_exclusion_witness:
  "\<exists>k'. lock_run (sl_ev CfgMLFQ 0) (mon_demo\<lparr>sleeplocks := [\<lparr>sl_locked = False, sl_pid = 0, sl_pi_waiter_max = 0\<rparr>]\<rparr>)
     [Take 7] k' \<and> sl_holder 0 k' = Some 7"
proof -
  let ?k = "mon_demo\<lparr>sleeplocks := [\<lparr>sl_locked = False, sl_pid = 0, sl_pi_waiter_max = 0\<rparr>]\<rparr>"
  have acq: "acquiresleep CfgMLFQ 0 0 ?k = (Done 0, snd (acquiresleep CfgMLFQ 0 0 ?k))"
    by (simp add: acquiresleep_def)
  have pid: "pid_of ?k 0 = 7" by (simp add: mon_demo_def)
  have "0 < length (sleeplocks ?k)" by simp
  from sl_ev.acquire [OF this acq, of 0, unfolded pid]
  have "sl_ev CfgMLFQ 0 ?k (Take 7) (snd (acquiresleep CfgMLFQ 0 0 ?k))" by simp
  then have run: "lock_run (sl_ev CfgMLFQ 0) ?k [Take 7] (snd (acquiresleep CfgMLFQ 0 0 ?k))"
    by (rule lock_run.step) (rule lock_run.stop)
  from sleeplock_mutual_exclusion [OF _ run] run show ?thesis by auto
qed

text \<open>
  Monitor 0 is held by the running process; process 0 waits to take it back inside
  \<^verbatim>\<open>sys_cond_wait\<close>, process 1 waits in \<^verbatim>\<open>sys_mon_enter\<close>.
\<close>

definition lost_demo :: ksync where
  "lost_demo = \<lparr>procs = [proc0\<lparr>p_state := SLEEPING, p_chan := Some (ChMon 0), p_pid := 2\<rparr>,
       proc0\<lparr>p_state := SLEEPING, p_chan := Some (ChMon 0), p_pid := 3\<rparr>, proc0\<lparr>p_state := RUNNING, p_pid := 4\<rparr>],
     sems = [], semsets = [], monitors = [mon0\<lparr>mon_allocated := True, mon_locked := True, mon_owner := 4, mon_waiters := 2\<rparr>],
     sleeplocks = [], sem_used_count = 0, semset_used_count = 0\<rparr>"

text \<open>
  C36. A killed process can swallow the wakeup of a monitor: the owner leaves and wakes a process
  that is taking the monitor back after a condition wait; if that process was killed meanwhile, it
  returns without taking the monitor and without waking anybody, and a process waiting to enter
  sleeps on although the monitor is free.
\<close>

theorem cond_wait_killed_loses_wakeup:
  "\<exists>k1 k2. sys_mon_exit CfgMLFQ 2 0 lost_demo = (0, k1) \<and>
     cond_reacquire_woken 0 0 (upd_proc 0 (\<lambda>p. p\<lparr>p_state := RUNNING, p_killed := True\<rparr>) k1) = (Done (-1), k2) \<and>
     \<not> mon_locked (monitors k2 ! 0) \<and> waiters_on (ChMon 0) (procs k2) = {1}"
proof -
  define k1 where "k1 = snd (sys_mon_exit CfgMLFQ 2 0 lost_demo)"
  let ?k = "upd_proc 0 (\<lambda>p. p\<lparr>p_state := RUNNING, p_killed := True\<rparr>) k1"
  have e: "fst (sys_mon_exit CfgMLFQ 2 0 lost_demo) = 0"
    by (simp add: sys_mon_exit_def mon_valid_def lost_demo_def mon0_def)
  have k1: "length (procs k1) = 3" "waiting_on (ChMon 0) (procs k1 ! 1)" "p_state (procs k1 ! 2) = RUNNING"
    "\<not> mon_locked (monitors k1 ! 0)" "length (monitors k1) = 1"
    by (simp_all add: k1_def sys_mon_exit_def mon_valid_def lost_demo_def mon0_def pi_recalc_def
        monitor_max_waiter_for_pid_def sleeplock_max_waiter_for_pid_def wakeupOneProc_def waiting_on_def
        wake_proc_def mlfq_reset_def)
  have k: "procs k1 = [procs k1 ! 0, procs k1 ! 1, procs k1 ! 2]"
    using k1(1) by (auto intro!: nth_equalityI simp: less_Suc_eq numeral_eq_Suc)
  have w: "fst (cond_reacquire_woken 0 0 ?k) = Done (-1)"
    using k1(1) by (simp add: cond_reacquire_woken_def sleep_end_def)
  moreover have "\<not> mon_locked (monitors (snd (cond_reacquire_woken 0 0 ?k)) ! 0)"
    using k1(1,4,5) by (simp add: cond_reacquire_woken_def sleep_end_def)
  moreover have "waiters_on (ChMon 0) (procs (snd (cond_reacquire_woken 0 0 ?k))) = {1}"
    using k1(1,2,3) by (auto simp: cond_reacquire_woken_def sleep_end_def waiters_on_def nth_list_update
        waiting_on_def less_Suc_eq numeral_eq_Suc)
  ultimately show ?thesis using e unfolding k1_def by (metis prod.collapse)
qed

end
