(* ===== verification/Pipe.thy ===== *)
theory Pipe
  imports Monitor "HOL-Library.Word"
begin

section \<open>Bounded queues and pipes\<close>

text \<open>
  Pipes (\<^verbatim>\<open>kernel/proc/pipe.c\<close>), a ring of 512 bytes addressed by two free-running 32-bit
  counters, as an instance of the interface \<open>bounded_queue\<close>; theory \<open>Dmsg\<close> has another. The copies to and from user memory are parameters:
  \<open>copyin i\<close> is the byte at offset \<open>i\<close> (\<open>None\<close> on a fault) and \<open>copyout i\<close> tells
  whether offset \<open>i\<close> can be written.
\<close>

subsection \<open>The interface\<close>

locale bounded_queue =
  fixes content :: "'s \<Rightarrow> 'a list" and cap :: nat and ok full empty :: "'s \<Rightarrow> bool"
    and put :: "'a \<Rightarrow> 's \<Rightarrow> 's" and get :: "'s \<Rightarrow> 'a \<times> 's"
  assumes bounded: "ok s \<Longrightarrow> length (content s) \<le> cap"
    and full_iff: "ok s \<Longrightarrow> full s \<longleftrightarrow> length (content s) = cap"
    and empty_iff: "ok s \<Longrightarrow> empty s \<longleftrightarrow> content s = []"
    and put_content: "ok s \<Longrightarrow> \<not> full s \<Longrightarrow> content (put x s) = content s @ [x] \<and> ok (put x s)"
    and get_content: "ok s \<Longrightarrow> \<not> empty s \<Longrightarrow>
      content s = fst (get s) # content (snd (get s)) \<and> ok (snd (get s))"
begin

text \<open>Putting while there is room, getting while there is something.\<close>

lemma put_room: "ok s \<Longrightarrow> \<not> full s \<Longrightarrow> length (content (put x s)) = Suc (length (content s)) \<and> length (content s) < cap"
  using put_content [of s x] full_iff [of s] bounded [of s] by auto

lemma get_after_put:
  assumes "ok s" "empty s" "\<not> full s"
  shows "fst (get (put x s)) = x \<and> content (snd (get (put x s))) = []"
proof -
  have c: "content (put x s) = [x]" "ok (put x s)"
    using put_content [OF assms(1,3)] empty_iff [OF assms(1)] assms(2) by auto
  then have "\<not> empty (put x s)" using empty_iff by auto
  from get_content [OF c(2) this] c(1) show ?thesis by auto
qed

text \<open>Any sequence of operations that respects full and empty is first in, first out.\<close>

fun ops :: "'a option list \<Rightarrow> 's \<Rightarrow> ('a list \<times> 's) option" where
  "ops [] s = Some ([], s)"
| "ops (Some x # os) s = (if full s then None else ops os (put x s))"
| "ops (None # os) s =
     (if empty s then None
      else case get s of (x, s1) \<Rightarrow> (case ops os s1 of None \<Rightarrow> None | Some (xs, s') \<Rightarrow> Some (x # xs, s')))"

lemma ops_fifo:
  "ok s \<Longrightarrow> ops os s = Some (outs, s') \<Longrightarrow>
    ok s' \<and> outs @ content s' = content s @ map the (filter (\<lambda>x. x \<noteq> None) os)"
proof (induction os s arbitrary: outs rule: ops.induct)
  case (2 x os s)
  then show ?case using put_content [of s x] by (auto split: if_splits)
next
  case (3 os s)
  from 3(3) obtain x s1 xs where g: "\<not> empty s" "get s = (x, s1)" "ops os s1 = Some (xs, s')" "outs = x # xs"
    by (auto split: if_splits prod.splits option.splits)
  from get_content [OF 3(2) g(1)] g(2) have "content s = x # content s1" "ok s1" by auto
  with "3.IH" [OF g(1) g(2) [symmetric] _ g(3)] g(4) show ?case by auto
qed auto

end

subsection \<open>Pipes\<close>

record pipe =
  pdata :: "int list"
  nread :: "32 word"
  nwrite :: "32 word"
  readopen :: bool
  writeopen :: bool

abbreviation (input) PIPESIZE :: nat where "PIPESIZE \<equiv> 512"

type_synonym pipesys = "pipe \<times> ptable"

text \<open>The pipe of \<^verbatim>\<open>pipealloc\<close>, in the page \<open>data\<close> that \<^verbatim>\<open>kalloc\<close> returned.\<close>

definition pipealloc :: "int list \<Rightarrow> pipe" where
  "pipealloc data = \<lparr>pdata = data, nread = 0, nwrite = 0, readopen = True, writeopen = True\<rparr>"

definition slot :: "32 word \<Rightarrow> nat" where
  "slot w = unat (w mod 512)"

definition pipe_full :: "pipe \<Rightarrow> bool" where
  "pipe_full pi \<longleftrightarrow> nwrite pi = nread pi + 512"

definition pipe_empty :: "pipe \<Rightarrow> bool" where
  "pipe_empty pi \<longleftrightarrow> nread pi = nwrite pi"

definition pipe_put :: "int \<Rightarrow> pipe \<Rightarrow> pipe" where
  "pipe_put ch pi = pi\<lparr>pdata := (pdata pi)[slot (nwrite pi) := ch], nwrite := nwrite pi + 1\<rparr>"

definition pipe_get :: "pipe \<Rightarrow> int \<times> pipe" where
  "pipe_get pi = (pdata pi ! slot (nread pi), pi\<lparr>nread := nread pi + 1\<rparr>)"

text \<open>
  \<^verbatim>\<open>pipeclose\<close>; the last component tells whether the page is freed.
\<close>

definition pipeclose :: "sched_cfg \<Rightarrow> bool \<Rightarrow> pipesys \<Rightarrow> bool \<times> pipesys" where
  "pipeclose c writable s =
     (let (pi, ps) = s;
          (pi, ps) = (if writable then (pi\<lparr>writeopen := False\<rparr>, wakeup c ChPipeRead ps)
                      else (pi\<lparr>readopen := False\<rparr>, wakeup c ChPipeWrite ps))
      in (\<not> readopen pi \<and> \<not> writeopen pi, (pi, ps)))"

text \<open>
  \<^verbatim>\<open>pipewrite\<close> from turn \<open>i\<close> of its loop on, up to its return (\<open>PDone\<close>) or a sleep
  (\<open>PBlocked i\<close>: it goes on with turn \<open>i\<close> when woken).
\<close>

datatype pres = PDone int | PBlocked int

function pipewrite :: "sched_cfg \<Rightarrow> nat \<Rightarrow> (int \<Rightarrow> int option) \<Rightarrow> int \<Rightarrow> int \<Rightarrow> pipesys \<Rightarrow> pres \<times> pipesys" where
  "pipewrite c cur copyin n i (pi, ps) =
     (if i \<ge> n then (PDone i, (pi, wakeup c ChPipeRead ps))
      else if pipe_full pi then
        (if \<not> readopen pi \<or> p_killed (ps ! cur) then (PDone (-1), (pi, ps))
         else (PBlocked i, (pi, upd_at (wakeup c ChPipeRead ps) cur (sleep_begin ChPipeWrite))))
      else case copyin i of
             None \<Rightarrow> (PDone i, (pi, wakeup c ChPipeRead ps))
           | Some ch \<Rightarrow> pipewrite c cur copyin n (i + 1) (pipe_put ch pi, ps))"
  by pat_completeness auto
termination by (relation "measure (\<lambda>(c, cur, copyin, n, i, s). nat (n - i))") auto

declare pipewrite.simps [simp del]

definition pipewrite_woken :: "sched_cfg \<Rightarrow> nat \<Rightarrow> (int \<Rightarrow> int option) \<Rightarrow> int \<Rightarrow> int \<Rightarrow> pipesys \<Rightarrow> pres \<times> pipesys" where
  "pipewrite_woken c cur copyin n i s =
     (case s of (pi, ps) \<Rightarrow> pipewrite c cur copyin n i (pi, upd_at ps cur sleep_end))"

text \<open>The copy loop of \<^verbatim>\<open>piperead\<close>: result, bytes taken from the pipe, pipe.\<close>

function piperead_copy :: "(int \<Rightarrow> bool) \<Rightarrow> int \<Rightarrow> int \<Rightarrow> pipe \<Rightarrow> int \<times> int list \<times> pipe" where
  "piperead_copy copyout n i pi =
     (if i \<ge> n then (i, [], pi)
      else if pipe_empty pi then (i, [], pi)
      else
        (let (ch, pi) = pipe_get pi in
         if \<not> copyout i then (i, [ch], pi)
         else (let (r, chs, pi) = piperead_copy copyout n (i + 1) pi in (r, ch # chs, pi))))"
  by pat_completeness auto
termination by (relation "measure (\<lambda>(copyout, n, i, pi). nat (n - i))") auto

declare piperead_copy.simps [simp del]

definition piperead :: "sched_cfg \<Rightarrow> nat \<Rightarrow> (int \<Rightarrow> bool) \<Rightarrow> int \<Rightarrow> pipesys \<Rightarrow> pres \<times> int list \<times> pipesys" where
  "piperead c cur copyout n s =
     (let (pi, ps) = s in
      if pipe_empty pi \<and> writeopen pi then
        (if p_killed (ps ! cur) then (PDone (-1), [], s)
         else (PBlocked 0, [], (pi, upd_at ps cur (sleep_begin ChPipeRead))))
      else (let (r, chs, pi) = piperead_copy copyout n 0 pi in (PDone r, chs, (pi, wakeup c ChPipeWrite ps))))"

definition piperead_woken :: "sched_cfg \<Rightarrow> nat \<Rightarrow> (int \<Rightarrow> bool) \<Rightarrow> int \<Rightarrow> pipesys \<Rightarrow> pres \<times> int list \<times> pipesys" where
  "piperead_woken c cur copyout n s =
     (case s of (pi, ps) \<Rightarrow> piperead c cur copyout n (pi, upd_at ps cur sleep_end))"

subsection \<open>The ring is a queue\<close>

definition pipe_ok :: "pipe \<Rightarrow> bool" where
  "pipe_ok pi \<longleftrightarrow> length (pdata pi) = PIPESIZE \<and> unat (nwrite pi - nread pi) \<le> PIPESIZE"

definition pipe_content :: "pipe \<Rightarrow> int list" where
  "pipe_content pi = map (\<lambda>k. pdata pi ! slot (nread pi + of_nat k)) [0..<unat (nwrite pi - nread pi)]"

lemma slot_eq: "slot w = unat w mod 512"
  by (simp add: slot_def unat_mod)

lemma slot_less: "slot w < 512"
  by (simp add: slot_eq)

lemma slot_add: "slot (w + of_nat k) = (unat w + k) mod 512"
proof -
  have "unat (w + of_nat k) = (unat w + k mod 2 ^ 32) mod 2 ^ 32"
    by (simp add: unat_word_ariths unsigned_of_nat take_bit_eq_mod mod_simps)
  then show ?thesis by (simp add: slot_eq mod_mod_cancel mod_simps)
qed

lemma unat_succ_le: "unat w < 512 \<Longrightarrow> unat (w + 1 :: 32 word) = unat w + 1"
  by (simp add: unat_word_ariths)

lemma mod512_neq: "k < d \<Longrightarrow> d < 512 \<Longrightarrow> (a + k) mod 512 \<noteq> (a + d) mod (512 :: nat)"
proof
  assume kd: "k < d" "d < 512" and eq: "(a + k) mod 512 = (a + d) mod 512"
  then have "512 dvd (a + d) - (a + k)" by (metis mod_eq_dvd_iff_nat add_le_cancel_left less_imp_le)
  then have "512 dvd d - k" by simp
  with kd show False by (auto dest: dvd_imp_le)
qed

lemma pipe_count:
  "unat (nwrite pi - nread pi) = length (pipe_content pi)"
  "nwrite pi = nread pi + of_nat (length (pipe_content pi))"
  by (simp_all add: pipe_content_def)

lemma pipe_full_iff: "pipe_ok pi \<Longrightarrow> pipe_full pi \<longleftrightarrow> length (pipe_content pi) = PIPESIZE"
proof -
  have "pipe_full pi \<longleftrightarrow> nwrite pi - nread pi = 512" by (auto simp: pipe_full_def algebra_simps)
  also have "\<dots> \<longleftrightarrow> unat (nwrite pi - nread pi) = unat (512 :: 32 word)" by (simp add: word_unat_eq_iff)
  finally show ?thesis by (simp add: pipe_count(1))
qed

lemma pipe_empty_iff: "pipe_empty pi \<longleftrightarrow> pipe_content pi = []"
proof -
  have "pipe_empty pi \<longleftrightarrow> unat (nwrite pi - nread pi) = 0"
    by (auto simp: pipe_empty_def unat_eq_zero)
  then show ?thesis by (simp add: pipe_count(1))
qed

lemma pipe_put_content:
  assumes ok: "pipe_ok pi" and room: "\<not> pipe_full pi"
  shows "pipe_content (pipe_put x pi) = pipe_content pi @ [x] \<and> pipe_ok (pipe_put x pi)"
proof -
  define d where "d = unat (nwrite pi - nread pi)"
  have d: "d < 512" using ok room by (simp add: pipe_full_iff d_def pipe_count(1) [symmetric] pipe_ok_def)
  have len: "length (pdata pi) = 512" using ok by (simp add: pipe_ok_def)
  have nw: "slot (nwrite pi) = (unat (nread pi) + d) mod 512"
    using slot_add [of "nread pi" d] by (simp add: d_def)
  have d': "unat (nwrite pi + 1 - nread pi) = Suc d"
    using unat_succ_le [of "nwrite pi - nread pi"] d by (simp add: d_def algebra_simps)
  have "pipe_content (pipe_put x pi) =
      map (\<lambda>k. (pdata pi)[slot (nwrite pi) := x] ! slot (nread pi + of_nat k)) [0..<Suc d]"
    by (simp add: pipe_content_def pipe_put_def d')
  also have "\<dots> = map (\<lambda>k. pdata pi ! slot (nread pi + of_nat k)) [0..<d] @ [x]"
  proof -
    have "(unat (nread pi) + d) mod 512 \<noteq> (unat (nread pi) + k) mod 512" if "k < d" for k
      using mod512_neq [OF that d, of "unat (nread pi)"] by metis
    then show ?thesis using nw len by (auto simp: slot_add)
  qed
  finally have "pipe_content (pipe_put x pi) = pipe_content pi @ [x]" by (simp add: pipe_content_def d_def)
  moreover have "pipe_ok (pipe_put x pi)" using len d' d by (simp add: pipe_ok_def pipe_put_def)
  ultimately show ?thesis by blast
qed

lemma pipe_get_content:
  assumes ok: "pipe_ok pi" and "\<not> pipe_empty pi"
  shows "pipe_content pi = fst (pipe_get pi) # pipe_content (snd (pipe_get pi)) \<and> pipe_ok (snd (pipe_get pi))"
proof -
  define d where "d = unat (nwrite pi - (nread pi + 1))"
  have ne: "nwrite pi - nread pi \<noteq> 0" using assms(2) by (auto simp: pipe_empty_def)
  have d: "unat (nwrite pi - nread pi) = Suc d"
    using ne unat_minus_one [OF ne] by (simp add: d_def algebra_simps unat_eq_zero) (metis Suc_pred unat_gt_0 right_minus_eq)
  have "pipe_content pi = map (\<lambda>k. pdata pi ! slot (nread pi + of_nat k)) (0 # map Suc [0..<d])"
    unfolding pipe_content_def d by (simp add: upt_conv_Cons map_Suc_upt del: upt_Suc)
  then have "pipe_content pi = fst (pipe_get pi) # pipe_content (snd (pipe_get pi))"
    by (simp add: pipe_get_def pipe_content_def d_def comp_def algebra_simps)
  moreover have "pipe_ok (snd (pipe_get pi))"
    using ok d by (simp add: pipe_ok_def pipe_get_def d_def)
  ultimately show ?thesis by blast
qed

interpretation pq: bounded_queue pipe_content PIPESIZE pipe_ok pipe_full pipe_empty pipe_put pipe_get
proof unfold_locales
  fix s x
  show "pipe_ok s \<Longrightarrow> length (pipe_content s) \<le> 512" by (simp add: pipe_ok_def pipe_count(1) [symmetric])
  show "pipe_ok s \<Longrightarrow> pipe_full s \<longleftrightarrow> length (pipe_content s) = 512" by (rule pipe_full_iff)
  show "pipe_empty s \<longleftrightarrow> pipe_content s = []" by (rule pipe_empty_iff)
  show "pipe_ok s \<Longrightarrow> \<not> pipe_full s \<Longrightarrow>
      pipe_content (pipe_put x s) = pipe_content s @ [x] \<and> pipe_ok (pipe_put x s)" by (rule pipe_put_content)
  show "pipe_ok s \<Longrightarrow> \<not> pipe_empty s \<Longrightarrow>
      pipe_content s = fst (pipe_get s) # pipe_content (snd (pipe_get s)) \<and> pipe_ok (snd (pipe_get s))"
    by (rule pipe_get_content)
qed

subsection \<open>Writing and reading\<close>

text \<open>
  What a segment of \<^verbatim>\<open>pipewrite\<close> did, \<open>ws\<close> being the bytes it put: how it ended and
  what it did to the processes.
\<close>

definition write_end :: "sched_cfg \<Rightarrow> nat \<Rightarrow> (int \<Rightarrow> int option) \<Rightarrow> int \<Rightarrow> int \<Rightarrow> ptable \<Rightarrow> pres \<Rightarrow> pipe \<Rightarrow> ptable \<Rightarrow> bool" where
  "write_end c cur copyin n m ps r pi ps' \<longleftrightarrow>
     (r = PDone m \<and> (m \<ge> n \<or> copyin m = None) \<and> ps' = wakeup c ChPipeRead ps) \<or>
     (r = PDone (-1) \<and> pipe_full pi \<and> (\<not> readopen pi \<or> p_killed (ps ! cur)) \<and> ps' = ps) \<or>
     (r = PBlocked m \<and> pipe_full pi \<and> readopen pi \<and> \<not> p_killed (ps ! cur) \<and>
        ps' = upd_at (wakeup c ChPipeRead ps) cur (sleep_begin ChPipeWrite))"

lemma pipewrite_spec:
  assumes "pipewrite c cur copyin n i (pi, ps) = (r, (pi', ps'))" "pipe_ok pi"
  shows "\<exists>ws. pipe_content pi' = pipe_content pi @ ws \<and> pipe_ok pi' \<and>
    readopen pi' = readopen pi \<and> writeopen pi' = writeopen pi \<and> nread pi' = nread pi \<and>
    (\<forall>j < length ws. copyin (i + int j) = Some (ws ! j)) \<and>
    write_end c cur copyin n (i + int (length ws)) ps r pi' ps'"
  using assms
proof (induction c cur copyin n i "(pi, ps)" arbitrary: pi rule: pipewrite.induct)
  case (1 c cur copyin n i pi)
  show ?case
  proof (cases "i \<ge> n \<or> pipe_full pi \<or> copyin i = None")
    case True
    then have "pi' = pi" "write_end c cur copyin n i ps r pi ps'"
      using "1.prems"(1) by (auto simp: pipewrite.simps [of c cur copyin n i] write_end_def split: if_splits)
    with "1.prems"(2) show ?thesis by (intro exI [of _ "[]"]) simp
  next
    case False
    then obtain ch where ch: "copyin i = Some ch" by auto
    have rec: "pipewrite c cur copyin n (i + 1) (pipe_put ch pi, ps) = (r, (pi', ps'))"
      using "1.prems"(1) False ch by (simp add: pipewrite.simps [of c cur copyin n i])
    have put: "pipe_content (pipe_put ch pi) = pipe_content pi @ [ch]" "pipe_ok (pipe_put ch pi)"
      using pq.put_content [OF "1.prems"(2)] False by auto
    from "1.hyps" [OF _ _ ch rec put(2)] False obtain ws where
      ws: "pipe_content pi' = pipe_content (pipe_put ch pi) @ ws" "pipe_ok pi'"
        "readopen pi' = readopen (pipe_put ch pi)" "writeopen pi' = writeopen (pipe_put ch pi)"
        "nread pi' = nread (pipe_put ch pi)"
        "\<forall>j < length ws. copyin (i + 1 + int j) = Some (ws ! j)"
        "write_end c cur copyin n (i + 1 + int (length ws)) ps r pi' ps'" by auto
    have "\<forall>j < length (ch # ws). copyin (i + int j) = Some ((ch # ws) ! j)"
    proof (intro allI impI)
      fix j assume "j < length (ch # ws)"
      with ws(6) ch show "copyin (i + int j) = Some ((ch # ws) ! j)"
        by (cases j) (auto simp: add.assoc)
    qed
    with ws put(1) show ?thesis
      by (intro exI [of _ "ch # ws"]) (simp add: pipe_put_def algebra_simps)
  qed
qed

lemma piperead_copy_spec:
  assumes "piperead_copy copyout n i pi = (r, chs, pi')" "pipe_ok pi"
  shows "pipe_content pi = chs @ pipe_content pi' \<and> pipe_ok pi' \<and> readopen pi' = readopen pi \<and>
    writeopen pi' = writeopen pi \<and> nwrite pi' = nwrite pi \<and>
    (\<forall>j < length chs - 1. copyout (i + int j)) \<and> i \<le> r \<and>
    (r = i + int (length chs) \<and> (r \<ge> n \<or> pipe_empty pi') \<and> (\<forall>j < length chs. copyout (i + int j)) \<or>
     r = i + int (length chs) - 1 \<and> chs \<noteq> [] \<and> \<not> copyout r)"
  using assms
proof (induction copyout n i pi arbitrary: r chs rule: piperead_copy.induct)
  case (1 copyout n i pi)
  show ?case
  proof (cases "i \<ge> n \<or> pipe_empty pi")
    case True
    with "1.prems" have "r = i" "chs = []" "pi' = pi"
      by (auto simp: piperead_copy.simps [of copyout n i pi] split: if_splits)
    with True "1.prems"(2) show ?thesis by auto
  next
    case False
    obtain ch pi1 where g: "pipe_get pi = (ch, pi1)" by fastforce
    from pq.get_content [OF "1.prems"(2)] False g have
      get: "pipe_content pi = ch # pipe_content pi1" "pipe_ok pi1" by auto
    have fl: "readopen pi1 = readopen pi" "writeopen pi1 = writeopen pi" "nwrite pi1 = nwrite pi"
      using g by (auto simp: pipe_get_def)
    show ?thesis
    proof (cases "copyout i")
      case no: False
      with False g "1.prems"(1) have "r = i" "chs = [ch]" "pi' = pi1"
        by (auto simp: piperead_copy.simps [of copyout n i pi])
      with get fl no show ?thesis by simp
    next
      case True
      obtain r1 chs1 pi2 where rec: "piperead_copy copyout n (i + 1) pi1 = (r1, chs1, pi2)" by (metis prod_cases3)
      with True False g "1.prems"(1) have eqs: "r = r1" "chs = ch # chs1" "pi' = pi2"
        by (auto simp: piperead_copy.simps [of copyout n i pi])
      have IH: "pipe_content pi1 = chs1 @ pipe_content pi2 \<and> pipe_ok pi2 \<and> readopen pi2 = readopen pi1 \<and>
          writeopen pi2 = writeopen pi1 \<and> nwrite pi2 = nwrite pi1 \<and>
          (\<forall>j < length chs1 - 1. copyout (i + 1 + int j)) \<and> i + 1 \<le> r1 \<and>
          (r1 = i + 1 + int (length chs1) \<and> (r1 \<ge> n \<or> pipe_empty pi2) \<and> (\<forall>j < length chs1. copyout (i + 1 + int j)) \<or>
           r1 = i + 1 + int (length chs1) - 1 \<and> chs1 \<noteq> [] \<and> \<not> copyout r1)"
        using "1.IH" [OF _ _ g [symmetric] refl] False True rec get(2) eqs by auto
      have shift: "(\<forall>j < Suc m. copyout (i + int j)) \<longleftrightarrow> copyout i \<and> (\<forall>j < m. copyout (i + 1 + int j))" for m
        by (auto simp: less_Suc_eq_0_disj add.assoc)
      have "(\<forall>j < length chs - 1. copyout (i + int j))"
        using IH True shift by (cases chs1) (auto simp: eqs)
      then show ?thesis using IH get fl eqs True shift [of "length chs1"] by auto
    qed
  qed
qed

subsection \<open>Runs of a pipe\<close>

text \<open>
  The steps of the processes that use a pipe, each labelled with the bytes it takes from the
  caller's memory and the bytes it takes out of the pipe. How far a write came is read off the
  counter \<^verbatim>\<open>nwrite\<close>. The processes that sleep on the pipe are changed by others in no other way
  than being woken.
\<close>

definition put_bytes :: "(int \<Rightarrow> int option) \<Rightarrow> int \<Rightarrow> pipe \<Rightarrow> pipe \<Rightarrow> int list" where
  "put_bytes copyin i pi pi' = map (\<lambda>j. the (copyin (i + int j))) [0..<unat (nwrite pi' - nwrite pi)]"

definition no_new_waiters :: "ptable \<Rightarrow> ptable \<Rightarrow> bool" where
  "no_new_waiters ps qs \<longleftrightarrow> length qs = length ps \<and>
     (\<forall>k < length ps. \<forall>ch \<in> {ChPipeRead, ChPipeWrite}. waiting_on ch (qs ! k) \<longrightarrow> waiting_on ch (ps ! k))"

inductive pipe_step :: "sched_cfg \<Rightarrow> pipesys \<Rightarrow> int list \<Rightarrow> int list \<Rightarrow> pipesys \<Rightarrow> bool" for c where
  write_: "cur < length ps \<Longrightarrow> p_state (ps ! cur) = RUNNING \<Longrightarrow> \<not> p_killed (ps ! cur) \<Longrightarrow>
    pipewrite_woken c cur copyin n i (pi, ps) = (r, (pi', ps')) \<Longrightarrow>
    pipe_step c (pi, ps) (put_bytes copyin i pi pi') [] (pi', ps')"
| read_: "cur < length ps \<Longrightarrow> p_state (ps ! cur) = RUNNING \<Longrightarrow> readopen pi \<Longrightarrow>
    piperead_woken c cur copyout n (pi, ps) = (r, chs, s') \<Longrightarrow> pipe_step c (pi, ps) [] chs s'"
| close_: "writable \<or> waiters_on ChPipeRead (snd s) = {} \<Longrightarrow> pipeclose c writable s = (f, s') \<Longrightarrow> pipe_step c s [] [] s'"
| other: "no_new_waiters ps qs \<Longrightarrow> pipe_step c (pi, ps) [] [] (pi, qs)"

inductive pipe_run :: "sched_cfg \<Rightarrow> pipesys \<Rightarrow> int list \<Rightarrow> int list \<Rightarrow> pipesys \<Rightarrow> bool" for c where
  stop: "pipe_run c s [] [] s"
| step: "pipe_step c s ws rs s' \<Longrightarrow> pipe_run c s' ws' rs' s'' \<Longrightarrow> pipe_run c s (ws @ ws') (rs @ rs') s''"

text \<open>A reader sleeps only while the pipe is empty, a writer only while it is full.\<close>

definition pipe_quiet :: "pipesys \<Rightarrow> bool" where
  "pipe_quiet s = (case s of (pi, ps) \<Rightarrow>
     (waiters_on ChPipeRead ps \<noteq> {} \<longrightarrow> pipe_empty pi \<and> writeopen pi \<and> readopen pi) \<and>
     (waiters_on ChPipeWrite ps \<noteq> {} \<longrightarrow> pipe_full pi \<and> readopen pi))"

declare waiters_wakeup [simp]

lemma waiters_sleep_begin [simp]:
  "cur < length ps \<Longrightarrow> waiters_on ch (upd_at ps cur (sleep_begin ch')) =
     (if ch' = ch then insert cur (waiters_on ch ps) else waiters_on ch ps - {cur})"
  by (auto simp: waiters_on_def nth_list_update waiting_on_def sleep_begin_def split: if_splits)

lemma waiters_sleep_end [simp]:
  "cur < length ps \<Longrightarrow> p_state (ps ! cur) = RUNNING \<Longrightarrow> waiters_on ch (upd_at ps cur sleep_end) = waiters_on ch ps"
  by (auto simp: waiters_on_def nth_list_update waiting_on_def sleep_end_def split: if_splits)

lemma full_not_empty: "pipe_ok pi \<Longrightarrow> pipe_full pi \<Longrightarrow> \<not> pipe_empty pi"
  using pipe_full_iff pipe_empty_iff by fastforce

lemma put_bytes_eq:
  assumes "pipe_content pi' = pipe_content pi @ ws" "pipe_ok pi'" "nread pi' = nread pi"
    "\<forall>j < length ws. copyin (i + int j) = Some (ws ! j)"
  shows "put_bytes copyin i pi pi' = ws"
proof -
  have "length ws \<le> 512"
    using assms(1,2) pipe_count(1) [of pi'] by (simp add: pipe_ok_def)
  moreover have "nwrite pi' - nwrite pi = of_nat (length ws)"
    using pipe_count(2) [of pi'] pipe_count(2) [of pi] assms(1,3) by simp
  ultimately have "unat (nwrite pi' - nwrite pi) = length ws"
    by (simp add: unsigned_of_nat take_bit_eq_mod)
  then show ?thesis using assms(4) by (auto simp: put_bytes_def intro!: nth_equalityI)
qed

lemma running_not_waiter: "p_state (ps ! cur) = RUNNING \<Longrightarrow> cur \<notin> waiters_on ch ps"
  by (simp add: waiters_on_def waiting_on_def)

lemma pipe_write_step:
  assumes ok: "pipe_ok pi" and q: "pipe_quiet (pi, ps)" and cur: "cur < length ps" "p_state (ps ! cur) = RUNNING"
    and nk: "\<not> p_killed (ps ! cur)" and w: "pipewrite_woken c cur copyin n i (pi, ps) = (r, (pi', ps'))"
  shows "pipe_ok pi' \<and> pipe_content pi' = pipe_content pi @ put_bytes copyin i pi pi' \<and> pipe_quiet (pi', ps')"
proof -
  let ?ps = "upd_at ps cur sleep_end"
  have len: "cur < length ?ps" using cur by simp
  have W: "waiters_on ch ?ps = waiters_on ch ps" for ch using cur by simp
  have nk': "\<not> p_killed (?ps ! cur)" using nk cur by (simp add: sleep_end_def)
  have w': "pipewrite c cur copyin n i (pi, ?ps) = (r, (pi', ps'))" using w by (simp add: pipewrite_woken_def)
  from pipewrite_spec [OF w' ok] obtain ws where ws: "pipe_content pi' = pipe_content pi @ ws" "pipe_ok pi'"
      "readopen pi' = readopen pi" "writeopen pi' = writeopen pi" "nread pi' = nread pi"
      "\<forall>j < length ws. copyin (i + int j) = Some (ws ! j)"
    and e: "write_end c cur copyin n (i + int (length ws)) ?ps r pi' ps'" by blast
  have full: "pipe_full pi \<Longrightarrow> ws = [] \<and> pipe_full pi'"
    using ws(1,2) pipe_full_iff [OF ok] pipe_full_iff [OF ws(2)] pipe_count(1) [of pi'] by (auto simp: pipe_ok_def)
  have "pipe_quiet (pi', ps')"
    using e nk' q full cur len ws(3,4) W
    by (auto simp: write_end_def pipe_quiet_def)
  with put_bytes_eq [OF ws(1,2,5,6)] ws(1,2) show ?thesis by simp
qed

lemma pipe_read_step:
  assumes ok: "pipe_ok pi" and q: "pipe_quiet (pi, ps)" and cur: "cur < length ps" "p_state (ps ! cur) = RUNNING"
    and ro: "readopen pi" and r: "piperead_woken c cur copyout n (pi, ps) = (r, chs, (pi', ps'))"
  shows "pipe_ok pi' \<and> pipe_content pi = chs @ pipe_content pi' \<and> pipe_quiet (pi', ps')"
proof -
  define qs where "qs = upd_at ps cur sleep_end"
  have len: "cur < length qs" using cur by (simp add: qs_def)
  have W: "waiters_on ch qs = waiters_on ch ps" for ch using cur by (simp add: qs_def)
  have r': "piperead c cur copyout n (pi, qs) = (r, chs, (pi', ps'))" using r by (simp add: piperead_woken_def qs_def)
  show ?thesis
  proof (cases "pipe_empty pi \<and> writeopen pi")
    case True
    with r' ok q ro len W full_not_empty [OF ok] show ?thesis
      by (auto simp: piperead_def pipe_quiet_def split: if_splits)
  next
    case False
    obtain m cs p1 where cp: "piperead_copy copyout n 0 pi = (m, cs, p1)" by (metis prod_cases3)
    with r' False have eqs: "chs = cs" "pi' = p1" "ps' = wakeup c ChPipeWrite qs"
      by (auto simp: piperead_def split: if_splits)
    have none: "waiters_on ChPipeRead ps = {}" using q False by (auto simp: pipe_quiet_def)
    have "pipe_quiet (pi', ps')" unfolding pipe_quiet_def eqs(3) using none W by simp
    with piperead_copy_spec [OF cp ok] eqs show ?thesis by simp
  qed
qed

lemma pipe_step_spec:
  assumes "pipe_step c s ws rs s'" "pipe_ok (fst s)" "pipe_quiet s"
  shows "pipe_ok (fst s') \<and> pipe_content (fst s) @ ws = rs @ pipe_content (fst s') \<and> pipe_quiet s'"
  using assms
proof (cases rule: pipe_step.cases)
  case (write_ cur ps copyin n i pi r pi' ps')
  from pipe_write_step [OF _ _ write_(5,6,7,8)] write_(1-4) assms(2,3) show ?thesis by simp
next
  case (read_ cur ps pi copyout n r)
  obtain pi' ps' where s': "s' = (pi', ps')" by fastforce
  from pipe_read_step [OF _ _ read_(3,4,5), of c copyout n r rs pi' ps'] read_ s' assms(2,3) show ?thesis by simp
next
  case (close_ writable f)
  obtain pi ps where s: "s = (pi, ps)" by fastforce
  show ?thesis
  proof (cases writable)
    case True
    then have "s' = (pi\<lparr>writeopen := False\<rparr>, wakeup c ChPipeRead ps)" using close_(4) s by (auto simp: pipeclose_def)
    with assms(2,3) s close_(1,2) show ?thesis
      by (auto simp: pipe_quiet_def pipe_ok_def pipe_content_def pipe_full_def)
  next
    case False
    then have "s' = (pi\<lparr>readopen := False\<rparr>, wakeup c ChPipeWrite ps)" "waiters_on ChPipeRead ps = {}"
      using close_(3,4) s by (auto simp: pipeclose_def)
    with assms(2,3) s close_(1,2) show ?thesis
      by (auto simp: pipe_quiet_def pipe_ok_def pipe_content_def)
  qed
next
  case (other ps qs pi)
  have "waiters_on ch qs \<subseteq> waiters_on ch ps" if "ch \<in> {ChPipeRead, ChPipeWrite}" for ch
    using other(5) that by (auto simp: no_new_waiters_def waiters_on_def)
  then have "waiters_on ChPipeRead qs \<subseteq> waiters_on ChPipeRead ps" "waiters_on ChPipeWrite qs \<subseteq> waiters_on ChPipeWrite ps" by auto
  with other(1-4) assms(2,3) show ?thesis by (auto simp: pipe_quiet_def)
qed

subsection \<open>Properties\<close>


definition pipe_demo :: pipesys where
  "pipe_demo =
     (\<lparr>pdata = replicate PIPESIZE 0, nread = -1, nwrite = -1, readopen = True, writeopen = True\<rparr>,
      [proc0\<lparr>p_state := RUNNING, p_pid := 1\<rparr>, proc0\<lparr>p_state := SLEEPING, p_chan := Some ChPipeRead, p_pid := 2\<rparr>])"

lemma pipe_demo_ok: "pipe_ok (fst pipe_demo)" "pipe_quiet pipe_demo"
  by (auto simp: pipe_demo_def pipe_ok_def pipe_quiet_def pipe_empty_def waiters_on_def waiting_on_def
      proc0_def less_Suc_eq)


text \<open>
  C38. A writer that is killed in the middle of a write loses the wakeup of a sleeping reader: it
  fills an empty pipe, finds it full and returns -1 before it has woken anybody, so the process
  table is left as it was, with every reader still asleep beside 512 unread bytes.
\<close>

theorem pipe_killed_writer_strands_readers:
  assumes "pipe_ok pi" "pipe_empty pi" "p_killed (ps ! cur)" "n > 512" "\<forall>i. copyin i \<noteq> None"
  shows "\<exists>pi'. pipewrite c cur copyin n 0 (pi, ps) = (PDone (-1), (pi', ps)) \<and> length (pipe_content pi') = 512"
proof -
  obtain r pi' ps' where w: "pipewrite c cur copyin n 0 (pi, ps) = (r, (pi', ps'))" by (metis prod_cases3)
  from pipewrite_spec [OF w assms(1)] obtain ws where ws: "pipe_content pi' = pipe_content pi @ ws" "pipe_ok pi'"
    and e: "write_end c cur copyin n (0 + int (length ws)) ps r pi' ps'" by blast
  have "int (length ws) < n" using ws pipe_count(1) [of pi'] assms(4) by (simp add: pipe_ok_def)
  with e assms(3,5) have "r = PDone (-1)" "ps' = ps" "pipe_full pi'" by (auto simp: write_end_def)
  with w pipe_full_iff [OF ws(2)] show ?thesis by auto
qed

theorem pipe_killed_writer_strands_readers_witness:
  "\<exists>pi'. pipewrite CfgMLFQ 0 (\<lambda>_. Some 65) 600 0 (fst pipe_demo, upd_at (snd pipe_demo) 0 (\<lambda>p. p\<lparr>p_killed := True\<rparr>)) =
      (PDone (-1), (pi', upd_at (snd pipe_demo) 0 (\<lambda>p. p\<lparr>p_killed := True\<rparr>))) \<and> length (pipe_content pi') = 512"
  by (rule pipe_killed_writer_strands_readers [OF pipe_demo_ok(1)]) (simp_all add: pipe_demo_def pipe_empty_def)

end
