(* ===== verification/Dmsg.thy ===== *)
theory Dmsg
  imports Pipe
begin

section \<open>Direct messages\<close>

text \<open>
  The direct message queue of a process: \<^verbatim>\<open>sys_dmsgsend\<close> and \<^verbatim>\<open>sys_dmsgrcv\<close> of
  \<^verbatim>\<open>kernel/sysproc.c\<close> and \<^verbatim>\<open>dmsg_close\<close> of \<^verbatim>\<open>kernel/proc/proc.c\<close>. The linked list
  from \<^verbatim>\<open>dmsg_head\<close> to \<^verbatim>\<open>dmsg_tail\<close> is the list \<open>dmsg_queue\<close> of the process. The
  copies from and to user memory and the page allocator are parameters: \<open>copyin n\<close> is the
  \<open>n\<close> bytes of the caller's buffer (\<open>None\<close> on a fault), \<open>copyout bs\<close> tells whether
  \<open>bs\<close> could be stored, \<open>mem\<close> whether \<^verbatim>\<open>kalloc\<close> had a page.
\<close>

abbreviation (input) DMSG_MAX :: int where "DMSG_MAX \<equiv> 128"
abbreviation (input) DMSG_QUEUE_MAX :: nat where "DMSG_QUEUE_MAX \<equiv> 16"

subsection \<open>Operations\<close>

definition dmsg_lock_target :: "int \<Rightarrow> ptable \<Rightarrow> nat option" where
  "dmsg_lock_target pid ps =
     (case find_idx (\<lambda>p. p_pid p = pid \<and> p_state p \<noteq> UNUSED) ps of
        None \<Rightarrow> None
      | Some i \<Rightarrow> if dmsg_closed (ps ! i) then None else Some i)"

definition dmsg_full :: "proc \<Rightarrow> bool" where
  "dmsg_full p \<longleftrightarrow> dmsg_count p \<ge> int DMSG_QUEUE_MAX"

definition dmsg_empty :: "proc \<Rightarrow> bool" where
  "dmsg_empty p \<longleftrightarrow> dmsg_count p = 0"

definition dmsg_put :: "dmsg \<Rightarrow> proc \<Rightarrow> proc" where
  "dmsg_put m p = p\<lparr>dmsg_queue := dmsg_queue p @ [m], dmsg_count := dmsg_count p + 1,
     dmsg_bytes := dmsg_bytes p + dm_len m\<rparr>"

definition dmsg_get :: "proc \<Rightarrow> dmsg \<times> proc" where
  "dmsg_get p = (let m = hd (dmsg_queue p) in
     (m, p\<lparr>dmsg_queue := tl (dmsg_queue p), dmsg_count := dmsg_count p - 1,
       dmsg_bytes := dmsg_bytes p - dm_len m\<rparr>))"

text \<open>
  \<^verbatim>\<open>sys_dmsgsend\<close> from the test of its inner loop on, with the message \<open>m\<close> for the
  process in slot \<open>i\<close>, and its continuation after a sleep.
\<close>

definition dmsg_send_loop :: "sched_cfg \<Rightarrow> nat \<Rightarrow> bool \<Rightarrow> nat \<Rightarrow> dmsg \<Rightarrow> ptable \<Rightarrow> outcome \<times> ptable" where
  "dmsg_send_loop c cur mem i m ps =
     (if dmsg_full (ps ! i) then (Blocked, upd_at ps cur (sleep_begin (ChDmsg i)))
      else if \<not> mem then (Done (-1), ps)
      else (Done 0, wakeupOneProc c (ChDmsg i) (upd_at ps i (dmsg_put m))))"

definition dmsg_send_woken :: "sched_cfg \<Rightarrow> nat \<Rightarrow> bool \<Rightarrow> nat \<Rightarrow> dmsg \<Rightarrow> ptable \<Rightarrow> outcome \<times> ptable" where
  "dmsg_send_woken c cur mem i m ps =
     (let ps = upd_at ps cur sleep_end in
      if dmsg_closed (ps ! i) then (Done (-1), ps) else dmsg_send_loop c cur mem i m ps)"

definition sys_dmsgsend :: "sched_cfg \<Rightarrow> nat \<Rightarrow> (int \<Rightarrow> int list option) \<Rightarrow> bool \<Rightarrow> int \<Rightarrow> int \<Rightarrow> ptable \<Rightarrow> outcome \<times> ptable" where
  "sys_dmsgsend c cur copyin mem pid len ps =
     (if pid \<le> 0 \<or> len < 0 \<or> len > DMSG_MAX then (Done (-1), ps)
      else case (if len > 0 then copyin len else Some []) of
             None \<Rightarrow> (Done (-1), ps)
           | Some kbuf \<Rightarrow>
               (case dmsg_lock_target pid ps of
                  None \<Rightarrow> (Done (-1), ps)
                | Some i \<Rightarrow> dmsg_send_loop c cur mem i
                    \<lparr>dm_len = len, dm_sender = p_pid (ps ! cur), dm_data = kbuf\<rparr> ps))"

text \<open>\<^verbatim>\<open>sys_dmsgrcv\<close>; the message taken off the queue, if any, is part of the result.\<close>

definition sys_dmsgrcv :: "sched_cfg \<Rightarrow> nat \<Rightarrow> (int list \<Rightarrow> bool) \<Rightarrow> int \<Rightarrow> ptable \<Rightarrow> outcome \<times> dmsg option \<times> ptable" where
  "sys_dmsgrcv c cur copyout len ps =
     (if len < 0 \<or> len > DMSG_MAX then (Done (-1), None, ps)
      else if dmsg_empty (ps ! cur) then
        (if p_killed (ps ! cur) \<or> dmsg_closed (ps ! cur) then (Done (-1), None, ps)
         else (Blocked, None, upd_at ps cur (sleep_begin (ChDmsg cur))))
      else if len < dm_len (hd (dmsg_queue (ps ! cur))) then (Done (-1), None, ps)
      else
        (let (m, p) = dmsg_get (ps ! cur);
             ps = wakeupOneProc c (ChDmsg cur) (ps[cur := p])
         in (if dm_len m > 0 \<and> \<not> copyout (dm_data m) then (Done (-1), Some m, ps)
             else (Done (dm_sender m), Some m, ps))))"

definition dmsg_rcv_woken :: "sched_cfg \<Rightarrow> nat \<Rightarrow> (int list \<Rightarrow> bool) \<Rightarrow> int \<Rightarrow> ptable \<Rightarrow> outcome \<times> dmsg option \<times> ptable" where
  "dmsg_rcv_woken c cur copyout len ps = sys_dmsgrcv c cur copyout len (upd_at ps cur sleep_end)"

text \<open>\<^verbatim>\<open>dmsg_close\<close>; the messages it frees are dropped.\<close>

definition dmsg_close :: "sched_cfg \<Rightarrow> nat \<Rightarrow> ptable \<Rightarrow> ptable" where
  "dmsg_close c i ps =
     wakeup c (ChDmsg i)
       (upd_at ps i (\<lambda>p. p\<lparr>dmsg_closed := True, dmsg_queue := [], dmsg_count := 0, dmsg_bytes := 0\<rparr>))"

subsection \<open>The message queue is a queue\<close>

definition dmsg_ok :: "proc \<Rightarrow> bool" where
  "dmsg_ok p \<longleftrightarrow> dmsg_count p = int (length (dmsg_queue p)) \<and> length (dmsg_queue p) \<le> DMSG_QUEUE_MAX \<and>
     dmsg_bytes p = sum_list (map dm_len (dmsg_queue p))"

interpretation dq: bounded_queue dmsg_queue DMSG_QUEUE_MAX dmsg_ok dmsg_full dmsg_empty dmsg_put dmsg_get
proof
  fix s :: proc assume ok: "dmsg_ok s" and ne: "\<not> dmsg_empty s"
  then show "dmsg_queue s = fst (dmsg_get s) # dmsg_queue (snd (dmsg_get s)) \<and> dmsg_ok (snd (dmsg_get s))"
    by (cases "dmsg_queue s") (auto simp: dmsg_ok_def dmsg_empty_def dmsg_get_def)
qed (auto simp: dmsg_ok_def dmsg_full_def dmsg_empty_def dmsg_put_def)

subsection \<open>Lemmas\<close>

text \<open>The view of a process that the message queue depends on.\<close>

definition dview :: "proc \<Rightarrow> dmsg list \<times> int \<times> int" where
  "dview p = (dmsg_queue p, dmsg_count p, dmsg_bytes p)"

lemma dview_simps [simp]:
  "dview (sleep_begin ch p) = dview p" "dview (sleep_end p) = dview p" "dview (wake_proc c p) = dview p"
  by (auto simp: dview_def sleep_begin_def sleep_end_def wake_proc_def mlfq_reset_def split: sched_cfg.splits)

lemma dview_upd [simp]:
  "(\<And>p. dview (f p) = dview p) \<Longrightarrow> dview (upd_at ps j f ! i) = dview (ps ! i)"
  by (rule field_upd_at)

lemma dview_wakeupOne [simp]: "dview (wakeupOneProc c ch ps ! i) = dview (ps ! i)"
  by (simp add: wakeupOneProc_def split: option.splits)

lemma dview_cong: "dview p = dview q \<Longrightarrow> dmsg_ok p = dmsg_ok q \<and> dmsg_queue p = dmsg_queue q \<and> dmsg_full p = dmsg_full q"
  by (simp add: dview_def dmsg_ok_def dmsg_full_def)

lemma send_loop_spec:
  assumes "dmsg_send_loop c cur mem j m ps = (r, ps')" "i < length ps" "dmsg_ok (ps ! i)"
  shows "length ps' = length ps \<and> dmsg_ok (ps' ! i) \<and>
    dmsg_queue (ps' ! i) = dmsg_queue (ps ! i) @ (if r = Done 0 \<and> j = i then [m] else [])"
proof (cases "r = Done 0 \<and> j = i")
  case True
  then have nf: "\<not> dmsg_full (ps ! i)" and ps': "ps' = wakeupOneProc c (ChDmsg i) (upd_at ps i (dmsg_put m))"
    using assms(1) by (auto simp: dmsg_send_loop_def split: if_splits)
  have "dview (ps' ! i) = dview (dmsg_put m (ps ! i))" using assms(2) by (simp add: ps')
  from dview_cong [OF this] dq.put_content [OF assms(3) nf, of m] True ps' show ?thesis by simp
next
  case False
  then have "dview (ps' ! i) = dview (ps ! i)" "length ps' = length ps"
    using assms(1) by (auto simp: dmsg_send_loop_def nth_list_update_neq split: if_splits)
  with dview_cong [OF this(1)] assms(3) False show ?thesis by simp
qed

lemma rcv_spec:
  assumes "sys_dmsgrcv c j copyout len ps = (r, mo, ps')" "i < length ps" "j < length ps" "dmsg_ok (ps ! i)"
  shows "length ps' = length ps \<and> dmsg_ok (ps' ! i) \<and>
    dmsg_queue (ps ! i) = (if j = i then (case mo of None \<Rightarrow> [] | Some m \<Rightarrow> [m]) else []) @ dmsg_queue (ps' ! i)"
proof (cases mo)
  case None
  then have "dview (ps' ! i) = dview (ps ! i)" "length ps' = length ps"
    using assms(1) by (auto simp: sys_dmsgrcv_def Let_def split: if_splits prod.splits)
  with dview_cong [OF this(1)] assms(4) None show ?thesis by simp
next
  case (Some m)
  then have ne: "\<not> dmsg_empty (ps ! j)" and m: "m = fst (dmsg_get (ps ! j))"
    and ps': "ps' = wakeupOneProc c (ChDmsg j) (ps[j := snd (dmsg_get (ps ! j))])"
    using assms(1) by (auto simp: sys_dmsgrcv_def Let_def split: if_splits prod.splits)
  show ?thesis
  proof (cases "j = i")
    case True
    then have "dview (ps' ! i) = dview (snd (dmsg_get (ps ! i)))" using assms(2) by (simp add: ps')
    from dview_cong [OF this] dq.get_content [OF assms(4)] ne m True Some ps' show ?thesis by auto
  next
    case False
    then have "dview (ps' ! i) = dview (ps ! i)" by (simp add: ps' nth_list_update_neq)
    with dview_cong [OF this] assms(4) False ps' show ?thesis by simp
  qed
qed

subsection \<open>Runs\<close>

text \<open>
  The steps that touch the queue of the process in slot \<open>i\<close> while it lives, with the messages
  sent to it and those it received. Other steps leave the queue alone.
\<close>

inductive dmsg_step :: "sched_cfg \<Rightarrow> nat \<Rightarrow> ptable \<Rightarrow> dmsg list \<Rightarrow> dmsg list \<Rightarrow> ptable \<Rightarrow> bool" for c i where
  send_: "sys_dmsgsend c cur copyin mem pid len ps = (r, ps') \<Longrightarrow>
    ms = (if r = Done 0 \<and> dmsg_lock_target pid ps = Some i
          then [\<lparr>dm_len = len, dm_sender = p_pid (ps ! cur), dm_data = (if len > 0 then the (copyin len) else [])\<rparr>] else []) \<Longrightarrow>
    dmsg_step c i ps ms [] ps'"
| send_woken_: "cur < length ps \<Longrightarrow> dmsg_send_woken c cur mem j m ps = (r, ps') \<Longrightarrow>
    ms = (if r = Done 0 \<and> j = i then [m] else []) \<Longrightarrow> dmsg_step c i ps ms [] ps'"
| rcv_: "cur < length ps \<Longrightarrow> dmsg_rcv_woken c cur copyout len ps = (r, mo, ps') \<Longrightarrow>
    ms = (if cur = i then (case mo of None \<Rightarrow> [] | Some m \<Rightarrow> [m]) else []) \<Longrightarrow> dmsg_step c i ps [] ms ps'"
| other: "length ps' = length ps \<Longrightarrow> dview (ps' ! i) = dview (ps ! i) \<Longrightarrow> dmsg_step c i ps [] [] ps'"

inductive dmsg_run :: "sched_cfg \<Rightarrow> nat \<Rightarrow> ptable \<Rightarrow> dmsg list \<Rightarrow> dmsg list \<Rightarrow> ptable \<Rightarrow> bool" for c i where
  stop: "dmsg_run c i ps [] [] ps"
| step: "dmsg_step c i ps ws rs ps' \<Longrightarrow> dmsg_run c i ps' ws' rs' ps'' \<Longrightarrow> dmsg_run c i ps (ws @ ws') (rs @ rs') ps''"

lemma dmsg_step_spec:
  assumes "dmsg_step c i ps ws rs ps'" "i < length ps" "dmsg_ok (ps ! i)"
  shows "length ps' = length ps \<and> dmsg_ok (ps' ! i) \<and> dmsg_queue (ps ! i) @ ws = rs @ dmsg_queue (ps' ! i)"
  using assms(1)
proof (cases rule: dmsg_step.cases)
  case (send_ cur copyin mem pid len r)
  show ?thesis
  proof (cases "\<exists>kbuf j. (if len > 0 then copyin len else Some []) = Some kbuf \<and> dmsg_lock_target pid ps = Some j \<and>
      ps' \<noteq> ps")
    case True
    then obtain kbuf j where k: "(if len > 0 then copyin len else Some []) = Some kbuf" "dmsg_lock_target pid ps = Some j"
      and "ps' \<noteq> ps" by blast
    then have l: "dmsg_send_loop c cur mem j \<lparr>dm_len = len, dm_sender = p_pid (ps ! cur), dm_data = kbuf\<rparr> ps = (r, ps')"
      using send_(2) by (auto simp: sys_dmsgsend_def split: if_splits)
    have "kbuf = (if len > 0 then the (copyin len) else [])" using k(1) by (auto split: if_splits)
    with send_loop_spec [OF l assms(2,3)] send_(1,3) k(2) show ?thesis by (auto split: if_splits)
  next
    case False
    have "ws = [] \<and> ps' = ps"
    proof (cases "r = Done 0")
      case True
      with send_(2) have "\<exists>kbuf j. (if len > 0 then copyin len else Some []) = Some kbuf \<and> dmsg_lock_target pid ps = Some j \<and>
          dmsg_send_loop c cur mem j \<lparr>dm_len = len, dm_sender = p_pid (ps ! cur), dm_data = kbuf\<rparr> ps = (Done 0, ps')"
        by (auto simp: sys_dmsgsend_def split: if_splits option.splits)
      with False obtain kbuf j where j: "dmsg_lock_target pid ps = Some j" "ps' = ps"
        "dmsg_send_loop c cur mem j \<lparr>dm_len = len, dm_sender = p_pid (ps ! cur), dm_data = kbuf\<rparr> ps = (Done 0, ps')" by blast
      have "j \<noteq> i" using send_loop_spec [OF j(3) assms(2,3)] j(2) by auto
      with j send_(3) show ?thesis by simp
    next
      case no: False
      with False send_(2,3) show ?thesis
        by (auto simp: sys_dmsgsend_def split: if_splits option.splits)
    qed
    with assms(3) send_(1) show ?thesis by simp
  qed
next
  case (send_woken_ cur mem j m r)
  let ?ps = "upd_at ps cur sleep_end"
  have v: "dview (?ps ! i) = dview (ps ! i)" by simp
  show ?thesis
  proof (cases "dmsg_closed (?ps ! j)")
    case True
    with send_woken_ v dview_cong [OF v] assms(3) show ?thesis by (auto simp: dmsg_send_woken_def)
  next
    case False
    then have l: "dmsg_send_loop c cur mem j m ?ps = (r, ps')" using send_woken_(3) by (simp add: dmsg_send_woken_def)
    from send_loop_spec [OF l, of i] dview_cong [OF v] assms(2,3) send_woken_(1,4) show ?thesis by simp
  qed
next
  case (rcv_ cur copyout len r mo)
  let ?ps = "upd_at ps cur sleep_end"
  have v: "dview (?ps ! i) = dview (ps ! i)" by simp
  from rcv_(3) have l: "sys_dmsgrcv c cur copyout len ?ps = (r, mo, ps')" by (simp add: dmsg_rcv_woken_def)
  from rcv_spec [OF l, of i] dview_cong [OF v] assms(2,3) rcv_(1,2,4) show ?thesis by simp
next
  case other
  with dview_cong [of "ps' ! i" "ps ! i"] assms(3) show ?thesis by simp
qed

subsection \<open>Properties\<close>


definition dmsg_demo :: ptable where
  "dmsg_demo = [proc0\<lparr>p_state := RUNNING, p_pid := 1\<rparr>, proc0\<lparr>p_state := RUNNABLE, p_pid := 2\<rparr>]"


end
