(* ===== verification/Bio.thy ===== *)
theory Bio
  imports Prelude
begin

section \<open>The buffer cache\<close>

text \<open>
  \<^verbatim>\<open>kernel/filesystem/bio.c\<close>: 30 buffers, hashed by block number into 13 buckets, replaced
  by the clock algorithm, with one block of read-ahead. A bucket is the list of the indices of its
  buffers from \<^verbatim>\<open>head.next\<close> on. The disk is part of the state, with the history of the writes
  it has performed; a transfer by \<^verbatim>\<open>virtio_disk_rw\<close> is one step, and it ignores the device
  number as the driver does.

  The sleep lock of a buffer is the pid of its holder. An operation that would sleep on a held
  buffer ends with \<open>BSleep\<close>; \<open>bget_woken\<close> continues it. Spin locks make each operation
  atomic, so the second look-up of \<^verbatim>\<open>bget_common\<close>, under the eviction lock, runs in the state
  of the first unless the two are taken apart as \<open>bucket_find\<close> and \<open>bget_evict\<close>.
\<close>

abbreviation (input) NBUF :: nat where "NBUF \<equiv> 30"
abbreviation (input) NBUCKET :: nat where "NBUCKET \<equiv> 13"
abbreviation (input) BSIZE :: nat where "BSIZE \<equiv> 1024"
abbreviation (input) FSSIZE :: nat where "FSSIZE \<equiv> 100000"

definition ROOTDEV :: nat where
  "ROOTDEV = 1"

lemma ROOTDEV_pos [simp]: "ROOTDEV \<noteq> 0" "0 \<noteq> ROOTDEV"
  by (simp_all add: ROOTDEV_def)

type_synonym block = "nat list"

record buf =
  b_valid :: bool
  b_dev :: nat
  b_blockno :: nat
  b_owner :: "int option"
  b_refcnt :: int
  b_refbit :: bool
  b_data :: block

record bcache =
  bufs :: "buf list"
  buckets :: "nat list list"
  clock_hand :: nat
  ra_dev :: nat
  ra_blockno :: nat
  disk :: "nat \<Rightarrow> block"
  dwrites :: "(nat \<times> block) list"

text \<open>The outcomes of an operation, and sequencing.\<close>

datatype 'a bout = BRet 'a | BSleep nat | BPanic string

type_synonym 'a bop = "bcache \<Rightarrow> 'a bout \<times> bcache"

definition bbind :: "('s \<Rightarrow> 'a bout \<times> 's) \<Rightarrow> ('a \<Rightarrow> 's \<Rightarrow> 'b bout \<times> 's) \<Rightarrow> 's \<Rightarrow> 'b bout \<times> 's" where
  "bbind m f s =
     (case m s of
        (BRet a, s') \<Rightarrow> f a s'
      | (BSleep i, s') \<Rightarrow> (BSleep i, s')
      | (BPanic e, s') \<Rightarrow> (BPanic e, s'))"

definition HASH :: "nat \<Rightarrow> nat" where
  "HASH n = n mod NBUCKET"

abbreviation upd_buf :: "nat \<Rightarrow> (buf \<Rightarrow> buf) \<Rightarrow> bcache \<Rightarrow> bcache" where
  "upd_buf i f s \<equiv> s\<lparr>bufs := upd_at (bufs s) i f\<rparr>"

subsection \<open>Operations\<close>

definition bucket_find :: "nat \<Rightarrow> nat \<Rightarrow> bcache \<Rightarrow> nat option" where
  "bucket_find dev blockno s =
     find (\<lambda>i. b_dev (bufs s ! i) = dev \<and> b_blockno (bufs s ! i) = blockno) (buckets s ! HASH blockno)"

definition buf_cached :: "nat \<Rightarrow> nat \<Rightarrow> bcache \<Rightarrow> bool" where
  "buf_cached dev blockno s \<longleftrightarrow> bucket_find dev blockno s \<noteq> None"

text \<open>\<^verbatim>\<open>acquiresleep(&b->lock)\<close> for the process \<open>me\<close>.\<close>

definition bget_woken :: "int \<Rightarrow> nat \<Rightarrow> nat option bop" where
  "bget_woken me i s =
     (if b_owner (bufs s ! i) \<noteq> None then (BSleep i, s)
      else (BRet (Some i), upd_buf i (\<lambda>b. b\<lparr>b_owner := Some me\<rparr>) s))"

definition bget_hit :: "int \<Rightarrow> nat \<Rightarrow> nat option bop" where
  "bget_hit me i s =
     bget_woken me i (upd_buf i (\<lambda>b. b\<lparr>b_refcnt := u32 (b_refcnt b + 1), b_refbit := True\<rparr>) s)"

text \<open>The clock hand, for at most \<open>n\<close> more buffers; the victim is taken out of its bucket.\<close>

fun clock_scan :: "nat \<Rightarrow> bcache \<Rightarrow> nat option \<times> bcache" where
  "clock_scan 0 s = (None, s)"
| "clock_scan (Suc n) s =
     (let i = clock_hand s; b = bufs s ! i; s = s\<lparr>clock_hand := (i + 1) mod NBUF\<rparr> in
      if b_refcnt b = 0 then
        (if b_refbit b then clock_scan n (upd_buf i (\<lambda>b. b\<lparr>b_refbit := False\<rparr>) s)
         else (Some i, upd_buf i (\<lambda>b. b\<lparr>b_refcnt := 1\<rparr>)
                 (s\<lparr>buckets := upd_at (buckets s) (HASH (b_blockno b)) (remove1 i)\<rparr>)))
      else clock_scan n s)"

definition bget_evict :: "int \<Rightarrow> nat \<Rightarrow> nat \<Rightarrow> bool \<Rightarrow> nat option bop" where
  "bget_evict me dev blockno must_succeed s =
     (case bucket_find dev blockno s of
        Some i \<Rightarrow> bget_hit me i s
      | None \<Rightarrow>
          (case clock_scan (NBUF * 2) s of
             (None, s) \<Rightarrow> (if must_succeed then BPanic ''bget: no buffers'' else BRet None, s)
           | (Some v, s) \<Rightarrow>
               bget_woken me v
                 (upd_buf v (\<lambda>b. b\<lparr>b_dev := dev, b_blockno := blockno, b_valid := False, b_refbit := True\<rparr>)
                   (s\<lparr>buckets := upd_at (buckets s) (HASH blockno) (Cons v)\<rparr>))))"

definition bget_common :: "int \<Rightarrow> nat \<Rightarrow> nat \<Rightarrow> bool \<Rightarrow> nat option bop" where
  "bget_common me dev blockno must_succeed s =
     (case bucket_find dev blockno s of
        Some i \<Rightarrow> bget_hit me i s
      | None \<Rightarrow> bget_evict me dev blockno must_succeed s)"

definition should_readahead :: "nat \<Rightarrow> nat \<Rightarrow> bcache \<Rightarrow> bool \<times> bcache" where
  "should_readahead dev blockno s =
     (ra_dev s = dev \<and> (ra_blockno s + 1) mod 2 ^ 32 = blockno, s\<lparr>ra_dev := dev, ra_blockno := blockno\<rparr>)"

definition bfill :: "nat \<Rightarrow> bcache \<Rightarrow> bcache" where
  "bfill i s =
     (if \<not> b_valid (bufs s ! i)
      then upd_buf i (\<lambda>b. b\<lparr>b_data := disk s (b_blockno b), b_valid := True\<rparr>) s else s)"

definition bwrite :: "int \<Rightarrow> nat \<Rightarrow> unit bop" where
  "bwrite me i s =
     (if b_owner (bufs s ! i) \<noteq> Some me then (BPanic ''bwrite'', s)
      else (let b = bufs s ! i in
        (BRet (), s\<lparr>disk := (disk s)(b_blockno b := b_data b), dwrites := dwrites s @ [(b_blockno b, b_data b)]\<rparr>)))"

definition brelse :: "int \<Rightarrow> nat \<Rightarrow> unit bop" where
  "brelse me i s =
     (if b_owner (bufs s ! i) \<noteq> Some me then (BPanic ''brelse'', s)
      else (BRet (), upd_buf i (\<lambda>b. b\<lparr>b_owner := None, b_refcnt := u32 (b_refcnt b - 1)\<rparr>) s))"

definition bpin :: "nat \<Rightarrow> bcache \<Rightarrow> bcache" where
  "bpin i s = upd_buf i (\<lambda>b. b\<lparr>b_refcnt := u32 (b_refcnt b + 1)\<rparr>) s"

definition bunpin :: "nat \<Rightarrow> bcache \<Rightarrow> bcache" where
  "bunpin i s = upd_buf i (\<lambda>b. b\<lparr>b_refcnt := u32 (b_refcnt b - 1)\<rparr>) s"

definition readahead :: "int \<Rightarrow> nat \<Rightarrow> nat \<Rightarrow> unit bop" where
  "readahead me dev blockno s =
     (if blockno \<ge> FSSIZE then (BRet (), s)
      else if buf_cached dev blockno s then (BRet (), s)
      else bbind (bget_common me dev blockno False)
             (\<lambda>r. case r of
                None \<Rightarrow> (\<lambda>s. (BRet (), s))
              | Some i \<Rightarrow> (\<lambda>s. brelse me i (upd_buf i (\<lambda>b. b\<lparr>b_refbit := False\<rparr>) (bfill i s)))) s)"

definition bread :: "int \<Rightarrow> nat \<Rightarrow> nat \<Rightarrow> nat bop" where
  "bread me dev blockno =
     bbind (bget_common me dev blockno True)
       (\<lambda>r s. case r of
          None \<Rightarrow> (BPanic ''bget: no buffers'', s)
        | Some i \<Rightarrow>
            (let (seq, s) = should_readahead dev blockno (bfill i s) in
             if seq then bbind (readahead me dev ((blockno + 1) mod 2 ^ 32)) (\<lambda>_ s. (BRet i, s)) s
             else (BRet i, s)))"

definition binit :: "(nat \<Rightarrow> block) \<Rightarrow> block \<Rightarrow> bcache" where
  "binit d junk =
     \<lparr>bufs = replicate NBUF \<lparr>b_valid = False, b_dev = 0, b_blockno = 0, b_owner = None, b_refcnt = 0, b_refbit = False, b_data = junk\<rparr>,
      buckets = (rev [0..<NBUF]) # replicate (NBUCKET - 1) [],
      clock_hand = 0, ra_dev = 2 ^ 32 - 1, ra_blockno = 0, disk = d, dwrites = []\<rparr>"

text \<open>What a caller does to the data of a buffer it holds.\<close>

definition bset :: "nat \<Rightarrow> block \<Rightarrow> bcache \<Rightarrow> bcache" where
  "bset i d s = upd_buf i (\<lambda>b. b\<lparr>b_data := d\<rparr>) s"

subsection \<open>The clock\<close>

text \<open>A buffer without its reference bit, the only field that the clock changes on its way.\<close>

definition core :: "buf \<Rightarrow> buf" where
  "core b = b\<lparr>b_refbit := False\<rparr>"

lemma core_simps [simp]:
  "b_valid (core b) = b_valid b" "b_dev (core b) = b_dev b" "b_blockno (core b) = b_blockno b"
  "b_owner (core b) = b_owner b" "b_refcnt (core b) = b_refcnt b" "b_data (core b) = b_data b"
  "core (b\<lparr>b_refbit := x\<rparr>) = core b" "core (b\<lparr>b_refcnt := r\<rparr>) = (core b)\<lparr>b_refcnt := r\<rparr>"
  by (simp_all add: core_def)

lemma core_eqD:
  assumes "core b = core c"
  shows "b_valid b = b_valid c" "b_dev b = b_dev c" "b_blockno b = b_blockno c"
    "b_owner b = b_owner c" "b_refcnt b = b_refcnt c" "b_data b = b_data c"
  using assms by (metis core_simps(1), metis core_simps(2), metis core_simps(3), metis core_simps(4),
      metis core_simps(5), metis core_simps(6))

definition same_but_ref :: "bcache \<Rightarrow> bcache \<Rightarrow> bool" where
  "same_but_ref s t \<longleftrightarrow> map core (bufs t) = map core (bufs s) \<and> buckets t = buckets s \<and>
     disk t = disk s \<and> dwrites t = dwrites s \<and> ra_dev t = ra_dev s \<and> ra_blockno t = ra_blockno s"

text \<open>The victim \<open>v\<close> of the clock: free, out of its bucket, with one reference.\<close>

definition victim_of :: "bcache \<Rightarrow> nat \<Rightarrow> bcache \<Rightarrow> bool" where
  "victim_of s v t \<longleftrightarrow> v < length (bufs s) \<and> b_refcnt (bufs s ! v) = 0 \<and>
     map core (bufs t) = (map core (bufs s))[v := (core (bufs s ! v))\<lparr>b_refcnt := 1\<rparr>] \<and>
     buckets t = upd_at (buckets s) (HASH (b_blockno (bufs s ! v))) (remove1 v) \<and>
     disk t = disk s \<and> dwrites t = dwrites s \<and> ra_dev t = ra_dev s \<and> ra_blockno t = ra_blockno s"

lemma same_but_refD:
  assumes "same_but_ref s t"
  shows "length (bufs t) = length (bufs s)" "i < length (bufs s) \<Longrightarrow> core (bufs t ! i) = core (bufs s ! i)"
proof -
  from assms have m: "map core (bufs t) = map core (bufs s)" by (simp add: same_but_ref_def)
  then show l: "length (bufs t) = length (bufs s)" by (metis length_map)
  show "i < length (bufs s) \<Longrightarrow> core (bufs t ! i) = core (bufs s ! i)" using m l by (metis nth_map)
qed

lemma same_victim: "same_but_ref s t \<Longrightarrow> victim_of t v u \<Longrightarrow> victim_of s v u"
  using same_but_refD [of s t] core_eqD [of "bufs t ! v" "bufs s ! v"]
  by (auto simp: same_but_ref_def victim_of_def)

lemma same_trans: "same_but_ref s t \<Longrightarrow> same_but_ref t u \<Longrightarrow> same_but_ref s u"
  by (auto simp: same_but_ref_def)

lemma clock_scan_result:
  assumes "clock_scan n s = (r, t)" "clock_hand s < NBUF" "length (bufs s) = NBUF"
  shows "clock_hand t < NBUF \<and> (case r of None \<Rightarrow> same_but_ref s t | Some v \<Rightarrow> victim_of s v t)"
  using assms
proof (induction n arbitrary: s)
  case 0
  then show ?case by (auto simp: same_but_ref_def)
next
  case (Suc n)
  let ?i = "clock_hand s"
  define s1 where "s1 = s\<lparr>clock_hand := (?i + 1) mod NBUF\<rparr>"
  define s2 where "s2 = (if b_refcnt (bufs s ! ?i) = 0 then upd_buf ?i (\<lambda>b. b\<lparr>b_refbit := False\<rparr>) s1 else s1)"
  have s2: "same_but_ref s s2" "clock_hand s2 < NBUF" "length (bufs s2) = NBUF"
    using Suc.prems(2,3) by (auto simp: s2_def s1_def same_but_ref_def map_update list_update_same_conv)
  show ?case
  proof (cases "b_refcnt (bufs s ! ?i) = 0 \<and> \<not> b_refbit (bufs s ! ?i)")
    case True
    then have "r = Some ?i" "t = upd_buf ?i (\<lambda>b. b\<lparr>b_refcnt := 1\<rparr>)
        (s1\<lparr>buckets := upd_at (buckets s) (HASH (b_blockno (bufs s ! ?i))) (remove1 ?i)\<rparr>)"
      using Suc.prems(1) by (auto simp: s1_def Let_def)
    then show ?thesis using True Suc.prems(2,3) by (simp add: victim_of_def s1_def map_update)
  next
    case False
    then have "clock_scan n s2 = (r, t)"
      using Suc.prems(1) by (auto simp: s1_def s2_def Let_def split: if_splits)
    from Suc.IH [OF this s2(2,3)] s2(1) show ?thesis
      by (auto split: option.splits intro: same_trans same_victim)
  qed
qed

lemma clock_scan_add:
  "clock_scan (m + n) s = (case clock_scan m s of (None, t) \<Rightarrow> clock_scan n t | r \<Rightarrow> r)"
proof (induction m arbitrary: s)
  case (Suc m)
  then show ?case by (auto simp: Let_def split: option.splits)
qed simp

lemma clock_scan_hand:
  "clock_scan n s = (None, t) \<Longrightarrow> clock_hand s < NBUF \<Longrightarrow> clock_hand t = (clock_hand s + n) mod NBUF"
proof (induction n arbitrary: s)
  case (Suc n)
  then show ?case by (fastforce simp: Let_def mod_simps split: if_splits)
qed auto

text \<open>Reference bits are only cleared, and a free buffer that is passed ends with a clear one.\<close>

lemma clock_scan_refbit:
  assumes "clock_scan n s = (None, t)" "clock_hand s < NBUF" "length (bufs s) = NBUF" "i < NBUF"
    "b_refcnt (bufs s ! i) = 0" "\<not> b_refbit (bufs s ! i) \<or> (\<exists>j < n. i = (clock_hand s + j) mod NBUF)"
  shows "\<not> b_refbit (bufs t ! i)"
  using assms
proof (induction n arbitrary: s)
  case (Suc n)
  let ?i = "clock_hand s"
  define s1 where "s1 = s\<lparr>clock_hand := (?i + 1) mod NBUF\<rparr>"
  define s2 where "s2 = (if b_refcnt (bufs s ! ?i) = 0 then upd_buf ?i (\<lambda>b. b\<lparr>b_refbit := False\<rparr>) s1 else s1)"
  have rec: "clock_scan n s2 = (None, t)" using Suc.prems(1) by (auto simp: s1_def s2_def Let_def split: if_splits)
  have len: "clock_hand s2 < NBUF" "length (bufs s2) = NBUF" using Suc.prems(3) by (auto simp: s1_def s2_def)
  have rc: "b_refcnt (bufs s2 ! i) = 0" using Suc.prems(2-5) by (auto simp: s1_def s2_def nth_list_update)
  have "\<not> b_refbit (bufs s2 ! i) \<or> (\<exists>j < n. i = (clock_hand s2 + j) mod NBUF)"
  proof (cases "\<not> b_refbit (bufs s2 ! i)")
    case False
    then have "i \<noteq> ?i" "b_refbit (bufs s ! i)"
      using Suc.prems(2-5) by (auto simp: s1_def s2_def nth_list_update split: if_splits)
    with Suc.prems(2,6) obtain j where j: "j < Suc n" "i = (?i + j) mod NBUF" "j \<noteq> 0" by (metis add.right_neutral mod_less)
    then obtain j' where j': "j = Suc j'" by (cases j) auto
    have "clock_hand s2 = (?i + 1) mod NBUF" by (simp add: s2_def s1_def)
    with j j' show ?thesis by (intro disjI2 exI [of _ j']) (simp add: mod_simps)
  qed simp
  from Suc.IH [OF rec len Suc.prems(4) rc this] show ?case .
qed auto

lemma clock_scan_takes:
  assumes "clock_hand s < NBUF" "length (bufs s) = NBUF" "j < n" "i = (clock_hand s + j) mod NBUF"
    "b_refcnt (bufs s ! i) = 0" "\<not> b_refbit (bufs s ! i)"
  shows "fst (clock_scan n s) \<noteq> None"
  using assms
proof (induction n arbitrary: s j)
  case (Suc n)
  let ?i = "clock_hand s"
  define s1 where "s1 = s\<lparr>clock_hand := (?i + 1) mod NBUF\<rparr>"
  define s2 where "s2 = (if b_refcnt (bufs s ! ?i) = 0 then upd_buf ?i (\<lambda>b. b\<lparr>b_refbit := False\<rparr>) s1 else s1)"
  show ?case
  proof (cases "b_refcnt (bufs s ! ?i) = 0 \<and> \<not> b_refbit (bufs s ! ?i)")
    case False
    then have eq: "clock_scan (Suc n) s = clock_scan n s2" by (auto simp: s1_def s2_def Let_def)
    have "i \<noteq> ?i" using False Suc.prems(5,6) by auto
    then obtain j' where j: "j = Suc j'" using Suc.prems(1,4) by (cases j) auto
    have h: "clock_hand s2 = (?i + 1) mod NBUF" by (simp add: s2_def s1_def)
    have i: "i = (clock_hand s2 + j') mod NBUF" unfolding h using Suc.prems(4) j by (simp add: mod_simps)
    have "fst (clock_scan n s2) \<noteq> None"
      using Suc.prems(1,2,3,5,6) j
      by (intro Suc.IH [OF _ _ _ i]) (auto simp: s1_def s2_def nth_list_update)
    with eq show ?thesis by simp
  qed (simp add: Let_def)
qed simp

lemma mod_reach: "i < (30 :: nat) \<Longrightarrow> h < 30 \<Longrightarrow> \<exists>j < 30. i = (h + j) mod 30"
  by (rule exI [of _ "if i \<ge> h then i - h else i + 30 - h"]) auto

text \<open>Two rounds of the clock find a free buffer if there is one.\<close>

lemma clock_finds:
  assumes "clock_hand s < NBUF" "length (bufs s) = NBUF" "i < NBUF" "b_refcnt (bufs s ! i) = 0"
  shows "fst (clock_scan (NBUF * 2) s) \<noteq> None"
proof (cases "clock_scan NBUF s")
  case (Pair r t)
  have two: "clock_scan (NBUF * 2) s = (case clock_scan NBUF s of (None, t) \<Rightarrow> clock_scan NBUF t | r \<Rightarrow> r)"
    using clock_scan_add [of NBUF NBUF s] by simp
  show ?thesis
  proof (cases r)
    case None
    note sc = Pair [unfolded None]
    obtain j where j: "j < NBUF" "i = (clock_hand s + j) mod NBUF" using mod_reach [OF assms(3,1)] by blast
    have nb: "\<not> b_refbit (bufs t ! i)" using clock_scan_refbit [OF sc assms(1-4)] j by blast
    have t: "clock_hand t < NBUF" "same_but_ref s t" using clock_scan_result [OF sc assms(1,2)] by auto
    then have rc: "b_refcnt (bufs t ! i) = 0" "length (bufs t) = NBUF"
      using same_but_refD [OF t(2)] core_eqD(5) [of "bufs t ! i" "bufs s ! i"] assms(2-4) by auto
    obtain j' where j': "j' < NBUF" "i = (clock_hand t + j') mod NBUF" using mod_reach [OF assms(3) t(1)] by blast
    have "fst (clock_scan NBUF t) \<noteq> None" by (rule clock_scan_takes [OF t(1) rc(2) j' rc(1) nb])
    then show ?thesis unfolding two sc by simp
  next
    case (Some v)
    then show ?thesis unfolding two Pair by simp
  qed
qed

subsection \<open>Invariant and abstraction\<close>

text \<open>
  A buffer in use holds valid data; a buffer nobody uses agrees with the disk, so that it can be
  given away without a write.
\<close>

definition buf_ok :: "(nat \<Rightarrow> block) \<Rightarrow> buf \<Rightarrow> bool" where
  "buf_ok d b \<longleftrightarrow> (b_dev b = 0 \<or> b_dev b = ROOTDEV) \<and> 0 \<le> b_refcnt b \<and> b_refcnt b < 2 ^ 32 \<and>
     (b_owner b \<noteq> None \<longrightarrow> b_refcnt b \<noteq> 0) \<and> (b_dev b = 0 \<longrightarrow> b_refcnt b = 0 \<and> \<not> b_valid b) \<and>
     (b_refcnt b \<noteq> 0 \<longrightarrow> b_valid b) \<and> (b_refcnt b = 0 \<longrightarrow> b_valid b \<longrightarrow> b_data b = d (b_blockno b))"

definition bio_inv :: "bcache \<Rightarrow> bool" where
  "bio_inv s \<longleftrightarrow> length (bufs s) = NBUF \<and> length (buckets s) = NBUCKET \<and> clock_hand s < NBUF \<and>
     (\<forall>k < NBUCKET. distinct (buckets s ! k) \<and>
        set (buckets s ! k) = {i. i < NBUF \<and> HASH (b_blockno (bufs s ! i)) = k}) \<and>
     (\<forall>i < NBUF. \<forall>j < NBUF. b_dev (bufs s ! i) \<noteq> 0 \<longrightarrow> b_dev (bufs s ! i) = b_dev (bufs s ! j) \<longrightarrow>
        b_blockno (bufs s ! i) = b_blockno (bufs s ! j) \<longrightarrow> i = j) \<and>
     (\<forall>i < NBUF. buf_ok (disk s) (bufs s ! i))"

text \<open>
  What a cache stands for: the contents that readers see, the number of users of each block, and
  the process that holds it.
\<close>

definition view :: "bcache \<Rightarrow> nat \<Rightarrow> block" where
  "view s n = (case bucket_find ROOTDEV n s of
     None \<Rightarrow> disk s n
   | Some i \<Rightarrow> if b_valid (bufs s ! i) then b_data (bufs s ! i) else disk s n)"

definition uses :: "bcache \<Rightarrow> nat \<Rightarrow> int" where
  "uses s n = (case bucket_find ROOTDEV n s of None \<Rightarrow> 0 | Some i \<Rightarrow> b_refcnt (bufs s ! i))"

definition hold :: "bcache \<Rightarrow> nat \<Rightarrow> int option" where
  "hold s n = (case bucket_find ROOTDEV n s of None \<Rightarrow> None | Some i \<Rightarrow> b_owner (bufs s ! i))"

definition buf_at :: "bcache \<Rightarrow> nat \<Rightarrow> nat \<Rightarrow> bool" where
  "buf_at s i n \<longleftrightarrow> bucket_find ROOTDEV n s = Some i"

lemma HASH_less: "HASH n < NBUCKET"
  by (simp add: HASH_def)

lemma bio_invD:
  assumes "bio_inv s"
  shows "length (bufs s) = NBUF" "length (buckets s) = NBUCKET" "clock_hand s < NBUF"
    "k < NBUCKET \<Longrightarrow> distinct (buckets s ! k)"
    "k < NBUCKET \<Longrightarrow> set (buckets s ! k) = {i. i < NBUF \<and> HASH (b_blockno (bufs s ! i)) = k}"
    "i < NBUF \<Longrightarrow> j < NBUF \<Longrightarrow> b_dev (bufs s ! i) \<noteq> 0 \<Longrightarrow> b_dev (bufs s ! i) = b_dev (bufs s ! j) \<Longrightarrow>
       b_blockno (bufs s ! i) = b_blockno (bufs s ! j) \<Longrightarrow> i = j"
    "i < NBUF \<Longrightarrow> buf_ok (disk s) (bufs s ! i)"
  using assms unfolding bio_inv_def by blast+

lemma bio_invI:
  assumes "length (bufs s) = NBUF" "length (buckets s) = NBUCKET" "clock_hand s < NBUF"
    "\<And>k. k < NBUCKET \<Longrightarrow> distinct (buckets s ! k)"
    "\<And>k. k < NBUCKET \<Longrightarrow> set (buckets s ! k) = {i. i < NBUF \<and> HASH (b_blockno (bufs s ! i)) = k}"
    "\<And>i j. i < NBUF \<Longrightarrow> j < NBUF \<Longrightarrow> b_dev (bufs s ! i) \<noteq> 0 \<Longrightarrow> b_dev (bufs s ! i) = b_dev (bufs s ! j) \<Longrightarrow>
       b_blockno (bufs s ! i) = b_blockno (bufs s ! j) \<Longrightarrow> i = j"
    "\<And>i. i < NBUF \<Longrightarrow> buf_ok (disk s) (bufs s ! i)"
  shows "bio_inv s"
  using assms unfolding bio_inv_def by blast

lemma bucket_find_iff:
  assumes "bio_inv s"
  shows "bucket_find ROOTDEV n s = Some i \<longleftrightarrow>
    i < NBUF \<and> b_dev (bufs s ! i) = ROOTDEV \<and> b_blockno (bufs s ! i) = n"
proof
  assume "bucket_find ROOTDEV n s = Some i"
  then have "i \<in> set (buckets s ! HASH n) \<and> b_dev (bufs s ! i) = ROOTDEV \<and> b_blockno (bufs s ! i) = n"
    unfolding bucket_find_def by (auto simp: find_Some_iff)
  then show "i < NBUF \<and> b_dev (bufs s ! i) = ROOTDEV \<and> b_blockno (bufs s ! i) = n"
    using bio_invD(5) [OF assms HASH_less, of n] by auto
next
  assume r: "i < NBUF \<and> b_dev (bufs s ! i) = ROOTDEV \<and> b_blockno (bufs s ! i) = n"
  then have "i \<in> set (buckets s ! HASH n)" using bio_invD(5) [OF assms HASH_less, of n] by auto
  with r have "bucket_find ROOTDEV n s \<noteq> None" unfolding bucket_find_def by (auto simp: find_None_iff)
  then obtain j where j: "bucket_find ROOTDEV n s = Some j" by auto
  then have "j \<in> set (buckets s ! HASH n) \<and> b_dev (bufs s ! j) = ROOTDEV \<and> b_blockno (bufs s ! j) = n"
    unfolding bucket_find_def by (auto simp: find_Some_iff)
  then have "j = i" using bio_invD(5) [OF assms HASH_less, of n] r bio_invD(6) [OF assms, of j i] by auto
  with j show "bucket_find ROOTDEV n s = Some i" by simp
qed

lemma bucket_find_upd:
  assumes "\<And>b. b_dev (f b) = b_dev b" "\<And>b. b_blockno (f b) = b_blockno b"
  shows "bucket_find d n (upd_buf i f s) = bucket_find d n s"
  using field_upd_at [of b_dev f "bufs s" i, OF assms(1)] field_upd_at [of b_blockno f "bufs s" i, OF assms(2)]
  by (simp add: bucket_find_def)

lemma bio_inv_upd:
  assumes "bio_inv s" "\<And>b. b_dev (f b) = b_dev b" "\<And>b. b_blockno (f b) = b_blockno b"
    "i < NBUF \<Longrightarrow> buf_ok (disk s) (f (bufs s ! i))"
  shows "bio_inv (upd_buf i f s)"
proof (cases "i < NBUF")
  case True
  with assms(4) have ok: "buf_ok (disk s) (f (bufs s ! i))" by simp
  then have "\<forall>j < NBUF. buf_ok (disk s) (upd_at (bufs s) i f ! j)"
    using True bio_invD(1,7) [OF assms(1)] by (simp add: nth_list_update)
  then show ?thesis
    using assms(1) field_upd_at [of b_dev f "bufs s" i, OF assms(2)] field_upd_at [of b_blockno f "bufs s" i, OF assms(3)]
    by (simp add: bio_inv_def)
next
  case False
  then show ?thesis using assms(1) bio_invD(1) [OF assms(1)] by (simp add: list_update_beyond)
qed

lemma abs_upd:
  assumes "bio_inv s" "buf_at s i n" "\<And>b. b_dev (f b) = b_dev b" "\<And>b. b_blockno (f b) = b_blockno b"
  shows "view (upd_buf i f s) = (view s)(n := if b_valid (f (bufs s ! i)) then b_data (f (bufs s ! i)) else disk s n)"
    "uses (upd_buf i f s) = (uses s)(n := b_refcnt (f (bufs s ! i)))"
    "hold (upd_buf i f s) = (hold s)(n := b_owner (f (bufs s ! i)))"
    "buf_at (upd_buf i f s) = buf_at s"
proof -
  have bf: "bucket_find ROOTDEV m (upd_buf i f s) = bucket_find ROOTDEV m s" for m
    by (rule bucket_find_upd) (fact assms(3), fact assms(4))
  have i: "i < length (bufs s)" "b_blockno (bufs s ! i) = n"
    using assms(1,2) bucket_find_iff [OF assms(1)] bio_invD(1) [OF assms(1)] by (auto simp: buf_at_def)
  have nth: "upd_at (bufs s) i f ! j = (if m = n then f (bufs s ! i) else bufs s ! j) \<and> (m = n \<longrightarrow> j = i)"
    if "bucket_find ROOTDEV m s = Some j" for m j
  proof (cases "m = n")
    case True
    with that assms(2) i show ?thesis by (simp add: buf_at_def)
  next
    case False
    with that i bucket_find_iff [OF assms(1), of m j] have "j \<noteq> i" by auto
    with False show ?thesis by simp
  qed
  show "buf_at (upd_buf i f s) = buf_at s" by (simp add: buf_at_def fun_eq_iff bf)
  have at: "bucket_find ROOTDEV n s = Some i" using assms(2) by (simp add: buf_at_def)
  show "view (upd_buf i f s) = (view s)(n := if b_valid (f (bufs s ! i)) then b_data (f (bufs s ! i)) else disk s n)"
  proof
    fix m
    show "view (upd_buf i f s) m = ((view s)(n := if b_valid (f (bufs s ! i)) then b_data (f (bufs s ! i)) else disk s n)) m"
    proof (cases "bucket_find ROOTDEV m s")
      case None
      with at show ?thesis by (auto simp: view_def bf)
    next
      case (Some j)
      with nth [OF Some] at i(1) show ?thesis by (cases "m = n") (simp_all add: view_def bf)
    qed
  qed
  show "uses (upd_buf i f s) = (uses s)(n := b_refcnt (f (bufs s ! i)))"
  proof
    fix m
    show "uses (upd_buf i f s) m = ((uses s)(n := b_refcnt (f (bufs s ! i)))) m"
    proof (cases "bucket_find ROOTDEV m s")
      case None
      with at show ?thesis by (auto simp: uses_def bf)
    next
      case (Some j)
      with nth [OF Some] at i(1) show ?thesis by (cases "m = n") (simp_all add: uses_def bf)
    qed
  qed
  show "hold (upd_buf i f s) = (hold s)(n := b_owner (f (bufs s ! i)))"
  proof
    fix m
    show "hold (upd_buf i f s) m = ((hold s)(n := b_owner (f (bufs s ! i)))) m"
    proof (cases "bucket_find ROOTDEV m s")
      case None
      with at show ?thesis by (auto simp: hold_def bf)
    next
      case (Some j)
      with nth [OF Some] at i(1) show ?thesis by (cases "m = n") (simp_all add: hold_def bf)
    qed
  qed
qed

lemma buf_atD:
  assumes "bio_inv s" "buf_at s i n"
  shows "i < NBUF" "b_dev (bufs s ! i) = ROOTDEV" "b_blockno (bufs s ! i) = n" "buf_ok (disk s) (bufs s ! i)"
    "uses s n = b_refcnt (bufs s ! i)" "hold s n = b_owner (bufs s ! i)"
    "b_valid (bufs s ! i) \<Longrightarrow> view s n = b_data (bufs s ! i)"
proof -
  from assms(2) have f: "bucket_find ROOTDEV n s = Some i" by (simp add: buf_at_def)
  then show "i < NBUF" "b_dev (bufs s ! i) = ROOTDEV" "b_blockno (bufs s ! i) = n" "buf_ok (disk s) (bufs s ! i)"
    using bucket_find_iff [OF assms(1)] bio_invD(7) [OF assms(1)] by auto
  show "uses s n = b_refcnt (bufs s ! i)" "hold s n = b_owner (bufs s ! i)"
    "b_valid (bufs s ! i) \<Longrightarrow> view s n = b_data (bufs s ! i)"
    using f by (simp_all add: uses_def hold_def view_def)
qed

subsection \<open>Getting a buffer\<close>

lemma bget_miss:
  assumes inv: "bio_inv s" and nf: "bucket_find ROOTDEV n s = None" and free: "i < NBUF" "b_refcnt (bufs s ! i) = 0"
  obtains v t where "bget_common me ROOTDEV n must s = (BRet (Some v), t)" "v < NBUF" "b_refcnt (bufs s ! v) = 0"
    "\<And>j. j < NBUF \<Longrightarrow> core (bufs t ! j) = (if j = v then \<lparr>b_valid = False, b_dev = ROOTDEV, b_blockno = n,
        b_owner = Some me, b_refcnt = 1, b_refbit = False, b_data = b_data (bufs s ! v)\<rparr> else core (bufs s ! j))"
    "buckets t = upd_at (upd_at (buckets s) (HASH (b_blockno (bufs s ! v))) (remove1 v)) (HASH n) (Cons v)"
    "disk t = disk s" "dwrites t = dwrites s" "clock_hand t < NBUF" "length (bufs t) = NBUF"
proof -
  note len = bio_invD(1,3) [OF inv]
  obtain r u where sc: "clock_scan (NBUF * 2) s = (r, u)" by fastforce
  with clock_finds [OF len(2,1) free] obtain v where r: "r = Some v" by auto
  from clock_scan_result [OF sc len(2,1)] r have vic: "victim_of s v u" "clock_hand u < NBUF" by auto
  define t0 where "t0 = upd_buf v (\<lambda>b. b\<lparr>b_dev := ROOTDEV, b_blockno := n, b_valid := False, b_refbit := True\<rparr>)
      (u\<lparr>buckets := upd_at (buckets u) (HASH n) (Cons v)\<rparr>)"
  define t where "t = upd_buf v (\<lambda>b. b\<lparr>b_owner := Some me\<rparr>) t0"
  have v: "v < NBUF" "b_refcnt (bufs s ! v) = 0" using vic(1) len by (auto simp: victim_of_def)
  have own: "b_owner (bufs s ! v) = None" using bio_invD(7) [OF inv v(1)] v(2) by (auto simp: buf_ok_def)
  have lu: "length (bufs u) = NBUF" using vic(1) len by (metis length_list_update length_map victim_of_def)
  have cu: "core (bufs u ! j) = (if j = v then (core (bufs s ! v))\<lparr>b_refcnt := 1\<rparr> else core (bufs s ! j))" if "j < NBUF" for j
  proof -
    have "map core (bufs u) ! j = (map core (bufs s))[v := (core (bufs s ! v))\<lparr>b_refcnt := 1\<rparr>] ! j"
      using vic(1) by (simp add: victim_of_def)
    then show ?thesis using that lu len by (simp add: nth_list_update split: if_splits)
  qed
  have uv: "b_owner (bufs u ! v) = None" "b_data (bufs u ! v) = b_data (bufs s ! v)" "b_refcnt (bufs u ! v) = 1"
    using cu [OF v(1)] own core_eqD(4-6) [of "bufs u ! v" "(bufs s ! v)\<lparr>b_refcnt := 1\<rparr>"] by auto
  have "bget_common me ROOTDEV n must s = (BRet (Some v), t)"
    using nf sc r uv lu v by (simp add: bget_common_def bget_evict_def bget_woken_def t_def t0_def)
  moreover have "core (bufs t ! j) = (if j = v then \<lparr>b_valid = False, b_dev = ROOTDEV, b_blockno = n,
        b_owner = Some me, b_refcnt = 1, b_refbit = False, b_data = b_data (bufs s ! v)\<rparr> else core (bufs s ! j))" if "j < NBUF" for j
    using cu [OF that] that uv lu v by (cases "j = v") (simp_all add: t_def t0_def core_def)
  moreover have "buckets t = upd_at (upd_at (buckets s) (HASH (b_blockno (bufs s ! v))) (remove1 v)) (HASH n) (Cons v)"
    using vic(1) by (simp add: t_def t0_def victim_of_def)
  ultimately show ?thesis using that [of v t] v vic lu by (simp add: t_def t0_def victim_of_def)
qed

lemma set_bucket_move:
  assumes "bio_inv s" "v < NBUF" "k < NBUCKET"
  shows "set (upd_at (upd_at (buckets s) (HASH (b_blockno (bufs s ! v))) (remove1 v)) (HASH n) (Cons v) ! k) =
      {i. i < NBUF \<and> HASH (if i = v then n else b_blockno (bufs s ! i)) = k}"
    "distinct (upd_at (upd_at (buckets s) (HASH (b_blockno (bufs s ! v))) (remove1 v)) (HASH n) (Cons v) ! k)"
proof -
  let ?h = "HASH (b_blockno (bufs s ! v))"
  note len = bio_invD(2) [OF assms(1)]
  have rem: "set (upd_at (buckets s) ?h (remove1 v) ! k) = {i. i < NBUF \<and> HASH (b_blockno (bufs s ! i)) = k} - {v}"
    "distinct (upd_at (buckets s) ?h (remove1 v) ! k)" if "k < NBUCKET" for k
    using bio_invD(4,5) [OF assms(1) that] len HASH_less that by (auto simp: nth_list_update)
  show "set (upd_at (upd_at (buckets s) ?h (remove1 v)) (HASH n) (Cons v) ! k) =
      {i. i < NBUF \<and> HASH (if i = v then n else b_blockno (bufs s ! i)) = k}"
  proof (cases "k = HASH n")
    case True
    then have "upd_at (upd_at (buckets s) ?h (remove1 v)) (HASH n) (Cons v) ! k = v # upd_at (buckets s) ?h (remove1 v) ! k"
      using assms(3) len by simp
    then show ?thesis using rem(1) [OF assms(3)] True assms(2) by auto
  next
    case False
    then have "upd_at (upd_at (buckets s) ?h (remove1 v)) (HASH n) (Cons v) ! k = upd_at (buckets s) ?h (remove1 v) ! k" by simp
    then show ?thesis using rem(1) [OF assms(3)] False by auto
  qed
  show "distinct (upd_at (upd_at (buckets s) ?h (remove1 v)) (HASH n) (Cons v) ! k)"
  proof (cases "k = HASH n")
    case True
    then have "upd_at (upd_at (buckets s) ?h (remove1 v)) (HASH n) (Cons v) ! k = v # upd_at (buckets s) ?h (remove1 v) ! k"
      using assms(3) len by simp
    then show ?thesis using rem [OF assms(3)] by simp
  next
    case False
    then have "upd_at (upd_at (buckets s) ?h (remove1 v)) (HASH n) (Cons v) ! k = upd_at (buckets s) ?h (remove1 v) ! k" by simp
    then show ?thesis using rem(2) [OF assms(3)] by simp
  qed
qed

text \<open>
  A process got the buffer of block \<open>n\<close>: nothing a reader sees has changed, the block has one
  more user and is held, and the buffers in use stay where they are.
\<close>

definition got :: "int \<Rightarrow> bcache \<Rightarrow> nat \<Rightarrow> nat \<Rightarrow> bcache \<Rightarrow> bool" where
  "got me s n i t \<longleftrightarrow> bio_inv t \<and> disk t = disk s \<and> dwrites t = dwrites s \<and> view t = view s \<and>
     uses t = (uses s)(n := uses s n + 1) \<and> hold t = (hold s)(n := Some me) \<and> buf_at t i n \<and>
     (\<forall>j m. buf_at s j m \<longrightarrow> uses s m \<noteq> 0 \<longrightarrow> buf_at t j m)"

lemma miss_got:
  assumes inv: "bio_inv s" and nf: "bucket_find ROOTDEV n s = None" and v: "v < NBUF" "b_refcnt (bufs s ! v) = 0"
    and t: "\<And>j. j < NBUF \<Longrightarrow> core (bufs t ! j) = (if j = v then \<lparr>b_valid = True, b_dev = ROOTDEV, b_blockno = n,
        b_owner = Some me, b_refcnt = 1, b_refbit = False, b_data = disk s n\<rparr> else core (bufs s ! j))"
      "buckets t = upd_at (upd_at (buckets s) (HASH (b_blockno (bufs s ! v))) (remove1 v)) (HASH n) (Cons v)"
      "disk t = disk s" "dwrites t = dwrites s" "clock_hand t < NBUF" "length (bufs t) = NBUF"
  shows "got me s n v t"
proof -
  define nb where "nb = \<lparr>b_valid = True, b_dev = ROOTDEV, b_blockno = n,
      b_owner = Some me, b_refcnt = 1, b_refbit = False, b_data = disk s n\<rparr>"
  have tv: "core (bufs t ! v) = core nb" using t(1) [OF v(1)] by (simp add: nb_def core_def)
  have tj: "core (bufs t ! j) = core (bufs s ! j)" if "j < NBUF" "j \<noteq> v" for j using t(1) [OF that(1)] that(2) by simp
  note fv = core_eqD [OF tv] and fj = core_eqD [OF tj]
  have bno: "b_blockno (bufs t ! j) = (if j = v then n else b_blockno (bufs s ! j))" if "j < NBUF" for j
    using fv(3) fj(3) [OF that] by (simp add: nb_def)
  have lb: "length (buckets t) = NBUCKET" using t(2) bio_invD(2) [OF inv] by simp
  have sets: "distinct (buckets t ! k)" "set (buckets t ! k) = {i. i < NBUF \<and> HASH (b_blockno (bufs t ! i)) = k}"
    if "k < NBUCKET" for k
    using set_bucket_move [OF inv v(1) that, of n] bno unfolding t(2) by auto
  have nfree: "\<not> (b_dev (bufs s ! j) = ROOTDEV \<and> b_blockno (bufs s ! j) = n)" if "j < NBUF" for j
    using nf bucket_find_iff [OF inv, of n j] that by auto
  have ok: "buf_ok (disk t) (bufs t ! j)" if "j < NBUF" for j
  proof (cases "j = v")
    case True
    then show ?thesis using fv by (simp add: buf_ok_def nb_def t(3))
  next
    case False
    with bio_invD(7) [OF inv that] fj [OF that False] t(3) show ?thesis by (simp add: buf_ok_def)
  qed
  have uniq: "i = j" if "i < NBUF" "j < NBUF" "b_dev (bufs t ! i) \<noteq> 0" "b_dev (bufs t ! i) = b_dev (bufs t ! j)"
      "b_blockno (bufs t ! i) = b_blockno (bufs t ! j)" for i j
  proof -
    have "b_dev (bufs t ! v) = ROOTDEV" "b_blockno (bufs t ! v) = n" using fv(2,3) by (simp_all add: nb_def)
    moreover have "b_dev (bufs t ! k) = b_dev (bufs s ! k) \<and> b_blockno (bufs t ! k) = b_blockno (bufs s ! k)"
      if "k < NBUF" "k \<noteq> v" for k using fj(2,3) [OF that] by simp
    ultimately show ?thesis using that nfree bio_invD(6) [OF inv that(1,2)] by metis
  qed
  have invt: "bio_inv t" by (rule bio_invI [OF t(6) lb t(5) sets uniq ok])
  have find_t: "bucket_find ROOTDEV m t = (if m = n then Some v
      else case bucket_find ROOTDEV m s of None \<Rightarrow> None | Some j \<Rightarrow> if j = v then None else Some j)" for m
  proof (cases "m = n")
    case True
    then show ?thesis using bucket_find_iff [OF invt, of n v] fv v(1) by (simp add: nb_def)
  next
    case False
    have iff: "bucket_find ROOTDEV m t = Some j \<longleftrightarrow> bucket_find ROOTDEV m s = Some j \<and> j \<noteq> v" for j
    proof (cases "j = v")
      case True
      with bucket_find_iff [OF invt, of m j] fv(3) False show ?thesis by (simp add: nb_def)
    next
      case jv: False
      show ?thesis
        using bucket_find_iff [OF invt, of m j] bucket_find_iff [OF inv, of m j] fj(2,3) [OF _ jv] jv by auto
    qed
    show ?thesis
    proof (cases "bucket_find ROOTDEV m s")
      case None
      with iff have "bucket_find ROOTDEV m t = None" by (metis not_None_eq option.distinct(1))
      with None False show ?thesis by simp
    next
      case (Some j)
      show ?thesis
      proof (cases "j = v")
        case True
        with iff Some have "bucket_find ROOTDEV m t = None" by (metis not_None_eq option.inject)
        with Some True False show ?thesis by simp
      next
        case jv: False
        with iff Some have "bucket_find ROOTDEV m t = Some j" by blast
        with Some jv False show ?thesis by simp
      qed
    qed
  qed
  have evicted: "view s m = disk s m \<and> uses s m = 0 \<and> hold s m = None" if "bucket_find ROOTDEV m s = Some v" for m
  proof -
    have "buf_at s v m" using that by (simp add: buf_at_def)
    from buf_atD [OF inv this] v(2) show ?thesis by (auto simp: buf_ok_def view_def that)
  qed
  have new: "view s n = disk s n" "uses s n = 0" "hold s n = None" using nf by (simp_all add: view_def uses_def hold_def)
  have kept: "view t m = view s m \<and> uses t m = uses s m \<and> hold t m = hold s m" if "m \<noteq> n" for m
  proof (cases "bucket_find ROOTDEV m s")
    case None
    with find_t [of m] that show ?thesis by (simp add: view_def uses_def hold_def t(3))
  next
    case (Some j)
    then have j: "j < NBUF" using bucket_find_iff [OF inv] by auto
    show ?thesis
    proof (cases "j = v")
      case True
      with find_t [of m] that Some evicted [of m] show ?thesis by (simp add: view_def uses_def hold_def t(3))
    next
      case False
      with find_t [of m] that Some fj [OF j False] show ?thesis by (simp add: view_def uses_def hold_def t(3))
    qed
  qed
  have "view t n = disk s n" "uses t n = 1" "hold t n = Some me"
    using find_t [of n] fv by (simp_all add: view_def uses_def hold_def nb_def)
  with kept new have "view t m = view s m" "uses t m = ((uses s)(n := uses s n + 1)) m"
      "hold t m = ((hold s)(n := Some me)) m" for m
    by (cases "m = n"; simp)+
  then have eqs: "view t = view s" "uses t = (uses s)(n := uses s n + 1)" "hold t = (hold s)(n := Some me)" by blast+
  have stay: "buf_at t j m" if "buf_at s j m" "uses s m \<noteq> 0" for j m
  proof -
    have "j \<noteq> v" using that v(2) by (auto simp: buf_at_def uses_def)
    moreover have "m \<noteq> n" using that nf by (auto simp: buf_at_def)
    ultimately show ?thesis using that(1) find_t [of m] by (simp add: buf_at_def)
  qed
  show ?thesis unfolding got_def using invt eqs stay find_t [of n] t(3,4) by (simp add: buf_at_def)
qed

lemma hit_got:
  assumes inv: "bio_inv s" and at: "buf_at s i n" and h: "hold s n = None" and u: "uses s n < 2 ^ 32 - 1"
  shows "\<exists>t. bget_hit me i s = (BRet (Some i), t) \<and> got me s n i (bfill i t)"
proof -
  note b = buf_atD [OF inv at]
  define f where "f b = b\<lparr>b_refcnt := u32 (b_refcnt b + 1), b_refbit := True, b_owner := Some me\<rparr>" for b :: buf
  define g where "g b = (if b_valid b then f b else (f b)\<lparr>b_data := disk s (b_blockno b), b_valid := True\<rparr>)" for b
  let ?t = "upd_buf i f s"
  have len: "i < length (bufs s)" using b(1) bio_invD(1) [OF inv] by simp
  have hit: "bget_hit me i s = (BRet (Some i), ?t)"
    using h b(6) len by (simp add: bget_hit_def bget_woken_def f_def)
  have fill: "bfill i ?t = upd_buf i g s" using len by (simp add: bfill_def g_def f_def)
  have keep: "b_dev (g c) = b_dev c" "b_blockno (g c) = b_blockno c" for c by (simp_all add: g_def f_def)
  have cnt: "u32 (b_refcnt (bufs s ! i) + 1) = b_refcnt (bufs s ! i) + 1"
    using b(4,5) u by (simp add: u32_def buf_ok_def)
  have ok: "buf_ok (disk s) (g (bufs s ! i))" using b(2,4) u b(5) cnt by (auto simp: g_def f_def buf_ok_def)
  have "view s n = (if b_valid (bufs s ! i) then b_data (bufs s ! i) else disk s n)"
    using at by (simp add: view_def buf_at_def)
  with abs_upd [OF inv at keep] b(3,5) cnt have "view (upd_buf i g s) = view s"
    "uses (upd_buf i g s) = (uses s)(n := uses s n + 1)" "hold (upd_buf i g s) = (hold s)(n := Some me)"
    by (auto simp: g_def f_def fun_eq_iff)
  moreover have "bio_inv (upd_buf i g s)" by (rule bio_inv_upd [OF inv keep ok])
  ultimately show ?thesis using hit fill abs_upd(4) [OF inv at keep] at by (simp add: got_def)
qed

lemma bget_got:
  assumes inv: "bio_inv s" and h: "hold s n = None" and u: "uses s n < 2 ^ 32 - 1"
    and free: "uses s n \<noteq> 0 \<or> (\<exists>i < NBUF. b_refcnt (bufs s ! i) = 0)"
  shows "\<exists>i t. bget_common me ROOTDEV n must s = (BRet (Some i), t) \<and> got me s n i (bfill i t)"
proof (cases "bucket_find ROOTDEV n s")
  case None
  then have "uses s n = 0" by (simp add: uses_def)
  with free obtain i where i: "i < NBUF" "b_refcnt (bufs s ! i) = 0" by auto
  obtain v t where t: "bget_common me ROOTDEV n must s = (BRet (Some v), t)" "v < NBUF" "b_refcnt (bufs s ! v) = 0"
    "\<And>j. j < NBUF \<Longrightarrow> core (bufs t ! j) = (if j = v then \<lparr>b_valid = False, b_dev = ROOTDEV, b_blockno = n,
        b_owner = Some me, b_refcnt = 1, b_refbit = False, b_data = b_data (bufs s ! v)\<rparr> else core (bufs s ! j))"
    "buckets t = upd_at (upd_at (buckets s) (HASH (b_blockno (bufs s ! v))) (remove1 v)) (HASH n) (Cons v)"
    "disk t = disk s" "dwrites t = dwrites s" "clock_hand t < NBUF" "length (bufs t) = NBUF"
    by (rule bget_miss [OF inv None i, where me = me and must = must]) blast
  have c: "core (bufs t ! v) = \<lparr>b_valid = False, b_dev = ROOTDEV, b_blockno = n, b_owner = Some me, b_refcnt = 1,
      b_refbit = False, b_data = b_data (bufs s ! v)\<rparr>" using t(4) [OF t(2)] by simp
  have bv: "\<not> b_valid (bufs t ! v)" "b_blockno (bufs t ! v) = n"
    using arg_cong [OF c, of b_valid] arg_cong [OF c, of b_blockno] by simp_all
  define w where "w = bfill v t"
  have w: "w = upd_buf v (\<lambda>b. b\<lparr>b_data := disk s n, b_valid := True\<rparr>) t" using bv t(6) by (simp add: w_def bfill_def)
  have "core ((bufs t ! v)\<lparr>b_data := disk s n, b_valid := True\<rparr>) = (core (bufs t ! v))\<lparr>b_data := disk s n, b_valid := True\<rparr>"
    by (simp add: core_def)
  then have wv: "core (bufs w ! v) = \<lparr>b_valid = True, b_dev = ROOTDEV, b_blockno = n,
        b_owner = Some me, b_refcnt = 1, b_refbit = False, b_data = disk s n\<rparr>"
    using t(2,9) c by (simp add: w)
  have "got me s n v w"
  proof (rule miss_got [OF inv None t(2,3)])
    fix j assume "j < NBUF"
    then show "core (bufs w ! j) = (if j = v then \<lparr>b_valid = True, b_dev = ROOTDEV, b_blockno = n,
        b_owner = Some me, b_refcnt = 1, b_refbit = False, b_data = disk s n\<rparr> else core (bufs s ! j))"
      using wv t(4) by (simp add: w)
  qed (use t in \<open>simp_all add: w\<close>)
  with t(1) show ?thesis by (auto simp: w_def)
next
  case (Some i)
  then have at: "buf_at s i n" by (simp add: buf_at_def)
  from hit_got [OF inv at h u, of me] Some show ?thesis by (auto simp: bget_common_def)
qed

subsection \<open>The remaining operations\<close>

text \<open>Nothing that the clients of the cache see has changed.\<close>

definition unseen :: "bcache \<Rightarrow> bcache \<Rightarrow> bool" where
  "unseen s t \<longleftrightarrow> bio_inv t \<and> disk t = disk s \<and> dwrites t = dwrites s \<and> view t = view s \<and> uses t = uses s \<and>
     hold t = hold s \<and> (\<forall>j m. buf_at s j m \<longrightarrow> uses s m \<noteq> 0 \<longrightarrow> buf_at t j m)"

lemma got_unseen: "got me s n i t \<Longrightarrow> uses s n + 1 \<noteq> 0 \<Longrightarrow> unseen t u \<Longrightarrow> got me s n i u"
  by (auto simp: got_def unseen_def)

lemma bucket_find_same:
  assumes "bio_inv s" "same_but_ref s t"
  shows "bucket_find d n t = bucket_find d n s"
proof -
  have in_range: "i < NBUF" if "i \<in> set (buckets s ! HASH n)" for i
    using bio_invD(5) [OF assms(1) HASH_less] that by blast
  have "b_dev (bufs t ! i) = b_dev (bufs s ! i) \<and> b_blockno (bufs t ! i) = b_blockno (bufs s ! i)" if "i < NBUF" for i
    using core_eqD(2,3) [OF same_but_refD(2) [OF assms(2)]] that bio_invD(1) [OF assms(1)] by simp
  with in_range have "(b_dev (bufs t ! i) = d \<and> b_blockno (bufs t ! i) = n) =
      (b_dev (bufs s ! i) = d \<and> b_blockno (bufs s ! i) = n)" if "i \<in> set (buckets s ! HASH n)" for i
    using that by simp
  moreover have "buckets t = buckets s" using assms(2) by (simp add: same_but_ref_def)
  ultimately show ?thesis unfolding bucket_find_def by (intro find_cong) simp_all
qed

lemma same_unseen:
  assumes inv: "bio_inv s" and same: "same_but_ref s t" and hand: "clock_hand t < NBUF"
  shows "unseen s t"
proof -
  have eq: "core (bufs t ! i) = core (bufs s ! i)" if "i < NBUF" for i
    using same_but_refD(2) [OF same] that bio_invD(1) [OF inv] by simp
  note f = core_eqD [OF eq]
  have sm: "buckets t = buckets s" "disk t = disk s" "dwrites t = dwrites s" using same by (simp_all add: same_but_ref_def)
  have ok: "buf_ok (disk t) (bufs t ! i)" if "i < NBUF" for i
    using bio_invD(7) [OF inv that] f [OF that] sm by (simp add: buf_ok_def)
  have inv_t: "bio_inv t"
  proof (rule bio_invI)
    show "i = j" if "i < NBUF" "j < NBUF" "b_dev (bufs t ! i) \<noteq> 0" "b_dev (bufs t ! i) = b_dev (bufs t ! j)"
      "b_blockno (bufs t ! i) = b_blockno (bufs t ! j)" for i j
      using bio_invD(6) [OF inv that(1,2)] that f(2,3) [OF that(1)] f(2,3) [OF that(2)] by simp
    show "set (buckets t ! k) = {i. i < NBUF \<and> HASH (b_blockno (bufs t ! i)) = k}" if "k < NBUCKET" for k
      using bio_invD(5) [OF inv that] f(3) sm by auto
  qed (use bio_invD(1,2,4) [OF inv] same_but_refD(1) [OF same] sm hand ok in simp_all)
  have bf: "bucket_find ROOTDEV n t = bucket_find ROOTDEV n s" for n by (rule bucket_find_same [OF inv same])
  have abs: "view t n = view s n \<and> uses t n = uses s n \<and> hold t n = hold s n" for n
  proof (cases "bucket_find ROOTDEV n s")
    case (Some i)
    then have "i < NBUF" using bucket_find_iff [OF inv] by auto
    with f [of i] Some bf [of n] sm show ?thesis by (simp add: view_def uses_def hold_def)
  qed (use bf [of n] sm in \<open>simp add: view_def uses_def hold_def\<close>)
  then have "view t = view s" "uses t = uses s" "hold t = hold s" by blast+
  with inv_t sm bf show ?thesis by (simp add: unseen_def buf_at_def)
qed

lemma brelse_spec:
  assumes inv: "bio_inv s" and at: "buf_at s i n" and h: "hold s n = Some me"
    and clean: "uses s n = 1 \<Longrightarrow> view s n = disk s n"
  shows "\<exists>t. brelse me i s = (BRet (), t) \<and> bio_inv t \<and> disk t = disk s \<and> dwrites t = dwrites s \<and> view t = view s \<and>
    uses t = (uses s)(n := u32 (uses s n - 1)) \<and> hold t = (hold s)(n := None) \<and> buf_at t = buf_at s"
proof -
  note b = buf_atD [OF inv at]
  define f where "f b = b\<lparr>b_owner := None, b_refcnt := u32 (b_refcnt b - 1)\<rparr>" for b :: buf
  have keep: "b_dev (f c) = b_dev c" "b_blockno (f c) = b_blockno c" for c by (simp_all add: f_def)
  have nz: "b_refcnt (bufs s ! i) \<noteq> 0" using b(4,6) h by (auto simp: buf_ok_def)
  then have val: "b_valid (bufs s ! i)" "0 < b_refcnt (bufs s ! i)" "b_refcnt (bufs s ! i) < 2 ^ 32"
    using b(4) by (auto simp: buf_ok_def)
  then have cnt: "u32 (b_refcnt (bufs s ! i) - 1) = b_refcnt (bufs s ! i) - 1" by (simp add: u32_def)
  have "buf_ok (disk s) (f (bufs s ! i))"
    using b clean cnt val by (auto simp: f_def buf_ok_def)
  then have "bio_inv (upd_buf i f s)" by (rule bio_inv_upd [OF inv keep])
  moreover have "brelse me i s = (BRet (), upd_buf i f s)" using h b(6) by (simp add: brelse_def f_def)
  ultimately show ?thesis using abs_upd [OF inv at keep] b(5,7) val(1) by (auto simp: f_def)
qed

lemma unseen_refbit:
  assumes "bio_inv s"
  shows "unseen s (upd_buf i (\<lambda>b. b\<lparr>b_refbit := x\<rparr>) s)"
proof (rule same_unseen [OF assms])
  show "same_but_ref s (upd_buf i (\<lambda>b. b\<lparr>b_refbit := x\<rparr>) s)"
    using bio_invD(1) [OF assms] by (cases "i < NBUF") (simp_all add: same_but_ref_def map_update list_update_same_conv list_update_beyond)
qed (use bio_invD(3) [OF assms] in simp)

lemma unseen_trans: "unseen s t \<Longrightarrow> unseen t u \<Longrightarrow> unseen s u"
  by (auto simp: unseen_def)

lemma same_unseen_ra:
  assumes "bio_inv s" "bufs t = bufs s" "buckets t = buckets s" "disk t = disk s" "dwrites t = dwrites s"
    "clock_hand t = clock_hand s"
  shows "unseen s t"
proof -
  have bf: "bucket_find d n t = bucket_find d n s" for d n using assms(2,3) by (simp add: bucket_find_def)
  have "view t = view s" "uses t = uses s" "hold t = hold s" "buf_at t = buf_at s"
    by (intro ext, simp add: view_def uses_def hold_def buf_at_def bf assms(2,4) split: option.split)+
  moreover have "bio_inv t" using assms by (simp add: bio_inv_def)
  ultimately show ?thesis using assms(4,5) by (simp add: unseen_def)
qed

lemma unseen_ra: "bio_inv s \<Longrightarrow> unseen s (s\<lparr>ra_dev := d, ra_blockno := k\<rparr>)"
  by (rule same_unseen_ra) simp_all

lemma readahead_unseen:
  assumes inv: "bio_inv s"
  shows "\<exists>t. readahead me ROOTDEV n s = (BRet (), t) \<and> unseen s t"
proof (cases "n \<ge> FSSIZE \<or> buf_cached ROOTDEV n s")
  case True
  then show ?thesis using inv by (auto simp: readahead_def unseen_def)
next
  case False
  then have nf: "bucket_find ROOTDEV n s = None" by (simp add: buf_cached_def)
  then have abs: "uses s n = 0" "hold s n = None" "view s n = disk s n" by (simp_all add: uses_def hold_def view_def)
  show ?thesis
  proof (cases "\<exists>i < NBUF. b_refcnt (bufs s ! i) = 0")
    case True
    from bget_got [OF inv abs(2)] abs(1) True obtain i t where
      t: "bget_common me ROOTDEV n False s = (BRet (Some i), t)" "got me s n i (bfill i t)" by fastforce
    define u where "u = upd_buf i (\<lambda>b. b\<lparr>b_refbit := False\<rparr>) (bfill i t)"
    have "unseen (bfill i t) u" using t(2) unfolding u_def got_def by (intro unseen_refbit) simp
    with got_unseen [OF t(2)] abs(1) have u: "got me s n i u" by simp
    then have ui: "bio_inv u" "buf_at u i n" "hold u n = Some me" "view u n = disk u n" "uses u n = 1"
      using abs by (auto simp: got_def)
    from brelse_spec [OF ui(1,2,3)] ui(4) obtain w where w: "brelse me i u = (BRet (), w)" "bio_inv w"
      "disk w = disk u" "dwrites w = dwrites u" "view w = view u" "uses w = (uses u)(n := u32 (uses u n - 1))"
      "hold w = (hold u)(n := None)" "buf_at w = buf_at u" by blast
    have "u32 (uses u n - 1) = 0" using ui(5) by (simp add: u32_def)
    then have "unseen s w" using w(2-8) u abs by (auto simp: unseen_def got_def fun_eq_iff)
    moreover have "readahead me ROOTDEV n s = (BRet (), w)"
      using False t(1) w(1) by (simp add: readahead_def bbind_def u_def)
    ultimately show ?thesis by blast
  next
    case nofree: False
    obtain r t where sc: "clock_scan (NBUF * 2) s = (r, t)" by fastforce
    from clock_scan_result [OF sc bio_invD(3,1) [OF inv]] nofree bio_invD(1) [OF inv]
    have "r = None" "same_but_ref s t" "clock_hand t < NBUF" by (auto simp: victim_of_def split: option.splits)
    moreover from this have "readahead me ROOTDEV n s = (BRet (), t)"
      using False nf sc by (simp add: readahead_def bbind_def bget_common_def bget_evict_def)
    ultimately show ?thesis using same_unseen [OF inv] by blast
  qed
qed

lemma bread_spec:
  assumes "bio_inv s" "hold s n = None" "uses s n < 2 ^ 32 - 1" "uses s n \<noteq> 0 \<or> (\<exists>i < NBUF. b_refcnt (bufs s ! i) = 0)"
  shows "\<exists>i t. bread me ROOTDEV n s = (BRet i, t) \<and> got me s n i t \<and> b_data (bufs t ! i) = view s n"
proof -
  from bget_got [OF assms] obtain i t where
    t: "bget_common me ROOTDEV n True s = (BRet (Some i), t)" "got me s n i (bfill i t)" by fastforce
  have pos: "uses s n + 1 \<noteq> 0"
  proof (cases "bucket_find ROOTDEV n s")
    case (Some j)
    then have "buf_at s j n" by (simp add: buf_at_def)
    from buf_atD(4,5) [OF assms(1) this] show ?thesis by (simp add: buf_ok_def)
  qed (simp add: uses_def)
  define u where "u = (bfill i t)\<lparr>ra_dev := ROOTDEV, ra_blockno := n\<rparr>"
  have u: "got me s n i u" using got_unseen [OF t(2) pos unseen_ra] t(2) by (simp add: u_def got_def)
  have data: "b_data (bufs w ! i) = view s n" if "got me s n i w" for w
  proof -
    have w: "bio_inv w" "buf_at w i n" "view w n = view s n" "uses w n \<noteq> 0" using that pos by (auto simp: got_def)
    from buf_atD [OF w(1,2)] w(3,4) show ?thesis by (auto simp: buf_ok_def)
  qed
  show ?thesis
  proof (cases "fst (should_readahead ROOTDEV n (bfill i t))")
    case True
    obtain w where w: "readahead me ROOTDEV ((n + 1) mod 2 ^ 32) u = (BRet (), w)" "unseen u w"
      using readahead_unseen [of u me "(n + 1) mod 2 ^ 32"] u unfolding got_def by blast
    then have "bread me ROOTDEV n s = (BRet i, w)"
      using t(1) True by (simp add: bread_def bbind_def should_readahead_def u_def)
    with got_unseen [OF u pos w(2)] data show ?thesis by blast
  next
    case False
    then have "bread me ROOTDEV n s = (BRet i, u)"
      using t(1) by (auto simp: bread_def bbind_def should_readahead_def u_def)
    with u data show ?thesis by blast
  qed
qed

lemma bset_spec:
  assumes inv: "bio_inv s" and at: "buf_at s i n" and u: "uses s n \<noteq> 0"
  shows "bio_inv (bset i d s) \<and> disk (bset i d s) = disk s \<and> dwrites (bset i d s) = dwrites s \<and>
    view (bset i d s) = (view s)(n := d) \<and> uses (bset i d s) = uses s \<and> hold (bset i d s) = hold s \<and>
    buf_at (bset i d s) = buf_at s"
proof -
  note b = buf_atD [OF inv at]
  define f where "f b = b\<lparr>b_data := d\<rparr>" for b :: buf
  have keep: "b_dev (f c) = b_dev c" "b_blockno (f c) = b_blockno c" for c by (simp_all add: f_def)
  have s': "bset i d s = upd_buf i f s" by (simp add: bset_def f_def)
  have "buf_ok (disk s) (f (bufs s ! i))" using b(4,5) u by (auto simp: f_def buf_ok_def)
  then have "bio_inv (upd_buf i f s)" by (rule bio_inv_upd [OF inv keep])
  moreover have "b_valid (bufs s ! i)" using b(4,5) u by (simp add: buf_ok_def)
  ultimately show ?thesis using abs_upd [OF inv at keep] b(5,6) unfolding s' by (auto simp: f_def)
qed

lemma bwrite_spec:
  assumes inv: "bio_inv s" and at: "buf_at s i n" and h: "hold s n = Some me"
  shows "\<exists>t. bwrite me i s = (BRet (), t) \<and> bio_inv t \<and> disk t = (disk s)(n := view s n) \<and>
    dwrites t = dwrites s @ [(n, view s n)] \<and> view t = view s \<and> uses t = uses s \<and> hold t = hold s \<and> buf_at t = buf_at s"
proof -
  note b = buf_atD [OF inv at]
  have nz: "b_refcnt (bufs s ! i) \<noteq> 0" using b(4,6) h by (auto simp: buf_ok_def)
  then have val: "b_valid (bufs s ! i)" using b(4) by (simp add: buf_ok_def)
  define t where "t = s\<lparr>disk := (disk s)(n := view s n), dwrites := dwrites s @ [(n, view s n)]\<rparr>"
  have w: "bwrite me i s = (BRet (), t)" using h b(3,6,7) val by (simp add: bwrite_def t_def Let_def)
  have bf: "bucket_find d m t = bucket_find d m s" for d m by (simp add: t_def bucket_find_def)
  have fld: "bufs t = bufs s" "disk t = (disk s)(n := view s n)" by (simp_all add: t_def)
  have ok: "buf_ok (disk t) (bufs t ! j)" if "j < NBUF" for j
  proof (cases "b_dev (bufs s ! j) = ROOTDEV \<and> b_blockno (bufs s ! j) = n")
    case True
    then have "j = i" using bio_invD(6) [OF inv that b(1)] b(2,3) by simp
    with b(2,4) nz show ?thesis by (simp add: fld buf_ok_def)
  next
    case False
    with bio_invD(7) [OF inv that] show ?thesis by (auto simp: fld buf_ok_def)
  qed
  have inv_t: "bio_inv t" using inv ok unfolding bio_inv_def by (simp add: t_def)
  have "view t m = view s m" "uses t m = uses s m" "hold t m = hold s m" for m
    using at val by (auto simp: view_def uses_def hold_def bf fld buf_at_def split: option.splits)
  then have "view t = view s" "uses t = uses s" "hold t = hold s" by blast+
  moreover have "buf_at t = buf_at s" by (simp add: buf_at_def bf fun_eq_iff)
  ultimately show ?thesis using w inv_t by (simp add: t_def)
qed

lemma bpin_spec:
  assumes inv: "bio_inv s" and at: "buf_at s i n" and u: "uses s n \<noteq> 0" "uses s n < 2 ^ 32 - 1"
  shows "bio_inv (bpin i s) \<and> disk (bpin i s) = disk s \<and> dwrites (bpin i s) = dwrites s \<and> view (bpin i s) = view s \<and>
    uses (bpin i s) = (uses s)(n := uses s n + 1) \<and> hold (bpin i s) = hold s \<and> buf_at (bpin i s) = buf_at s"
proof -
  note b = buf_atD [OF inv at]
  define f where "f b = b\<lparr>b_refcnt := u32 (b_refcnt b + 1)\<rparr>" for b :: buf
  have keep: "b_dev (f c) = b_dev c" "b_blockno (f c) = b_blockno c" for c by (simp_all add: f_def)
  have s': "bpin i s = upd_buf i f s" by (simp add: bpin_def f_def)
  have cnt: "u32 (b_refcnt (bufs s ! i) + 1) = b_refcnt (bufs s ! i) + 1" using b(4,5) u by (simp add: u32_def buf_ok_def)
  have "buf_ok (disk s) (f (bufs s ! i))" using b(2,4,5) u cnt by (auto simp: f_def buf_ok_def)
  then have "bio_inv (upd_buf i f s)" by (rule bio_inv_upd [OF inv keep])
  moreover have val: "b_valid (bufs s ! i)" using b(4,5) u by (simp add: buf_ok_def)
  ultimately show ?thesis using abs_upd [OF inv at keep] b(5,6,7) cnt unfolding s' by (auto simp: f_def)
qed

text \<open>The log drops its pin while it still holds the buffer, then releases it.\<close>

lemma unpin_release_spec:
  assumes inv: "bio_inv s" and at: "buf_at s i n" and h: "hold s n = Some me" and clean: "view s n = disk s n"
  shows "\<exists>t. brelse me i (bunpin i s) = (BRet (), t) \<and> bio_inv t \<and> disk t = disk s \<and> dwrites t = dwrites s \<and> view t = view s \<and>
    uses t = (uses s)(n := u32 (uses s n - 2)) \<and> hold t = (hold s)(n := None) \<and> buf_at t = buf_at s"
proof -
  note b = buf_atD [OF inv at]
  define f where "f b = b\<lparr>b_owner := None, b_refcnt := u32 (b_refcnt b - 2)\<rparr>" for b :: buf
  have keep: "b_dev (f c) = b_dev c" "b_blockno (f c) = b_blockno c" for c by (simp_all add: f_def)
  have nz: "b_refcnt (bufs s ! i) \<noteq> 0" using b(4,6) h by (auto simp: buf_ok_def)
  then have val: "b_valid (bufs s ! i)" using b(4) by (simp add: buf_ok_def)
  have two: "u32 (u32 (x - 1) - 1) = u32 (x - 2)" for x by (simp add: u32_def mod_simps)
  have len: "i < length (bufs s)" using b(1) bio_invD(1) [OF inv] by simp
  have "buf_ok (disk s) (f (bufs s ! i))"
    using b(2,3,4,7) clean val u32_range [of "b_refcnt (bufs s ! i) - 2"] by (simp add: f_def buf_ok_def)
  then have "bio_inv (upd_buf i f s)" by (rule bio_inv_upd [OF inv keep])
  moreover have "brelse me i (bunpin i s) = (BRet (), upd_buf i f s)"
    using h b(6) len by (simp add: brelse_def bunpin_def f_def two)
  ultimately show ?thesis using abs_upd [OF inv at keep] b(5,7) val by (auto simp: f_def)
qed

lemma unpin_other:
  assumes "i \<noteq> j" "brelse me j s = (r, t)"
  shows "brelse me j (bunpin i s) = (r, bunpin i t)"
  using assms by (cases "b_owner (bufs s ! j) = Some me")
    (auto simp: brelse_def bunpin_def list_update_swap)

text \<open>Blocks in use sit in different buffers, so 30 of them leave none over and 29 leave one.\<close>

lemma uses_finite: "bio_inv s \<Longrightarrow> finite {n. uses s n \<noteq> 0}"
proof -
  assume inv: "bio_inv s"
  have "{n. uses s n \<noteq> 0} \<subseteq> (\<lambda>i. b_blockno (bufs s ! i)) ` {..<NBUF}"
    using bucket_find_iff [OF inv] by (auto simp: uses_def split: option.splits)
  then show ?thesis by (rule finite_subset) simp
qed

lemma free_buffer:
  assumes inv: "bio_inv s" and few: "card {n. uses s n \<noteq> 0} < NBUF"
  shows "\<exists>i < NBUF. b_refcnt (bufs s ! i) = 0"
proof (rule ccontr)
  assume "\<not> ?thesis"
  then have busy: "b_refcnt (bufs s ! i) \<noteq> 0" if "i < NBUF" for i using that by auto
  have dev: "b_dev (bufs s ! i) = ROOTDEV" if "i < NBUF" for i
    using bio_invD(7) [OF inv that] busy [OF that] by (auto simp: buf_ok_def)
  have "inj_on (\<lambda>i. b_blockno (bufs s ! i)) {..<NBUF}"
    using bio_invD(6) [OF inv] dev by (auto simp: inj_on_def)
  moreover have "(\<lambda>i. b_blockno (bufs s ! i)) ` {..<NBUF} \<subseteq> {n. uses s n \<noteq> 0}"
  proof
    fix n assume "n \<in> (\<lambda>i. b_blockno (bufs s ! i)) ` {..<NBUF}"
    then obtain i where i: "i < NBUF" "n = b_blockno (bufs s ! i)" by auto
    then have "bucket_find ROOTDEV n s = Some i" using bucket_find_iff [OF inv] dev by auto
    with busy i show "n \<in> {n. uses s n \<noteq> 0}" by (simp add: uses_def)
  qed
  ultimately have "NBUF \<le> card {n. uses s n \<noteq> 0}"
    using card_inj_on_le uses_finite [OF inv] by fastforce
  with few show False by simp
qed

lemma binit_inv: "bio_inv (binit d junk)"
proof (rule bio_invI)
  fix k :: nat assume k: "k < NBUCKET"
  show "distinct (buckets (binit d junk) ! k)"
    by (cases k) (use k in \<open>simp_all add: binit_def\<close>)
  show "set (buckets (binit d junk) ! k) = {i. i < NBUF \<and> HASH (b_blockno (bufs (binit d junk) ! i)) = k}"
    by (cases k) (use k in \<open>auto simp: binit_def HASH_def\<close>)
qed (simp_all add: binit_def buf_ok_def)

lemma binit_abs: "view (binit d junk) = d" "uses (binit d junk) = (\<lambda>_. 0)" "hold (binit d junk) = (\<lambda>_. None)"
  "disk (binit d junk) = d" "dwrites (binit d junk) = []"
proof -
  have dev: "b_dev (bufs (binit d junk) ! i) = 0" if "i < NBUF" for i using that by (simp add: binit_def)
  have "bucket_find ROOTDEV n (binit d junk) = None" for n
  proof (rule ccontr)
    assume "bucket_find ROOTDEV n (binit d junk) \<noteq> None"
    then obtain i where "bucket_find ROOTDEV n (binit d junk) = Some i" by blast
    then show False using bucket_find_iff [OF binit_inv, of n d junk i] dev by auto
  qed
  moreover show "disk (binit d junk) = d" "dwrites (binit d junk) = []" by (simp_all add: binit_def)
  ultimately show "view (binit d junk) = d" "uses (binit d junk) = (\<lambda>_. 0)" "hold (binit d junk) = (\<lambda>_. None)"
    by (simp_all add: view_def uses_def hold_def fun_eq_iff)
qed

subsection \<open>The interface to the log\<close>

text \<open>
  What the clients rely on, in terms of what they can observe: the disk and its write history, the
  contents \<open>vw\<close> seen by readers, the users \<open>us\<close> and the holder \<open>hd\<close> of every block, and the
  buffers \<open>at\<close> which a block in use stays.
\<close>

locale block_cache =
  fixes inv :: "'s \<Rightarrow> bool" and dsk vw :: "'s \<Rightarrow> nat \<Rightarrow> block" and wr :: "'s \<Rightarrow> (nat \<times> block) list"
    and us :: "'s \<Rightarrow> nat \<Rightarrow> int" and hd :: "'s \<Rightarrow> nat \<Rightarrow> int option" and at :: "'s \<Rightarrow> nat \<Rightarrow> nat \<Rightarrow> bool"
    and dat :: "'s \<Rightarrow> nat \<Rightarrow> block" and rd :: "int \<Rightarrow> nat \<Rightarrow> 's \<Rightarrow> nat bout \<times> 's" and st :: "nat \<Rightarrow> block \<Rightarrow> 's \<Rightarrow> 's"
    and wrt rel :: "int \<Rightarrow> nat \<Rightarrow> 's \<Rightarrow> unit bout \<times> 's" and unpin :: "nat \<Rightarrow> 's \<Rightarrow> 's"
  assumes us_finite: "inv s \<Longrightarrow> finite {n. us s n \<noteq> 0}"
    and us_nonneg: "inv s \<Longrightarrow> 0 \<le> us s n"
    and at_inj: "inv s \<Longrightarrow> at s i n \<Longrightarrow> at s i m \<Longrightarrow> m = n"
    and read_ok: "inv s \<Longrightarrow> hd s n = None \<Longrightarrow> us s n < 2 ^ 32 - 1 \<Longrightarrow> us s n \<noteq> 0 \<or> card {m. us s m \<noteq> 0} < NBUF \<Longrightarrow>
      \<exists>i t. rd me n s = (BRet i, t) \<and> inv t \<and> dsk t = dsk s \<and> wr t = wr s \<and> vw t = vw s \<and>
        us t = (us s)(n := us s n + 1) \<and> hd t = (hd s)(n := Some me) \<and> at t i n \<and> dat t i = vw s n \<and>
        (\<forall>j m. at s j m \<longrightarrow> us s m \<noteq> 0 \<longrightarrow> at t j m \<and> dat t j = dat s j)"
    and set_ok: "inv s \<Longrightarrow> at s i n \<Longrightarrow> us s n \<noteq> 0 \<Longrightarrow>
      inv (st i d s) \<and> dsk (st i d s) = dsk s \<and> wr (st i d s) = wr s \<and> vw (st i d s) = (vw s)(n := d) \<and>
      us (st i d s) = us s \<and> hd (st i d s) = hd s \<and> at (st i d s) = at s"
    and write_ok: "inv s \<Longrightarrow> at s i n \<Longrightarrow> hd s n = Some me \<Longrightarrow>
      \<exists>t. wrt me i s = (BRet (), t) \<and> inv t \<and> dsk t = (dsk s)(n := vw s n) \<and> wr t = wr s @ [(n, vw s n)] \<and>
        vw t = vw s \<and> us t = us s \<and> hd t = hd s \<and> at t = at s"
    and release_ok: "inv s \<Longrightarrow> at s i n \<Longrightarrow> hd s n = Some me \<Longrightarrow> vw s n = dsk s n \<or> us s n \<noteq> 1 \<Longrightarrow>
      \<exists>t. rel me i s = (BRet (), t) \<and> inv t \<and> dsk t = dsk s \<and> wr t = wr s \<and> vw t = vw s \<and>
        us t = (us s)(n := u32 (us s n - 1)) \<and> hd t = (hd s)(n := None) \<and> at t = at s"
    and unpin_release_ok: "inv s \<Longrightarrow> at s i n \<Longrightarrow> hd s n = Some me \<Longrightarrow> vw s n = dsk s n \<Longrightarrow>
      \<exists>t. rel me i (unpin i s) = (BRet (), t) \<and> inv t \<and> dsk t = dsk s \<and> wr t = wr s \<and> vw t = vw s \<and>
        us t = (us s)(n := u32 (us s n - 2)) \<and> hd t = (hd s)(n := None) \<and> at t = at s"
    and unpin_swap: "i \<noteq> j \<Longrightarrow> rel me j s = (r, t) \<Longrightarrow> rel me j (unpin i s) = (r, unpin i t)"
begin

text \<open>Reading a block, with a computation of its contents.\<close>

lemma read_cycle:
  assumes "inv s" "hd s n = None" "us s n < 2 ^ 32 - 1" "us s n \<noteq> 0 \<or> card {m. us s m \<noteq> 0} < NBUF"
    "us s n = 0 \<Longrightarrow> vw s n = dsk s n"
  shows "\<exists>t. bbind (rd me n) (\<lambda>i s. bbind (rel me i) (\<lambda>_ s'. (BRet (f (dat s i)), s')) s) s = (BRet (f (vw s n)), t) \<and>
    inv t \<and> dsk t = dsk s \<and> wr t = wr s \<and> vw t = vw s \<and> us t = us s \<and> hd t = hd s"
proof -
  from read_ok [OF assms(1-4), of me] obtain i t where t: "rd me n s = (BRet i, t)" "inv t" "dsk t = dsk s" "wr t = wr s"
    "vw t = vw s" "us t = (us s)(n := us s n + 1)" "hd t = (hd s)(n := Some me)" "at t i n" "dat t i = vw s n" by blast
  have "\<exists>u. rel me i t = (BRet (), u) \<and> inv u \<and> dsk u = dsk t \<and> wr u = wr t \<and> vw u = vw t \<and>
        us u = (us t)(n := u32 (us t n - 1)) \<and> hd u = (hd t)(n := None) \<and> at u = at t"
    using assms(5) t by (intro release_ok [OF t(2) t(8)]) auto
  then obtain u where u: "rel me i t = (BRet (), u)" "inv u" "dsk u = dsk t" "wr u = wr t" "vw u = vw t"
      "us u = (us t)(n := u32 (us t n - 1))" "hd u = (hd t)(n := None)" by blast
  have "u32 (us s n) = us s n" using us_nonneg [OF assms(1)] assms(3) by (simp add: u32_def)
  with t u assms(2) show ?thesis by (simp add: bbind_def fun_upd_idem)
qed

text \<open>Rewriting a block and writing it through to the disk.\<close>

lemma write_cycle:
  assumes "inv s" "hd s n = None" "us s n < 2 ^ 32 - 1" "us s n \<noteq> 0 \<or> card {m. us s m \<noteq> 0} < NBUF"
  shows "\<exists>t. bbind (rd me n) (\<lambda>i s. bbind (wrt me i) (\<lambda>_. rel me i) (st i (f (dat s i)) s)) s = (BRet (), t) \<and>
    inv t \<and> dsk t = (dsk s)(n := f (vw s n)) \<and> wr t = wr s @ [(n, f (vw s n))] \<and> vw t = (vw s)(n := f (vw s n)) \<and>
    us t = us s \<and> hd t = hd s"
proof -
  from read_ok [OF assms, of me] obtain i t where t: "rd me n s = (BRet i, t)" "inv t" "dsk t = dsk s" "wr t = wr s"
    "vw t = vw s" "us t = (us s)(n := us s n + 1)" "hd t = (hd s)(n := Some me)" "at t i n" "dat t i = vw s n" by blast
  have pos: "us t n \<noteq> 0" using us_nonneg [OF assms(1), of n] t(6) by simp
  define v where "v = st i (f (vw s n)) t"
  from set_ok [OF t(2,8) pos, of "f (vw s n)"] have v: "inv v" "dsk v = dsk t" "wr v = wr t" "vw v = (vw t)(n := f (vw s n))"
    "us v = us t" "hd v = hd t" "at v i n" using t(8,9) by (auto simp: v_def)
  from write_ok [OF v(1,7), of me] v(6) t(7) obtain w where w: "wrt me i v = (BRet (), w)" "inv w"
    "dsk w = (dsk v)(n := vw v n)" "wr w = wr v @ [(n, vw v n)]" "vw w = vw v" "us w = us v" "hd w = hd v" "at w i n"
    using v(7) by auto
  from release_ok [OF w(2,8), of me] w(3,5,7) v(6) t(7) obtain x where x: "rel me i w = (BRet (), x)" "inv x" "dsk x = dsk w"
    "wr x = wr w" "vw x = vw w" "us x = (us w)(n := u32 (us w n - 1))" "hd x = (hd w)(n := None)" by auto
  have "u32 (us s n) = us s n" using us_nonneg [OF assms(1)] assms(3) by (simp add: u32_def)
  then have "us x = us s" "hd x = hd s" using x(6,7) w(6,7) v(5,6) t(6,7) assms(2) by (simp_all add: fun_upd_idem)
  moreover have "dsk x = (dsk s)(n := f (vw s n))" using x(3) w(3) v(2,4) t(3) by simp
  moreover have "wr x = wr s @ [(n, f (vw s n))]" using x(4) w(4) v(3,4) t(4) by simp
  moreover have "vw x = (vw s)(n := f (vw s n))" using x(5) w(5) v(4) t(5) by simp
  moreover have "bbind (rd me n) (\<lambda>i s. bbind (wrt me i) (\<lambda>_. rel me i) (st i (f (dat s i)) s)) s = (BRet (), x)"
    using t(1,9) w(1) x(1) by (simp add: bbind_def v_def [symmetric])
  ultimately show ?thesis using x(2) by blast
qed

text \<open>Holding two blocks at once.\<close>

lemma read_two:
  assumes "inv s" "a \<noteq> b" "hd s a = None" "hd s b = None" "us s a < 2 ^ 32 - 1" "us s b < 2 ^ 32 - 1"
    "us s a \<noteq> 0 \<or> card {m. us s m \<noteq> 0} < NBUF" "us s b \<noteq> 0 \<or> card {m. us s m \<noteq> 0} < NBUF - 1"
  shows "\<exists>i j t. bbind (rd me a) (\<lambda>i. bbind (rd me b) (\<lambda>j. k i j)) s = k i j t \<and> i \<noteq> j \<and> inv t \<and> dsk t = dsk s \<and>
    wr t = wr s \<and> vw t = vw s \<and> us t = (us s)(a := us s a + 1, b := us s b + 1) \<and>
    hd t = (hd s)(a := Some me, b := Some me) \<and> at t i a \<and> at t j b \<and> dat t i = vw s a \<and> dat t j = vw s b"
proof -
  from read_ok [OF assms(1,3,5,7), of me] obtain i t where t: "rd me a s = (BRet i, t)" "inv t" "dsk t = dsk s" "wr t = wr s"
    "vw t = vw s" "us t = (us s)(a := us s a + 1)" "hd t = (hd s)(a := Some me)" "at t i a" "dat t i = vw s a" by blast
  have "{m. us t m \<noteq> 0} \<subseteq> insert a {m. us s m \<noteq> 0}" using t(6) by auto
  then have "card {m. us t m \<noteq> 0} \<le> card (insert a {m. us s m \<noteq> 0})"
    using us_finite [OF assms(1)] by (intro card_mono) simp_all
  then have "card {m. us t m \<noteq> 0} \<le> Suc (card {m. us s m \<noteq> 0})"
    using us_finite [OF assms(1)] by (simp add: card_insert_if split: if_splits)
  moreover have "us t b = us s b" using assms(2) t(6) by simp
  ultimately have room: "us t b \<noteq> 0 \<or> card {m. us t m \<noteq> 0} < NBUF" using assms(8) by linarith
  have b: "hd t b = None" "us t b < 2 ^ 32 - 1" using assms(2,4,6) t(6,7) by auto
  have pos: "us t a \<noteq> 0" using us_nonneg [OF assms(1), of a] t(6) by simp
  from read_ok [OF t(2) b room, of me] obtain j u where u: "rd me b t = (BRet j, u)" "inv u" "dsk u = dsk t" "wr u = wr t"
    "vw u = vw t" "us u = (us t)(b := us t b + 1)" "hd u = (hd t)(b := Some me)" "at u j b" "dat u j = vw t b"
    and stay: "\<forall>j m. at t j m \<longrightarrow> us t m \<noteq> 0 \<longrightarrow> at u j m \<and> dat u j = dat t j" by blast
  have ui: "at u i a" "dat u i = vw s a" using stay t(8,9) pos by auto
  have "i \<noteq> j" using at_inj [OF u(2)] ui(1) u(8) assms(2) by blast
  moreover have "bbind (rd me a) (\<lambda>i. bbind (rd me b) (\<lambda>j. k i j)) s = k i j u" using t(1) u(1) by (simp add: bbind_def)
  moreover have "us u = (us s)(a := us s a + 1, b := us s b + 1)" using u(6) t(6) assms(2) by simp
  moreover have "hd u = (hd s)(a := Some me, b := Some me)" using u(7) t(7) by simp
  moreover have "dsk u = dsk s" "wr u = wr s" "vw u = vw s" "dat u j = vw s b" using u(3,4,5,9) t(3,4,5) by simp_all
  ultimately show ?thesis using u(2,8) ui by blast
qed

text \<open>Copying block \<open>b\<close> over block \<open>a\<close> and writing that through.\<close>

lemma copy_cycle:
  assumes "inv s" "a \<noteq> b" "hd s a = None" "hd s b = None" "us s a < 2 ^ 32 - 1" "us s b < 2 ^ 32 - 1" "us s b \<noteq> 0"
    "us s a \<noteq> 0 \<or> card {m. us s m \<noteq> 0} < NBUF"
  shows "\<exists>t. bbind (rd me a) (\<lambda>i. bbind (rd me b) (\<lambda>j s.
      bbind (wrt me i) (\<lambda>_. bbind (rel me j) (\<lambda>_. rel me i)) (st i (dat s j) s))) s = (BRet (), t) \<and>
    inv t \<and> dsk t = (dsk s)(a := vw s b) \<and> wr t = wr s @ [(a, vw s b)] \<and> vw t = (vw s)(a := vw s b) \<and>
    us t = us s \<and> hd t = hd s"
proof -
  from read_two [OF assms(1-6,8), of me "\<lambda>i j s. bbind (wrt me i) (\<lambda>_. bbind (rel me j) (\<lambda>_. rel me i)) (st i (dat s j) s)"] assms(7)
  obtain i j t where run: "bbind (rd me a) (\<lambda>i. bbind (rd me b) (\<lambda>j s.
      bbind (wrt me i) (\<lambda>_. bbind (rel me j) (\<lambda>_. rel me i)) (st i (dat s j) s))) s =
      bbind (wrt me i) (\<lambda>_. bbind (rel me j) (\<lambda>_. rel me i)) (st i (dat t j) t)"
    and t: "inv t" "dsk t = dsk s" "wr t = wr s" "vw t = vw s" "us t = (us s)(a := us s a + 1, b := us s b + 1)"
    "hd t = (hd s)(a := Some me, b := Some me)" "at t i a" "at t j b" "dat t j = vw s b" by blast
  have nn: "0 \<le> us s a" "0 \<le> us s b" using us_nonneg [OF assms(1)] by auto
  define v where "v = st i (vw s b) t"
  have "us t a \<noteq> 0" using t(5) assms(2) nn by simp
  from set_ok [OF t(1,7) this, of "vw s b"] have v: "inv v" "dsk v = dsk s" "wr v = wr s" "vw v = (vw s)(a := vw s b)"
    "us v = us t" "hd v = hd t" "at v i a" "at v j b" using t by (auto simp: v_def)
  from write_ok [OF v(1,7), of me] v(4,6) t(6) assms(2) obtain w where w: "wrt me i v = (BRet (), w)" "inv w"
    "dsk w = (dsk v)(a := vw s b)" "wr w = wr v @ [(a, vw s b)]" "vw w = vw v" "us w = us v" "hd w = hd v" "at w = at v"
    by auto
  have "us w b \<noteq> 1" using w(6) v(5) t(5) assms(7) by simp
  with release_ok [OF w(2), of j b me] w(7,8) v(6,8) t(6) obtain x where x: "rel me j w = (BRet (), x)" "inv x" "dsk x = dsk w"
    "wr x = wr w" "vw x = vw w" "us x = (us w)(b := u32 (us w b - 1))" "hd x = (hd w)(b := None)" "at x = at w" by auto
  have "vw x a = dsk x a" using x(3,5) w(3,5) v(4) by simp
  with release_ok [OF x(2), of i a me] x(7,8) w(7,8) v(6,7) t(6) assms(2) obtain y where y: "rel me i x = (BRet (), y)" "inv y"
    "dsk y = dsk x" "wr y = wr x" "vw y = vw x" "us y = (us x)(a := u32 (us x a - 1))" "hd y = (hd x)(a := None)" by auto
  have "u32 (us s a) = us s a" "u32 (us s b) = us s b" using nn assms(5,6) by (simp_all add: u32_def)
  then have "us y m = us s m" "hd y m = hd s m" for m
    using y(6,7) x(6,7) w(6,7) v(5,6) t(5,6) assms(2-4) by auto
  then have "us y = us s" "hd y = hd s" by blast+
  moreover have "dsk y = (dsk s)(a := vw s b)" using y(3) x(3) w(3) v(2) by simp
  moreover have "wr y = wr s @ [(a, vw s b)]" using y(4) x(4) w(4) v(3) by simp
  moreover have "vw y = (vw s)(a := vw s b)" using y(5) x(5) w(5) v(4) by simp
  moreover have "bbind (wrt me i) (\<lambda>_. bbind (rel me j) (\<lambda>_. rel me i)) (st i (dat t j) t) = (BRet (), y)"
    using t(9) w(1) x(1) y(1) by (simp add: bbind_def v_def [symmetric])
  ultimately show ?thesis using y(2) unfolding run by blast
qed

text \<open>Copying block \<open>a\<close> over block \<open>b\<close>, writing that through and dropping a pin of \<open>b\<close>.\<close>

lemma install_cycle:
  assumes "inv s" "a \<noteq> b" "hd s a = None" "hd s b = None" "us s a < 2 ^ 32 - 1" "us s b < 2 ^ 32 - 1"
    "us s a \<noteq> 0 \<or> card {m. us s m \<noteq> 0} < NBUF" "us s b \<noteq> 0 \<or> card {m. us s m \<noteq> 0} < NBUF - 1" "vw s a = dsk s a"
  shows "\<exists>t. bbind (rd me a) (\<lambda>i. bbind (rd me b) (\<lambda>j s.
      bbind (wrt me j) (\<lambda>_ s. bbind (rel me i) (\<lambda>_. rel me j) (unpin j s)) (st j (dat s i) s))) s = (BRet (), t) \<and>
    inv t \<and> dsk t = (dsk s)(b := vw s a) \<and> wr t = wr s @ [(b, vw s a)] \<and> vw t = (vw s)(b := vw s a) \<and>
    us t = (us s)(b := u32 (us s b - 1)) \<and> hd t = hd s"
proof -
  from read_two [OF assms(1-8), of me "\<lambda>i j s. bbind (wrt me j) (\<lambda>_ s. bbind (rel me i) (\<lambda>_. rel me j) (unpin j s)) (st j (dat s i) s)"]
  obtain i j t where run: "bbind (rd me a) (\<lambda>i. bbind (rd me b) (\<lambda>j s.
      bbind (wrt me j) (\<lambda>_ s. bbind (rel me i) (\<lambda>_. rel me j) (unpin j s)) (st j (dat s i) s))) s =
      bbind (wrt me j) (\<lambda>_ s. bbind (rel me i) (\<lambda>_. rel me j) (unpin j s)) (st j (dat t i) t)"
    and ij: "i \<noteq> j" and t: "inv t" "dsk t = dsk s" "wr t = wr s" "vw t = vw s" "us t = (us s)(a := us s a + 1, b := us s b + 1)"
    "hd t = (hd s)(a := Some me, b := Some me)" "at t i a" "at t j b" "dat t i = vw s a" by blast
  have nn: "0 \<le> us s a" "0 \<le> us s b" using us_nonneg [OF assms(1)] by auto
  define v where "v = st j (vw s a) t"
  have "us t b \<noteq> 0" using t(5) nn by simp
  from set_ok [OF t(1,8) this, of "vw s a"] have v: "inv v" "dsk v = dsk s" "wr v = wr s" "vw v = (vw s)(b := vw s a)"
    "us v = us t" "hd v = hd t" "at v i a" "at v j b" using t by (auto simp: v_def)
  from write_ok [OF v(1,8), of me] v(4,6) t(6) obtain w where w: "wrt me j v = (BRet (), w)" "inv w"
    "dsk w = (dsk v)(b := vw s a)" "wr w = wr v @ [(b, vw s a)]" "vw w = vw v" "us w = us v" "hd w = hd v" "at w = at v"
    by auto
  have "vw w a = dsk w a" using w(3,5) v(2,4) assms(2,9) by simp
  with release_ok [OF w(2), of i a me] w(7,8) v(6,7) t(6) assms(2) obtain x where x: "rel me i w = (BRet (), x)" "inv x" "dsk x = dsk w"
    "wr x = wr w" "vw x = vw w" "us x = (us w)(a := u32 (us w a - 1))" "hd x = (hd w)(a := None)" "at x = at w" by auto
  have xb: "vw x b = dsk x b" "at x j b" "hd x b = Some me"
    using x(3,5,7,8) w(3,5,7,8) v(4,6,8) t(6) assms(2) by simp_all
  from unpin_release_ok [OF x(2) xb(2,3,1)] obtain y where y: "rel me j (unpin j x) = (BRet (), y)" "inv y"
    "dsk y = dsk x" "wr y = wr x" "vw y = vw x" "us y = (us x)(b := u32 (us x b - 2))" "hd y = (hd x)(b := None)" by auto
  have "u32 (us s a) = us s a" using nn assms(5) by (simp add: u32_def)
  then have "us y m = ((us s)(b := u32 (us s b - 1))) m" "hd y m = hd s m" for m
    using y(6,7) x(6,7) w(6,7) v(5,6) t(5,6) assms(2-4) by auto
  then have "us y = (us s)(b := u32 (us s b - 1))" "hd y = hd s" by blast+
  moreover have "dsk y = (dsk s)(b := vw s a)" using y(3) x(3) w(3) v(2) by simp
  moreover have "wr y = wr s @ [(b, vw s a)]" using y(4) x(4) w(4) v(3) by simp
  moreover have "vw y = (vw s)(b := vw s a)" using y(5) x(5) w(5) v(4) by simp
  moreover have "bbind (wrt me j) (\<lambda>_ s. bbind (rel me i) (\<lambda>_. rel me j) (unpin j s)) (st j (dat t i) t) = (BRet (), y)"
    using t(9) w(1) unpin_swap [OF ij [symmetric] x(1)] y(1) by (simp add: bbind_def v_def [symmetric])
  ultimately show ?thesis using y(2) unfolding run by blast
qed

end

interpretation bc: block_cache bio_inv disk view dwrites uses hold buf_at "\<lambda>s i. b_data (bufs s ! i)"
  "\<lambda>me. bread me ROOTDEV" bset bwrite brelse bunpin
proof
  fix s :: bcache and n m i j :: nat and me :: int and d :: block
  assume inv: "bio_inv s"
  show "finite {n. uses s n \<noteq> 0}" by (rule uses_finite [OF inv])
  show "0 \<le> uses s n"
    using buf_atD(4,5) [OF inv] by (cases "bucket_find ROOTDEV n s") (auto simp: uses_def buf_at_def buf_ok_def)
  show "buf_at s i n \<Longrightarrow> buf_at s i m \<Longrightarrow> m = n" using buf_atD(3) [OF inv] by metis
  show "buf_at s i n \<Longrightarrow> uses s n \<noteq> 0 \<Longrightarrow> bio_inv (bset i d s) \<and> disk (bset i d s) = disk s \<and> dwrites (bset i d s) = dwrites s \<and>
      view (bset i d s) = (view s)(n := d) \<and> uses (bset i d s) = uses s \<and> hold (bset i d s) = hold s \<and> buf_at (bset i d s) = buf_at s"
    by (rule bset_spec [OF inv])
  show "buf_at s i n \<Longrightarrow> hold s n = Some me \<Longrightarrow> \<exists>t. bwrite me i s = (BRet (), t) \<and> bio_inv t \<and> disk t = (disk s)(n := view s n) \<and>
      dwrites t = dwrites s @ [(n, view s n)] \<and> view t = view s \<and> uses t = uses s \<and> hold t = hold s \<and> buf_at t = buf_at s"
    by (rule bwrite_spec [OF inv])
  show "buf_at s i n \<Longrightarrow> hold s n = Some me \<Longrightarrow> view s n = disk s n \<or> uses s n \<noteq> 1 \<Longrightarrow>
      \<exists>t. brelse me i s = (BRet (), t) \<and> bio_inv t \<and> disk t = disk s \<and> dwrites t = dwrites s \<and> view t = view s \<and>
        uses t = (uses s)(n := u32 (uses s n - 1)) \<and> hold t = (hold s)(n := None) \<and> buf_at t = buf_at s"
    by (rule brelse_spec [OF inv]) auto
  show "buf_at s i n \<Longrightarrow> hold s n = Some me \<Longrightarrow> view s n = disk s n \<Longrightarrow>
      \<exists>t. brelse me i (bunpin i s) = (BRet (), t) \<and> bio_inv t \<and> disk t = disk s \<and> dwrites t = dwrites s \<and> view t = view s \<and>
        uses t = (uses s)(n := u32 (uses s n - 2)) \<and> hold t = (hold s)(n := None) \<and> buf_at t = buf_at s"
    by (rule unpin_release_spec [OF inv])
  assume h: "hold s n = None" and u: "uses s n < 2 ^ 32 - 1" and room: "uses s n \<noteq> 0 \<or> card {m. uses s m \<noteq> 0} < NBUF"
  from bread_spec [OF inv h u, of me] room free_buffer [OF inv] obtain i t where
    r: "bread me ROOTDEV n s = (BRet i, t)" "got me s n i t" "b_data (bufs t ! i) = view s n" by blast
  have stay: "buf_at t j m \<and> b_data (bufs t ! j) = b_data (bufs s ! j)" if "buf_at s j m" "uses s m \<noteq> 0" for j m
  proof -
    have tj: "buf_at t j m" "bio_inv t" "view t = view s" using r(2) that by (auto simp: got_def)
    have "uses t m \<noteq> 0" using r(2) that buf_atD(4,5) [OF inv that(1)] by (auto simp: got_def buf_ok_def)
    then have "b_valid (bufs t ! j)" using buf_atD(4,5) [OF tj(2,1)] by (simp add: buf_ok_def)
    moreover have "b_valid (bufs s ! j)" using buf_atD(4,5) [OF inv that(1)] that(2) by (simp add: buf_ok_def)
    ultimately show ?thesis using buf_atD(7) [OF tj(2,1)] buf_atD(7) [OF inv that(1)] tj by simp
  qed
  with r show "\<exists>i t. bread me ROOTDEV n s = (BRet i, t) \<and> bio_inv t \<and> disk t = disk s \<and> dwrites t = dwrites s \<and> view t = view s \<and>
      uses t = (uses s)(n := uses s n + 1) \<and> hold t = (hold s)(n := Some me) \<and> buf_at t i n \<and> b_data (bufs t ! i) = view s n \<and>
      (\<forall>j m. buf_at s j m \<longrightarrow> uses s m \<noteq> 0 \<longrightarrow> buf_at t j m \<and> b_data (bufs t ! j) = b_data (bufs s ! j))"
    unfolding got_def by blast
next
  show "i \<noteq> j \<Longrightarrow> brelse me j s = (r, t) \<Longrightarrow> brelse me j (bunpin i s) = (r, bunpin i t)" for i j me s r t
    by (rule unpin_other)
qed

subsection \<open>Properties\<close>

text \<open>
  C23. The buffer cache is transparent: reading a block that nobody holds yields its current
  contents, the cached ones if there are any and those of the disk otherwise, whatever is evicted or
  read ahead on the way; no block changes its contents, the disk is not written, and apart from the
  new user and holder of the block all users and holders stay.
\<close>

theorem bread_transparent:
  assumes "bio_inv s" "hold s n = None" "uses s n < 2 ^ 32 - 1" "uses s n \<noteq> 0 \<or> card {m. uses s m \<noteq> 0} < NBUF"
  shows "\<exists>i t. bread me ROOTDEV n s = (BRet i, t) \<and> b_data (bufs t ! i) = view s n \<and> bio_inv t \<and>
    disk t = disk s \<and> view t = view s \<and> uses t = (uses s)(n := uses s n + 1) \<and> hold t = (hold s)(n := Some me)"
  using bc.read_ok [OF assms, of me] by blast

theorem bread_transparent_witness:
  "\<exists>i t. bread 1 ROOTDEV 46 (binit (\<lambda>n. [n mod 256]) []) = (BRet i, t) \<and> b_data (bufs t ! i) = [46]"
  using bread_transparent [OF binit_inv, of "\<lambda>n. [n mod 256]" "[]" 46 1] by (auto simp: binit_abs)

text \<open>
  C26. \<^verbatim>\<open>bread\<close> panics exactly when the block is not cached and every buffer is in use: two
  rounds of the clock are enough to find a free buffer wherever it is, also when all reference bits
  are set.
\<close>

theorem bread_panics_iff:
  assumes "bio_inv s" "uses s n < 2 ^ 32 - 1"
  shows "(\<exists>e t. bread me ROOTDEV n s = (BPanic e, t)) \<longleftrightarrow>
    bucket_find ROOTDEV n s = None \<and> (\<forall>i < NBUF. b_refcnt (bufs s ! i) \<noteq> 0)"
proof (cases "bucket_find ROOTDEV n s")
  case None
  then have h: "hold s n = None" "uses s n = 0" by (simp_all add: hold_def uses_def)
  show ?thesis
  proof (cases "\<exists>i < NBUF. b_refcnt (bufs s ! i) = 0")
    case True
    with bread_spec [OF assms(1) h(1) assms(2), of me] show ?thesis by auto
  next
    case False
    obtain r t where sc: "clock_scan (NBUF * 2) s = (r, t)" by fastforce
    from clock_scan_result [OF sc bio_invD(3,1) [OF assms(1)]] False bio_invD(1) [OF assms(1)]
    have "r = None" by (auto simp: victim_of_def split: option.splits)
    with None sc False show ?thesis by (auto simp: bread_def bbind_def bget_common_def bget_evict_def)
  qed
next
  case (Some i)
  then have at: "buf_at s i n" by (simp add: buf_at_def)
  note b = buf_atD [OF assms(1) at]
  show ?thesis
  proof (cases "hold s n")
    case None
    have "\<exists>j t. bread me ROOTDEV n s = (BRet j, t)"
    proof (cases "uses s n = 0")
      case True
      with b(1,5) have "\<exists>i < NBUF. b_refcnt (bufs s ! i) = 0" by auto
      with bread_spec [OF assms(1) None assms(2), of me] show ?thesis by blast
    next
      case False
      with bread_spec [OF assms(1) None assms(2), of me] show ?thesis by blast
    qed
    with Some show ?thesis by auto
  next
    case (Some p)
    have "i < length (bufs s)" using b(1) bio_invD(1) [OF assms(1)] by simp
    with Some b(6) \<open>bucket_find ROOTDEV n s = Some i\<close> show ?thesis
      by (auto simp: bread_def bbind_def bget_common_def bget_hit_def bget_woken_def)
  qed
qed

theorem bread_panics_iff_witness:
  "\<nexists>e t. bread 1 ROOTDEV 46 (binit (\<lambda>n. [n mod 256]) []) = (BPanic e, t)"
proof -
  have "b_refcnt (bufs (binit (\<lambda>n. [n mod 256]) []) ! 0) = 0" by (simp add: binit_def)
  with bread_panics_iff [OF binit_inv, of "\<lambda>n. [n mod 256]" "[]" 46 1] show ?thesis by (auto simp: binit_abs)
qed

end
