(* ===== verification/Log.thy ===== *)
theory Log
  imports Bio Sync
begin

section \<open>The write-ahead log\<close>

text \<open>
  \<^verbatim>\<open>kernel/filesystem/log.c\<close>: the blocks of the running system calls are collected in the
  buffer cache, copied to the log, committed by writing the header block, and then installed at
  their home locations; after a crash \<^verbatim>\<open>recover_from_log\<close> installs a committed transaction.
  The operations are those of theory \<open>Bio\<close>, on the device \<^verbatim>\<open>ROOTDEV\<close> that
  \<^verbatim>\<open>fsinit\<close> passes; the proofs only use the interface \<open>block_cache\<close>. The header block is
  the byte layout of \<^verbatim>\<open>struct logheader\<close>, little-endian 32-bit integers. A crash leaves on the
  disk a prefix of the block writes performed so far; the disk writes single blocks atomically.
\<close>

abbreviation (input) LOGSIZE :: nat where "LOGSIZE \<equiv> 30"
abbreviation (input) MAXOPBLOCKS :: int where "MAXOPBLOCKS \<equiv> 10"

record logst =
  lg_start :: nat
  lg_size :: nat
  outstanding :: int
  committing :: bool
  lh_n :: int
  lh_block :: "nat list"

subsection \<open>Little-endian integers in a block\<close>

definition get32 :: "block \<Rightarrow> nat \<Rightarrow> nat" where
  "get32 b off = b ! off + 256 * b ! (off + 1) + 65536 * b ! (off + 2) + 16777216 * b ! (off + 3)"

definition put32 :: "block \<Rightarrow> nat \<Rightarrow> nat \<Rightarrow> block" where
  "put32 b off x = b[off := x mod 256, off + 1 := x div 256 mod 256, off + 2 := x div 65536 mod 256,
     off + 3 := x div 16777216 mod 256]"

subsection \<open>Operations\<close>

definition bfor :: "(nat \<Rightarrow> unit bop) \<Rightarrow> nat list \<Rightarrow> unit bop" where
  "bfor body ks = foldr (\<lambda>k rest. bbind (body k) (\<lambda>_. rest)) ks (\<lambda>s. (BRet (), s))"

definition head_put :: "logst \<Rightarrow> block \<Rightarrow> block" where
  "head_put l b = fold (\<lambda>i b. put32 b (4 + 4 * i) (lh_block l ! i)) [0..<nat (lh_n l)] (put32 b 0 (nat (u32 (lh_n l))))"

definition head_get :: "block \<Rightarrow> logst \<Rightarrow> logst" where
  "head_get b l =
     (let n = i32 (int (get32 b 0)) in
      l\<lparr>lh_n := n, lh_block := for_vec (nat n) (\<lambda>i _. get32 b (4 + 4 * i)) (lh_block l)\<rparr>)"

definition install_one :: "int \<Rightarrow> logst \<Rightarrow> nat \<Rightarrow> unit bop" where
  "install_one me l tail =
     bbind (bread me ROOTDEV (lg_start l + tail + 1)) (\<lambda>lbuf.
     bbind (bread me ROOTDEV (lh_block l ! tail)) (\<lambda>dbuf s.
     bbind (bwrite me dbuf) (\<lambda>_ s.
     bbind (brelse me lbuf) (\<lambda>_.
     brelse me dbuf) (bunpin dbuf s)) (bset dbuf (b_data (bufs s ! lbuf)) s)))"

definition install_trans :: "int \<Rightarrow> logst \<Rightarrow> unit bop" where
  "install_trans me l = bfor (install_one me l) [0..<nat (lh_n l)]"

definition read_head :: "int \<Rightarrow> logst \<Rightarrow> logst bop" where
  "read_head me l =
     bbind (bread me ROOTDEV (lg_start l)) (\<lambda>buf s.
     bbind (brelse me buf) (\<lambda>_ s'. (BRet (head_get (b_data (bufs s ! buf)) l), s')) s)"

definition write_head :: "int \<Rightarrow> logst \<Rightarrow> unit bop" where
  "write_head me l =
     bbind (bread me ROOTDEV (lg_start l)) (\<lambda>buf s.
     bbind (bwrite me buf) (\<lambda>_. brelse me buf) (bset buf (head_put l (b_data (bufs s ! buf))) s))"

definition recover_from_log :: "int \<Rightarrow> logst \<Rightarrow> logst bop" where
  "recover_from_log me l =
     bbind (read_head me l) (\<lambda>l.
     bbind (install_trans me l) (\<lambda>_.
     bbind (write_head me (l\<lparr>lh_n := 0\<rparr>)) (\<lambda>_ s. (BRet (l\<lparr>lh_n := 0\<rparr>), s))))"

definition initlog :: "int \<Rightarrow> nat \<Rightarrow> nat \<Rightarrow> logst bop" where
  "initlog me logstart nlog =
     recover_from_log me \<lparr>lg_start = logstart, lg_size = nlog, outstanding = 0, committing = False,
       lh_n = 0, lh_block = replicate LOGSIZE 0\<rparr>"

definition write_log_one :: "int \<Rightarrow> logst \<Rightarrow> nat \<Rightarrow> unit bop" where
  "write_log_one me l tail =
     bbind (bread me ROOTDEV (lg_start l + tail + 1)) (\<lambda>to.
     bbind (bread me ROOTDEV (lh_block l ! tail)) (\<lambda>from s.
     bbind (bwrite me to) (\<lambda>_.
     bbind (brelse me from) (\<lambda>_.
     brelse me to)) (bset to (b_data (bufs s ! from)) s)))"

definition write_log :: "int \<Rightarrow> logst \<Rightarrow> unit bop" where
  "write_log me l = bfor (write_log_one me l) [0..<nat (lh_n l)]"

definition commit :: "int \<Rightarrow> logst \<Rightarrow> logst bop" where
  "commit me l =
     (if lh_n l > 0 then
        bbind (write_log me l) (\<lambda>_.
        bbind (write_head me l) (\<lambda>_.
        bbind (install_trans me l) (\<lambda>_.
        bbind (write_head me (l\<lparr>lh_n := 0\<rparr>)) (\<lambda>_ s. (BRet (l\<lparr>lh_n := 0\<rparr>), s)))))
      else (\<lambda>s. (BRet l, s)))"

text \<open>
  \<^verbatim>\<open>begin_op\<close> up to its return or a sleep (a woken process starts over), and \<^verbatim>\<open>end_op\<close>
  before and after its commit; the first part tells whether to commit.
\<close>

definition begin_op :: "nat \<Rightarrow> logst \<times> ptable \<Rightarrow> outcome \<times> logst \<times> ptable" where
  "begin_op cur s =
     (let (l, ps) = s in
      if committing l \<or> lh_n l + (outstanding l + 1) * MAXOPBLOCKS > int LOGSIZE
      then (Blocked, (l, upd_at ps cur (sleep_begin ChLog)))
      else (Done 0, (l\<lparr>outstanding := outstanding l + 1\<rparr>, ps)))"

definition end_op_begin :: "sched_cfg \<Rightarrow> logst \<times> ptable \<Rightarrow> (bool \<times> logst \<times> ptable) res" where
  "end_op_begin c s =
     (let (l, ps) = s; l = l\<lparr>outstanding := outstanding l - 1\<rparr> in
      if committing l then Inl (Panic ''log.committing'')
      else if outstanding l = 0 then Inr (True, (l\<lparr>committing := True\<rparr>, ps))
      else Inr (False, (l, wakeup c ChLog ps)))"

definition end_op_end :: "sched_cfg \<Rightarrow> logst \<times> ptable \<Rightarrow> logst \<times> ptable" where
  "end_op_end c s = (let (l, ps) = s in (l\<lparr>committing := False\<rparr>, wakeup c ChLog ps))"

text \<open>
  \<^verbatim>\<open>log_write\<close>: the part on the header, which tells whether the block is new in the
  transaction, and the whole.
\<close>

definition log_note :: "nat \<Rightarrow> logst \<Rightarrow> (bool \<times> logst) res" where
  "log_note blockno l =
     (if lh_n l \<ge> int LOGSIZE \<or> lh_n l \<ge> int (lg_size l) - 1 then Inl (Panic ''too big a transaction'')
      else if outstanding l < 1 then Inl (Panic ''log_write outside of trans'')
      else
        (let n = nat (lh_n l);
             i = (case find_idx (\<lambda>b. b = blockno) (take n (lh_block l)) of None \<Rightarrow> n | Some i \<Rightarrow> i);
             l = l\<lparr>lh_block := (lh_block l)[i := blockno]\<rparr>
         in Inr (i = n, if i = n then l\<lparr>lh_n := lh_n l + 1\<rparr> else l)))"

definition log_write :: "nat \<Rightarrow> logst \<times> bcache \<Rightarrow> (logst \<times> bcache) res" where
  "log_write i s =
     (let (l, bcs) = s in
      case log_note (b_blockno (bufs bcs ! i)) l of
        Inl e \<Rightarrow> Inl e
      | Inr (new, l) \<Rightarrow> Inr (l, if new then bpin i bcs else bcs))"

subsection \<open>The header block\<close>

lemma length_put32 [simp]: "length (put32 b off x) = length b"
  by (simp add: put32_def)

lemma get_put32:
  assumes "x < 2 ^ 32" "off + 3 < length b"
  shows "get32 (put32 b off x) off = x"
proof -
  have hi: "x div 16777216 mod 256 = x div 16777216" using assms(1) by (simp add: less_mult_imp_div_less)
  have "x = x mod 256 + 256 * (x div 256)" by simp
  moreover have "x div 256 = x div 256 mod 256 + 256 * (x div 65536)"
    by (simp add: div_mult2_eq [of x 256 256, simplified])
  moreover have "x div 65536 = x div 65536 mod 256 + 256 * (x div 16777216)"
    by (simp add: div_mult2_eq [of x 65536 256, simplified])
  ultimately have "x = x mod 256 + 256 * (x div 256 mod 256) + 65536 * (x div 65536 mod 256) + 16777216 * (x div 16777216)"
    by linarith
  moreover have "get32 (put32 b off x) off =
      x mod 256 + 256 * (x div 256 mod 256) + 65536 * (x div 65536 mod 256) + 16777216 * (x div 16777216)"
    using assms(2) hi by (simp add: get32_def put32_def nth_list_update)
  ultimately show ?thesis by simp
qed

lemma get_put32_other: "off' + 4 \<le> off \<or> off + 4 \<le> off' \<Longrightarrow> get32 (put32 b off x) off' = get32 b off'"
  by (auto simp: get32_def put32_def)

text \<open>The number of logged blocks fits the header and the log area, and block numbers are 32-bit.\<close>

definition head_fit :: "logst \<Rightarrow> bool" where
  "head_fit l \<longleftrightarrow> 0 \<le> lh_n l \<and> lh_n l < int LOGSIZE \<and> lh_n l < int (lg_size l) \<and> length (lh_block l) = LOGSIZE"

definition head_ok :: "logst \<Rightarrow> bool" where
  "head_ok l \<longleftrightarrow> head_fit l \<and> (\<forall>b \<in> set (lh_block l). b < 2 ^ 32)"

lemma head_put_fold:
  assumes "m \<le> LOGSIZE" "length b = BSIZE" "\<And>i. i < m \<Longrightarrow> f i < 2 ^ 32"
  shows "length (fold (\<lambda>i b. put32 b (4 + 4 * i) (f i)) [0..<m] b) = BSIZE \<and>
    get32 (fold (\<lambda>i b. put32 b (4 + 4 * i) (f i)) [0..<m] b) 0 = get32 b 0 \<and>
    (\<forall>i < m. get32 (fold (\<lambda>i b. put32 b (4 + 4 * i) (f i)) [0..<m] b) (4 + 4 * i) = f i)"
  using assms
proof (induction m)
  case (Suc m)
  let ?b = "fold (\<lambda>i b. put32 b (4 + 4 * i) (f i)) [0..<m] b"
  from Suc have IH: "length ?b = BSIZE" "get32 ?b 0 = get32 b 0" "\<forall>i < m. get32 ?b (4 + 4 * i) = f i" by auto
  have "get32 (put32 ?b (4 + 4 * m) (f m)) (4 + 4 * i) = f i" if "i < Suc m" for i
  proof (cases "i = m")
    case True
    with Suc.prems(1,3) IH(1) show ?thesis by (simp add: get_put32)
  next
    case False
    with that IH(3) show ?thesis by (simp add: get_put32_other)
  qed
  with IH Suc.prems show ?case by (simp add: get_put32_other)
qed simp

lemma head_put_spec:
  assumes "head_ok l" "length b = BSIZE"
  shows "length (head_put l b) = BSIZE" "get32 (head_put l b) 0 = nat (lh_n l)"
    "i < nat (lh_n l) \<Longrightarrow> get32 (head_put l b) (4 + 4 * i) = lh_block l ! i"
proof -
  have u: "nat (u32 (lh_n l)) = nat (lh_n l)" using assms(1) by (simp add: head_ok_def head_fit_def u32_def)
  let ?b = "put32 b 0 (nat (lh_n l))"
  have b: "length ?b = BSIZE" "get32 ?b 0 = nat (lh_n l)"
    using assms by (auto simp: head_ok_def head_fit_def get_put32)
  have f: "lh_block l ! i < 2 ^ 32" if "i < nat (lh_n l)" for i
    using assms(1) that nth_mem [of i "lh_block l"] by (auto simp: head_ok_def head_fit_def)
  have m: "nat (lh_n l) \<le> LOGSIZE" using assms(1) unfolding head_ok_def head_fit_def by linarith
  note sp = head_put_fold [OF m b(1), of "\<lambda>i. lh_block l ! i", OF f]
  show "length (head_put l b) = BSIZE" "get32 (head_put l b) 0 = nat (lh_n l)"
    "i < nat (lh_n l) \<Longrightarrow> get32 (head_put l b) (4 + 4 * i) = lh_block l ! i"
    using sp b(2) by (simp_all add: head_put_def u)
qed

lemma head_get_spec:
  assumes "length (lh_block l0) = LOGSIZE" "get32 b 0 < LOGSIZE"
  shows "lh_n (head_get b l0) = int (get32 b 0)" "length (lh_block (head_get b l0)) = LOGSIZE"
    "i < get32 b 0 \<Longrightarrow> lh_block (head_get b l0) ! i = get32 b (4 + 4 * i)"
    "lg_start (head_get b l0) = lg_start l0" "lg_size (head_get b l0) = lg_size l0"
proof -
  have n: "i32 (int (get32 b 0)) = int (get32 b 0)" using assms(2) by (intro i32_id) auto
  then show "lh_n (head_get b l0) = int (get32 b 0)" by (simp add: head_get_def Let_def)
  show "length (lh_block (head_get b l0)) = LOGSIZE" using assms(1) by (simp add: head_get_def Let_def)
  show "i < get32 b 0 \<Longrightarrow> lh_block (head_get b l0) ! i = get32 b (4 + 4 * i)"
    using assms n by (simp add: head_get_def Let_def)
qed (simp_all add: head_get_def Let_def)

subsection \<open>Sequences of disk writes\<close>

definition apply_writes :: "(nat \<times> block) list \<Rightarrow> (nat \<Rightarrow> block) \<Rightarrow> nat \<Rightarrow> block" where
  "apply_writes W d = fold (\<lambda>(a, x) d. d(a := x)) W d"

lemma apply_writes_simps [simp]:
  "apply_writes [] d = d" "apply_writes (V @ W) d = apply_writes W (apply_writes V d)"
  "apply_writes ((a, x) # W) d = apply_writes W (d(a := x))"
  by (simp_all add: apply_writes_def)

lemma apply_writes_outside: "m \<notin> fst ` set W \<Longrightarrow> apply_writes W d m = d m"
  by (induction W rule: rev_induct) auto

text \<open>Writing \<open>f k\<close> at \<open>g k\<close> for \<open>k = 0, \<dots>, n - 1\<close>.\<close>

definition writes_at :: "(nat \<Rightarrow> nat) \<Rightarrow> (nat \<Rightarrow> block) \<Rightarrow> nat \<Rightarrow> (nat \<times> block) list" where
  "writes_at g f n = map (\<lambda>k. (g k, f k)) [0..<n]"

lemma writes_at_simps [simp]:
  "writes_at g f 0 = []" "writes_at g f (Suc n) = writes_at g f n @ [(g n, f n)]" "length (writes_at g f n) = n"
  by (simp_all add: writes_at_def)

lemma take_writes_at: "j \<le> n \<Longrightarrow> take j (writes_at g f n) = writes_at g f j"
  by (simp add: writes_at_def take_map)

lemma apply_writes_at_out: "m \<notin> g ` {..<n} \<Longrightarrow> apply_writes (writes_at g f n) d m = d m"
  by (rule apply_writes_outside) (auto simp: writes_at_def)

lemma apply_writes_at_in:
  assumes "inj_on g {..<n}" "k < n"
  shows "apply_writes (writes_at g f n) d (g k) = f k"
  using assms
proof (induction n)
  case (Suc n)
  show ?case
  proof (cases "k = n")
    case False
    then have "g k \<noteq> g n" using Suc.prems by (auto simp: inj_on_def)
    moreover have "apply_writes (writes_at g f n) d (g k) = f k"
      using Suc False by (intro Suc.IH) (auto simp: inj_on_def)
    ultimately show ?thesis by simp
  qed simp
qed simp

subsection \<open>The steps of a commit\<close>

lemma bbind_assoc: "bbind (bbind m f) g = bbind m (\<lambda>x. bbind (f x) g)"
  by (auto simp: bbind_def fun_eq_iff split: prod.splits bout.splits)

lemma bbind_BRet: "m s = (BRet a, t) \<Longrightarrow> bbind m f s = f a t"
  by (simp add: bbind_def)

lemma bfor_Nil: "bfor body [] s = (BRet (), s)"
  by (simp add: bfor_def)

lemma bfor_snoc: "bfor body (ks @ [k]) = bbind (bfor body ks) (\<lambda>_. body k)"
proof (induction ks)
  case Nil
  then show ?case by (auto simp: bfor_def bbind_def fun_eq_iff split: prod.splits bout.splits)
next
  case (Cons j ks)
  have "bfor body ((j # ks) @ [k]) = bbind (body j) (\<lambda>_. bfor body (ks @ [k]))" by (simp add: bfor_def)
  also have "\<dots> = bbind (bfor body (j # ks)) (\<lambda>_. body k)" unfolding Cons by (simp add: bfor_def bbind_assoc)
  finally show ?case .
qed

definition log_area :: "logst \<Rightarrow> nat set" where
  "log_area l = {lg_start l ..< lg_start l + lg_size l}"

definition homes :: "logst \<Rightarrow> nat set" where
  "homes l = (\<lambda>k. lh_block l ! k) ` {..<nat (lh_n l)}"

text \<open>
  What a transaction needs to be written out: its blocks are different and outside the log, nobody
  holds them or the log blocks, and with them no more than 29 buffers are in use.
\<close>

definition trans_ok :: "logst \<Rightarrow> bcache \<Rightarrow> bool" where
  "trans_ok l s \<longleftrightarrow> bio_inv s \<and> head_fit l \<and> inj_on (\<lambda>k. lh_block l ! k) {..<nat (lh_n l)} \<and> homes l \<inter> log_area l = {} \<and>
     (\<forall>m \<in> log_area l \<union> homes l. hold s m = None \<and> uses s m < 2 ^ 32 - 1) \<and>
     card ({m. uses s m \<noteq> 0} \<union> homes l) < NBUF"

lemma trans_okD:
  assumes "trans_ok l s" "k < nat (lh_n l)"
  shows "lg_start l + k + 1 \<in> log_area l" "lh_block l ! k \<in> homes l" "lh_block l ! k \<notin> log_area l"
    "hold s (lg_start l + k + 1) = None" "hold s (lh_block l ! k) = None"
    "uses s (lg_start l + k + 1) < 2 ^ 32 - 1" "uses s (lh_block l ! k) < 2 ^ 32 - 1"
    "lg_start l + k + 1 \<noteq> lh_block l ! k"
proof -
  show a: "lg_start l + k + 1 \<in> log_area l" using assms by (auto simp: trans_ok_def head_fit_def log_area_def)
  show h: "lh_block l ! k \<in> homes l" using assms(2) by (simp add: homes_def)
  show n: "lh_block l ! k \<notin> log_area l" using assms(1) h by (auto simp: trans_ok_def)
  show "lg_start l + k + 1 \<noteq> lh_block l ! k" using a n by metis
  show "hold s (lg_start l + k + 1) = None" "hold s (lh_block l ! k) = None"
    "uses s (lg_start l + k + 1) < 2 ^ 32 - 1" "uses s (lh_block l ! k) < 2 ^ 32 - 1"
    using assms(1) a h by (auto simp: trans_ok_def)
qed

lemma trans_few:
  assumes "trans_ok l s"
  shows "card {m. uses s m \<noteq> 0} < NBUF" "finite ({m. uses s m \<noteq> 0} \<union> homes l)"
proof -
  show fin: "finite ({m. uses s m \<noteq> 0} \<union> homes l)"
    using assms uses_finite by (auto simp: trans_ok_def homes_def)
  have "card {m. uses s m \<noteq> 0} \<le> card ({m. uses s m \<noteq> 0} \<union> homes l)" using fin by (intro card_mono) auto
  then show "card {m. uses s m \<noteq> 0} < NBUF" using assms by (simp add: trans_ok_def)
qed

abbreviation log_writes :: "logst \<Rightarrow> bcache \<Rightarrow> nat \<Rightarrow> (nat \<times> block) list" where
  "log_writes l s \<equiv> writes_at (\<lambda>k. lg_start l + k + 1) (\<lambda>k. view s (lh_block l ! k))"

abbreviation home_writes :: "logst \<Rightarrow> bcache \<Rightarrow> nat \<Rightarrow> (nat \<times> block) list" where
  "home_writes l s \<equiv> writes_at (\<lambda>k. lh_block l ! k) (\<lambda>k. view s (lg_start l + k + 1))"

lemma write_log_steps:
  assumes ok: "trans_ok l s" and pin: "\<And>m. m \<in> homes l \<Longrightarrow> uses s m \<noteq> 0" and "n \<le> nat (lh_n l)"
  shows "\<exists>t. bfor (write_log_one me l) [0..<n] s = (BRet (), t) \<and> bio_inv t \<and>
    disk t = apply_writes (log_writes l s n) (disk s) \<and> dwrites t = dwrites s @ log_writes l s n \<and>
    view t = apply_writes (log_writes l s n) (view s) \<and> uses t = uses s \<and> hold t = hold s"
  using assms(3)
proof (induction n)
  case 0
  then show ?case using ok by (simp add: bfor_Nil trans_ok_def)
next
  case (Suc n)
  let ?a = "lg_start l + n + 1" and ?b = "lh_block l ! n"
  from Suc obtain t where t: "bfor (write_log_one me l) [0..<n] s = (BRet (), t)" "bio_inv t"
    "disk t = apply_writes (log_writes l s n) (disk s)" "dwrites t = dwrites s @ log_writes l s n"
    "view t = apply_writes (log_writes l s n) (view s)" "uses t = uses s" "hold t = hold s" by auto
  have n: "n < nat (lh_n l)" using Suc.prems by simp
  note d = trans_okD [OF ok n]
  have "lg_start l + k + 1 \<noteq> ?b" if "k < n" for k
    using d(3) trans_okD(1) [OF ok, of k] n that by fastforce
  then have "?b \<notin> (\<lambda>k. lg_start l + k + 1) ` {..<n}" by (metis (no_types, lifting) imageE lessThan_iff)
  then have vb: "view t ?b = view s ?b" unfolding t(5) by (rule apply_writes_at_out)
  have "\<exists>u. write_log_one me l n t = (BRet (), u) \<and> bio_inv u \<and> disk u = (disk t)(?a := view t ?b) \<and>
      dwrites u = dwrites t @ [(?a, view t ?b)] \<and> view u = (view t)(?a := view t ?b) \<and> uses u = uses t \<and> hold u = hold t"
    unfolding write_log_one_def
    by (rule bc.copy_cycle) (use t(2,6,7) d pin trans_few(1) [OF ok] in simp_all)
  then obtain u where u: "write_log_one me l n t = (BRet (), u)" "bio_inv u" "disk u = (disk t)(?a := view t ?b)"
      "dwrites u = dwrites t @ [(?a, view t ?b)]" "view u = (view t)(?a := view t ?b)" "uses u = uses t" "hold u = hold t" by blast
  have "bfor (write_log_one me l) [0..<Suc n] s = (BRet (), u)"
    using t(1) u(1) by (simp add: bfor_snoc bbind_BRet)
  moreover have "disk u = apply_writes (log_writes l s (Suc n)) (disk s)" using u(3) t(3) vb by simp
  moreover have "view u = apply_writes (log_writes l s (Suc n)) (view s)" using u(5) t(5) vb by simp
  moreover have "dwrites u = dwrites s @ log_writes l s (Suc n)" using u(4) t(4) vb by simp
  moreover have "uses u = uses s" "hold u = hold s" using u(6,7) t(6,7) by simp_all
  ultimately show ?case using u(2) by blast
qed

lemma install_steps:
  assumes ok: "trans_ok l s" and clean: "\<And>m. m \<in> log_area l \<Longrightarrow> view s m = disk s m" and "n \<le> nat (lh_n l)"
  shows "\<exists>t. bfor (install_one me l) [0..<n] s = (BRet (), t) \<and> bio_inv t \<and>
    disk t = apply_writes (home_writes l s n) (disk s) \<and> dwrites t = dwrites s @ home_writes l s n \<and>
    view t = apply_writes (home_writes l s n) (view s) \<and>
    uses t = (\<lambda>m. if m \<in> (\<lambda>k. lh_block l ! k) ` {..<n} then u32 (uses s m - 1) else uses s m) \<and> hold t = hold s"
  using assms(3)
proof (induction n)
  case 0
  then show ?case using ok by (simp add: bfor_Nil trans_ok_def)
next
  case (Suc n)
  let ?a = "lg_start l + n + 1" and ?b = "lh_block l ! n" and ?H = "(\<lambda>k. lh_block l ! k) ` {..<n}"
  from Suc obtain t where t: "bfor (install_one me l) [0..<n] s = (BRet (), t)" "bio_inv t"
    "disk t = apply_writes (home_writes l s n) (disk s)" "dwrites t = dwrites s @ home_writes l s n"
    "view t = apply_writes (home_writes l s n) (view s)"
    "uses t = (\<lambda>m. if m \<in> ?H then u32 (uses s m - 1) else uses s m)" "hold t = hold s" by auto
  have n: "n < nat (lh_n l)" using Suc.prems by simp
  note d = trans_okD [OF ok n]
  have H: "?H \<subseteq> homes l" using n by (auto simp: homes_def)
  have aH: "?a \<notin> ?H" using d(1) H ok by (auto simp: trans_ok_def)
  have bH: "?b \<notin> ?H"
  proof
    assume "?b \<in> ?H"
    then obtain k where k: "k < n" "?b = lh_block l ! k" by auto
    have "inj_on (\<lambda>k. lh_block l ! k) {..<nat (lh_n l)}" using ok by (simp add: trans_ok_def)
    from inj_onD [OF this k(2)] k(1) n show False by auto
  qed
  have va: "view t ?a = view s ?a" "disk t ?a = disk s ?a"
    unfolding t(3,5) by (rule apply_writes_at_out [OF aH])+
  have ua: "uses t ?a = uses s ?a" "uses t ?b = uses s ?b" using aH bH t(6) by simp_all
  have sub: "{m. uses t m \<noteq> 0} \<subseteq> {m. uses s m \<noteq> 0} \<union> homes l" using t(6) H by (auto split: if_splits)
  then have c1: "card {m. uses t m \<noteq> 0} \<le> card ({m. uses s m \<noteq> 0} \<union> homes l)"
    using trans_few(2) [OF ok] by (rule card_mono [rotated])
  have c2: "card {m. uses t m \<noteq> 0} < card ({m. uses s m \<noteq> 0} \<union> homes l)" if "uses t ?b = 0"
    using trans_few(2) [OF ok] sub that d(2) by (intro psubset_card_mono) auto
  have lt: "card ({m. uses s m \<noteq> 0} \<union> homes l) < NBUF" using ok by (simp add: trans_ok_def)
  have "\<exists>u. install_one me l n t = (BRet (), u) \<and> bio_inv u \<and> disk u = (disk t)(?b := view t ?a) \<and>
      dwrites u = dwrites t @ [(?b, view t ?a)] \<and> view u = (view t)(?b := view t ?a) \<and>
      uses u = (uses t)(?b := u32 (uses t ?b - 1)) \<and> hold u = hold t"
    unfolding install_one_def
  proof (rule bc.install_cycle)
    show "uses t ?b \<noteq> 0 \<or> card {m. uses t m \<noteq> 0} < NBUF - 1" using c2 lt by linarith
  qed (use t(2,7) d va ua clean c1 lt in simp_all)
  then obtain u where u: "install_one me l n t = (BRet (), u)" "bio_inv u" "disk u = (disk t)(?b := view t ?a)"
      "dwrites u = dwrites t @ [(?b, view t ?a)]" "view u = (view t)(?b := view t ?a)"
      "uses u = (uses t)(?b := u32 (uses t ?b - 1))" "hold u = hold t" by blast
  have "bfor (install_one me l) [0..<Suc n] s = (BRet (), u)"
    using t(1) u(1) by (simp add: bfor_snoc bbind_BRet)
  moreover have "uses u = (\<lambda>m. if m \<in> (\<lambda>k. lh_block l ! k) ` {..<Suc n} then u32 (uses s m - 1) else uses s m)"
    using u(6) t(6) bH by (auto simp: lessThan_Suc)
  moreover have "disk u = apply_writes (home_writes l s (Suc n)) (disk s)" using u(3) t(3) va(1) by simp
  moreover have "view u = apply_writes (home_writes l s (Suc n)) (view s)" using u(5) t(5) va(1) by simp
  moreover have "dwrites u = dwrites s @ home_writes l s (Suc n)" using u(4) t(4) va(1) by simp
  moreover have "hold u = hold s" using u(7) t(7) by simp
  ultimately show ?case using u(2) by blast
qed

lemma start_in_area: "head_fit l \<Longrightarrow> lg_start l \<in> log_area l"
  by (auto simp: head_fit_def log_area_def)

lemma head_step:
  assumes "bio_inv s" "hold s (lg_start l) = None" "uses s (lg_start l) < 2 ^ 32 - 1" "card {m. uses s m \<noteq> 0} < NBUF"
  shows "\<exists>t. write_head me l s = (BRet (), t) \<and> bio_inv t \<and>
    disk t = (disk s)(lg_start l := head_put l (view s (lg_start l))) \<and>
    dwrites t = dwrites s @ [(lg_start l, head_put l (view s (lg_start l)))] \<and>
    view t = (view s)(lg_start l := head_put l (view s (lg_start l))) \<and> uses t = uses s \<and> hold t = hold s"
  unfolding write_head_def by (rule bc.write_cycle) (use assms in simp_all)

lemma apply_writes_cong: "f m = g m \<Longrightarrow> apply_writes W f m = apply_writes W g m"
  by (induction W rule: rev_induct) auto

lemma writes_at_cong: "(\<And>k. k < n \<Longrightarrow> f k = f' k) \<Longrightarrow> writes_at g f n = writes_at g f' n"
  by (simp add: writes_at_def)

text \<open>All the disk writes of a commit, in order.\<close>

definition commit_writes :: "logst \<Rightarrow> bcache \<Rightarrow> (nat \<times> block) list" where
  "commit_writes l s =
     (let n = nat (lh_n l); H = head_put l (disk s (lg_start l)) in
      log_writes l s n @ [(lg_start l, H)] @
      writes_at (\<lambda>k. lh_block l ! k) (\<lambda>k. view s (lh_block l ! k)) n @ [(lg_start l, head_put (l\<lparr>lh_n := 0\<rparr>) H)])"

lemma commit_spec:
  assumes ok: "trans_ok l s" and pin: "\<And>m. m \<in> homes l \<Longrightarrow> uses s m \<noteq> 0"
    and clean: "\<And>m. m \<in> log_area l \<Longrightarrow> view s m = disk s m" and pos: "lh_n l > 0"
  shows "\<exists>t. commit me l s = (BRet (l\<lparr>lh_n := 0\<rparr>), t) \<and> bio_inv t \<and> disk t = apply_writes (commit_writes l s) (disk s) \<and>
    dwrites t = dwrites s @ commit_writes l s"
proof -
  let ?n = "nat (lh_n l)" and ?h = "lg_start l"
  have fit: "head_fit l" and inv: "bio_inv s" using ok by (auto simp: trans_ok_def)
  note ha = start_in_area [OF fit]
  have hs: "hold s ?h = None" "uses s ?h < 2 ^ 32 - 1" using ok ha by (auto simp: trans_ok_def)
  have hhome: "?h \<notin> homes l" using ok ha by (auto simp: trans_ok_def)
  have hlog: "?h \<notin> (\<lambda>k. ?h + k + 1) ` {..<?n}" by auto
  from write_log_steps [OF ok pin order_refl] obtain s1 where s1: "write_log me l s = (BRet (), s1)" "bio_inv s1"
    "disk s1 = apply_writes (log_writes l s ?n) (disk s)" "dwrites s1 = dwrites s @ log_writes l s ?n"
    "view s1 = apply_writes (log_writes l s ?n) (view s)" "uses s1 = uses s" "hold s1 = hold s"
    by (auto simp: write_log_def)
  have v1: "view s1 ?h = disk s ?h" unfolding s1(5) using apply_writes_at_out [OF hlog] clean [OF ha] by simp
  let ?H = "head_put l (disk s ?h)"
  from head_step [of s1 l me] s1(2,6,7) hs trans_few(1) [OF ok] v1 obtain s2 where s2: "write_head me l s1 = (BRet (), s2)"
    "bio_inv s2" "disk s2 = (disk s1)(?h := ?H)" "dwrites s2 = dwrites s1 @ [(?h, ?H)]" "view s2 = (view s1)(?h := ?H)"
    "uses s2 = uses s" "hold s2 = hold s" by auto
  have ok2: "trans_ok l s2" using ok s2(2,6,7) by (simp add: trans_ok_def)
  have clean2: "view s2 m = disk s2 m" if "m \<in> log_area l" for m
    using clean [OF that] apply_writes_cong [of "view s" m "disk s" "log_writes l s ?n"] by (simp add: s2(3,5) s1(3,5))
  have v2: "view s2 (?h + k + 1) = view s (lh_block l ! k)" if "k < ?n" for k
    using apply_writes_at_in [of "\<lambda>k. ?h + k + 1" ?n k "\<lambda>k. view s (lh_block l ! k)" "view s"] that
    by (simp add: s2(5) s1(5) inj_on_def)
  have hw: "home_writes l s2 ?n = writes_at (\<lambda>k. lh_block l ! k) (\<lambda>k. view s (lh_block l ! k)) ?n"
    by (rule writes_at_cong) (use v2 in simp)
  let ?W3 = "writes_at (\<lambda>k. lh_block l ! k) (\<lambda>k. view s (lh_block l ! k)) ?n"
  from install_steps [OF ok2 clean2 order_refl] obtain s3 where s3: "install_trans me l s2 = (BRet (), s3)" "bio_inv s3"
    "disk s3 = apply_writes ?W3 (disk s2)" "dwrites s3 = dwrites s2 @ ?W3" "view s3 = apply_writes ?W3 (view s2)"
    "uses s3 = (\<lambda>m. if m \<in> (\<lambda>k. lh_block l ! k) ` {..<?n} then u32 (uses s2 m - 1) else uses s2 m)" "hold s3 = hold s2"
    unfolding hw install_trans_def by blast
  have sub: "{m. uses s3 m \<noteq> 0} \<subseteq> {m. uses s m \<noteq> 0} \<union> homes l"
    using s3(6) s2(6) by (auto simp: homes_def split: if_splits)
  have few3: "card {m. uses s3 m \<noteq> 0} < NBUF"
    using card_mono [OF trans_few(2) [OF ok] sub] ok by (simp add: trans_ok_def)
  have h3: "hold s3 ?h = None" "uses s3 ?h < 2 ^ 32 - 1"
    using s3(6,7) s2(6,7) hs hhome by (simp_all add: homes_def)
  have v3: "view s3 ?h = ?H"
    using s2(5) apply_writes_at_out [of ?h "\<lambda>k. lh_block l ! k" ?n _ "view s2"] hhome by (simp add: s3(5) homes_def)
  from head_step [of s3 "l\<lparr>lh_n := 0\<rparr>" me] s3(2) h3 few3 v3 obtain s4 where
    s4: "write_head me (l\<lparr>lh_n := 0\<rparr>) s3 = (BRet (), s4)" "bio_inv s4" "disk s4 = (disk s3)(?h := head_put (l\<lparr>lh_n := 0\<rparr>) ?H)"
    "dwrites s4 = dwrites s3 @ [(?h, head_put (l\<lparr>lh_n := 0\<rparr>) ?H)]" by auto
  have "commit me l s = (BRet (l\<lparr>lh_n := 0\<rparr>), s4)"
    using pos s1(1) s2(1) s3(1) s4(1) by (simp add: commit_def bbind_BRet)
  moreover have "disk s4 = apply_writes (commit_writes l s) (disk s)"
    using s4(3) s3(3) s2(3) s1(3) by (simp add: commit_writes_def Let_def)
  moreover have "dwrites s4 = dwrites s @ commit_writes l s"
    using s4(4) s3(4) s2(4) s1(4) by (simp add: commit_writes_def Let_def)
  ultimately show ?thesis using s4(2) by blast
qed

subsection \<open>Recovery\<close>

text \<open>The header that a disk holds, and what makes it a usable log.\<close>

definition disk_n :: "nat \<Rightarrow> (nat \<Rightarrow> block) \<Rightarrow> nat" where
  "disk_n start D = get32 (D start) 0"

definition disk_home :: "nat \<Rightarrow> (nat \<Rightarrow> block) \<Rightarrow> nat \<Rightarrow> nat" where
  "disk_home start D k = get32 (D start) (4 + 4 * k)"

definition log_disk_ok :: "logst \<Rightarrow> (nat \<Rightarrow> block) \<Rightarrow> bool" where
  "log_disk_ok l D \<longleftrightarrow> length (lh_block l) = LOGSIZE \<and> disk_n (lg_start l) D < LOGSIZE \<and> disk_n (lg_start l) D < lg_size l \<and>
     inj_on (disk_home (lg_start l) D) {..<disk_n (lg_start l) D} \<and>
     disk_home (lg_start l) D ` {..<disk_n (lg_start l) D} \<inter> log_area l = {}"

definition recover_writes :: "logst \<Rightarrow> (nat \<Rightarrow> block) \<Rightarrow> (nat \<times> block) list" where
  "recover_writes l D =
     writes_at (disk_home (lg_start l) D) (\<lambda>k. D (lg_start l + k + 1)) (disk_n (lg_start l) D) @
     [(lg_start l, head_put ((head_get (D (lg_start l)) l)\<lparr>lh_n := 0\<rparr>) (D (lg_start l)))]"

text \<open>A cache that nobody uses and that holds nothing but the contents of the disk.\<close>

definition idle_cache :: "(nat \<Rightarrow> block) \<Rightarrow> bcache \<Rightarrow> bool" where
  "idle_cache D s \<longleftrightarrow> bio_inv s \<and> disk s = D \<and> dwrites s = [] \<and> view s = D \<and> uses s = (\<lambda>_. 0) \<and> hold s = (\<lambda>_. None)"

lemma idle_binit: "idle_cache D (binit D junk)"
  by (simp add: idle_cache_def binit_inv binit_abs)

lemma recover_idle:
  assumes "log_disk_ok l0 D" and idle: "idle_cache D s"
  shows "\<exists>l t. recover_from_log me l0 s = (BRet l, t) \<and> lh_n l = 0 \<and> bio_inv t \<and> view t = disk t \<and>
    disk t = apply_writes (recover_writes l0 D) D \<and> dwrites t = recover_writes l0 D \<and>
    uses t = (\<lambda>m. if m \<in> disk_home (lg_start l0) D ` {..<disk_n (lg_start l0) D} then 2 ^ 32 - 1 else 0) \<and>
    hold t = (\<lambda>_. None)"
proof -
  let ?h = "lg_start l0" and ?n = "disk_n (lg_start l0) D" and ?hm = "disk_home (lg_start l0) D" and ?s = s
  define l where "l = head_get (D ?h) l0"
  have len: "length (lh_block l0) = LOGSIZE" "get32 (D ?h) 0 < LOGSIZE" using assms by (auto simp: log_disk_ok_def disk_n_def)
  note hg = head_get_spec [OF len]
  have l: "nat (lh_n l) = ?n" "lg_start l = ?h" "lg_size l = lg_size l0" "\<And>k. k < ?n \<Longrightarrow> lh_block l ! k = ?hm k"
    using hg by (simp_all add: l_def disk_n_def disk_home_def)
  have fit: "head_fit l" using assms hg(1,2) l(3) by (simp add: head_fit_def l_def log_disk_ok_def disk_n_def)
  have area: "log_area l = log_area l0" by (simp add: log_area_def l)
  have hom: "homes l = ?hm ` {..<?n}" unfolding homes_def l(1) using l(4) by (auto simp: image_iff)
  have "read_head me l0 ?s = bbind (bread me ROOTDEV ?h) (\<lambda>buf s. bbind (brelse me buf)
      (\<lambda>_ s'. (BRet (head_get (b_data (bufs s ! buf)) l0), s')) s) ?s" by (simp add: read_head_def)
  moreover have "\<exists>t. bbind (bread me ROOTDEV ?h) (\<lambda>buf s. bbind (brelse me buf)
      (\<lambda>_ s'. (BRet (head_get (b_data (bufs s ! buf)) l0), s')) s) ?s = (BRet (head_get (view ?s ?h) l0), t) \<and>
      bio_inv t \<and> disk t = disk ?s \<and> dwrites t = dwrites ?s \<and> view t = view ?s \<and> uses t = uses ?s \<and> hold t = hold ?s"
    by (rule bc.read_cycle) (use idle in \<open>simp_all add: idle_cache_def\<close>)
  ultimately obtain s1 where s1: "read_head me l0 ?s = (BRet l, s1)" "bio_inv s1" "disk s1 = D" "dwrites s1 = []"
    "view s1 = D" "uses s1 = (\<lambda>_. 0)" "hold s1 = (\<lambda>_. None)" using idle by (auto simp: idle_cache_def l_def)
  have "card (homes l) \<le> ?n" unfolding hom using card_image_le [of "{..<?n}" ?hm] by simp
  then have ok: "trans_ok l s1"
    using s1 fit assms area hom l by (auto simp: trans_ok_def log_disk_ok_def inj_on_def)
  have hw: "home_writes l s1 ?n = writes_at ?hm (\<lambda>k. D (?h + k + 1)) ?n"
    unfolding s1(5) l(2) using l(4) by (auto simp: writes_at_def)
  have clean: "view s1 m = disk s1 m" for m using s1(3,5) by simp
  have le: "?n \<le> nat (lh_n l)" by (simp add: l(1))
  from install_steps [OF ok clean le, of me, unfolded hw, unfolded s1(3,4,5,7)] obtain s2 where
    s2: "install_trans me l s1 = (BRet (), s2)" "bio_inv s2"
    "disk s2 = apply_writes (writes_at ?hm (\<lambda>k. D (?h + k + 1)) ?n) D" "dwrites s2 = writes_at ?hm (\<lambda>k. D (?h + k + 1)) ?n"
    "view s2 = apply_writes (writes_at ?hm (\<lambda>k. D (?h + k + 1)) ?n) D"
    "uses s2 = (\<lambda>m. if m \<in> (\<lambda>k. lh_block l ! k) ` {..<?n} then u32 (uses s1 m - 1) else uses s1 m)"
    "hold s2 = (\<lambda>_. None)"
    unfolding install_trans_def l(1) by auto
  have hh: "?h \<notin> homes l" using start_in_area [OF fit] ok l(2) by (auto simp: trans_ok_def)
  have sub: "{m. uses s2 m \<noteq> 0} \<subseteq> homes l" using s2(6) s1(6) by (auto simp: homes_def l(1) split: if_splits)
  have "card {m. uses s2 m \<noteq> 0} \<le> card (homes l)" by (rule card_mono [OF _ sub]) (simp add: homes_def)
  also have "\<dots> < NBUF" using \<open>card (homes l) \<le> ?n\<close> assms by (simp add: log_disk_ok_def)
  finally have few: "card {m. uses s2 m \<noteq> 0} < NBUF" .
  have u: "uses s2 ?h = 0" using s2(6) s1(6) hh by (simp add: homes_def l(1))
  have v: "view s2 ?h = D ?h" unfolding s2(5) by (rule apply_writes_at_out) (use hh hom in auto)
  from head_step [of s2 "l\<lparr>lh_n := 0\<rparr>" me] s2(2,7) few u v l(2) obtain s3 where
    s3: "write_head me (l\<lparr>lh_n := 0\<rparr>) s2 = (BRet (), s3)" "bio_inv s3" "disk s3 = (disk s2)(?h := head_put (l\<lparr>lh_n := 0\<rparr>) (D ?h))"
    "dwrites s3 = dwrites s2 @ [(?h, head_put (l\<lparr>lh_n := 0\<rparr>) (D ?h))]" "uses s3 = uses s2" "hold s3 = hold s2"
    "view s3 = (view s2)(?h := head_put (l\<lparr>lh_n := 0\<rparr>) (D ?h))" by auto
  have "recover_from_log me l0 ?s = (BRet (l\<lparr>lh_n := 0\<rparr>), s3)"
    using s1(1) s2(1) s3(1) by (simp add: recover_from_log_def bbind_BRet)
  moreover have "disk s3 = apply_writes (recover_writes l0 D) D" "dwrites s3 = recover_writes l0 D"
    using s3(3,4) s2(3,4) by (simp_all add: recover_writes_def l_def)
  moreover have "uses s3 = (\<lambda>m. if m \<in> ?hm ` {..<?n} then 2 ^ 32 - 1 else 0)"
  proof -
    have "u32 (0 - 1) = 2 ^ 32 - 1" by (simp add: u32_def)
    then show ?thesis unfolding s3(5) s2(6) s1(6) hom [symmetric] homes_def l(1) by presburger
  qed
  moreover have "hold s3 = (\<lambda>_. None)" "view s3 = disk s3" using s3(3,6,7) s2(3,5,7) by simp_all
  ultimately show ?thesis using s3(2) by (intro exI [of _ "l\<lparr>lh_n := 0\<rparr>"] exI [of _ s3]) simp
qed

lemmas recover_spec = recover_idle [OF _ idle_binit]

subsection \<open>Crashes\<close>

text \<open>
  A transaction that is ready to commit: its blocks are pinned, every other block is the same in
  the cache and on the disk, and the log on the disk is empty.
\<close>

definition commit_ready :: "logst \<Rightarrow> bcache \<Rightarrow> bool" where
  "commit_ready l s \<longleftrightarrow> trans_ok l s \<and> head_ok l \<and> lh_n l > 0 \<and> (\<forall>m \<in> homes l. uses s m \<noteq> 0) \<and>
     (\<forall>m. m \<notin> homes l \<longrightarrow> view s m = disk s m) \<and> length (disk s (lg_start l)) = BSIZE \<and> disk_n (lg_start l) (disk s) = 0"

definition boot_log :: "logst \<Rightarrow> logst" where
  "boot_log l = \<lparr>lg_start = lg_start l, lg_size = lg_size l, outstanding = 0, committing = False, lh_n = 0, lh_block = replicate LOGSIZE 0\<rparr>"

lemma boot_log_simps [simp]:
  "lg_start (boot_log l) = lg_start l" "lg_size (boot_log l) = lg_size l" "length (lh_block (boot_log l)) = LOGSIZE"
  "log_area (boot_log l) = log_area l" "initlog me (lg_start l) (lg_size l) = recover_from_log me (boot_log l)"
  by (simp_all add: boot_log_def log_area_def initlog_def)

lemma recovered_other:
  assumes "m \<notin> disk_home (lg_start l) D ` {..<disk_n (lg_start l) D}" "m \<noteq> lg_start l"
  shows "apply_writes (recover_writes l D) D m = D m"
  using assms apply_writes_at_out [OF assms(1)] by (simp add: recover_writes_def)

lemma recovered_home:
  assumes "log_disk_ok l D" "k < disk_n (lg_start l) D" "head_fit l'" "lg_start l' = lg_start l" "lg_size l' = lg_size l"
  shows "apply_writes (recover_writes l D) D (disk_home (lg_start l) D k) = D (lg_start l + k + 1)"
proof -
  have "lg_start l \<in> log_area l" using start_in_area [OF assms(3)] assms(4,5) by (simp add: log_area_def)
  then have "disk_home (lg_start l) D k \<noteq> lg_start l" using assms(1,2) by (auto simp: log_disk_ok_def)
  moreover have "inj_on (disk_home (lg_start l) D) {..<disk_n (lg_start l) D}" using assms(1) by (simp add: log_disk_ok_def)
  ultimately show ?thesis using apply_writes_at_in [OF _ assms(2)] by (simp add: recover_writes_def)
qed

lemma crash_before:
  assumes "commit_ready l s" "j \<le> nat (lh_n l)"
  defines "D \<equiv> apply_writes (log_writes l s j) (disk s)"
  shows "log_disk_ok (boot_log l) D" "m \<notin> log_area l \<Longrightarrow> apply_writes (recover_writes (boot_log l) D) D m = disk s m"
proof -
  have ok: "trans_ok l s" and fit: "head_fit l" using assms(1) by (auto simp: commit_ready_def trans_ok_def)
  have "lg_start l \<notin> (\<lambda>k. lg_start l + k + 1) ` {..<j}" by auto
  then have h: "D (lg_start l) = disk s (lg_start l)" unfolding D_def by (rule apply_writes_at_out)
  then have n: "disk_n (lg_start l) D = 0" using assms(1) by (simp add: commit_ready_def disk_n_def)
  then show "log_disk_ok (boot_log l) D" using fit by (simp add: log_disk_ok_def head_fit_def)
  assume m: "m \<notin> log_area l"
  have "m \<notin> (\<lambda>k. lg_start l + k + 1) ` {..<j}"
  proof
    assume "m \<in> (\<lambda>k. lg_start l + k + 1) ` {..<j}"
    then obtain k where "k < j" "m = lg_start l + k + 1" by auto
    with trans_okD(1) [OF ok, of k] assms(2) m show False by auto
  qed
  then have "D m = disk s m" unfolding D_def by (rule apply_writes_at_out)
  moreover have "m \<noteq> lg_start l" using m start_in_area [OF fit] by auto
  ultimately show "apply_writes (recover_writes (boot_log l) D) D m = disk s m"
    using recovered_other [of m "boot_log l" D] n by simp
qed

text \<open>After the header write the disk holds the whole transaction, however much is installed.\<close>

lemma crash_after_head:
  assumes "commit_ready l s" "i \<le> nat (lh_n l)"
  defines "D \<equiv> apply_writes (log_writes l s (nat (lh_n l)) @ [(lg_start l, head_put l (disk s (lg_start l)))] @
      writes_at (\<lambda>k. lh_block l ! k) (\<lambda>k. view s (lh_block l ! k)) i) (disk s)"
  shows "log_disk_ok (boot_log l) D" "m \<notin> log_area l \<Longrightarrow> apply_writes (recover_writes (boot_log l) D) D m = view s m"
proof -
  let ?n = "nat (lh_n l)" and ?h = "lg_start l" and ?H = "head_put l (disk s (lg_start l))"
  have ok: "trans_ok l s" and fit: "head_fit l" and hok: "head_ok l" and len: "length (disk s ?h) = BSIZE"
    and dirty: "\<And>m. m \<notin> homes l \<Longrightarrow> view s m = disk s m"
    using assms(1) by (auto simp: commit_ready_def trans_ok_def)
  let ?D1 = "apply_writes (log_writes l s ?n) (disk s)" and ?W3 = "writes_at (\<lambda>k. lh_block l ! k) (\<lambda>k. view s (lh_block l ! k)) i"
  have D: "D = apply_writes ?W3 (?D1(?h := ?H))" by (simp add: D_def)
  have sub: "(\<lambda>k. lh_block l ! k) ` {..<i} \<subseteq> homes l" using assms(2) by (auto simp: homes_def)
  have out: "D m = (?D1(?h := ?H)) m" if "m \<notin> homes l" for m
    unfolding D by (rule apply_writes_at_out) (use that sub in blast)
  have area_home: "m \<notin> homes l" if "m \<in> log_area l" for m using that ok by (auto simp: trans_ok_def)
  have h: "D ?h = ?H" using out [OF area_home [OF start_in_area [OF fit]]] by simp
  note hp = head_put_spec [OF hok len]
  have n: "disk_n ?h D = ?n" by (simp add: disk_n_def h hp(2))
  have hm: "disk_home ?h D k = lh_block l ! k" if "k < ?n" for k using hp(3) [OF that] by (simp add: disk_home_def h)
  have img: "disk_home ?h D ` {..<?n} = homes l" unfolding homes_def using hm by (auto simp: image_iff)
  show ldo: "log_disk_ok (boot_log l) D"
    unfolding log_disk_ok_def boot_log_simps n img
    using ok fit hm by (auto simp: trans_ok_def head_fit_def inj_on_def)
  have logb: "D (?h + k + 1) = view s (lh_block l ! k)" if "k < ?n" for k
  proof -
    have "D (?h + k + 1) = ?D1 (?h + k + 1)" using out [OF area_home [OF trans_okD(1) [OF ok that]]] by simp
    also have "\<dots> = view s (lh_block l ! k)"
      using apply_writes_at_in [of "\<lambda>k. ?h + k + 1" ?n k "\<lambda>k. view s (lh_block l ! k)" "disk s"] that by (simp add: inj_on_def)
    finally show ?thesis .
  qed
  assume m: "m \<notin> log_area l"
  then have mh: "m \<noteq> ?h" using start_in_area [OF fit] by auto
  show "apply_writes (recover_writes (boot_log l) D) D m = view s m"
  proof (cases "m \<in> homes l")
    case True
    then obtain k where k: "k < ?n" "m = lh_block l ! k" by (auto simp: homes_def)
    have "apply_writes (recover_writes (boot_log l) D) D (disk_home (lg_start (boot_log l)) D k) = D (lg_start (boot_log l) + k + 1)"
      by (rule recovered_home [OF ldo _ fit]) (use n k in simp_all)
    with hm [OF k(1)] logb [OF k(1)] k(2) show ?thesis by simp
  next
    case False
    have "m \<notin> (\<lambda>k. ?h + k + 1) ` {..<?n}"
    proof
      assume "m \<in> (\<lambda>k. ?h + k + 1) ` {..<?n}"
      then obtain k where "k < ?n" "m = ?h + k + 1" by auto
      with trans_okD(1) [OF ok, of k] m show False by auto
    qed
    then have "?D1 m = disk s m" by (rule apply_writes_at_out)
    then have "D m = view s m" using out [OF False] mh dirty [OF False] by simp
    moreover have "m \<notin> disk_home ?h D ` {..<disk_n ?h D}" using False img n by simp
    ultimately show ?thesis using recovered_other [of m "boot_log l" D] mh by simp
  qed
qed

lemma head_put_zero: "length b = BSIZE \<Longrightarrow> get32 (head_put (l\<lparr>lh_n := 0\<rparr>) b) 0 = 0"
  by (simp add: head_put_def u32_def get_put32)

lemma crash_end:
  assumes "commit_ready l s"
  defines "D \<equiv> apply_writes (commit_writes l s) (disk s)"
  shows "log_disk_ok (boot_log l) D" "m \<notin> log_area l \<Longrightarrow> D m = view s m"
    "m \<notin> log_area l \<Longrightarrow> apply_writes (recover_writes (boot_log l) D) D m = view s m"
proof -
  let ?n = "nat (lh_n l)" and ?h = "lg_start l" and ?H = "head_put l (disk s (lg_start l))"
  let ?Hz = "head_put (l\<lparr>lh_n := 0\<rparr>) ?H" and ?D1 = "apply_writes (log_writes l s ?n) (disk s)"
  have ok: "trans_ok l s" and fit: "head_fit l" and hok: "head_ok l" and len: "length (disk s ?h) = BSIZE"
    and dirty: "\<And>m. m \<notin> homes l \<Longrightarrow> view s m = disk s m"
    using assms(1) by (auto simp: commit_ready_def trans_ok_def)
  have D: "D = (apply_writes (writes_at (\<lambda>k. lh_block l ! k) (\<lambda>k. view s (lh_block l ! k)) ?n) (?D1(?h := ?H)))(?h := ?Hz)"
    by (simp add: D_def commit_writes_def Let_def)
  have n: "disk_n ?h D = 0" using head_put_zero head_put_spec(1) [OF hok len] by (simp add: disk_n_def D)
  then show "log_disk_ok (boot_log l) D" using fit by (simp add: log_disk_ok_def head_fit_def)
  show dm: "D m = view s m" if m: "m \<notin> log_area l" for m
  proof -
    have mh: "m \<noteq> ?h" using m start_in_area [OF fit] by auto
    show ?thesis
    proof (cases "m \<in> homes l")
      case True
      then obtain k where k: "k < ?n" "m = lh_block l ! k" by (auto simp: homes_def)
      have inj: "inj_on (\<lambda>k. lh_block l ! k) {..<?n}" using ok by (simp add: trans_ok_def)
      from apply_writes_at_in [OF inj k(1)] k(2) mh show ?thesis by (simp add: D)
    next
      case False
      have "m \<notin> (\<lambda>k. ?h + k + 1) ` {..<?n}"
      proof
        assume "m \<in> (\<lambda>k. ?h + k + 1) ` {..<?n}"
        then obtain k where "k < ?n" "m = ?h + k + 1" by auto
        with trans_okD(1) [OF ok, of k] m show False by auto
      qed
      then have "?D1 m = disk s m" by (rule apply_writes_at_out)
      moreover have "m \<notin> (\<lambda>k. lh_block l ! k) ` {..<?n}" using False by (simp add: homes_def)
      ultimately show ?thesis using mh dirty [OF False] apply_writes_at_out [of m "\<lambda>k. lh_block l ! k" ?n] by (simp add: D)
    qed
  qed
  assume m: "m \<notin> log_area l"
  then have "m \<noteq> ?h" using start_in_area [OF fit] by auto
  with dm [OF m] recovered_other [of m "boot_log l" D] n show "apply_writes (recover_writes (boot_log l) D) D m = view s m" by simp
qed

text \<open>A prefix of the writes of a commit.\<close>

lemma take_commit_writes:
  obtains "j \<le> nat (lh_n l)" "take j (commit_writes l s) = log_writes l s j"
  | i where "nat (lh_n l) < j" "i \<le> nat (lh_n l)" "take j (commit_writes l s) =
      log_writes l s (nat (lh_n l)) @ [(lg_start l, head_put l (disk s (lg_start l)))] @
      writes_at (\<lambda>k. lh_block l ! k) (\<lambda>k. view s (lh_block l ! k)) i"
  | "nat (lh_n l) < j" "take j (commit_writes l s) = commit_writes l s"
proof -
  let ?n = "nat (lh_n l)"
  consider "j \<le> ?n" | "?n < j" "j \<le> 2 * ?n + 1" | "2 * ?n + 1 < j" by linarith
  then show ?thesis
  proof cases
    case 1
    then show ?thesis using that(1) by (simp add: commit_writes_def Let_def take_writes_at)
  next
    case 2
    then obtain i where i: "j = ?n + Suc i" "i \<le> ?n" by (metis add_Suc_right le_add_diff_inverse less_iff_Suc_add mult_2 nat_add_left_cancel_le Suc_eq_plus1 not_less_eq_eq)
    then show ?thesis using that(2) [of i] by (simp add: commit_writes_def Let_def take_writes_at)
  next
    case 3
    then show ?thesis using that(3) by (simp add: commit_writes_def Let_def)
  qed
qed

text \<open>A prefix of the writes of a recovery can be recovered again, with the same result.\<close>

lemma crash_recovers:
  fixes l s j
  assumes "commit_ready l s"
  defines "D \<equiv> apply_writes (take j (commit_writes l s)) (disk s)"
  shows "log_disk_ok (boot_log l) D \<and>
    ((\<forall>m. m \<notin> log_area l \<longrightarrow> apply_writes (recover_writes (boot_log l) D) D m = disk s m) \<or>
     (\<forall>m. m \<notin> log_area l \<longrightarrow> apply_writes (recover_writes (boot_log l) D) D m = view s m))"
proof (cases rule: take_commit_writes [of j l s])
  case 1
  with crash_before [OF assms(1) 1(1)] show ?thesis by (simp add: D_def)
next
  case (2 i)
  with crash_after_head [OF assms(1) 2(2)] show ?thesis unfolding D_def 2(3) by blast
next
  case 3
  with crash_end [OF assms(1)] show ?thesis by (simp add: D_def)
qed

lemma recover_again:
  assumes ok: "log_disk_ok l D" and size: "0 < lg_size l" and len: "length (D (lg_start l)) = BSIZE"
  defines "D' j \<equiv> apply_writes (take j (recover_writes l D)) D"
  shows "log_disk_ok l (D' j)" "m \<notin> log_area l \<Longrightarrow>
    apply_writes (recover_writes l (D' j)) (D' j) m = apply_writes (recover_writes l D) D m"
proof -
  let ?h = "lg_start l" and ?n = "disk_n (lg_start l) D" and ?hm = "disk_home (lg_start l) D"
  let ?W = "writes_at ?hm (\<lambda>k. D (?h + k + 1)) ?n" and ?Hz = "head_put ((head_get (D ?h) l)\<lparr>lh_n := 0\<rparr>) (D ?h)"
  have W: "recover_writes l D = ?W @ [(?h, ?Hz)]" by (simp add: recover_writes_def)
  have inj: "inj_on ?hm {..<?n}" and dis: "?hm ` {..<?n} \<inter> log_area l = {}" and lt: "?n < LOGSIZE" "?n < lg_size l"
    using ok by (auto simp: log_disk_ok_def)
  have ha: "?h \<in> log_area l" using size by (simp add: log_area_def)
  have fit: "head_fit ((boot_log l)\<lparr>lh_n := 0\<rparr>)" using size by (simp add: head_fit_def)
  consider (part) "j \<le> ?n" | (full) "?n < j" by linarith
  then have "log_disk_ok l (D' j) \<and> (m \<notin> log_area l \<longrightarrow>
      apply_writes (recover_writes l (D' j)) (D' j) m = apply_writes (recover_writes l D) D m)"
  proof cases
    case part
    then have Dj: "D' j = apply_writes (writes_at ?hm (\<lambda>k. D (?h + k + 1)) j) D" by (simp add: D'_def W take_writes_at)
    have out: "D' j x = D x" if "x \<notin> ?hm ` {..<?n}" for x
      unfolding Dj by (rule apply_writes_at_out) (use that part in auto)
    have area: "D' j x = D x" if "x \<in> log_area l" for x using out that dis by blast
    then have hd: "D' j ?h = D ?h" using ha by simp
    then have same: "disk_n ?h (D' j) = ?n" "disk_home ?h (D' j) = ?hm" by (simp_all add: disk_n_def disk_home_def fun_eq_iff)
    have ok': "log_disk_ok l (D' j)" using ok by (simp add: log_disk_ok_def same)
    moreover have "apply_writes (recover_writes l (D' j)) (D' j) m = apply_writes (recover_writes l D) D m" if m: "m \<notin> log_area l"
    proof (cases "m \<in> ?hm ` {..<?n}")
      case True
      then obtain k where k: "k < ?n" "m = ?hm k" by auto
      have "?h + k + 1 \<in> log_area l" using k(1) lt(2) by (simp add: log_area_def)
      then have "D' j (?h + k + 1) = D (?h + k + 1)" by (rule area)
      with recovered_home [OF ok', of k] recovered_home [OF ok k(1) fit] k fit same show ?thesis by simp
    next
      case False
      moreover have "m \<noteq> ?h" using m ha by auto
      ultimately show ?thesis using recovered_other [of m l "D' j"] recovered_other [of m l D] out same by simp
    qed
    ultimately show ?thesis by simp
  next
    case full
    then have Dj: "D' j = (apply_writes ?W D)(?h := ?Hz)" by (simp add: D'_def W)
    then have n0: "disk_n ?h (D' j) = 0" using head_put_zero [OF len] by (simp add: disk_n_def)
    have "D' j m = apply_writes (recover_writes l D) D m" by (simp add: Dj W)
    moreover have "m \<noteq> ?h" if "m \<notin> log_area l" using that ha by auto
    ultimately show ?thesis using recovered_other [of m l "D' j"] n0 ok by (auto simp: log_disk_ok_def)
  qed
  then show "log_disk_ok l (D' j)" "m \<notin> log_area l \<Longrightarrow>
    apply_writes (recover_writes l (D' j)) (D' j) m = apply_writes (recover_writes l D) D m" by auto
qed

subsection \<open>Log space\<close>

text \<open>
  The system calls that use the log, by the number of blocks each running one has added to the
  transaction. A system call adds at most \<^verbatim>\<open>MAXOPBLOCKS\<close> blocks.
\<close>

definition drop_at :: "nat \<Rightarrow> 'a list \<Rightarrow> 'a list" where
  "drop_at i xs = take i xs @ drop (Suc i) xs"

inductive log_step :: "sched_cfg \<Rightarrow> logst \<times> nat list \<Rightarrow> logst \<times> nat list \<Rightarrow> bool" for c where
  start: "begin_op cur (l, ps) = (Done 0, (l', ps')) \<Longrightarrow> log_step c (l, ws) (l', ws @ [0])"
| add: "i < length ws \<Longrightarrow> ws ! i < 10 \<Longrightarrow> log_note b l = Inr (new, l') \<Longrightarrow>
    log_step c (l, ws) (l', if new then ws[i := ws ! i + 1] else ws)"
| finish: "i < length ws \<Longrightarrow> end_op_begin c (l, ps) = Inr (do_commit, (l', ps')) \<Longrightarrow> log_step c (l, ws) (l', drop_at i ws)"
| committed: "committing l \<Longrightarrow> commit me l s = (BRet l1, t) \<Longrightarrow> end_op_end c (l1, ps) = (l', ps') \<Longrightarrow> log_step c (l, ws) (l', ws)"

inductive_cases log_stepE: "log_step c s s'"

definition log_inv :: "logst \<times> nat list \<Rightarrow> bool" where
  "log_inv s = (case s of (l, ws) \<Rightarrow>
     outstanding l = int (length ws) \<and> (committing l \<longrightarrow> ws = []) \<and> 0 \<le> lh_n l \<and> (\<forall>w \<in> set ws. w \<le> 10) \<and>
     lh_n l + int (sum_list (map (\<lambda>w. 10 - w) ws)) \<le> int LOGSIZE)"

lemma commit_result: "commit me l s = (BRet l', t) \<Longrightarrow> l' = l\<lparr>lh_n := 0\<rparr> \<or> lh_n l \<le> 0 \<and> l' = l"
  by (auto simp: commit_def bbind_def split: if_splits prod.splits bout.splits)

lemma sum_drop_at: "i < length xs \<Longrightarrow> sum_list (map f (drop_at i xs)) \<le> (sum_list (map f xs) :: nat)"
  by (subst (2) id_take_nth_drop [of i xs]) (auto simp: drop_at_def)

lemma sum_reserve: "\<forall>w \<in> set ws. w \<le> 10 \<Longrightarrow> sum_list (map (\<lambda>w. 10 - w) ws) \<le> 10 * length ws" for ws :: "nat list"
  by (induction ws) auto

lemma sum_add_one:
  assumes "i < length ws" "ws ! i < (10 :: nat)"
  shows "Suc (sum_list (map (\<lambda>w. 10 - w) (ws[i := ws ! i + 1]))) = sum_list (map (\<lambda>w. 10 - w) ws)"
  using assms
proof (induction ws arbitrary: i)
  case (Cons w ws)
  then show ?case by (cases i) auto
qed simp

lemma log_step_inv:
  assumes "log_step c s s'" "log_inv s"
  shows "log_inv s'"
  using assms(1)
proof (cases rule: log_step.cases)
  case (start cur l ps l' ps' ws)
  then have l': "l' = l\<lparr>outstanding := outstanding l + 1\<rparr>" "\<not> committing l" "lh_n l + (outstanding l + 1) * 10 \<le> 30"
    by (auto simp: begin_op_def split: if_splits)
  have inv: "outstanding l = int (length ws)" "0 \<le> lh_n l" "\<forall>w \<in> set ws. w \<le> 10" using assms(2) start(1) by (auto simp: log_inv_def)
  have "int (sum_list (map (\<lambda>w. 10 - w) ws)) \<le> 10 * int (length ws)" using sum_reserve [OF inv(3)] by linarith
  with l' inv start(2) show ?thesis by (simp add: log_inv_def)
next
  case (add i ws b l new l')
  have fields: "outstanding l' = outstanding l" "committing l' = committing l" "lh_n l' = (if new then lh_n l + 1 else lh_n l)"
    using add(5) by (auto simp: log_note_def Let_def split: if_splits option.splits)
  have inv: "outstanding l = int (length ws)" "committing l \<longrightarrow> ws = []" "0 \<le> lh_n l" "\<forall>w \<in> set ws. w \<le> 10"
    "lh_n l + int (sum_list (map (\<lambda>w. 10 - w) ws)) \<le> 30" using assms(2) add(1) by (auto simp: log_inv_def)
  have "\<forall>w \<in> set (ws[i := ws ! i + 1]). w \<le> 10" by (rule ball_set_upd [OF inv(4)]) (use add(4) in simp)
  then show ?thesis using fields inv add(2) sum_add_one [OF add(3,4)] by (auto simp: log_inv_def)
next
  case (finish i ws l ps do_commit l' ps')
  have fields: "lh_n l' = lh_n l" "outstanding l' = outstanding l - 1" "committing l' \<longrightarrow> outstanding l' = 0"
    using finish(4) by (auto simp: end_op_begin_def Let_def split: if_splits)
  have len: "length (drop_at i ws) = length ws - 1" using finish(3) by (simp add: drop_at_def)
  have sub: "set (drop_at i ws) \<subseteq> set ws" using set_take_subset set_drop_subset by (fastforce simp: drop_at_def)
  have inv: "outstanding l = int (length ws)" "0 \<le> lh_n l" "\<forall>w \<in> set ws. w \<le> 10"
    "lh_n l + int (sum_list (map (\<lambda>w. 10 - w) ws)) \<le> 30" using assms(2) finish(1) by (auto simp: log_inv_def)
  have "committing l' \<longrightarrow> drop_at i ws = []" using fields(2,3) inv(1) len finish(3) by (auto simp flip: length_0_conv)
  with fields inv len sub sum_drop_at [OF finish(3), of "\<lambda>w. 10 - w"] finish(2,3) show ?thesis
    by (auto simp: log_inv_def)
next
  case (committed l me s l1 t ps l' ps' ws)
  from commit_result [OF committed(4)] committed(1,2,5) assms(2) show ?thesis
    by (auto simp: log_inv_def end_op_end_def)
qed

lemma log_run_inv: "(log_step c)\<^sup>*\<^sup>* s s' \<Longrightarrow> log_inv s \<Longrightarrow> log_inv s'"
  by (induction rule: rtranclp_induct) (auto intro: log_step_inv)

subsection \<open>Properties\<close>

text \<open>
  C10. Commits are atomic under crashes. A commit of a ready transaction succeeds and leaves the
  new contents of every block outside the log on the disk. If the machine stops after any number of
  its disk writes, the recovery at the next boot succeeds and leaves on the disk, for all blocks
  outside the log together, either the contents before the transaction or the contents after it.
\<close>

theorem log_crash_atomic:
  assumes "commit_ready l s"
  shows "\<exists>t. commit me l s = (BRet (l\<lparr>lh_n := 0\<rparr>), t) \<and> (\<forall>m. m \<notin> log_area l \<longrightarrow> disk t m = view s m) \<and>
    (\<forall>j. \<exists>l' r. initlog me (lg_start l) (lg_size l)
        (binit (apply_writes (take j (drop (length (dwrites s)) (dwrites t))) (disk s)) junk) = (BRet l', r) \<and>
      ((\<forall>m. m \<notin> log_area l \<longrightarrow> disk r m = disk s m) \<or> (\<forall>m. m \<notin> log_area l \<longrightarrow> disk r m = view s m)))"
proof -
  have ok: "trans_ok l s" "\<And>m. m \<in> homes l \<Longrightarrow> uses s m \<noteq> 0" "lh_n l > 0"
    and clean: "\<And>m. m \<in> log_area l \<Longrightarrow> view s m = disk s m"
    using assms by (auto simp: commit_ready_def trans_ok_def)
  from commit_spec [OF ok(1,2) clean ok(3)] obtain t where t: "commit me l s = (BRet (l\<lparr>lh_n := 0\<rparr>), t)"
    "disk t = apply_writes (commit_writes l s) (disk s)" "dwrites t = dwrites s @ commit_writes l s" by blast
  have "\<exists>l' r. initlog me (lg_start l) (lg_size l) (binit (apply_writes (take j (commit_writes l s)) (disk s)) junk) = (BRet l', r) \<and>
      ((\<forall>m. m \<notin> log_area l \<longrightarrow> disk r m = disk s m) \<or> (\<forall>m. m \<notin> log_area l \<longrightarrow> disk r m = view s m))" for j
  proof -
    define D where "D = apply_writes (take j (commit_writes l s)) (disk s)"
    note K = crash_recovers [OF assms, of j, folded D_def]
    from recover_spec [OF conjunct1 [OF K], of me junk] obtain l' r where
      "recover_from_log me (boot_log l) (binit D junk) = (BRet l', r)" "disk r = apply_writes (recover_writes (boot_log l) D) D" by blast
    then show ?thesis using K unfolding boot_log_simps D_def [symmetric] by (intro exI [of _ l'] exI [of _ r]) simp
  qed
  then show ?thesis using t crash_end(2) [OF assms] by (intro exI [of _ t]) simp
qed

text \<open>A transaction that changes block 100 of an empty disk, whose log starts at block 2.\<close>

definition demo_log :: logst where
  "demo_log = \<lparr>lg_start = 2, lg_size = 30, outstanding = 0, committing = False, lh_n = 1, lh_block = 100 # replicate 29 0\<rparr>"

lemma demo_homes: "homes demo_log = {100}" "log_area demo_log = {2..<32}"
  by (auto simp: homes_def log_area_def demo_log_def)

lemma demo_ready:
  assumes "length (D 2) = BSIZE" "disk_n 2 D = 0"
  shows "\<exists>s. commit_ready demo_log s \<and> view s = D(100 := d) \<and> disk s = D"
proof -
  let ?s = "binit D []"
  obtain i s1 where s1: "got 1 ?s 100 i s1"
    using bc.read_ok [OF binit_inv, of D "[]" 100 1] bread_spec [OF binit_inv, of D "[]" 100 1] free_buffer [OF binit_inv, of D "[]"]
    by (auto simp: binit_abs)
  then have a1: "bio_inv s1" "buf_at s1 i 100" "uses s1 = (\<lambda>_. 0)(100 := 1)" "hold s1 = (\<lambda>_. None)(100 := Some 1)" "view s1 = D" "disk s1 = D"
    by (simp_all add: got_def binit_abs)
  define s2 where "s2 = bset i d s1"
  from bset_spec [OF a1(1,2), of d] a1 have a2: "bio_inv s2" "buf_at s2 i 100" "uses s2 = uses s1" "hold s2 = hold s1"
    "view s2 = D(100 := d)" "disk s2 = D" by (simp_all add: s2_def)
  define s3 where "s3 = bpin i s2"
  from bpin_spec [OF a2(1,2)] a1(3) a2 have a3: "bio_inv s3" "buf_at s3 i 100" "uses s3 = (\<lambda>_. 0)(100 := 2)" "hold s3 = hold s1"
    "view s3 = D(100 := d)" "disk s3 = D" by (simp_all add: s3_def)
  from brelse_spec [OF a3(1,2), of 1] a3(3,4) a1(4) obtain s where s: "bio_inv s" "disk s = D" "view s = D(100 := d)"
    "uses s = (\<lambda>_. 0)(100 := 1)" "hold s = (\<lambda>_. None)" using a3(5,6) by (auto simp: u32_def)
  have "{m :: nat. m = 100} = {100}" by auto
  then have "trans_ok demo_log s" using s 
    by (auto simp: trans_ok_def demo_homes head_fit_def) (simp_all add: demo_log_def inj_on_def lessThan_Suc)
  then have "commit_ready demo_log s" using s assms
    by (auto simp: commit_ready_def demo_homes head_ok_def trans_ok_def) (auto simp: demo_log_def)
  with s show ?thesis by auto
qed

theorem log_crash_atomic_witness:
  "\<exists>s t. commit 1 demo_log s = (BRet (demo_log\<lparr>lh_n := 0\<rparr>), t) \<and> disk s 100 = replicate BSIZE 0 \<and> disk t 100 = replicate BSIZE 7"
proof -
  obtain s where s: "commit_ready demo_log s" "view s = (\<lambda>_. replicate BSIZE 0)(100 := replicate BSIZE 7)" "disk s = (\<lambda>_. replicate BSIZE 0)"
    using demo_ready [of "\<lambda>_. replicate BSIZE 0" "replicate BSIZE 7"] by (auto simp: disk_n_def get32_def)
  then have v: "view s 100 = replicate BSIZE 7" by simp
  have "100 \<notin> log_area demo_log" by (simp add: demo_homes)
  with log_crash_atomic [OF s(1), of 1 "[]"] v s(3) show ?thesis by metis
qed

text \<open>
  C24. Recovery can itself be interrupted. Whatever log a disk holds, if the machine stops after any
  number of the disk writes of a recovery, the next recovery succeeds as well and gives every block
  outside the log the same contents as the uninterrupted recovery.
\<close>

theorem log_recovery_restartable:
  assumes "log_disk_ok (boot_log l) D" "0 < lg_size l" "length (D (lg_start l)) = BSIZE"
  shows "\<exists>l1 r. initlog me (lg_start l) (lg_size l) (binit D junk) = (BRet l1, r) \<and>
    (\<forall>j. \<exists>l2 r'. initlog me (lg_start l) (lg_size l) (binit (apply_writes (take j (dwrites r)) D) junk') = (BRet l2, r') \<and>
       (\<forall>m. m \<notin> log_area l \<longrightarrow> disk r' m = disk r m))"
proof -
  from recover_spec [OF assms(1), of me junk] obtain l1 r where r: "recover_from_log me (boot_log l) (binit D junk) = (BRet l1, r)"
    "disk r = apply_writes (recover_writes (boot_log l) D) D" "dwrites r = recover_writes (boot_log l) D" by blast
  have "\<exists>l2 r'. recover_from_log me (boot_log l) (binit (apply_writes (take j (dwrites r)) D) junk') = (BRet l2, r') \<and>
       (\<forall>m. m \<notin> log_area l \<longrightarrow> disk r' m = disk r m)" for j
  proof -
    let ?D = "apply_writes (take j (recover_writes (boot_log l) D)) D"
    have size: "0 < lg_size (boot_log l)" "length (D (lg_start (boot_log l))) = BSIZE" using assms(2,3) by simp_all
    note again = recover_again [OF assms(1) size, where j = j]
    from recover_spec [OF again(1), of me junk'] obtain l2 r' where
      r': "recover_from_log me (boot_log l) (binit ?D junk') = (BRet l2, r')"
      "disk r' = apply_writes (recover_writes (boot_log l) ?D) ?D" by blast
    have "disk r' m = disk r m" if "m \<notin> log_area l" for m
      unfolding r'(2) r(2) by (rule again(2)) (use that in simp)
    with r'(1) show ?thesis unfolding r(3) by blast
  qed
  then show ?thesis using r(1) by auto
qed



text \<open>A transaction of \<open>k\<close> blocks, 100 to \<open>99 + k\<close>, logged by three system calls.\<close>

definition three_ops :: "nat \<Rightarrow> logst" where
  "three_ops k = \<lparr>lg_start = 2, lg_size = 30, outstanding = 3, committing = False, lh_n = int k,
     lh_block = map (\<lambda>i. if i < k then 100 + i else 0) [0..<LOGSIZE]\<rparr>"

definition three_counts :: "nat \<Rightarrow> nat list" where
  "three_counts k = [min k 10, min (k - 10) 10, k - 20]"

lemma three_ops_note: "k < 29 \<Longrightarrow> log_note (100 + k) (three_ops k) = Inr (True, three_ops (Suc k))"
proof -
  assume k: "k < 29"
  let ?bs = "map (\<lambda>i. if i < k then 100 + i else 0) [0..<LOGSIZE]"
  have "find_idx (\<lambda>b. b = 100 + k) (take k ?bs) = None" by (simp add: find_idx_None_iff)
  moreover have "?bs[k := 100 + k] = map (\<lambda>i. if i < Suc k then 100 + i else 0) [0..<LOGSIZE]"
    using k by (intro nth_equalityI) (auto simp: nth_list_update)
  ultimately show ?thesis using k by (simp add: log_note_def three_ops_def Let_def)
qed

lemma three_ops_reach:
  assumes "k \<le> 29"
  shows "(log_step c)\<^sup>*\<^sup>* (three_ops 0, three_counts 0) (three_ops k, three_counts k)"
  using assms
proof (induction k)
  case (Suc k)
  define i where "i = (if k < 10 then 0 else if k < 20 then 1 else 2 :: nat)"
  have i: "i < length (three_counts k)" "three_counts k ! i < 10" "(three_counts k)[i := three_counts k ! i + 1] = three_counts (Suc k)"
    using Suc.prems by (auto simp: three_counts_def i_def min_def nth_Cons split: nat.splits)
  from log_step.add [OF i(1,2) three_ops_note, of k c] Suc.prems i(3)
  have "log_step c (three_ops k, three_counts k) (three_ops (Suc k), three_counts (Suc k))" by simp
  with Suc show ?case by (simp add: rtranclp.rtrancl_into_rtrancl)
qed simp

lemma three_ops_start:
  "(log_step c)\<^sup>*\<^sup>* (boot_log demo_log, []) (three_ops 0, three_counts 0)"
proof -
  let ?l = "\<lambda>k. (boot_log demo_log)\<lparr>outstanding := k\<rparr>"
  have st: "log_step c (?l k, ws) (?l (k + 1), ws @ [0])" if "0 \<le> k" "k < 3" for k ws
  proof (rule log_step.start)
    show "begin_op 0 (?l k, []) = (Done 0, (?l (k + 1), []))" using that by (simp add: begin_op_def boot_log_def)
  qed
  have "(log_step c)\<^sup>*\<^sup>* (?l 0, []) (?l 3, [0, 0, 0])"
    using st [of 0 "[]"] st [of 1 "[0]"] st [of 2 "[0, 0]"]
    by (auto intro: converse_rtranclp_into_rtranclp)
  moreover have "?l 0 = boot_log demo_log" by (simp add: boot_log_def)
  moreover have "?l 3 = three_ops 0" by (simp add: boot_log_def three_ops_def demo_log_def map_replicate_const)
  ultimately show ?thesis by (simp add: three_counts_def)
qed

text \<open>
  C40. The log that \<^verbatim>\<open>mkfs\<close> lays out is one block too small: with \<^verbatim>\<open>nlog = LOGSIZE\<close>, three
  system calls that \<^verbatim>\<open>begin_op\<close> admitted together reach the panic of \<^verbatim>\<open>log_write\<close>
  although each of them logs at most \<^verbatim>\<open>MAXOPBLOCKS\<close> blocks.
\<close>

theorem log_space_one_short:
  "\<exists>l ws. (log_step c)\<^sup>*\<^sup>* (boot_log demo_log, []) (l, ws) \<and> lg_size l = LOGSIZE \<and> ws = [10, 10, 9] \<and>
     log_note b l = Inl (Panic ''too big a transaction'')"
proof -
  have "(log_step c)\<^sup>*\<^sup>* (boot_log demo_log, []) (three_ops 29, three_counts 29)"
    by (rule rtranclp_trans [OF three_ops_start three_ops_reach]) simp
  moreover have "three_counts 29 = [10, 10, 9]" by (simp add: three_counts_def)
  moreover have "log_note b (three_ops 29) = Inl (Panic ''too big a transaction'')" by (simp add: log_note_def three_ops_def)
  ultimately show ?thesis by (auto simp: three_ops_def)
qed

text \<open>
  Recovery unpins blocks that were never pinned: after the recovery of a committed transaction
  the buffer of every block that it installed has a user count of \<open>2 ^ 32 - 1\<close>, so it is never
  free again, although nobody holds it.
\<close>

theorem log_recovery_underflows:
  assumes "log_disk_ok (boot_log l) D"
  shows "\<exists>l' r. initlog me (lg_start l) (lg_size l) (binit D junk) = (BRet l', r) \<and> hold r = (\<lambda>_. None) \<and>
    uses r = (\<lambda>m. if m \<in> disk_home (lg_start l) D ` {..<disk_n (lg_start l) D} then 2 ^ 32 - 1 else 0)"
  using recover_spec [OF assms, of me junk] by auto

definition demo_disk :: "nat \<Rightarrow> block" where
  "demo_disk m = (if m = 2 then put32 (put32 (replicate BSIZE 0) 0 1) 4 100 else replicate BSIZE m)"

lemma demo_disk_ok: "log_disk_ok (boot_log demo_log) demo_disk" "disk_n 2 demo_disk = 1" "disk_home 2 demo_disk 0 = 100"
proof -
  have "get32 (put32 (put32 (replicate BSIZE 0) 0 1) 4 100) 0 = 1" by (simp add: get_put32_other get_put32)
  then show n: "disk_n 2 demo_disk = 1" by (simp add: disk_n_def demo_disk_def)
  show h: "disk_home 2 demo_disk 0 = 100" by (simp add: disk_home_def demo_disk_def get_put32)
  have "lg_start demo_log = 2" "lg_size demo_log = 30" by (simp_all add: demo_log_def)
  then show "log_disk_ok (boot_log demo_log) demo_disk" using n h by (simp add: log_disk_ok_def demo_homes lessThan_Suc)
qed

theorem log_recovery_underflows_witness:
  "\<exists>l' r. initlog 1 2 30 (binit demo_disk []) = (BRet l', r) \<and> uses r 100 = 4294967295"
proof -
  have "lg_start demo_log = 2" "lg_size demo_log = 30" by (simp_all add: demo_log_def)
  moreover have "100 \<in> disk_home 2 demo_disk ` {..<disk_n 2 demo_disk}" using demo_disk_ok by (simp add: lessThan_Suc)
  ultimately show ?thesis using log_recovery_underflows [OF demo_disk_ok(1), of 1 "[]"] by auto
qed

theorem log_recovery_restartable_witness:
  "\<exists>l1 r l2 r'. initlog 1 2 30 (binit demo_disk []) = (BRet l1, r) \<and>
     initlog 1 2 30 (binit (apply_writes (take 1 (dwrites r)) demo_disk) []) = (BRet l2, r') \<and> disk r' 100 = disk r 100"
proof -
  have a: "100 \<notin> log_area demo_log" by (simp add: demo_homes)
  have d: "lg_start demo_log = 2" "lg_size demo_log = 30" "length (demo_disk 2) = BSIZE" by (simp_all add: demo_log_def demo_disk_def)
  then obtain l1 r where r: "initlog 1 2 30 (binit demo_disk []) = (BRet l1, r)"
    "\<forall>j. \<exists>l2 r'. initlog 1 2 30 (binit (apply_writes (take j (dwrites r)) demo_disk) []) = (BRet l2, r') \<and>
       (\<forall>m. m \<notin> log_area demo_log \<longrightarrow> disk r' m = disk r m)"
    using log_recovery_restartable [OF demo_disk_ok(1), of 1 "[]" "[]"] by auto
  with a show ?thesis by blast
qed

end
