(* ===== verification/Fs.thy ===== *)
theory Fs
  imports Log "HOL-Library.Multiset"
begin

section \<open>Disk blocks and the block maps of inodes\<close>

text \<open>
  \<^verbatim>\<open>kernel/filesystem/fs.c\<close>, the block layer: the free bitmap with its allocation hint
  (\<^verbatim>\<open>balloc\<close>, \<^verbatim>\<open>bfree\<close>), the reference counts that let files share data blocks
  (\<^verbatim>\<open>brefs\<close>), and the block map of an inode with direct, indirect and double indirect
  blocks (\<^verbatim>\<open>bmap\<close> and its variants), which copies a shared block before it is written.

  The code reads and modifies blocks between \<^verbatim>\<open>bread\<close> and \<^verbatim>\<open>brelse\<close>; theory \<open>Bio\<close> shows
  that such a pair sees and leaves exactly the block's contents, so the state has the contents
  as a function \<open>blk\<close>. A store into a buffer changes \<open>blk\<close>, and \<^verbatim>\<open>log_write\<close> records the
  block in \<open>logged\<close>, the block set of the running transaction (its space is the subject of
  theory \<open>Log\<close>). Blocks are byte lists, and the block numbers in indirect blocks and the fields
  of on-disk inodes are the little-endian bytes the C structures have on this machine.
\<close>

unbundle bit_operations_syntax

abbreviation (input) BPB :: nat where "BPB \<equiv> 8192"
abbreviation (input) IPB :: nat where "IPB \<equiv> 16"
abbreviation (input) NDIRECT :: nat where "NDIRECT \<equiv> 11"
abbreviation (input) NADDR :: nat where "NADDR \<equiv> 256"
abbreviation (input) NDINDIRECT :: nat where "NDINDIRECT \<equiv> 65536"
abbreviation (input) MAXFILE :: nat where "MAXFILE \<equiv> 65803"

record superblock =
  sb_magic :: nat
  sb_size :: nat
  sb_nblocks :: nat
  sb_ninodes :: nat
  sb_nlog :: nat
  sb_logstart :: nat
  sb_inodestart :: nat
  sb_bmapstart :: nat

record inode =
  i_dev :: nat
  i_inum :: nat
  i_ref :: int
  i_owner :: "int option"
  i_valid :: bool
  i_type :: nat
  i_mode :: nat
  i_major :: int
  i_minor :: int
  i_nlink :: int
  i_size :: nat
  i_addrs :: "nat list"
  i_flock_type :: int
  i_flock_count :: int

record fs =
  fs_sb :: superblock
  blk :: "nat \<Rightarrow> block"
  bref :: "nat \<Rightarrow> nat"
  hint :: nat
  icache :: "inode list"
  logged :: "nat set"

type_synonym 'a fop = "fs \<Rightarrow> 'a bout \<times> fs"

definition fret :: "'a \<Rightarrow> 'a fop" where
  "fret x s = (BRet x, s)"

definition fpanic :: "string \<Rightarrow> 'a fop" where
  "fpanic e s = (BPanic e, s)"

subsection \<open>Blocks and their reference counts\<close>

definition readsb :: "(nat \<Rightarrow> block) \<Rightarrow> superblock" where
  "readsb D =
     \<lparr>sb_magic = get32 (D 1) 0, sb_size = get32 (D 1) 4, sb_nblocks = get32 (D 1) 8,
      sb_ninodes = get32 (D 1) 12, sb_nlog = get32 (D 1) 16, sb_logstart = get32 (D 1) 20,
      sb_inodestart = get32 (D 1) 24, sb_bmapstart = get32 (D 1) 28\<rparr>"

definition IBLOCK :: "nat \<Rightarrow> superblock \<Rightarrow> nat" where
  "IBLOCK i sb = i div IPB + sb_inodestart sb"

definition BBLOCK :: "nat \<Rightarrow> superblock \<Rightarrow> nat" where
  "BBLOCK b sb = b div BPB + sb_bmapstart sb"

definition zeros :: block where
  "zeros = replicate BSIZE 0"

definition wblk :: "nat \<Rightarrow> block \<Rightarrow> fs \<Rightarrow> fs" where
  "wblk b d s = s\<lparr>blk := (blk s)(b := d)\<rparr>"

definition logw :: "nat \<Rightarrow> fs \<Rightarrow> fs" where
  "logw b s = s\<lparr>logged := insert b (logged s)\<rparr>"

definition bzero :: "nat \<Rightarrow> fs \<Rightarrow> fs" where
  "bzero b s = logw b (wblk b zeros s)"

definition bref_inc :: "nat \<Rightarrow> unit fop" where
  "bref_inc b s =
     (if b \<ge> sb_size (fs_sb s) then fpanic ''bref_inc'' s
      else fret () (s\<lparr>bref := (bref s)(b := (bref s b + 1) mod 4294967296)\<rparr>))"

definition bref_dec :: "nat \<Rightarrow> int fop" where
  "bref_dec b s =
     (if b \<ge> sb_size (fs_sb s) then fpanic ''bref_dec'' s
      else if bref s b < 1 then fpanic ''bref_dec: underflow'' s
      else fret (i32 (int (bref s b - 1))) (s\<lparr>bref := (bref s)(b := bref s b - 1)\<rparr>))"

definition bref_get :: "nat \<Rightarrow> nat fop" where
  "bref_get b s = (if b \<ge> sb_size (fs_sb s) then fpanic ''bref_get'' s else fret (bref s b) s)"

text \<open>
  The two scans of the bitmap in \<^verbatim>\<open>balloc\<close>: from the hint to the end, then from the start
  to the hint. \<open>bit_scan\<close> is the loop over the bits of one bitmap block.
\<close>

function bit_scan :: "block \<Rightarrow> nat \<Rightarrow> nat \<Rightarrow> nat option" where
  "bit_scan d bi lim =
     (if bi < lim then
        if d ! (bi div 8) AND push_bit (bi mod 8) 1 = 0 then Some bi else bit_scan d (bi + 1) lim
      else None)"
  by auto
termination by (relation "measure (\<lambda>(d, bi, lim). lim - bi)") auto

function balloc_fwd :: "fs \<Rightarrow> nat \<Rightarrow> nat \<Rightarrow> nat option" where
  "balloc_fwd s start b =
     (if b < sb_size (fs_sb s) then
        (case bit_scan (blk s (BBLOCK b (fs_sb s))) (if b = start - start mod BPB then start - b else 0)
                (min BPB (sb_size (fs_sb s) - b)) of
           Some bi \<Rightarrow> Some (b + bi)
         | None \<Rightarrow> balloc_fwd s start (b + BPB))
      else None)"
  by auto
termination by (relation "measure (\<lambda>(s, start, b). sb_size (fs_sb s) - b)") auto

function balloc_wrap :: "fs \<Rightarrow> nat \<Rightarrow> nat \<Rightarrow> nat option" where
  "balloc_wrap s start b =
     (if b < start then
        (case bit_scan (blk s (BBLOCK b (fs_sb s))) 0
                (min (if b + BPB > start then start - b else BPB) (sb_size (fs_sb s) - b)) of
           Some bi \<Rightarrow> Some (b + bi)
         | None \<Rightarrow> balloc_wrap s start (b + BPB))
      else None)"
  by auto
termination by (relation "measure (\<lambda>(s, start, b). start - b)") auto

declare bit_scan.simps [simp del] balloc_fwd.simps [simp del] balloc_wrap.simps [simp del]

definition bit_mark :: "nat \<Rightarrow> fs \<Rightarrow> fs" where
  "bit_mark b s =
     (let c = BBLOCK b (fs_sb s); d = blk s c; bi = b mod BPB
      in logw c (wblk c (d[bi div 8 := d ! (bi div 8) OR push_bit (bi mod 8) 1]) s))"

definition balloc_take :: "nat \<Rightarrow> nat fop" where
  "balloc_take b s = bbind (bref_inc b) (\<lambda>_ s. fret b (s\<lparr>hint := b + 1\<rparr>)) (bzero b (bit_mark b s))"

definition balloc :: "nat fop" where
  "balloc s =
     (let start = (if hint s \<ge> sb_size (fs_sb s) then 0 else hint s) in
      case balloc_fwd s start (start - start mod BPB) of
        Some b \<Rightarrow> balloc_take b s
      | None \<Rightarrow>
          (case (if start \<noteq> 0 then balloc_wrap s start 0 else None) of
             Some b \<Rightarrow> balloc_take b s
           | None \<Rightarrow> fpanic ''balloc: out of blocks'' s))"

definition bfree :: "nat \<Rightarrow> unit fop" where
  "bfree b =
     bbind (bref_dec b) (\<lambda>r s.
       if r > 0 then fret () s
       else
         (let c = BBLOCK b (fs_sb s); d = blk s c; bi = b mod BPB in
          if d ! (bi div 8) AND push_bit (bi mod 8) 1 = 0 then fpanic ''freeing free block'' s
          else fret () (logw c (wblk c (d[bi div 8 := unset_bit (bi mod 8) (d ! (bi div 8))]) s))))"

subsection \<open>Block maps\<close>

text \<open>
  The pointer \<^verbatim>\<open>uint *p\<close> of \<^verbatim>\<open>bmap\<close> points to an entry of \<^verbatim>\<open>ip->addrs\<close> or to an entry of an
  indirect block. \<open>alloc_at\<close> is the idiom \<^verbatim>\<open>if((addr = *p) == 0) *p = addr = balloc(dev)\<close>,
  followed by \<^verbatim>\<open>log_write\<close> where the entry is in a block.
\<close>

datatype aptr = PAddr nat | PBlk nat nat

definition addr_word :: "block \<Rightarrow> nat \<Rightarrow> nat" where
  "addr_word d j = get32 d (4 * j)"

definition set_addr :: "nat \<Rightarrow> nat \<Rightarrow> nat \<Rightarrow> fs \<Rightarrow> fs" where
  "set_addr ip i a s = s\<lparr>icache := upd_at (icache s) ip (\<lambda>n. n\<lparr>i_addrs := (i_addrs n)[i := a]\<rparr>)\<rparr>"

fun ptr_get :: "nat \<Rightarrow> aptr \<Rightarrow> fs \<Rightarrow> nat" where
  "ptr_get ip (PAddr i) s = i_addrs (icache s ! ip) ! i"
| "ptr_get ip (PBlk c j) s = addr_word (blk s c) j"

fun ptr_set :: "nat \<Rightarrow> aptr \<Rightarrow> nat \<Rightarrow> fs \<Rightarrow> fs" where
  "ptr_set ip (PAddr i) a s = set_addr ip i a s"
| "ptr_set ip (PBlk c j) a s = logw c (wblk c (put32 (blk s c) (4 * j) a) s)"

definition alloc_at :: "nat \<Rightarrow> aptr \<Rightarrow> nat fop" where
  "alloc_at ip p s =
     (if ptr_get ip p s = 0 then bbind balloc (\<lambda>a s. fret a (ptr_set ip p a s)) s
      else fret (ptr_get ip p s) s)"

definition bmap_ptr :: "nat \<Rightarrow> nat \<Rightarrow> aptr fop" where
  "bmap_ptr ip bn =
     (if bn < NDIRECT then fret (PAddr bn)
      else if bn - NDIRECT < NADDR then
        bbind (alloc_at ip (PAddr NDIRECT)) (\<lambda>c. fret (PBlk c (bn - NDIRECT)))
      else if bn - NDIRECT - NADDR < NDINDIRECT then
        bbind (alloc_at ip (PAddr (NDIRECT + 1))) (\<lambda>c.
        bbind (alloc_at ip (PBlk c ((bn - NDIRECT - NADDR) div NADDR))) (\<lambda>c1.
        fret (PBlk c1 ((bn - NDIRECT - NADDR) mod NADDR))))
      else fpanic ''bmap: out of range'')"

definition bmap_cow :: "nat \<Rightarrow> aptr \<Rightarrow> nat \<Rightarrow> nat fop" where
  "bmap_cow ip p addr =
     bbind (bref_get addr) (\<lambda>r.
       if r > 1 then
         bbind balloc (\<lambda>newb s.
         bbind (bfree addr) (\<lambda>_. fret newb) (ptr_set ip p newb (logw newb (wblk newb (blk s addr) s))))
       else fret addr)"

definition bmap :: "nat \<Rightarrow> nat \<Rightarrow> bool \<Rightarrow> nat fop" where
  "bmap ip bn for_write =
     bbind (bmap_ptr ip bn) (\<lambda>p.
     bbind (alloc_at ip p) (\<lambda>addr.
       if for_write \<and> addr \<noteq> 0 then bmap_cow ip p addr else fret addr))"

definition bmap_nalloc :: "nat \<Rightarrow> nat \<Rightarrow> fs \<Rightarrow> nat" where
  "bmap_nalloc ip bn s =
     (let a = i_addrs (icache s ! ip) in
      if bn < NDIRECT then a ! bn
      else if bn - NDIRECT < NADDR then
        if a ! NDIRECT = 0 then 0 else addr_word (blk s (a ! NDIRECT)) (bn - NDIRECT)
      else if bn - NDIRECT - NADDR < NDINDIRECT then
        if a ! (NDIRECT + 1) = 0 then 0
        else
          (let l1 = addr_word (blk s (a ! (NDIRECT + 1))) ((bn - NDIRECT - NADDR) div NADDR) in
           if l1 = 0 then 0 else addr_word (blk s l1) ((bn - NDIRECT - NADDR) mod NADDR))
      else 0)"

definition bmap_set_existing :: "nat \<Rightarrow> nat \<Rightarrow> nat \<Rightarrow> int fop" where
  "bmap_set_existing ip bn addr s =
     (let a = i_addrs (icache s ! ip) in
      if bn < NDIRECT then fret 1 (ptr_set ip (PAddr bn) addr s)
      else if bn - NDIRECT < NADDR then
        if a ! NDIRECT = 0 then fret (- 1) s
        else fret 0 (ptr_set ip (PBlk (a ! NDIRECT) (bn - NDIRECT)) addr s)
      else if bn - NDIRECT - NADDR < NDINDIRECT then
        if a ! (NDIRECT + 1) = 0 then fret (- 1) s
        else
          (let l1 = addr_word (blk s (a ! (NDIRECT + 1))) ((bn - NDIRECT - NADDR) div NADDR) in
           if l1 = 0 then fret (- 1) s
           else fret 0 (ptr_set ip (PBlk l1 ((bn - NDIRECT - NADDR) mod NADDR)) addr s))
      else fret (- 1) s)"

definition bmap_ensure :: "nat \<Rightarrow> nat \<Rightarrow> int fop" where
  "bmap_ensure ip bn s =
     (let a = i_addrs (icache s ! ip) in
      if bn < NDIRECT then fret 0 s
      else if bn - NDIRECT < NADDR then
        bbind (alloc_at ip (PAddr NDIRECT)) (\<lambda>_. fret (if a ! NDIRECT = 0 then 1 else 0)) s
      else if bn - NDIRECT - NADDR < NDINDIRECT then
        bbind (alloc_at ip (PAddr (NDIRECT + 1))) (\<lambda>c.
        bbind (alloc_at ip (PBlk c ((bn - NDIRECT - NADDR) div NADDR))) (\<lambda>_.
        fret (if a ! (NDIRECT + 1) = 0 then 1 else 0))) s
      else fret (- 1) s)"

subsection \<open>What the block maps say\<close>

text \<open>
  The on-disk inode \<open>n\<close> and its block numbers; an inode that is cached and valid has its current
  block numbers in memory. A slot is a place that holds a block number: an entry of the inode
  (\<open>Dir\<close>), of the single indirect block (\<open>Ind\<close>), of the double indirect block (\<open>Lvl\<close>) or of
  one of the blocks under it (\<open>Dbl\<close>).
\<close>

definition din_type :: "block \<Rightarrow> nat \<Rightarrow> nat" where
  "din_type d n = d ! (64 * (n mod IPB) + 1)"

definition din_addrs :: "block \<Rightarrow> nat \<Rightarrow> nat list" where
  "din_addrs d n = map (\<lambda>i. get32 d (64 * (n mod IPB) + 12 + 4 * i)) [0..<NDIRECT + 2]"

definition cached :: "inode list \<Rightarrow> nat \<Rightarrow> nat option" where
  "cached ic n = find_idx (\<lambda>e. i_ref e > 0 \<and> i_valid e \<and> i_inum e = n) ic"

definition iaddrs :: "fs \<Rightarrow> nat \<Rightarrow> nat list" where
  "iaddrs s n =
     (case cached (icache s) n of
        Some ip \<Rightarrow> i_addrs (icache s ! ip)
      | None \<Rightarrow>
          (let d = blk s (IBLOCK n (fs_sb s)) in
           if din_type d n = 0 then replicate (NDIRECT + 2) 0 else din_addrs d n))"

datatype slot = Dir nat | Ind nat | Lvl nat | Dbl nat nat

definition via :: "fs \<Rightarrow> nat \<Rightarrow> nat \<Rightarrow> nat" where
  "via s c j = (if c = 0 then 0 else addr_word (blk s c) j)"

fun val :: "fs \<Rightarrow> nat \<Rightarrow> slot \<Rightarrow> nat" where
  "val s n (Dir i) = iaddrs s n ! i"
| "val s n (Ind j) = via s (iaddrs s n ! NDIRECT) j"
| "val s n (Lvl i) = via s (iaddrs s n ! (NDIRECT + 1)) i"
| "val s n (Dbl i j) = via s (via s (iaddrs s n ! (NDIRECT + 1)) i) j"

fun slot_ok :: "slot \<Rightarrow> bool" where
  "slot_ok (Dir i) = (i < NDIRECT + 2)"
| "slot_ok (Ind j) = (j < NADDR)"
| "slot_ok (Lvl i) = (i < NADDR)"
| "slot_ok (Dbl i j) = (i < NADDR \<and> j < NADDR)"

fun meta :: "slot \<Rightarrow> bool" where
  "meta (Dir i) = (i \<ge> NDIRECT)"
| "meta (Ind j) = False"
| "meta (Lvl i) = True"
| "meta (Dbl i j) = False"

definition dslot :: "nat \<Rightarrow> slot" where
  "dslot k =
     (if k < NDIRECT then Dir k
      else if k - NDIRECT < NADDR then Ind (k - NDIRECT)
      else Dbl ((k - NDIRECT - NADDR) div NADDR) ((k - NDIRECT - NADDR) mod NADDR))"

text \<open>The contents of the \<open>k\<close>-th block of file \<open>n\<close>; a block that is not mapped reads as zeros.\<close>

definition dat :: "fs \<Rightarrow> nat \<Rightarrow> nat \<Rightarrow> block" where
  "dat s n k = (let c = val s n (dslot k) in if c = 0 then zeros else blk s c)"

definition inums :: "fs \<Rightarrow> nat set" where
  "inums s = {1..<sb_ninodes (fs_sb s)}"

definition locs :: "fs \<Rightarrow> (nat \<times> slot) set" where
  "locs s = inums s \<times> {sl. slot_ok sl}"

definition refs :: "fs \<Rightarrow> nat \<Rightarrow> nat" where
  "refs s b = card {l \<in> locs s. val s (fst l) (snd l) = b}"

definition dstart :: "superblock \<Rightarrow> nat" where
  "dstart sb = sb_size sb - sb_nblocks sb"

definition bit_set :: "fs \<Rightarrow> nat \<Rightarrow> bool" where
  "bit_set s b = bit (blk s (BBLOCK b (fs_sb s)) ! (b mod BPB div 8)) (b mod 8)"

definition nfree :: "fs \<Rightarrow> nat" where
  "nfree s = card {b. b < sb_size (fs_sb s) \<and> \<not> bit_set s b}"

subsection \<open>The invariant\<close>

text \<open>
  \<open>P\<close> is the multiset of references that operations in progress hold: blocks that are allocated
  or whose count was raised, and that are not yet, or no longer, entered in a slot.
\<close>

definition lay_ok :: "superblock \<Rightarrow> bool" where
  "lay_ok sb \<longleftrightarrow>
     sb_ninodes sb \<le> 32000 \<and> sb_size sb \<le> FSSIZE \<and> sb_nblocks sb < sb_size sb \<and>
     (sb_ninodes sb - 1) div IPB + sb_inodestart sb < sb_bmapstart sb \<and>
     (sb_size sb - 1) div BPB + sb_bmapstart sb < dstart sb"

definition blks_ok :: "fs \<Rightarrow> bool" where
  "blks_ok s \<longleftrightarrow> (\<forall>b. length (blk s b) = BSIZE)"

definition ic_ok :: "fs \<Rightarrow> bool" where
  "ic_ok s \<longleftrightarrow>
     (\<forall>k < length (icache s). i_ref (icache s ! k) > 0 \<and> i_valid (icache s ! k) \<longrightarrow>
        length (i_addrs (icache s ! k)) = NDIRECT + 2) \<and>
     (\<forall>k < length (icache s). \<forall>k' < length (icache s).
        i_ref (icache s ! k) > 0 \<and> i_ref (icache s ! k') > 0 \<and>
        i_inum (icache s ! k) = i_inum (icache s ! k') \<longrightarrow> k = k')"

definition range_ok :: "fs \<Rightarrow> bool" where
  "range_ok s \<longleftrightarrow>
     (\<forall>n sl. (n, sl) \<in> locs s \<and> val s n sl \<noteq> 0 \<longrightarrow>
        dstart (fs_sb s) \<le> val s n sl \<and> val s n sl < sb_size (fs_sb s))"

definition count_ok :: "nat multiset \<Rightarrow> fs \<Rightarrow> bool" where
  "count_ok P s \<longleftrightarrow>
     (\<forall>b. dstart (fs_sb s) \<le> b \<and> b < sb_size (fs_sb s) \<longrightarrow> bref s b = refs s b + count P b) \<and>
     (\<forall>b \<in># P. dstart (fs_sb s) \<le> b \<and> b < sb_size (fs_sb s))"

definition meta_ok :: "fs \<Rightarrow> bool" where
  "meta_ok s \<longleftrightarrow>
     (\<forall>n sl. (n, sl) \<in> locs s \<and> meta sl \<and> val s n sl \<noteq> 0 \<longrightarrow> bref s (val s n sl) = 1)"

definition bmp_ok :: "fs \<Rightarrow> bool" where
  "bmp_ok s \<longleftrightarrow>
     (\<forall>b < sb_size (fs_sb s). bit_set s b \<longleftrightarrow> b < dstart (fs_sb s) \<or> bref s b > 0)"

definition fs_inv :: "nat multiset \<Rightarrow> fs \<Rightarrow> bool" where
  "fs_inv P s \<longleftrightarrow> lay_ok (fs_sb s) \<and> blks_ok s \<and> ic_ok s \<and> range_ok s \<and> count_ok P s \<and> meta_ok s \<and>
     bmp_ok s"

subsection \<open>Triples with a budget of free blocks\<close>

text \<open>
  \<open>spec k s m Q\<close>: from \<open>s\<close>, the operation \<open>m\<close> takes at most \<open>k\<close> free blocks. It returns with \<open>Q\<close>,
  or it panics for want of a block, and then there were fewer than \<open>k\<close>; no other panic and no
  sleep is possible.
\<close>

definition spec :: "nat \<Rightarrow> fs \<Rightarrow> 'a fop \<Rightarrow> ('a \<Rightarrow> fs \<Rightarrow> bool) \<Rightarrow> bool" where
  "spec k s m Q \<longleftrightarrow>
     (case m s of
        (BRet x, s') \<Rightarrow> Q x s' \<and> nfree s \<le> nfree s' + k
      | (BPanic e, _) \<Rightarrow> e = ''balloc: out of blocks'' \<and> nfree s < k
      | (BSleep _, _) \<Rightarrow> False)"

lemma spec_ret: "Q x s \<Longrightarrow> spec k s (fret x) Q"
  by (simp add: spec_def fret_def)

lemma spec_bind:
  "spec k s m (\<lambda>x s'. spec k' s' (f x) Q) \<Longrightarrow> spec (k + k') s (bbind m f) Q"
proof -
  assume *: "spec k s m (\<lambda>x s'. spec k' s' (f x) Q)"
  show ?thesis
  proof (cases "m s")
    case (Pair r s')
    show ?thesis
    proof (cases r)
      case (BRet x)
      then show ?thesis using * Pair
        by (cases "f x s'"; cases "fst (f x s')") (auto simp: spec_def bbind_def)
    qed (use * Pair in \<open>auto simp: spec_def bbind_def\<close>)
  qed
qed

lemma spec_mono:
  "spec k s m Q \<Longrightarrow> (\<And>x s'. Q x s' \<Longrightarrow> nfree s \<le> nfree s' + k \<Longrightarrow> R x s') \<Longrightarrow> k \<le> k' \<Longrightarrow> spec k' s m R"
  by (force simp: spec_def split: prod.splits bout.splits)

lemma spec_seq:
  "spec k s m R \<Longrightarrow> (\<And>x s'. R x s' \<Longrightarrow> spec k' s' (f x) Q) \<Longrightarrow> spec (k + k') s (bbind m f) Q"
  by (rule spec_bind) (erule spec_mono, auto)

lemma spec_pure: "(\<And>s. m s = (BRet (g s), h s)) \<Longrightarrow> nfree (h s) = nfree s \<Longrightarrow> Q (g s) (h s) \<Longrightarrow> spec k s m Q"
  by (simp add: spec_def)

lemma spec_conv: "m s = m' s' \<Longrightarrow> nfree s' = nfree s \<Longrightarrow> spec k s' m' Q \<Longrightarrow> spec k s m Q"
  by (cases "m' s'"; cases "fst (m' s')") (auto simp: spec_def)

subsection \<open>The bitmap\<close>

lemma bit_scan_rec:
  "bit_scan d bi lim =
     (if bi < lim then if bit (d ! (bi div 8)) (bi mod 8) then bit_scan d (bi + 1) lim else Some bi else None)"
  unfolding bit_iff_and_push_bit_not_eq_0 by (subst bit_scan.simps) auto

lemma bit_scan_Some:
  "bit_scan d bi lim = Some x \<Longrightarrow>
    bi \<le> x \<and> x < lim \<and> \<not> bit (d ! (x div 8)) (x mod 8) \<and> (\<forall>y. bi \<le> y \<and> y < x \<longrightarrow> bit (d ! (y div 8)) (y mod 8))"
proof (induction "lim - bi" arbitrary: bi)
  case 0
  then show ?case by (simp add: bit_scan_rec)
next
  case (Suc k)
  then have lt: "bi < lim" by simp
  show ?case
  proof (cases "bit (d ! (bi div 8)) (bi mod 8)")
    case True
    have k: "k = lim - (bi + 1)" using Suc.hyps by simp
    from Suc.prems lt True have "bit_scan d (bi + 1) lim = Some x"
      by (simp add: bit_scan_rec [of d bi])
    note IH = Suc.hyps(1) [OF k this]
    have "bit (d ! (y div 8)) (y mod 8)" if "bi \<le> y" "y < x" for y
      using that IH True by (cases "y = bi") auto
    with IH show ?thesis by auto
  next
    case False
    with Suc.prems lt have "x = bi" by (simp add: bit_scan_rec [of d bi])
    with False lt show ?thesis by auto
  qed
qed

lemma bit_scan_None:
  "bit_scan d bi lim = None \<Longrightarrow> bi \<le> y \<Longrightarrow> y < lim \<Longrightarrow> bit (d ! (y div 8)) (y mod 8)"
proof (induction "lim - bi" arbitrary: bi)
  case (Suc k)
  then have b: "bit (d ! (bi div 8)) (bi mod 8)" "bit_scan d (bi + 1) lim = None"
    by (auto simp: bit_scan_rec [of d bi] split: if_splits)
  show ?case
  proof (cases "y = bi")
    case False
    have "k = lim - (bi + 1)" using Suc.hyps by simp
    from Suc.hyps(1) [OF this b(2)] False Suc.prems show ?thesis by simp
  qed (use b in simp)
qed simp

lemma bit_set_split:
  "bi < BPB \<Longrightarrow> bit_set s (BPB * q + bi) \<longleftrightarrow> bit (blk s (BBLOCK (BPB * q) (fs_sb s)) ! (bi div 8)) (bi mod 8)"
proof -
  assume "bi < BPB"
  moreover have "(BPB * q + bi) mod 8 = bi mod 8"
    using mod_mult_self4 [of 8 "1024 * q" bi] by simp
  ultimately show ?thesis by (simp add: bit_set_def BBLOCK_def)
qed

lemma balloc_fwd_Some:
  "balloc_fwd s start (BPB * q) = Some x \<Longrightarrow> start - start mod BPB \<le> BPB * q \<Longrightarrow>
    start \<le> x \<and> x < sb_size (fs_sb s) \<and> \<not> bit_set s x \<and>
    (\<forall>y. start \<le> y \<and> BPB * q \<le> y \<and> y < x \<longrightarrow> bit_set s y)"
proof (induction "sb_size (fs_sb s) - BPB * q" arbitrary: q rule: less_induct)
  case less
  let ?N = "sb_size (fs_sb s)" and ?d = "blk s (BBLOCK (BPB * q) (fs_sb s))"
  let ?b = "if BPB * q = start - start mod BPB then start - BPB * q else 0" and ?l = "min BPB (?N - BPB * q)"
  from less.prems(1) have lt: "BPB * q < ?N" by (subst (asm) balloc_fwd.simps) (simp split: if_splits)
  have sd: "start - start mod BPB = BPB * (start div BPB)" by (simp add: minus_mod_eq_mult_div)
  have st: "start \<le> BPB * q + ?b"
  proof (cases "start div BPB = q")
    case False
    with less.prems(2) sd have "start div BPB < q" by simp
    then have "start < q * BPB" by (simp add: div_less_iff_less_mult)
    then show ?thesis by simp
  qed (simp add: sd)
  have b': "BPB * q + ?b \<le> y" if "start \<le> y" "BPB * q \<le> y" for y
    using that by auto
  show ?case
  proof (cases "bit_scan ?d ?b ?l")
    case (Some bi)
    with less.prems(1) lt have x: "x = BPB * q + bi" by (subst (asm) balloc_fwd.simps) simp
    note B = bit_scan_Some [OF Some]
    then have "bi < BPB" by simp
    then have "\<not> bit_set s x" using B by (simp add: x bit_set_split)
    moreover have "bit_set s y" if "start \<le> y" "BPB * q \<le> y" "y < x" for y
    proof -
      have "y = BPB * q + (y - BPB * q)" "y - BPB * q < BPB" "?b \<le> y - BPB * q" "y - BPB * q < bi"
        using that b' [of y] x \<open>bi < BPB\<close> by auto
      with B show ?thesis using bit_set_split [of "y - BPB * q" s q] by metis
    qed
    ultimately show ?thesis using x B st by auto
  next
    case None
    with less.prems(1) lt have r: "balloc_fwd s start (BPB * (q + 1)) = Some x"
      by (subst (asm) balloc_fwd.simps) (simp add: add.commute)
    have "?N - BPB * (q + 1) < ?N - BPB * q" "start - start mod BPB \<le> BPB * (q + 1)"
      using lt less.prems(2) by auto
    note IH = less.hyps [OF this(1) r this(2)]
    have "bit_set s y" if "start \<le> y" "BPB * q \<le> y" "y < x" for y
    proof (cases "y < BPB * (q + 1)")
      case True
      have "y = BPB * q + (y - BPB * q)" "y - BPB * q < BPB" "?b \<le> y - BPB * q" "y - BPB * q < ?l"
        using that b' [of y] True IH by auto
      with bit_scan_None [OF None] show ?thesis using bit_set_split [of "y - BPB * q" s q] by metis
    qed (use that IH in auto)
    with IH show ?thesis by auto
  qed
qed

lemma balloc_fwd_None:
  "balloc_fwd s start (BPB * q) = None \<Longrightarrow> start \<le> y \<Longrightarrow> BPB * q \<le> y \<Longrightarrow> y < sb_size (fs_sb s) \<Longrightarrow> bit_set s y"
proof (induction "sb_size (fs_sb s) - BPB * q" arbitrary: q rule: less_induct)
  case less
  let ?N = "sb_size (fs_sb s)" and ?d = "blk s (BBLOCK (BPB * q) (fs_sb s))"
  let ?b = "if BPB * q = start - start mod BPB then start - BPB * q else 0" and ?l = "min BPB (?N - BPB * q)"
  from less.prems have lt: "BPB * q < ?N" by simp
  have None: "bit_scan ?d ?b ?l = None"
  proof (rule ccontr)
    assume "bit_scan ?d ?b ?l \<noteq> None"
    then obtain bi where "bit_scan ?d ?b ?l = Some bi" by blast
    with less.prems(1) lt show False by (subst (asm) balloc_fwd.simps) simp
  qed
  have r: "balloc_fwd s start (BPB * (q + 1)) = None"
    using less.prems(1) lt by (subst (asm) balloc_fwd.simps) (simp add: None add.commute)
  show ?case
  proof (cases "y < BPB * (q + 1)")
    case True
    have "y = BPB * q + (y - BPB * q)" "y - BPB * q < BPB" "?b \<le> y - BPB * q" "y - BPB * q < ?l"
      using less.prems True by auto
    with bit_scan_None [OF None] show ?thesis using bit_set_split [of "y - BPB * q" s q] by metis
  next
    case False
    have "?N - BPB * (q + 1) < ?N - BPB * q" using lt by auto
    from less.hyps [OF this r less.prems(2) _ less.prems(4)] False show ?thesis by simp
  qed
qed

lemma balloc_wrap_Some:
  "balloc_wrap s start (BPB * q) = Some x \<Longrightarrow> start \<le> sb_size (fs_sb s) \<Longrightarrow>
    x < start \<and> \<not> bit_set s x \<and> (\<forall>y. BPB * q \<le> y \<and> y < x \<longrightarrow> bit_set s y)"
proof (induction "start - BPB * q" arbitrary: q rule: less_induct)
  case less
  let ?N = "sb_size (fs_sb s)" and ?d = "blk s (BBLOCK (BPB * q) (fs_sb s))"
  let ?l = "min (if BPB * q + BPB > start then start - BPB * q else BPB) (?N - BPB * q)"
  from less.prems(1) have lt: "BPB * q < start" by (subst (asm) balloc_wrap.simps) (simp split: if_splits)
  show ?case
  proof (cases "bit_scan ?d 0 ?l")
    case (Some bi)
    with less.prems(1) lt have x: "x = BPB * q + bi" by (subst (asm) balloc_wrap.simps) simp
    note B = bit_scan_Some [OF Some]
    then have bi: "bi < BPB" "x < start" using x by (auto split: if_splits)
    then have "\<not> bit_set s x" using B by (simp add: x bit_set_split)
    moreover have "bit_set s y" if "BPB * q \<le> y" "y < x" for y
    proof -
      have "y = BPB * q + (y - BPB * q)" "y - BPB * q < BPB" "y - BPB * q < bi" using that x bi by auto
      with B show ?thesis using bit_set_split [of "y - BPB * q" s q] by (metis le0)
    qed
    ultimately show ?thesis using bi by auto
  next
    case None
    with less.prems(1) lt have r: "balloc_wrap s start (BPB * (q + 1)) = Some x"
      by (subst (asm) balloc_wrap.simps) (simp add: add.commute)
    have "start - BPB * (q + 1) < start - BPB * q" using lt by auto
    note IH = less.hyps [OF this r less.prems(2)]
    have "bit_set s y" if "BPB * q \<le> y" "y < x" for y
    proof (cases "y < BPB * (q + 1)")
      case True
      have "y = BPB * q + (y - BPB * q)" "y - BPB * q < BPB" "y - BPB * q < ?l"
        using that True IH less.prems(2) by auto
      with bit_scan_None [OF None] show ?thesis using bit_set_split [of "y - BPB * q" s q] by (metis le0)
    qed (use that IH in auto)
    with IH show ?thesis by auto
  qed
qed

lemma balloc_wrap_None:
  "balloc_wrap s start (BPB * q) = None \<Longrightarrow> start \<le> sb_size (fs_sb s) \<Longrightarrow> BPB * q \<le> y \<Longrightarrow> y < start \<Longrightarrow> bit_set s y"
proof (induction "start - BPB * q" arbitrary: q rule: less_induct)
  case less
  let ?N = "sb_size (fs_sb s)" and ?d = "blk s (BBLOCK (BPB * q) (fs_sb s))"
  let ?l = "min (if BPB * q + BPB > start then start - BPB * q else BPB) (?N - BPB * q)"
  from less.prems have lt: "BPB * q < start" by simp
  have None: "bit_scan ?d 0 ?l = None"
  proof (rule ccontr)
    assume "bit_scan ?d 0 ?l \<noteq> None"
    then obtain bi where "bit_scan ?d 0 ?l = Some bi" by blast
    with less.prems(1) lt show False by (subst (asm) balloc_wrap.simps) simp
  qed
  have "balloc_wrap s start (BPB * q + BPB) = None"
    using less.prems(1) lt None by (subst (asm) balloc_wrap.simps) simp
  then have r: "balloc_wrap s start (BPB * (q + 1)) = None" by (simp add: add.commute)
  show ?case
  proof (cases "y < BPB * (q + 1)")
    case True
    have "y = BPB * q + (y - BPB * q)" "y - BPB * q < BPB" "y - BPB * q < ?l"
      using less.prems True by auto
    with bit_scan_None [OF None] show ?thesis using bit_set_split [of "y - BPB * q" s q] by (metis le0)
  next
    case False
    have "start - BPB * (q + 1) < start - BPB * q" using lt by auto
    from less.hyps [OF this r less.prems(2) _ less.prems(4)] False show ?thesis by simp
  qed
qed

text \<open>\<^verbatim>\<open>balloc\<close> takes the first free block in the cyclic order that starts at the hint.\<close>

definition balloc_start :: "fs \<Rightarrow> nat" where
  "balloc_start s = (if hint s \<ge> sb_size (fs_sb s) then 0 else hint s)"

definition cyc :: "fs \<Rightarrow> nat \<Rightarrow> nat" where
  "cyc s b = (if balloc_start s \<le> b then b - balloc_start s else b + sb_size (fs_sb s) - balloc_start s)"

lemma balloc_cases:
  obtains (full) "balloc s = fpanic ''balloc: out of blocks'' s" "\<forall>b < sb_size (fs_sb s). bit_set s b"
  | (take) b where "balloc s = balloc_take b s" "b < sb_size (fs_sb s)" "\<not> bit_set s b"
      "\<forall>y < sb_size (fs_sb s). cyc s y < cyc s b \<longrightarrow> bit_set s y"
proof -
  let ?st = "balloc_start s" and ?N = "sb_size (fs_sb s)"
  have q: "?st - ?st mod BPB = BPB * (?st div BPB)" by (simp add: minus_mod_eq_mult_div)
  have le: "BPB * (?st div BPB) \<le> ?st" by simp
  have st: "?st \<le> ?N" by (simp add: balloc_start_def)
  show thesis
  proof (cases "balloc_fwd s ?st (BPB * (?st div BPB))")
    case (Some b)
    from balloc_fwd_Some [OF this] q have B: "?st \<le> b" "b < ?N" "\<not> bit_set s b"
      "\<And>y. ?st \<le> y \<Longrightarrow> y < b \<Longrightarrow> bit_set s y" using le by auto
    have "bit_set s y" if "y < ?N" "cyc s y < cyc s b" for y
      using that B(1,2) by (intro B(4)) (auto simp: cyc_def split: if_splits)
    moreover have "balloc s = balloc_take b s"
      using Some by (simp add: balloc_def Let_def q flip: balloc_start_def)
    ultimately show thesis using B take by blast
  next
    case None
    have hi: "bit_set s y" if "?st \<le> y" "y < ?N" for y
      using balloc_fwd_None [OF None] that le by (meson le_trans)
    show thesis
    proof (cases "if ?st \<noteq> 0 then balloc_wrap s ?st 0 else None")
      case (Some b)
      then have w: "balloc_wrap s ?st (BPB * 0) = Some b" by (simp split: if_splits)
      from balloc_wrap_Some [OF w st] have B: "b < ?st" "\<not> bit_set s b" "\<And>y. y < b \<Longrightarrow> bit_set s y"
        by auto
      have "bit_set s y" if "y < ?N" "cyc s y < cyc s b" for y
        using that B st hi [of y] by (cases "?st \<le> y") (auto simp: cyc_def split: if_splits)
      moreover have "balloc s = balloc_take b s"
        using Some None by (simp add: balloc_def Let_def q flip: balloc_start_def)
      ultimately show thesis using B st take by (meson less_le_trans)
    next
      case w: None
      have lo: "bit_set s y" if "y < ?st" for y
        using balloc_wrap_None [of s ?st 0 y] st that w by (auto split: if_splits)
      have "balloc s = fpanic ''balloc: out of blocks'' s"
        using None w by (simp add: balloc_def Let_def q flip: balloc_start_def)
      then show thesis using hi lo full by (meson not_le)
    qed
  qed
qed

lemma mod_BPB_8: "b mod BPB mod 8 = b mod (8::nat)"
  by (simp add: mod_mod_cancel)

lemma BPB_split_iff:
  "(y :: nat) = b \<longleftrightarrow> y div BPB = b div BPB \<and> y mod BPB div 8 = b mod BPB div 8 \<and> y mod 8 = b mod 8"
proof
  assume "y div BPB = b div BPB \<and> y mod BPB div 8 = b mod BPB div 8 \<and> y mod 8 = b mod 8"
  moreover from this have "y mod BPB = b mod BPB"
    by (metis mod_BPB_8 mult_div_mod_eq)
  ultimately show "y = b" by (metis mult_div_mod_eq)
qed simp

lemma bit_set_upd:
  assumes "c = BBLOCK b (fs_sb s)" "length (blk s c) = BSIZE"
    "\<And>j. j < 8 \<Longrightarrow> bit x j \<longleftrightarrow> (if j = b mod 8 then v else bit (blk s c ! (b mod BPB div 8)) j)"
  shows "bit_set (s\<lparr>blk := (blk s)(c := (blk s c)[b mod BPB div 8 := x])\<rparr>) y \<longleftrightarrow> (if y = b then v else bit_set s y)"
proof -
  have "b mod BPB < BPB" by simp
  then have k: "b mod BPB div 8 < length (blk s c)" using assms(2) by linarith
  have y8: "y mod 8 < 8" by simp
  show ?thesis
  proof (cases "y div BPB = b div BPB \<and> y mod BPB div 8 = b mod BPB div 8")
    case True
    then have "BBLOCK y (fs_sb s) = c" by (simp add: assms(1) BBLOCK_def)
    with True k assms(3) [OF y8] BPB_split_iff [of y b] show ?thesis by (simp add: bit_set_def)
  next
    case False
    then have "y \<noteq> b" by auto
    moreover have "BBLOCK y (fs_sb s) \<noteq> c \<or> y mod BPB div 8 \<noteq> b mod BPB div 8"
      using False by (auto simp: assms(1) BBLOCK_def)
    ultimately show ?thesis by (auto simp: bit_set_def)
  qed
qed

lemma bit_mark_eq:
  "bit_mark b s = logw (BBLOCK b (fs_sb s)) (s\<lparr>blk := (blk s)(BBLOCK b (fs_sb s) :=
     (blk s (BBLOCK b (fs_sb s)))[b mod BPB div 8 := set_bit (b mod 8) (blk s (BBLOCK b (fs_sb s)) ! (b mod BPB div 8))])\<rparr>)"
  by (simp add: bit_mark_def Let_def wblk_def set_bit_eq_or mod_BPB_8)

lemma logw_sel [simp]:
  "blk (logw b s) = blk s" "fs_sb (logw b s) = fs_sb s" "bref (logw b s) = bref s"
  "icache (logw b s) = icache s" "hint (logw b s) = hint s"
  by (simp_all add: logw_def)

lemma bit_set_cong: "blk s' (BBLOCK y (fs_sb s)) = blk s (BBLOCK y (fs_sb s)) \<Longrightarrow> fs_sb s' = fs_sb s \<Longrightarrow> bit_set s' y = bit_set s y"
  by (simp add: bit_set_def)

lemma bit_set_mark:
  "blks_ok s \<Longrightarrow> bit_set (bit_mark b s) y \<longleftrightarrow> y = b \<or> bit_set s y"
  using bit_set_upd [of "BBLOCK b (fs_sb s)" b s "set_bit (b mod 8) (blk s (BBLOCK b (fs_sb s)) ! (b mod BPB div 8))" True y]
  by (auto simp: bit_mark_eq blks_ok_def bit_simps bit_set_def)

lemma nfree_remove:
  assumes "b < sb_size (fs_sb s)" "\<not> bit_set s b" "fs_sb s' = fs_sb s"
    "\<And>y. y < sb_size (fs_sb s) \<Longrightarrow> bit_set s' y \<longleftrightarrow> y = b \<or> bit_set s y"
  shows "nfree s = nfree s' + 1"
proof -
  have "{y. y < sb_size (fs_sb s) \<and> \<not> bit_set s y} = insert b {y. y < sb_size (fs_sb s') \<and> \<not> bit_set s' y}"
    using assms by auto
  moreover have "b \<notin> {y. y < sb_size (fs_sb s') \<and> \<not> bit_set s' y}" using assms by auto
  ultimately show ?thesis by (simp add: nfree_def)
qed

lemma nfree_cong:
  "fs_sb s' = fs_sb s \<Longrightarrow> (\<And>y. y < sb_size (fs_sb s) \<Longrightarrow> bit_set s' y = bit_set s y) \<Longrightarrow> nfree s' = nfree s"
  unfolding nfree_def by (rule arg_cong [of _ _ card]) auto

subsection \<open>Reading the slots\<close>

lemma iaddrs_cong:
  "icache s' = icache s \<Longrightarrow> fs_sb s' = fs_sb s \<Longrightarrow> blk s' (IBLOCK n (fs_sb s)) = blk s (IBLOCK n (fs_sb s)) \<Longrightarrow>
    iaddrs s' n = iaddrs s n"
  by (simp add: iaddrs_def split: option.split)

lemma val_cong:
  assumes "iaddrs s' n = iaddrs s n"
    "\<And>sl. slot_ok sl \<Longrightarrow> meta sl \<Longrightarrow> val s n sl \<noteq> 0 \<Longrightarrow> blk s' (val s n sl) = blk s (val s n sl)" "slot_ok sl"
  shows "val s' n sl = val s n sl"
proof -
  have D: "via s' (iaddrs s n ! i) j = via s (iaddrs s n ! i) j" if "i = 11 \<or> i = 12" for i j
    using assms(2) [of "Dir i"] that by (auto simp: via_def)
  have L: "via s' (via s (iaddrs s n ! 12) i) j = via s (via s (iaddrs s n ! 12) i) j" if "i < NADDR" for i j
    using assms(2) [of "Lvl i"] that by (auto simp: via_def)
  show ?thesis using assms(3) by (cases sl) (auto simp: assms(1) D L)
qed

lemma finite_slots: "finite {sl. slot_ok sl}"
proof -
  have "{sl. slot_ok sl} \<subseteq> Dir ` {..<NDIRECT + 2} \<union> Ind ` {..<NADDR} \<union> Lvl ` {..<NADDR} \<union> (\<lambda>(i, j). Dbl i j) ` ({..<NADDR} \<times> {..<NADDR})"
    (is "_ \<subseteq> ?B")
  proof
    fix sl assume "sl \<in> {sl. slot_ok sl}"
    then show "sl \<in> ?B" by (cases sl) auto
  qed
  then show ?thesis by (rule finite_subset) auto
qed

lemma finite_locs [simp]: "finite (locs s)"
  by (simp add: locs_def inums_def finite_slots)

lemma dslot_ok: "k < MAXFILE \<Longrightarrow> slot_ok (dslot k) \<and> \<not> meta (dslot k)"
  by (auto simp: dslot_def)

lemma card_slots: "card {sl. slot_ok sl} \<le> 66061"
proof -
  let ?B = "Dir ` {..<NDIRECT + 2} \<union> (Ind ` {..<NADDR} \<union> (Lvl ` {..<NADDR} \<union> (\<lambda>(i, j). Dbl i j) ` ({..<NADDR} \<times> {..<NADDR})))"
  have "{sl. slot_ok sl} \<subseteq> ?B"
  proof
    fix sl assume "sl \<in> {sl. slot_ok sl}"
    then show "sl \<in> ?B" by (cases sl) auto
  qed
  then have "card {sl. slot_ok sl} \<le> card ?B" by (intro card_mono) auto
  also have "\<dots> \<le> card (Dir ` {..<NDIRECT + 2}) + (card (Ind ` {..<NADDR}) + (card (Lvl ` {..<NADDR}) + card ((\<lambda>(i, j). Dbl i j) ` ({..<NADDR} \<times> {..<NADDR}))))"
    by (intro order_trans [OF card_Un_le] add_mono order_refl)
  also have "\<dots> \<le> (NDIRECT + 2) + (NADDR + (NADDR + NADDR * NADDR))"
  proof (intro add_mono)
    show "card (Dir ` {..<NDIRECT + 2}) \<le> NDIRECT + 2" using card_image_le [of "{..<NDIRECT + 2}" Dir] by simp
    show "card (Ind ` {..<NADDR}) \<le> NADDR" using card_image_le [of "{..<NADDR}" Ind] by simp
    show "card (Lvl ` {..<NADDR}) \<le> NADDR" using card_image_le [of "{..<NADDR}" Lvl] by simp
    show "card ((\<lambda>(i, j). Dbl i j) ` ({..<NADDR} \<times> {..<NADDR})) \<le> NADDR * NADDR"
      using card_image_le [of "{..<NADDR} \<times> {..<NADDR}" "\<lambda>(i, j). Dbl i j"] by (simp add: card_cartesian_product)
  qed
  finally show ?thesis by simp
qed

lemma BBLOCK_range:
  "lay_ok sb \<Longrightarrow> b < sb_size sb \<Longrightarrow> sb_bmapstart sb \<le> BBLOCK b sb \<and> BBLOCK b sb < dstart sb"
proof -
  assume "lay_ok sb" "b < sb_size sb"
  moreover from this have "b div BPB \<le> (sb_size sb - 1) div BPB" by (intro div_le_mono) simp
  ultimately show ?thesis by (auto simp: lay_ok_def BBLOCK_def)
qed

lemma IBLOCK_range: "lay_ok sb \<Longrightarrow> n < sb_ninodes sb \<Longrightarrow> IBLOCK n sb < sb_bmapstart sb"
proof -
  assume "lay_ok sb" "n < sb_ninodes sb"
  moreover from this have "n div IPB \<le> (sb_ninodes sb - 1) div IPB" by (intro div_le_mono) simp
  ultimately show ?thesis by (auto simp: lay_ok_def IBLOCK_def)
qed

lemma lay_order: "lay_ok sb \<Longrightarrow> sb_bmapstart sb < dstart sb \<and> dstart sb \<le> sb_size sb \<and> 0 < dstart sb"
  by (auto simp: lay_ok_def dstart_def)

subsection \<open>Frames\<close>

text \<open>
  \<open>wal\<close>: every block that was changed is in the transaction. \<open>fr\<close>: nothing but the block numbers
  of inodes, the bitmap and data blocks was changed.
\<close>

definition wal :: "fs \<Rightarrow> fs \<Rightarrow> bool" where
  "wal s s' \<longleftrightarrow> logged s \<subseteq> logged s' \<and> (\<forall>b. blk s' b \<noteq> blk s b \<longrightarrow> b \<in> logged s')"

definition noaddr :: "inode \<Rightarrow> inode" where
  "noaddr e = e\<lparr>i_addrs := []\<rparr>"

definition fr :: "fs \<Rightarrow> fs \<Rightarrow> bool" where
  "fr s s' \<longleftrightarrow> fs_sb s' = fs_sb s \<and> map noaddr (icache s') = map noaddr (icache s) \<and>
     (\<forall>b < sb_bmapstart (fs_sb s). blk s' b = blk s b) \<and> wal s s'"

lemma wal_refl [simp]: "wal s s"
  by (simp add: wal_def)

lemma wal_trans: "wal s s' \<Longrightarrow> wal s' s'' \<Longrightarrow> wal s s''"
  unfolding wal_def by (metis subsetD subset_trans)

lemma fr_refl [simp]: "fr s s"
  by (simp add: fr_def)

lemma fr_trans: "fr s s' \<Longrightarrow> fr s' s'' \<Longrightarrow> fr s s''"
  unfolding fr_def using wal_trans by metis

lemma wal_logw: "wal s (logw b (s\<lparr>blk := (blk s)(b := d)\<rparr>))"
  by (auto simp: wal_def logw_def)

lemma fr_sb: "fr s s' \<Longrightarrow> fs_sb s' = fs_sb s"
  by (simp add: fr_def)

lemma fr_inode:
  assumes "fr s s'" "ip < length (icache s)"
  shows "noaddr (icache s' ! ip) = noaddr (icache s ! ip)" "length (icache s') = length (icache s)"
proof -
  have m: "map noaddr (icache s') = map noaddr (icache s)" using assms(1) by (simp add: fr_def)
  then show len: "length (icache s') = length (icache s)" using map_eq_imp_length_eq by blast
  have "map noaddr (icache s') ! ip = map noaddr (icache s) ! ip" by (simp add: m)
  with assms(2) len show "noaddr (icache s' ! ip) = noaddr (icache s ! ip)" by simp
qed

lemma noaddr_fields:
  assumes "noaddr e = noaddr e'"
  shows "i_ref e = i_ref e'" "i_valid e = i_valid e'" "i_inum e = i_inum e'" "i_type e = i_type e'"
    "i_size e = i_size e'" "i_dev e = i_dev e'" "i_mode e = i_mode e'" "i_nlink e = i_nlink e'" "i_owner e = i_owner e'"
  using assms by (cases e; cases e'; simp add: noaddr_def)+

lemma locs_cong: "fs_sb s' = fs_sb s \<Longrightarrow> locs s' = locs s"
  by (simp add: locs_def inums_def)

lemma locsI: "n \<in> inums s \<Longrightarrow> slot_ok sl \<Longrightarrow> (n, sl) \<in> locs s"
  by (simp add: locs_def)

lemma inum_IBLOCK: "lay_ok (fs_sb s) \<Longrightarrow> n \<in> inums s \<Longrightarrow> IBLOCK n (fs_sb s) < sb_bmapstart (fs_sb s)"
  by (simp add: IBLOCK_range inums_def)

lemma refs_cong:
  "fs_sb s' = fs_sb s \<Longrightarrow> (\<And>n sl. (n, sl) \<in> locs s \<Longrightarrow> val s' n sl = val s n sl) \<Longrightarrow> refs s' b = refs s b"
proof -
  assume sb: "fs_sb s' = fs_sb s" and v: "\<And>n sl. (n, sl) \<in> locs s \<Longrightarrow> val s' n sl = val s n sl"
  have "{l \<in> locs s'. val s' (fst l) (snd l) = b} = {l \<in> locs s. val s (fst l) (snd l) = b}"
    using v locs_cong [OF sb] by auto
  then show ?thesis by (simp add: refs_def)
qed

lemma refs_pos_iff: "refs s b > 0 \<longleftrightarrow> (\<exists>n sl. (n, sl) \<in> locs s \<and> val s n sl = b)"
  by (auto simp: refs_def card_gt_0_iff)

lemma refs_bound: "lay_ok (fs_sb s) \<Longrightarrow> refs s b \<le> 2113952000"
proof -
  assume "lay_ok (fs_sb s)"
  have "refs s b \<le> card (locs s)" unfolding refs_def by (intro card_mono) auto
  also have "\<dots> = card (inums s) * card {sl. slot_ok sl}" by (simp add: locs_def card_cartesian_product)
  also have "\<dots> \<le> 32000 * 66061"
    using card_slots \<open>lay_ok (fs_sb s)\<close> by (intro mult_mono) (auto simp: inums_def lay_ok_def)
  finally show ?thesis by simp
qed

lemma fs_invD:
  assumes "fs_inv P s"
  shows "lay_ok (fs_sb s)" "blks_ok s" "ic_ok s" "range_ok s" "count_ok P s" "meta_ok s" "bmp_ok s"
  using assms by (simp_all add: fs_inv_def)

lemma range_okD: "range_ok s \<Longrightarrow> (n, sl) \<in> locs s \<Longrightarrow> val s n sl \<noteq> 0 \<Longrightarrow>
    dstart (fs_sb s) \<le> val s n sl \<and> val s n sl < sb_size (fs_sb s)"
  by (simp add: range_ok_def)

lemma count_okD: "count_ok P s \<Longrightarrow> dstart (fs_sb s) \<le> b \<Longrightarrow> b < sb_size (fs_sb s) \<Longrightarrow> bref s b = refs s b + count P b"
  by (simp add: count_ok_def)

lemma meta_okD: "meta_ok s \<Longrightarrow> (n, sl) \<in> locs s \<Longrightarrow> meta sl \<Longrightarrow> val s n sl \<noteq> 0 \<Longrightarrow> bref s (val s n sl) = 1"
  by (simp add: meta_ok_def)

lemma bmp_okD: "bmp_ok s \<Longrightarrow> b < sb_size (fs_sb s) \<Longrightarrow> bit_set s b \<longleftrightarrow> b < dstart (fs_sb s) \<or> bref s b > 0"
  by (simp add: bmp_ok_def)

lemma val_bref:
  assumes "fs_inv P s" "(n, sl) \<in> locs s" "val s n sl \<noteq> 0"
  shows "bref s (val s n sl) > 0" "dstart (fs_sb s) \<le> val s n sl" "val s n sl < sb_size (fs_sb s)"
proof -
  show r: "dstart (fs_sb s) \<le> val s n sl" "val s n sl < sb_size (fs_sb s)"
    using range_okD [OF fs_invD(4) [OF assms(1)] assms(2,3)] by auto
  have "refs s (val s n sl) > 0" using assms(2) by (auto simp: refs_pos_iff)
  then show "bref s (val s n sl) > 0" using count_okD [OF fs_invD(5) [OF assms(1)] r] by simp
qed

lemma meta_unique:
  assumes inv: "fs_inv P s" and l: "(n, sl) \<in> locs s" "meta sl" "val s n sl \<noteq> 0"
    and l': "(n', sl') \<in> locs s" "val s n' sl' = val s n sl"
  shows "n' = n \<and> sl' = sl" "val s n sl \<notin># P"
proof -
  let ?b = "val s n sl" and ?S = "{l \<in> locs s. val s (fst l) (snd l) = val s n sl}"
  have "bref s ?b = 1" using meta_okD [OF fs_invD(6) [OF inv] l] .
  with count_okD [OF fs_invD(5) [OF inv] val_bref(2,3) [OF inv l(1,3)]]
  have c: "card ?S + count P ?b = 1" by (simp add: refs_def)
  have mem: "(n, sl) \<in> ?S" "(n', sl') \<in> ?S" using l l' by simp_all
  have fin: "finite ?S" by simp
  with mem(1) have "card ?S \<noteq> 0" unfolding card_eq_0_iff by blast
  with c have c1: "card ?S = 1" "count P ?b = 0" by linarith+
  from c1(1) obtain x where "?S = {x}" by (rule card_1_singletonE)
  with mem have "(n, sl) = (n', sl')" by simp
  then show "n' = n \<and> sl' = sl" by simp
  show "?b \<notin># P" using c1(2) by (simp add: count_eq_zero_iff)
qed

subsection \<open>Allocating and freeing\<close>

definition grew :: "fs \<Rightarrow> nat \<Rightarrow> fs \<Rightarrow> bool" where
  "grew s b s' \<longleftrightarrow>
     fr s s' \<and> icache s' = icache s \<and> (\<forall>c. c \<noteq> b \<and> dstart (fs_sb s) \<le> c \<longrightarrow> blk s' c = blk s c) \<and>
     blk s' b = zeros \<and> bref s b = 0 \<and> bref s' = (bref s)(b := 1) \<and>
     dstart (fs_sb s) \<le> b \<and> b < sb_size (fs_sb s) \<and>
     (\<forall>n sl. (n, sl) \<in> locs s \<longrightarrow> val s' n sl = val s n sl)"

lemma val_same:
  assumes "fs_inv P s" "icache s' = icache s" "fs_sb s' = fs_sb s"
    "\<forall>c < sb_bmapstart (fs_sb s). blk s' c = blk s c"
    "\<And>c. dstart (fs_sb s) \<le> c \<Longrightarrow> bref s c > 0 \<Longrightarrow> blk s' c = blk s c" "(n, sl) \<in> locs s"
  shows "val s' n sl = val s n sl"
proof (rule val_cong)
  have n: "n \<in> inums s" "slot_ok sl" using assms(6) by (auto simp: locs_def)
  show "slot_ok sl" by (rule n)
  show "iaddrs s' n = iaddrs s n"
    using assms(2,3,4) inum_IBLOCK [OF fs_invD(1) [OF assms(1)] n(1)] by (intro iaddrs_cong) auto
  fix l assume l: "slot_ok l" "meta l" "val s n l \<noteq> 0"
  have L: "(n, l) \<in> locs s" using n l(1) by (simp add: locsI)
  show "blk s' (val s n l) = blk s (val s n l)"
    by (rule assms(5) [OF val_bref(2) [OF assms(1) L l(3)] val_bref(1) [OF assms(1) L l(3)]])
qed

lemma range_ok_cong:
  assumes "range_ok s" "fs_sb s' = fs_sb s" "\<And>n sl. (n, sl) \<in> locs s \<Longrightarrow> val s' n sl = val s n sl"
  shows "range_ok s'"
  unfolding range_ok_def
proof (intro allI impI)
  fix n sl assume l: "(n, sl) \<in> locs s' \<and> val s' n sl \<noteq> 0"
  then have "(n, sl) \<in> locs s" using locs_cong [OF assms(2)] by simp
  with l assms(3) show "dstart (fs_sb s') \<le> val s' n sl \<and> val s' n sl < sb_size (fs_sb s')"
    using range_okD [OF assms(1)] assms(2) by simp
qed

lemma balloc_take_run:
  assumes inv: "fs_inv P s" and b: "b < sb_size (fs_sb s)" "\<not> bit_set s b"
  shows "\<exists>s'. balloc_take b s = (BRet b, s') \<and> grew s b s' \<and> fs_inv (add_mset b P) s' \<and> nfree s = nfree s' + 1"
proof -
  note I = fs_invD [OF inv]
  let ?sb = "fs_sb s" and ?c = "BBLOCK b (fs_sb s)"
  have b2: "dstart ?sb \<le> b" "bref s b = 0" using bmp_okD [OF I(7) b(1)] b(2) by auto
  have c: "sb_bmapstart ?sb \<le> ?c" "?c < dstart ?sb" using BBLOCK_range [OF I(1) b(1)] by auto
  define s' where "s' = (bzero b (bit_mark b s))\<lparr>bref := (bref s)(b := 1), hint := b + 1\<rparr>"
  have run: "balloc_take b s = (BRet b, s')"
    using b b2 by (simp add: balloc_take_def bref_inc_def bbind_def fret_def s'_def bzero_def wblk_def bit_mark_eq)
  have sb: "fs_sb s' = ?sb" "icache s' = icache s" "bref s' = (bref s)(b := 1)"
    by (simp_all add: s'_def bzero_def wblk_def bit_mark_eq)
  have k: "blk s' y = blk s y" if "y \<noteq> b" "y \<noteq> ?c" for y
    using that by (simp add: s'_def bzero_def wblk_def bit_mark_eq)
  have kb: "blk s' b = zeros" by (simp add: s'_def bzero_def wblk_def)
  have kc: "blk s' ?c = blk (bit_mark b s) ?c" using b2 c by (simp add: s'_def bzero_def wblk_def)
  have w: "wal s s'" by (auto simp: s'_def wal_def bzero_def wblk_def bit_mark_eq logw_def)
  have f: "fr s s'" using sb k b2 c w by (auto simp: fr_def)
  have v: "val s' n sl = val s n sl" if "(n, sl) \<in> locs s" for n sl
  proof (rule val_same [OF inv sb(2,1) _ _ that])
    fix y assume "dstart ?sb \<le> y" "bref s y > 0"
    then show "blk s' y = blk s y" using b2 c by (intro k) auto
  qed (use f in \<open>simp add: fr_def\<close>)
  have L: "locs s' = locs s" by (rule locs_cong [OF sb(1)])
  have g: "grew s b s'" using f sb k kb b b2 c v by (auto simp: grew_def)
  have bs: "bit_set s' y \<longleftrightarrow> y = b \<or> bit_set s y" if "y < sb_size ?sb" for y
  proof -
    have "BBLOCK y ?sb \<noteq> b" using BBLOCK_range [OF I(1) that] b2(1) by auto
    then have "blk s' (BBLOCK y ?sb) = blk (bit_mark b s) (BBLOCK y ?sb)"
      using k [of "BBLOCK y ?sb"] kc by (cases "BBLOCK y ?sb = ?c") (auto simp: bit_mark_eq)
    then show ?thesis using bit_set_mark [OF I(2), of b y] by (simp add: bit_set_def sb bit_mark_eq)
  qed
  have nf: "nfree s = nfree s' + 1" using nfree_remove [OF b sb(1) bs] .
  have "blks_ok s'"
    using I(2) by (simp add: blks_ok_def s'_def bzero_def wblk_def bit_mark_eq zeros_def)
  moreover have "ic_ok s'" using I(3) by (simp add: ic_ok_def sb)
  moreover have "range_ok s'" using range_ok_cong [OF I(4) sb(1) v] .
  moreover have "count_ok (add_mset b P) s'"
    using I(5) b b2 refs_cong [OF sb(1) v] by (auto simp: count_ok_def sb)
  moreover have "meta_ok s'"
    using I(6) v b2 by (auto simp: meta_ok_def sb L)
  moreover have "bmp_ok s'" using I(7) bs b2 by (auto simp: bmp_ok_def sb)
  ultimately have "fs_inv (add_mset b P) s'" using I(1) by (simp add: fs_inv_def sb)
  with run g nf show ?thesis by blast
qed

lemma balloc_spec:
  assumes "fs_inv P s"
  shows "spec 1 s balloc (\<lambda>b s'. grew s b s' \<and> fs_inv (add_mset b P) s')"
proof (cases rule: balloc_cases [of s])
  case full
  then have "{b. b < sb_size (fs_sb s) \<and> \<not> bit_set s b} = {}" by auto
  then have "nfree s = 0" by (simp add: nfree_def)
  with full show ?thesis by (simp add: spec_def fpanic_def)
next
  case (take b)
  with balloc_take_run [OF assms take(2,3)] show ?thesis by (auto simp: spec_def)
qed

definition shrank :: "fs \<Rightarrow> nat \<Rightarrow> fs \<Rightarrow> bool" where
  "shrank s b s' \<longleftrightarrow>
     fr s s' \<and> icache s' = icache s \<and> (\<forall>c. dstart (fs_sb s) \<le> c \<longrightarrow> blk s' c = blk s c) \<and>
     bref s' = (bref s)(b := bref s b - 1) \<and> (\<forall>n sl. (n, sl) \<in> locs s \<longrightarrow> val s' n sl = val s n sl)"

lemma bref_bound:
  assumes "fs_inv P s" "size P \<le> 1000000" "dstart (fs_sb s) \<le> b" "b < sb_size (fs_sb s)"
  shows "bref s b < 2147483647"
proof -
  have "count P b \<le> size P" by (rule count_le_size)
  with count_okD [OF fs_invD(5) [OF assms(1)] assms(3,4)] refs_bound [OF fs_invD(1) [OF assms(1)], of b] assms(2)
  show ?thesis by linarith
qed

lemma fs_inv_bref:
  assumes inv: "fs_inv P s" and sb: "fs_sb s' = fs_sb s" "icache s' = icache s" "blks_ok s'"
    and v: "\<And>n sl. (n, sl) \<in> locs s \<Longrightarrow> val s' n sl = val s n sl"
    and r: "\<And>b. dstart (fs_sb s) \<le> b \<Longrightarrow> b < sb_size (fs_sb s) \<Longrightarrow> bref s' b + count P b = bref s b + count P' b"
    and P': "\<forall>b \<in># P'. dstart (fs_sb s) \<le> b \<and> b < sb_size (fs_sb s)"
    and m: "\<And>n sl. (n, sl) \<in> locs s \<Longrightarrow> meta sl \<Longrightarrow> val s n sl \<noteq> 0 \<Longrightarrow> val s n sl \<notin># P'"
    and bs: "\<And>b. b < sb_size (fs_sb s) \<Longrightarrow> bit_set s' b \<longleftrightarrow> b < dstart (fs_sb s) \<or> bref s' b > 0"
  shows "fs_inv P' s'"
proof -
  note I = fs_invD [OF inv]
  have L: "locs s' = locs s" by (rule locs_cong [OF sb(1)])
  have "ic_ok s'" using I(3) by (simp add: ic_ok_def sb)
  moreover have "range_ok s'" using range_ok_cong [OF I(4) sb(1) v] .
  moreover have "count_ok P' s'"
    unfolding count_ok_def sb(1)
  proof (intro conjI allI impI P')
    fix b assume b: "dstart (fs_sb s) \<le> b \<and> b < sb_size (fs_sb s)"
    then have "bref s b = refs s b + count P b" "bref s' b + count P b = bref s b + count P' b"
      using count_okD [OF I(5)] r by auto
    moreover have "refs s' b = refs s b" using refs_cong [OF sb(1) v] .
    ultimately show "bref s' b = refs s' b + count P' b" by linarith
  qed
  moreover have "meta_ok s'"
    unfolding meta_ok_def L
  proof (intro allI impI)
    fix n sl assume l: "(n, sl) \<in> locs s \<and> meta sl \<and> val s' n sl \<noteq> 0"
    then have l': "(n, sl) \<in> locs s" "meta sl" "val s n sl \<noteq> 0" using v by auto
    have "count P (val s n sl) = 0" "count P' (val s n sl) = 0"
      using meta_unique(2) [OF inv l' l'(1) refl] m [OF l'] by (auto simp: count_eq_zero_iff)
    with r [OF val_bref(2,3) [OF inv l'(1,3)]] meta_okD [OF I(6) l'] v [OF l'(1)]
    show "bref s' (val s' n sl) = 1" by simp
  qed
  moreover have "bmp_ok s'" using bs by (simp add: bmp_ok_def sb)
  ultimately show ?thesis using I(1) sb by (simp add: fs_inv_def)
qed

lemma bref_inc_run:
  assumes inv: "fs_inv P s" and b: "dstart (fs_sb s) \<le> b" "b < sb_size (fs_sb s)" "bref s b > 0" "size P \<le> 1000000"
    and m: "\<And>n sl. (n, sl) \<in> locs s \<Longrightarrow> meta sl \<Longrightarrow> val s n sl \<noteq> b"
  shows "bref_inc b s = (BRet (), s\<lparr>bref := (bref s)(b := bref s b + 1)\<rparr>)"
    "fs_inv (add_mset b P) (s\<lparr>bref := (bref s)(b := bref s b + 1)\<rparr>)"
proof -
  let ?s = "s\<lparr>bref := (bref s)(b := bref s b + 1)\<rparr>"
  note I = fs_invD [OF inv]
  have "bref s b < 2147483647" using bref_bound [OF inv b(4) b(1,2)] .
  then show "bref_inc b s = (BRet (), ?s)" using b by (simp add: bref_inc_def fret_def)
  show "fs_inv (add_mset b P) ?s"
  proof (rule fs_inv_bref [OF inv])
    show "val ?s n sl = val s n sl" if "(n, sl) \<in> locs s" for n sl
      by (rule val_same [OF inv _ _ _ _ that]) auto
    show "val s n sl \<notin># add_mset b P" if "(n, sl) \<in> locs s" "meta sl" "val s n sl \<noteq> 0" for n sl
      using m [OF that(1,2)] meta_unique(2) [OF inv that that(1) refl] by auto
    show "bit_set ?s y \<longleftrightarrow> y < dstart (fs_sb s) \<or> bref ?s y > 0" if "y < sb_size (fs_sb s)" for y
      using bmp_okD [OF I(7) that] b by (auto simp: bit_set_def)
  qed (use I(2,5) b in \<open>auto simp: blks_ok_def count_ok_def\<close>)
qed

lemma bfree_spec:
  assumes inv: "fs_inv (add_mset b P) s" and P: "size P < 1000000"
  shows "spec 0 s (bfree b) (\<lambda>_ s'. shrank s b s' \<and> fs_inv P s')"
proof -
  note I = fs_invD [OF inv]
  let ?sb = "fs_sb s" and ?c = "BBLOCK b (fs_sb s)" and ?r = "(bref s)(b := bref s b - 1)"
  have b: "dstart ?sb \<le> b" "b < sb_size ?sb" using I(5) by (auto simp: count_ok_def)
  have r: "bref s b = refs s b + count P b + 1" using count_okD [OF I(5) b] by simp
  have bd: "bref s b < 2147483647" using bref_bound [OF inv _ b] P by simp
  have dec: "bref_dec b s = (BRet (int (bref s b - 1)), s\<lparr>bref := ?r\<rparr>)"
    using b r bd by (simp add: bref_dec_def fret_def i32_id)
  have m: "val s n sl \<notin># P" if "(n, sl) \<in> locs s" "meta sl" "val s n sl \<noteq> 0" for n sl
    using meta_unique(2) [OF inv that that(1) refl] by auto
  have fin: "shrank s b s' \<and> fs_inv P s'"
    if f: "fr s s'" "icache s' = icache s" "bref s' = ?r" "blks_ok s'" "\<forall>c. dstart ?sb \<le> c \<longrightarrow> blk s' c = blk s c"
      and bs: "\<And>y. y < sb_size ?sb \<Longrightarrow> bit_set s' y \<longleftrightarrow> y < dstart ?sb \<or> bref s' y > 0" for s'
  proof
    have sb: "fs_sb s' = ?sb" using f by (simp add: fr_def)
    have v: "val s' n sl = val s n sl" if "(n, sl) \<in> locs s" for n sl
      using f by (intro val_same [OF inv _ sb _ _ that]) (auto simp: fr_def)
    show "shrank s b s'" using f v by (simp add: shrank_def)
    show "fs_inv P s'"
    proof (rule fs_inv_bref [OF inv sb f(2,4) v _ _ m bs])
      show "bref s' y + count (add_mset b P) y = bref s y + count P y" for y using r by (auto simp: f(3))
      show "\<forall>y \<in># P. dstart ?sb \<le> y \<and> y < sb_size ?sb" using I(5) by (auto simp: count_ok_def)
    qed
  qed
  show ?thesis
  proof (cases "bref s b - 1 > 0")
    case True
    then have run: "bfree b s = (BRet (), s\<lparr>bref := ?r\<rparr>)"
      by (simp add: bfree_def bbind_def dec fret_def)
    have bs: "bit_set (s\<lparr>bref := ?r\<rparr>) y \<longleftrightarrow> y < dstart ?sb \<or> bref (s\<lparr>bref := ?r\<rparr>) y > 0" if "y < sb_size ?sb" for y
      using bmp_okD [OF I(7) that] True by (auto simp: bit_set_def)
    have "shrank s b (s\<lparr>bref := ?r\<rparr>) \<and> fs_inv P (s\<lparr>bref := ?r\<rparr>)"
      using I(2) bs by (intro fin) (auto simp: fr_def wal_def blks_ok_def)
    moreover have "nfree (s\<lparr>bref := ?r\<rparr>) = nfree s" by (intro nfree_cong) (auto simp: bit_set_def)
    ultimately show ?thesis by (simp add: spec_def run)
  next
    case False
    let ?d = "(blk s ?c)[b mod BPB div 8 := unset_bit (b mod 8) (blk s ?c ! (b mod BPB div 8))]"
    define s' where "s' = logw ?c (s\<lparr>bref := ?r, blk := (blk s)(?c := ?d)\<rparr>)"
    have set: "bit_set s b" using bmp_okD [OF I(7) b(2)] r by simp
    have run: "bfree b s = (BRet (), s')"
      using False set unfolding bfree_def bbind_def dec
      by (simp add: fret_def Let_def s'_def wblk_def mod_BPB_8 bit_set_def flip: bit_iff_and_push_bit_not_eq_0)
        (auto simp: bit_iff_and_push_bit_not_eq_0)
    have c: "sb_bmapstart ?sb \<le> ?c" "?c < dstart ?sb" using BBLOCK_range [OF I(1) b(2)] by auto
    have bu: "bit_set s' y \<longleftrightarrow> (if y = b then False else bit_set s y)" for y
      using bit_set_upd [of ?c b s "unset_bit (b mod 8) (blk s ?c ! (b mod BPB div 8))" False y] I(2)
      by (simp add: s'_def blks_ok_def bit_simps bit_set_def)
    have br: "bref s' = ?r" and sb': "fs_sb s' = ?sb" by (simp_all add: s'_def)
    have bs: "bit_set s' y \<longleftrightarrow> y < dstart ?sb \<or> bref s' y > 0" if "y < sb_size ?sb" for y
      using bmp_okD [OF I(7) that] False b r by (auto simp: bu br)
    have w: "wal s s'" by (auto simp: wal_def s'_def logw_def)
    have "shrank s b s' \<and> fs_inv P s'"
    proof (rule fin [OF _ _ br _ _ bs])
      show "fr s s'" using c w by (simp add: fr_def s'_def)
      show "icache s' = icache s" by (simp add: s'_def)
      show "blks_ok s'" using I(2) by (simp add: blks_ok_def s'_def)
      show "\<forall>y. dstart ?sb \<le> y \<longrightarrow> blk s' y = blk s y" using c by (simp add: s'_def)
    qed
    moreover have "nfree s' = nfree s + 1"
    proof (rule nfree_remove)
      show "bit_set s y \<longleftrightarrow> y = b \<or> bit_set s' y" for y using set by (auto simp: bu)
    qed (use b(2) sb' bu in simp_all)
    ultimately show ?thesis by (simp add: spec_def run)
  qed
qed

subsection \<open>Changing slots\<close>

lemma refs_change:
  assumes "fs_sb s' = fs_sb s" "D \<subseteq> locs s"
    "\<And>n sl. (n, sl) \<in> locs s \<Longrightarrow> (n, sl) \<notin> D \<Longrightarrow> val s' n sl = val s n sl"
  shows "refs s' b + card {l \<in> D. val s (fst l) (snd l) = b} = refs s b + card {l \<in> D. val s' (fst l) (snd l) = b}"
proof -
  let ?O = "{l \<in> locs s - D. val s (fst l) (snd l) = b}"
  have fin: "finite D" using assms(2) finite_locs finite_subset by blast
  have s: "{l \<in> locs s. val s (fst l) (snd l) = b} = ?O \<union> {l \<in> D. val s (fst l) (snd l) = b}"
    using assms(2) by auto
  have s': "{l \<in> locs s'. val s' (fst l) (snd l) = b} = ?O \<union> {l \<in> D. val s' (fst l) (snd l) = b}"
    using assms(2,3) locs_cong [OF assms(1)] by auto
  have "refs s b = card ?O + card {l \<in> D. val s (fst l) (snd l) = b}"
    unfolding refs_def s by (rule card_Un_disjoint) (use fin in auto)
  moreover have "refs s' b = card ?O + card {l \<in> D. val s' (fst l) (snd l) = b}"
    unfolding refs_def s' by (rule card_Un_disjoint) (use fin in auto)
  ultimately show ?thesis by simp
qed

definition ptrs :: "fs \<Rightarrow> (nat \<times> slot) set \<Rightarrow> nat multiset" where
  "ptrs s D = filter_mset (\<lambda>b. b \<noteq> 0) (image_mset (\<lambda>l. val s (fst l) (snd l)) (mset_set D))"

lemma count_ptrs: "finite D \<Longrightarrow> b \<noteq> 0 \<Longrightarrow> count (ptrs s D) b = card {l \<in> D. val s (fst l) (snd l) = b}"
  by (auto simp: ptrs_def count_image_mset intro!: arg_cong [of _ _ card])

lemma fs_inv_move:
  assumes inv: "fs_inv (P + ptrs s' D) s" and D: "D \<subseteq> locs s"
    and sb: "fs_sb s' = fs_sb s" "bref s' = bref s" "blks_ok s'" "ic_ok s'"
    and bm: "\<And>b. sb_bmapstart (fs_sb s) \<le> b \<Longrightarrow> b < dstart (fs_sb s) \<Longrightarrow> blk s' b = blk s b"
    and v: "\<And>n sl. (n, sl) \<in> locs s \<Longrightarrow> (n, sl) \<notin> D \<Longrightarrow> val s' n sl = val s n sl"
    and m: "\<And>n sl. (n, sl) \<in> D \<Longrightarrow> meta sl \<Longrightarrow> val s' n sl \<noteq> 0 \<Longrightarrow> bref s (val s' n sl) = 1"
  shows "fs_inv (P + ptrs s D) s'"
proof -
  note I = fs_invD [OF inv]
  have L: "locs s' = locs s" by (rule locs_cong [OF sb(1)])
  have fin: "finite D" using D finite_locs finite_subset by blast
  have new: "dstart (fs_sb s) \<le> val s' n sl \<and> val s' n sl < sb_size (fs_sb s)" if "(n, sl) \<in> D" "val s' n sl \<noteq> 0" for n sl
  proof -
    have "val s' n sl \<in># ptrs s' D" using that fin by (force simp: ptrs_def)
    then show ?thesis using I(5) by (auto simp: count_ok_def)
  qed
  have old: "dstart (fs_sb s) \<le> b \<and> b < sb_size (fs_sb s)" if "b \<in># ptrs s D" for b
    using that fin D range_okD [OF I(4)] by (auto simp: ptrs_def)
  have "range_ok s'"
    unfolding range_ok_def L sb(1)
  proof (intro allI impI)
    fix n sl assume l: "(n, sl) \<in> locs s \<and> val s' n sl \<noteq> 0"
    show "dstart (fs_sb s) \<le> val s' n sl \<and> val s' n sl < sb_size (fs_sb s)"
    proof (cases "(n, sl) \<in> D")
      case False
      with l v have "val s' n sl = val s n sl" by blast
      with l range_okD [OF I(4)] show ?thesis by simp
    qed (use new l in blast)
  qed
  moreover have "count_ok (P + ptrs s D) s'"
    unfolding count_ok_def sb(1)
  proof (intro conjI allI impI ballI)
    fix b assume b: "dstart (fs_sb s) \<le> b \<and> b < sb_size (fs_sb s)"
    then have b0: "b \<noteq> 0" using lay_order [OF I(1)] by auto
    have "bref s b = refs s b + count (P + ptrs s' D) b" using count_okD [OF I(5)] b by blast
    then show "bref s' b = refs s' b + count (P + ptrs s D) b"
      using refs_change [OF sb(1) D v, of b] by (simp add: sb count_ptrs [OF fin b0])
  next
    fix b assume "b \<in># P + ptrs s D"
    then show "dstart (fs_sb s) \<le> b" "b < sb_size (fs_sb s)" using old I(5) by (auto simp: count_ok_def)
  qed
  moreover have "meta_ok s'"
    unfolding meta_ok_def L sb(2)
  proof (intro allI impI)
    fix n sl assume l: "(n, sl) \<in> locs s \<and> meta sl \<and> val s' n sl \<noteq> 0"
    show "bref s (val s' n sl) = 1"
    proof (cases "(n, sl) \<in> D")
      case False
      with l v have "val s' n sl = val s n sl" by blast
      with l meta_okD [OF I(6)] show ?thesis by simp
    qed (use m l in blast)
  qed
  moreover have "bmp_ok s'"
    unfolding bmp_ok_def sb(1,2)
  proof (intro allI impI)
    fix b assume b: "b < sb_size (fs_sb s)"
    then have "blk s' (BBLOCK b (fs_sb s)) = blk s (BBLOCK b (fs_sb s))"
      using BBLOCK_range [OF I(1) b] by (intro bm) auto
    then have "bit_set s' b = bit_set s b" by (rule bit_set_cong [OF _ sb(1)])
    then show "bit_set s' b \<longleftrightarrow> b < dstart (fs_sb s) \<or> bref s b > 0" using bmp_okD [OF I(7) b] by simp
  qed
  ultimately show ?thesis using I(1) sb by (simp add: fs_inv_def)
qed

definition opt :: "nat \<Rightarrow> nat multiset" where
  "opt x = (if x = 0 then {#} else {#x#})"

lemma ptrs_single: "ptrs s {(n, sl)} = opt (val s n sl)"
  by (simp add: ptrs_def opt_def)

lemma fs_inv_slot:
  assumes inv: "fs_inv (P + opt x) s" and l: "(n, sl) \<in> locs s"
    and sb: "fs_sb s' = fs_sb s" "bref s' = bref s" "blks_ok s'" "ic_ok s'"
    and bm: "\<And>b. sb_bmapstart (fs_sb s) \<le> b \<Longrightarrow> b < dstart (fs_sb s) \<Longrightarrow> blk s' b = blk s b"
    and v: "\<And>m k. (m, k) \<in> locs s \<Longrightarrow> val s' m k = (if m = n \<and> k = sl then x else val s m k)"
    and m: "meta sl \<Longrightarrow> x \<noteq> 0 \<Longrightarrow> bref s x = 1"
  shows "fs_inv (P + opt (val s n sl)) s'"
proof -
  have x: "val s' n sl = x" using v [OF l] by simp
  have "fs_inv (P + ptrs s {(n, sl)}) s'"
  proof (rule fs_inv_move [OF _ _ sb bm])
    show "fs_inv (P + ptrs s' {(n, sl)}) s" using inv by (simp add: ptrs_single x)
    show "{(n, sl)} \<subseteq> locs s" using l by simp
    show "val s' a k = val s a k" if "(a, k) \<in> locs s" "(a, k) \<notin> {(n, sl)}" for a k
      using v [OF that(1)] that(2) by auto
    show "bref s (val s' a k) = 1" if "(a, k) \<in> {(n, sl)}" "meta k" "val s' a k \<noteq> 0" for a k
      using that m x by auto
  qed
  then show ?thesis by (simp add: ptrs_single)
qed

subsection \<open>Cached inodes\<close>

definition held :: "fs \<Rightarrow> nat \<Rightarrow> nat \<Rightarrow> bool" where
  "held s ip n \<longleftrightarrow> ip < length (icache s) \<and> i_ref (icache s ! ip) > 0 \<and> i_valid (icache s ! ip) \<and>
     i_inum (icache s ! ip) = n \<and> n \<in> inums s"

lemma find_idx_map: "find_idx P (map f xs) = find_idx (\<lambda>x. P (f x)) xs"
  by (induction xs) auto

lemma cached_noaddr: "map noaddr ic' = map noaddr ic \<Longrightarrow> cached ic' n = cached ic n"
proof -
  assume "map noaddr ic' = map noaddr ic"
  moreover have "cached ic n = cached (map noaddr ic) n" for ic
    by (simp add: cached_def find_idx_map noaddr_def)
  ultimately show ?thesis by metis
qed

lemma ic_ok_unique:
  "ic_ok s \<Longrightarrow> k < length (icache s) \<Longrightarrow> k' < length (icache s) \<Longrightarrow> i_ref (icache s ! k) > 0 \<Longrightarrow>
    i_ref (icache s ! k') > 0 \<Longrightarrow> i_inum (icache s ! k) = i_inum (icache s ! k') \<Longrightarrow> k = k'"
  unfolding ic_ok_def by metis

lemma cached_held: "ic_ok s \<Longrightarrow> held s ip n \<Longrightarrow> cached (icache s) n = Some ip"
  unfolding cached_def
proof (rule find_idx_SomeI)
  assume ic: "ic_ok s" and h: "held s ip n"
  show "\<forall>j < ip. \<not> (i_ref (icache s ! j) > 0 \<and> i_valid (icache s ! j) \<and> i_inum (icache s ! j) = n)"
  proof (intro allI impI notI)
    fix j assume "j < ip" "i_ref (icache s ! j) > 0 \<and> i_valid (icache s ! j) \<and> i_inum (icache s ! j) = n"
    then have "j = ip" using ic_ok_unique [OF ic, of j ip] h by (auto simp: held_def)
    with \<open>j < ip\<close> show False by simp
  qed
qed (auto simp: held_def)

lemma iaddrs_held:
  assumes "ic_ok s" "held s ip n"
  shows "iaddrs s n = i_addrs (icache s ! ip)" "length (iaddrs s n) = 13"
proof -
  show *: "iaddrs s n = i_addrs (icache s ! ip)" using cached_held [OF assms] by (simp add: iaddrs_def)
  then show "length (iaddrs s n) = 13" using assms by (simp add: held_def ic_ok_def)
qed

lemma fr_held:
  assumes "fr s s'" "held s ip n"
  shows "held s' ip n"
proof -
  have ip: "ip < length (icache s)" using assms(2) by (simp add: held_def)
  show ?thesis using assms(2) fr_inode [OF assms(1) ip] fr_sb [OF assms(1)]
      noaddr_fields [of "icache s' ! ip" "icache s ! ip"]
    by (simp add: held_def inums_def)
qed

lemma set_addr_noaddr: "map noaddr (icache (set_addr ip i a s)) = map noaddr (icache s)"
proof (cases "ip < length (icache s)")
  case True
  then show ?thesis unfolding set_addr_def by (simp add: map_upd_at_same noaddr_def)
qed (simp add: set_addr_def list_update_beyond)

lemma set_addr_sel [simp]:
  "blk (set_addr ip i a s) = blk s" "fs_sb (set_addr ip i a s) = fs_sb s" "bref (set_addr ip i a s) = bref s"
  "logged (set_addr ip i a s) = logged s" "hint (set_addr ip i a s) = hint s"
  by (simp_all add: set_addr_def)

lemma fr_set_addr: "fr s (set_addr ip i a s)"
  by (simp add: fr_def set_addr_noaddr wal_def)

lemma iaddrs_set_addr:
  assumes "ic_ok s" "held s ip n"
  shows "iaddrs (set_addr ip i a s) m = (if m = n then (iaddrs s n)[i := a] else iaddrs s m)"
proof -
  have c: "cached (icache (set_addr ip i a s)) m = cached (icache s) m" for m
    by (rule cached_noaddr [OF set_addr_noaddr])
  show ?thesis
  proof (cases "m = n")
    case True
    then show ?thesis using cached_held [OF assms] assms(2) iaddrs_held(1) [OF assms]
      by (simp add: iaddrs_def c) (simp add: set_addr_def held_def)
  next
    case False
    have "i_addrs (icache (set_addr ip i a s) ! k) = i_addrs (icache s ! k)" if "cached (icache s) m = Some k" for k
    proof -
      have "k \<noteq> ip" using that False assms(2) by (auto simp: cached_def held_def dest: find_idx_SomeD)
      then show ?thesis by (simp add: set_addr_def)
    qed
    with False show ?thesis by (simp add: iaddrs_def c split: option.split)
  qed
qed

lemma set_addr_fields [simp]:
  "length (icache (set_addr ip i a s)) = length (icache s)"
  "i_ref (icache (set_addr ip i a s) ! k) = i_ref (icache s ! k)"
  "i_valid (icache (set_addr ip i a s) ! k) = i_valid (icache s ! k)"
  "i_inum (icache (set_addr ip i a s) ! k) = i_inum (icache s ! k)"
  "length (i_addrs (icache (set_addr ip i a s) ! k)) = length (i_addrs (icache s ! k))"
  unfolding set_addr_def
  by (simp_all add: field_upd_at) (cases "k = ip"; cases "ip < length (icache s)"; simp add: list_update_beyond)

lemma ic_ok_set_addr: "ic_ok s \<Longrightarrow> ic_ok (set_addr ip i a s)"
  by (simp add: ic_ok_def)

lemma length_zeros [simp]: "length zeros = BSIZE"
  by (simp add: zeros_def)

lemma addr_word_zeros [simp]: "j < NADDR \<Longrightarrow> addr_word zeros j = 0"
  by (simp add: addr_word_def zeros_def get32_def)

lemma val_set_addr:
  assumes inv: "ic_ok s" and h: "held s ip n" and i: "i < 13" and sl: "slot_ok sl"
    and z: "i \<ge> 11 \<Longrightarrow> iaddrs s n ! i = 0 \<and> (a = 0 \<or> blk s a = zeros)"
  shows "val (set_addr ip i a s) m sl = (if m = n \<and> sl = Dir i then a else val s m sl)"
proof -
  note A = iaddrs_set_addr [OF inv h] and L = iaddrs_held(2) [OF inv h]
  have w: "via (set_addr ip i a s) c j = via s c j" for c j by (simp add: via_def)
  have va: "via s a j = 0" if "i \<ge> 11" "j < NADDR" for j using z that by (auto simp: via_def)
  have v0: "via s 0 j = 0" for j by (simp add: via_def)
  show ?thesis
  proof (cases "m = n")
    case True
    have "i = 11 \<or> i = 12 \<or> i < 11" using i by linarith
    then show ?thesis using True sl L i z va v0
      by (cases sl) (auto simp: A w nth_list_update)
  qed (cases sl; simp add: A w)
qed

subsection \<open>Entries of indirect blocks\<close>

fun child :: "slot \<Rightarrow> nat \<Rightarrow> slot" where
  "child (Dir i) j = (if i = 11 then Ind j else Lvl j)"
| "child (Lvl i) j = Dbl i j"
| "child sl j = sl"

lemma addr_word_put:
  assumes "length d = BSIZE" "j < NADDR" "k < NADDR" "x < 4294967296"
  shows "addr_word (put32 d (4 * j) x) k = (if k = j then x else addr_word d k)"
proof (cases "k = j")
  case True
  with assms show ?thesis by (simp add: addr_word_def get_put32)
next
  case False
  then have "4 * k + 4 \<le> 4 * j \<or> 4 * j + 4 \<le> 4 * k" by linarith
  with False show ?thesis by (simp add: addr_word_def get_put32_other)
qed

lemma child_ok: "slot_ok p \<Longrightarrow> meta p \<Longrightarrow> j < NADDR \<Longrightarrow> slot_ok (child p j)"
  by (cases p) auto

lemma val_child: "slot_ok p \<Longrightarrow> meta p \<Longrightarrow> val s n (child p j) = via s (val s n p) j"
proof (cases p)
  case (Dir i)
  assume "slot_ok p" "meta p"
  then have "i = 11 \<or> i = 12" using Dir by auto
  then show ?thesis using Dir by auto
qed auto

lemma child_eq:
  assumes "slot_ok p" "meta p"
  shows "Dir i \<noteq> child p j" "Ind k = child p j \<longleftrightarrow> p = Dir 11 \<and> k = j"
    "Lvl k = child p j \<longleftrightarrow> p = Dir 12 \<and> k = j" "Dbl i k = child p j \<longleftrightarrow> p = Lvl i \<and> k = j"
  using assms by (cases p; auto)+

lemma val_put:
  assumes inv: "fs_inv P s" and p: "(n, p) \<in> locs s" "meta p" "val s n p = c" "c \<noteq> 0"
    and j: "j < NADDR" and x: "x < 4294967296"
    and z: "p = Dir 12 \<Longrightarrow> val s n (Lvl j) = 0 \<and> x \<noteq> c \<and> (x = 0 \<or> blk s x = zeros)"
    and s': "blk s' = (blk s)(c := put32 (blk s c) (4 * j) x)" "fs_sb s' = fs_sb s" "icache s' = icache s"
    and l: "(m, sl) \<in> locs s"
  shows "val s' m sl = (if m = n \<and> sl = child p j then x else val s m sl)"
proof -
  note I = fs_invD [OF inv]
  have pr: "slot_ok p" "n \<in> inums s" using p(1) by (auto simp: locs_def)
  have m: "m \<in> inums s" "slot_ok sl" using l by (auto simp: locs_def)
  have ds: "dstart (fs_sb s) \<le> c" using val_bref(2) [OF inv p(1)] p(3,4) by simp
  have A: "iaddrs s' m = iaddrs s m"
    using inum_IBLOCK [OF I(1) m(1)] lay_order [OF I(1)] ds s' by (intro iaddrs_cong) auto
  have W: "via s' c' k = (if c' = c \<and> k = j then x else via s c' k)" if "k < NADDR" for c' k
    using that p(4) j x addr_word_put [of "blk s c" j k x] I(2) by (auto simp: via_def s' blks_ok_def)
  have U: "q = p \<and> m = n" if "slot_ok q" "val s m q = c" for q
    using meta_unique(1) [OF inv p(1,2) _ locsI [OF m(1) that(1)]] p(3,4) that(2) by auto
  have step: "via s' (val s m q) k = (if m = n \<and> q = p \<and> k = j then x else via s (val s m q) k)"
    if "slot_ok q" "k < NADDR" for q k
  proof (cases "val s m q = c")
    case True
    from W [OF that(2), of "val s m q"] U [OF that(1) True] True show ?thesis by simp
  next
    case False
    then have "\<not> (m = n \<and> q = p)" using p(3) by blast
    with W [OF that(2), of "val s m q"] False show ?thesis by auto
  qed
  note ce = child_eq [OF pr(1) p(2)]
  show ?thesis
  proof (cases sl)
    case (Dir i)
    then show ?thesis using A ce(1) by simp
  next
    case (Ind k)
    then have "val s' m sl = via s' (val s m (Dir 11)) k" "val s m sl = via s (val s m (Dir 11)) k" using A by simp_all
    moreover have "via s' (val s m (Dir 11)) k = (if m = n \<and> Dir 11 = p \<and> k = j then x else via s (val s m (Dir 11)) k)"
      using m(2) Ind by (intro step) simp_all
    ultimately show ?thesis using ce(2) [of k j] unfolding Ind by auto
  next
    case (Lvl k)
    then have "val s' m sl = via s' (val s m (Dir 12)) k" "val s m sl = via s (val s m (Dir 12)) k" using A by simp_all
    moreover have "via s' (val s m (Dir 12)) k = (if m = n \<and> Dir 12 = p \<and> k = j then x else via s (val s m (Dir 12)) k)"
      using m(2) Lvl by (intro step) simp_all
    ultimately show ?thesis using ce(3) [of k j] unfolding Lvl by auto
  next
    case (Dbl i k)
    have ik: "i < NADDR" "k < NADDR" "slot_ok (Dir 12)" "slot_ok (Lvl i)" using m(2) Dbl by auto
    have v': "val s' m sl = via s' (via s' (val s m (Dir 12)) i) k" using Dbl A by simp
    show ?thesis
    proof (cases "m = n \<and> p = Dir 12 \<and> i = j")
      case True
      then have "via s' (val s m (Dir 12)) i = x" using step [OF ik(3,1)] by simp
      moreover have "via s' x k = 0" using True z ik by (auto simp: via_def s')
      moreover have "val s m sl = 0" using True z Dbl by (simp add: via_def)
      ultimately show ?thesis using v' True Dbl ce(4) [of i k j] by simp
    next
      case False
      then have "via s' (val s m (Dir 12)) i = val s m (Lvl i)" using step [OF ik(3,1)] by auto
      then have "val s' m sl = via s' (val s m (Lvl i)) k" using v' by simp
      also have "\<dots> = (if m = n \<and> Lvl i = p \<and> k = j then x else via s (val s m (Lvl i)) k)"
        by (rule step [OF ik(4,2)])
      finally show ?thesis using Dbl ce(4) [of i k j] by auto
    qed
  qed
qed

text \<open>\<open>ptr_at s ip n p sl\<close>: the pointer \<open>p\<close> of the code addresses the slot \<open>sl\<close> of file \<open>n\<close>.\<close>

fun ptr_at :: "fs \<Rightarrow> nat \<Rightarrow> aptr \<Rightarrow> slot \<Rightarrow> bool" where
  "ptr_at s n (PAddr i) sl = (sl = Dir i \<and> i < 13)"
| "ptr_at s n (PBlk c j) sl = (c \<noteq> 0 \<and> j < NADDR \<and> (\<exists>q. slot_ok q \<and> meta q \<and> val s n q = c \<and> sl = child q j))"

lemma ptr_at_ok: "ptr_at s n p sl \<Longrightarrow> slot_ok sl"
  by (cases p) (auto simp: child_ok)

lemma ptr_get_val:
  assumes "ic_ok s" "held s ip n" "ptr_at s n p sl"
  shows "ptr_get ip p s = val s n sl"
proof (cases p)
  case (PAddr i)
  then show ?thesis using assms(3) iaddrs_held(1) [OF assms(1,2)] by simp
next
  case (PBlk c j)
  then obtain q where "c \<noteq> 0" "slot_ok q" "meta q" "val s n q = c" "sl = child q j" using assms(3) by auto
  with PBlk show ?thesis by (simp add: val_child via_def)
qed

definition isdata :: "fs \<Rightarrow> nat \<Rightarrow> bool" where
  "isdata s b \<longleftrightarrow> (\<forall>m k. (m, k) \<in> locs s \<and> meta k \<longrightarrow> val s m k \<noteq> b)"

lemma data_isdata:
  assumes "fs_inv P s" "(m, sl) \<in> locs s" "\<not> meta sl" "val s m sl \<noteq> 0"
  shows "isdata s (val s m sl)"
  unfolding isdata_def
proof (intro allI impI notI)
  fix a k assume k: "(a, k) \<in> locs s \<and> meta k" "val s a k = val s m sl"
  have "val s a k \<noteq> 0" using k(2) assms(4) by linarith
  then have "m = a \<and> sl = k"
    using meta_unique(1) [OF assms(1) _ _ _ assms(2) k(2) [symmetric]] k(1) by blast
  with assms(3) k show False by blast
qed

lemma held_isdata: 
  assumes "fs_inv P s" "b \<in># P" "b \<noteq> 0"
  shows "isdata s b"
  unfolding isdata_def
proof (intro allI impI notI)
  fix a k assume k: "(a, k) \<in> locs s \<and> meta k" "val s a k = b"
  then have "val s a k \<noteq> 0" using assms(3) by simp
  with k have "val s a k \<notin># P" using meta_unique(2) [OF assms(1)] by blast
  with assms(2) k(2) show False by simp
qed

end
