(* ===== verification/Bmap.thy ===== *)
theory Bmap
  imports Fs
begin

section \<open>Block maps: allocation, copy-on-write\<close>

text \<open>
  The proofs about \<^verbatim>\<open>bmap\<close> and its variants of \<^verbatim>\<open>kernel/filesystem/fs.c\<close> (the definitions are
  in theory \<open>Fs\<close>): which slots an operation changes, that the reference counts and the bitmap
  stay right, and that no file's contents change when a block is mapped or unshared.
\<close>

subsection \<open>Storing through a pointer\<close>

text \<open>
  \<open>moved s n sl x s'\<close>: \<open>s'\<close> is \<open>s\<close> with the slot \<open>sl\<close> of file \<open>n\<close> set to \<open>x\<close>; apart from inodes and
  the block that holds the slot nothing changed.
\<close>

definition moved :: "fs \<Rightarrow> nat \<Rightarrow> slot \<Rightarrow> nat \<Rightarrow> fs \<Rightarrow> bool" where
  "moved s n sl x s' \<longleftrightarrow>
     fr s s' \<and> bref s' = bref s \<and> nfree s' = nfree s \<and>
     (\<forall>b. isdata s b \<longrightarrow> blk s' b = blk s b) \<and>
     (\<forall>m k. (m, k) \<in> locs s \<longrightarrow> val s' m k = (if m = n \<and> k = sl then x else val s m k))"

lemma ptr_set_moved:
  assumes inv: "fs_inv (P + opt x) s" and h: "held s ip n" and at: "ptr_at s n p sl"
    and z: "meta sl \<Longrightarrow> val s n sl = 0 \<and> (x = 0 \<or> blk s x = zeros \<and> bref s x = 1)"
  shows "moved s n sl x (ptr_set ip p x s)" "fs_inv (P + opt (val s n sl)) (ptr_set ip p x s)"
proof -
  note I = fs_invD [OF inv]
  let ?s = "ptr_set ip p x s"
  have n: "n \<in> inums s" using h by (simp add: held_def)
  have l: "(n, sl) \<in> locs s" using locsI [OF n ptr_at_ok [OF at]] .
  have x: "x = 0 \<or> dstart (fs_sb s) \<le> x \<and> x < sb_size (fs_sb s)"
    using I(5) by (auto simp: count_ok_def opt_def)
  have x32: "x < 4294967296" using x I(1) by (auto simp: lay_ok_def)
  have "moved s n sl x ?s \<and> blks_ok ?s \<and> ic_ok ?s \<and>
      (\<forall>b. sb_bmapstart (fs_sb s) \<le> b \<and> b < dstart (fs_sb s) \<longrightarrow> blk ?s b = blk s b)"
  proof (cases p)
    case (PAddr i)
    have i: "sl = Dir i" "i < 13" using at PAddr by auto
    have z': "i \<ge> 11 \<Longrightarrow> iaddrs s n ! i = 0 \<and> (x = 0 \<or> blk s x = zeros)" using z i by auto
    have "val ?s m k = (if m = n \<and> k = sl then x else val s m k)" if "(m, k) \<in> locs s" for m k
    proof -
      have "slot_ok k" using that by (simp add: locs_def)
      from val_set_addr [OF I(3) h i(2) this z'] show ?thesis by (simp add: PAddr i(1))
    qed
    moreover have "nfree ?s = nfree s" by (intro nfree_cong) (auto simp: PAddr bit_set_def)
    moreover have "blks_ok ?s" using I(2) by (simp add: PAddr blks_ok_def)
    ultimately show ?thesis using fr_set_addr ic_ok_set_addr [OF I(3)]
      by (simp add: PAddr moved_def)
  next
    case (PBlk c j)
    then obtain q where q: "c \<noteq> 0" "j < NADDR" "slot_ok q" "meta q" "val s n q = c" "sl = child q j"
      using at by auto
    have lq: "(n, q) \<in> locs s" using locsI [OF n q(3)] .
    have c: "dstart (fs_sb s) \<le> c" using val_bref(2) [OF inv lq] q by simp
    have xc: "x \<noteq> c"
    proof
      assume "x = c"
      then have "val s n q \<in># P + opt x" using q by (simp add: opt_def)
      with meta_unique(2) [OF inv lq q(4) _ lq refl] q show False by simp
    qed
    have s': "blk ?s = (blk s)(c := put32 (blk s c) (4 * j) x)" "fs_sb ?s = fs_sb s" "icache ?s = icache s" "bref ?s = bref s"
      by (simp_all add: PBlk wblk_def)
    have z': "val s n (Lvl j) = 0 \<and> x \<noteq> c \<and> (x = 0 \<or> blk s x = zeros)" if "q = Dir 12"
      using z q that xc by auto
    have v: "val ?s m k = (if m = n \<and> k = sl then x else val s m k)" if "(m, k) \<in> locs s" for m k
      using val_put [OF inv lq q(4,5,1,2) x32 z' s'(1,2,3) that] q(6) by simp
    have w: "wal s ?s" by (simp add: PBlk wblk_def wal_logw)
    have cb: "blk ?s b = blk s b" if "b < dstart (fs_sb s)" for b using that c by (simp add: s')
    have f: "fr s ?s" using w cb lay_order [OF I(1)] by (simp add: fr_def s')
    have "nfree ?s = nfree s"
      using BBLOCK_range [OF I(1)] cb by (intro nfree_cong bit_set_cong) (auto simp: s'(2))
    moreover have "blk ?s b = blk s b" if "isdata s b" for b
      using that lq q(4,5) by (auto simp: isdata_def s')
    moreover have "blks_ok ?s" using I(2) by (simp add: blks_ok_def s')
    moreover have "ic_ok ?s" using I(3) by (simp add: ic_ok_def s')
    ultimately show ?thesis using v f s' cb by (simp add: moved_def)
  qed
  then show m: "moved s n sl x ?s" by blast
  show "fs_inv (P + opt (val s n sl)) ?s"
  proof (rule fs_inv_slot [OF inv l])
    show "meta sl \<Longrightarrow> x \<noteq> 0 \<Longrightarrow> bref s x = 1" using z by auto
  qed (use m \<open>moved s n sl x ?s \<and> _\<close> in \<open>auto simp: moved_def fr_def\<close>)
qed

subsection \<open>Allocation at a pointer\<close>

definition alloced :: "nat multiset \<Rightarrow> fs \<Rightarrow> nat \<Rightarrow> slot \<Rightarrow> nat \<Rightarrow> fs \<Rightarrow> bool" where
  "alloced P s n sl a s' \<longleftrightarrow>
     fs_inv P s' \<and> fr s s' \<and> a \<noteq> 0 \<and>
     (\<forall>m k. (m, k) \<in> locs s \<longrightarrow> val s' m k = (if m = n \<and> k = sl then a else val s m k)) \<and>
     (\<forall>b. isdata s b \<and> bref s b > 0 \<and> dstart (fs_sb s) \<le> b \<longrightarrow> blk s' b = blk s b \<and> bref s' b = bref s b) \<and>
     (val s n sl \<noteq> 0 \<longrightarrow> s' = s) \<and>
     (val s n sl = 0 \<longrightarrow> blk s' a = zeros \<and> bref s a = 0 \<and> bref s' a = 1)"

lemma ptr_at_cong:
  assumes "\<And>k. slot_ok k \<Longrightarrow> val s' n k = val s n k" "ptr_at s n p sl"
  shows "ptr_at s' n p sl"
  using assms by (cases p) auto

lemma isdata_cong:
  assumes "isdata s b" "fs_sb s' = fs_sb s" "\<And>m k. (m, k) \<in> locs s \<Longrightarrow> val s' m k = val s m k"
  shows "isdata s' b"
  using assms locs_cong [OF assms(2)] by (auto simp: isdata_def)

lemma alloc_at_spec:
  assumes inv: "fs_inv P s" and h: "held s ip n" and at: "ptr_at s n p sl"
  shows "spec 1 s (alloc_at ip p) (\<lambda>a s'. alloced P s n sl a s')"
proof (cases "val s n sl = 0")
  case False
  have g: "ptr_get ip p s = val s n sl" by (rule ptr_get_val [OF fs_invD(3) [OF inv] h at])
  have "alloc_at ip p s = (BRet (val s n sl), s)" using False by (simp add: alloc_at_def g fret_def)
  moreover have "alloced P s n sl (val s n sl) s" using inv False by (simp add: alloced_def)
  ultimately show ?thesis by (simp add: spec_def)
next
  case True
  have n: "n \<in> inums s" using h by (simp add: held_def)
  have l: "(n, sl) \<in> locs s" using locsI [OF n ptr_at_ok [OF at]] .
  have g: "ptr_get ip p s = 0" using ptr_get_val [OF fs_invD(3) [OF inv] h at] True by simp
  have e: "alloc_at ip p s = bbind balloc (\<lambda>a s. fret a (ptr_set ip p a s)) s"
    by (simp add: alloc_at_def g)
  have "spec (1 + 0) s (bbind balloc (\<lambda>a s. fret a (ptr_set ip p a s))) (\<lambda>a s'. alloced P s n sl a s')"
  proof (rule spec_seq [OF balloc_spec [OF inv]])
    fix a s1 assume A: "grew s a s1 \<and> fs_inv (add_mset a P) s1"
    let ?s = "ptr_set ip p a s1"
    have G: "fr s s1" "icache s1 = icache s" "blk s1 a = zeros" "bref s a = 0" "bref s1 = (bref s)(a := 1)"
      "dstart (fs_sb s) \<le> a" "\<And>c. c \<noteq> a \<Longrightarrow> dstart (fs_sb s) \<le> c \<Longrightarrow> blk s1 c = blk s c"
      and v: "\<And>m k. (m, k) \<in> locs s \<Longrightarrow> val s1 m k = val s m k"
      using A by (auto simp: grew_def)
    have sb: "fs_sb s1 = fs_sb s" using fr_sb [OF G(1)] .
    have a0: "a \<noteq> 0" using G(6) lay_order [OF fs_invD(1) [OF inv]] by auto
    then have inv1: "fs_inv (P + opt a) s1" using A by (simp add: opt_def)
    have h1: "held s1 ip n" using fr_held [OF G(1) h] .
    have at1: "ptr_at s1 n p sl" by (rule ptr_at_cong [OF _ at]) (use v n locsI in blast)
    have z: "val s1 n sl = 0 \<and> (a = 0 \<or> blk s1 a = zeros \<and> bref s1 a = 1)" using v [OF l] True G by simp
    note M = ptr_set_moved [OF inv1 h1 at1 z]
    have fin: "fs_inv P ?s" using M(2) z by (simp add: opt_def)
    have f: "fr s ?s" using M(1) G(1) fr_trans by (auto simp: moved_def)
    have vs: "val ?s m k = (if m = n \<and> k = sl then a else val s m k)" if "(m, k) \<in> locs s" for m k
      using M(1) v [OF that] that locs_cong [OF sb] by (auto simp: moved_def)
    have d: "blk ?s b = blk s b \<and> bref ?s b = bref s b" if "isdata s b \<and> bref s b > 0 \<and> dstart (fs_sb s) \<le> b" for b
    proof -
      have "isdata s1 b" using isdata_cong [OF _ sb v] that by blast
      then have "blk ?s b = blk s1 b" "bref ?s = bref s1" using M(1) by (auto simp: moved_def)
      moreover have "b \<noteq> a" using that G(4) by auto
      ultimately show ?thesis using that G(5,7) by simp
    qed
    have "isdata s1 a" using held_isdata [OF inv1 _ a0] a0 by (simp add: opt_def)
    then have "blk ?s a = zeros" "bref ?s a = 1" using M(1) G(3,5) by (auto simp: moved_def)
    with fin f a0 vs d True G(4) have "alloced P s n sl a ?s" by (simp add: alloced_def)
    moreover have "nfree ?s = nfree s1" using M(1) by (simp add: moved_def)
    ultimately show "spec 0 s1 (\<lambda>s. fret a (ptr_set ip p a s)) (\<lambda>a s'. alloced P s n sl a s')"
      by (simp add: spec_def fret_def)
  qed
  then show ?thesis by (simp add: spec_def e)
qed

text \<open>No file's contents change when a slot that was empty gets a zeroed block.\<close>

definition eq_dat :: "fs \<Rightarrow> fs \<Rightarrow> bool" where
  "eq_dat s s' \<longleftrightarrow> (\<forall>m k. m \<in> inums s \<and> k < MAXFILE \<longrightarrow> dat s' m k = dat s m k)"

lemma eq_dat_refl [simp]: "eq_dat s s"
  by (simp add: eq_dat_def)

lemma eq_dat_trans: "eq_dat s s' \<Longrightarrow> eq_dat s' s'' \<Longrightarrow> fs_sb s' = fs_sb s \<Longrightarrow> eq_dat s s''"
  by (simp add: eq_dat_def inums_def)

lemma dat_cong:
  assumes "val s' m (dslot k) = val s m (dslot k)"
    "val s m (dslot k) \<noteq> 0 \<Longrightarrow> blk s' (val s m (dslot k)) = blk s (val s m (dslot k))"
  shows "dat s' m k = dat s m k"
  using assms by (simp add: dat_def Let_def)

lemma alloced_dat:
  assumes inv: "fs_inv P s" and A: "alloced Q s n sl a s'"
  shows "eq_dat s s'"
  unfolding eq_dat_def
proof (intro allI impI)
  fix m k assume mk: "m \<in> inums s \<and> k < MAXFILE"
  have l: "(m, dslot k) \<in> locs s" "\<not> meta (dslot k)" using mk dslot_ok [of k] by (auto intro: locsI)
  have v: "val s' m (dslot k) = (if m = n \<and> dslot k = sl then a else val s m (dslot k))"
    using A l(1) by (simp add: alloced_def)
  show "dat s' m k = dat s m k"
  proof (cases "m = n \<and> dslot k = sl \<and> val s n sl = 0")
    case True
    then show ?thesis using v A by (simp add: dat_def alloced_def)
  next
    case False
    show ?thesis
    proof (cases "m = n \<and> dslot k = sl")
      case True
      with False A have "s' = s" by (auto simp: alloced_def)
      then show ?thesis by simp
    next
      case False
      show ?thesis
      proof (rule dat_cong)
        show "val s' m (dslot k) = val s m (dslot k)" using v False by auto
        assume nz: "val s m (dslot k) \<noteq> 0"
        show "blk s' (val s m (dslot k)) = blk s (val s m (dslot k))"
          using A data_isdata [OF inv l nz] val_bref [OF inv l(1) nz] by (simp add: alloced_def)
      qed
    qed
  qed
qed

subsection \<open>Writing a data block\<close>

lemma wblk_sel [simp]:
  "blk (wblk b d s) = (blk s)(b := d)" "fs_sb (wblk b d s) = fs_sb s" "bref (wblk b d s) = bref s"
  "icache (wblk b d s) = icache s" "hint (wblk b d s) = hint s" "logged (wblk b d s) = logged s"
  by (simp_all add: wblk_def)

lemma wdata_run:
  assumes inv: "fs_inv P s" and b: "isdata s b" "dstart (fs_sb s) \<le> b" "length d = BSIZE"
  shows "fs_inv P (logw b (wblk b d s))" "fr s (logw b (wblk b d s))" "nfree (logw b (wblk b d s)) = nfree s"
    "\<And>m k. (m, k) \<in> locs s \<Longrightarrow> val (logw b (wblk b d s)) m k = val s m k"
proof -
  note I = fs_invD [OF inv]
  let ?s = "logw b (wblk b d s)"
  have s': "fs_sb ?s = fs_sb s" "icache ?s = icache s" "bref ?s = bref s" "blk ?s = (blk s)(b := d)"
    by (simp_all add: wblk_def)
  have bm: "blk ?s c = blk s c" if "c < dstart (fs_sb s)" for c using that b(2) by (simp add: s')
  show f: "fr s ?s"
    using bm lay_order [OF I(1)] wal_logw [of s b d] by (simp add: fr_def s' wblk_def)
  show v: "val ?s m k = val s m k" if l: "(m, k) \<in> locs s" for m k
  proof (rule val_cong)
    have m: "m \<in> inums s" "slot_ok k" using l by (auto simp: locs_def)
    show "slot_ok k" by (rule m)
    show "iaddrs ?s m = iaddrs s m"
      using inum_IBLOCK [OF I(1) m(1)] lay_order [OF I(1)] bm by (intro iaddrs_cong) (auto simp: s'(1,2))
    fix q assume "slot_ok q" "meta q" "val s m q \<noteq> 0"
    then have "val s m q \<noteq> b" using b(1) locsI [OF m(1)] by (auto simp: isdata_def)
    then show "blk ?s (val s m q) = blk s (val s m q)" by (simp add: s')
  qed
  have bs: "bit_set ?s y = bit_set s y" if "y < sb_size (fs_sb s)" for y
    using BBLOCK_range [OF I(1) that] bm s'(1) by (intro bit_set_cong) auto
  show "nfree ?s = nfree s" by (rule nfree_cong [OF s'(1) bs])
  show "fs_inv P ?s"
  proof (rule fs_inv_bref [OF inv s'(1,2) _ v])
    show "blks_ok ?s" using I(2) b(3) by (simp add: blks_ok_def s')
    show "\<forall>b \<in># P. dstart (fs_sb s) \<le> b \<and> b < sb_size (fs_sb s)" using I(5) by (simp add: count_ok_def)
    show "val s n sl \<notin># P" if "(n, sl) \<in> locs s" "meta sl" "val s n sl \<noteq> 0" for n sl
      using meta_unique(2) [OF inv that that(1) refl] .
    show "bit_set ?s y \<longleftrightarrow> y < dstart (fs_sb s) \<or> bref ?s y > 0" if "y < sb_size (fs_sb s)" for y
      using bs [OF that] bmp_okD [OF I(7) that] by (simp add: s')
  qed (simp_all add: s')
qed

subsection \<open>Mapping a block\<close>

text \<open>\<open>quiet P s s'\<close>: only blocks of block numbers were added; data blocks, the slots that hold them and their counts are as before.\<close>

definition quiet :: "nat multiset \<Rightarrow> fs \<Rightarrow> fs \<Rightarrow> bool" where
  "quiet P s s' \<longleftrightarrow>
     fs_inv P s' \<and> fr s s' \<and>
     (\<forall>m k. (m, k) \<in> locs s \<and> \<not> meta k \<longrightarrow> val s' m k = val s m k) \<and>
     (\<forall>b. isdata s b \<and> bref s b > 0 \<and> dstart (fs_sb s) \<le> b \<longrightarrow>
        isdata s' b \<and> blk s' b = blk s b \<and> bref s' b = bref s b)"

lemma quiet_refl: "fs_inv P s \<Longrightarrow> quiet P s s"
  by (simp add: quiet_def)

lemma quiet_trans:
  assumes "quiet P s s'" "quiet Q s' s''"
  shows "quiet Q s s''"
proof -
  have sb: "fs_sb s' = fs_sb s" using assms(1) fr_sb by (auto simp: quiet_def)
  note L = locs_cong [OF sb]
  have "fr s s''" using assms fr_trans by (auto simp: quiet_def)
  moreover have "val s'' m k = val s m k" if "(m, k) \<in> locs s" "\<not> meta k" for m k
    using assms that by (simp add: quiet_def L)
  moreover have "isdata s'' b \<and> blk s'' b = blk s b \<and> bref s'' b = bref s b"
    if "isdata s b" "bref s b > 0" "dstart (fs_sb s) \<le> b" for b
  proof -
    have "isdata s' b \<and> blk s' b = blk s b \<and> bref s' b = bref s b" using assms(1) that by (simp add: quiet_def)
    with assms(2) that(2,3) sb show ?thesis by (simp add: quiet_def)
  qed
  ultimately show ?thesis using assms(2) by (simp add: quiet_def)
qed

lemma alloced_quiet:
  assumes inv: "fs_inv P s" and A: "alloced Q s n sl a s'" and m: "meta sl"
  shows "quiet Q s s'"
proof -
  have v: "val s' m k = (if m = n \<and> k = sl then a else val s m k)" if "(m, k) \<in> locs s" for m k
    using A that by (simp add: alloced_def)
  have sb: "fs_sb s' = fs_sb s" using A fr_sb by (auto simp: alloced_def)
  have "isdata s' b" if b: "isdata s b" "bref s b > 0" for b
    unfolding isdata_def
  proof (intro allI impI notI)
    fix m k assume mk: "(m, k) \<in> locs s' \<and> meta k" "val s' m k = b"
    then have l: "(m, k) \<in> locs s" using locs_cong [OF sb] by simp
    show False
    proof (cases "m = n \<and> k = sl")
      case True
      then have "a = b" using v [OF l] mk by simp
      then show False using A b l mk True by (cases "val s n sl = 0") (auto simp: alloced_def isdata_def)
    next
      case False
      then have "val s m k = b" using v [OF l] mk by auto
      then show False using b(1) l mk by (auto simp: isdata_def)
    qed
  qed
  then show ?thesis using A v m by (auto simp: quiet_def alloced_def)
qed

lemma quiet_dat:
  assumes inv: "fs_inv P s" and q: "quiet Q s s'"
  shows "eq_dat s s'"
  unfolding eq_dat_def
proof (intro allI impI)
  fix m k assume mk: "m \<in> inums s \<and> k < MAXFILE"
  have l: "(m, dslot k) \<in> locs s" "\<not> meta (dslot k)" using mk dslot_ok [of k] by (auto intro: locsI)
  show "dat s' m k = dat s m k"
  proof (rule dat_cong)
    show "val s' m (dslot k) = val s m (dslot k)" using q l by (simp add: quiet_def)
    assume nz: "val s m (dslot k) \<noteq> 0"
    show "blk s' (val s m (dslot k)) = blk s (val s m (dslot k))"
      using q data_isdata [OF inv l nz] val_bref [OF inv l(1) nz] by (simp add: quiet_def)
  qed
qed

lemma ptr_at_meta_cong:
  assumes "\<And>k. slot_ok k \<Longrightarrow> meta k \<Longrightarrow> val s' n k = val s n k" "ptr_at s n p sl"
  shows "ptr_at s' n p sl"
  using assms by (cases p) auto

lemma alloced_val:
  assumes "alloced P s n sl a s'" "(n, sl) \<in> locs s"
  shows "val s' n sl = a" "a \<noteq> 0"
proof -
  have "\<forall>m k. (m, k) \<in> locs s \<longrightarrow> val s' m k = (if m = n \<and> k = sl then a else val s m k)"
    using assms(1) by (simp add: alloced_def)
  with assms(2) show "val s' n sl = a" by metis
  show "a \<noteq> 0" using assms(1) by (simp add: alloced_def)
qed

lemma bmap_ptr_spec:
  assumes inv: "fs_inv P s" and h: "held s ip n" and bn: "bn < MAXFILE"
  shows "spec 2 s (bmap_ptr ip bn) (\<lambda>p s'. quiet P s s' \<and> ptr_at s' n p (dslot bn))"
proof -
  let ?Q = "\<lambda>p s'. quiet P s s' \<and> ptr_at s' n p (dslot bn)"
  have n: "n \<in> inums s" using h by (simp add: held_def)
  consider "bn < NDIRECT" | "\<not> bn < NDIRECT" "bn - NDIRECT < NADDR"
    | "\<not> bn < NDIRECT" "\<not> bn - NDIRECT < NADDR" "bn - NDIRECT - NADDR < NDINDIRECT"
    using bn by linarith
  then show ?thesis
  proof cases
    case 1
    then show ?thesis using quiet_refl [OF inv]
      by (simp add: bmap_ptr_def spec_ret dslot_def)
  next
    case 2
    have "spec (1 + 1) s (bbind (alloc_at ip (PAddr NDIRECT)) (\<lambda>c. fret (PBlk c (bn - NDIRECT)))) ?Q"
    proof (rule spec_seq [OF alloc_at_spec [OF inv h, where sl = "Dir 11"]])
      show "ptr_at s n (PAddr NDIRECT) (Dir 11)" by simp
      fix c s' assume A: "alloced P s n (Dir 11) c s'"
      have q: "quiet P s s'" using alloced_quiet [OF inv A] by simp
      have v: "val s' n (Dir 11) = c" "c \<noteq> 0" using alloced_val [OF A locsI [OF n, of "Dir 11"]] by simp_all
      have "ptr_at s' n (PBlk c (bn - NDIRECT)) (dslot bn)"
        unfolding ptr_at.simps
      proof (intro conjI exI)
        show "val s' n (Dir 11) = c" by (rule v)
        show "dslot bn = child (Dir 11) (bn - NDIRECT)" using 2 by (simp add: dslot_def)
      qed (use 2 v in auto)
      with q show "spec 1 s' (fret (PBlk c (bn - NDIRECT))) ?Q" by (simp add: spec_ret)
    qed
    then show ?thesis using 2 by (simp add: bmap_ptr_def numeral_2_eq_2)
  next
    case 3
    let ?i = "(bn - NDIRECT - NADDR) div NADDR" and ?j = "(bn - NDIRECT - NADDR) mod NADDR"
    have ij: "?i < NADDR" "?j < NADDR" using 3 by auto
    have "spec (1 + (1 + 0)) s (bbind (alloc_at ip (PAddr (NDIRECT + 1))) (\<lambda>c.
        bbind (alloc_at ip (PBlk c ?i)) (\<lambda>c1. fret (PBlk c1 ?j)))) ?Q"
    proof (rule spec_seq [OF alloc_at_spec [OF inv h, where sl = "Dir 12"]])
      show "ptr_at s n (PAddr (NDIRECT + 1)) (Dir 12)" by simp
      fix c s' assume A: "alloced P s n (Dir 12) c s'"
      have q: "quiet P s s'" using alloced_quiet [OF inv A] by simp
      have v: "val s' n (Dir 12) = c" "c \<noteq> 0" using alloced_val [OF A locsI [OF n, of "Dir 12"]] by simp_all
      have inv': "fs_inv P s'" "fr s s'" using q by (auto simp: quiet_def)
      have h': "held s' ip n" using fr_held [OF inv'(2) h] .
      have n': "n \<in> inums s'" using h' by (simp add: held_def)
      have at: "ptr_at s' n (PBlk c ?i) (Lvl ?i)"
        unfolding ptr_at.simps
      proof (intro conjI exI)
        show "val s' n (Dir 12) = c" by (rule v)
      qed (use ij v in auto)
      show "spec (1 + 0) s' (bbind (alloc_at ip (PBlk c ?i)) (\<lambda>c1. fret (PBlk c1 ?j))) ?Q"
      proof (rule spec_seq [OF alloc_at_spec [OF inv'(1) h' at]])
        fix c1 s'' assume A': "alloced P s' n (Lvl ?i) c1 s''"
        have q': "quiet P s' s''" using alloced_quiet [OF inv'(1) A'] by simp
        have v': "val s'' n (Lvl ?i) = c1" "c1 \<noteq> 0"
          using alloced_val [OF A' locsI [OF n', of "Lvl ?i"]] ij by simp_all
        have "ptr_at s'' n (PBlk c1 ?j) (dslot bn)"
          unfolding ptr_at.simps
        proof (intro conjI exI)
          show "val s'' n (Lvl ?i) = c1" by (rule v')
          show "dslot bn = child (Lvl ?i) ?j" using 3 by (simp add: dslot_def)
        qed (use ij v' in auto)
        with quiet_trans [OF q q'] show "spec 0 s'' (fret (PBlk c1 ?j)) ?Q" by (simp add: spec_ret)
      qed
    qed
    then show ?thesis using 3 by (simp add: bmap_ptr_def numeral_2_eq_2)
  qed
qed

text \<open>
  \<open>mapped\<close>: the block \<open>a\<close> now holds the data of block \<open>bn\<close> of file \<open>n\<close>, alone if it is to be
  written; no contents changed.
\<close>

definition mapped :: "nat multiset \<Rightarrow> fs \<Rightarrow> nat \<Rightarrow> nat \<Rightarrow> bool \<Rightarrow> nat \<Rightarrow> fs \<Rightarrow> bool" where
  "mapped P s n bn w a s' \<longleftrightarrow>
     fs_inv P s' \<and> fr s s' \<and> eq_dat s s' \<and> val s' n (dslot bn) = a \<and> a \<noteq> 0 \<and> (w \<longrightarrow> bref s' a = 1)"

lemma bmap_cow_spec:
  assumes inv: "fs_inv P s" and P: "size P < 999999" and h: "held s ip n" and bn: "bn < MAXFILE"
    and at: "ptr_at s n p (dslot bn)" and a: "val s n (dslot bn) = a" "a \<noteq> 0"
  shows "spec 1 s (bmap_cow ip p a) (\<lambda>b s'. mapped P s n bn True b s')"
proof -
  let ?sl = "dslot bn"
  have n: "n \<in> inums s" using h by (simp add: held_def)
  have l: "(n, ?sl) \<in> locs s" "\<not> meta ?sl" using dslot_ok [OF bn] n by (auto intro: locsI)
  have ar: "bref s a > 0" "dstart (fs_sb s) \<le> a" "a < sb_size (fs_sb s)"
    using val_bref [OF inv l(1)] a by auto
  have ad: "isdata s a" using data_isdata [OF inv l] a by simp
  have get: "bref_get a s = (BRet (bref s a), s)" using ar by (simp add: bref_get_def fret_def)
  show ?thesis
  proof (cases "bref s a > 1")
    case False
    then have "bref s a = 1" using ar by simp
    then have "mapped P s n bn True a s" using inv a by (simp add: mapped_def)
    moreover have "bmap_cow ip p a s = (BRet a, s)" using False by (simp add: bmap_cow_def bbind_def get fret_def)
    ultimately show ?thesis by (simp add: spec_def)
  next
    case True
    let ?k = "\<lambda>newb s. bbind (bfree a) (\<lambda>_. fret newb) (ptr_set ip p newb (logw newb (wblk newb (blk s a) s)))"
    have "spec (1 + 0) s (bbind balloc ?k) (\<lambda>b s'. mapped P s n bn True b s')"
    proof (rule spec_seq [OF balloc_spec [OF inv]])
      fix b s1 assume A: "grew s b s1 \<and> fs_inv (add_mset b P) s1"
      have G: "fr s s1" "bref s b = 0" "bref s1 = (bref s)(b := 1)" "dstart (fs_sb s) \<le> b" "b < sb_size (fs_sb s)"
        "\<And>c. c \<noteq> b \<Longrightarrow> dstart (fs_sb s) \<le> c \<Longrightarrow> blk s1 c = blk s c"
        and v1: "\<And>m k. (m, k) \<in> locs s \<Longrightarrow> val s1 m k = val s m k"
        using A by (auto simp: grew_def)
      have sb1: "fs_sb s1 = fs_sb s" using fr_sb [OF G(1)] .
      have b0: "b \<noteq> 0" using G(4) lay_order [OF fs_invD(1) [OF inv]] by auto
      have ab: "a \<noteq> b" using ar G(2) by auto
      have inv1: "fs_inv (P + opt b) s1" using A b0 by (simp add: opt_def)
      let ?s2 = "logw b (wblk b (blk s1 a) s1)"
      have bd: "isdata s1 b" using held_isdata [OF inv1 _ b0] b0 by (simp add: opt_def)
      have len: "length (blk s1 a) = BSIZE" using fs_invD(2) [OF inv1] by (simp add: blks_ok_def)
      note W = wdata_run [OF inv1 bd _ len, unfolded sb1, OF G(4)]
      have v2: "val ?s2 m k = val s m k" if "(m, k) \<in> locs s" for m k
        using W(4) v1 that locs_cong [OF sb1] by simp
      have h2: "held ?s2 ip n" using fr_held [OF W(2) fr_held [OF G(1) h]] .
      have at2: "ptr_at ?s2 n p ?sl" by (rule ptr_at_cong [OF _ at]) (use v2 n locsI in blast)
      note M = ptr_set_moved [OF W(1) h2 at2]
      let ?s3 = "ptr_set ip p b ?s2"
      have m3: "moved ?s2 n ?sl b ?s3" using M(1) l(2) by blast
      have "fs_inv (P + opt a) ?s3" using M(2) l(2) v2 [OF l(1)] a(1) by simp
      then have inv3: "fs_inv (add_mset a P) ?s3" using a(2) by (simp add: opt_def)
      have sb3: "fs_sb ?s3 = fs_sb s" using m3 sb1 by (simp add: moved_def fr_def)
      have f3: "fr s ?s3" using fr_trans [OF G(1) fr_trans [OF W(2)]] m3 by (simp add: moved_def)
      have L2: "locs ?s2 = locs s" by (rule locs_cong) (simp add: sb1)
      have v3: "val ?s3 m k = (if m = n \<and> k = ?sl then b else val s m k)" if "(m, k) \<in> locs s" for m k
        using m3 that v2 by (simp add: moved_def L2)
      have d3: "blk ?s3 c = blk s c" if "isdata s c" "dstart (fs_sb s) \<le> c" "c \<noteq> b" for c
      proof -
        have "isdata ?s2 c" by (rule isdata_cong [OF that(1)]) (use v2 sb1 in auto)
        then have "blk ?s3 c = blk ?s2 c" using m3 by (simp add: moved_def)
        also have "\<dots> = blk s c" using that G(6) by simp
        finally show ?thesis .
      qed
      have db: "isdata ?s2 b" by (rule isdata_cong [OF bd]) (use W(4) in auto)
      then have b3: "blk ?s3 b = blk s a" using m3 ab G(6) ar by (simp add: moved_def)
      have nf: "nfree ?s3 = nfree s1" using m3 W(3) by (simp add: moved_def)
      have bf: "spec (0 + 0) ?s3 (bbind (bfree a) (\<lambda>_. fret b)) (\<lambda>b' s'. mapped P s n bn True b' s')"
      proof (rule spec_seq [OF bfree_spec [OF inv3]])
        show "size P < 1000000" using P by simp
        fix u s4 assume S: "shrank ?s3 a s4 \<and> fs_inv P s4"
        have v4: "val s4 m k = (if m = n \<and> k = ?sl then b else val s m k)" if "(m, k) \<in> locs s" for m k
          using S v3 that locs_cong [OF sb3] by (simp add: shrank_def)
        have k4: "blk s4 c = blk ?s3 c" if "dstart (fs_sb s) \<le> c" for c
          using S that sb3 by (simp add: shrank_def)
        have b4: "blk s4 b = blk s a" using k4 G(4) b3 by simp
        have f4: "fr s s4" using S f3 fr_trans by (auto simp: shrank_def)
        have r4: "bref s4 b = 1" using S m3 ab G(3) by (simp add: shrank_def moved_def)
        have "dat s4 m k = dat s m k" if mk: "m \<in> inums s" "k < MAXFILE" for m k
        proof -
          have lk: "(m, dslot k) \<in> locs s" "\<not> meta (dslot k)" using mk dslot_ok [of k] by (auto intro: locsI)
          show ?thesis
          proof (cases "m = n \<and> dslot k = ?sl")
            case True
            then show ?thesis using v4 [OF lk(1)] b4 b0 a by (simp add: dat_def)
          next
            case False
            show ?thesis
            proof (rule dat_cong)
              show "val s4 m (dslot k) = val s m (dslot k)" using v4 [OF lk(1)] False by auto
              assume nz: "val s m (dslot k) \<noteq> 0"
              have r: "bref s (val s m (dslot k)) > 0" "dstart (fs_sb s) \<le> val s m (dslot k)"
                using val_bref [OF inv lk(1) nz] by auto
              then have "val s m (dslot k) \<noteq> b" using G(2) by auto
              then show "blk s4 (val s m (dslot k)) = blk s (val s m (dslot k))"
                using k4 [OF r(2)] d3 [OF data_isdata [OF inv lk nz] r(2)] by simp
            qed
          qed
        qed
        then have "eq_dat s s4" by (simp add: eq_dat_def)
        with S f4 v4 [OF l(1)] b0 r4 have "mapped P s n bn True b s4" by (simp add: mapped_def)
        then show "spec 0 s4 (fret b) (\<lambda>b' s'. mapped P s n bn True b' s')" by (simp add: spec_ret)
      qed
      show "spec 0 s1 (?k b) (\<lambda>b s'. mapped P s n bn True b s')"
        by (rule spec_conv [OF _ nf]) (use bf in simp_all)
    qed
    then show ?thesis using True by (simp add: spec_def bmap_cow_def bbind_def get)
  qed
qed

lemma bmap_tail_spec:
  assumes inv: "fs_inv P s" and P: "size P < 999999" and h: "held s ip n" and bn: "bn < MAXFILE"
    and at: "ptr_at s n p (dslot bn)"
  shows "spec 1 s (bbind (alloc_at ip p) (\<lambda>addr. if w \<and> addr \<noteq> 0 then bmap_cow ip p addr else fret addr))
    (\<lambda>b s'. mapped P s n bn w b s')"
proof -
  let ?sl = "dslot bn" and ?k = "\<lambda>addr. if w \<and> addr \<noteq> 0 then bmap_cow ip p addr else fret addr"
  have n: "n \<in> inums s" using h by (simp add: held_def)
  have l: "(n, ?sl) \<in> locs s" "\<not> meta ?sl" using dslot_ok [OF bn] n by (auto intro: locsI)
  show ?thesis
  proof (cases "val s n ?sl = 0")
    case False
    have run: "alloc_at ip p s = (BRet (val s n ?sl), s)"
      using ptr_get_val [OF fs_invD(3) [OF inv] h at] False by (simp add: alloc_at_def fret_def)
    have "spec 1 s (?k (val s n ?sl)) (\<lambda>b s'. mapped P s n bn w b s')"
    proof (cases w)
      case True
      then show ?thesis using bmap_cow_spec [OF inv P h bn at refl False] False by simp
    next
      case w: False
      then show ?thesis using inv False by (simp add: mapped_def spec_ret)
    qed
    then show ?thesis by (simp add: spec_def bbind_def run)
  next
    case True
    have "spec (1 + 0) s (bbind (alloc_at ip p) ?k) (\<lambda>b s'. mapped P s n bn w b s')"
    proof (rule spec_seq [OF alloc_at_spec [OF inv h at]])
      fix a s1 assume A: "alloced P s n ?sl a s1"
      have r: "bref s1 a = 1" "fs_inv P s1" "fr s s1" using A True by (auto simp: alloced_def)
      note v = alloced_val [OF A l(1)]
      have n1: "n \<in> inums s1" using n fr_sb [OF r(3)] by (simp add: inums_def)
      have "a < sb_size (fs_sb s1)"
        using val_bref(3) [OF r(2) locsI [OF n1], of ?sl] v dslot_ok [OF bn] by simp
      then have "?k a s1 = (BRet a, s1)" using r(1) by (simp add: bmap_cow_def bbind_def bref_get_def fret_def)
      moreover have "mapped P s n bn w a s1"
        using r v alloced_dat [OF inv A] by (simp add: mapped_def)
      ultimately show "spec 0 s1 (?k a) (\<lambda>b s'. mapped P s n bn w b s')" by (simp add: spec_def)
    qed
    then show ?thesis by simp
  qed
qed

lemma bmap_spec:
  assumes inv: "fs_inv P s" and P: "size P < 999999" and h: "held s ip n" and bn: "bn < MAXFILE"
  shows "spec 3 s (bmap ip bn w) (\<lambda>b s'. mapped P s n bn w b s')"
proof -
  have "spec (2 + 1) s (bmap ip bn w) (\<lambda>b s'. mapped P s n bn w b s')"
    unfolding bmap_def
  proof (rule spec_seq [OF bmap_ptr_spec [OF inv h bn]])
    fix p s1 assume A: "quiet P s s1 \<and> ptr_at s1 n p (dslot bn)"
    then have q: "fs_inv P s1" "fr s s1" "eq_dat s s1" using quiet_dat [OF inv] by (auto simp: quiet_def)
    show "spec 1 s1 (bbind (alloc_at ip p) (\<lambda>addr. if w \<and> addr \<noteq> 0 then bmap_cow ip p addr else fret addr))
        (\<lambda>b s'. mapped P s n bn w b s')"
    proof (rule spec_mono [OF bmap_tail_spec [OF q(1) P fr_held [OF q(2) h] bn]])
      fix b s' assume "mapped P s1 n bn w b s'"
      then show "mapped P s n bn w b s'"
        using q fr_trans eq_dat_trans [OF q(3) _ fr_sb [OF q(2)]] by (auto simp: mapped_def)
    qed (use A in auto)
  qed
  then show ?thesis by simp
qed

lemma bmap_nalloc_val:
  assumes "ic_ok s" "held s ip n"
  shows "bmap_nalloc ip bn s = (if bn < MAXFILE then val s n (dslot bn) else 0)"
  using iaddrs_held(1) [OF assms] by (auto simp: bmap_nalloc_def Let_def dslot_def via_def)

end
