(* ===== verification/Inode.thy ===== *)
theory Inode
  imports Bmap
begin

section \<open>Inode contents\<close>

text \<open>
  \<^verbatim>\<open>kernel/filesystem/fs.c\<close>, the file layer: writing an inode to disk, reading and writing its
  contents, truncation, preallocation, hole punching, cloning with shared blocks and
  deduplication. An inode pointer is an index of the inode cache. The transfers to and from user
  or kernel memory (\<^verbatim>\<open>either_copyout\<close>, \<^verbatim>\<open>either_copyin\<close>) are parameters of \<^verbatim>\<open>readi\<close> and
  \<^verbatim>\<open>writei\<close>: whether the transfer of a piece succeeds, and the bytes that arrive.
\<close>

subsection \<open>The on-disk inode\<close>

definition put16 :: "block \<Rightarrow> nat \<Rightarrow> nat \<Rightarrow> block" where
  "put16 b off x = b[off := x mod 256, off + 1 := x div 256 mod 256]"

definition get16 :: "block \<Rightarrow> nat \<Rightarrow> nat" where
  "get16 b off = b ! off + 256 * b ! (off + 1)"

definition u16 :: "int \<Rightarrow> nat" where
  "u16 x = nat (x mod 65536)"

definition i16 :: "nat \<Rightarrow> int" where
  "i16 x = (int x + 32768) mod 65536 - 32768"

definition din_put :: "block \<Rightarrow> nat \<Rightarrow> inode \<Rightarrow> block" where
  "din_put b n e =
     (let o' = 64 * (n mod IPB);
          b = b[o' + 1 := i_type e mod 256];
          b = put16 b (o' + 2) (u16 (i_major e));
          b = put16 b (o' + 4) (u16 (i_minor e));
          b = put16 b (o' + 6) (u16 (i_nlink e));
          b = put32 b (o' + 8) (i_size e);
          b = b[o' := i_mode e mod 256]
      in fold (\<lambda>i b. put32 b (o' + 12 + 4 * i) (i_addrs e ! i)) [0..<NDIRECT + 2] b)"

definition din_get :: "block \<Rightarrow> nat \<Rightarrow> inode \<Rightarrow> inode" where
  "din_get b n e =
     (let o' = 64 * (n mod IPB) in
      e\<lparr>i_type := b ! (o' + 1), i_major := i16 (get16 b (o' + 2)), i_minor := i16 (get16 b (o' + 4)),
        i_nlink := i16 (get16 b (o' + 6)), i_size := get32 b (o' + 8), i_mode := b ! o',
        i_addrs := din_addrs b n\<rparr>)"

definition iupdate :: "nat \<Rightarrow> fs \<Rightarrow> fs" where
  "iupdate ip s =
     (let e = icache s ! ip; b = IBLOCK (i_inum e) (fs_sb s)
      in logw b (wblk b (din_put (blk s b) (i_inum e) e) s))"

definition upd_inode :: "nat \<Rightarrow> (inode \<Rightarrow> inode) \<Rightarrow> fs \<Rightarrow> fs" where
  "upd_inode ip f s = s\<lparr>icache := upd_at (icache s) ip f\<rparr>"

record stat =
  st_dev :: nat
  st_ino :: nat
  st_type :: nat
  st_mode :: nat
  st_nlink :: int
  st_size :: nat

definition stati :: "nat \<Rightarrow> fs \<Rightarrow> stat" where
  "stati ip s =
     (let e = icache s ! ip in
      \<lparr>st_dev = i_dev e, st_ino = i_inum e, st_type = i_type e, st_mode = i_mode e, st_nlink = i_nlink e,
       st_size = i_size e\<rparr>)"

subsection \<open>Reading and writing\<close>

function readi_loop :: "fs \<Rightarrow> nat \<Rightarrow> (nat \<Rightarrow> nat \<Rightarrow> bool) \<Rightarrow> nat \<Rightarrow> nat \<Rightarrow> nat \<Rightarrow> nat \<times> block" where
  "readi_loop s ip ok n tot off =
     (if tot < n then
        (let blkaddr = bmap_nalloc ip (off div BSIZE) s;
             m = min (n - tot) (BSIZE - off mod BSIZE);
             src = (if blkaddr = 0 then zeros else blk s blkaddr)
         in if \<not> ok tot m then (tot, [])
            else
              (let (t, bs) = readi_loop s ip ok n (tot + m) (off + m)
               in (t, take m (drop (off mod BSIZE) src) @ bs)))
      else (tot, []))"
  by auto
termination by (relation "measure (\<lambda>(s, ip, ok, n, tot, off). n - tot)") auto

definition readi :: "nat \<Rightarrow> (nat \<Rightarrow> nat \<Rightarrow> bool) \<Rightarrow> nat \<Rightarrow> nat \<Rightarrow> fs \<Rightarrow> nat \<times> block" where
  "readi ip ok off n s =
     (let size = i_size (icache s ! ip) in
      if off > size \<or> (off + n) mod 4294967296 < off then (0, [])
      else readi_loop s ip ok (if (off + n) mod 4294967296 > size then size - off else n) 0 off)"

function writei_loop :: "nat \<Rightarrow> (nat \<Rightarrow> nat \<Rightarrow> bool \<times> block) \<Rightarrow> nat \<Rightarrow> nat \<Rightarrow> nat \<Rightarrow> nat fop" where
  "writei_loop ip cin n tot off =
     (if tot < n then
        bbind (bmap ip (off div BSIZE) True) (\<lambda>a s.
          (let m = min (n - tot) (BSIZE - off mod BSIZE);
               (ok, bs) = cin tot m;
               d = blk s a;
               s = wblk a (take (off mod BSIZE) d @ bs @ drop (off mod BSIZE + length bs) d) s
           in if \<not> ok then fret off s
              else writei_loop ip cin n (tot + m) (off + m) (logw a s)))
      else fret off)"
  by auto
termination by (relation "measure (\<lambda>(ip, cin, n, tot, off). n - tot)") auto

declare readi_loop.simps [simp del] writei_loop.simps [simp del]

definition writei :: "nat \<Rightarrow> (nat \<Rightarrow> nat \<Rightarrow> bool \<times> block) \<Rightarrow> nat \<Rightarrow> nat \<Rightarrow> int fop" where
  "writei ip cin off n s =
     (if off > i_size (icache s ! ip) \<or> (off + n) mod 4294967296 < off then fret (- 1) s
      else if (off + n) mod 4294967296 > MAXFILE * BSIZE then fret (- 1) s
      else
        bbind (writei_loop ip cin n 0 off) (\<lambda>off s.
          if n > 0 then
            fret (i32 (int n)) (iupdate ip
              (if off > i_size (icache s ! ip) then upd_inode ip (\<lambda>e. e\<lparr>i_size := off\<rparr>) s else s))
          else fret (i32 (int n)) s) s)"

subsection \<open>Truncation, preallocation and holes\<close>

definition ffor :: "(nat \<Rightarrow> unit fop) \<Rightarrow> nat list \<Rightarrow> unit fop" where
  "ffor body ks = foldr (\<lambda>k rest. bbind (body k) (\<lambda>_. rest)) ks (fret ())"

definition free_addr :: "nat \<Rightarrow> nat \<Rightarrow> unit fop" where
  "free_addr ip i s =
     (let a = i_addrs (icache s ! ip) ! i in
      if a \<noteq> 0 then bbind (bfree a) (\<lambda>_ s. fret () (set_addr ip i 0 s)) s else fret () s)"

definition free_words :: "nat \<Rightarrow> unit fop" where
  "free_words c =
     ffor (\<lambda>j s. let a = addr_word (blk s c) j in if a \<noteq> 0 then bfree a s else fret () s) [0..<NADDR]"

definition free_indirect_block :: "nat \<Rightarrow> unit fop" where
  "free_indirect_block c = (if c = 0 then fret () else bbind (free_words c) (\<lambda>_. bfree c))"

definition free_double :: "nat \<Rightarrow> unit fop" where
  "free_double c =
     bbind (ffor (\<lambda>i s. free_indirect_block (addr_word (blk s c) i) s) [0..<NADDR]) (\<lambda>_. bfree c)"

definition itrunc :: "nat \<Rightarrow> unit fop" where
  "itrunc ip =
     bbind (ffor (free_addr ip) [0..<NDIRECT]) (\<lambda>_.
     bbind (\<lambda>s.
       (let c = i_addrs (icache s ! ip) ! NDIRECT in
        if c \<noteq> 0 then bbind (free_indirect_block c) (\<lambda>_ s. fret () (set_addr ip NDIRECT 0 s)) s
        else fret () s)) (\<lambda>_.
     bbind (\<lambda>s.
       (let c = i_addrs (icache s ! ip) ! (NDIRECT + 1) in
        if c \<noteq> 0 then bbind (free_double c) (\<lambda>_ s. fret () (set_addr ip (NDIRECT + 1) 0 s)) s
        else fret () s)) (\<lambda>_ s.
     fret () (iupdate ip (upd_inode ip (\<lambda>e. e\<lparr>i_size := 0\<rparr>) s)))))"

definition falloc :: "nat \<Rightarrow> nat \<Rightarrow> nat \<Rightarrow> nat \<Rightarrow> bool \<Rightarrow> int fop" where
  "falloc ip startb endb newsize keep_size s =
     (if newsize > MAXFILE * BSIZE then fret (- 1) s
      else
        bbind (ffor (\<lambda>b. bbind (bmap ip b False) (\<lambda>_. fret ())) [startb..<endb]) (\<lambda>_ s.
          (let grow = (\<not> keep_size \<and> newsize > i_size (icache s ! ip));
               s = (if grow then upd_inode ip (\<lambda>e. e\<lparr>i_size := newsize\<rparr>) s else s)
           in fret 0 (if keep_size \<or> grow then iupdate ip s else s))) s)"

subsection \<open>The inode block\<close>

lemma nth_put32_other: "j < off \<or> off + 4 \<le> j \<Longrightarrow> put32 b off x ! j = b ! j"
  by (auto simp: put32_def)

lemma nth_put16_other: "j < off \<or> off + 2 \<le> j \<Longrightarrow> put16 b off x ! j = b ! j"
  by (auto simp: put16_def)

lemma length_put16 [simp]: "length (put16 b off x) = length b"
  by (simp add: put16_def)

lemma fold_put32:
  assumes "o' + 4 * k \<le> length b"
  shows "length (fold (\<lambda>i b. put32 b (o' + 4 * i) (f i)) [0..<k] b) = length b \<and>
    (\<forall>j. j < o' \<or> o' + 4 * k \<le> j \<longrightarrow> fold (\<lambda>i b. put32 b (o' + 4 * i) (f i)) [0..<k] b ! j = b ! j) \<and>
    (\<forall>i < k. f i < 4294967296 \<longrightarrow> get32 (fold (\<lambda>i b. put32 b (o' + 4 * i) (f i)) [0..<k] b) (o' + 4 * i) = f i)"
  using assms
proof (induction k)
  case (Suc k)
  let ?b = "fold (\<lambda>i b. put32 b (o' + 4 * i) (f i)) [0..<k] b"
  have u: "fold (\<lambda>i b. put32 b (o' + 4 * i) (f i)) [0..<Suc k] b = put32 ?b (o' + 4 * k) (f k)" by simp
  have le: "o' + 4 * k \<le> length b" using Suc.prems by simp
  note IH = Suc.IH [OF le]
  have "put32 ?b (o' + 4 * k) (f k) ! j = b ! j" if "j < o' \<or> o' + 4 * Suc k \<le> j" for j
  proof -
    have j: "j < o' \<or> o' + 4 * k \<le> j" "j < o' + 4 * k \<or> o' + 4 * k + 4 \<le> j" using that by auto
    have "?b ! j = b ! j" using IH j(1) by blast
    with nth_put32_other [OF j(2)] show ?thesis by simp
  qed
  moreover have "get32 (put32 ?b (o' + 4 * k) (f k)) (o' + 4 * i) = f i" if i: "i < Suc k" "f i < 4294967296" for i
  proof (cases "i = k")
    case True
    then show ?thesis using i IH Suc.prems by (simp add: get_put32)
  next
    case False
    then have lt: "i < k" "o' + 4 * i + 4 \<le> o' + 4 * k" using i by auto
    then have "get32 (put32 ?b (o' + 4 * k) (f k)) (o' + 4 * i) = get32 ?b (o' + 4 * i)"
      by (intro get_put32_other) simp
    then show ?thesis using IH lt i by simp
  qed
  moreover have "length (put32 ?b (o' + 4 * k) (f k)) = length b" using IH by simp
  ultimately show ?case unfolding u by blast
qed simp

lemma get16_put16: "off + 2 \<le> length b \<Longrightarrow> x < 65536 \<Longrightarrow> get16 (put16 b off x) off = x"
  by (simp add: get16_def put16_def nth_list_update)

lemma get16_cong: "b' ! off = b ! off \<Longrightarrow> b' ! (off + 1) = b ! (off + 1) \<Longrightarrow> get16 b' off = get16 b off"
  by (simp add: get16_def)

lemma get32_cong: "(\<And>j. off \<le> j \<Longrightarrow> j < off + 4 \<Longrightarrow> b' ! j = b ! j) \<Longrightarrow> get32 b' off = get32 b off"
  by (simp add: get32_def)

lemma i16_u16: "- 32768 \<le> x \<Longrightarrow> x < 32768 \<Longrightarrow> i16 (u16 x) = x"
proof -
  assume "- 32768 \<le> x" "x < 32768"
  have "(int (nat (x mod 65536)) + 32768) mod 65536 = (x + 32768) mod 65536"
    by (simp add: mod_add_left_eq)
  also have "\<dots> = x + 32768" using \<open>- 32768 \<le> x\<close> \<open>x < 32768\<close> by simp
  finally show ?thesis by (simp add: i16_def u16_def)
qed

lemma din_slot: "64 * (n mod IPB) + 64 \<le> BSIZE"
proof -
  have "n mod IPB < 16" by simp
  then show ?thesis by linarith
qed

definition inode_ok :: "inode \<Rightarrow> bool" where
  "inode_ok e \<longleftrightarrow> i_type e < 256 \<and> i_mode e < 256 \<and> - 32768 \<le> i_major e \<and> i_major e < 32768 \<and>
     - 32768 \<le> i_minor e \<and> i_minor e < 32768 \<and> - 32768 \<le> i_nlink e \<and> i_nlink e < 32768 \<and>
     i_size e < 4294967296 \<and> length (i_addrs e) = NDIRECT + 2 \<and> (\<forall>a \<in> set (i_addrs e). a < 4294967296)"

text \<open>The fields before the block numbers, and then these.\<close>

definition din_head :: "block \<Rightarrow> nat \<Rightarrow> inode \<Rightarrow> block" where
  "din_head b o' e =
     (put32 (put16 (put16 (put16 (b[o' + 1 := i_type e mod 256]) (o' + 2) (u16 (i_major e)))
        (o' + 4) (u16 (i_minor e))) (o' + 6) (u16 (i_nlink e))) (o' + 8) (i_size e))[o' := i_mode e mod 256]"

lemma din_put_head:
  "din_put b n e = fold (\<lambda>i b. put32 b (64 * (n mod IPB) + 12 + 4 * i) (i_addrs e ! i)) [0..<NDIRECT + 2]
     (din_head b (64 * (n mod IPB)) e)"
  by (simp add: din_put_def din_head_def Let_def)

lemma din_head_other: "j < o' \<or> o' + 12 \<le> j \<Longrightarrow> din_head b o' e ! j = b ! j"
  by (auto simp: din_head_def nth_put32_other nth_put16_other)

lemma length_din_head [simp]: "length (din_head b o' e) = length b"
  by (simp add: din_head_def)

lemma din_put_other:
  assumes "length b = BSIZE" "j < 64 * (n mod IPB) \<or> 64 * (n mod IPB) + 64 \<le> j"
  shows "din_put b n e ! j = b ! j" "length (din_put b n e) = BSIZE"
proof -
  let ?o = "64 * (n mod IPB)"
  have le: "?o + 12 + 4 * (NDIRECT + 2) \<le> length (din_head b ?o e)" using assms(1) din_slot [of n] by simp
  note F = fold_put32 [OF le, of "\<lambda>i. i_addrs e ! i"]
  show "length (din_put b n e) = BSIZE" unfolding din_put_head using F assms(1) by simp
  have "j < ?o + 12 \<or> ?o + 12 + 4 * (NDIRECT + 2) \<le> j" using assms(2) by auto
  then have "din_put b n e ! j = din_head b ?o e ! j" unfolding din_put_head using F by blast
  also have "\<dots> = b ! j" using assms(2) by (intro din_head_other) auto
  finally show "din_put b n e ! j = b ! j" .
qed

lemma din_head_fields:
  assumes "length b = BSIZE" "o' + 64 \<le> BSIZE" "inode_ok e"
  shows "din_head b o' e ! (o' + 1) = i_type e" "din_head b o' e ! o' = i_mode e"
    "get16 (din_head b o' e) (o' + 2) = u16 (i_major e)" "get16 (din_head b o' e) (o' + 4) = u16 (i_minor e)"
    "get16 (din_head b o' e) (o' + 6) = u16 (i_nlink e)" "get32 (din_head b o' e) (o' + 8) = i_size e"
proof -
  let ?b1 = "b[o' + 1 := i_type e mod 256]"
  let ?b2 = "put16 ?b1 (o' + 2) (u16 (i_major e))"
  let ?b3 = "put16 ?b2 (o' + 4) (u16 (i_minor e))"
  let ?b4 = "put16 ?b3 (o' + 6) (u16 (i_nlink e))"
  let ?b5 = "put32 ?b4 (o' + 8) (i_size e)"
  have h: "din_head b o' e = ?b5[o' := i_mode e mod 256]" by (simp add: din_head_def)
  have u: "u16 x < 65536" for x by (simp add: u16_def nat_less_iff)
  show "din_head b o' e ! (o' + 1) = i_type e"
    using assms unfolding h by (simp add: nth_put32_other nth_put16_other inode_ok_def)
  show "din_head b o' e ! o' = i_mode e"
    using assms unfolding h by (simp add: inode_ok_def)
  have "get16 (din_head b o' e) (o' + 2) = get16 ?b2 (o' + 2)"
    unfolding h by (rule get16_cong) (simp_all add: nth_put32_other nth_put16_other)
  also have "\<dots> = u16 (i_major e)" using assms by (simp add: get16_put16 u)
  finally show "get16 (din_head b o' e) (o' + 2) = u16 (i_major e)" .
  have "get16 (din_head b o' e) (o' + 4) = get16 ?b3 (o' + 4)"
    unfolding h by (rule get16_cong) (simp_all add: nth_put32_other nth_put16_other)
  also have "\<dots> = u16 (i_minor e)" using assms by (simp add: get16_put16 u)
  finally show "get16 (din_head b o' e) (o' + 4) = u16 (i_minor e)" .
  have "get16 (din_head b o' e) (o' + 6) = get16 ?b4 (o' + 6)"
    unfolding h by (rule get16_cong) (simp_all add: nth_put32_other)
  also have "\<dots> = u16 (i_nlink e)" using assms by (simp add: get16_put16 u)
  finally show "get16 (din_head b o' e) (o' + 6) = u16 (i_nlink e)" .
  have "get32 (din_head b o' e) (o' + 8) = get32 ?b5 (o' + 8)" unfolding h by (rule get32_cong) auto
  also have "\<dots> = i_size e" using assms by (simp add: get_put32 inode_ok_def)
  finally show "get32 (din_head b o' e) (o' + 8) = i_size e" .
qed

lemma din_put_fields:
  assumes b: "length b = BSIZE" and e: "inode_ok e"
  shows "din_type (din_put b n e) n = i_type e" "din_put b n e ! (64 * (n mod IPB)) = i_mode e"
    "get16 (din_put b n e) (64 * (n mod IPB) + 2) = u16 (i_major e)"
    "get16 (din_put b n e) (64 * (n mod IPB) + 4) = u16 (i_minor e)"
    "get16 (din_put b n e) (64 * (n mod IPB) + 6) = u16 (i_nlink e)"
    "get32 (din_put b n e) (64 * (n mod IPB) + 8) = i_size e"
    "din_addrs (din_put b n e) n = i_addrs e"
proof -
  let ?o = "64 * (n mod IPB)"
  let ?h = "din_head b ?o e"
  have le: "?o + 12 + 4 * (NDIRECT + 2) \<le> length ?h" using b din_slot [of n] by simp
  note F = fold_put32 [OF le, of "\<lambda>i. i_addrs e ! i", folded din_put_head]
  note H = din_head_fields [OF b din_slot [of n] e]
  have lo: "din_put b n e ! j = ?h ! j" if "j < ?o + 12" for j using F that by blast
  show "din_type (din_put b n e) n = i_type e" using lo H(1) by (simp add: din_type_def)
  show "din_put b n e ! ?o = i_mode e" using lo H(2) by simp
  show "get16 (din_put b n e) (?o + 2) = u16 (i_major e)"
    using H(3) get16_cong [of "din_put b n e" "?o + 2" ?h] lo by simp
  show "get16 (din_put b n e) (?o + 4) = u16 (i_minor e)"
    using H(4) get16_cong [of "din_put b n e" "?o + 4" ?h] lo by simp
  show "get16 (din_put b n e) (?o + 6) = u16 (i_nlink e)"
    using H(5) get16_cong [of "din_put b n e" "?o + 6" ?h] lo by simp
  have "get32 (din_put b n e) (?o + 8) = get32 ?h (?o + 8)" by (rule get32_cong) (simp add: lo)
  then show "get32 (din_put b n e) (?o + 8) = i_size e" using H(6) by simp
  show "din_addrs (din_put b n e) n = i_addrs e"
  proof (rule nth_equalityI)
    show "length (din_addrs (din_put b n e) n) = length (i_addrs e)" using e by (simp add: din_addrs_def inode_ok_def)
    fix i assume "i < length (din_addrs (din_put b n e) n)"
    then have i: "i < NDIRECT + 2" by (simp add: din_addrs_def)
    then have "i_addrs e ! i < 4294967296" using e by (simp add: inode_ok_def)
    then have "get32 (din_put b n e) (?o + 12 + 4 * i) = i_addrs e ! i" using F i by blast
    then show "din_addrs (din_put b n e) n ! i = i_addrs e ! i" using i by (simp add: din_addrs_def del: upt_Suc)
  qed
qed

lemma din_other:
  assumes "length b = BSIZE" "m mod IPB \<noteq> n mod IPB"
  shows "din_type (din_put b n e) m = din_type b m" "din_addrs (din_put b n e) m = din_addrs b m"
    "din_get (din_put b n e) m e' = din_get b m e'"
proof -
  have j: "din_put b n e ! j = b ! j" if "64 * (m mod IPB) \<le> j" "j < 64 * (m mod IPB) + 64" for j
  proof -
    have "j < 64 * (n mod IPB) \<or> 64 * (n mod IPB) + 64 \<le> j" using that assms(2) by linarith
    then show ?thesis by (rule din_put_other(1) [OF assms(1)])
  qed
  show t: "din_type (din_put b n e) m = din_type b m" by (simp add: din_type_def j)
  have g: "get32 (din_put b n e) (64 * (m mod IPB) + 12 + 4 * i) = get32 b (64 * (m mod IPB) + 12 + 4 * i)" if "i < 13" for i
    using that by (intro get32_cong j) auto
  show a: "din_addrs (din_put b n e) m = din_addrs b m"
    unfolding din_addrs_def by (rule map_cong) (auto intro: g)
  have "get32 (din_put b n e) (64 * (m mod IPB) + 8) = get32 b (64 * (m mod IPB) + 8)"
    by (intro get32_cong j) auto
  then show "din_get (din_put b n e) m e' = din_get b m e'"
    using a t by (simp add: din_get_def Let_def get16_def j)
qed

lemma iupdate_run:
  assumes inv: "fs_inv P s" and h: "held s ip n"
  shows "fs_inv P (iupdate ip s)" "nfree (iupdate ip s) = nfree s" "wal s (iupdate ip s)"
    "icache (iupdate ip s) = icache s" "fs_sb (iupdate ip s) = fs_sb s" "bref (iupdate ip s) = bref s"
    "\<And>m k. (m, k) \<in> locs s \<Longrightarrow> val (iupdate ip s) m k = val s m k"
    "\<And>b. sb_bmapstart (fs_sb s) \<le> b \<Longrightarrow> blk (iupdate ip s) b = blk s b"
    "blk (iupdate ip s) (IBLOCK n (fs_sb s)) = din_put (blk s (IBLOCK n (fs_sb s))) n (icache s ! ip)"
proof -
  note I = fs_invD [OF inv]
  let ?s = "iupdate ip s" and ?b = "IBLOCK n (fs_sb s)"
  have n: "i_inum (icache s ! ip) = n" "n \<in> inums s" using h by (auto simp: held_def)
  have e: "?s = logw ?b (wblk ?b (din_put (blk s ?b) n (icache s ! ip)) s)"
    by (simp add: iupdate_def Let_def n)
  have b: "?b < sb_bmapstart (fs_sb s)" using inum_IBLOCK [OF I(1) n(2)] .
  show ic: "icache ?s = icache s" and sb: "fs_sb ?s = fs_sb s" and br: "bref ?s = bref s" by (simp_all add: e)
  show bk: "blk ?s b = blk s b" if "sb_bmapstart (fs_sb s) \<le> b" for b using that b by (simp add: e)
  show "wal s ?s" using wal_logw [of s ?b] by (simp add: e wblk_def)
  show "blk ?s ?b = din_put (blk s ?b) n (icache s ! ip)" by (simp add: e)
  have len: "length (blk s ?b) = BSIZE" using I(2) by (simp add: blks_ok_def)
  have A: "iaddrs ?s m = iaddrs s m" if m: "m \<in> inums s" for m
  proof (cases "cached (icache s) m")
    case None
    then have "m \<noteq> n" using cached_held [OF I(3) h] by auto
    have "din_type (blk ?s (IBLOCK m (fs_sb s))) m = din_type (blk s (IBLOCK m (fs_sb s))) m \<and>
        din_addrs (blk ?s (IBLOCK m (fs_sb s))) m = din_addrs (blk s (IBLOCK m (fs_sb s))) m"
    proof (cases "IBLOCK m (fs_sb s) = ?b")
      case True
      then have "m div IPB = n div IPB" by (simp add: IBLOCK_def)
      with \<open>m \<noteq> n\<close> have "m mod IPB \<noteq> n mod IPB" by (metis mult_div_mod_eq)
      from din_other(1,2) [OF len this] show ?thesis by (simp add: e True)
    qed (simp add: e)
    with None show ?thesis by (simp add: iaddrs_def ic sb Let_def)
  qed (simp add: iaddrs_def ic)
  show v: "val ?s m k = val s m k" if l: "(m, k) \<in> locs s" for m k
  proof (rule val_cong)
    have m: "m \<in> inums s" "slot_ok k" using l by (auto simp: locs_def)
    show "iaddrs ?s m = iaddrs s m" "slot_ok k" using A m by auto
    fix q assume "slot_ok q" "meta q" "val s m q \<noteq> 0"
    then have "dstart (fs_sb s) \<le> val s m q" using val_bref(2) [OF inv locsI [OF m(1)]] by simp
    then show "blk ?s (val s m q) = blk s (val s m q)" using bk lay_order [OF I(1)] by simp
  qed
  have bs: "bit_set ?s y = bit_set s y" if "y < sb_size (fs_sb s)" for y
    using BBLOCK_range [OF I(1) that] bk sb by (intro bit_set_cong) auto
  show "nfree ?s = nfree s" by (rule nfree_cong [OF sb bs])
  show "fs_inv P ?s"
  proof (rule fs_inv_bref [OF inv sb ic _ v])
    show "blks_ok ?s" using I(2) din_put_other(2) [OF len, of "64 * (n mod IPB) + 64"] by (simp add: blks_ok_def e)
    show "\<forall>b \<in># P. dstart (fs_sb s) \<le> b \<and> b < sb_size (fs_sb s)" using I(5) by (simp add: count_ok_def)
    show "val s a sl \<notin># P" if "(a, sl) \<in> locs s" "meta sl" "val s a sl \<noteq> 0" for a sl
      using meta_unique(2) [OF inv that that(1) refl] .
    show "bit_set ?s y \<longleftrightarrow> y < dstart (fs_sb s) \<or> bref ?s y > 0" if "y < sb_size (fs_sb s)" for y
      using bs [OF that] bmp_okD [OF I(7) that] by (simp add: br)
  qed (simp_all add: br)
qed

lemma upd_inode_run:
  assumes inv: "fs_inv P s" and ip: "ip < length (icache s)"
    and f: "\<And>e. i_ref (f e) = i_ref e" "\<And>e. i_valid (f e) = i_valid e" "\<And>e. i_inum (f e) = i_inum e" "\<And>e. i_addrs (f e) = i_addrs e"
  shows "fs_inv P (upd_inode ip f s)" "nfree (upd_inode ip f s) = nfree s"
    "\<And>m k. val (upd_inode ip f s) m k = val s m k"
proof -
  let ?s = "upd_inode ip f s"
  have sel: "fs_sb ?s = fs_sb s" "blk ?s = blk s" "bref ?s = bref s" "length (icache ?s) = length (icache s)"
    by (simp_all add: upd_inode_def)
  have fld: "i_ref (icache ?s ! k) = i_ref (icache s ! k)" "i_valid (icache ?s ! k) = i_valid (icache s ! k)"
    "i_inum (icache ?s ! k) = i_inum (icache s ! k)" "i_addrs (icache ?s ! k) = i_addrs (icache s ! k)" for k
    by (simp_all add: upd_inode_def field_upd_at f)
  define g where "g e = (i_ref e, i_valid e, i_inum e)" for e :: inode
  have "cached ic m = find_idx (\<lambda>(r, v, i). r > 0 \<and> v \<and> i = m) (map g ic)" for ic m
    by (simp add: cached_def find_idx_map g_def)
  moreover have "map g (icache ?s) = map g (icache s)"
    using ip unfolding upd_inode_def by (simp add: map_upd_at_same g_def f)
  ultimately have c: "cached (icache ?s) m = cached (icache s) m" for m by metis
  have A: "iaddrs ?s m = iaddrs s m" for m
    by (simp add: iaddrs_def c sel fld split: option.split)
  show v: "val ?s m k = val s m k" for m k by (cases k) (simp_all add: A via_def sel)
  have bs: "bit_set ?s y = bit_set s y" for y by (simp add: bit_set_def sel)
  then show "nfree ?s = nfree s" by (intro nfree_cong) (auto simp: sel)
  have L: "locs ?s = locs s" by (rule locs_cong [OF sel(1)])
  note I = fs_invD [OF inv]
  have "ic_ok ?s" using I(3) by (simp add: ic_ok_def sel fld)
  moreover have "range_ok ?s" by (rule range_ok_cong [OF I(4) sel(1) v])
  moreover have "count_ok P ?s" using I(5) refs_cong [OF sel(1) v] by (simp add: count_ok_def sel)
  moreover have "meta_ok ?s" using I(6) by (simp add: meta_ok_def L v sel)
  moreover have "bmp_ok ?s" using I(7) by (simp add: bmp_ok_def bs sel)
  ultimately show "fs_inv P ?s" using I(1,2) by (simp add: fs_inv_def sel blks_ok_def)
qed

text \<open>Setting the size and writing the inode back, the end of most operations on an inode.\<close>

definition put_size :: "nat \<Rightarrow> nat \<Rightarrow> fs \<Rightarrow> fs" where
  "put_size ip z s = iupdate ip (upd_inode ip (\<lambda>e. e\<lparr>i_size := z\<rparr>) s)"

lemma upd_size_same: "upd_inode ip (\<lambda>e. e\<lparr>i_size := i_size (icache s ! ip)\<rparr>) s = s"
  by (simp add: upd_inode_def)

lemma put_size_run:
  assumes inv: "fs_inv P s" and h: "held s ip f"
  shows "fs_inv P (put_size ip z s)" "held (put_size ip z s) ip f" "wal s (put_size ip z s)"
    "nfree (put_size ip z s) = nfree s" "fs_sb (put_size ip z s) = fs_sb s" "i_size (icache (put_size ip z s) ! ip) = z"
    "\<And>m k. (m, k) \<in> locs s \<Longrightarrow> val (put_size ip z s) m k = val s m k"
    "\<And>b. sb_bmapstart (fs_sb s) \<le> b \<Longrightarrow> blk (put_size ip z s) b = blk s b"
    "blk (put_size ip z s) (IBLOCK f (fs_sb s)) = din_put (blk s (IBLOCK f (fs_sb s))) f (icache (put_size ip z s) ! ip)"
    "bref (put_size ip z s) = bref s" "\<And>k. k \<noteq> ip \<Longrightarrow> icache (put_size ip z s) ! k = icache s ! k"
proof -
  let ?u = "upd_inode ip (\<lambda>e. e\<lparr>i_size := z\<rparr>) s"
  have ip: "ip < length (icache s)" using h by (simp add: held_def)
  note U = upd_inode_run [OF inv ip, of "\<lambda>e. e\<lparr>i_size := z\<rparr>"]
  have su: "fs_sb ?u = fs_sb s" "blk ?u = blk s" "logged ?u = logged s" "bref ?u = bref s" by (simp_all add: upd_inode_def)
  have hu: "held ?u ip f" using h by (simp add: held_def upd_inode_def inums_def)
  have iu: "fs_inv P ?u" using U(1) by simp
  note V = iupdate_run [OF iu hu, folded put_size_def]
  show "fs_inv P (put_size ip z s)" "nfree (put_size ip z s) = nfree s" "fs_sb (put_size ip z s) = fs_sb s"
    using V(1,2,5) U(2) su by simp_all
  show "held (put_size ip z s) ip f" using hu V(4,5) by (simp add: held_def inums_def)
  show "wal s (put_size ip z s)" using V(3) by (simp add: wal_def su)
  show "i_size (icache (put_size ip z s) ! ip) = z" using V(4) ip by (simp add: upd_inode_def)
  show "val (put_size ip z s) m k = val s m k" if "(m, k) \<in> locs s" for m k
    using V(7) [of m k] U(3) that su(1) by (simp add: locs_def inums_def)
  show "blk (put_size ip z s) b = blk s b" if "sb_bmapstart (fs_sb s) \<le> b" for b using V(8) that su by simp
  show "blk (put_size ip z s) (IBLOCK f (fs_sb s)) = din_put (blk s (IBLOCK f (fs_sb s))) f (icache (put_size ip z s) ! ip)"
    using V(9) by (simp add: su V(4))
  show "bref (put_size ip z s) = bref s" using V(6) su by simp
  show "icache (put_size ip z s) ! k = icache s ! k" if "k \<noteq> ip" for k using V(4) that by (simp add: upd_inode_def)
qed

subsection \<open>Reading\<close>

definition fbyte :: "fs \<Rightarrow> nat \<Rightarrow> nat \<Rightarrow> nat" where
  "fbyte s n x = (if x div BSIZE < MAXFILE then dat s n (x div BSIZE) ! (x mod BSIZE) else 0)"

lemma chunk_div: "off mod BSIZE + i < BSIZE \<Longrightarrow> (off + i) div BSIZE = off div BSIZE \<and> (off + i) mod BSIZE = off mod BSIZE + i"
proof -
  assume lt: "off mod BSIZE + i < BSIZE"
  have "off + i = BSIZE * (off div BSIZE) + (off mod BSIZE + i)" by simp
  then show ?thesis using lt by (metis div_mult_self4 div_less mod_mult_self4 mod_less add.right_neutral
      zero_neq_numeral)
qed

lemma length_dat: "blks_ok s \<Longrightarrow> length (dat s n k) = BSIZE"
  by (simp add: dat_def blks_ok_def Let_def)

lemma chunk_read:
  assumes "blks_ok s" "off mod BSIZE + m \<le> BSIZE" "d = (if off div BSIZE < MAXFILE then dat s n (off div BSIZE) else zeros)"
  shows "take m (drop (off mod BSIZE) d) = map (fbyte s n) [off..<off + m]"
proof (rule nth_equalityI)
  have len: "length d = BSIZE" using length_dat [OF assms(1)] by (simp add: assms(3))
  then show "length (take m (drop (off mod BSIZE) d)) = length (map (fbyte s n) [off..<off + m])"
    using assms(2) by simp
  fix i assume "i < length (take m (drop (off mod BSIZE) d))"
  then have i: "i < m" by simp
  then have lt: "off mod BSIZE + i < BSIZE" using assms(2) by linarith
  have "map (fbyte s n) [off..<off + m] ! i = fbyte s n (off + i)" using i by simp
  also have "\<dots> = d ! (off mod BSIZE + i)"
    using chunk_div [OF lt] lt by (simp add: fbyte_def assms(3) zeros_def)
  finally show "take m (drop (off mod BSIZE) d) ! i = map (fbyte s n) [off..<off + m] ! i"
    using i len lt by (simp add: add.commute)
qed

lemma readi_loop_exact:
  assumes inv: "fs_inv P s" and h: "held s ip f"
  shows "tot \<le> n \<Longrightarrow> \<exists>t. tot \<le> t \<and> t \<le> n \<and> readi_loop s ip ok n tot off = (t, map (fbyte s f) [off..<off + (t - tot)]) \<and>
    ((\<forall>a b. ok a b) \<longrightarrow> t = n)"
proof (induction "n - tot" arbitrary: tot off rule: less_induct)
  case less
  let ?m = "min (n - tot) (BSIZE - off mod BSIZE)" and ?a = "bmap_nalloc ip (off div BSIZE) s"
  let ?d = "if ?a = 0 then zeros else blk s ?a"
  show ?case
  proof (cases "tot < n")
    case False
    then have "readi_loop s ip ok n tot off = (tot, [])" by (simp add: readi_loop.simps [of s ip ok n tot])
    with False less.prems show ?thesis by (intro exI [of _ tot]) auto
  next
    case True
    have mpos: "?m > 0" "tot + ?m \<le> n" "off mod BSIZE + ?m \<le> BSIZE" using True by auto
    show ?thesis
    proof (cases "ok tot ?m")
      case False
      then have "readi_loop s ip ok n tot off = (tot, [])" using True by (simp add: readi_loop.simps [of s ip ok n tot] Let_def)
      with False less.prems show ?thesis by (intro exI [of _ tot]) auto
    next
      case ok: True
      have "n - (tot + ?m) < n - tot" using mpos True by linarith
      from less.hyps [OF this mpos(2), of "off + ?m"] obtain t where t: "tot + ?m \<le> t" "t \<le> n"
        "readi_loop s ip ok n (tot + ?m) (off + ?m) = (t, map (fbyte s f) [off + ?m..<off + ?m + (t - (tot + ?m))])"
        "(\<forall>a b. ok a b) \<longrightarrow> t = n" by blast
      have d: "?d = (if off div BSIZE < MAXFILE then dat s f (off div BSIZE) else zeros)"
        using bmap_nalloc_val [OF fs_invD(3) [OF inv] h, of "off div BSIZE"] by (auto simp: dat_def Let_def)
      have "take ?m (drop (off mod BSIZE) ?d) = map (fbyte s f) [off..<off + ?m]"
        by (rule chunk_read [OF fs_invD(2) [OF inv] mpos(3) d])
      then have "readi_loop s ip ok n tot off =
          (t, map (fbyte s f) [off..<off + ?m] @ map (fbyte s f) [off + ?m..<off + ?m + (t - (tot + ?m))])"
        using True ok by (subst readi_loop.simps) (simp add: Let_def t(3))
      moreover have "off + ?m + (t - (tot + ?m)) = off + (t - tot)" using t(1) by linarith
      moreover have "[off..<off + ?m] @ [off + ?m..<off + (t - tot)] = [off..<off + (t - tot)]"
        using t(1) upt_add_eq_append [of off "off + ?m" "t - tot - ?m"] by simp
      ultimately have "readi_loop s ip ok n tot off = (t, map (fbyte s f) [off..<off + (t - tot)])"
        by (metis map_append)
      moreover have "tot \<le> t" using t(1) by linarith
      ultimately show ?thesis using t by blast
    qed
  qed
qed

subsection \<open>Writing\<close>

lemma bref1_unique:
  assumes inv: "fs_inv P s" and b: "bref s (val s n sl) = 1" and l: "(n, sl) \<in> locs s" "val s n sl \<noteq> 0"
    and l': "(n', sl') \<in> locs s" "val s n' sl' = val s n sl"
  shows "n' = n \<and> sl' = sl"
proof -
  let ?S = "{l \<in> locs s. val s (fst l) (snd l) = val s n sl}"
  have "card ?S + count P (val s n sl) = 1"
    using count_okD [OF fs_invD(5) [OF inv] val_bref(2,3) [OF inv l]] b by (simp add: refs_def)
  moreover have mem: "(n, sl) \<in> ?S" "(n', sl') \<in> ?S" using l l' by simp_all
  have "finite ?S" by simp
  with mem(1) have "card ?S \<noteq> 0" unfolding card_eq_0_iff by blast
  ultimately have "card ?S = 1" by linarith
  then obtain x where "?S = {x}" by (rule card_1_singletonE)
  with mem have "(n, sl) = (n', sl')" by simp
  then show ?thesis by simp
qed

lemma dslot_inj: "k < MAXFILE \<Longrightarrow> k' < MAXFILE \<Longrightarrow> dslot k = dslot k' \<longleftrightarrow> k = k'"
proof
  assume "k < MAXFILE" "k' < MAXFILE" and e: "dslot k = dslot k'"
  consider (same) "k < 267 \<or> k' < 267" | (big) "\<not> k < 267" "\<not> k' < 267" by blast
  then show "k = k'"
  proof cases
    case same
    with e show ?thesis by (auto simp: dslot_def split: if_splits)
  next
    case big
    then have "\<not> k - 11 < 256" "\<not> k' - 11 < 256" "\<not> k < 11" "\<not> k' < 11" by linarith+
    with e have "(k - 267) div 256 = (k' - 267) div 256" "(k - 267) mod 256 = (k' - 267) mod 256"
      by (simp_all add: dslot_def)
    then have "k - 267 = k' - 267" by (metis mult_div_mod_eq)
    with big show ?thesis by linarith
  qed
qed simp

lemma dat_write:
  assumes inv: "fs_inv P s" and f: "f \<in> inums s" and bn: "bn < MAXFILE" and a: "val s f (dslot bn) = a" "a \<noteq> 0"
    and r: "bref s a = 1" and d: "length d = BSIZE"
  shows "fs_inv P (logw a (wblk a d s))" "fr s (logw a (wblk a d s))" "nfree (logw a (wblk a d s)) = nfree s"
    "\<And>m k. m \<in> inums s \<Longrightarrow> k < MAXFILE \<Longrightarrow> dat (logw a (wblk a d s)) m k = (if m = f \<and> k = bn then d else dat s m k)"
proof -
  have l: "(f, dslot bn) \<in> locs s" "\<not> meta (dslot bn)" using dslot_ok [OF bn] f by (auto intro: locsI)
  have ad: "isdata s a" "dstart (fs_sb s) \<le> a"
    using data_isdata [OF inv l] val_bref(2) [OF inv l(1)] a by auto
  note W = wdata_run [OF inv ad d]
  show "fs_inv P (logw a (wblk a d s))" "fr s (logw a (wblk a d s))" "nfree (logw a (wblk a d s)) = nfree s"
    by (rule W)+
  fix m k assume mk: "m \<in> inums s" "k < MAXFILE"
  have lk: "(m, dslot k) \<in> locs s" using dslot_ok [OF mk(2)] mk(1) by (auto intro: locsI)
  have v: "val (logw a (wblk a d s)) m (dslot k) = val s m (dslot k)" by (rule W(4) [OF lk])
  show "dat (logw a (wblk a d s)) m k = (if m = f \<and> k = bn then d else dat s m k)"
  proof (cases "val s m (dslot k) = a")
    case True
    then have "m = f \<and> dslot k = dslot bn"
      using bref1_unique [OF inv _ l(1) _ lk] a r by simp
    then have "m = f \<and> k = bn" using dslot_inj [OF mk(2) bn] by simp
    then show ?thesis using v True a(2) by (simp add: dat_def Let_def)
  next
    case False
    then have "\<not> (m = f \<and> k = bn)" using a(1) by blast
    then show ?thesis using v False by (auto simp: dat_def Let_def)
  qed
qed

definition nblk :: "nat \<Rightarrow> nat \<Rightarrow> nat" where
  "nblk off len = (if len = 0 then 0 else (off + len - 1) div BSIZE - off div BSIZE + 1)"

lemma nblk_step:
  assumes "0 < len" "m = min len (BSIZE - off mod BSIZE)"
  shows "nblk off len = 1 + nblk (off + m) (len - m)"
proof (cases "len \<le> BSIZE - off mod BSIZE")
  case True
  have "off mod BSIZE + (len - 1) < BSIZE" using True assms(1) by linarith
  from chunk_div [OF this] have "(off + len - 1) div BSIZE = off div BSIZE" using assms(1) by simp
  with True assms show ?thesis by (simp add: nblk_def)
next
  case False
  then have m: "m = BSIZE - off mod BSIZE" using assms by simp
  have m': "off mod BSIZE + m = BSIZE" using m mod_less_divisor [of BSIZE off] by simp
  have "off + m = BSIZE * (off div BSIZE) + (off mod BSIZE + m)" by simp
  then have e: "off + m = BSIZE * (off div BSIZE + 1)" unfolding m' by simp
  have len: "0 < len - m" "off + m + (len - m) - 1 = off + len - 1" "off + m \<le> off + len - 1" using False m by auto
  have "(off + m) div BSIZE \<le> (off + len - 1) div BSIZE" by (rule div_le_mono [OF len(3)])
  then have "off div BSIZE + 1 \<le> (off + len - 1) div BSIZE" using e by simp
  moreover have "(off + m) div BSIZE = off div BSIZE + 1" using e by simp
  ultimately show ?thesis using len assms(1) by (simp add: nblk_def Suc_diff_le [symmetric])
qed

definition patched :: "nat \<Rightarrow> nat \<Rightarrow> block \<Rightarrow> (nat \<Rightarrow> nat \<Rightarrow> nat) \<Rightarrow> nat \<Rightarrow> nat \<Rightarrow> nat" where
  "patched f off bs c m x = (if m = f \<and> off \<le> x \<and> x < off + length bs then bs ! (x - off) else c m x)"

lemma fbyte_cong:
  "eq_dat s s' \<Longrightarrow> m \<in> inums s \<Longrightarrow> fbyte s' m x = fbyte s m x"
  by (simp add: fbyte_def eq_dat_def)

lemma fbyte_write:
  assumes len: "length bs = l" "off mod BSIZE + l \<le> BSIZE" "length d = BSIZE" and k: "off div BSIZE < MAXFILE" and m: "m \<in> inums s"
    and D: "\<And>m k. m \<in> inums s \<Longrightarrow> k < MAXFILE \<Longrightarrow>
      dat s' m k = (if m = f \<and> k = off div BSIZE then take (off mod BSIZE) d @ bs @ drop (off mod BSIZE + l) d else dat s m k)"
    and d: "d = dat s f (off div BSIZE)"
  shows "fbyte s' m x = patched f off bs (fbyte s) m x"
proof (cases "m = f \<and> x div BSIZE = off div BSIZE")
  case False
  have "\<not> (m = f \<and> off \<le> x \<and> x < off + length bs)"
  proof
    assume a: "m = f \<and> off \<le> x \<and> x < off + length bs"
    then have "off mod BSIZE + (x - off) < BSIZE" using len by linarith
    from chunk_div [OF this] have "x div BSIZE = off div BSIZE" using a by simp
    with False a show False by blast
  qed
  with False D [OF m, of "x div BSIZE"] show ?thesis by (auto simp: fbyte_def patched_def)
next
  case True
  let ?o = "off mod BSIZE" and ?y = "x mod BSIZE"
  have x: "x = BSIZE * (off div BSIZE) + ?y" "off = BSIZE * (off div BSIZE) + ?o" using True by (metis mult_div_mod_eq)+
  have y: "?y < BSIZE" by simp
  have ord: "off \<le> x \<longleftrightarrow> ?o \<le> ?y" "x < off + l \<longleftrightarrow> ?y < ?o + l" "x - off = ?y - ?o"
    using x by linarith+
  have e: "fbyte s' m x = (take ?o d @ bs @ drop (?o + l) d) ! ?y"
    using True k D [OF m, of "off div BSIZE"] by (simp add: fbyte_def)
  have e': "fbyte s m x = d ! ?y" using True k by (simp add: fbyte_def d)
  have to: "length (take ?o d) = ?o" using len by simp
  consider "?y < ?o" | "?o \<le> ?y" "?y < ?o + l" | "?o + l \<le> ?y" by linarith
  then show ?thesis
  proof cases
    case 1
    then show ?thesis using e e' ord to y by (simp add: nth_append patched_def len(1,3))
  next
    case 2
    then have "?y - ?o < l" by linarith
    with 2 show ?thesis using e ord to True y by (simp add: nth_append patched_def len(1,3))
  next
    case 3
    then have "?y - ?o - l = ?y - (?o + l)" "\<not> ?y < ?o" "\<not> ?y - ?o < l" "?o + l + (?y - (?o + l)) = ?y" by linarith+
    then show ?thesis using e e' ord to 3 len y by (simp add: nth_append patched_def)
  qed
qed

definition cin_of :: "block \<Rightarrow> nat \<Rightarrow> nat \<Rightarrow> bool \<times> block" where
  "cin_of src tot m = (True, take m (drop tot src))"

lemma patched_cong: "c m x = c' m x \<Longrightarrow> patched f off bs c m x = patched f off bs c' m x"
  by (simp add: patched_def)

lemma patched_step:
  assumes "length src = n" "tot + m \<le> n"
  shows "patched f (off + m) (drop (tot + m) src) (patched f off (take m (drop tot src)) c) k x =
    patched f off (drop tot src) c k x"
proof -
  have "src ! (tot + m + (x - (off + m))) = src ! (tot + (x - off))" if "off + m \<le> x"
    using that by (simp add: algebra_simps)
  then show ?thesis using assms by (auto simp: patched_def)
qed

lemma writei_loop_spec:
  assumes "fs_inv {#} s" "held s ip f" "tot \<le> n" "length src = n" "off + (n - tot) \<le> MAXFILE * BSIZE"
  shows "spec (3 * nblk off (n - tot)) s (writei_loop ip (cin_of src) n tot off)
    (\<lambda>off' s'. off' = off + (n - tot) \<and> fs_inv {#} s' \<and> fr s s' \<and>
       (\<forall>m x. m \<in> inums s \<longrightarrow> fbyte s' m x = patched f off (drop tot src) (fbyte s) m x))"
  using assms
proof (induction "n - tot" arbitrary: tot off s rule: less_induct)
  case less
  let ?o = "off mod BSIZE"
  define l where "l = min (n - tot) (BSIZE - off mod BSIZE)"
  let ?Q = "\<lambda>off' s'. off' = off + (n - tot) \<and> fs_inv {#} s' \<and> fr s s' \<and>
       (\<forall>m x. m \<in> inums s \<longrightarrow> fbyte s' m x = patched f off (drop tot src) (fbyte s) m x)"
  show ?case
  proof (cases "tot < n")
    case False
    then have "writei_loop ip (cin_of src) n tot off = fret off" by (subst writei_loop.simps) simp
    moreover have "?Q off s" using False less.prems by (simp add: patched_def)
    ultimately show ?thesis by (simp add: spec_ret)
  next
    case True
    have m: "l > 0" "tot + l \<le> n" "?o + l \<le> BSIZE" using True by (auto simp: l_def)
    have len: "length (take l (drop tot src)) = l" using less.prems(4) m(2) by simp
    have k: "off div BSIZE < MAXFILE" using less.prems(5) True by (simp add: div_less_iff_less_mult)
    define rest where "rest a s1 = writei_loop ip (cin_of src) n (tot + l) (off + l)
      (logw a (wblk a (take ?o (blk s1 a) @ take l (drop tot src) @ drop (?o + l) (blk s1 a)) s1))" for a s1
    have un: "writei_loop ip (cin_of src) n tot off = bbind (bmap ip (off div BSIZE) True) rest"
      by (subst writei_loop.simps, simp only: True if_True, rule arg_cong [of _ _ "bbind _"], intro ext)
        (use len in \<open>simp add: cin_of_def rest_def Let_def flip: l_def\<close>)
    have "spec (3 + 3 * nblk (off + l) (n - (tot + l))) s (bbind (bmap ip (off div BSIZE) True) rest) ?Q"
    proof (rule spec_seq [OF bmap_spec [OF less.prems(1) _ less.prems(2) k]])
      fix a s1 assume M: "mapped {#} s f (off div BSIZE) True a s1"
      let ?d = "take ?o (blk s1 a) @ take l (drop tot src) @ drop (?o + l) (blk s1 a)"
      let ?s2 = "logw a (wblk a ?d s1)"
      have S: "fs_inv {#} s1" "fr s s1" "eq_dat s s1" "val s1 f (dslot (off div BSIZE)) = a" "a \<noteq> 0" "bref s1 a = 1"
        using M by (auto simp: mapped_def)
      have h1: "held s1 ip f" using fr_held [OF S(2) less.prems(2)] .
      have f1: "f \<in> inums s1" using h1 by (simp add: held_def)
      have lb: "length (blk s1 a) = BSIZE" using fs_invD(2) [OF S(1)] by (simp add: blks_ok_def)
      have ld: "length ?d = BSIZE" using lb len m(3) by simp
      note W = dat_write [OF S(1) f1 k S(4,5,6) ld]
      have h2: "held ?s2 ip f" using fr_held [OF W(2) h1] .
      have ba: "blk s1 a = dat s1 f (off div BSIZE)" using S(4,5) by (simp add: dat_def)
      have fb: "fbyte ?s2 m x = patched f off (take l (drop tot src)) (fbyte s1) m x" if "m \<in> inums s1" for m x
        by (rule fbyte_write [OF len m(3) lb k that W(4) ba])
      have lt: "n - (tot + l) < n - tot" using m True by linarith
      have bd: "off + l + (n - (tot + l)) \<le> MAXFILE * BSIZE" using less.prems(5) m(2) by linarith
      have in1: "inums s1 = inums s" using fr_sb [OF S(2)] by (simp add: inums_def)
      have fr2: "fr s ?s2" using fr_trans [OF S(2) W(2)] .
      have in2: "inums ?s2 = inums s" using fr_sb [OF fr2] by (simp add: inums_def)
      have "spec (3 * nblk (off + l) (n - (tot + l))) ?s2 (writei_loop ip (cin_of src) n (tot + l) (off + l)) ?Q"
      proof (rule spec_mono [OF less.hyps [OF lt W(1) h2 m(2) less.prems(4) bd]])
        fix off' s' assume R: "off' = off + l + (n - (tot + l)) \<and> fs_inv {#} s' \<and> fr ?s2 s' \<and>
          (\<forall>m x. m \<in> inums ?s2 \<longrightarrow> fbyte s' m x = patched f (off + l) (drop (tot + l) src) (fbyte ?s2) m x)"
        have o': "off' = off + (n - tot)" using R m(2) by linarith
        have fb': "fbyte s' q x = patched f off (drop tot src) (fbyte s) q x" if q: "q \<in> inums s" for q x
        proof -
          have "fbyte s' q x = patched f (off + l) (drop (tot + l) src) (fbyte ?s2) q x" using R q in2 by blast
          also have "\<dots> = patched f (off + l) (drop (tot + l) src) (patched f off (take l (drop tot src)) (fbyte s)) q x"
          proof (rule patched_cong)
            have "fbyte ?s2 q x = patched f off (take l (drop tot src)) (fbyte s1) q x" using fb q in1 by blast
            also have "\<dots> = patched f off (take l (drop tot src)) (fbyte s) q x"
              by (rule patched_cong) (rule fbyte_cong [OF S(3) q])
            finally show "fbyte ?s2 q x = patched f off (take l (drop tot src)) (fbyte s) q x" .
          qed
          also have "\<dots> = patched f off (drop tot src) (fbyte s) q x" by (rule patched_step [OF less.prems(4) m(2)])
          finally show ?thesis .
        qed
        show "?Q off' s'" using o' R fr_trans [OF fr2] fb' by blast
      qed simp
      then show "spec (3 * nblk (off + l) (n - (tot + l))) s1 (rest a) ?Q"
        by (rule spec_conv [of "rest a" s1 "writei_loop ip (cin_of src) n (tot + l) (off + l)" ?s2, OF rest_def W(3)])
    qed simp
    moreover have "nblk off (n - tot) = 1 + nblk (off + l) (n - (tot + l))"
      using nblk_step [of "n - tot" l off] True l_def by simp
    ultimately show ?thesis unfolding un by simp
  qed
qed

subsection \<open>A small file system\<close>

text \<open>Twenty blocks, the data area from block 5 on, and two cached inodes: a file of four bytes without blocks, and an empty file.\<close>

definition fs0 :: fs where
  "fs0 = \<lparr>fs_sb = \<lparr>sb_magic = 270544960, sb_size = 20, sb_nblocks = 15, sb_ninodes = 3, sb_nlog = 0, sb_logstart = 2,
        sb_inodestart = 2, sb_bmapstart = 3\<rparr>,
      blk = (\<lambda>_. zeros)(3 := zeros[0 := 31]), bref = (\<lambda>_. 0), hint = 0,
      icache = [\<lparr>i_dev = 1, i_inum = 1, i_ref = 1, i_owner = Some 1, i_valid = True, i_type = 2, i_mode = 3, i_major = 0,
        i_minor = 0, i_nlink = 1, i_size = 4, i_addrs = replicate 13 0, i_flock_type = 0, i_flock_count = 0\<rparr>,
        \<lparr>i_dev = 1, i_inum = 2, i_ref = 1, i_owner = Some 1, i_valid = True, i_type = 2, i_mode = 3, i_major = 0,
        i_minor = 0, i_nlink = 1, i_size = 0, i_addrs = replicate 13 0, i_flock_type = 0, i_flock_count = 0\<rparr>],
      logged = {}\<rparr>"

lemma fs0_sel:
  "fs_sb fs0 = \<lparr>sb_magic = 270544960, sb_size = 20, sb_nblocks = 15, sb_ninodes = 3, sb_nlog = 0, sb_logstart = 2,
     sb_inodestart = 2, sb_bmapstart = 3\<rparr>" "blk fs0 = (\<lambda>_. zeros)(3 := zeros[0 := 31])" "bref fs0 = (\<lambda>_. 0)"
  "length (icache fs0) = 2" "hint fs0 = 0"
  by (simp_all add: fs0_def)

lemma fs0_held: "held fs0 0 1" "held fs0 1 2"
  by (simp_all add: held_def fs0_def inums_def)

lemma fs0_ic: "ic_ok fs0"
  by (auto simp: ic_ok_def fs0_def less_Suc_eq)

lemma fs0_val: "n \<in> inums fs0 \<Longrightarrow> slot_ok sl \<Longrightarrow> val fs0 n sl = 0"
proof -
  assume n: "n \<in> inums fs0" and sl: "slot_ok sl"
  then have "n = 1 \<or> n = 2" by (auto simp: inums_def fs0_sel)
  then have a: "iaddrs fs0 n = replicate 13 0"
    using iaddrs_held(1) [OF fs0_ic fs0_held(1)] iaddrs_held(1) [OF fs0_ic fs0_held(2)] by (auto simp: fs0_def)
  from sl show ?thesis by (cases sl) (simp_all add: a via_def)
qed

lemma fs0_bits: "b < 20 \<Longrightarrow> bit_set fs0 b \<longleftrightarrow> b < 5"
proof -
  assume b: "b < 20"
  have "bit_set fs0 b \<longleftrightarrow> bit (zeros[0 := 31] ! (b div 8)) (b mod 8)"
    using b by (simp add: bit_set_def BBLOCK_def fs0_sel)
  also have "\<dots> \<longleftrightarrow> b div 8 = 0 \<and> bit (31 :: nat) (b mod 8)"
    using b by (cases "b div 8 = 0") (auto simp: zeros_def nth_Cons' less_mult_imp_div_less)
  also have "bit (31 :: nat) (b mod 8) \<longleftrightarrow> b mod 8 < 5"
  proof -
    have e: "(31 :: nat) = mask 5" by (simp add: mask_eq_exp_minus_1)
    show ?thesis unfolding e bit_mask_iff by simp
  qed
  finally show ?thesis using b by (cases "b < 8") auto
qed

lemma fs0_inv: "fs_inv {#} fs0"
proof -
  have L: "refs fs0 b = 0" if "b \<noteq> 0" for b
  proof -
    have "{l \<in> locs fs0. val fs0 (fst l) (snd l) = b} = {}"
      using fs0_val that by (auto simp: locs_def)
    then show ?thesis by (simp add: refs_def)
  qed
  have d: "dstart (fs_sb fs0) = 5" by (simp add: dstart_def fs0_sel)
  have "range_ok fs0" "meta_ok fs0" using fs0_val by (auto simp: range_ok_def meta_ok_def locs_def)
  moreover have "count_ok {#} fs0" using L d by (simp add: count_ok_def fs0_sel)
  moreover have "bmp_ok fs0" unfolding bmp_ok_def d using fs0_bits by (simp add: fs0_sel)
  moreover have "blks_ok fs0" by (simp add: blks_ok_def fs0_sel)
  moreover have "lay_ok (fs_sb fs0)" by (simp add: lay_ok_def d) (simp add: fs0_sel)
  ultimately show ?thesis using fs0_ic by (simp add: fs_inv_def)
qed

lemma fs0_nfree: "nfree fs0 = 15"
proof -
  have "{b. b < 20 \<and> \<not> bit_set fs0 b} = {5..<20}" using fs0_bits by auto
  then show ?thesis by (simp add: nfree_def fs0_sel)
qed

subsection \<open>Contents of files\<close>



lemma put_size_dat:
  assumes inv: "fs_inv P s" and h: "held s ip f"
  shows "eq_dat s (put_size ip z s)"
  unfolding eq_dat_def
proof (intro allI impI)
  fix m k assume mk: "m \<in> inums s \<and> k < MAXFILE"
  note V = put_size_run [OF inv h, where z = z]
  have lk: "(m, dslot k) \<in> locs s" using mk dslot_ok [of k] by (simp add: locs_def)
  show "dat (put_size ip z s) m k = dat s m k"
  proof (rule dat_cong [OF V(7) [OF lk]])
    assume "val s m (dslot k) \<noteq> 0"
    from val_bref(2) [OF inv lk this] lay_order [OF fs_invD(1) [OF inv]]
    show "blk (put_size ip z s) (val s m (dslot k)) = blk s (val s m (dslot k))" using V(8) by simp
  qed
qed

lemma writei_eq:
  assumes "off \<le> i_size (icache s ! ip)" "off + n \<le> MAXFILE * BSIZE"
  shows "writei ip cin off n s = bbind (writei_loop ip cin n 0 off) (\<lambda>off' s1.
    fret (int n) (if n > 0 then put_size ip (max (i_size (icache s1 ! ip)) off') s1 else s1)) s"
proof -
  have n: "off + n < 4294967296" "i32 (int n) = int n" using assms(2) by (auto intro!: i32_id)
  have u: "iupdate ip (if off' > i_size (icache s1 ! ip) then upd_inode ip (\<lambda>e. e\<lparr>i_size := off'\<rparr>) s1 else s1) =
      put_size ip (max (i_size (icache s1 ! ip)) off') s1" for off' s1
  proof (cases "off' > i_size (icache s1 ! ip)")
    case False
    then have "max (i_size (icache s1 ! ip)) off' = i_size (icache s1 ! ip)" by simp
    then show ?thesis using False unfolding put_size_def by (simp only: upd_size_same if_False)
  qed (simp add: put_size_def)
  have "writei ip cin off n s = bbind (writei_loop ip cin n 0 off) (\<lambda>off s.
          if n > 0 then fret (i32 (int n)) (iupdate ip
              (if off > i_size (icache s ! ip) then upd_inode ip (\<lambda>e. e\<lparr>i_size := off\<rparr>) s else s))
          else fret (i32 (int n)) s) s"
    using assms n(1) by (simp add: writei_def)
  also have "(\<lambda>off s. if n > 0 then fret (i32 (int n)) (iupdate ip
              (if off > i_size (icache s ! ip) then upd_inode ip (\<lambda>e. e\<lparr>i_size := off\<rparr>) s else s))
          else fret (i32 (int n)) s) =
      (\<lambda>off' s1. fret (int n) (if n > 0 then put_size ip (max (i_size (icache s1 ! ip)) off') s1 else s1))"
    by (intro ext) (simp only: u n(2) if_distrib [of "fret (int n)"])
  finally show ?thesis .
qed


lemma spec_run: "spec k s m Q \<Longrightarrow> k \<le> nfree s \<Longrightarrow> \<exists>x s'. m s = (BRet x, s') \<and> Q x s'"
  by (cases "m s"; cases "fst (m s)") (auto simp: spec_def)


text \<open>
  C19. What \<^verbatim>\<open>iupdate\<close> writes into the inode block is what \<^verbatim>\<open>ilock\<close> reads back: type, mode, device
  numbers, link count, size and block numbers; the other fifteen inodes of the block are untouched.
\<close>

theorem inode_roundtrip:
  assumes "length b = BSIZE" "inode_ok e"
  shows "din_get (din_put b n e) n e' =
      e'\<lparr>i_type := i_type e, i_major := i_major e, i_minor := i_minor e, i_nlink := i_nlink e, i_size := i_size e,
         i_mode := i_mode e, i_addrs := i_addrs e\<rparr> \<and>
    (\<forall>m. m mod IPB \<noteq> n mod IPB \<longrightarrow> din_get (din_put b n e) m e' = din_get b m e')"
proof (intro conjI allI impI)
  show "din_get (din_put b n e) n e' =
      e'\<lparr>i_type := i_type e, i_major := i_major e, i_minor := i_minor e, i_nlink := i_nlink e, i_size := i_size e,
         i_mode := i_mode e, i_addrs := i_addrs e\<rparr>"
    using din_put_fields [OF assms, of n] assms(2)
    by (simp add: din_get_def Let_def din_type_def i16_u16 inode_ok_def)
  show "din_get (din_put b n e) m e' = din_get b m e'" if "m mod IPB \<noteq> n mod IPB" for m
    by (rule din_other(3) [OF assms(1) that])
qed

theorem inode_roundtrip_witness:
  "inode_ok (icache fs0 ! 0) \<and>
   din_get (din_put (replicate BSIZE 9) 5 (icache fs0 ! 0)) 5 (icache fs0 ! 1) = (icache fs0 ! 0)\<lparr>i_inum := 2\<rparr> \<and>
   din_get (din_put (replicate BSIZE 9) 5 (icache fs0 ! 0)) 6 (icache fs0 ! 1) = din_get (replicate BSIZE 9) 6 (icache fs0 ! 1)"
proof -
  have ok: "inode_ok (icache fs0 ! 0)" by (simp add: inode_ok_def fs0_def)
  have "(icache fs0 ! 1)\<lparr>i_type := i_type (icache fs0 ! 0), i_major := i_major (icache fs0 ! 0), i_minor := i_minor (icache fs0 ! 0),
      i_nlink := i_nlink (icache fs0 ! 0), i_size := i_size (icache fs0 ! 0), i_mode := i_mode (icache fs0 ! 0),
      i_addrs := i_addrs (icache fs0 ! 0)\<rparr> = (icache fs0 ! 0)\<lparr>i_inum := 2\<rparr>"
    by (simp add: fs0_def)
  with inode_roundtrip [of "replicate BSIZE 9" "icache fs0 ! 0" 5 "icache fs0 ! 1"] ok show ?thesis by simp
qed

end
