(* ===== verification/Trunc.thy ===== *)
theory Trunc
  imports Inode
begin

section \<open>Truncation\<close>

text \<open>
  The proof that \<^verbatim>\<open>itrunc\<close> (\<^verbatim>\<open>kernel/filesystem/fs.c\<close>, defined in theory \<open>Inode\<close>) releases every
  reference of a file exactly once. The code drops the references of the blocks under an indirect
  block before it clears the pointer to that block. Dropping a reference and clearing a pointer
  commute, so the proofs look at the state in which the pointer is already cleared and the
  references are held by the operation.
\<close>

subsection \<open>Dropping references\<close>

definition calm :: "fs \<Rightarrow> fs \<Rightarrow> bool" where
  "calm s s' \<longleftrightarrow>
     fr s s' \<and> icache s' = icache s \<and> (\<forall>c. dstart (fs_sb s) \<le> c \<longrightarrow> blk s' c = blk s c) \<and>
     (\<forall>n sl. (n, sl) \<in> locs s \<longrightarrow> val s' n sl = val s n sl)"

lemma calm_refl [simp]: "calm s s"
  by (simp add: calm_def)

lemma calm_trans: "calm s s' \<Longrightarrow> calm s' s'' \<Longrightarrow> calm s s''"
proof -
  assume a: "calm s s'" and b: "calm s' s''"
  have sb: "fs_sb s' = fs_sb s" using a fr_sb by (auto simp: calm_def)
  have "fr s s''" using a b fr_trans by (auto simp: calm_def)
  then show ?thesis using a b locs_cong [OF sb] by (simp add: calm_def sb)
qed

lemma shrank_calm: "shrank s b s' \<Longrightarrow> calm s s'"
  by (simp add: shrank_def calm_def)

lemma bfree_calm:
  "fs_inv (add_mset b P) s \<Longrightarrow> size P < 1000000 \<Longrightarrow> spec 0 s (bfree b) (\<lambda>_ s'. calm s s' \<and> fs_inv P s')"
  by (rule spec_mono [OF bfree_spec]) (auto simp: shrank_calm)

definition words :: "fs \<Rightarrow> nat \<Rightarrow> nat list \<Rightarrow> nat multiset" where
  "words s c js = filter_mset (\<lambda>b. b \<noteq> 0) (mset (map (addr_word (blk s c)) js))"

lemma ffor_Nil: "ffor body [] = fret ()"
  by (simp add: ffor_def)

lemma ffor_Cons: "ffor body (k # ks) = bbind (body k) (\<lambda>_. ffor body ks)"
  by (simp add: ffor_def)

lemma free_words_loop:
  assumes "fs_inv (P + words s c js) s" "dstart (fs_sb s) \<le> c" "size (P + words s c js) < 1000000"
  shows "spec 0 s (ffor (\<lambda>j s. let a = addr_word (blk s c) j in if a \<noteq> 0 then bfree a s else fret () s) js)
    (\<lambda>_ s'. calm s s' \<and> fs_inv P s')"
  using assms
proof (induction js arbitrary: s)
  case Nil
  then show ?case by (simp add: ffor_Nil spec_ret words_def)
next
  case (Cons j js)
  let ?body = "\<lambda>j s. let a = addr_word (blk s c) j in if a \<noteq> 0 then bfree a s else fret () s"
  have "spec (0 + 0) s (bbind (?body j) (\<lambda>_. ffor ?body js)) (\<lambda>_ s'. calm s s' \<and> fs_inv P s')"
  proof (rule spec_seq)
    show "spec 0 s (?body j) (\<lambda>_ s'. calm s s' \<and> fs_inv (P + words s c js) s')"
    proof (cases "addr_word (blk s c) j = 0")
      case True
      then show ?thesis using Cons.prems by (simp add: spec_def fret_def words_def)
    next
      case False
      then have w: "words s c (j # js) = add_mset (addr_word (blk s c) j) (words s c js)" by (simp add: words_def)
      have "spec 0 s (bfree (addr_word (blk s c) j)) (\<lambda>_ s'. calm s s' \<and> fs_inv (P + words s c js) s')"
        using Cons.prems by (intro bfree_calm) (simp_all add: w)
      then show ?thesis using False by (simp add: spec_def)
    qed
    fix u s1 assume A: "calm s s1 \<and> fs_inv (P + words s c js) s1"
    have sb: "fs_sb s1 = fs_sb s" using A fr_sb by (auto simp: calm_def)
    have w: "words s1 c js = words s c js" using A Cons.prems(2) by (simp add: calm_def words_def)
    have "size (P + words s c js) \<le> size (P + words s c (j # js))" by (simp add: words_def)
    then have "spec 0 s1 (ffor ?body js) (\<lambda>_ s'. calm s1 s' \<and> fs_inv P s')"
      using A Cons.prems sb w by (intro Cons.IH) auto
    then show "spec 0 s1 (ffor ?body js) (\<lambda>_ s'. calm s s' \<and> fs_inv P s')"
      by (rule spec_mono) (use A calm_trans in auto)
  qed
  then show ?case by (simp add: ffor_Cons)
qed

definition subptrs :: "fs \<Rightarrow> nat \<Rightarrow> nat multiset" where
  "subptrs s c = (if c = 0 then {#} else add_mset c (words s c [0..<NADDR]))"

lemma subptrs_size: "size (subptrs s c) \<le> 257"
proof -
  have "size (words s c [0..<NADDR]) \<le> size (mset (map (addr_word (blk s c)) [0..<NADDR]))"
    unfolding words_def by (rule size_filter_mset_lesseq)
  then show ?thesis by (simp add: subptrs_def)
qed

lemma free_indirect_spec:
  assumes inv: "fs_inv (P + subptrs s c) s" and c: "c \<noteq> 0 \<Longrightarrow> dstart (fs_sb s) \<le> c" and sz: "size P < 900000"
  shows "spec 0 s (free_indirect_block c) (\<lambda>_ s'. calm s s' \<and> fs_inv P s')"
proof (cases "c = 0")
  case True
  then show ?thesis using inv by (simp add: free_indirect_block_def spec_ret subptrs_def)
next
  case False
  have us: "size (words s c [0..<NADDR]) \<le> 256" using subptrs_size [of s c] False by (simp add: subptrs_def)
  have "spec (0 + 0) s (bbind (free_words c) (\<lambda>_. bfree c)) (\<lambda>_ s'. calm s s' \<and> fs_inv P s')"
  proof (rule spec_seq)
    show "spec 0 s (free_words c) (\<lambda>_ s'. calm s s' \<and> fs_inv (add_mset c P) s')"
      unfolding free_words_def using inv False c sz us by (intro free_words_loop) (auto simp: subptrs_def)
    fix u s1 assume A: "calm s s1 \<and> fs_inv (add_mset c P) s1"
    show "spec 0 s1 (bfree c) (\<lambda>_ s'. calm s s' \<and> fs_inv P s')"
      by (rule spec_mono [OF bfree_calm]) (use A sz calm_trans in auto)
  qed
  then show ?thesis using False by (simp add: free_indirect_block_def)
qed

definition subptrs2 :: "fs \<Rightarrow> nat \<Rightarrow> nat list \<Rightarrow> nat multiset" where
  "subptrs2 s c is = sum_list (map (\<lambda>i. subptrs s (addr_word (blk s c) i)) is)"

lemma subptrs2_size: "size (subptrs2 s c is) \<le> 257 * length is"
proof (induction "is")
  case (Cons i "is")
  then show ?case using subptrs_size [of s "addr_word (blk s c) i"] by (simp add: subptrs2_def)
qed (simp add: subptrs2_def)

lemma calm_subptrs:
  assumes "calm s s'" "c \<noteq> 0 \<Longrightarrow> dstart (fs_sb s) \<le> c"
  shows "subptrs s' c = subptrs s c"
  using assms by (auto simp: subptrs_def words_def calm_def)

lemma free_double_loop:
  assumes "fs_inv (P + subptrs2 s c is) s" "dstart (fs_sb s) \<le> c" "size P < 800000" "length is \<le> 256"
    "\<And>i. i \<in> set is \<Longrightarrow> addr_word (blk s c) i \<noteq> 0 \<Longrightarrow> dstart (fs_sb s) \<le> addr_word (blk s c) i"
  shows "spec 0 s (ffor (\<lambda>i s. free_indirect_block (addr_word (blk s c) i) s) is) (\<lambda>_ s'. calm s s' \<and> fs_inv P s')"
  using assms
proof (induction "is" arbitrary: s)
  case Nil
  then show ?case by (simp add: ffor_Nil spec_ret subptrs2_def)
next
  case (Cons i "is")
  let ?body = "\<lambda>i s. free_indirect_block (addr_word (blk s c) i) s"
  have u: "subptrs2 s c (i # is) = subptrs2 s c is + subptrs s (addr_word (blk s c) i)" by (simp add: subptrs2_def add.commute)
  have "spec (0 + 0) s (bbind (?body i) (\<lambda>_. ffor ?body is)) (\<lambda>_ s'. calm s s' \<and> fs_inv P s')"
  proof (rule spec_seq)
    have "spec 0 s (free_indirect_block (addr_word (blk s c) i)) (\<lambda>_ s'. calm s s' \<and> fs_inv (P + subptrs2 s c is) s')"
    proof (rule free_indirect_spec)
      show "fs_inv (P + subptrs2 s c is + subptrs s (addr_word (blk s c) i)) s"
        using Cons.prems(1) by (simp add: u add.assoc)
      show "size (P + subptrs2 s c is) < 900000"
        using subptrs2_size [of s c "is"] Cons.prems(3,4) by simp
    qed (use Cons.prems in auto)
    then show "spec 0 s (?body i) (\<lambda>_ s'. calm s s' \<and> fs_inv (P + subptrs2 s c is) s')" by (simp add: spec_def)
    fix v s1 assume A: "calm s s1 \<and> fs_inv (P + subptrs2 s c is) s1"
    have sb: "fs_sb s1 = fs_sb s" using A fr_sb by (auto simp: calm_def)
    have bc: "blk s1 c = blk s c" using A Cons.prems(2) by (simp add: calm_def)
    have "subptrs2 s1 c is = subptrs2 s c is"
      unfolding subptrs2_def bc
      by (rule arg_cong [of _ _ sum_list], rule map_cong [OF refl], rule calm_subptrs) (use A Cons.prems(5) in auto)
    then have "spec 0 s1 (ffor ?body is) (\<lambda>_ s'. calm s1 s' \<and> fs_inv P s')"
      using A Cons.prems sb bc by (intro Cons.IH) auto
    then show "spec 0 s1 (ffor ?body is) (\<lambda>_ s'. calm s s' \<and> fs_inv P s')"
      by (rule spec_mono) (use A calm_trans in auto)
  qed
  then show ?case by (simp add: ffor_Cons)
qed

lemma free_double_spec:
  assumes "fs_inv (P + add_mset c (subptrs2 s c [0..<NADDR])) s" "dstart (fs_sb s) \<le> c" "size P < 700000"
    "\<And>i. i < NADDR \<Longrightarrow> addr_word (blk s c) i \<noteq> 0 \<Longrightarrow> dstart (fs_sb s) \<le> addr_word (blk s c) i"
  shows "spec 0 s (free_double c) (\<lambda>_ s'. calm s s' \<and> fs_inv P s')"
proof -
  have "spec (0 + 0) s (free_double c) (\<lambda>_ s'. calm s s' \<and> fs_inv P s')"
    unfolding free_double_def
  proof (rule spec_seq)
    show "spec 0 s (ffor (\<lambda>i s. free_indirect_block (addr_word (blk s c) i) s) [0..<NADDR])
        (\<lambda>_ s'. calm s s' \<and> fs_inv (add_mset c P) s')"
      using assms by (intro free_double_loop) auto
    fix u s1 assume A: "calm s s1 \<and> fs_inv (add_mset c P) s1"
    show "spec 0 s1 (bfree c) (\<lambda>_ s'. calm s s' \<and> fs_inv P s')"
      by (rule spec_mono [OF bfree_calm]) (use A assms(3) calm_trans in auto)
  qed
  then show ?thesis by simp
qed

subsection \<open>Dropping references does not look at inodes\<close>

definition ic_free :: "'a fop \<Rightarrow> bool" where
  "ic_free m \<longleftrightarrow> (\<forall>s F. m (s\<lparr>icache := F\<rparr>) = apsnd (\<lambda>s'. s'\<lparr>icache := F\<rparr>) (m s))"

lemma ic_freeD: "ic_free m \<Longrightarrow> m (s\<lparr>icache := F\<rparr>) = apsnd (\<lambda>s'. s'\<lparr>icache := F\<rparr>) (m s)"
  by (simp add: ic_free_def)

lemma ic_free_bind:
  assumes "ic_free m" "\<And>x. ic_free (f x)"
  shows "ic_free (bbind m f)"
  unfolding ic_free_def
proof (intro allI)
  fix s F
  show "bbind m f (s\<lparr>icache := F\<rparr>) = apsnd (\<lambda>s'. s'\<lparr>icache := F\<rparr>) (bbind m f s)"
    using ic_freeD [OF assms(1), of F s] ic_freeD [OF assms(2)]
    by (cases "m s"; cases "fst (m s)") (auto simp: bbind_def)
qed

lemma ic_free_ret [simp]: "ic_free (fret x)"
  by (simp add: ic_free_def fret_def)

lemma ic_free_ffor: "(\<And>k. ic_free (body k)) \<Longrightarrow> ic_free (ffor body ks)"
  by (induction ks) (simp_all add: ffor_Nil ffor_Cons ic_free_bind)

lemma ic_free_bfree: "ic_free (bfree b)"
  unfolding bfree_def
  by (rule ic_free_bind) (auto simp: ic_free_def bref_dec_def fret_def fpanic_def Let_def logw_def wblk_def)

lemma ic_free_read: "(\<And>x. ic_free (m x)) \<Longrightarrow> ic_free (\<lambda>s. m (g (blk s)) s)"
  by (simp add: ic_free_def)

lemma ic_free_free_words: "ic_free (free_words c)"
  unfolding free_words_def
proof (rule ic_free_ffor)
  fix j
  have "ic_free (\<lambda>s. (\<lambda>a. if a \<noteq> 0 then bfree a else fret ()) (addr_word (blk s c) j) s)"
    by (rule ic_free_read [where m = "\<lambda>a. if a \<noteq> 0 then bfree a else fret ()" and g = "\<lambda>b. addr_word (b c) j"])
      (simp add: ic_free_bfree)
  then show "ic_free (\<lambda>s. let a = addr_word (blk s c) j in if a \<noteq> 0 then bfree a s else fret () s)"
    by (simp add: Let_def if_distribR)
qed

lemma ic_free_indirect: "ic_free (free_indirect_block c)"
  by (simp add: free_indirect_block_def ic_free_bind ic_free_free_words ic_free_bfree)

lemma ic_free_double: "ic_free (free_double c)"
  unfolding free_double_def
proof (rule ic_free_bind)
  show "ic_free (ffor (\<lambda>i s. free_indirect_block (addr_word (blk s c) i) s) [0..<NADDR])"
  proof (rule ic_free_ffor)
    fix i
    show "ic_free (\<lambda>s. free_indirect_block (addr_word (blk s c) i) s)"
      by (rule ic_free_read [where m = free_indirect_block and g = "\<lambda>b. addr_word (b c) i"]) (rule ic_free_indirect)
  qed
qed (rule ic_free_bfree)

lemma ic_free_icache: "ic_free m \<Longrightarrow> icache (snd (m s)) = icache s"
proof -
  assume "ic_free m"
  from ic_freeD [OF this, of "icache s" s] have "m s = apsnd (\<lambda>s'. s'\<lparr>icache := icache s\<rparr>) (m s)" by simp
  then show ?thesis by (metis fs.select_convs(5) fs.surjective fs.update_convs(5) snd_apsnd)
qed

lemma spec_via:
  assumes "ic_free m" "spec k (set_addr ip i a s) m Q"
  shows "spec k s m (\<lambda>x s'. Q x (set_addr ip i a s'))"
proof -
  have e: "m (set_addr ip i a s) = apsnd (set_addr ip i a) (m s)"
    using ic_freeD [OF assms(1), of _ s] ic_free_icache [OF assms(1), of s]
    by (cases "m s") (simp add: set_addr_def)
  have nf: "nfree (set_addr ip i a t) = nfree t" for t
    by (intro nfree_cong) (auto simp: bit_set_def)
  show ?thesis using assms(2) unfolding spec_def e
    by (cases "m s"; cases "fst (m s)") (auto simp: nf)
qed

subsection \<open>Detaching the blocks under an indirect block\<close>

lemma ptrs_Un: "finite A \<Longrightarrow> finite B \<Longrightarrow> A \<inter> B = {} \<Longrightarrow> ptrs s (A \<union> B) = ptrs s A + ptrs s B"
  by (simp add: ptrs_def mset_set_Union)

lemma ptrs_image:
  assumes "inj_on f {..<k}"
  shows "ptrs s (f ` {..<k}) = filter_mset (\<lambda>b. b \<noteq> 0) (mset (map (\<lambda>j. val s (fst (f j)) (snd (f j))) [0..<k]))"
proof -
  have "mset_set (f ` {..<k}) = image_mset f (mset_set {..<k})" using assms by (simp add: image_mset_mset_set)
  then show ?thesis by (simp add: ptrs_def multiset.map_comp comp_def lessThan_atLeast0)
qed

definition tree1 :: "nat \<Rightarrow> (nat \<times> slot) set" where
  "tree1 n = {(n, Dir 11)} \<union> (\<lambda>j. (n, Ind j)) ` {..<NADDR}"

definition tree2 :: "nat \<Rightarrow> (nat \<times> slot) set" where
  "tree2 n = {(n, Dir 12)} \<union> ((\<lambda>i. (n, Lvl i)) ` {..<NADDR} \<union> (\<lambda>(i, j). (n, Dbl i j)) ` ({..<NADDR} \<times> {..<NADDR}))"

lemma ptrs_tree1: "ptrs s (tree1 n) = subptrs s (iaddrs s n ! 11)"
proof -
  have "ptrs s (tree1 n) = ptrs s {(n, Dir 11)} + ptrs s ((\<lambda>j. (n, Ind j)) ` {..<NADDR})"
    unfolding tree1_def by (rule ptrs_Un) auto
  also have "ptrs s ((\<lambda>j. (n, Ind j)) ` {..<NADDR}) =
      filter_mset (\<lambda>b. b \<noteq> 0) (mset (map (\<lambda>j. via s (iaddrs s n ! 11) j) [0..<NADDR]))"
    by (subst ptrs_image) (auto simp: inj_on_def)
  finally show ?thesis
    by (cases "iaddrs s n ! 11 = 0") (auto simp: ptrs_single opt_def subptrs_def words_def via_def comp_def)
qed

lemma ptrs_fan:
  assumes "val s n p = c" "\<And>j. j < NADDR \<Longrightarrow> val s n (q j) = via s c j" "inj q" "\<And>j. q j \<noteq> p"
  shows "ptrs s ({(n, p)} \<union> (\<lambda>j. (n, q j)) ` {..<NADDR}) = subptrs s c"
proof -
  have "ptrs s ({(n, p)} \<union> (\<lambda>j. (n, q j)) ` {..<NADDR}) = ptrs s {(n, p)} + ptrs s ((\<lambda>j. (n, q j)) ` {..<NADDR})"
    using assms(4) by (intro ptrs_Un) auto
  also have "ptrs s ((\<lambda>j. (n, q j)) ` {..<NADDR}) = filter_mset (\<lambda>b. b \<noteq> 0) (mset (map (\<lambda>j. val s n (q j)) [0..<NADDR]))"
    using assms(3) by (subst ptrs_image) (auto simp: inj_on_def inj_def)
  also have "map (\<lambda>j. val s n (q j)) [0..<NADDR] = map (\<lambda>j. via s c j) [0..<NADDR]"
    using assms(2) by (intro map_cong) auto
  finally show ?thesis using assms(1)
    by (cases "c = 0") (auto simp: ptrs_single opt_def subptrs_def words_def via_def comp_def)
qed

lemma tree2_step:
  fixes n k :: nat
  shows "(\<lambda>i. (n, Lvl i)) ` {..<Suc k} \<union> (\<lambda>(i, j). (n, Dbl i j)) ` ({..<Suc k} \<times> {..<NADDR}) =
    ((\<lambda>i. (n, Lvl i)) ` {..<k} \<union> (\<lambda>(i, j). (n, Dbl i j)) ` ({..<k} \<times> {..<NADDR})) \<union>
    ({(n, Lvl k)} \<union> (\<lambda>j. (n, Dbl k j)) ` {..<NADDR})" (is "?L = ?R")
proof (rule set_eqI)
  fix x
  show "x \<in> ?L \<longleftrightarrow> x \<in> ?R" by (auto simp: less_Suc_eq)
qed

lemma ptrs_tree2: 
  "ptrs s (tree2 n) = (if iaddrs s n ! 12 = 0 then {#} else add_mset (iaddrs s n ! 12) (subptrs2 s (iaddrs s n ! 12) [0..<NADDR]))"
proof -
  let ?c = "iaddrs s n ! 12"
  let ?D = "\<lambda>k. (\<lambda>i. (n, Lvl i)) ` {..<k} \<union> (\<lambda>(i, j). (n, Dbl i j)) ` ({..<k} \<times> {..<NADDR})"
  have D: "ptrs s (?D k) = sum_list (map (\<lambda>i. subptrs s (via s ?c i)) [0..<k])" for k
  proof (induction k)
    case (Suc k)
    have "ptrs s (?D (Suc k)) = ptrs s (?D k) + ptrs s ({(n, Lvl k)} \<union> (\<lambda>j. (n, Dbl k j)) ` {..<NADDR})"
      unfolding tree2_step by (rule ptrs_Un) auto
    also have "ptrs s ({(n, Lvl k)} \<union> (\<lambda>j. (n, Dbl k j)) ` {..<NADDR}) = subptrs s (via s ?c k)"
      by (rule ptrs_fan) (auto simp: inj_def)
    finally show ?case using Suc by simp
  qed (simp add: ptrs_def)
  have "ptrs s (tree2 n) = ptrs s {(n, Dir 12)} + ptrs s (?D NADDR)"
    unfolding tree2_def by (rule ptrs_Un) auto
  also have "\<dots> = opt ?c + sum_list (map (\<lambda>i. subptrs s (via s ?c i)) [0..<NADDR])"
    by (simp only: D ptrs_single val.simps)
  also have "\<dots> = (if ?c = 0 then {#} else add_mset ?c (subptrs2 s ?c [0..<NADDR]))"
  proof (cases "?c = 0")
    case True
    then have z: "subptrs s (via s ?c i) = {#}" for i by (simp add: via_def subptrs_def)
    have "sum_list (map (\<lambda>i. subptrs s (via s ?c i)) xs) = {#}" for xs by (induction xs) (auto simp: z)
    with True show ?thesis by (simp add: opt_def)
  next
    case False
    then show ?thesis by (simp add: opt_def subptrs2_def via_def)
  qed
  finally show ?thesis .
qed

lemma tree_locs: "n \<in> inums s \<Longrightarrow> tree1 n \<subseteq> locs s" "n \<in> inums s \<Longrightarrow> tree2 n \<subseteq> locs s"
  by (auto simp: tree1_def tree2_def locs_def)

definition troot :: "nat \<Rightarrow> nat \<Rightarrow> (nat \<times> slot) set" where
  "troot i n = (if i < 11 then {(n, Dir i)} else if i = 11 then tree1 n else tree2 n)"

lemma val_detach:
  assumes inv: "ic_ok s" and h: "held s ip n" and i: "i < 13" and l: "slot_ok sl"
  shows "val (set_addr ip i 0 s) m sl = (if (m, sl) \<in> troot i n then 0 else val s m sl)"
proof -
  note A = iaddrs_set_addr [OF inv h] and L = iaddrs_held(2) [OF inv h]
  have w: "via (set_addr ip i 0 s) c j = via s c j" for c j by (simp add: via_def)
  have v0: "via s 0 j = 0" for j by (simp add: via_def)
  show ?thesis
  proof (cases "m = n")
    case False
    then have "(m, sl) \<notin> troot i n" by (auto simp: troot_def tree1_def tree2_def)
    with False show ?thesis by (cases sl) (simp_all add: A w)
  next
    case True
    have i3: "i = 11 \<or> i = 12 \<or> i < 11" using i by linarith
    show ?thesis
    proof (cases sl)
      case (Dir k)
      have "(m, sl) \<in> troot i n \<longleftrightarrow> k = i" using i3 True Dir by (auto simp: troot_def tree1_def tree2_def)
      then show ?thesis using Dir True L i by (simp add: A nth_list_update)
    next
      case (Ind j)
      have "(m, sl) \<in> troot i n \<longleftrightarrow> i = 11" using i3 True Ind l by (auto simp: troot_def tree1_def tree2_def)
      then show ?thesis using Ind True L i by (simp add: A w v0 nth_list_update)
    next
      case (Lvl j)
      have "(m, sl) \<in> troot i n \<longleftrightarrow> i = 12" using i3 True Lvl l by (auto simp: troot_def tree1_def tree2_def)
      then show ?thesis using Lvl True L i by (simp add: A w v0 nth_list_update)
    next
      case (Dbl j k)
      have "(m, sl) \<in> troot i n \<longleftrightarrow> i = 12" using i3 True Dbl l by (auto simp: troot_def tree1_def tree2_def)
      then show ?thesis using Dbl True L i by (simp add: A w v0 nth_list_update)
    qed
  qed
qed

lemma detach:
  assumes inv: "fs_inv P s" and h: "held s ip n" and i: "i < 13"
  shows "fs_inv (P + ptrs s (troot i n)) (set_addr ip i 0 s)"
proof (rule fs_inv_move)
  note I = fs_invD [OF inv]
  have n: "n \<in> inums s" using h by (simp add: held_def)
  have v: "val (set_addr ip i 0 s) m sl = (if (m, sl) \<in> troot i n then 0 else val s m sl)" if "(m, sl) \<in> locs s" for m sl
    using that by (intro val_detach [OF I(3) h i]) (simp add: locs_def)
  show D: "troot i n \<subseteq> locs s"
    using n i tree_locs [OF n] by (auto simp: troot_def intro: locsI)
  have "ptrs (set_addr ip i 0 s) (troot i n) = {#}"
  proof -
    have "val (set_addr ip i 0 s) (fst l) (snd l) = 0" if "l \<in> troot i n" for l
    proof -
      have "(fst l, snd l) \<in> locs s" using that D by auto
      from v [OF this] that show ?thesis by simp
    qed
    then show ?thesis using finite_subset [OF D finite_locs] by (auto simp: ptrs_def)
  qed
  then show "fs_inv (P + ptrs (set_addr ip i 0 s) (troot i n)) s" using inv by simp
  show "blks_ok (set_addr ip i 0 s)" using I(2) by (simp add: blks_ok_def)
  show "ic_ok (set_addr ip i 0 s)" by (rule ic_ok_set_addr [OF I(3)])
  show "val (set_addr ip i 0 s) m sl = val s m sl" if "(m, sl) \<in> locs s" "(m, sl) \<notin> troot i n" for m sl
    using v [OF that(1)] that(2) by simp
  show "bref s (val (set_addr ip i 0 s) m sl) = 1"
    if "(m, sl) \<in> troot i n" "meta sl" "val (set_addr ip i 0 s) m sl \<noteq> 0" for m sl
    using v [of m sl] that D by auto
qed simp_all

text \<open>The state after the references under the entry \<open>i\<close> of the inode are gone.\<close>

definition cleared :: "fs \<Rightarrow> nat \<Rightarrow> nat \<Rightarrow> nat \<Rightarrow> fs \<Rightarrow> bool" where
  "cleared s ip i n s' \<longleftrightarrow>
     fs_inv {#} s' \<and> fr s s' \<and> held s' ip n \<and> (\<forall>c. dstart (fs_sb s) \<le> c \<longrightarrow> blk s' c = blk s c) \<and>
     (\<forall>m sl. (m, sl) \<in> locs s \<longrightarrow> val s' m sl = (if (m, sl) \<in> troot i n then 0 else val s m sl))"

lemma clear_spec:
  assumes inv: "fs_inv {#} s" and h: "held s ip n" and i: "i < 13" and m: "ic_free m"
    and sp: "spec 0 (set_addr ip i 0 s) m (\<lambda>_ s'. calm (set_addr ip i 0 s) s' \<and> fs_inv {#} s')"
  shows "spec 0 s (bbind m (\<lambda>_ s. fret () (set_addr ip i 0 s))) (\<lambda>_ s'. cleared s ip i n s')"
proof -
  let ?G = "set_addr ip i 0"
  have "spec (0 + 0) s (bbind m (\<lambda>_ s. fret () (?G s))) (\<lambda>_ s'. cleared s ip i n s')"
  proof (rule spec_seq [OF spec_via [OF m sp]])
    fix x s1 assume A: "calm (?G s) (?G s1) \<and> fs_inv {#} (?G s1)"
    have f: "fr s (?G s1)" using A fr_trans [OF fr_set_addr] by (auto simp: calm_def)
    have "val (?G s1) a sl = (if (a, sl) \<in> troot i n then 0 else val s a sl)" if l: "(a, sl) \<in> locs s" for a sl
    proof -
      have "(a, sl) \<in> locs (?G s)" using l locs_cong [of "?G s" s] by simp
      then have "val (?G s1) a sl = val (?G s) a sl" using A by (simp add: calm_def)
      also have "\<dots> = (if (a, sl) \<in> troot i n then 0 else val s a sl)"
        using l by (intro val_detach [OF fs_invD(3) [OF inv] h i]) (simp add: locs_def)
      finally show ?thesis .
    qed
    then have "cleared s ip i n (?G s1)" using A f fr_held [OF f h] by (simp add: cleared_def calm_def)
    moreover have "nfree (?G s1) = nfree s1" by (intro nfree_cong) (auto simp: bit_set_def)
    ultimately show "spec 0 s1 (\<lambda>s. fret () (?G s)) (\<lambda>_ s'. cleared s ip i n s')" by (simp add: spec_def fret_def)
  qed
  then show ?thesis by simp
qed

lemma clear_none:
  assumes "fs_inv {#} s" "held s ip n" "i < 13" "iaddrs s n ! i = 0"
  shows "cleared s ip i n s"
proof -
  have "val s m sl = 0" if t: "(m, sl) \<in> troot i n" for m sl
  proof -
    consider "i < 11" | "i = 11" | "i = 12" using assms(3) by linarith
    then show ?thesis using t assms(4) by cases (auto simp: troot_def tree1_def tree2_def via_def)
  qed
  then show ?thesis using assms by (simp add: cleared_def)
qed

definition gone :: "fs \<Rightarrow> nat \<Rightarrow> nat set \<Rightarrow> nat \<Rightarrow> fs \<Rightarrow> bool" where
  "gone s ip K n s' \<longleftrightarrow>
     fs_inv {#} s' \<and> fr s s' \<and> held s' ip n \<and> (\<forall>c. dstart (fs_sb s) \<le> c \<longrightarrow> blk s' c = blk s c) \<and>
     (\<forall>m sl. (m, sl) \<in> locs s \<longrightarrow> val s' m sl = (if (\<exists>i \<in> K. (m, sl) \<in> troot i n) then 0 else val s m sl))"

lemma gone_step:
  assumes "gone s ip K n s'" "cleared s' ip i n s''"
  shows "gone s ip (insert i K) n s''"
proof -
  have sb: "fs_sb s' = fs_sb s" using assms(1) fr_sb by (auto simp: gone_def)
  have "fr s s''" using assms fr_trans by (auto simp: gone_def cleared_def)
  then show ?thesis using assms locs_cong [OF sb] by (simp add: gone_def cleared_def sb)
qed

lemma free_addr_spec:
  assumes inv: "fs_inv {#} s" and h: "held s ip n" and i: "i < 11"
  shows "spec 0 s (free_addr ip i) (\<lambda>_ s'. cleared s ip i n s')"
proof -
  have i13: "i < 13" using i by simp
  let ?a = "iaddrs s n ! i"
  have e: "i_addrs (icache s ! ip) = iaddrs s n" using iaddrs_held(1) [OF fs_invD(3) [OF inv] h] by simp
  show ?thesis
  proof (cases "?a = 0")
    case True
    then show ?thesis using clear_none [OF inv h i13 True] by (simp add: spec_def free_addr_def e fret_def)
  next
    case False
    have "fs_inv ({#} + ptrs s (troot i n)) (set_addr ip i 0 s)" by (rule detach [OF inv h i13])
    then have "fs_inv (add_mset ?a {#}) (set_addr ip i 0 s)" using i False by (simp add: troot_def ptrs_single opt_def)
    from clear_spec [OF inv h i13 ic_free_bfree bfree_calm [OF this]] False
    show ?thesis by (simp add: spec_def free_addr_def e Let_def)
  qed
qed

lemma free_addrs_spec:
  assumes "gone s ip K n s1" "\<forall>i \<in> set is. i < 11"
  shows "spec 0 s1 (ffor (free_addr ip) is) (\<lambda>_ s'. gone s ip (set is \<union> K) n s')"
  using assms
proof (induction "is" arbitrary: K s1)
  case Nil
  then show ?case by (simp add: ffor_Nil spec_ret)
next
  case (Cons i "is")
  have i: "i < 11" using Cons.prems by simp
  have g: "fs_inv {#} s1" "held s1 ip n" using Cons.prems(1) by (auto simp: gone_def)
  have "spec (0 + 0) s1 (bbind (free_addr ip i) (\<lambda>_. ffor (free_addr ip) is)) (\<lambda>_ s'. gone s ip (set (i # is) \<union> K) n s')"
  proof (rule spec_seq [OF free_addr_spec [OF g i]])
    fix u s2 assume "cleared s1 ip i n s2"
    from Cons.IH [OF gone_step [OF Cons.prems(1) this]] Cons.prems(2)
    show "spec 0 s2 (ffor (free_addr ip) is) (\<lambda>_ s'. gone s ip (set (i # is) \<union> K) n s')" by simp
  qed
  then show ?case by (simp add: ffor_Cons)
qed

lemma subptrs_set_addr: "subptrs (set_addr ip i a s) c = subptrs s c"
  by (cases "c = 0") (simp_all add: subptrs_def words_def)

lemma itrunc_single_spec:
  assumes inv: "fs_inv {#} s" and h: "held s ip n"
  shows "spec 0 s (\<lambda>s. let c = i_addrs (icache s ! ip) ! NDIRECT in
      if c \<noteq> 0 then bbind (free_indirect_block c) (\<lambda>_ s. fret () (set_addr ip NDIRECT 0 s)) s else fret () s)
    (\<lambda>_ s'. cleared s ip 11 n s')"
proof -
  let ?c = "iaddrs s n ! 11"
  have n: "n \<in> inums s" using h by (simp add: held_def)
  have e: "i_addrs (icache s ! ip) = iaddrs s n" using iaddrs_held(1) [OF fs_invD(3) [OF inv] h] by simp
  show ?thesis
  proof (cases "?c = 0")
    case True
    then show ?thesis using clear_none [OF inv h _ True] by (simp add: spec_def e fret_def)
  next
    case False
    have ds: "dstart (fs_sb s) \<le> ?c"
      using val_bref(2) [OF inv locsI [OF n], of "Dir 11"] False by simp
    have "fs_inv ({#} + ptrs s (troot 11 n)) (set_addr ip 11 0 s)" by (rule detach [OF inv h]) simp
    moreover have "subptrs (set_addr ip 11 0 s) ?c = subptrs s ?c" by (rule subptrs_set_addr)
    ultimately have "fs_inv ({#} + subptrs (set_addr ip 11 0 s) ?c) (set_addr ip 11 0 s)"
      by (simp add: troot_def ptrs_tree1)
    from free_indirect_spec [OF this] ds
    have "spec 0 (set_addr ip 11 0 s) (free_indirect_block ?c)
        (\<lambda>_ s'. calm (set_addr ip 11 0 s) s' \<and> fs_inv {#} s')" by simp
    from clear_spec [OF inv h _ ic_free_indirect this] False
    show ?thesis by (simp add: spec_def e Let_def)
  qed
qed

lemma itrunc_double_spec:
  assumes inv: "fs_inv {#} s" and h: "held s ip n"
  shows "spec 0 s (\<lambda>s. let c = i_addrs (icache s ! ip) ! (NDIRECT + 1) in
      if c \<noteq> 0 then bbind (free_double c) (\<lambda>_ s. fret () (set_addr ip (NDIRECT + 1) 0 s)) s else fret () s)
    (\<lambda>_ s'. cleared s ip 12 n s')"
proof -
  let ?c = "iaddrs s n ! 12" and ?s = "set_addr ip 12 0 s"
  have n: "n \<in> inums s" using h by (simp add: held_def)
  have e: "i_addrs (icache s ! ip) = iaddrs s n" using iaddrs_held(1) [OF fs_invD(3) [OF inv] h] by simp
  show ?thesis
  proof (cases "?c = 0")
    case True
    then show ?thesis using clear_none [OF inv h _ True] by (simp add: spec_def e fret_def)
  next
    case False
    have ds: "dstart (fs_sb s) \<le> ?c"
      using val_bref(2) [OF inv locsI [OF n], of "Dir 12"] False by simp
    have dl: "dstart (fs_sb s) \<le> addr_word (blk s ?c) i" if "i < NADDR" "addr_word (blk s ?c) i \<noteq> 0" for i
      using val_bref(2) [OF inv locsI [OF n], of "Lvl i"] False that by (simp add: via_def)
    have "fs_inv ({#} + ptrs s (troot 12 n)) ?s" by (rule detach [OF inv h]) simp
    moreover have "subptrs2 ?s ?c [0..<NADDR] = subptrs2 s ?c [0..<NADDR]"
      by (simp add: subptrs2_def subptrs_set_addr)
    ultimately have "fs_inv ({#} + add_mset ?c (subptrs2 ?s ?c [0..<NADDR])) ?s"
      using False by (simp add: troot_def ptrs_tree2)
    from free_double_spec [OF this] ds dl
    have "spec 0 ?s (free_double ?c) (\<lambda>_ s'. calm ?s s' \<and> fs_inv {#} s')" by simp
    from clear_spec [OF inv h _ ic_free_double this] False
    show ?thesis by (simp add: spec_def e Let_def)
  qed
qed

lemma itrunc_gone:
  assumes inv: "fs_inv {#} s" and h: "held s ip f"
  shows "spec 0 s (itrunc ip) (\<lambda>_ s'. \<exists>s3. gone s ip {..<13} f s3 \<and> s' = put_size ip 0 s3)"
proof -
  have g0: "gone s ip {} f s" using inv h by (simp add: gone_def)
  let ?Q = "\<lambda>_ s'. \<exists>s3. gone s ip {..<13} f s3 \<and> s' = put_size ip 0 s3"
  have "spec (0 + (0 + (0 + 0))) s (itrunc ip) ?Q"
    unfolding itrunc_def
  proof (rule spec_seq [OF free_addrs_spec [OF g0]])
    fix u s1 assume g1: "gone s ip (set [0..<NDIRECT] \<union> {}) f s1"
    then have i1: "fs_inv {#} s1" "held s1 ip f" by (auto simp: gone_def)
    show "spec (0 + (0 + 0)) s1 (bbind (\<lambda>s. let c = i_addrs (icache s ! ip) ! NDIRECT in
        if c \<noteq> 0 then bbind (free_indirect_block c) (\<lambda>_ s. fret () (set_addr ip NDIRECT 0 s)) s else fret () s)
      (\<lambda>_. bbind (\<lambda>s. let c = i_addrs (icache s ! ip) ! (NDIRECT + 1) in
        if c \<noteq> 0 then bbind (free_double c) (\<lambda>_ s. fret () (set_addr ip (NDIRECT + 1) 0 s)) s else fret () s)
      (\<lambda>_ s. fret () (iupdate ip (upd_inode ip (\<lambda>e. e\<lparr>i_size := 0\<rparr>) s))))) ?Q"
    proof (rule spec_seq [OF itrunc_single_spec [OF i1]])
      fix u s2 assume "cleared s1 ip 11 f s2"
      note g2 = gone_step [OF g1 this]
      then have i2: "fs_inv {#} s2" "held s2 ip f" by (auto simp: gone_def)
      show "spec (0 + 0) s2 (bbind (\<lambda>s. let c = i_addrs (icache s ! ip) ! (NDIRECT + 1) in
          if c \<noteq> 0 then bbind (free_double c) (\<lambda>_ s. fret () (set_addr ip (NDIRECT + 1) 0 s)) s else fret () s)
        (\<lambda>_ s. fret () (iupdate ip (upd_inode ip (\<lambda>e. e\<lparr>i_size := 0\<rparr>) s)))) ?Q"
      proof (rule spec_seq [OF itrunc_double_spec [OF i2]])
        fix u s3 assume "cleared s2 ip 12 f s3"
        note g3 = gone_step [OF g2 this]
        have "insert 12 (insert 11 (set [0..<NDIRECT] \<union> {})) = {..<13 :: nat}" by auto
        with g3 have g: "gone s ip {..<13} f s3" by simp
        then have "nfree (put_size ip 0 s3) = nfree s3" by (intro put_size_run(4)) (auto simp: gone_def)
        with g show "spec 0 s3 (\<lambda>s. fret () (iupdate ip (upd_inode ip (\<lambda>e. e\<lparr>i_size := 0\<rparr>) s))) ?Q"
          by (auto simp: spec_def fret_def put_size_def)
      qed
    qed
  qed simp
  then show ?thesis by simp
qed

lemma troot_all: "slot_ok sl \<Longrightarrow> \<exists>i \<in> {..<13}. (f, sl) \<in> troot i f"
proof (cases sl)
  case (Dir k)
  assume "slot_ok sl"
  then show ?thesis using Dir by (intro bexI [of _ k]) (auto simp: troot_def tree1_def tree2_def)
next
  case (Ind j)
  assume "slot_ok sl"
  then show ?thesis using Ind by (intro bexI [of _ 11]) (auto simp: troot_def tree1_def)
next
  case (Lvl j)
  assume "slot_ok sl"
  then show ?thesis using Lvl by (intro bexI [of _ 12]) (auto simp: troot_def tree2_def)
next
  case (Dbl j k)
  assume "slot_ok sl"
  then show ?thesis using Dbl by (intro bexI [of _ 12]) (auto simp: troot_def tree2_def)
qed

lemma troot_own: "(m, sl) \<in> troot i f \<Longrightarrow> m = f"
  by (auto simp: troot_def tree1_def tree2_def split: if_splits)

lemma gone_fbyte:
  assumes inv: "fs_inv {#} s" and g: "gone s ip K f s'" and m: "m \<in> inums s" "m \<noteq> f"
  shows "fbyte s' m x = fbyte s m x"
proof -
  have "dat s' m k = dat s m k" if k: "k < MAXFILE" for k
  proof (rule dat_cong)
    have lk: "(m, dslot k) \<in> locs s" using m dslot_ok [OF k] by (simp add: locs_def)
    show "val s' m (dslot k) = val s m (dslot k)" using g lk troot_own m(2) by (auto simp: gone_def)
    assume "val s m (dslot k) \<noteq> 0"
    from val_bref(2) [OF inv lk this] show "blk s' (val s m (dslot k)) = blk s (val s m (dslot k))"
      using g by (simp add: gone_def)
  qed
  then show ?thesis by (simp add: fbyte_def)
qed



end
