(* ===== verification/Share.thy ===== *)
theory Share
  imports Trunc
begin

section \<open>Sharing blocks between files\<close>

text \<open>
  \<^verbatim>\<open>kernel/filesystem/fs.c\<close>, the operations that make two files share data blocks: \<^verbatim>\<open>iclone\<close> (a whole
  file), \<^verbatim>\<open>iclone_range\<close> (a range of blocks) and \<^verbatim>\<open>idedup\<close> (blocks with equal contents). They raise
  the count of a block, enter it in a slot of the other file and drop the block that was there.
\<close>

subsection \<open>The operations\<close>

abbreviation (input) T_FILE :: nat where "T_FILE \<equiv> 2"

definition bref_inc_words :: "nat \<Rightarrow> unit fop" where
  "bref_inc_words c =
     ffor (\<lambda>j s. let a = addr_word (blk s c) j in if a \<noteq> 0 then bref_inc a s else fret () s) [0..<NADDR]"

definition iclone_addr :: "nat \<Rightarrow> nat \<Rightarrow> nat \<Rightarrow> unit fop" where
  "iclone_addr src dst i s =
     (let s = set_addr dst i (i_addrs (icache s ! src) ! i) s; a = i_addrs (icache s ! src) ! i
      in if a \<noteq> 0 then bref_inc a s else fret () s)"

text \<open>A copy of the indirect block \<open>c\<close> in the fresh block \<open>new\<close>.\<close>

definition iclone_words :: "nat \<Rightarrow> nat \<Rightarrow> unit fop" where
  "iclone_words c new s =
     bbind (bref_inc_words new) (\<lambda>_ s. fret () (logw new s)) (wblk new (blk s c) s)"

definition iclone_single :: "nat \<Rightarrow> nat \<Rightarrow> unit fop" where
  "iclone_single src dst s =
     (if i_addrs (icache s ! src) ! NDIRECT = 0 then fret () s
      else
        bbind balloc (\<lambda>new s.
          (let s = set_addr dst NDIRECT new s in iclone_words (i_addrs (icache s ! src) ! NDIRECT) new s)) s)"

definition iclone_level :: "nat \<Rightarrow> nat \<Rightarrow> nat \<Rightarrow> unit fop" where
  "iclone_level c new i s =
     (if addr_word (blk s c) i = 0 then fret () s
      else
        bbind balloc (\<lambda>l1 s.
          (let s = wblk new (put32 (blk s new) (4 * i) l1) s in iclone_words (addr_word (blk s c) i) l1 s)) s)"

definition iclone_levels :: "nat \<Rightarrow> nat \<Rightarrow> unit fop" where
  "iclone_levels c new s =
     bbind (ffor (iclone_level c new) [0..<NADDR]) (\<lambda>_ s. fret () (logw new s)) (wblk new zeros s)"

definition iclone_double :: "nat \<Rightarrow> nat \<Rightarrow> unit fop" where
  "iclone_double src dst s =
     (if i_addrs (icache s ! src) ! (NDIRECT + 1) = 0 then fret () s
      else
        bbind balloc (\<lambda>new s.
          (let s = set_addr dst (NDIRECT + 1) new s
           in iclone_levels (i_addrs (icache s ! src) ! (NDIRECT + 1)) new s)) s)"

definition iclone :: "nat \<Rightarrow> nat \<Rightarrow> int fop" where
  "iclone src dst s =
     (if i_type (icache s ! src) \<noteq> T_FILE \<or> i_type (icache s ! dst) \<noteq> T_FILE then fret (- 1) s
      else
        bbind (ffor (iclone_addr src dst) [0..<NDIRECT]) (\<lambda>_.
        bbind (iclone_single src dst) (\<lambda>_.
        bbind (iclone_double src dst) (\<lambda>_ s.
        fret 0 (iupdate dst s))))
        (upd_inode dst (\<lambda>e. e\<lparr>i_mode := i_mode (icache s ! src), i_size := i_size (icache s ! src)\<rparr>) s))"

text \<open>
  The loops of \<^verbatim>\<open>iclone_range\<close> and \<^verbatim>\<open>idedup\<close>: a turn that returns \<open>None\<close> is the early return of \<open>-1\<close>;
  otherwise it hands the loop's variables on.
\<close>

fun turns :: "(nat \<Rightarrow> 'a \<Rightarrow> 'a option fop) \<Rightarrow> nat list \<Rightarrow> 'a \<Rightarrow> 'a option fop" where
  "turns body [] x = fret (Some x)"
| "turns body (k # ks) x = bbind (body k x) (\<lambda>r. case r of None \<Rightarrow> fret None | Some y \<Rightarrow> turns body ks y)"

definition unref :: "nat \<Rightarrow> 'a option fop" where
  "unref a = bbind (bref_dec a) (\<lambda>_. fret None)"

definition clone_range_turn :: "nat \<Rightarrow> nat \<Rightarrow> nat \<Rightarrow> nat \<Rightarrow> nat \<Rightarrow> bool \<Rightarrow> bool option fop" where
  "clone_range_turn src dst srcb dstb bn upd s =
     (let a = bmap_nalloc src ((srcb + bn) mod 4294967296) s; db = (dstb + bn) mod 4294967296;
          d = bmap_nalloc dst db s
      in
       if a = 0 then
         if d \<noteq> 0 then
           bbind (bmap_set_existing dst db 0) (\<lambda>r.
             if r < 0 then fret None else bbind (bfree d) (\<lambda>_. fret (Some (upd \<or> r = 1)))) s
         else fret (Some upd) s
       else if d = a then fret (Some upd) s
       else
         bbind (bref_inc a) (\<lambda>_.
         bbind (bmap_ensure dst db) (\<lambda>r.
           if r < 0 then unref a
           else
             bbind (bmap_set_existing dst db a) (\<lambda>r'.
               if r' < 0 then unref a
               else bbind (if d \<noteq> 0 then bfree d else fret ()) (\<lambda>_. fret (Some (upd \<or> r = 1 \<or> r' = 1)))))) s)"

definition iclone_range :: "nat \<Rightarrow> nat \<Rightarrow> nat \<Rightarrow> nat \<Rightarrow> nat \<Rightarrow> int fop" where
  "iclone_range src dst src_off dst_off len s =
     (if i_type (icache s ! src) \<noteq> T_FILE \<or> i_type (icache s ! dst) \<noteq> T_FILE then fret (- 1) s
      else if i_dev (icache s ! src) \<noteq> i_dev (icache s ! dst) then fret (- 1) s
      else
        bbind (turns (clone_range_turn src dst (src_off div BSIZE) (dst_off div BSIZE)) [0..<len div BSIZE] False) (\<lambda>r s.
          case r of
            None \<Rightarrow> fret (- 1) s
          | Some upd \<Rightarrow>
              (let z = (dst_off + len) mod 4294967296; grow = (z > i_size (icache s ! dst));
                   s = (if grow then upd_inode dst (\<lambda>e. e\<lparr>i_size := z\<rparr>) s else s)
               in fret 0 (if upd \<or> grow then iupdate dst s else s))) s)"

definition dedup_turn :: "nat \<Rightarrow> nat \<Rightarrow> nat \<Rightarrow> int \<times> bool \<Rightarrow> (int \<times> bool) option fop" where
  "dedup_turn src dst bn x s =
     (let (shared, upd) = x; a = bmap_nalloc src bn s; d = bmap_nalloc dst bn s in
      if a = 0 \<or> d = 0 \<or> a = d then fret (Some x) s
      else if blk s a \<noteq> blk s d then fret (Some x) s
      else
        bbind (bref_inc a) (\<lambda>_.
        bbind (bmap_set_existing dst bn a) (\<lambda>r.
          if r < 0 then unref a
          else bbind (bfree d) (\<lambda>_. fret (Some (i32 (shared + 1), upd \<or> r = 1))))) s)"

definition idedup :: "nat \<Rightarrow> nat \<Rightarrow> int fop" where
  "idedup src dst s =
     (let e = icache s ! src; g = icache s ! dst in
      if i_type e \<noteq> T_FILE \<or> i_type g \<noteq> T_FILE then fret (- 1) s
      else if i_dev e \<noteq> i_dev g then fret (- 1) s
      else if i_inum e = i_inum g then fret 0 s
      else
        bbind (turns (dedup_turn src dst) [0..<min ((i_size e + (BSIZE - 1)) mod 4294967296 div BSIZE)
                                                   ((i_size g + (BSIZE - 1)) mod 4294967296 div BSIZE)] (0, False)) (\<lambda>r s.
          case r of
            None \<Rightarrow> fret (- 1) s
          | Some (shared, upd) \<Rightarrow> fret shared (if upd then iupdate dst s else s)) s)"

subsection \<open>Entering another block in a slot\<close>

lemma via_nz: "via s c j \<noteq> 0 \<Longrightarrow> c \<noteq> 0"
  by (simp add: via_def split: if_splits)

lemma ptr_at_dslot:
  assumes "ptr_at s n p (dslot bn)" "bn < MAXFILE"
  obtains (direct) "bn < 11" "p = PAddr bn"
  | (single) "\<not> bn < 11" "bn - 11 < NADDR" "val s n (Dir 11) \<noteq> 0" "p = PBlk (val s n (Dir 11)) (bn - 11)"
  | (double) "\<not> bn < 11" "\<not> bn - 11 < NADDR" "val s n (Lvl ((bn - 11 - NADDR) div NADDR)) \<noteq> 0"
      "p = PBlk (val s n (Lvl ((bn - 11 - NADDR) div NADDR))) ((bn - 11 - NADDR) mod NADDR)"
proof (cases p)
  case (PAddr i)
  then have "dslot bn = Dir i" using assms(1) by simp
  then have "bn < 11" "p = PAddr bn" using PAddr by (auto simp: dslot_def split: if_splits)
  then show thesis by (rule direct)
next
  case (PBlk c j)
  then obtain q where q: "c \<noteq> 0" "slot_ok q" "meta q" "val s n q = c" "dslot bn = child q j" using assms(1) by auto
  have nd: "\<not> bn < 11"
    using child_eq(1) [OF q(2,3), of bn j] q(5) by (auto simp: dslot_def)
  show thesis
  proof (cases "bn - 11 < NADDR")
    case True
    then have "Ind (bn - 11) = child q j" using q(5) nd by (simp add: dslot_def)
    then have "q = Dir 11" "j = bn - 11" using child_eq(2) [OF q(2,3)] by auto
    then show thesis using single nd True PBlk q(1,4) by blast
  next
    case False
    then have "Dbl ((bn - 11 - NADDR) div NADDR) ((bn - 11 - NADDR) mod NADDR) = child q j" using q(5) nd by (simp add: dslot_def)
    then have "q = Lvl ((bn - 11 - NADDR) div NADDR)" "j = (bn - 11 - NADDR) mod NADDR" using child_eq(4) [OF q(2,3)] by auto
    then show thesis using double nd False PBlk q(1,4) by blast
  qed
qed

lemma set_existing_run:
  assumes ic: "ic_ok s" and h: "held s ip n" and bn: "bn < MAXFILE" and at: "ptr_at s n p (dslot bn)"
  shows "bmap_set_existing ip bn x s = (BRet (if bn < 11 then 1 else 0), ptr_set ip p x s)"
proof -
  note A = iaddrs_held(1) [OF ic h]
  from at bn show ?thesis
  proof (cases rule: ptr_at_dslot)
    case double
    then have v: "via s (iaddrs s n ! 12) ((bn - 11 - NADDR) div NADDR) \<noteq> 0" by simp
    then have z: "iaddrs s n ! 12 \<noteq> 0" by (rule via_nz)
    then have w: "addr_word (blk s (iaddrs s n ! 12)) ((bn - 11 - NADDR) div NADDR) \<noteq> 0" using v by (simp add: via_def)
    have lt: "bn - 11 - NADDR < NDINDIRECT" using bn double(1) by simp
    show ?thesis using double(1,2,4) lt z w by (simp add: bmap_set_existing_def Let_def fret_def via_def flip: A)
  qed (simp_all add: bmap_set_existing_def Let_def fret_def flip: A)
qed

lemma mapped_ptr_at:
  assumes "val s n (dslot bn) \<noteq> 0" "bn < MAXFILE"
  obtains p where "ptr_at s n p (dslot bn)"
proof -
  consider "bn < 11" | "\<not> bn < 11" "bn - 11 < NADDR" | "\<not> bn < 11" "\<not> bn - 11 < NADDR" by blast
  then show thesis
  proof cases
    case 1
    then have "ptr_at s n (PAddr bn) (dslot bn)" by (simp add: dslot_def)
    then show thesis by (rule that)
  next
    case 2
    let ?c = "val s n (Dir 11)"
    have "via s ?c (bn - 11) \<noteq> 0" using assms(1) 2 by (simp add: dslot_def)
    then have "?c \<noteq> 0" by (rule via_nz)
    moreover have "dslot bn = child (Dir 11) (bn - 11)" using 2 by (simp add: dslot_def)
    ultimately have "ptr_at s n (PBlk ?c (bn - 11)) (dslot bn)"
      unfolding ptr_at.simps using 2(2) by (intro conjI exI [of _ "Dir 11"]) auto
    then show thesis by (rule that)
  next
    case 3
    define i where "i = (bn - 11 - NADDR) div NADDR"
    define j where "j = (bn - 11 - NADDR) mod NADDR"
    let ?c = "val s n (Lvl i)"
    have d: "dslot bn = Dbl i j" using 3 by (simp add: dslot_def i_def j_def)
    have "via s ?c j \<noteq> 0" using assms(1) d by simp
    then have "?c \<noteq> 0" by (rule via_nz)
    moreover have "dslot bn = child (Lvl i) j" "slot_ok (Lvl i)" "j < NADDR" using d assms(2) 3 by (auto simp: i_def j_def)
    ultimately have "ptr_at s n (PBlk ?c j) (dslot bn)"
      unfolding ptr_at.simps by (intro conjI exI [of _ "Lvl i"]) auto
    then show thesis by (rule that)
  qed
qed

text \<open>
  \<open>remapped s n bn x s'\<close>: the slot of block \<open>bn\<close> of file \<open>n\<close> holds \<open>x\<close>; every other slot and the
  contents of all data blocks are as before.
\<close>

definition remapped :: "fs \<Rightarrow> nat \<Rightarrow> nat \<Rightarrow> nat \<Rightarrow> fs \<Rightarrow> bool" where
  "remapped s n bn x s' \<longleftrightarrow>
     fs_inv {#} s' \<and> fr s s' \<and>
     (\<forall>m k. (m, k) \<in> locs s \<and> \<not> meta k \<longrightarrow> val s' m k = (if m = n \<and> k = dslot bn then x else val s m k)) \<and>
     (\<forall>b. isdata s b \<and> bref s b > 0 \<and> dstart (fs_sb s) \<le> b \<longrightarrow> blk s' b = blk s b)"

lemma remapped_dat:
  assumes inv: "fs_inv P s" and r: "remapped s n bn x s'" and bn: "bn < MAXFILE"
    and x: "x \<noteq> 0 \<Longrightarrow> isdata s x \<and> bref s x > 0 \<and> dstart (fs_sb s) \<le> x" and mk: "m \<in> inums s" "k < MAXFILE"
  shows "dat s' m k = (if m = n \<and> k = bn then if x = 0 then zeros else blk s x else dat s m k)"
proof -
  have l: "(m, dslot k) \<in> locs s" "\<not> meta (dslot k)" using mk dslot_ok [of k] by (auto intro: locsI)
  have v: "val s' m (dslot k) = (if m = n \<and> k = bn then x else val s m (dslot k))"
    using r l dslot_inj [OF mk(2) bn] by (simp add: remapped_def)
  show ?thesis
  proof (cases "m = n \<and> k = bn")
    case True
    then show ?thesis using v x r by (simp add: dat_def remapped_def)
  next
    case False
    have "dat s' m k = dat s m k"
    proof (rule dat_cong)
      show "val s' m (dslot k) = val s m (dslot k)" using v False by auto
      assume nz: "val s m (dslot k) \<noteq> 0"
      then show "blk s' (val s m (dslot k)) = blk s (val s m (dslot k))"
        using r data_isdata [OF inv l nz] val_bref [OF inv l(1) nz] by (simp add: remapped_def)
    qed
    then show ?thesis using False by auto
  qed
qed

lemma swap_spec:
  assumes inv: "fs_inv (opt x) s" and h: "held s ip n" and bn: "bn < MAXFILE" and at: "ptr_at s n p (dslot bn)"
    and d: "val s n (dslot bn) = d"
  shows "spec 0 s (bbind (bmap_set_existing ip bn x) (\<lambda>r.
      if r < 0 then e r else bbind (if d \<noteq> 0 then bfree d else fret ()) (\<lambda>_. fret (g r))))
    (\<lambda>y s'. y = g (if bn < 11 then 1 else 0) \<and> remapped s n bn x s' \<and> (bn < 11 \<or> icache s' = icache s))"
    (is "spec 0 s ?m ?Q")
proof -
  let ?r = "(if bn < 11 then 1 else 0) :: int" and ?s1 = "ptr_set ip p x s" and ?sl = "dslot bn"
  have n: "n \<in> inums s" using h by (simp add: held_def)
  have l: "(n, ?sl) \<in> locs s" "\<not> meta ?sl" using dslot_ok [OF bn] n by (auto intro: locsI)
  have inv0: "fs_inv ({#} + opt x) s" using inv by simp
  have m1: "moved s n ?sl x ?s1" and i1: "fs_inv (opt d) ?s1"
    using ptr_set_moved [OF inv0 h at] l(2) d by auto
  have sb: "fs_sb ?s1 = fs_sb s" using m1 by (simp add: moved_def fr_def)
  have L: "locs ?s1 = locs s" by (rule locs_cong [OF sb])
  have ic: "bn < 11 \<or> icache ?s1 = icache s"
    using at bn by (cases rule: ptr_at_dslot) auto
  have run: "?m s = bbind (if d \<noteq> 0 then bfree d else fret ()) (\<lambda>_. fret (g ?r)) ?s1"
    by (simp add: bbind_def set_existing_run [OF fs_invD(3) [OF inv] h bn at])
  have fin: "?Q (g ?r) s2" if "fs_inv {#} s2" "calm ?s1 s2" for s2
  proof -
    have "fr s s2" using m1 that(2) fr_trans by (auto simp: moved_def calm_def)
    moreover have "val s2 m k = (if m = n \<and> k = ?sl then x else val s m k)" if "(m, k) \<in> locs s" for m k
      using m1 \<open>calm ?s1 s2\<close> that by (simp add: moved_def calm_def L)
    moreover have "blk s2 b = blk s b" if "isdata s b" "dstart (fs_sb s) \<le> b" for b
      using m1 \<open>calm ?s1 s2\<close> that sb by (simp add: moved_def calm_def)
    ultimately show ?thesis using that ic by (auto simp: remapped_def calm_def)
  qed
  have "spec 0 ?s1 (bbind (if d \<noteq> 0 then bfree d else fret ()) (\<lambda>_. fret (g ?r))) ?Q"
  proof (cases "d = 0")
    case True
    then show ?thesis using fin [of ?s1] i1 by (simp add: spec_def bbind_def fret_def opt_def)
  next
    case False
    then have i2: "fs_inv (add_mset d {#}) ?s1" using i1 by (simp add: opt_def)
    have "spec (0 + 0) ?s1 (bbind (bfree d) (\<lambda>_. fret (g ?r))) ?Q"
      by (rule spec_seq [OF bfree_calm [OF i2]]) (use fin in \<open>auto intro: spec_ret\<close>)
    then show ?thesis using False by simp
  qed
  moreover have "nfree ?s1 = nfree s" using m1 by (simp add: moved_def)
  ultimately show ?thesis by (simp only: spec_def run)
qed

lemma turns_spec:
  assumes step: "\<And>k x s. k < n \<Longrightarrow> I k x s \<Longrightarrow> spec b s (body k x) (\<lambda>r s'. \<exists>y. r = Some y \<and> I (Suc k) y s')"
    and i: "I k x s" "k \<le> n"
  shows "spec (b * (n - k)) s (turns body [k..<n] x) (\<lambda>r s'. \<exists>y. r = Some y \<and> I n y s')"
  using i
proof (induction "n - k" arbitrary: k x s)
  case 0
  then show ?case by (simp add: spec_ret)
next
  case (Suc d)
  then have k: "k < n" by simp
  let ?t = "\<lambda>r. case r of None \<Rightarrow> fret None | Some y \<Rightarrow> turns body [Suc k..<n] y"
  have "spec (b + b * (n - Suc k)) s (bbind (body k x) ?t) (\<lambda>r s'. \<exists>y. r = Some y \<and> I n y s')"
  proof (rule spec_seq [OF step [OF k Suc.prems(1)]])
    fix r s' assume "\<exists>y. r = Some y \<and> I (Suc k) y s'"
    then obtain y where "r = Some y" "I (Suc k) y s'" by blast
    then show "spec (b * (n - Suc k)) s' (?t r) (\<lambda>r s'. \<exists>y. r = Some y \<and> I n y s')"
      using Suc.hyps(1) [of "Suc k" y s'] Suc.hyps(2) k by simp
  qed
  moreover have "b + b * (n - Suc k) = b * (n - k)" using k by (simp add: Suc_diff_Suc flip: mult_Suc_right)
  ultimately show ?case using k by (simp add: upt_conv_Cons)
qed

text \<open>The end of the operations: the inode on disk is that in memory, if it was before.\<close>

definition in_step :: "fs \<Rightarrow> nat \<Rightarrow> nat \<Rightarrow> fs \<Rightarrow> bool" where
  "in_step s ip n s' \<longleftrightarrow>
     (let b = IBLOCK n (fs_sb s) in
      blk s' b = blk s b \<and> icache s' ! ip = icache s ! ip \<or> blk s' b = din_put (blk s b) n (icache s' ! ip))"

lemma fr_IBLOCK: "fr s s' \<Longrightarrow> lay_ok (fs_sb s) \<Longrightarrow> n \<in> inums s \<Longrightarrow> blk s' (IBLOCK n (fs_sb s)) = blk s (IBLOCK n (fs_sb s))"
  using inum_IBLOCK by (simp add: fr_def)

lemma iupdate_in_step:
  assumes inv: "fs_inv P s" and h: "held s ip n" and f: "fr s s1" and i1: "fs_inv Q s1"
  shows "in_step s ip n (iupdate ip s1)"
proof -
  have n: "n \<in> inums s" using h by (simp add: held_def)
  note V = iupdate_run [OF i1 fr_held [OF f h]]
  have "blk (iupdate ip s1) (IBLOCK n (fs_sb s)) = din_put (blk s (IBLOCK n (fs_sb s))) n (icache (iupdate ip s1) ! ip)"
    using V(9) V(4) fr_sb [OF f] fr_IBLOCK [OF f fs_invD(1) [OF inv] n] by simp
  then show ?thesis by (simp add: in_step_def Let_def)
qed

lemma iupdate_dat:
  assumes inv: "fs_inv P s" and h: "held s ip f"
  shows "eq_dat s (iupdate ip s)"
proof -
  have "put_size ip (i_size (icache s ! ip)) s = iupdate ip s" by (simp add: put_size_def upd_size_same)
  then show ?thesis using put_size_dat [OF inv h, of "i_size (icache s ! ip)"] by simp
qed

subsection \<open>Deduplication\<close>

text \<open>The two files have the same contents in different blocks at \<open>k\<close>.\<close>

definition twins :: "fs \<Rightarrow> nat \<Rightarrow> nat \<Rightarrow> nat \<Rightarrow> bool" where
  "twins s f g k \<longleftrightarrow>
     k < MAXFILE \<and> val s f (dslot k) \<noteq> 0 \<and> val s g (dslot k) \<noteq> 0 \<and> val s f (dslot k) \<noteq> val s g (dslot k) \<and>
     blk s (val s f (dslot k)) = blk s (val s g (dslot k))"

lemma val_bref_upd [simp]: "val (s\<lparr>bref := r\<rparr>) n sl = val s n sl"
proof -
  have "iaddrs (s\<lparr>bref := r\<rparr>) n = iaddrs s n" by (rule iaddrs_cong) simp_all
  then show ?thesis by (cases sl) (simp_all add: via_def)
qed

lemma dedup_turn_spec:
  assumes inv: "fs_inv {#} s" and h: "held s src f" "held s dst g" "f \<noteq> g"
  shows "spec 0 s (dedup_turn src dst bn (c, u)) (\<lambda>y s'.
    if twins s f g bn then
      y = Some (i32 (c + 1), u \<or> bn < 11) \<and> remapped s g bn (val s f (dslot bn)) s' \<and> (bn < 11 \<or> icache s' = icache s)
    else y = Some (c, u) \<and> s' = s)"
proof -
  let ?a = "val s f (dslot bn)" and ?d = "val s g (dslot bn)"
  note I = fs_invD [OF inv] and B = bmap_nalloc_val [OF fs_invD(3) [OF inv]]
  show ?thesis
  proof (cases "twins s f g bn")
    case False
    then show ?thesis by (auto simp: dedup_turn_def B [OF h(1)] B [OF h(2)] twins_def Let_def spec_def fret_def)
  next
    case True
    then have t: "bn < MAXFILE" "?a \<noteq> 0" "?d \<noteq> 0" "?a \<noteq> ?d" "blk s ?a = blk s ?d" by (auto simp: twins_def)
    have fi: "f \<in> inums s" using h(1) by (simp add: held_def)
    have l: "(f, dslot bn) \<in> locs s" "\<not> meta (dslot bn)" using dslot_ok [OF t(1)] fi by (auto intro: locsI)
    let ?s1 = "s\<lparr>bref := (bref s)(?a := bref s ?a + 1)\<rparr>"
    have m: "val s n sl \<noteq> ?a" if "(n, sl) \<in> locs s" "meta sl" for n sl
      using data_isdata [OF inv l t(2)] that by (auto simp: isdata_def)
    note R = bref_inc_run [OF inv val_bref(2,3,1) [OF inv l(1) t(2)] _ m]
    have r1: "bref_inc ?a s = (BRet (), ?s1)" and i1: "fs_inv (opt ?a) ?s1"
      using R t(2) by (simp_all add: opt_def)
    have v1: "val ?s1 n sl = val s n sl" for n sl by simp
    have h1: "held ?s1 dst g" using h(2) by (simp add: held_def inums_def)
    obtain p where "ptr_at s g p (dslot bn)" using mapped_ptr_at [OF t(3,1)] .
    then have at: "ptr_at ?s1 g p (dslot bn)" by (rule ptr_at_cong [OF v1])
    have vd: "val ?s1 g (dslot bn) = ?d" by (rule v1)
    note S = swap_spec [OF i1 h1 t(1) at vd, where e = "\<lambda>_. unref ?a" and g = "\<lambda>r. Some (i32 (c + 1), u \<or> r = 1)"]
    have run: "dedup_turn src dst bn (c, u) s = bbind (bmap_set_existing dst bn ?a) (\<lambda>r. if r < 0 then unref ?a
        else bbind (if ?d \<noteq> 0 then bfree ?d else fret ()) (\<lambda>_. fret (Some (i32 (c + 1), u \<or> r = 1)))) ?s1"
      using t by (simp add: dedup_turn_def B [OF h(1)] B [OF h(2)] Let_def bbind_def [of "bref_inc _"] r1)
    have nf: "nfree ?s1 = nfree s" by (intro nfree_cong) (auto simp: bit_set_def)
    have rm: "remapped s g bn ?a s'" if "remapped ?s1 g bn ?a s'" for s'
    proof -
      have "locs ?s1 = locs s" by (rule locs_cong) simp
      then show ?thesis using that by (simp add: remapped_def v1 fr_def wal_def isdata_def)
    qed
    have "spec 0 ?s1 (bbind (bmap_set_existing dst bn ?a) (\<lambda>r. if r < 0 then unref ?a
        else bbind (if ?d \<noteq> 0 then bfree ?d else fret ()) (\<lambda>_. fret (Some (i32 (c + 1), u \<or> r = 1)))))
      (\<lambda>y s'. y = Some (i32 (c + 1), u \<or> bn < 11) \<and> remapped s g bn ?a s' \<and> (bn < 11 \<or> icache s' = icache s))"
      by (rule spec_mono [OF S]) (use rm in auto)
    then show ?thesis using True by (simp only: spec_def run nf if_True)
  qed
qed

definition dedup_state :: "fs \<Rightarrow> nat \<Rightarrow> nat \<Rightarrow> nat \<Rightarrow> nat \<Rightarrow> int \<times> bool \<Rightarrow> fs \<Rightarrow> bool" where
  "dedup_state s0 dst f g k x s \<longleftrightarrow>
     fs_inv {#} s \<and> fr s0 s \<and> eq_dat s0 s \<and>
     (\<forall>m j. m \<in> inums s0 \<and> j < MAXFILE \<longrightarrow>
        val s m (dslot j) = (if m = g \<and> j < k \<and> twins s0 f g j then val s0 f (dslot j) else val s0 m (dslot j))) \<and>
     fst x = int (card {j. j < k \<and> twins s0 f g j}) \<and> (snd x \<or> icache s ! dst = icache s0 ! dst)"

lemma dedup_twins:
  assumes D: "dedup_state s0 dst f g k x s" and fg: "f \<in> inums s0" "g \<in> inums s0" "f \<noteq> g"
  shows "twins s f g k \<longleftrightarrow> twins s0 f g k"
proof (cases "k < MAXFILE")
  case True
  have v: "val s f (dslot k) = val s0 f (dslot k)" "val s g (dslot k) = val s0 g (dslot k)"
    using D fg True by (auto simp: dedup_state_def)
  have "dat s f k = dat s0 f k" "dat s g k = dat s0 g k" using D fg True by (auto simp: dedup_state_def eq_dat_def)
  then show ?thesis using v by (auto simp: twins_def dat_def Let_def split: if_splits)
qed (simp add: twins_def)

lemma twins_count: "card {j. j < k \<and> twins s f g j} \<le> MAXFILE"
  using card_mono [of "{..<MAXFILE}" "{j. j < k \<and> twins s f g j}"] by (auto simp: twins_def)

lemma dedup_step:
  assumes D: "dedup_state s0 dst f g k x s" and h: "held s0 src f" "held s0 dst g" "f \<noteq> g"
  shows "spec 0 s (dedup_turn src dst k x) (\<lambda>r s'. \<exists>y. r = Some y \<and> dedup_state s0 dst f g (Suc k) y s')"
proof -
  obtain c u where x: "x = (c, u)" by (cases x)
  have S: "fs_inv {#} s" "fr s0 s" "eq_dat s0 s" "c = int (card {j. j < k \<and> twins s0 f g j})"
    "u \<or> icache s ! dst = icache s0 ! dst" using D x by (auto simp: dedup_state_def)
  have fg: "f \<in> inums s0" "g \<in> inums s0" using h by (auto simp: held_def)
  have sb: "fs_sb s = fs_sb s0" using fr_sb [OF S(2)] .
  have in1: "inums s = inums s0" by (simp add: inums_def sb)
  have hs: "held s src f" "held s dst g" using fr_held [OF S(2)] h by auto
  note tw = dedup_twins [OF D fg h(3)]
  have set: "{j. j < Suc k \<and> twins s0 f g j} = (if twins s0 f g k then insert k {j. j < k \<and> twins s0 f g j} else {j. j < k \<and> twins s0 f g j})"
    by (auto simp: less_Suc_eq)
  show ?thesis
    unfolding x
  proof (rule spec_mono [OF dedup_turn_spec [OF S(1) hs h(3)]])
    fix r s' assume A: "if twins s f g k then r = Some (i32 (c + 1), u \<or> k < 11) \<and> remapped s g k (val s f (dslot k)) s' \<and>
        (k < 11 \<or> icache s' = icache s) else r = Some (c, u) \<and> s' = s"
    show "\<exists>y. r = Some y \<and> dedup_state s0 dst f g (Suc k) y s'"
    proof (cases "twins s f g k")
      case False
      then have "r = Some (c, u)" "s' = s" "\<not> twins s0 f g k" using A tw by auto
      moreover have "dedup_state s0 dst f g (Suc k) (c, u) s"
        using D calculation(3) unfolding x dedup_state_def set by (auto simp: less_Suc_eq)
      ultimately show ?thesis by blast
    next
      case True
      then have r: "r = Some (i32 (c + 1), u \<or> k < 11)" "remapped s g k (val s f (dslot k)) s'" "k < 11 \<or> icache s' = icache s"
        using A by auto
      have t: "k < MAXFILE" "val s f (dslot k) \<noteq> 0" "val s g (dslot k) \<noteq> 0" "blk s (val s f (dslot k)) = blk s (val s g (dslot k))"
        using True by (auto simp: twins_def)
      have l: "(f, dslot k) \<in> locs s" "\<not> meta (dslot k)" using dslot_ok [OF t(1)] fg in1 by (auto intro: locsI)
      have "dat s' m j = dat s m j" if mj: "m \<in> inums s" "j < MAXFILE" for m j
        using remapped_dat [OF S(1) r(2) t(1) _ mj] data_isdata [OF S(1) l t(2)] val_bref [OF S(1) l(1) t(2)] t
        by (auto simp: dat_def)
      then have "eq_dat s s'" by (simp add: eq_dat_def)
      then have e: "eq_dat s0 s'" using eq_dat_trans [OF S(3) _ sb] by blast
      have f: "fr s0 s'" using fr_trans [OF S(2)] r(2) by (simp add: remapped_def)
      have c': "i32 (c + 1) = int (card {j. j < Suc k \<and> twins s0 f g j})"
      proof -
        have "card {j. j < Suc k \<and> twins s0 f g j} = Suc (card {j. j < k \<and> twins s0 f g j})" using True tw by (simp add: set)
        moreover have "i32 (c + 1) = c + 1" using twins_count [of k s0 f g] S(4) by (intro i32_id) auto
        ultimately show ?thesis using S(4) by simp
      qed
      have v: "val s' m (dslot j) = (if m = g \<and> j < Suc k \<and> twins s0 f g j then val s0 f (dslot j) else val s0 m (dslot j))"
        if mj: "m \<in> inums s0" "j < MAXFILE" for m j
      proof -
        have lj: "(m, dslot j) \<in> locs s" "\<not> meta (dslot j)" using dslot_ok [OF mj(2)] mj(1) in1 by (auto intro: locsI)
        have "val s' m (dslot j) = (if m = g \<and> j = k then val s f (dslot k) else val s m (dslot j))"
          using r(2) lj dslot_inj [OF mj(2) t(1)] by (simp add: remapped_def)
        moreover have "val s f (dslot k) = val s0 f (dslot k)" using D fg(1) t(1) h(3) by (simp add: dedup_state_def)
        moreover have "twins s0 f g k" using True tw by simp
        ultimately show ?thesis using D mj by (auto simp: dedup_state_def less_Suc_eq)
      qed
      have "dedup_state s0 dst f g (Suc k) (i32 (c + 1), u \<or> k < 11) s'"
        using r f e c' v S(5) by (auto simp: dedup_state_def remapped_def)
      with r(1) show ?thesis by blast
    qed
  qed simp
qed

definition nblocks_of :: "inode \<Rightarrow> nat" where
  "nblocks_of e = (i_size e + (BSIZE - 1)) mod 4294967296 div BSIZE"

lemma idedup_run:
  assumes inv: "fs_inv {#} s" and h: "held s src f" "held s dst g" "f \<noteq> g"
    and t: "i_type (icache s ! src) = T_FILE" "i_type (icache s ! dst) = T_FILE" "i_dev (icache s ! src) = i_dev (icache s ! dst)"
  shows "\<exists>c u s1. idedup src dst s = (BRet c, if u then iupdate dst s1 else s1) \<and> nfree s \<le> nfree s1 \<and>
    dedup_state s dst f g (min (nblocks_of (icache s ! src)) (nblocks_of (icache s ! dst))) (c, u) s1"
proof -
  define N where "N = min (nblocks_of (icache s ! src)) (nblocks_of (icache s ! dst))"
  have d0: "dedup_state s dst f g 0 (0, False) s" using inv by (simp add: dedup_state_def)
  have "spec (0 * (N - 0)) s (turns (dedup_turn src dst) [0..<N] (0, False)) (\<lambda>r s'. \<exists>y. r = Some y \<and> dedup_state s dst f g N y s')"
    by (rule turns_spec [where I = "dedup_state s dst f g"]) (use d0 dedup_step [OF _ h] in auto)
  then obtain c u s1 where run: "turns (dedup_turn src dst) [0..<N] (0, False) s = (BRet (Some (c, u)), s1)"
    and s1: "nfree s \<le> nfree s1" "dedup_state s dst f g N (c, u) s1"
    by (cases "turns (dedup_turn src dst) [0..<N] (0, False) s"; cases "fst (turns (dedup_turn src dst) [0..<N] (0, False) s)")
      (auto simp: spec_def)
  have "idedup src dst s = bbind (turns (dedup_turn src dst) [0..<N] (0, False)) (\<lambda>r s.
      case r of None \<Rightarrow> fret (- 1) s | Some (shared, upd) \<Rightarrow> fret shared (if upd then iupdate dst s else s)) s"
    using h t by (simp add: idedup_def Let_def N_def nblocks_of_def held_def)
  then have "idedup src dst s = (BRet c, if u then iupdate dst s1 else s1)" by (simp add: bbind_def run fret_def)
  with s1 show ?thesis unfolding N_def by blast
qed


lemma alloced_other: "alloced P s n sl a s' \<Longrightarrow> (m, k) \<in> locs s \<Longrightarrow> m \<noteq> n \<Longrightarrow> val s' m k = val s m k"
  by (simp add: alloced_def)

text \<open>Two files of four bytes, each with a block of its own.\<close>

lemma two_files:
  "\<exists>s. fs_inv {#} s \<and> held s 0 1 \<and> held s 1 2 \<and> twins s 1 2 0 \<and> 12 \<le> nfree s \<and> length (icache s) = 2 \<and>
     (\<forall>m sl. (m, sl) \<in> locs s \<and> sl \<noteq> Dir 0 \<longrightarrow> val s m sl = 0) \<and>
     (\<forall>ip < 2. i_type (icache s ! ip) = T_FILE \<and> i_dev (icache s ! ip) = 1 \<and> i_size (icache s ! ip) = 4)"
proof -
  have at: "ptr_at s n (PAddr 0) (Dir 0)" for s n by simp
  obtain a s1 where a: "alloced {#} fs0 1 (Dir 0) a s1" "nfree fs0 \<le> nfree s1 + 1"
    using alloc_at_spec [OF fs0_inv fs0_held(1) at] fs0_nfree
    by (cases "alloc_at 0 (PAddr 0) fs0"; cases "fst (alloc_at 0 (PAddr 0) fs0)") (auto simp: spec_def)
  have i1: "fs_inv {#} s1" "fr fs0 s1" "a \<noteq> 0" "blk s1 a = zeros" "bref s1 a = 1"
    using a fs0_val [of 1 "Dir 0"] by (auto simp: alloced_def inums_def fs0_sel)
  have h1: "held s1 0 1" "held s1 1 2" using fr_held [OF i1(2)] fs0_held by auto
  have m: "1 \<in> inums s1" "2 \<in> inums s1" "1 \<in> inums fs0" "2 \<in> inums fs0"
    using h1 fs0_held by (auto simp: held_def)
  have v1: "val s1 1 (Dir 0) = a" "val s1 2 (Dir 0) = 0"
    using alloced_val [OF a(1) locsI [OF m(3)]] alloced_other [OF a(1) locsI [OF m(4)], of "Dir 0"] fs0_val [OF m(4), of "Dir 0"]
    by auto
  obtain b s2 where b: "alloced {#} s1 2 (Dir 0) b s2" "nfree s1 \<le> nfree s2 + 1"
    using alloc_at_spec [OF i1(1) h1(2) at] a(2) fs0_nfree
    by (cases "alloc_at 1 (PAddr 0) s1"; cases "fst (alloc_at 1 (PAddr 0) s1)") (auto simp: spec_def)
  have i2: "fs_inv {#} s2" "fr s1 s2" "b \<noteq> 0" "blk s2 b = zeros" "bref s1 b = 0"
    using b v1 by (auto simp: alloced_def)
  have v2: "val s2 1 (Dir 0) = a" "val s2 2 (Dir 0) = b"
    using alloced_val [OF b(1) locsI [OF m(2)]] alloced_other [OF b(1) locsI [OF m(1)], of "Dir 0"] v1(1) by auto
  have l1: "(1, Dir 0) \<in> locs s1" using locsI [OF m(1), of "Dir 0"] by simp
  have ar: "isdata s1 a" "dstart (fs_sb s1) \<le> a"
    using data_isdata [OF i1(1) l1] val_bref(2) [OF i1(1) l1] v1(1) i1(3) by auto
  have ba: "blk s2 a = zeros" using b ar i1(4,5) by (auto simp: alloced_def)
  have ab: "a \<noteq> b" using i1(5) i2(5) by auto
  have f2: "fr fs0 s2" using fr_trans [OF i1(2) i2(2)] .
  have h2: "held s2 0 1" "held s2 1 2" using fr_held [OF f2] fs0_held by auto
  define s3 where "s3 = put_size 1 4 s2"
  note V = put_size_run [OF i2(1) h2(2), where z = 4, folded s3_def]
  have m2: "1 \<in> inums s2" "2 \<in> inums s2" using h2 by (auto simp: held_def)
  have v3: "val s3 1 (Dir 0) = a" "val s3 2 (Dir 0) = b"
    using V(7) [OF locsI [OF m2(1)], of "Dir 0"] V(7) [OF locsI [OF m2(2)], of "Dir 0"] v2 by auto
  have "dstart (fs_sb s2) \<le> a" "dstart (fs_sb s2) \<le> b"
    using val_bref(2) [OF i2(1) locsI [OF m2(1)], of "Dir 0"] val_bref(2) [OF i2(1) locsI [OF m2(2)], of "Dir 0"] v2 i1(3) i2(3) by auto
  then have "blk s3 a = zeros" "blk s3 b = zeros"
    using V(8) ba i2(4) lay_order [OF fs_invD(1) [OF i2(1)]] by auto
  then have tw: "twins s3 1 2 0" using v3 ab i1(3) i2(3) by (simp add: twins_def dslot_def)
  have n2: "noaddr (icache s2 ! 0) = noaddr (icache fs0 ! 0)" "noaddr (icache s2 ! 1) = noaddr (icache fs0 ! 1)" "length (icache s2) = 2"
    using fr_inode [OF f2, of 0] fr_inode [OF f2, of 1] by (auto simp: fs0_sel)
  have i3: "icache s3 = upd_at (icache s2) 1 (\<lambda>e. e\<lparr>i_size := 4\<rparr>)"
    by (simp add: s3_def put_size_def iupdate_def Let_def upd_inode_def)
  have e0: "icache s3 ! 0 = icache s2 ! 0" "icache s3 ! 1 = (icache s2 ! 1)\<lparr>i_size := 4\<rparr>" using n2(3) by (simp_all add: i3)
  have "held s3 0 1" using h2(1) e0(1) by (simp add: held_def V(5) inums_def i3)
  moreover have "i_type (icache s3 ! ip) = T_FILE \<and> i_dev (icache s3 ! ip) = 1 \<and> i_size (icache s3 ! ip) = 4" if "ip < 2" for ip
    using that noaddr_fields [OF n2(1)] noaddr_fields [OF n2(2)] e0 by (auto simp: less_2_cases_iff fs0_def)
  moreover have "val s3 n sl = 0" if l: "(n, sl) \<in> locs s3" "sl \<noteq> Dir 0" for n sl
  proof -
    have l0: "(n, sl) \<in> locs fs0" "(n, sl) \<in> locs s1" "(n, sl) \<in> locs s2"
      using l(1) V(5) fr_sb [OF f2] fr_sb [OF i1(2)] by (simp_all add: locs_def inums_def)
    have "val s3 n sl = val s2 n sl" by (rule V(7) [OF l0(3)])
    also have "\<dots> = val s1 n sl" using b(1) l0(2) l(2) by (auto simp: alloced_def)
    also have "\<dots> = val fs0 n sl" using a(1) l0(1) l(2) by (auto simp: alloced_def)
    also have "\<dots> = 0" using fs0_val l0(1) by (simp add: locs_def)
    finally show ?thesis .
  qed
  moreover have "12 \<le> nfree s3" using a(2) b(2) V(4) fs0_nfree by simp
  ultimately show ?thesis using V(1,2) tw n2(3) by (intro exI [of _ s3]) (auto simp: i3)
qed


subsection \<open>Cloning a range\<close>

lemma ic_free_balloc: "ic_free balloc"
proof -
  have "ic_free (balloc_take b)" for b
    by (auto simp: ic_free_def balloc_take_def bbind_def bref_inc_def fret_def fpanic_def bzero_def bit_mark_def Let_def logw_def wblk_def)
  note T = ic_freeD [OF this]
  have e: "fs_sb (s\<lparr>icache := F\<rparr>) = fs_sb s" "blk (s\<lparr>icache := F\<rparr>) = blk s" for s F by simp_all
  have F: "balloc_fwd (s\<lparr>icache := F\<rparr>) st b = balloc_fwd s st b" for s F st b
  proof (induction s st b rule: balloc_fwd.induct)
    case (1 s st b)
    show ?case
      by (subst balloc_fwd.simps, subst (2) balloc_fwd.simps, unfold e, intro if_cong option.case_cong refl 1; assumption)
  qed
  have W: "balloc_wrap (s\<lparr>icache := F\<rparr>) st b = balloc_wrap s st b" for s F st b
  proof (induction s st b rule: balloc_wrap.induct)
    case (1 s st b)
    show ?case
      by (subst balloc_wrap.simps, subst (2) balloc_wrap.simps, unfold e, intro if_cong option.case_cong refl 1; assumption)
  qed
  show ?thesis unfolding ic_free_def balloc_def by (simp add: Let_def F W T fpanic_def split: option.split)
qed

lemma ic_free_alloc_at: "ic_free (alloc_at ip (PBlk c j))"
proof -
  have "ic_free (\<lambda>s. fret a (logw c (wblk c (put32 (blk s c) (4 * j) a) s)))" for a
    by (simp add: ic_free_def fret_def logw_def wblk_def)
  then have "ic_free (bbind balloc (\<lambda>a s. fret a (logw c (wblk c (put32 (blk s c) (4 * j) a) s))))"
    by (intro ic_free_bind ic_free_balloc) auto
  then show ?thesis by (simp add: ic_free_def alloc_at_def fret_def)
qed

lemma spec_also:
  "spec k s m Q \<Longrightarrow> (\<And>x s'. m s = (BRet x, s') \<Longrightarrow> R x s') \<Longrightarrow> spec k s m (\<lambda>x s'. Q x s' \<and> R x s')"
  by (cases "m s"; cases "fst (m s)") (auto simp: spec_def)

lemma ic_free_runs: "ic_free m \<Longrightarrow> m s = (r, s') \<Longrightarrow> icache s' = icache s"
  using ic_free_icache [of m s] by simp

lemma bbind_ret: "bbind (fret x) f = f x"
  by (rule ext) (simp add: bbind_def fret_def)

lemma bseq_assoc: "bbind (bbind m f) g = bbind m (\<lambda>x. bbind (f x) g)"
  by (rule ext) (simp add: bbind_def split: prod.split bout.split)

lemma ensure_run:
  assumes "bn < MAXFILE"
  shows "bmap_ensure ip bn s = bbind (bmap_ptr ip bn) (\<lambda>_. fret (if bn \<ge> 11 \<and>
    i_addrs (icache s ! ip) ! (if bn - 11 < NADDR then 11 else 12) = 0 then 1 else 0)) s"
proof -
  have lt: "bn - 11 - NADDR < NDINDIRECT" if "\<not> bn < 11" using assms that by simp
  consider "bn < 11" | "\<not> bn < 11" "bn - 11 < NADDR" | "\<not> bn < 11" "\<not> bn - 11 < NADDR" by blast
  then show ?thesis
    by cases (use lt in \<open>simp_all add: bmap_ensure_def bmap_ptr_def Let_def bseq_assoc bbind_ret\<close>)
qed

lemma ensure_spec:
  assumes inv: "fs_inv P s" and h: "held s ip n" and bn: "bn < MAXFILE"
  shows "spec 2 s (bmap_ensure ip bn) (\<lambda>r s'. 0 \<le> r \<and> quiet P s s' \<and> (\<exists>p. ptr_at s' n p (dslot bn)) \<and> (r = 1 \<or> icache s' = icache s))"
proof -
  define r where "r = (if bn \<ge> 11 \<and> i_addrs (icache s ! ip) ! (if bn - 11 < NADDR then 11 else 12) = 0 then 1 else 0 :: int)"
  have ic: "icache s' = icache s" if m: "bmap_ptr ip bn s = (BRet p, s')" and r0: "r = 0" for p s'
  proof -
    consider "bn < 11" | "\<not> bn < 11" "bn - 11 < NADDR" | "\<not> bn < 11" "\<not> bn - 11 < NADDR" by blast
    then show ?thesis
    proof cases
      case 1
      then show ?thesis using m by (simp add: bmap_ptr_def fret_def)
    next
      case 2
      then have "i_addrs (icache s ! ip) ! 11 \<noteq> 0" using r0 by (simp add: r_def split: if_splits)
      then show ?thesis using m 2 by (simp add: bmap_ptr_def bbind_def alloc_at_def fret_def)
    next
      case 3
      let ?c = "i_addrs (icache s ! ip) ! 12" and ?j = "(bn - 11 - NADDR) div NADDR"
      have lt: "bn - 11 - NADDR < NDINDIRECT" using 3 bn by simp
      have c: "?c \<noteq> 0" using r0 3 by (simp add: r_def split: if_splits)
      have a: "alloc_at ip (PAddr (11 + 1)) s = (BRet ?c, s)" using c by (simp add: alloc_at_def fret_def)
      have "bmap_ptr ip bn s = bbind (alloc_at ip (PBlk ?c ?j)) (\<lambda>c1. fret (PBlk c1 ((bn - 11 - NADDR) mod NADDR))) s"
        using 3 lt unfolding bmap_ptr_def by (simp add: bbind_def [of "alloc_at ip (PAddr _)"] a [simplified])
      moreover have "ic_free (bbind (alloc_at ip (PBlk ?c ?j)) (\<lambda>c1. fret (PBlk c1 ((bn - 11 - NADDR) mod NADDR))))"
        by (intro ic_free_bind ic_free_alloc_at) simp
      ultimately show ?thesis using ic_free_runs [of _ s "BRet p" s'] m by simp
    qed
  qed
  have "spec (2 + 0) s (bbind (bmap_ptr ip bn) (\<lambda>_. fret r))
    (\<lambda>r s'. 0 \<le> r \<and> quiet P s s' \<and> (\<exists>p. ptr_at s' n p (dslot bn)) \<and> (r = 1 \<or> icache s' = icache s))"
  proof (rule spec_seq [OF spec_also [OF bmap_ptr_spec [OF inv h bn], where R = "\<lambda>_ s'. r = 1 \<or> icache s' = icache s"]])
    show "r = 1 \<or> icache s' = icache s" if "bmap_ptr ip bn s = (BRet p, s')" for p s'
      using ic [OF that] by (auto simp: r_def)
    fix p s' assume "(quiet P s s' \<and> ptr_at s' n p (dslot bn)) \<and> (r = 1 \<or> icache s' = icache s)"
    then show "spec 0 s' (fret r) (\<lambda>r s'. 0 \<le> r \<and> quiet P s s' \<and> (\<exists>p. ptr_at s' n p (dslot bn)) \<and> (r = 1 \<or> icache s' = icache s))"
      by (intro spec_ret) (auto simp: r_def)
  qed
  moreover have "bmap_ensure ip bn s = bbind (bmap_ptr ip bn) (\<lambda>_. fret r) s" unfolding r_def by (rule ensure_run [OF bn])
  ultimately show ?thesis by (simp only: spec_def add_0_right)
qed

text \<open>Raising the count of a data block that a file references, as in the loops of both operations.\<close>

lemma raise_run:
  assumes inv: "fs_inv {#} s" and l: "(n, sl) \<in> locs s" "\<not> meta sl" "val s n sl = a" "a \<noteq> 0"
  shows "bref_inc a s = (BRet (), s\<lparr>bref := (bref s)(a := bref s a + 1)\<rparr>)"
    "fs_inv (opt a) (s\<lparr>bref := (bref s)(a := bref s a + 1)\<rparr>)"
    "nfree (s\<lparr>bref := (bref s)(a := bref s a + 1)\<rparr>) = nfree s"
proof -
  have nz: "val s n sl \<noteq> 0" using l by simp
  have m: "val s m k \<noteq> a" if "(m, k) \<in> locs s" "meta k" for m k
    using data_isdata [OF inv l(1,2) nz] that l(3) by (auto simp: isdata_def)
  note R = bref_inc_run [OF inv val_bref(2,3,1) [OF inv l(1) nz, unfolded l(3)] _ m]
  show "bref_inc a s = (BRet (), s\<lparr>bref := (bref s)(a := bref s a + 1)\<rparr>)" using R(1) by simp
  show "fs_inv (opt a) (s\<lparr>bref := (bref s)(a := bref s a + 1)\<rparr>)" using R(2) l(4) by (simp add: opt_def)
  show "nfree (s\<lparr>bref := (bref s)(a := bref s a + 1)\<rparr>) = nfree s" by (intro nfree_cong) (auto simp: bit_set_def)
qed

lemma raise_frame:
  assumes "r = (bref s)(a := bref s a + 1)"
  shows "fr s (s\<lparr>bref := r\<rparr>)" "locs (s\<lparr>bref := r\<rparr>) = locs s" "isdata (s\<lparr>bref := r\<rparr>) b = isdata s b"
    "held (s\<lparr>bref := r\<rparr>) ip n = held s ip n" "bref s b \<le> r b"
proof -
  show L: "locs (s\<lparr>bref := r\<rparr>) = locs s" by (rule locs_cong) simp
  show "fr s (s\<lparr>bref := r\<rparr>)" by (simp add: fr_def wal_def)
  show "isdata (s\<lparr>bref := r\<rparr>) b = isdata s b" by (simp add: isdata_def L)
  show "held (s\<lparr>bref := r\<rparr>) ip n = held s ip n" by (simp add: held_def inums_def)
  show "bref s b \<le> r b" by (simp add: assms)
qed

lemma ensured_remap:
  assumes inv: "fs_inv P s" and q: "quiet Q s s1" and r: "remapped s1 n bn x s'"
  shows "remapped s n bn x s'"
proof -
  have sb: "fs_sb s1 = fs_sb s" using q fr_sb by (auto simp: quiet_def)
  have L: "locs s1 = locs s" by (rule locs_cong [OF sb])
  have "fr s s'" using q r fr_trans by (auto simp: quiet_def remapped_def)
  moreover have "blk s' b = blk s b" if "isdata s b" "bref s b > 0" "dstart (fs_sb s) \<le> b" for b
  proof -
    have "isdata s1 b" "blk s1 b = blk s b" "bref s1 b = bref s b" using q that by (auto simp: quiet_def)
    then show ?thesis using r that sb by (simp add: remapped_def)
  qed
  ultimately show ?thesis using q r by (simp add: quiet_def remapped_def L)
qed

lemma raised_remap:
  assumes r: "r = (bref s)(a := bref s a + 1)" and m: "remapped (s\<lparr>bref := r\<rparr>) n bn x s'"
  shows "remapped s n bn x s'"
proof -
  note F = raise_frame [OF r]
  have "fr s s'" using fr_trans [OF F(1)] m by (simp add: remapped_def)
  moreover have "blk s' b = blk s b" if "isdata s b" "bref s b > 0" "dstart (fs_sb s) \<le> b" for b
    using m that F(5) [of b] by (simp add: remapped_def F(3))
  ultimately show ?thesis using m by (simp add: remapped_def F(2))
qed

lemma share_spec:
  assumes inv: "fs_inv {#} s" and l: "(f, sl) \<in> locs s" "\<not> meta sl" "val s f sl = a" "a \<noteq> 0"
    and h: "held s dst g" and bn: "bn < MAXFILE" and d: "val s g (dslot bn) = d"
  shows "spec 2 s (bbind (bref_inc a) (\<lambda>_.
      bbind (bmap_ensure dst bn) (\<lambda>r.
        if r < 0 then unref a
        else
          bbind (bmap_set_existing dst bn a) (\<lambda>r'.
            if r' < 0 then unref a
            else bbind (if d \<noteq> 0 then bfree d else fret ()) (\<lambda>_. fret (Some (upd \<or> r = 1 \<or> r' = 1)))))))
    (\<lambda>y s'. \<exists>u'. y = Some u' \<and> remapped s g bn a s' \<and> (u' \<or> icache s' = icache s))"
    (is "spec 2 s (bbind _ (\<lambda>_. bbind _ ?k)) ?Q")
proof -
  define r1 where "r1 = (bref s)(a := bref s a + 1)"
  let ?s1 = "s\<lparr>bref := r1\<rparr>"
  note R = raise_run [OF inv l, folded r1_def] and F = raise_frame [OF r1_def]
  have gi: "(g, dslot bn) \<in> locs s" "\<not> meta (dslot bn)" using h dslot_ok [OF bn] by (auto simp: held_def locs_def)
  have h1: "held ?s1 dst g" using h F(4) by simp
  have "spec (2 + 0) ?s1 (bbind (bmap_ensure dst bn) ?k) ?Q"
  proof (rule spec_seq [OF ensure_spec [OF R(2) h1 bn]])
    fix r :: int and s2 assume A: "0 \<le> r \<and> quiet (opt a) ?s1 s2 \<and> (\<exists>p. ptr_at s2 g p (dslot bn)) \<and> (r = 1 \<or> icache s2 = icache ?s1)"
    then obtain p where at: "ptr_at s2 g p (dslot bn)" by blast
    have i2: "fs_inv (opt a) s2" "fr ?s1 s2" using A by (auto simp: quiet_def)
    have d2: "val s2 g (dslot bn) = d" using A gi d by (simp add: quiet_def F(2))
    note S = swap_spec [OF i2(1) fr_held [OF i2(2) h1] bn at d2, where e = "\<lambda>_. unref a" and g = "\<lambda>r'. Some (upd \<or> r = 1 \<or> r' = 1)"]
    have k: "?k r = bbind (bmap_set_existing dst bn a) (\<lambda>r'. if r' < 0 then unref a
          else bbind (if d \<noteq> 0 then bfree d else fret ()) (\<lambda>_. fret (Some (upd \<or> r = 1 \<or> r' = 1))))" using A by simp
    show "spec 0 s2 (?k r) ?Q"
      unfolding k
    proof (rule spec_mono [OF S])
      fix y s' assume B: "y = Some (upd \<or> r = 1 \<or> (if bn < 11 then 1 else 0 :: int) = 1) \<and> remapped s2 g bn a s' \<and> (bn < 11 \<or> icache s' = icache s2)"
      have "remapped s g bn a s'" using raised_remap [OF r1_def ensured_remap [OF R(2)]] A B by blast
      moreover have "(upd \<or> r = 1 \<or> (if bn < 11 then 1 else 0 :: int) = 1) \<or> icache s' = icache s" using A B by auto
      ultimately show "?Q y s'" using B by blast
    qed simp
  qed
  then show ?thesis by (simp only: spec_def bbind_def [of "bref_inc a"] R(1,3) prod.case bout.case add_0_right)
qed

lemma remapped_same:
  assumes "fs_inv {#} s" "val s n (dslot bn) = x" "n \<in> inums s" "bn < MAXFILE"
  shows "remapped s n bn x s"
  using assms by (auto simp: remapped_def)

lemma clone_turn_spec:
  assumes inv: "fs_inv {#} s" and h: "held s src f" "held s dst g"
    and k: "srcb + k < MAXFILE" "dstb + k < MAXFILE" and a: "val s f (dslot (srcb + k)) = a"
  shows "spec 2 s (clone_range_turn src dst srcb dstb k upd)
    (\<lambda>y s'. \<exists>u'. y = Some u' \<and> remapped s g (dstb + k) a s' \<and> (u' \<or> icache s' = icache s))"
    (is "spec 2 s _ ?Q")
proof -
  define d where "d = val s g (dslot (dstb + k))"
  note I = fs_invD [OF inv] and B = bmap_nalloc_val [OF fs_invD(3) [OF inv]]
  have fg: "f \<in> inums s" "g \<in> inums s" using h by (auto simp: held_def)
  have l: "(f, dslot (srcb + k)) \<in> locs s" "\<not> meta (dslot (srcb + k))" using dslot_ok [OF k(1)] fg(1) by (auto intro: locsI)
  have nl: "bmap_nalloc src ((srcb + k) mod 4294967296) s = a" "bmap_nalloc dst ((dstb + k) mod 4294967296) s = d"
    "(dstb + k) mod 4294967296 = dstb + k" "bmap_nalloc dst (dstb + k) s = d" using k a by (simp_all add: B [OF h(1)] B [OF h(2)] d_def)
  have same: "remapped s g (dstb + k) a s" if "d = a"
    using remapped_same [OF inv _ fg(2) k(2)] that by (simp add: d_def)
  consider "d = a" | "a = 0" "d \<noteq> 0" | "a \<noteq> 0" "d \<noteq> a" by auto
  then show ?thesis
  proof cases
    case 1
    then have "clone_range_turn src dst srcb dstb k upd s = fret (Some upd) s"
      by (simp add: clone_range_turn_def nl Let_def)
    then show ?thesis using same [OF 1] by (simp add: spec_def fret_def)
  next
    case 2
    obtain p where at: "ptr_at s g p (dslot (dstb + k))" using mapped_ptr_at [OF _ k(2)] 2(2) d_def by blast
    have "fs_inv (opt a) s" using inv 2 by (simp add: opt_def)
    note S = swap_spec [OF this h(2) k(2) at d_def [symmetric], where e = "\<lambda>_. fret None" and g = "\<lambda>r. Some (upd \<or> r = 1)"]
    have "clone_range_turn src dst srcb dstb k upd s = bbind (bmap_set_existing dst (dstb + k) a) (\<lambda>r.
        if r < 0 then fret None else bbind (if d \<noteq> 0 then bfree d else fret ()) (\<lambda>_. fret (Some (upd \<or> r = 1)))) s"
      unfolding clone_range_turn_def nl Let_def using 2 by simp
    moreover have "spec 2 s (bbind (bmap_set_existing dst (dstb + k) a) (\<lambda>r.
        if r < 0 then fret None else bbind (if d \<noteq> 0 then bfree d else fret ()) (\<lambda>_. fret (Some (upd \<or> r = 1))))) ?Q"
      by (rule spec_mono [OF S]) auto
    ultimately show ?thesis by (simp only: spec_def)
  next
    case 3
    have "clone_range_turn src dst srcb dstb k upd s = bbind (bref_inc a) (\<lambda>_. bbind (bmap_ensure dst (dstb + k)) (\<lambda>r.
        if r < 0 then unref a
        else bbind (bmap_set_existing dst (dstb + k) a) (\<lambda>r'. if r' < 0 then unref a
            else bbind (if d \<noteq> 0 then bfree d else fret ()) (\<lambda>_. fret (Some (upd \<or> r = 1 \<or> r' = 1)))))) s"
      using 3 by (simp only: clone_range_turn_def nl Let_def if_False)
    then show ?thesis using share_spec [OF inv l a 3(1) h(2) k(2) d_def [symmetric], of upd] by (simp only: spec_def)
  qed
qed

definition clone_of :: "nat \<Rightarrow> nat \<Rightarrow> nat \<Rightarrow> nat \<Rightarrow> nat \<Rightarrow> nat \<Rightarrow> nat \<Rightarrow> nat \<times> nat" where
  "clone_of f g srcb dstb k m j = (if m = g \<and> dstb \<le> j \<and> j < dstb + k then (f, srcb + (j - dstb)) else (m, j))"

definition clone_state :: "fs \<Rightarrow> nat \<Rightarrow> nat \<Rightarrow> nat \<Rightarrow> nat \<Rightarrow> nat \<Rightarrow> nat \<Rightarrow> bool \<Rightarrow> fs \<Rightarrow> bool" where
  "clone_state s0 dst f g srcb dstb k u s \<longleftrightarrow>
     fs_inv {#} s \<and> fr s0 s \<and> (u \<or> icache s ! dst = icache s0 ! dst) \<and>
     (\<forall>m j. m \<in> inums s0 \<and> j < MAXFILE \<longrightarrow>
        val s m (dslot j) = (case clone_of f g srcb dstb k m j of (n, i) \<Rightarrow> val s0 n (dslot i)) \<and>
        dat s m j = (case clone_of f g srcb dstb k m j of (n, i) \<Rightarrow> dat s0 n i))"

lemma clone_step:
  assumes D: "clone_state s0 dst f g srcb dstb k u s" and h: "held s0 src f" "held s0 dst g" "f \<noteq> g"
    and k: "srcb + k < MAXFILE" "dstb + k < MAXFILE"
  shows "spec 2 s (clone_range_turn src dst srcb dstb k u) (\<lambda>r s'. \<exists>y. r = Some y \<and> clone_state s0 dst f g srcb dstb (Suc k) y s')"
proof -
  have S: "fs_inv {#} s" "fr s0 s" "u \<or> icache s ! dst = icache s0 ! dst" using D by (auto simp: clone_state_def)
  have fg: "f \<in> inums s0" "g \<in> inums s0" using h by (auto simp: held_def)
  have in1: "inums s = inums s0" using fr_sb [OF S(2)] by (simp add: inums_def)
  have hs: "held s src f" "held s dst g" using fr_held [OF S(2)] h by auto
  define a where "a = val s f (dslot (srcb + k))"
  have a0: "a = val s0 f (dslot (srcb + k))" "dat s f (srcb + k) = dat s0 f (srcb + k)"
    using D fg(1) k(1) h(3) by (simp_all add: clone_state_def clone_of_def a_def)
  have l: "(f, dslot (srcb + k)) \<in> locs s" "\<not> meta (dslot (srcb + k))"
    using dslot_ok [OF k(1)] fg(1) in1 by (auto intro: locsI)
  have x: "isdata s a \<and> bref s a > 0 \<and> dstart (fs_sb s) \<le> a" if "a \<noteq> 0"
    using data_isdata [OF S(1) l] val_bref [OF S(1) l(1)] that by (auto simp: a_def)
  show ?thesis
  proof (rule spec_mono [OF spec_also [OF clone_turn_spec [OF S(1) hs k a_def [symmetric]], where
      R = "\<lambda>y s'. u \<longrightarrow> y = None \<or> y = Some True"]])
    fix y s' assume A: "(\<exists>u'. y = Some u' \<and> remapped s g (dstb + k) a s' \<and> (u' \<or> icache s' = icache s)) \<and>
      (u \<longrightarrow> y = None \<or> y = Some True)"
    then obtain u' where u': "y = Some u'" "remapped s g (dstb + k) a s'" "u' \<or> icache s' = icache s" "u \<longrightarrow> u'" by auto
    have f: "fr s0 s'" using fr_trans [OF S(2)] u'(2) by (simp add: remapped_def)
    have "val s' m (dslot j) = (case clone_of f g srcb dstb (Suc k) m j of (n, i) \<Rightarrow> val s0 n (dslot i)) \<and>
        dat s' m j = (case clone_of f g srcb dstb (Suc k) m j of (n, i) \<Rightarrow> dat s0 n i)" if mj: "m \<in> inums s0" "j < MAXFILE" for m j
    proof -
      have lj: "(m, dslot j) \<in> locs s" "\<not> meta (dslot j)" using dslot_ok [OF mj(2)] mj(1) in1 by (auto intro: locsI)
      have v: "val s' m (dslot j) = (if m = g \<and> j = dstb + k then a else val s m (dslot j))"
        using u'(2) lj dslot_inj [OF mj(2) k(2)] by (simp add: remapped_def)
      have e: "dat s' m j = (if m = g \<and> j = dstb + k then if a = 0 then zeros else blk s a else dat s m j)"
        using remapped_dat [OF S(1) u'(2) k(2) x] mj in1 by simp
      have da: "(if a = 0 then zeros else blk s a) = dat s0 f (srcb + k)"
        using a0(2) unfolding dat_def [of s] a_def Let_def .
      show ?thesis
      proof (cases "m = g \<and> j = dstb + k")
        case True
        then show ?thesis using v e da a0(1) by (simp add: clone_of_def)
      next
        case False
        then have "clone_of f g srcb dstb (Suc k) m j = clone_of f g srcb dstb k m j" by (auto simp: clone_of_def)
        moreover have "val s' m (dslot j) = val s m (dslot j)" "dat s' m j = dat s m j" using v e False by auto
        ultimately show ?thesis using D mj unfolding clone_state_def by simp
      qed
    qed
    then have "clone_state s0 dst f g srcb dstb (Suc k) u' s'"
      using u' f S(3) by (auto simp: clone_state_def remapped_def)
    then show "\<exists>y'. y = Some y' \<and> clone_state s0 dst f g srcb dstb (Suc k) y' s'" using u'(1) by blast
  next
    show "u \<longrightarrow> y = None \<or> y = Some True" if "clone_range_turn src dst srcb dstb k u s = (BRet y, s')" for y s'
      using that
      by (auto simp: clone_range_turn_def Let_def bbind_def fret_def unref_def split: prod.splits bout.splits if_splits)
  qed simp
qed

lemma clone_loop_spec:
  assumes inv: "fs_inv {#} s" and h: "held s src f" "held s dst g" "f \<noteq> g"
    and k: "srcb + nb \<le> MAXFILE" "dstb + nb \<le> MAXFILE"
  shows "spec (2 * nb) s (turns (clone_range_turn src dst srcb dstb) [0..<nb] False)
    (\<lambda>r s'. \<exists>u. r = Some u \<and> clone_state s dst f g srcb dstb nb u s')"
proof -
  have "spec (2 * (nb - 0)) s (turns (clone_range_turn src dst srcb dstb) [0..<nb] False)
      (\<lambda>r s'. \<exists>u. r = Some u \<and> clone_state s dst f g srcb dstb nb u s')"
  proof (rule turns_spec [where I = "clone_state s dst f g srcb dstb"])
    show "spec 2 t (clone_range_turn src dst srcb dstb k u) (\<lambda>r s'. \<exists>y. r = Some y \<and> clone_state s dst f g srcb dstb (Suc k) y s')"
      if "k < nb" "clone_state s dst f g srcb dstb k u t" for k u t
      using clone_step [OF that(2) h] that(1) k by simp
    show "clone_state s dst f g srcb dstb 0 False s" using inv by (auto simp: clone_state_def clone_of_def)
  qed simp
  then show ?thesis by simp
qed

lemma clone_fbyte:
  assumes D: "clone_state s dst f g srcb dstb nb u s'" and m: "m \<in> inums s" and k: "srcb + nb \<le> MAXFILE" "dstb + nb \<le> MAXFILE"
  shows "fbyte s' m x = (if m = g \<and> dstb * BSIZE \<le> x \<and> x < dstb * BSIZE + nb * BSIZE
    then fbyte s f (srcb * BSIZE + (x - dstb * BSIZE)) else fbyte s m x)"
proof -
  let ?j = "x div BSIZE"
  have r: "dstb * BSIZE \<le> x \<and> x < dstb * BSIZE + nb * BSIZE \<longleftrightarrow> dstb \<le> ?j \<and> ?j < dstb + nb"
    by (simp add: less_eq_div_iff_mult_less_eq div_less_iff_less_mult algebra_simps)
  have e: "dat s' m ?j = (case clone_of f g srcb dstb nb m ?j of (n, i) \<Rightarrow> dat s n i)" if "?j < MAXFILE"
    using D m that by (simp add: clone_state_def)
  show ?thesis
  proof (cases "m = g \<and> dstb \<le> ?j \<and> ?j < dstb + nb")
    case True
    define q where "q = ?j - dstb"
    have j: "?j = dstb + q" "q < nb" using True by (auto simp: q_def)
    have x: "x = (dstb + q) * BSIZE + x mod BSIZE" using j(1) by (metis div_mult_mod_eq)
    define y where "y = srcb * BSIZE + (x - dstb * BSIZE)"
    have y: "y = (srcb + q) * BSIZE + x mod BSIZE" using x by (simp add: algebra_simps y_def)
    have "y div BSIZE = srcb + q" "y mod BSIZE = x mod BSIZE"
      unfolding y by (simp_all only: div_mult_self3 mod_mult_self3 mod_div_trivial mod_mod_trivial)
    moreover have lt: "?j < MAXFILE" "srcb + q < MAXFILE" using j k by simp_all
    ultimately have "fbyte s f y = dat s f (srcb + q) ! (x mod BSIZE)" by (simp add: fbyte_def)
    moreover have "clone_of f g srcb dstb nb m ?j = (f, srcb + q)" using True by (simp add: clone_of_def q_def)
    ultimately show ?thesis unfolding y_def [symmetric] using True r e lt(1) by (simp add: fbyte_def [of s'])
  next
    case False
    then have "clone_of f g srcb dstb nb m ?j = (m, ?j)" by (auto simp: clone_of_def)
    then show ?thesis using False r e by (auto simp: fbyte_def)
  qed
qed



end
