(* ===== verification/Clone.thy ===== *)
theory Clone
  imports Share
begin

section \<open>Cloning a whole file\<close>

text \<open>
  The proof about \<^verbatim>\<open>iclone\<close> (\<^verbatim>\<open>kernel/filesystem/fs.c\<close>, defined in theory \<open>Share\<close>): the new inode
  gets copies of the source's indirect blocks and shares its data blocks. Each copy is built while
  no file points to it; the references it will hold are held by the operation until the block
  number is entered in the inode.
\<close>

subsection \<open>Building blocks that no file references\<close>

lemma val_logw [simp]: "val (logw b s) n sl = val s n sl"
proof -
  have "iaddrs (logw b s) n = iaddrs s n" by (rule iaddrs_cong) simp_all
  then show ?thesis by (cases sl) (simp_all add: via_def)
qed

lemma fs_inv_logw [simp]: "fs_inv P (logw b s) \<longleftrightarrow> fs_inv P s"
proof -
  have L: "locs (logw b s) = locs s" by (rule locs_cong) simp
  have "refs (logw b s) c = refs s c" for c by (rule refs_cong) simp_all
  then show ?thesis
    by (simp add: fs_inv_def blks_ok_def ic_ok_def range_ok_def count_ok_def meta_ok_def bmp_ok_def bit_set_def L)
qed

lemma logged_logw [simp]: "logged (logw b s) = insert b (logged s)"
  by (simp add: logw_def)

lemma nfree_logw [simp]: "nfree (logw b s) = nfree s"
  by (intro nfree_cong) (auto simp: bit_set_def)

text \<open>
  \<open>prep U F s s'\<close>: no slot of a file changed; blocks in use changed only if in \<open>F\<close>, every changed
  block is logged or in \<open>U\<close>, and counts only grew, those of blocks without a file not at all.
\<close>

definition prep :: "nat set \<Rightarrow> nat set \<Rightarrow> fs \<Rightarrow> fs \<Rightarrow> bool" where
  "prep U F s s' \<longleftrightarrow>
     fs_sb s' = fs_sb s \<and> icache s' = icache s \<and> logged s \<subseteq> logged s' \<and>
     (\<forall>b. blk s' b \<noteq> blk s b \<longrightarrow> b \<in> logged s' \<or> b \<in> U) \<and>
     (\<forall>c < sb_bmapstart (fs_sb s). blk s' c = blk s c) \<and>
     (\<forall>b. dstart (fs_sb s) \<le> b \<and> bref s b > 0 \<and> b \<notin> F \<longrightarrow> blk s' b = blk s b) \<and>
     (\<forall>b. bref s b \<le> bref s' b) \<and> (\<forall>b. 0 < bref s b \<and> refs s b = 0 \<longrightarrow> bref s' b = bref s b) \<and>
     (\<forall>m k. (m, k) \<in> locs s \<longrightarrow> val s' m k = val s m k)"

lemma prep_refl [simp]: "prep U F s s"
  by (simp add: prep_def)

lemma prep_refs: "prep U F s s' \<Longrightarrow> refs s' b = refs s b"
  by (rule refs_cong) (simp_all add: prep_def)

lemma prep_trans:
  assumes a: "prep U F s s'" and b: "prep U F s' s''"
  shows "prep U F s s''"
proof -
  have sb: "fs_sb s' = fs_sb s" using a by (simp add: prep_def)
  have L: "locs s' = locs s" by (rule locs_cong [OF sb])
  have r: "refs s' c = refs s c" for c by (rule prep_refs [OF a])
  have "c \<in> logged s'' \<or> c \<in> U" if "blk s'' c \<noteq> blk s c" for c
    using a b that unfolding prep_def by (metis subsetD)
  moreover have "blk s'' c = blk s c" if "dstart (fs_sb s) \<le> c" "bref s c > 0" "c \<notin> F" for c
  proof -
    have "bref s c \<le> bref s' c" using a by (simp add: prep_def)
    then have "bref s' c > 0" using that(2) by linarith
    then show ?thesis using a b that sb by (simp add: prep_def)
  qed
  moreover have "bref s c \<le> bref s'' c" for c using a b order_trans unfolding prep_def by metis
  moreover have "bref s'' c = bref s c" if "0 < bref s c" "refs s c = 0" for c
    using a b that r by (simp add: prep_def)
  ultimately show ?thesis using a b by (auto simp: prep_def L sb)
qed

lemma prep_weaken: "prep U F s s' \<Longrightarrow> U \<subseteq> U' \<Longrightarrow> F \<subseteq> F' \<Longrightarrow> prep U' F' s s'"
  unfolding prep_def by blast

lemma grew_kept: "grew s b s' \<Longrightarrow> dstart (fs_sb s) \<le> c \<Longrightarrow> bref s c > 0 \<Longrightarrow> blk s' c = blk s c"
  by (cases "c = b") (auto simp: grew_def)

lemma grew_prep:
  assumes "grew s b s'"
  shows "prep {} {} s s'"
proof -
  have "fr s s'" "wal s s'" using assms by (auto simp: grew_def fr_def)
  then show ?thesis using assms grew_kept [OF assms] by (auto simp: prep_def grew_def fr_def wal_def)
qed

text \<open>A block that was free before is not in use for the whole step.\<close>

lemma prep_fresh:
  assumes "grew s b s1" "prep U (insert b F) s1 s2"
  shows "prep U F s s2"
proof -
  note a = prep_weaken [OF grew_prep [OF assms(1)], of U "insert b F"]
  have "prep U (insert b F) s s2" using prep_trans [OF a assms(2)] by simp
  moreover have "bref s b = 0" using assms(1) by (simp add: grew_def)
  ultimately show ?thesis by (auto simp: prep_def)
qed

lemma prep_log:
  assumes "prep (insert b U) F s s'"
  shows "prep U F s (logw b s')"
  using assms by (auto simp: prep_def)

lemma prep_fr: "prep {} F s s' \<Longrightarrow> fr s s'"
  by (simp add: prep_def fr_def wal_def)

lemma inc_word_spec:
  assumes inv: "fs_inv P s" and sz: "size P \<le> 1000000" and l: "(m, k) \<in> locs s" "\<not> meta k" "val s m k = a" "a \<noteq> 0"
  shows "spec 0 s (bref_inc a) (\<lambda>_ s'. prep {} {} s s' \<and> blk s' = blk s \<and> fs_inv (add_mset a P) s')"
proof -
  have nz: "val s m k \<noteq> 0" using l by simp
  have mt: "val s n sl \<noteq> a" if "(n, sl) \<in> locs s" "meta sl" for n sl
    using data_isdata [OF inv l(1,2) nz] that l(3) by (auto simp: isdata_def)
  note R = bref_inc_run [OF inv val_bref(2,3,1) [OF inv l(1) nz, unfolded l(3)] sz mt]
  have "refs s a > 0" using l by (auto simp: refs_pos_iff)
  then have "prep {} {} s (s\<lparr>bref := (bref s)(a := bref s a + 1)\<rparr>)" by (auto simp: prep_def)
  moreover have "nfree (s\<lparr>bref := (bref s)(a := bref s a + 1)\<rparr>) = nfree s" by (intro nfree_cong) (auto simp: bit_set_def)
  ultimately show ?thesis using R by (simp add: spec_def)
qed

lemma inc_words_loop:
  assumes "fs_inv P s" "size P + length js \<le> 1000000"
    "\<forall>j \<in> set js. addr_word (blk s c) j \<noteq> 0 \<longrightarrow> (\<exists>m k. (m, k) \<in> locs s \<and> \<not> meta k \<and> val s m k = addr_word (blk s c) j)"
  shows "spec 0 s (ffor (\<lambda>j s. let a = addr_word (blk s c) j in if a \<noteq> 0 then bref_inc a s else fret () s) js)
    (\<lambda>_ s'. prep {} {} s s' \<and> blk s' = blk s \<and> fs_inv (P + words s c js) s')"
  using assms
proof (induction js arbitrary: s P)
  case Nil
  then show ?case by (simp add: ffor_Nil spec_ret words_def)
next
  case (Cons j js)
  let ?body = "\<lambda>j s. let a = addr_word (blk s c) j in if a \<noteq> 0 then bref_inc a s else fret () s"
  define a where "a = addr_word (blk s c) j"
  define P1 where "P1 = (if a = 0 then P else add_mset a P)"
  have w: "P + words s c (j # js) = P1 + words s c js" by (simp add: words_def P1_def a_def)
  have "spec (0 + 0) s (bbind (?body j) (\<lambda>_. ffor ?body js))
    (\<lambda>_ s'. prep {} {} s s' \<and> blk s' = blk s \<and> fs_inv (P + words s c (j # js)) s')"
  proof (rule spec_seq)
    show "spec 0 s (?body j) (\<lambda>_ s'. prep {} {} s s' \<and> blk s' = blk s \<and> fs_inv P1 s')"
    proof (cases "a = 0")
      case True
      then show ?thesis using Cons.prems(1) by (simp add: spec_def fret_def P1_def flip: a_def)
    next
      case False
      then obtain m k where "(m, k) \<in> locs s" "\<not> meta k" "val s m k = a" using Cons.prems(3) a_def by auto
      from inc_word_spec [OF Cons.prems(1) _ this False] Cons.prems(2) False
      show ?thesis by (simp add: spec_def P1_def flip: a_def)
    qed
    fix u s1 assume A: "prep {} {} s s1 \<and> blk s1 = blk s \<and> fs_inv P1 s1"
    have L: "locs s1 = locs s" using A by (intro locs_cong) (simp add: prep_def)
    have ws: "words s1 c js = words s c js" using A by (simp add: words_def)
    have "spec 0 s1 (ffor ?body js) (\<lambda>_ s'. prep {} {} s1 s' \<and> blk s' = blk s1 \<and> fs_inv (P1 + words s1 c js) s')"
    proof (rule Cons.IH)
      show "\<forall>j \<in> set js. addr_word (blk s1 c) j \<noteq> 0 \<longrightarrow> (\<exists>m k. (m, k) \<in> locs s1 \<and> \<not> meta k \<and> val s1 m k = addr_word (blk s1 c) j)"
      proof (intro ballI impI)
        fix i assume "i \<in> set js" "addr_word (blk s1 c) i \<noteq> 0"
        then obtain m k where "(m, k) \<in> locs s" "\<not> meta k" "val s m k = addr_word (blk s c) i" using Cons.prems(3) A by auto
        moreover from this have "val s1 m k = val s m k" using A by (simp add: prep_def)
        ultimately show "\<exists>m k. (m, k) \<in> locs s1 \<and> \<not> meta k \<and> val s1 m k = addr_word (blk s1 c) i" using A L by metis
      qed
    qed (use A Cons.prems(2) in \<open>auto simp: P1_def\<close>)
    then show "spec 0 s1 (ffor ?body js) (\<lambda>_ s'. prep {} {} s s' \<and> blk s' = blk s \<and> fs_inv (P + words s c (j # js)) s')"
      unfolding w by (rule spec_mono) (use A prep_trans ws in auto)
  qed
  then show ?case by (simp add: ffor_Cons)
qed

text \<open>The words of a block are data blocks of some file.\<close>

definition shares :: "fs \<Rightarrow> nat \<Rightarrow> bool" where
  "shares s c \<longleftrightarrow> (\<forall>j < NADDR. addr_word (blk s c) j \<noteq> 0 \<longrightarrow>
     (\<exists>m k. (m, k) \<in> locs s \<and> \<not> meta k \<and> val s m k = addr_word (blk s c) j))"

lemma shares_prep:
  assumes "prep U F s s'" "shares s c" "blk s' c' = blk s c"
  shows "shares s' c'"
proof -
  have L: "locs s' = locs s" using assms(1) by (intro locs_cong) (simp add: prep_def)
  have v: "val s' m k = val s m k" if "(m, k) \<in> locs s" for m k using assms(1) that by (simp add: prep_def)
  show ?thesis using assms(2) unfolding shares_def L assms(3) by (metis v)
qed

lemma wblk_prep:
  assumes inv: "fs_inv P s" and n: "new \<in># P" "new \<noteq> 0" and d: "length d = BSIZE"
  shows "prep {new} {new} s (wblk new d s)" "fs_inv P (wblk new d s)" "nfree (wblk new d s) = nfree s"
proof -
  have ds: "dstart (fs_sb s) \<le> new" using fs_invD(5) [OF inv] n(1) by (simp add: count_ok_def)
  note W = wdata_run [OF inv held_isdata [OF inv n] ds d]
  show "fs_inv P (wblk new d s)" using W(1) by simp
  show "nfree (wblk new d s) = nfree s" using W(3) by simp
  have "val (wblk new d s) m k = val s m k" if "(m, k) \<in> locs s" for m k using W(4) [OF that] by simp
  moreover have "sb_bmapstart (fs_sb s) < new" using ds lay_order [OF fs_invD(1) [OF inv]] by linarith
  ultimately show "prep {new} {new} s (wblk new d s)" by (auto simp: prep_def)
qed

lemma iclone_words_spec:
  assumes inv: "fs_inv P s" and sz: "size P \<le> 900000" and n: "new \<in># P" "new \<noteq> 0" and c: "shares s c"
  shows "spec 0 s (iclone_words c new)
    (\<lambda>_ s'. prep {} {new} s s' \<and> blk s' new = blk s c \<and> fs_inv (P + words s c [0..<NADDR]) s')"
proof -
  let ?s1 = "wblk new (blk s c) s"
  let ?Q = "\<lambda>_ s'. prep {} {new} s s' \<and> blk s' new = blk s c \<and> fs_inv (P + words s c [0..<NADDR]) s'"
  have "length (blk s c) = BSIZE" using fs_invD(2) [OF inv] by (simp add: blks_ok_def)
  note W = wblk_prep [OF inv n this]
  have b1: "blk ?s1 new = blk s c" by simp
  have sh: "shares ?s1 new" by (rule shares_prep [OF W(1) c b1])
  have w: "words ?s1 new [0..<NADDR] = words s c [0..<NADDR]" by (simp add: words_def)
  have "spec (0 + 0) ?s1 (bbind (bref_inc_words new) (\<lambda>_ s. fret () (logw new s))) ?Q"
    unfolding bref_inc_words_def
  proof (rule spec_seq [OF inc_words_loop [OF W(2)]])
    show "size P + length [0..<NADDR] \<le> 1000000" using sz by simp
    show "\<forall>j \<in> set [0..<NADDR]. addr_word (blk ?s1 new) j \<noteq> 0 \<longrightarrow>
        (\<exists>m k. (m, k) \<in> locs ?s1 \<and> \<not> meta k \<and> val ?s1 m k = addr_word (blk ?s1 new) j)"
      using sh by (simp add: shares_def)
    fix u s2 assume A: "prep {} {} ?s1 s2 \<and> blk s2 = blk ?s1 \<and> fs_inv (P + words ?s1 new [0..<NADDR]) s2"
    have "prep {new} {new} ?s1 s2" using A prep_weaken [of "{}" "{}"] by blast
    then have "prep {} {new} s (logw new s2)" using prep_log [of new "{}"] prep_trans [OF W(1)] by blast
    then show "spec 0 s2 (\<lambda>s. fret () (logw new s)) ?Q" using A w by (simp add: spec_def fret_def)
  qed
  then show ?thesis by (simp only: spec_def iclone_words_def W(3) add_0_right)
qed

subsection \<open>Entering a finished tree in the inode\<close>

lemma troot_locs: "n \<in> inums s \<Longrightarrow> i < 13 \<Longrightarrow> troot i n \<subseteq> locs s"
  using tree_locs [of n s] by (auto simp: troot_def intro: locsI)

lemma troot_unique:
  assumes "(n, sl) \<in> troot i n" "(n, sl) \<in> troot j n" "i < 13" "j < 13"
  shows "i = j"
  using assms by (cases sl) (auto simp: troot_def tree1_def tree2_def split: if_splits)

lemma val_attach:
  assumes inv: "ic_ok s" and h: "held s ip n" and i: "i < 13" and l: "slot_ok sl" and o: "(m, sl) \<notin> troot i n"
  shows "val (set_addr ip i a s) m sl = val s m sl"
proof -
  note A = iaddrs_set_addr [OF inv h]
  have w: "via (set_addr ip i a s) c j = via s c j" for c j by (simp add: via_def)
  show ?thesis
  proof (cases "m = n")
    case False
    then show ?thesis by (cases sl) (simp_all add: A w)
  next
    case True
    have i3: "i = 11 \<or> i = 12 \<or> i < 11" using i by linarith
    show ?thesis
    proof (cases sl)
      case (Dir k)
      then have "k \<noteq> i" using o i3 True by (auto simp: troot_def tree1_def tree2_def)
      then show ?thesis using Dir True by (simp add: A)
    next
      case (Ind j)
      then have "i \<noteq> 11" using o True l by (auto simp: troot_def tree1_def)
      then show ?thesis using Ind True by (simp add: A w)
    next
      case (Lvl j)
      then have "i \<noteq> 12" using o True l by (auto simp: troot_def tree2_def)
      then show ?thesis using Lvl True by (simp add: A w)
    next
      case (Dbl j k)
      then have "i \<noteq> 12" using o True l by (auto simp: troot_def tree2_def)
      then show ?thesis using Dbl True by (simp add: A w)
    qed
  qed
qed

lemma attach:
  assumes inv: "fs_inv (ptrs (set_addr ip i a s) (troot i n)) s" and h: "held s ip n" and i: "i < 13"
    and z: "\<And>sl. (n, sl) \<in> troot i n \<Longrightarrow> val s n sl = 0"
    and m: "\<And>sl. (n, sl) \<in> troot i n \<Longrightarrow> meta sl \<Longrightarrow> val (set_addr ip i a s) n sl \<noteq> 0 \<Longrightarrow> bref s (val (set_addr ip i a s) n sl) = 1"
  shows "fs_inv {#} (set_addr ip i a s)"
proof -
  note I = fs_invD [OF inv]
  have n: "n \<in> inums s" using h by (simp add: held_def)
  have "val s (fst l) (snd l) = 0" if "l \<in> troot i n" for l
    using that z [of "snd l"] troot_own [of "fst l" "snd l" i n] by (cases l) simp
  then have p0: "ptrs s (troot i n) = {#}" using finite_subset [OF troot_locs [OF n i] finite_locs] by (auto simp: ptrs_def)
  have "fs_inv ({#} + ptrs s (troot i n)) (set_addr ip i a s)"
  proof (rule fs_inv_move)
    show "fs_inv ({#} + ptrs (set_addr ip i a s) (troot i n)) s" using inv by simp
    show "troot i n \<subseteq> locs s" by (rule troot_locs [OF n i])
    show "blks_ok (set_addr ip i a s)" using I(2) by (simp add: blks_ok_def)
    show "ic_ok (set_addr ip i a s)" by (rule ic_ok_set_addr [OF I(3)])
    show "val (set_addr ip i a s) q sl = val s q sl" if "(q, sl) \<in> locs s" "(q, sl) \<notin> troot i n" for q sl
      using val_attach [OF I(3) h i _ that(2)] that(1) by (simp add: locs_def)
    show "bref s (val (set_addr ip i a s) q sl) = 1"
      if "(q, sl) \<in> troot i n" "meta sl" "val (set_addr ip i a s) q sl \<noteq> 0" for q sl
      using troot_own [OF that(1)] m that by blast
  qed simp_all
  then show ?thesis by (simp add: p0)
qed

text \<open>
  \<open>grafted s f g i s'\<close>: the part of file \<open>g\<close> under entry \<open>i\<close> of its inode now maps the blocks of
  file \<open>f\<close>; nothing else changed.
\<close>

definition grafted :: "fs \<Rightarrow> nat \<Rightarrow> nat \<Rightarrow> nat \<Rightarrow> fs \<Rightarrow> bool" where
  "grafted s f g i s' \<longleftrightarrow>
     fs_inv {#} s' \<and> fr s s' \<and>
     (\<forall>b. dstart (fs_sb s) \<le> b \<and> bref s b > 0 \<longrightarrow> blk s' b = blk s b) \<and> (\<forall>b. bref s b \<le> bref s' b) \<and>
     (\<forall>m sl. (m, sl) \<in> locs s \<and> (m, sl) \<notin> troot i g \<longrightarrow> val s' m sl = val s m sl) \<and>
     (\<forall>sl. (g, sl) \<in> troot i g \<and> \<not> meta sl \<longrightarrow> val s' g sl = val s f sl)"

lemma graft:
  assumes h: "held s ip g" and i: "i < 13" and z: "iaddrs s g ! i = 0" and inv0: "fs_inv {#} s"
    and p: "prep {} {} s s2" and inv: "fs_inv (ptrs (set_addr ip i a s2) (troot i g)) s2"
    and m: "\<And>sl. (g, sl) \<in> troot i g \<Longrightarrow> meta sl \<Longrightarrow> val (set_addr ip i a s2) g sl \<noteq> 0 \<Longrightarrow> bref s2 (val (set_addr ip i a s2) g sl) = 1"
    and d: "\<And>sl. (g, sl) \<in> troot i g \<Longrightarrow> \<not> meta sl \<Longrightarrow> val (set_addr ip i a s2) g sl = val s f sl"
  shows "grafted s f g i (set_addr ip i a s2)"
proof -
  have g: "g \<in> inums s" using h by (simp add: held_def)
  have f2: "fr s s2" by (rule prep_fr [OF p])
  have h2: "held s2 ip g" by (rule fr_held [OF f2 h])
  have v2: "val s2 n sl = val s n sl" if "(n, sl) \<in> locs s" for n sl using p that by (simp add: prep_def)
  have z2: "val s2 g sl = 0" if t: "(g, sl) \<in> troot i g" for sl
  proof -
    have l: "(g, sl) \<in> locs s" using t troot_locs [OF g i] by blast
    then have "val s g sl = (if (g, sl) \<in> troot i g then 0 else val s g sl)"
      using clear_none [OF inv0 h i z] unfolding cleared_def by blast
    then show ?thesis using v2 [OF l] t by simp
  qed
  have "fs_inv {#} (set_addr ip i a s2)" by (rule attach [OF inv h2 i z2 m])
  moreover have "fr s (set_addr ip i a s2)" by (rule fr_trans [OF f2 fr_set_addr])
  moreover have "val (set_addr ip i a s2) q sl = val s q sl" if "(q, sl) \<in> locs s" "(q, sl) \<notin> troot i g" for q sl
    using val_attach [OF fs_invD(3) [OF inv] h2 i _ that(2), of a] v2 [OF that(1)] that(1) by (simp add: locs_def)
  ultimately show ?thesis using p d by (simp add: grafted_def prep_def)
qed

lemma spec_under:
  assumes "ic_free m" "spec k s m (\<lambda>x s'. Q x (set_addr ip i a s'))"
  shows "spec k (set_addr ip i a s) m Q"
proof -
  have e: "m (set_addr ip i a s) = apsnd (set_addr ip i a) (m s)"
    using ic_freeD [OF assms(1), of _ s] ic_free_icache [OF assms(1), of s]
    by (cases "m s") (simp add: set_addr_def)
  have nf: "nfree (set_addr ip i a t) = nfree t" for t
    by (intro nfree_cong) (auto simp: bit_set_def)
  show ?thesis using assms(2) unfolding spec_def e
    by (cases "m s"; cases "fst (m s)") (auto simp: nf)
qed

lemma ic_free_inc: "ic_free (bref_inc a)"
  by (simp add: ic_free_def bref_inc_def fret_def fpanic_def)

lemma ic_free_iclone_words: "ic_free (iclone_words c new)"
proof -
  have "ic_free (\<lambda>s. (\<lambda>a. if a \<noteq> 0 then bref_inc a else fret ()) (addr_word (blk s c) j) s)" for c j
    by (rule ic_free_read [where m = "\<lambda>a. if a \<noteq> 0 then bref_inc a else fret ()" and g = "\<lambda>b. addr_word (b c) j"])
      (simp add: ic_free_inc)
  then have "ic_free (bref_inc_words new)"
    unfolding bref_inc_words_def by (intro ic_free_ffor) (simp add: Let_def if_distribR)
  moreover have "ic_free (\<lambda>s. fret () (logw new s))" by (simp add: ic_free_def fret_def logw_def)
  ultimately have "ic_free (bbind (bref_inc_words new) (\<lambda>_ s. fret () (logw new s)))" by (rule ic_free_bind)
  note D = ic_freeD [OF this]
  have W: "wblk new d (s\<lparr>icache := F\<rparr>) = (wblk new d s)\<lparr>icache := F\<rparr>" for s F d by (simp add: wblk_def)
  show ?thesis unfolding ic_free_def iclone_words_def by (simp add: W D)
qed

lemma src_kept: "src \<noteq> dst \<Longrightarrow> icache (set_addr dst i a s) ! src = icache s ! src"
  by (simp add: set_addr_def)

lemma held_distinct: "held s src f \<Longrightarrow> held s dst g \<Longrightarrow> f \<noteq> g \<Longrightarrow> src \<noteq> dst"
  by (auto simp: held_def)

lemma iclone_addr_spec:
  assumes inv: "fs_inv {#} s" and h: "held s src f" "held s dst g" "f \<noteq> g" and i: "i < 11" and z: "iaddrs s g ! i = 0"
  shows "spec 0 s (iclone_addr src dst i) (\<lambda>_ s'. grafted s f g i s')"
proof -
  define a where "a = iaddrs s f ! i"
  note sd = held_distinct [OF h]
  have e: "i_addrs (icache s ! src) = iaddrs s f" using iaddrs_held(1) [OF fs_invD(3) [OF inv] h(1)] by simp
  have i13: "i < 13" using i by simp
  have t: "troot i g = {(g, Dir i)}" using i by (simp add: troot_def)
  have fi: "(f, Dir i) \<in> locs s" using h(1) i by (auto simp: held_def intro: locsI)
  have nm: "\<not> meta (Dir i)" using i by simp
  have run: "iclone_addr src dst i s = (if a \<noteq> 0 then bref_inc a else fret ()) (set_addr dst i a s)"
    using sd by (simp add: iclone_addr_def Let_def src_kept e a_def)
  have vd: "val (set_addr dst i a s2) g (Dir i) = a" if "fs_inv P s2" "held s2 dst g" for P s2
    using iaddrs_set_addr [OF fs_invD(3) [OF that(1)] that(2)] iaddrs_held(2) [OF fs_invD(3) [OF that(1)] that(2)] i by simp
  have step: "grafted s f g i (set_addr dst i a s2)" if p: "prep {} {} s s2" and i2: "fs_inv (opt a) s2" for s2
  proof (rule graft [OF h(2) i13 z inv p])
    have h2: "held s2 dst g" by (rule fr_held [OF prep_fr [OF p] h(2)])
    show "fs_inv (ptrs (set_addr dst i a s2) (troot i g)) s2"
      using i2 vd [OF i2 h2] by (simp add: t ptrs_single)
    show "val (set_addr dst i a s2) g sl = val s f sl" if "(g, sl) \<in> troot i g" for sl
      using that vd [OF i2 h2] by (simp add: t a_def)
  qed (use t nm in auto)
  have "spec 0 (set_addr dst i a s) (if a \<noteq> 0 then bref_inc a else fret ()) (\<lambda>_ s'. grafted s f g i s')"
  proof (rule spec_under)
    show "ic_free (if a \<noteq> 0 then bref_inc a else fret ())" by (simp add: ic_free_inc)
    show "spec 0 s (if a \<noteq> 0 then bref_inc a else fret ()) (\<lambda>_ s'. grafted s f g i (set_addr dst i a s'))"
    proof (cases "a = 0")
      case True
      then show ?thesis using step [of s] inv by (simp add: spec_ret opt_def)
    next
      case False
      have va: "val s f (Dir i) = a" by (simp add: a_def)
      have sz: "size {#} \<le> (1000000 :: nat)" by simp
      have "spec 0 s (bref_inc a) (\<lambda>_ s'. grafted s f g i (set_addr dst i a s'))"
        by (rule spec_mono [OF inc_word_spec [OF inv sz fi nm va False]]) (use step False in \<open>auto simp: opt_def\<close>)
      then show ?thesis using False by simp
    qed
  qed
  moreover have "nfree (set_addr dst i a s) = nfree s" by (intro nfree_cong) (auto simp: bit_set_def)
  ultimately show ?thesis by (simp only: spec_def run)
qed

lemma shares_meta:
  assumes "n \<in> inums s" "slot_ok q" "meta q" "\<And>j. \<not> meta (child q j)" "val s n q = c" "c \<noteq> 0"
  shows "shares s c"
  unfolding shares_def
proof (intro allI impI)
  fix j assume "j < NADDR" "addr_word (blk s c) j \<noteq> 0"
  then show "\<exists>m k. (m, k) \<in> locs s \<and> \<not> meta k \<and> val s m k = addr_word (blk s c) j"
    using assms child_ok [OF assms(2,3)] val_child [OF assms(2,3), of s n j]
    by (intro exI [of _ n] exI [of _ "child q j"]) (auto intro: locsI simp: via_def)
qed

text \<open>A freshly allocated block: its count is one and stays so.\<close>

lemma fresh_count:
  assumes inv: "fs_inv P s" and g: "grew s b s1" and p: "prep U F s1 s2"
  shows "bref s2 b = 1" "refs s2 b = 0" "b \<noteq> 0" "dstart (fs_sb s) \<le> b"
proof -
  have G: "bref s b = 0" "bref s1 b = 1" "dstart (fs_sb s) \<le> b" "b < sb_size (fs_sb s)" using g by (auto simp: grew_def)
  then have "refs s b = 0" using count_okD [OF fs_invD(5) [OF inv] G(3,4)] by simp
  then have "refs s1 b = 0" using prep_refs [OF grew_prep [OF g]] by simp
  then show "bref s2 b = 1" "refs s2 b = 0" using p G(2) prep_refs [OF p, of b] by (auto simp: prep_def)
  show "dstart (fs_sb s) \<le> b" by (rule G)
  then show "b \<noteq> 0" using lay_order [OF fs_invD(1) [OF inv]] by auto
qed

lemma iclone_single_spec:
  assumes inv: "fs_inv {#} s" and h: "held s src f" "held s dst g" "f \<noteq> g" and z: "iaddrs s g ! 11 = 0"
  shows "spec (if iaddrs s f ! 11 = 0 then 0 else 1) s (iclone_single src dst) (\<lambda>_ s'. grafted s f g 11 s')"
proof -
  define c where "c = iaddrs s f ! 11"
  note sd = held_distinct [OF h]
  have e: "i_addrs (icache s ! src) = iaddrs s f" using iaddrs_held(1) [OF fs_invD(3) [OF inv] h(1)] by simp
  have fi: "f \<in> inums s" using h(1) by (simp add: held_def)
  have lf: "(f, Dir 11) \<in> locs s" using fi by (auto intro: locsI)
  show ?thesis
  proof (cases "c = 0")
    case True
    have "grafted s f g 11 s"
      unfolding grafted_def
    proof (intro conjI allI impI; (elim conjE)?)
      fix sl assume "(g, sl) \<in> troot 11 g" "\<not> meta sl"
      then show "val s g sl = val s f sl" using z True by (auto simp: troot_def tree1_def c_def via_def)
    qed (use inv in auto)
    then show ?thesis using True by (simp add: spec_def iclone_single_def e fret_def c_def)
  next
    case False
    have vc: "val s f (Dir 11) = c" by (simp add: c_def)
    have cr: "bref s c > 0" "dstart (fs_sb s) \<le> c" using val_bref [OF inv lf] vc False by auto
    have sh: "shares s c" by (rule shares_meta [OF fi, of "Dir 11"]) (use vc False in auto)
    have run: "iclone_single src dst s = bbind balloc (\<lambda>new s. iclone_words (i_addrs (icache s ! src) ! 11) new (set_addr dst 11 new s)) s"
      using False sd by (simp add: iclone_single_def e c_def Let_def src_kept)
    have "spec (1 + 0) s (bbind balloc (\<lambda>new s. iclone_words (i_addrs (icache s ! src) ! 11) new (set_addr dst 11 new s)))
      (\<lambda>_ s'. grafted s f g 11 s')"
    proof (rule spec_seq [OF balloc_spec [OF inv]])
      fix new s1 assume A: "grew s new s1 \<and> fs_inv (add_mset new {#}) s1"
      have G: "icache s1 = icache s" "bref s new = 0" "blk s1 c = blk s c"
        using A grew_kept [OF conjunct1 [OF A] cr(2,1)] by (simp_all add: grew_def)
      note n0 = fresh_count [OF inv conjunct1 [OF A] prep_refl]
      have sh1: "shares s1 c" by (rule shares_prep [OF grew_prep [OF conjunct1 [OF A]] sh G(3)])
      have sz: "size (add_mset new {#}) \<le> (900000 :: nat)" "new \<in># add_mset new {#}" by simp_all
      have ic: "i_addrs (icache s1 ! src) ! 11 = c" by (simp add: G(1) e c_def)
      have "spec 0 s1 (iclone_words c new) (\<lambda>_ s'. grafted s f g 11 (set_addr dst 11 new s'))"
      proof (rule spec_mono [OF iclone_words_spec [OF conjunct2 [OF A] sz n0(3) sh1]])
        fix u s2 assume B: "prep {} {new} s1 s2 \<and> blk s2 new = blk s1 c \<and> fs_inv (add_mset new {#} + words s1 c [0..<NADDR]) s2"
        have p: "prep {} {} s s2" by (rule prep_fresh [OF conjunct1 [OF A]]) (use B in simp)
        have h2: "held s2 dst g" by (rule fr_held [OF prep_fr [OF p] h(2)])
        let ?s3 = "set_addr dst 11 new s2"
        have i3: "iaddrs ?s3 g ! 11 = new" "ic_ok ?s3"
          using B iaddrs_set_addr [OF fs_invD(3) h2] iaddrs_held(2) [OF fs_invD(3) h2] ic_ok_set_addr [OF fs_invD(3)] by auto
        have w: "subptrs ?s3 new = add_mset new (words s1 c [0..<NADDR])"
          using n0(3) B by (simp add: subptrs_set_addr subptrs_def words_def)
        show "grafted s f g 11 ?s3"
        proof (rule graft [OF h(2) _ z inv p])
          show "fs_inv (ptrs ?s3 (troot 11 g)) s2" using B by (simp add: troot_def ptrs_tree1 i3(1) w)
          show "bref s2 (val ?s3 g sl) = 1" if "(g, sl) \<in> troot 11 g" "meta sl" for sl
            using that i3(1) fresh_count(1) [OF inv conjunct1 [OF A] conjunct1 [OF B]] by (auto simp: troot_def tree1_def)
          show "val ?s3 g sl = val s f sl" if t: "(g, sl) \<in> troot 11 g" "\<not> meta sl" for sl
          proof -
            obtain j where "sl = Ind j" using t by (auto simp: troot_def tree1_def)
            then show ?thesis using n0(3) False B G(3) i3(1) by (simp add: via_def flip: c_def)
          qed
        qed simp
      qed simp
      from spec_under [OF ic_free_iclone_words this]
      have "spec 0 (set_addr dst 11 new s1) (iclone_words c new) (\<lambda>_ s'. grafted s f g 11 s')" .
      moreover have "nfree (set_addr dst 11 new s1) = nfree s1" by (intro nfree_cong) (auto simp: bit_set_def)
      ultimately show "spec 0 s1 (\<lambda>s. iclone_words (i_addrs (icache s ! src) ! 11) new (set_addr dst 11 new s)) (\<lambda>_ s'. grafted s f g 11 s')"
        by (simp only: spec_def ic)
    qed
    then show ?thesis using False by (simp only: spec_def run add_0_right c_def if_False)
  qed
qed

subsection \<open>The double indirect block\<close>

lemma ffor_spec:
  assumes step: "\<And>k s. k < n \<Longrightarrow> I k s \<Longrightarrow> spec (b k) s (body k) (\<lambda>_ s'. I (Suc k) s')" and i: "I k s" "k \<le> n"
  shows "spec (sum b {k..<n}) s (ffor body [k..<n]) (\<lambda>_ s'. I n s')"
  using i
proof (induction "n - k" arbitrary: k s)
  case 0
  then show ?case by (simp add: spec_ret ffor_Nil)
next
  case (Suc d)
  then have k: "k < n" by simp
  have "spec (b k + sum b {Suc k..<n}) s (bbind (body k) (\<lambda>_. ffor body [Suc k..<n])) (\<lambda>_ s'. I n s')"
    by (rule spec_seq [OF step [OF k Suc.prems(1)]]) (use Suc.hyps k in auto)
  then show ?case using k by (simp add: upt_conv_Cons ffor_Cons sum.atLeast_Suc_lessThan)
qed

text \<open>\<open>w\<close> is a finished copy of the indirect block \<open>a\<close>.\<close>

definition copy_of :: "fs \<Rightarrow> nat \<Rightarrow> nat \<Rightarrow> fs \<Rightarrow> nat \<Rightarrow> bool" where
  "copy_of s1 new a s w \<longleftrightarrow>
     w \<noteq> 0 \<and> w \<noteq> new \<and> dstart (fs_sb s1) \<le> w \<and> blk s w = blk s1 a \<and> bref s w = 1 \<and> refs s w = 0"

definition levels :: "fs \<Rightarrow> nat \<Rightarrow> nat \<Rightarrow> nat \<Rightarrow> fs \<Rightarrow> bool" where
  "levels s1 c new k s \<longleftrightarrow>
     prep {new} {new} s1 s \<and> fs_inv (add_mset new (subptrs2 s new [0..<k])) s \<and>
     (\<forall>i < NADDR. if i < k \<and> addr_word (blk s1 c) i \<noteq> 0 then copy_of s1 new (addr_word (blk s1 c) i) s (addr_word (blk s new) i)
                  else addr_word (blk s new) i = 0)"

definition source_ok :: "fs \<Rightarrow> nat \<Rightarrow> nat \<Rightarrow> bool" where
  "source_ok s1 c new \<longleftrightarrow>
     new \<noteq> 0 \<and> c \<noteq> new \<and> dstart (fs_sb s1) \<le> c \<and> bref s1 c > 0 \<and>
     (\<forall>i < NADDR. addr_word (blk s1 c) i \<noteq> 0 \<longrightarrow>
        addr_word (blk s1 c) i \<noteq> new \<and> dstart (fs_sb s1) \<le> addr_word (blk s1 c) i \<and> bref s1 (addr_word (blk s1 c) i) > 0 \<and>
        shares s1 (addr_word (blk s1 c) i))"

lemma prep_kept: "prep U F s s' \<Longrightarrow> dstart (fs_sb s) \<le> b \<Longrightarrow> bref s b > 0 \<Longrightarrow> b \<notin> F \<Longrightarrow> blk s' b = blk s b"
  by (simp add: prep_def)

lemma copy_of_prep:
  assumes w: "copy_of s1 new a s w" and p: "prep U F s s'" and F: "w \<notin> F" and sb: "fs_sb s = fs_sb s1"
  shows "copy_of s1 new a s' w" "subptrs s' w = subptrs s w"
proof -
  have b: "blk s' w = blk s w" by (rule prep_kept [OF p _ _ F]) (use w sb in \<open>auto simp: copy_of_def\<close>)
  have "bref s' w = bref s w" using p w by (simp add: prep_def copy_of_def)
  then show "copy_of s1 new a s' w" using w b prep_refs [OF p, of w] by (simp add: copy_of_def)
  show "subptrs s' w = subptrs s w" using b by (simp add: subptrs_def words_def)
qed

lemma subptrs2_Suc: "subptrs2 s c [0..<Suc k] = subptrs2 s c [0..<k] + subptrs s (addr_word (blk s c) k)"
  by (simp add: subptrs2_def)

lemma prep_pos: "prep U F s s' \<Longrightarrow> bref s b > 0 \<Longrightarrow> bref s' b > 0"
  unfolding prep_def by (metis gr_zeroI leD)

lemma level_done:
  assumes L: "levels s1 c new k s" and k: "k < NADDR" "addr_word (blk s1 c) k \<noteq> 0" and sb: "fs_sb s = fs_sb s1"
    and p: "prep {new} {new} s s4" and bn: "blk s4 new = put32 (blk s new) (4 * k) l1" and l1: "l1 < 4294967296"
    and cp: "copy_of s1 new (addr_word (blk s1 c) k) s4 l1"
    and inv: "fs_inv (add_mset l1 (add_mset new (subptrs2 s new [0..<k])) + words s4 l1 [0..<NADDR]) s4"
  shows "levels s1 c new (Suc k) s4"
proof -
  have p0: "prep {new} {new} s1 s" and inv0: "fs_inv (add_mset new (subptrs2 s new [0..<k])) s" using L by (auto simp: levels_def)
  have "length (blk s new) = BSIZE" using fs_invD(2) [OF inv0] by (simp add: blks_ok_def)
  from addr_word_put [OF this k(1) _ l1]
  have w: "addr_word (blk s4 new) i = (if i = k then l1 else addr_word (blk s new) i)" if "i < NADDR" for i
    unfolding bn using that by blast
  have old: "copy_of s1 new (addr_word (blk s1 c) i) s4 (addr_word (blk s new) i) \<and>
      subptrs s4 (addr_word (blk s new) i) = subptrs s (addr_word (blk s new) i)" if "i < k" "addr_word (blk s1 c) i \<noteq> 0" for i
  proof -
    have c: "copy_of s1 new (addr_word (blk s1 c) i) s (addr_word (blk s new) i)" using L that k by (simp add: levels_def)
    then show ?thesis using copy_of_prep [OF c p _ sb] by (simp add: copy_of_def)
  qed
  have zero: "addr_word (blk s new) i = 0" if "i < NADDR" "\<not> (i < k \<and> addr_word (blk s1 c) i \<noteq> 0)" for i
    using L that unfolding levels_def by metis
  have "if i < Suc k \<and> addr_word (blk s1 c) i \<noteq> 0 then copy_of s1 new (addr_word (blk s1 c) i) s4 (addr_word (blk s4 new) i)
      else addr_word (blk s4 new) i = 0" if i: "i < NADDR" for i
    using cp old [of i] zero [OF i] w [OF i] k(2) by (auto simp: less_Suc_eq)
  moreover have "subptrs s4 (addr_word (blk s4 new) i) = subptrs s (addr_word (blk s new) i)" if i: "i < k" for i
  proof (cases "addr_word (blk s1 c) i = 0")
    case True
    then have "addr_word (blk s new) i = 0" using zero [of i] i k by simp
    then show ?thesis using w [of i] i k by (simp add: subptrs_def)
  next
    case False
    then show ?thesis using old [OF i] w [of i] i k by simp
  qed
  then have "map (\<lambda>i. subptrs s4 (addr_word (blk s4 new) i)) [0..<k] = map (\<lambda>i. subptrs s (addr_word (blk s new) i)) [0..<k]" by simp
  then have "subptrs2 s4 new [0..<k] = subptrs2 s new [0..<k]" by (simp only: subptrs2_def)
  then have "subptrs2 s4 new [0..<Suc k] = subptrs2 s new [0..<k] + add_mset l1 (words s4 l1 [0..<NADDR])"
    using w [OF k(1)] cp by (simp add: subptrs2_Suc subptrs_def copy_of_def del: upt_Suc)
  then have "fs_inv (add_mset new (subptrs2 s4 new [0..<Suc k])) s4" using inv by (simp add: add_mset_commute del: upt_Suc)
  ultimately show ?thesis using prep_trans [OF p0 p] by (simp only: levels_def) blast
qed

lemma level_copy_spec:
  assumes src: "source_ok s1 c new" and L: "levels s1 c new k s" and k: "k < NADDR" "addr_word (blk s1 c) k = a" "a \<noteq> 0"
    and B: "grew s l1 s2" and i2: "fs_inv (add_mset l1 (add_mset new (subptrs2 s new [0..<k]))) s2"
  shows "spec 0 s2 (\<lambda>s. iclone_words (addr_word (blk (wblk new (put32 (blk s new) (4 * k) l1) s) c) k) l1
      (wblk new (put32 (blk s new) (4 * k) l1) s)) (\<lambda>_ s'. levels s1 c new (Suc k) s')"
proof -
  define P where "P = add_mset l1 (add_mset new (subptrs2 s new [0..<k]))"
  define s3 where "s3 = wblk new (put32 (blk s2 new) (4 * k) l1) s2"
  have p: "prep {new} {new} s1 s" and inv: "fs_inv (add_mset new (subptrs2 s new [0..<k])) s" using L by (auto simp: levels_def)
  have S: "new \<noteq> 0" "c \<noteq> new" "dstart (fs_sb s1) \<le> c" "bref s1 c > 0" using src by (auto simp: source_ok_def)
  have A: "a \<noteq> new" "dstart (fs_sb s1) \<le> a" "bref s1 a > 0" "shares s1 a" using src k by (auto simp: source_ok_def)
  have sb: "fs_sb s = fs_sb s1" using p by (simp add: prep_def)
  have G: "bref s l1 = 0" "l1 < sb_size (fs_sb s)" using B by (auto simp: grew_def)
  have nr: "bref s new > 0" "dstart (fs_sb s) \<le> new" using fs_invD(5) [OF inv] by (auto simp: count_ok_def)
  have l1n: "l1 \<noteq> new" using G nr by auto
  have len: "length (put32 (blk s2 new) (4 * k) l1) = BSIZE" using fs_invD(2) [OF i2] by (simp add: blks_ok_def)
  note W = wblk_prep [OF i2 _ S(1) len, folded s3_def, folded P_def]
  have i3: "fs_inv P s3" "nfree s3 = nfree s2" and p3: "prep {new} {new} s2 s3" using W by (auto simp: P_def)
  have ps3: "prep {new} {new} s s3" using prep_trans [OF prep_weaken [OF grew_prep [OF B]] p3] by simp
  have p13: "prep {new} {new} s1 s3" by (rule prep_trans [OF p ps3])
  have b3: "blk s3 c = blk s1 c" "blk s3 a = blk s1 a" using prep_kept [OF p13] S A by auto
  have sh3: "shares s3 a" by (rule shares_prep [OF p13 A(4) b3(2)])
  note n0 = fresh_count [OF inv B]
  have lz: "l1 \<noteq> 0" by (rule n0(3) [OF prep_refl])
  have sz: "size P \<le> 900000" using subptrs2_size [of s new "[0..<k]"] k by (simp add: P_def)
  have "spec 0 s3 (iclone_words a l1) (\<lambda>_ s'. levels s1 c new (Suc k) s')"
  proof (rule spec_mono [OF iclone_words_spec [OF i3(1) sz _ lz sh3]])
    show "l1 \<in># P" by (simp add: P_def)
    fix u s4 assume C: "prep {} {l1} s3 s4 \<and> blk s4 l1 = blk s3 a \<and> fs_inv (P + words s3 a [0..<NADDR]) s4"
    have p24: "prep {new} {l1, new} s2 s4"
      using prep_trans [OF prep_weaken [OF p3] prep_weaken [OF conjunct1 [OF C]], of "{new}" "{l1, new}"] by blast
    have "blk s4 new = blk s3 new"
      using prep_kept [OF conjunct1 [OF C], of new] prep_pos [OF ps3 nr(1)] nr(2) l1n ps3 by (simp add: prep_def)
    then have bn: "blk s4 new = put32 (blk s new) (4 * k) l1" using grew_kept [OF B nr(2,1)] by (simp add: s3_def)
    have cp: "copy_of s1 new (addr_word (blk s1 c) k) s4 l1"
      using n0 [OF p24] C b3(2) l1n sb k(2) by (simp add: copy_of_def)
    have "words s4 l1 [0..<NADDR] = words s3 a [0..<NADDR]" using C by (simp add: words_def)
    then have i4: "fs_inv (add_mset l1 (add_mset new (subptrs2 s new [0..<k])) + words s4 l1 [0..<NADDR]) s4"
      using C by (simp add: P_def)
    have "l1 < 4294967296" using fs_invD(1) [OF inv] G(2) by (auto simp: lay_ok_def)
    from level_done [OF L k(1) _ sb _ bn this cp i4] k prep_fresh [OF B p24] show "levels s1 c new (Suc k) s4" by simp
  qed simp
  then show ?thesis by (simp only: spec_def s3_def [symmetric] b3(1) k(2) i3(2))
qed

lemma level_step:
  assumes src: "source_ok s1 c new" and L: "levels s1 c new k s" and k: "k < NADDR"
  shows "spec (if addr_word (blk s1 c) k = 0 then 0 else 1) s (iclone_level c new k) (\<lambda>_ s'. levels s1 c new (Suc k) s')"
proof -
  define a where "a = addr_word (blk s1 c) k"
  have p: "prep {new} {new} s1 s" and inv: "fs_inv (add_mset new (subptrs2 s new [0..<k])) s" using L by (auto simp: levels_def)
  have bc: "blk s c = blk s1 c" using prep_kept [OF p] src by (simp add: source_ok_def)
  show ?thesis
  proof (cases "a = 0")
    case True
    have "addr_word (blk s new) k = 0" using L k by (simp add: levels_def)
    then have "subptrs2 s new [0..<Suc k] = subptrs2 s new [0..<k]" by (simp add: subptrs2_Suc subptrs_def del: upt_Suc)
    then have "levels s1 c new (Suc k) s" using L True k by (auto simp: levels_def less_Suc_eq a_def simp del: upt_Suc)
    then show ?thesis using True by (simp add: spec_def iclone_level_def bc a_def fret_def)
  next
    case False
    let ?go = "\<lambda>l1 s. iclone_words (addr_word (blk (wblk new (put32 (blk s new) (4 * k) l1) s) c) k) l1
      (wblk new (put32 (blk s new) (4 * k) l1) s)"
    have run: "iclone_level c new k s = bbind balloc ?go s" using False by (simp add: iclone_level_def bc a_def Let_def)
    have "spec (1 + 0) s (bbind balloc ?go) (\<lambda>_ s'. levels s1 c new (Suc k) s')"
      by (rule spec_seq [OF balloc_spec [OF inv]]) (rule level_copy_spec [OF src L k a_def [symmetric] False]; blast)
    then show ?thesis using False by (simp only: spec_def run add_0_right a_def if_False)
  qed
qed

lemma ic_free_levels: "ic_free (iclone_levels c new)"
proof -
  have W: "wblk new d (s\<lparr>icache := F\<rparr>) = (wblk new d s)\<lparr>icache := F\<rparr>" for s F d by (simp add: wblk_def)
  note D = ic_freeD [OF ic_free_iclone_words]
  have "ic_free (\<lambda>s. let s = wblk new (put32 (blk s new) (4 * i) l1) s in iclone_words (addr_word (blk s c) i) l1 s)" for l1 i
    by (simp add: ic_free_def Let_def W D)
  then have "ic_free (bbind balloc (\<lambda>l1 s. let s = wblk new (put32 (blk s new) (4 * i) l1) s in iclone_words (addr_word (blk s c) i) l1 s))" for i
    by (intro ic_free_bind ic_free_balloc)
  then have "ic_free (iclone_level c new i)" for i
    unfolding ic_free_def iclone_level_def by (simp add: fret_def)
  then have "ic_free (bbind (ffor (iclone_level c new) [0..<NADDR]) (\<lambda>_ s. fret () (logw new s)))"
    by (intro ic_free_bind ic_free_ffor) (auto simp: ic_free_def fret_def logw_def)
  then show ?thesis unfolding ic_free_def iclone_levels_def by (simp add: W)
qed

lemma levels_spec:
  assumes inv: "fs_inv (add_mset new {#}) s" and src: "source_ok s c new"
  shows "spec (card {i. i < NADDR \<and> addr_word (blk s c) i \<noteq> 0}) s (iclone_levels c new) (\<lambda>_ s'. \<exists>s4. levels (wblk new zeros s) c new 256 s4 \<and> s' = logw new s4)"
proof -
  let ?s1 = "wblk new zeros s"
  have nz: "new \<noteq> 0" using src by (simp add: source_ok_def)
  note W = wblk_prep [OF inv _ nz length_zeros]
  have p: "prep {new} {new} s ?s1" and i1: "fs_inv (add_mset new {#}) ?s1" and nf: "nfree ?s1 = nfree s" using W by auto
  have b: "blk ?s1 b = blk s b" if "b \<noteq> new" for b using that by simp
  have src1: "source_ok ?s1 c new"
    using src shares_prep [OF p _ b] by (auto simp: source_ok_def)
  have l0: "levels ?s1 c new 0 ?s1" using i1 by (simp add: levels_def subptrs2_def)
  let ?b = "\<lambda>i. if addr_word (blk s c) i = 0 then 0 else 1 :: nat"
  have bc: "blk ?s1 c = blk s c" using src by (simp add: source_ok_def)
  have "spec (sum ?b {0..<256} + 0) ?s1 (bbind (ffor (iclone_level c new) [0..<256]) (\<lambda>_ s. fret () (logw new s)))
      (\<lambda>_ s'. \<exists>s4. levels ?s1 c new 256 s4 \<and> s' = logw new s4)"
  proof (rule spec_seq [OF ffor_spec [where I = "levels ?s1 c new"]])
    fix u s4 assume "levels ?s1 c new 256 s4"
    then show "spec 0 s4 (\<lambda>s. fret () (logw new s)) (\<lambda>_ s'. \<exists>s4. levels ?s1 c new 256 s4 \<and> s' = logw new s4)"
      by (auto simp: spec_def fret_def)
  qed (use level_step [OF src1, unfolded bc] l0 in auto)
  moreover have "sum ?b {0..<256} = card {i. i < NADDR \<and> addr_word (blk s c) i \<noteq> 0}"
  proof -
    have "sum ?b {0..<256} = sum (\<lambda>_. 1) {i \<in> {0..<256}. addr_word (blk s c) i \<noteq> 0}" by (simp add: sum.If_cases Int_def)
    then show ?thesis by simp
  qed
  ultimately show ?thesis by (simp only: spec_def iclone_levels_def nf add_0_right)
qed

lemma double_source:
  assumes inv: "fs_inv {#} s" and f: "f \<in> inums s" and c: "iaddrs s f ! 12 = c" "c \<noteq> 0" and g: "grew s new s1"
  shows "source_ok s1 c new"
proof -
  have lc: "(f, Dir 12) \<in> locs s" "val s f (Dir 12) = c" using f c by (auto intro: locsI)
  have cr: "bref s c > 0" "dstart (fs_sb s) \<le> c" using val_bref [OF inv lc(1)] lc(2) c(2) by auto
  have G: "bref s new = 0" "fs_sb s1 = fs_sb s" using g fr_sb by (auto simp: grew_def)
  have p: "prep {} {} s s1" by (rule grew_prep [OF g])
  have bc: "blk s1 c = blk s c" by (rule grew_kept [OF g cr(2,1)])
  have "new \<noteq> 0" by (rule fresh_count(3) [OF inv g prep_refl])
  moreover have "a \<noteq> new \<and> dstart (fs_sb s) \<le> a \<and> bref s1 a > 0 \<and> shares s1 a"
    if a: "a = addr_word (blk s c) i" "a \<noteq> 0" "i < NADDR" for a i
  proof -
    have v: "val s f (Lvl i) = a" using a c by (simp add: via_def)
    have l: "(f, Lvl i) \<in> locs s" using f a(3) by (auto intro: locsI)
    have r: "bref s a > 0" "dstart (fs_sb s) \<le> a" using val_bref [OF inv l] v a(2) by auto
    have "shares s a" by (rule shares_meta [OF f, of "Lvl i"]) (use v a in auto)
    then have "shares s1 a" using shares_prep [OF p] grew_kept [OF g r(2,1)] by blast
    then show ?thesis using r G(1) prep_pos [OF p r(1)] by auto
  qed
  ultimately show ?thesis using cr G prep_pos [OF p cr(1)] by (auto simp: source_ok_def bc)
qed

lemma levels_grafted:
  assumes inv: "fs_inv {#} s" and h: "held s dst g" and f: "f \<in> inums s" and z: "iaddrs s g ! 12 = 0"
    and c: "iaddrs s f ! 12 = c" "c \<noteq> 0" and G: "grew s new s1" and L: "levels (wblk new zeros s1) c new 256 s4"
  shows "grafted s f g 12 (set_addr dst 12 new (logw new s4))"
proof -
  let ?s1 = "wblk new zeros s1" and ?s2 = "logw new s4"
  let ?s3 = "set_addr dst 12 new ?s2"
  have lc: "(f, Dir 12) \<in> locs s" "val s f (Dir 12) = c" using f c by (auto intro: locsI)
  have cr: "bref s c > 0" "dstart (fs_sb s) \<le> c" using val_bref [OF inv lc(1)] lc(2) c(2) by auto
  have G0: "bref s new = 0" "blk s1 new = zeros" using G by (auto simp: grew_def)
  then have id: "?s1 = s1" by (simp add: wblk_def fun_upd_idem)
  have p14: "prep {new} {new} s1 s4" using L by (simp add: levels_def id)
  have p: "prep {} {} s ?s2"
    using prep_fresh [OF G, of "{}" "{}"] prep_log [of new "{}" "{new}" s1 s4] p14 by simp
  have i4: "fs_inv (add_mset new (subptrs2 s4 new [0..<NADDR])) s4" using L by (simp add: levels_def)
  note n0 = fresh_count [OF inv G p14]
  have h2: "held ?s2 dst g" by (rule fr_held [OF prep_fr [OF p] h])
  have i2: "fs_inv (add_mset new (subptrs2 s4 new [0..<NADDR])) ?s2" using i4 by simp
  have a3: "iaddrs ?s3 g ! 12 = new"
    using iaddrs_set_addr [OF fs_invD(3) [OF i2] h2] iaddrs_held(2) [OF fs_invD(3) [OF i2] h2] by simp
  have b3: "blk ?s3 = blk s4" by simp
  have bc: "blk ?s1 c = blk s c" using grew_kept [OF G cr(2,1)] id by simp
  have w: "if addr_word (blk s c) i \<noteq> 0 then copy_of ?s1 new (addr_word (blk s c) i) s4 (addr_word (blk s4 new) i)
      else addr_word (blk s4 new) i = 0" if "i < NADDR" for i
    using L that unfolding levels_def bc by auto
  show ?thesis
  proof (rule graft [OF h _ z inv p])
    have sp: "subptrs ?s3 x = subptrs s4 x" for x by (cases "x = 0") (simp_all add: subptrs_def words_def)
    have s2: "subptrs2 ?s3 new [0..<NADDR] = subptrs2 s4 new [0..<NADDR]" by (simp add: subptrs2_def sp)
    have "ptrs ?s3 (troot 12 g) = add_mset new (subptrs2 s4 new [0..<NADDR])"
      using ptrs_tree2 [of ?s3 g] a3 n0(3) s2 by (simp add: troot_def)
    then show "fs_inv (ptrs ?s3 (troot 12 g)) ?s2" using i2 by simp
    show "bref ?s2 (val ?s3 g sl) = 1" if t: "(g, sl) \<in> troot 12 g" "meta sl" "val ?s3 g sl \<noteq> 0" for sl
    proof -
      consider "sl = Dir 12" | i where "sl = Lvl i" "i < NADDR" using t by (auto simp: troot_def tree2_def)
      then show ?thesis
      proof cases
        case 1
        then show ?thesis using a3 n0(1) by simp
      next
        case 2
        then have "val ?s3 g sl = addr_word (blk s4 new) i" using a3 n0(3) by (simp add: via_def)
        then show ?thesis using w [OF 2(2)] t(3) by (auto simp: copy_of_def split: if_splits)
      qed
    qed
    show "val ?s3 g sl = val s f sl" if t: "(g, sl) \<in> troot 12 g" "\<not> meta sl" for sl
    proof -
      obtain i j where sl: "sl = Dbl i j" "i < NADDR" using t by (auto simp: troot_def tree2_def)
      have v: "val ?s3 g sl = via s4 (addr_word (blk s4 new) i) j" "val s f sl = via s (addr_word (blk s c) i) j"
        using sl a3 n0(3) c by (simp_all add: via_def)
      show ?thesis
      proof (cases "addr_word (blk s c) i = 0")
        case True
        then show ?thesis using v w [OF sl(2)] by (simp add: via_def)
      next
        case False
        let ?a = "addr_word (blk s c) i"
        have va: "val s f (Lvl i) = ?a" using c by (simp add: via_def)
        have "bref s ?a > 0" "dstart (fs_sb s) \<le> ?a"
          using val_bref [OF inv locsI [OF f], of "Lvl i"] sl(2) va False by auto
        then have "blk s1 ?a = blk s ?a" using grew_kept [OF G] by blast
        then show ?thesis using v w [OF sl(2)] False id by (simp add: via_def copy_of_def)
      qed
    qed
  qed simp
qed

lemma iclone_double_spec:
  assumes inv: "fs_inv {#} s" and h: "held s src f" "held s dst g" "f \<noteq> g" and z: "iaddrs s g ! 12 = 0"
  shows "spec (if iaddrs s f ! 12 = 0 then 0 else 1 + card {i. i < NADDR \<and> val s f (Lvl i) \<noteq> 0}) s (iclone_double src dst) (\<lambda>_ s'. grafted s f g 12 s')"
proof -
  define c where "c = iaddrs s f ! 12"
  note sd = held_distinct [OF h]
  have e: "i_addrs (icache s ! src) = iaddrs s f" using iaddrs_held(1) [OF fs_invD(3) [OF inv] h(1)] by simp
  have fi: "f \<in> inums s" using h(1) by (simp add: held_def)
  show ?thesis
  proof (cases "c = 0")
    case True
    have "grafted s f g 12 s"
      unfolding grafted_def
    proof (intro conjI allI impI; (elim conjE)?)
      fix sl assume "(g, sl) \<in> troot 12 g" "\<not> meta sl"
      then show "val s g sl = val s f sl" using z True by (auto simp: troot_def tree2_def c_def via_def)
    qed (use inv in auto)
    then show ?thesis using True by (simp add: spec_def iclone_double_def e fret_def c_def)
  next
    case False
    let ?go = "\<lambda>new s. iclone_levels (i_addrs (icache s ! src) ! 12) new (set_addr dst 12 new s)"
    have run: "iclone_double src dst s = bbind balloc ?go s"
      using False sd by (simp add: iclone_double_def e c_def Let_def src_kept)
    define K where "K = card {i. i < NADDR \<and> val s f (Lvl i) \<noteq> 0}"
    have "spec (1 + K) s (bbind balloc ?go) (\<lambda>_ s'. grafted s f g 12 s')"
    proof (rule spec_seq [OF balloc_spec [OF inv]])
      fix new s1 assume "grew s new s1 \<and> fs_inv (add_mset new {#}) s1"
      then have A: "grew s new s1" "fs_inv (add_mset new {#}) s1" by auto
      have ic: "i_addrs (icache s1 ! src) ! 12 = c" using A(1) by (simp add: grew_def e c_def)
      have lc: "(f, Dir 12) \<in> locs s" "val s f (Dir 12) = c" using fi by (auto simp: c_def intro: locsI)
      then have "bref s c > 0" "dstart (fs_sb s) \<le> c" using val_bref [OF inv lc(1)] False by auto
      then have "blk s1 c = blk s c" using grew_kept [OF A(1)] by blast
      then have K: "card {i. i < NADDR \<and> addr_word (blk s1 c) i \<noteq> 0} = K"
        using False by (simp add: K_def via_def flip: c_def)
      have "spec K s1 (iclone_levels c new) (\<lambda>_ s'. grafted s f g 12 (set_addr dst 12 new s'))"
      proof (rule spec_mono [OF levels_spec [OF A(2) double_source [OF inv fi c_def [symmetric] False A(1)]]])
        fix u s' assume "\<exists>s4. levels (wblk new zeros s1) c new 256 s4 \<and> s' = logw new s4"
        then show "grafted s f g 12 (set_addr dst 12 new s')"
          using levels_grafted [OF inv h(2) fi z c_def [symmetric] False A(1)] by blast
      qed (simp only: K order_refl)
      from spec_under [OF ic_free_levels this]
      have "spec K (set_addr dst 12 new s1) (iclone_levels c new) (\<lambda>_ s'. grafted s f g 12 s')" .
      moreover have "nfree (set_addr dst 12 new s1) = nfree s1" by (intro nfree_cong) (auto simp: bit_set_def)
      ultimately show "spec K s1 (?go new) (\<lambda>_ s'. grafted s f g 12 s')" by (simp only: spec_def ic)
    qed
    then show ?thesis using False by (simp only: spec_def run K_def c_def if_False)
  qed
qed

subsection \<open>The whole file\<close>

definition cloned :: "fs \<Rightarrow> nat \<Rightarrow> nat \<Rightarrow> nat set \<Rightarrow> fs \<Rightarrow> bool" where
  "cloned s f g K s' \<longleftrightarrow>
     fs_inv {#} s' \<and> fr s s' \<and>
     (\<forall>b. dstart (fs_sb s) \<le> b \<and> bref s b > 0 \<longrightarrow> blk s' b = blk s b) \<and> (\<forall>b. bref s b \<le> bref s' b) \<and>
     (\<forall>m sl. (m, sl) \<in> locs s \<and> m \<noteq> g \<longrightarrow> val s' m sl = val s m sl) \<and>
     (\<forall>i < 13. \<forall>sl. (g, sl) \<in> troot i g \<longrightarrow>
        (i \<in> K \<and> \<not> meta sl \<longrightarrow> val s' g sl = val s f sl) \<and> (i \<notin> K \<longrightarrow> val s' g sl = 0))"

lemma cloned_step:
  assumes C: "cloned s f g K s'" and G: "grafted s' f g i s''" and i: "i < 13" and fg: "f \<in> inums s" "g \<in> inums s" "f \<noteq> g"
  shows "cloned s f g (insert i K) s''"
proof -
  have sb: "fs_sb s' = fs_sb s" using C fr_sb by (auto simp: cloned_def)
  have L: "locs s' = locs s" by (rule locs_cong [OF sb])
  have "fr s s''" using C G fr_trans by (auto simp: cloned_def grafted_def)
  moreover have "blk s'' b = blk s b" if b: "dstart (fs_sb s) \<le> b" "bref s b > 0" for b
  proof -
    have "bref s b \<le> bref s' b" "blk s' b = blk s b" using C b by (auto simp: cloned_def)
    then show ?thesis using G b sb by (simp add: grafted_def)
  qed
  moreover have "bref s b \<le> bref s'' b" for b using C G order_trans unfolding cloned_def grafted_def by metis
  moreover have "val s'' m sl = val s m sl" if m: "(m, sl) \<in> locs s" "m \<noteq> g" for m sl
  proof -
    have "(m, sl) \<notin> troot i g" using troot_own m(2) by blast
    then show ?thesis using C G m by (simp add: cloned_def grafted_def L)
  qed
  moreover have "(j \<in> insert i K \<and> \<not> meta sl \<longrightarrow> val s'' g sl = val s f sl) \<and> (j \<notin> insert i K \<longrightarrow> val s'' g sl = 0)"
    if j: "j < 13" "(g, sl) \<in> troot j g" for j sl
  proof (cases "j = i")
    case True
    have "(f, sl) \<in> locs s" using troot_locs [OF fg(2) j(1)] j(2) fg(1) by (auto simp: locs_def)
    then have "val s' f sl = val s f sl" using C fg(3) by (simp add: cloned_def)
    then show ?thesis using G j True by (simp add: grafted_def)
  next
    case False
    have "(g, sl) \<notin> troot i g" using troot_unique [OF j(2) _ j(1) i] False by blast
    then have "val s'' g sl = val s' g sl" using G troot_locs [OF fg(2) j(1)] j(2) by (auto simp: grafted_def L)
    then show ?thesis using C j False by (auto simp: cloned_def)
  qed
  ultimately show ?thesis using G by (auto simp: cloned_def grafted_def)
qed

lemma cloned_zero:
  assumes "cloned s f g K s'" "i \<notin> K" "i < 13"
  shows "iaddrs s' g ! i = 0"
proof -
  have "i < 11 \<or> i = 11 \<or> i = 12" using assms(3) by linarith
  then have "(g, Dir i) \<in> troot i g" by (auto simp: troot_def tree1_def tree2_def)
  then have "val s' g (Dir i) = 0" using assms unfolding cloned_def by blast
  then show ?thesis by simp
qed

text \<open>The number of indirect blocks of a file, which a clone has to copy.\<close>

definition nmeta :: "fs \<Rightarrow> nat \<Rightarrow> nat" where
  "nmeta s f = card {sl. slot_ok sl \<and> meta sl \<and> val s f sl \<noteq> 0}"

lemma nmeta_split:
  "nmeta s f = (if iaddrs s f ! 11 = 0 then 0 else 1) +
     (if iaddrs s f ! 12 = 0 then 0 else 1 + card {i. i < NADDR \<and> val s f (Lvl i) \<noteq> 0})"
proof -
  let ?A = "if iaddrs s f ! 11 = 0 then {} else {Dir 11}" and ?L = "{i. i < NADDR \<and> val s f (Lvl i) \<noteq> 0}"
  let ?B = "if iaddrs s f ! 12 = 0 then {} else insert (Dir 12) (Lvl ` ?L)"
  have "{sl. slot_ok sl \<and> meta sl \<and> val s f sl \<noteq> 0} = ?A \<union> ?B" (is "?S = _")
  proof (rule set_eqI)
    fix sl
    have d: "i < 13 \<and> 11 \<le> i \<longleftrightarrow> i = 11 \<or> i = 12" for i :: nat by linarith
    show "sl \<in> ?S \<longleftrightarrow> sl \<in> ?A \<union> ?B"
    proof (cases sl)
      case (Dir i)
      have "sl \<in> ?S \<longleftrightarrow> (i = 11 \<or> i = 12) \<and> iaddrs s f ! i \<noteq> 0" using Dir d [of i] by auto
      then show ?thesis using Dir by auto
    qed (auto simp: via_def)
  qed
  moreover have "card (?A \<union> ?B) = card ?A + card ?B" by (rule card_Un_disjoint) auto
  moreover have "card (Lvl ` ?L) = card ?L" by (rule card_image) (simp add: inj_on_def)
  moreover have "Dir 12 \<notin> Lvl ` ?L" "finite (Lvl ` ?L)" by auto
  ultimately show ?thesis by (simp add: nmeta_def)
qed

lemma clone_all_spec:
  assumes inv: "fs_inv {#} s" and h: "held s src f" "held s dst g" "f \<noteq> g" and z: "\<And>sl. slot_ok sl \<Longrightarrow> val s g sl = 0"
  shows "spec (nmeta s f) s (bbind (ffor (iclone_addr src dst) [0..<NDIRECT]) (\<lambda>_.
      bbind (iclone_single src dst) (\<lambda>_. iclone_double src dst))) (\<lambda>_ s'. cloned s f g {..<13} s')"
proof -
  define b1 where "b1 = (if iaddrs s f ! 11 = 0 then 0 else 1 :: nat)"
  define b2 where "b2 = (if iaddrs s f ! 12 = 0 then 0 else 1 + card {i. i < NADDR \<and> val s f (Lvl i) \<noteq> 0})"
  have fg: "f \<in> inums s" "g \<in> inums s" using h by (auto simp: held_def)
  have c0: "cloned s f g {..<0} s"
    using inv z troot_locs [OF fg(2)] by (auto simp: cloned_def locs_def)
  have run: "fs_inv {#} t" "held t src f" "held t dst g" if "cloned s f g K t" for K t
    using that fr_held h by (auto simp: cloned_def)
  have step: "cloned s f g {..<Suc i} t'" if "cloned s f g {..<i} t" "grafted t f g i t'" "i < 13" for i t t'
    using cloned_step [OF that fg h(3)] by (simp add: lessThan_Suc)
  have z: "iaddrs t g ! i = 0" if "cloned s f g {..<i} t" "i < 13" for i t
    using cloned_zero [OF that(1) _ that(2)] by simp
  have vf: "val t f sl = val s f sl" if "cloned s f g K t" "slot_ok sl" for K t sl
    using that locsI [OF fg(1)] h(3) by (simp add: cloned_def)
  have B: "(if iaddrs t f ! 11 = 0 then 0 else 1) = b1"
      "(if iaddrs t f ! 12 = 0 then 0 else 1 + card {i. i < NADDR \<and> val t f (Lvl i) \<noteq> 0}) = b2" if t: "cloned s f g K t" for K t
  proof -
    have "iaddrs t f ! 11 = iaddrs s f ! 11" "iaddrs t f ! 12 = iaddrs s f ! 12"
      using vf [OF t, of "Dir 11"] vf [OF t, of "Dir 12"] by simp_all
    moreover have "{i. i < NADDR \<and> val t f (Lvl i) \<noteq> 0} = {i. i < NADDR \<and> val s f (Lvl i) \<noteq> 0}"
      using vf [OF t, of "Lvl _"] by (intro Collect_cong) (auto simp del: val.simps)
    ultimately show "(if iaddrs t f ! 11 = 0 then 0 else 1) = b1"
      "(if iaddrs t f ! 12 = 0 then 0 else 1 + card {i. i < NADDR \<and> val t f (Lvl i) \<noteq> 0}) = b2"
      by (simp_all only: b1_def b2_def)
  qed
  have "spec (sum (\<lambda>_. 0) {0..<11 :: nat} + (b1 + b2)) s (bbind (ffor (iclone_addr src dst) [0..<11]) (\<lambda>_.
      bbind (iclone_single src dst) (\<lambda>_. iclone_double src dst))) (\<lambda>_ s'. cloned s f g {..<13} s')"
  proof (rule spec_seq [OF ffor_spec [where I = "\<lambda>k. cloned s f g {..<k}" and b = "\<lambda>_. 0"]])
    show "spec 0 t (iclone_addr src dst k) (\<lambda>_ s'. cloned s f g {..<Suc k} s')" if "k < 11" "cloned s f g {..<k} t" for k t
      using that by (intro spec_mono [OF iclone_addr_spec [OF run [OF that(2)] h(3)]]) (auto intro: z step)
    show "cloned s f g {..<0} s" by (rule c0)
    fix u t assume t: "cloned s f g {..<11} t"
    show "spec (b1 + b2) t (bbind (iclone_single src dst) (\<lambda>_. iclone_double src dst)) (\<lambda>_ s'. cloned s f g {..<13} s')"
    proof (rule spec_seq [OF iclone_single_spec [OF run [OF t] h(3), unfolded B(1) [OF t]]])
      show "iaddrs t g ! 11 = 0" by (rule z [OF t]) simp
      fix u t' assume "grafted t f g 11 t'"
      from step [OF t this] have t': "cloned s f g {..<12} t'" by simp
      show "spec b2 t' (iclone_double src dst) (\<lambda>_ s'. cloned s f g {..<13} s')"
        by (rule spec_mono [OF iclone_double_spec [OF run [OF t'] h(3), unfolded B(2) [OF t']]]) (use z [OF t'] step [OF t'] in auto)
    qed
  qed simp
  moreover have "sum (\<lambda>_. 0) {0..<11 :: nat} + (b1 + b2) = nmeta s f" unfolding nmeta_split b1_def b2_def by simp
  ultimately show ?thesis by (simp only:)
qed

lemma cloned_dat:
  assumes inv: "fs_inv {#} s" and C: "cloned s f g {..<13} s'" and fg: "f \<in> inums s" "g \<in> inums s" and m: "m \<in> inums s" "k < MAXFILE"
  shows "val s' m (dslot k) = val s (if m = g then f else m) (dslot k)" "dat s' m k = dat s (if m = g then f else m) k"
proof -
  let ?n = "if m = g then f else m"
  have n: "?n \<in> inums s" using fg m by simp
  have l: "(?n, dslot k) \<in> locs s" "\<not> meta (dslot k)" "slot_ok (dslot k)" using dslot_ok [OF m(2)] n by (auto intro: locsI)
  show v: "val s' m (dslot k) = val s ?n (dslot k)"
  proof (cases "m = g")
    case True
    obtain i where "i < 13" "(g, dslot k) \<in> troot i g" using troot_all [OF l(3), of g] by auto
    then show ?thesis using C True l(2) by (simp add: cloned_def)
  next
    case False
    then show ?thesis using C l(1) by (simp add: cloned_def)
  qed
  have "blk s' (val s ?n (dslot k)) = blk s (val s ?n (dslot k))" if "val s ?n (dslot k) \<noteq> 0"
    using C val_bref [OF inv l(1) that] by (simp add: cloned_def)
  then show "dat s' m k = dat s ?n k" unfolding dat_def v Let_def by auto
qed



end
