(* ===== verification/Mount.thy ===== *)
theory Mount
  imports Clone
begin

section \<open>Mounting: rebuilding the reference counts\<close>

text \<open>
  \<^verbatim>\<open>kernel/filesystem/fs.c\<close>: the counts of shared blocks exist only in memory. \<^verbatim>\<open>bref_init\<close> rebuilds
  them after log recovery from the inodes on disk. Also \<^verbatim>\<open>fsinfo\<close>, which counts free blocks and
  inodes.
\<close>

subsection \<open>The operations\<close>

definition bref_note :: "nat \<Rightarrow> fs \<Rightarrow> fs" where
  "bref_note b s = s\<lparr>bref := (bref s)(b := (bref s b + 1) mod 4294967296)\<rparr>"

definition note_nonzero :: "nat \<Rightarrow> fs \<Rightarrow> fs" where
  "note_nonzero a s = (if a \<noteq> 0 then bref_note a s else s)"

definition bref_init_words :: "nat \<Rightarrow> fs \<Rightarrow> fs" where
  "bref_init_words c s = fold (\<lambda>j s. note_nonzero (addr_word (blk s c) j) s) [0..<NADDR] s"

definition bref_init_level :: "nat \<Rightarrow> nat \<Rightarrow> fs \<Rightarrow> fs" where
  "bref_init_level c i s =
     (let l1 = addr_word (blk s c) i in if l1 = 0 then s else bref_init_words l1 (bref_note l1 s))"

definition bref_init_inode :: "nat \<Rightarrow> fs \<Rightarrow> fs" where
  "bref_init_inode inum s =
     (let d = blk s (IBLOCK inum (fs_sb s)) in
      if din_type d inum = 0 then s
      else
        (let a = din_addrs d inum;
             s = fold (\<lambda>i s. note_nonzero (a ! i) s) [0..<NDIRECT] s;
             s = (if a ! NDIRECT \<noteq> 0 then bref_init_words (a ! NDIRECT) (bref_note (a ! NDIRECT) s) else s)
         in if a ! (NDIRECT + 1) \<noteq> 0
            then fold (bref_init_level (a ! (NDIRECT + 1))) [0..<NADDR] (bref_note (a ! (NDIRECT + 1)) s)
            else s))"

definition bref_init :: "fs \<Rightarrow> fs" where
  "bref_init s =
     fold bref_init_inode [1..<sb_ninodes (fs_sb s)]
       (s\<lparr>bref := (\<lambda>i. if i < sb_size (fs_sb s) \<and> i < FSSIZE then 0 else bref s i)\<rparr>)"

text \<open>
  \<^verbatim>\<open>fsinit\<close> runs on the buffer cache: it reads the super block, recovers the log and rebuilds the
  counts. The rest of the file system state, \<open>m\<close>, is what start-up left in memory.
\<close>

abbreviation (input) FSMAGIC :: nat where "FSMAGIC \<equiv> 270544960"

definition fsinit :: "int \<Rightarrow> fs \<Rightarrow> (logst \<times> fs) bop" where
  "fsinit me m =
     bbind (bbind (bread me ROOTDEV 1) (\<lambda>i s. bbind (brelse me i) (\<lambda>_ s'. (BRet (readsb (\<lambda>_. b_data (bufs s ! i))), s')) s))
       (\<lambda>sb. if sb_magic sb \<noteq> FSMAGIC then (\<lambda>s. (BPanic ''invalid file system'', s))
              else bbind (initlog me (sb_logstart sb) (sb_nlog sb))
                     (\<lambda>l s. (BRet (l, bref_init (m\<lparr>fs_sb := sb, blk := view s, hint := 0\<rparr>)), s)))"

record fsinfo =
  fi_bsize :: nat
  fi_total_blocks :: nat
  fi_free_blocks :: nat
  fi_total_inodes :: nat
  fi_free_inodes :: nat

definition count_free_blocks :: "nat \<Rightarrow> fs \<Rightarrow> nat" where
  "count_free_blocks data_start s =
     fold (\<lambda>bi free.
       fold (\<lambda>bit free.
         (let b = bi * BPB + bit in
          if b < data_start \<or> b \<ge> sb_size (fs_sb s) then free
          else if blk s (sb_bmapstart (fs_sb s) + bi) ! (bit div 8) AND push_bit (bit mod 8) 1 = 0 then free + 1
          else free)) [0..<BPB] free) [0..<sb_size (fs_sb s) div BPB + 1] 0"

function free_inodes_loop :: "fs \<Rightarrow> nat \<Rightarrow> nat \<Rightarrow> nat" where
  "free_inodes_loop s inum free =
     (if inum < sb_ninodes (fs_sb s) then
        (let d = blk s (IBLOCK inum (fs_sb s)) in
         free_inodes_loop s (inum + IPB)
           (fold (\<lambda>i free. if inum + i < sb_ninodes (fs_sb s) \<and> din_type d i = 0 then free + 1 else free) [0..<IPB] free))
      else free)"
  by auto
termination by (relation "measure (\<lambda>(s, inum, free). sb_ninodes (fs_sb s) - inum)") auto

declare free_inodes_loop.simps [simp del]

definition count_free_inodes :: "fs \<Rightarrow> nat" where
  "count_free_inodes s = free_inodes_loop s 1 0"

definition fsinfo :: "fs \<Rightarrow> fsinfo" where
  "fsinfo s =
     \<lparr>fi_bsize = BSIZE, fi_total_blocks = sb_nblocks (fs_sb s),
      fi_free_blocks = count_free_blocks (sb_size (fs_sb s) - sb_nblocks (fs_sb s)) s,
      fi_total_inodes = sb_ninodes (fs_sb s), fi_free_inodes = count_free_inodes s\<rparr>"

subsection \<open>Counting references\<close>

text \<open>The effect of raising the counts of the blocks in the multiset \<open>M\<close>.\<close>

definition noted :: "nat multiset \<Rightarrow> fs \<Rightarrow> fs" where
  "noted M s = s\<lparr>bref := (\<lambda>b. (bref s b + count M b) mod 4294967296)\<rparr>"

definition u32_refs :: "fs \<Rightarrow> bool" where
  "u32_refs s \<longleftrightarrow> (\<forall>b. bref s b < 4294967296)"

lemma noted_sel [simp]:
  "blk (noted M s) = blk s" "fs_sb (noted M s) = fs_sb s" "icache (noted M s) = icache s" "u32_refs (noted M s)"
  by (simp_all add: noted_def u32_refs_def)

lemma noted_empty: "u32_refs s \<Longrightarrow> noted {#} s = s"
  by (simp add: noted_def u32_refs_def)

lemma noted_noted: "noted M (noted N s) = noted (N + M) s"
proof -
  have "(\<lambda>b. ((bref s b + count N b) mod 4294967296 + count M b) mod 4294967296) = (\<lambda>b. (bref s b + (count N b + count M b)) mod 4294967296)"
    by (rule ext) (simp add: mod_add_left_eq add.assoc)
  then show ?thesis by (simp add: noted_def)
qed

lemma note_noted: "u32_refs s \<Longrightarrow> bref_note b s = noted {#b#} s"
  by (auto simp: bref_note_def noted_def u32_refs_def fun_eq_iff intro!: arg_cong [of _ _ "\<lambda>r. bref_update (\<lambda>_. r) s"])

lemma note_nonzero_noted: "u32_refs s \<Longrightarrow> note_nonzero a s = noted (opt a) s"
  by (simp add: note_nonzero_def note_noted noted_empty opt_def)

text \<open>A loop over notes adds up the multisets of its turns.\<close>

lemma fold_noted:
  assumes "\<And>k s. k \<in> set ks \<Longrightarrow> u32_refs s \<Longrightarrow> blk s = blk s0 \<Longrightarrow> fs_sb s = fs_sb s0 \<Longrightarrow> icache s = icache s0 \<Longrightarrow> f k s = noted (M k) s"
    and "u32_refs s" "blk s = blk s0" "fs_sb s = fs_sb s0" "icache s = icache s0"
  shows "fold f ks s = noted (sum_list (map M ks)) s"
  using assms
proof (induction ks arbitrary: s)
  case (Cons k ks)
  have "fold f (k # ks) s = fold f ks (noted (M k) s)" using Cons.prems by simp
  also have "\<dots> = noted (sum_list (map M ks)) (noted (M k) s)" using Cons.prems by (intro Cons.IH) auto
  finally show ?case by (simp add: noted_noted)
qed (simp add: noted_empty)

lemma filter_opt: "filter_mset (\<lambda>b. b \<noteq> 0) (mset xs) = sum_list (map opt xs)"
  by (induction xs) (simp_all add: opt_def)

lemma words_opt: "words s c js = sum_list (map (\<lambda>j. opt (addr_word (blk s c) j)) js)"
  unfolding words_def filter_opt by (simp add: comp_def)

lemma init_words_noted: "u32_refs s \<Longrightarrow> bref_init_words c s = noted (words s c [0..<NADDR]) s"
  unfolding bref_init_words_def words_opt
  by (rule fold_noted [where s0 = s]) (simp_all add: note_nonzero_noted)

lemma words_cong: "blk s = blk s' \<Longrightarrow> words s c js = words s' c js"
  by (simp add: words_def)

lemma subptrs_cong: "blk s = blk s' \<Longrightarrow> subptrs s c = subptrs s' c"
  by (simp add: subptrs_def words_def)

lemma init_level_noted: "u32_refs s \<Longrightarrow> bref_init_level c i s = noted (subptrs s (addr_word (blk s c) i)) s"
  by (simp add: bref_init_level_def Let_def subptrs_def noted_empty note_noted init_words_noted noted_noted words_cong [of "noted _ _" s])

subsection \<open>The references of one inode\<close>

lemma slots_of: "{n} \<times> {sl. slot_ok sl} = (\<lambda>i. (n, Dir i)) ` {..<NDIRECT} \<union> (tree1 n \<union> tree2 n)" (is "?A = ?B")
proof -
  have "(m, sl) \<in> ?A \<longleftrightarrow> (m, sl) \<in> ?B" for m sl
    by (cases sl) (auto simp: tree1_def tree2_def)
  then show ?thesis by (auto simp only:)
qed

lemma ptrs_inode:
  "ptrs s ({n} \<times> {sl. slot_ok sl}) =
     sum_list (map (\<lambda>i. opt (iaddrs s n ! i)) [0..<NDIRECT]) + (ptrs s (tree1 n) + ptrs s (tree2 n))"
proof -
  let ?D = "(\<lambda>i. (n, Dir i)) ` {..<NDIRECT}"
  have f: "finite (tree1 n)" "finite (tree2 n)" by (simp_all add: tree1_def tree2_def)
  have "?D \<inter> (tree1 n \<union> tree2 n) = {}" "tree1 n \<inter> tree2 n = {}" by (auto simp: tree1_def tree2_def)
  then have "ptrs s (?D \<union> (tree1 n \<union> tree2 n)) = ptrs s ?D + (ptrs s (tree1 n) + ptrs s (tree2 n))"
    using f by (simp add: ptrs_Un)
  moreover have "ptrs s ?D = sum_list (map (\<lambda>i. opt (iaddrs s n ! i)) [0..<NDIRECT])"
    using filter_opt [of "map (\<lambda>i. iaddrs s n ! i) [0..<NDIRECT]"]
    by (subst ptrs_image) (auto simp: inj_on_def comp_def)
  ultimately show ?thesis by (simp only: slots_of)
qed

lemma ptrs_free_inode:
  assumes "iaddrs s n = replicate 13 0"
  shows "ptrs s ({n} \<times> {sl. slot_ok sl}) = {#}"
proof -
  have "val s n sl = 0" if "slot_ok sl" for sl
    using that by (cases sl) (simp_all add: assms via_def)
  moreover have "finite ({n} \<times> {sl. slot_ok sl})" using finite_slots by blast
  ultimately have "b \<notin># ptrs s ({n} \<times> {sl. slot_ok sl})" for b by (auto simp: ptrs_def)
  then show ?thesis by (meson multiset_nonemptyE)
qed

lemma init_double_noted:
  assumes "u32_refs s"
  shows "fold (bref_init_level c) [0..<NADDR] s = noted (subptrs2 s c [0..<NADDR]) s"
  unfolding subptrs2_def
proof (rule fold_noted [where s0 = s])
  fix i t assume t: "u32_refs t" "blk t = blk s"
  then show "bref_init_level c i t = noted (subptrs s (addr_word (blk s c) i)) t"
    by (simp only: init_level_noted subptrs_cong [OF t(2)])
qed (use assms in simp_all)

lemma init_inode_noted:
  assumes u: "u32_refs s" and c: "cached (icache s) n = None"
  shows "bref_init_inode n s = noted (ptrs s ({n} \<times> {sl. slot_ok sl})) s"
proof (cases "din_type (blk s (IBLOCK n (fs_sb s))) n = 0")
  case True
  then have "iaddrs s n = replicate 13 0" using c by (simp add: iaddrs_def Let_def)
  then show ?thesis using True u by (simp add: bref_init_inode_def ptrs_free_inode noted_empty)
next
  case False
  define a where "a = din_addrs (blk s (IBLOCK n (fs_sb s))) n"
  have a: "iaddrs s n = a" using c False by (simp add: iaddrs_def Let_def a_def)
  define s1 where "s1 = noted (sum_list (map (\<lambda>i. opt (a ! i)) [0..<NDIRECT])) s"
  have s1: "fold (\<lambda>i s. note_nonzero (a ! i) s) [0..<NDIRECT] s = s1" unfolding s1_def
    by (rule fold_noted [where s0 = s]) (use u in \<open>simp_all add: note_nonzero_noted\<close>)
  have u1: "u32_refs s1" by (simp add: s1_def)
  define s2 where "s2 = noted (subptrs s (a ! 11)) s1"
  have s2: "(if a ! 11 \<noteq> 0 then bref_init_words (a ! 11) (bref_note (a ! 11) s1) else s1) = s2"
    using u1 by (simp add: s2_def subptrs_def note_noted init_words_noted noted_noted noted_empty s1_def words_cong [of "noted _ _" s])
  have u2: "u32_refs s2" by (simp add: s2_def)
  have s3: "(if a ! (NDIRECT + 1) \<noteq> 0 then fold (bref_init_level (a ! (NDIRECT + 1))) [0..<NADDR] (bref_note (a ! (NDIRECT + 1)) s2) else s2) = noted (ptrs s (tree2 n)) s2"
    using u2 by (simp add: note_noted init_double_noted noted_noted noted_empty ptrs_tree2 a subptrs2_def s2_def s1_def subptrs_cong [of "noted _ _" s])
  have "bref_init_inode n s = noted (ptrs s (tree2 n)) s2"
    using False by (simp only: bref_init_inode_def Let_def if_False a_def [symmetric] s1 s2 s3)
  then show ?thesis by (simp add: s2_def s1_def noted_noted ptrs_inode ptrs_tree1 a add.assoc)
qed

text \<open>All inodes together.\<close>

lemma ptrs_cong: "(\<And>n sl. (n, sl) \<in> D \<Longrightarrow> val s n sl = val s' n sl) \<Longrightarrow> ptrs s D = ptrs s' D"
proof -
  assume *: "\<And>n sl. (n, sl) \<in> D \<Longrightarrow> val s n sl = val s' n sl"
  have "image_mset (\<lambda>l. val s (fst l) (snd l)) (mset_set D) = image_mset (\<lambda>l. val s' (fst l) (snd l)) (mset_set D)"
  proof (rule image_mset_cong)
    fix l assume "l \<in># mset_set D"
    then have "(fst l, snd l) \<in> D" by (cases "finite D") auto
    then show "val s (fst l) (snd l) = val s' (fst l) (snd l)" by (rule *)
  qed
  then show ?thesis by (simp add: ptrs_def)
qed

lemma ptrs_range: "sum_list (map (\<lambda>n. ptrs s ({n} \<times> {sl. slot_ok sl})) [1..<k]) = ptrs s ({1..<k} \<times> {sl. slot_ok sl})"
proof (induction k)
  case (Suc k)
  show ?case
  proof (cases "k \<ge> 1")
    case True
    have e: "{1..<Suc k} \<times> {sl. slot_ok sl} = {1..<k} \<times> {sl. slot_ok sl} \<union> {k} \<times> {sl. slot_ok sl}" using True by auto
    have "ptrs s ({1..<Suc k} \<times> {sl. slot_ok sl}) = ptrs s ({1..<k} \<times> {sl. slot_ok sl}) + ptrs s ({k} \<times> {sl. slot_ok sl})"
      unfolding e by (rule ptrs_Un) (use finite_slots in auto)
    then show ?thesis using Suc True by simp
  qed (simp add: ptrs_def)
qed (simp add: ptrs_def)

lemma val_blk_cong:
  assumes "blk s' = blk s" "fs_sb s' = fs_sb s" "icache s' = icache s"
  shows "val s' n sl = val s n sl"
proof -
  have "iaddrs s' n = iaddrs s n" "via s' c j = via s c j" for c j
    by (simp_all only: iaddrs_def via_def assms)
  then show ?thesis by (cases sl) simp_all
qed

lemma bref_init_noted:
  assumes u: "u32_refs s" and c: "\<And>n. cached (icache s) n = None"
  defines "s0 \<equiv> s\<lparr>bref := (\<lambda>i. if i < sb_size (fs_sb s) \<and> i < FSSIZE then 0 else bref s i)\<rparr>"
  shows "bref_init s = noted (ptrs s (locs s)) s0"
proof -
  have "bref_init s = noted (sum_list (map (\<lambda>n. ptrs s ({n} \<times> {sl. slot_ok sl})) [1..<sb_ninodes (fs_sb s)])) s0"
    unfolding bref_init_def s0_def [symmetric]
  proof (rule fold_noted [where s0 = s0])
    fix k :: nat and t assume t: "u32_refs t" "blk t = blk s0" "fs_sb t = fs_sb s0" "icache t = icache s0"
    have "val t n sl = val s n sl" for n sl using t by (intro val_blk_cong) (simp_all add: s0_def)
    then have "ptrs t D = ptrs s D" for D by (intro ptrs_cong)
    then show "bref_init_inode k t = noted (ptrs s ({k} \<times> {sl. slot_ok sl})) t"
      using init_inode_noted [OF t(1)] c t(4) by (simp add: s0_def)
  qed (use u in \<open>auto simp: s0_def u32_refs_def\<close>)
  then show ?thesis by (simp only: ptrs_range locs_def inums_def)
qed

subsection \<open>Mounting restores the invariant\<close>

text \<open>
  \<open>flushed t\<close>: the inodes in memory are as on the disk. \<open>cold m\<close>: no inode is in use. \<open>same_disk t s\<close>:
  the inodes, the bitmap and the data blocks agree.
\<close>

definition flushed :: "fs \<Rightarrow> bool" where
  "flushed t \<longleftrightarrow> (\<forall>n \<in> inums t. iaddrs (t\<lparr>icache := []\<rparr>) n = iaddrs t n)"

definition cold :: "fs \<Rightarrow> bool" where
  "cold m \<longleftrightarrow> (\<forall>e \<in> set (icache m). i_ref e = 0)"

definition same_disk :: "fs \<Rightarrow> fs \<Rightarrow> bool" where
  "same_disk t s \<longleftrightarrow> fs_sb s = fs_sb t \<and> (\<forall>b \<ge> sb_inodestart (fs_sb t). blk s b = blk t b)"

lemma cold_cached: "cold s \<Longrightarrow> cached (icache s) n = None"
  by (auto simp: cached_def find_idx_None_iff cold_def)

lemma same_diskD:
  assumes "lay_ok (fs_sb t)" "same_disk t s" "sb_bmapstart (fs_sb t) \<le> b"
  shows "blk s b = blk t b"
  using assms by (auto simp: lay_ok_def same_disk_def)

lemma flushed_cold: "icache t = [] \<Longrightarrow> flushed t"
  by (cases t) (simp add: flushed_def)

lemma mount_iaddrs:
  assumes "lay_ok (fs_sb t)" "flushed t" "same_disk t s" "cold s" "n \<in> inums t"
  shows "iaddrs s n = iaddrs t n"
proof -
  have "IBLOCK n (fs_sb t) \<ge> sb_inodestart (fs_sb t)" by (simp add: IBLOCK_def)
  then have "iaddrs s n = iaddrs (t\<lparr>icache := []\<rparr>) n"
    using assms(3) cold_cached [OF assms(4), of n] cold_cached [of "t\<lparr>icache := []\<rparr>" n]
    by (simp add: iaddrs_def same_disk_def cold_def)
  with assms(2,5) show ?thesis by (simp add: flushed_def)
qed

lemma mount_val:
  assumes inv: "fs_inv {#} t" and f: "flushed t" "same_disk t s" "cold s" and l: "(n, sl) \<in> locs t"
  shows "val s n sl = val t n sl"
proof (rule val_cong)
  have n: "n \<in> inums t" "slot_ok sl" using l by (auto simp: locs_def)
  show "slot_ok sl" by (rule n)
  show "iaddrs s n = iaddrs t n" by (rule mount_iaddrs [OF fs_invD(1) [OF inv] f n(1)])
  fix q assume "slot_ok q" "meta q" "val t n q \<noteq> 0"
  then have "dstart (fs_sb t) \<le> val t n q" using range_okD [OF fs_invD(4) [OF inv] locsI [OF n(1)]] by auto
  then show "blk s (val t n q) = blk t (val t n q)"
    using lay_order [OF fs_invD(1) [OF inv]] by (intro same_diskD [OF fs_invD(1) [OF inv] f(2)]) simp
qed

lemma bref_init_sel [simp]:
  assumes "u32_refs s" "cold s"
  shows "blk (bref_init s) = blk s" "fs_sb (bref_init s) = fs_sb s" "icache (bref_init s) = icache s"
  using bref_init_noted [OF assms(1) cold_cached [OF assms(2)]] by simp_all

lemma mount_refs:
  assumes inv: "fs_inv {#} t" and f: "flushed t" "same_disk t s" "cold s" and u: "u32_refs s"
    and b: "dstart (fs_sb t) \<le> b" "b < sb_size (fs_sb t)"
  shows "bref (bref_init s) b = bref t b"
proof -
  note I = fs_invD [OF inv]
  have sb: "fs_sb s = fs_sb t" using f(2) by (simp add: same_disk_def)
  have "refs s b = refs t b" by (rule refs_cong [OF sb mount_val [OF inv f]])
  moreover have "refs t b = bref t b" using I(5) b by (simp add: count_ok_def)
  moreover have "refs t b \<le> 2113952000" by (rule refs_bound [OF I(1)])
  moreover have "b \<noteq> 0" "b < FSSIZE" using b I(1) by (auto simp: lay_ok_def)
  ultimately show ?thesis
    using b sb bref_init_noted [OF u cold_cached [OF f(3)]] by (simp add: noted_def count_ptrs finite_locs flip: refs_def)
qed

lemma mount_inv:
  assumes inv: "fs_inv {#} t" and f: "flushed t" "same_disk t s" "cold s" and u: "u32_refs s" "blks_ok s"
  shows "fs_inv {#} (bref_init s)"
proof -
  note I = fs_invD [OF inv]
  let ?r = "bref_init s"
  note S [simp] = bref_init_sel [OF u(1) f(3)]
  have sb: "fs_sb s = fs_sb t" using f(2) by (simp add: same_disk_def)
  have L: "locs ?r = locs t" by (rule locs_cong) (simp add: sb)
  have v: "val ?r n sl = val t n sl" if "(n, sl) \<in> locs t" for n sl
    using val_blk_cong [of ?r s n sl] mount_val [OF inv f that] by simp
  note B = mount_refs [OF inv f u(1)]
  have R: "refs ?r b = refs t b" for b by (rule refs_cong) (simp_all add: sb v)
  have "bit_set ?r b = bit_set t b" if "b < sb_size (fs_sb t)" for b
    using BBLOCK_range [OF I(1) that] same_diskD [OF I(1) f(2)] sb by (intro bit_set_cong) auto
  then have "bmp_ok ?r" using I(7) B unfolding bmp_ok_def S sb by (metis linorder_not_le)
  moreover have "range_ok ?r" using I(4) v by (auto simp: range_ok_def L sb)
  moreover have "count_ok {#} ?r" using I(5) B R by (simp add: count_ok_def sb)
  moreover have "meta_ok ?r" using I(6) v B range_okD [OF I(4)] by (auto simp: meta_ok_def L)
  moreover have "ic_ok ?r" using f(3) by (auto simp: ic_ok_def cold_def)
  moreover have "blks_ok ?r" using u(2) by (simp add: blks_ok_def)
  ultimately show ?thesis using I(1) by (simp add: fs_inv_def sb)
qed

lemma mount_fbyte:
  assumes inv: "fs_inv {#} t" and f: "flushed t" "same_disk t s" "cold s" and u: "u32_refs s" and n: "n \<in> inums t"
  shows "fbyte (bref_init s) n x = fbyte t n x"
proof (cases "x div BSIZE < MAXFILE")
  case True
  then have l: "(n, dslot (x div BSIZE)) \<in> locs t" using n by (intro locsI) (simp_all add: dslot_ok)
  note S [simp] = bref_init_sel [OF u f(3)]
  have v: "val (bref_init s) n (dslot (x div BSIZE)) = val t n (dslot (x div BSIZE))"
    using val_blk_cong [of "bref_init s" s n] mount_val [OF inv f l] by simp
  have "blk s (val t n (dslot (x div BSIZE))) = blk t (val t n (dslot (x div BSIZE)))" if "val t n (dslot (x div BSIZE)) \<noteq> 0"
    using range_okD [OF fs_invD(4) [OF inv] l that] lay_order [OF fs_invD(1) [OF inv]]
    by (intro same_diskD [OF fs_invD(1) [OF inv] f(2)]) simp
  then show ?thesis by (simp add: fbyte_def dat_def v Let_def)
qed (simp add: fbyte_def)

subsection \<open>Booting after a crash\<close>

lemma length_head_put [simp]: "length (head_put l b) = length b"
proof -
  have "length (fold (\<lambda>i b. put32 b (4 + 4 * i) (lh_block l ! i)) ks c) = length c" for ks c
    by (induction ks arbitrary: c) simp_all
  then show ?thesis by (simp add: head_put_def)
qed

definition full_blocks :: "(nat \<Rightarrow> block) \<Rightarrow> bool" where
  "full_blocks D \<longleftrightarrow> (\<forall>b. length (D b) = BSIZE)"

lemma full_apply: "full_blocks D \<Longrightarrow> (\<And>a x. (a, x) \<in> set W \<Longrightarrow> length x = BSIZE) \<Longrightarrow> full_blocks (apply_writes W D)"
proof (induction W rule: rev_induct)
  case (snoc w W)
  have "full_blocks (apply_writes W D)" using snoc by auto
  moreover have "length (snd w) = BSIZE" using snoc.prems(2) [of "fst w" "snd w"] by simp
  ultimately show ?case by (cases w) (auto simp: full_blocks_def)
qed simp

lemma full_recovered: "full_blocks D \<Longrightarrow> full_blocks (apply_writes (recover_writes l D) D)"
  by (rule full_apply) (auto simp: recover_writes_def writes_at_def full_blocks_def)

lemma full_crashed:
  assumes "full_blocks (disk s)" "full_blocks (view s)"
  shows "full_blocks (apply_writes (take j (commit_writes l s)) (disk s))"
proof (rule full_apply [OF assms(1)])
  fix a x assume "(a, x) \<in> set (take j (commit_writes l s))"
  then have "(a, x) \<in> set (commit_writes l s)" by (rule in_set_takeD)
  then show "length x = BSIZE" using assms by (auto simp: commit_writes_def Let_def writes_at_def full_blocks_def)
qed

lemma fsinit_run:
  assumes sb: "sb_magic (readsb D) = FSMAGIC" "sb_logstart (readsb D) = lg_start l" "sb_nlog (readsb D) = lg_size l"
    and ok: "log_disk_ok (boot_log l) D"
  shows "\<exists>l' b. fsinit me m (binit D junk) =
    (BRet (l', bref_init (m\<lparr>fs_sb := readsb D, blk := apply_writes (recover_writes (boot_log l) D) D, hint := 0\<rparr>)), b)"
proof -
  let ?rd = "bbind (bread me ROOTDEV 1) (\<lambda>i s. bbind (brelse me i) (\<lambda>_ s'. (BRet (readsb (\<lambda>_. b_data (bufs s ! i))), s')) s)"
  have "\<exists>t. ?rd (binit D junk) = (BRet (readsb (\<lambda>_. view (binit D junk) 1)), t) \<and> bio_inv t \<and> disk t = disk (binit D junk) \<and>
      dwrites t = dwrites (binit D junk) \<and> view t = view (binit D junk) \<and> uses t = uses (binit D junk) \<and> hold t = hold (binit D junk)"
    by (rule bc.read_cycle) (simp_all add: binit_inv binit_abs)
  then obtain s1 where s1: "?rd (binit D junk) = (BRet (readsb D), s1)" "idle_cache D s1"
    by (auto simp: idle_cache_def binit_abs readsb_def)
  from recover_idle [OF ok s1(2), of me] obtain l' t where t: "recover_from_log me (boot_log l) s1 = (BRet l', t)"
    "view t = apply_writes (recover_writes (boot_log l) D) D" by auto
  have "initlog me (sb_logstart (readsb D)) (sb_nlog (readsb D)) = recover_from_log me (boot_log l)"
    by (simp only: sb boot_log_simps)
  then show ?thesis using s1(1) t sb(1) by (simp add: fsinit_def bbind_def)
qed

text \<open>A disk of the layout \<open>l\<close>: the log lies between the super block, which is right, and the inodes.\<close>

definition formatted :: "logst \<Rightarrow> fs \<Rightarrow> bool" where
  "formatted l t \<longleftrightarrow> readsb (blk t) = fs_sb t \<and> sb_magic (fs_sb t) = FSMAGIC \<and> sb_logstart (fs_sb t) = lg_start l \<and>
     sb_nlog (fs_sb t) = lg_size l \<and> 2 \<le> lg_start l \<and> lg_start l + lg_size l \<le> sb_inodestart (fs_sb t)"

definition same_files :: "fs \<Rightarrow> fs \<Rightarrow> bool" where
  "same_files t f \<longleftrightarrow> same_disk t f \<and> (\<forall>n \<in> inums t. \<forall>x. fbyte f n x = fbyte t n x)"

lemma boot_restores:
  assumes t: "fs_inv {#} t" "flushed t" "formatted l t" and m: "cold m" "u32_refs m" and D: "full_blocks D" "D 1 = blk t 1"
    and ok: "log_disk_ok (boot_log l) D"
    and R: "\<forall>b. b \<notin> log_area l \<longrightarrow> apply_writes (recover_writes (boot_log l) D) D b = blk t b"
  shows "\<exists>l' f b. fsinit me m (binit D junk) = (BRet (l', f), b) \<and> fs_inv {#} f \<and> same_files t f"
proof -
  have sb: "readsb D = fs_sb t" using D(2) t(3) by (simp add: readsb_def formatted_def)
  let ?s = "m\<lparr>fs_sb := readsb D, blk := apply_writes (recover_writes (boot_log l) D) D, hint := 0\<rparr>"
  obtain l' b where run: "fsinit me m (binit D junk) = (BRet (l', bref_init ?s), b)"
    using fsinit_run [of D l me m junk] ok t(3) sb by (auto simp: formatted_def)
  have c: "cold ?s" "u32_refs ?s" using m by (simp_all add: cold_def u32_refs_def)
  have sd: "same_disk t ?s" using R t(3) sb by (auto simp: same_disk_def formatted_def log_area_def)
  have "blks_ok ?s" using full_recovered [OF D(1)] by (simp add: blks_ok_def full_blocks_def)
  then have "fs_inv {#} (bref_init ?s)" by (rule mount_inv [OF t(1,2) sd c])
  moreover have "same_files t (bref_init ?s)"
    using mount_fbyte [OF t(1,2) sd c] sd bref_init_sel [OF c(2,1)] by (simp add: same_files_def same_disk_def)
  ultimately show ?thesis using run by blast
qed

lemma block1_writes:
  assumes "commit_ready l s" "1 \<notin> log_area l" "view s 1 = disk s 1"
  shows "apply_writes (take j (commit_writes l s)) (disk s) 1 = disk s 1"
proof -
  have "x = disk s 1" if "(1, x) \<in> set (commit_writes l s)" for x
    using that assms by (auto simp: commit_writes_def Let_def writes_at_def log_area_def commit_ready_def head_ok_def head_fit_def)
  moreover have "apply_writes W D 1 = D 1" if "\<And>x. (1, x) \<in> set W \<Longrightarrow> x = D 1" for W and D :: "nat \<Rightarrow> block"
    using that by (induction W rule: rev_induct) auto
  ultimately show ?thesis by (meson in_set_takeD)
qed

subsection \<open>A disk with one file\<close>

text \<open>A disk of 120 blocks with the log in blocks 2 to 31 and one file, whose only block is block 100.\<close>

definition fs1 :: fs where
  "fs1 = \<lparr>fs_sb = \<lparr>sb_magic = FSMAGIC, sb_size = 120, sb_nblocks = 86, sb_ninodes = 2, sb_nlog = 30, sb_logstart = 2,
        sb_inodestart = 32, sb_bmapstart = 33\<rparr>,
      blk = (\<lambda>_. zeros)
        (1 := put32 (put32 (put32 (put32 (put32 (put32 (put32 (put32 zeros 0 FSMAGIC) 4 120) 8 86) 12 2) 16 30) 20 2) 24 32) 28 33,
         32 := (put32 zeros 76 100)[65 := 2],
         33 := zeros[0 := 255, 1 := 255, 2 := 255, 3 := 255, 4 := 3, 12 := 16]),
      bref = (\<lambda>_. 0)(100 := 1), hint = 0, icache = [], logged = {}\<rparr>"

lemma fs1_sel:
  "fs_sb fs1 = \<lparr>sb_magic = FSMAGIC, sb_size = 120, sb_nblocks = 86, sb_ninodes = 2, sb_nlog = 30, sb_logstart = 2,
     sb_inodestart = 32, sb_bmapstart = 33\<rparr>" "bref fs1 = (\<lambda>_. 0)(100 := 1)" "icache fs1 = []"
  "blk fs1 32 = (put32 zeros 76 100)[65 := 2]" "blk fs1 33 = zeros[0 := 255, 1 := 255, 2 := 255, 3 := 255, 4 := 3, 12 := 16]"
  "c \<noteq> 1 \<Longrightarrow> c \<noteq> 32 \<Longrightarrow> c \<noteq> 33 \<Longrightarrow> blk fs1 c = zeros"
  by (simp_all add: fs1_def)

lemma fs1_sb: "readsb (blk fs1) = fs_sb fs1"
  by (simp add: readsb_def fs1_def get_put32 get_put32_other)

lemma fs1_inums: "inums fs1 = {1}"
  by (auto simp: inums_def fs1_sel)

lemma fs1_iaddrs: "iaddrs fs1 1 = 100 # replicate 12 0"
proof -
  have g: "get32 ((put32 zeros 76 100)[65 := 2]) (76 + 4 * i) = (if i = 0 then 100 else 0)" if "i < 13" for i
  proof -
    have "get32 ((put32 zeros 76 100)[65 := 2]) (76 + 4 * i) = get32 (put32 zeros 76 100) (76 + 4 * i)"
      by (simp add: get32_def)
    also have "\<dots> = (if i = 0 then 100 else get32 zeros (76 + 4 * i))" by (simp add: get_put32 get_put32_other)
    also have "get32 zeros (76 + 4 * i) = 0" using that by (simp add: get32_def zeros_def)
    finally show ?thesis .
  qed
  have "cached [] 1 = None" by (simp add: cached_def find_idx_None_iff)
  moreover have "din_type (blk fs1 32) 1 = 2" by (simp add: din_type_def fs1_sel)
  moreover have "din_addrs (blk fs1 32) 1 = map (\<lambda>i. if i = 0 then 100 else 0) [0..<13]"
    unfolding din_addrs_def fs1_sel using g by (intro map_cong) (simp_all add: add.commute)
  moreover have "IBLOCK 1 (fs_sb fs1) = 32" by (simp add: IBLOCK_def fs1_sel)
  ultimately show ?thesis by (simp add: iaddrs_def fs1_sel(3) upt_rec numeral_eq_Suc)
qed

lemma fs1_val: "slot_ok sl \<Longrightarrow> val fs1 1 sl = (if sl = Dir 0 then 100 else 0)"
  by (cases sl) (auto simp: fs1_iaddrs [unfolded One_nat_def] via_def nth_Cons')

lemma fs1_bits: "b < 120 \<Longrightarrow> bit_set fs1 b \<longleftrightarrow> b < 34 \<or> b = 100"
proof -
  assume "b < 120"
  moreover have "\<forall>b \<in> set [0..<120]. bit ((replicate 15 (0 :: nat))[0 := 255, 1 := 255, 2 := 255, 3 := 255, 4 := 3, 12 := 16] ! (b div 8)) (b mod 8) \<longleftrightarrow> b < 34 \<or> b = 100"
    by code_simp
  moreover have "zeros[0 := 255, 1 := 255, 2 := 255, 3 := 255, 4 := 3, 12 := 16] ! k =
      (replicate 15 (0 :: nat))[0 := 255, 1 := 255, 2 := 255, 3 := 255, 4 := 3, 12 := 16] ! k" if "k < 15" for k
    using that by (simp add: zeros_def nth_list_update)
  ultimately show ?thesis by (simp add: bit_set_def BBLOCK_def fs1_sel less_mult_imp_div_less)
qed

lemma fs1_inv: "fs_inv {#} fs1" "flushed fs1" "formatted demo_log fs1"
proof -
  have L: "locs fs1 = {1} \<times> {sl. slot_ok sl}" by (simp add: locs_def fs1_inums)
  have d: "dstart (fs_sb fs1) = 34" by (simp add: dstart_def fs1_sel)
  have R: "refs fs1 b = bref fs1 b" if "b \<noteq> 0" for b
  proof -
    have "{l \<in> locs fs1. val fs1 (fst l) (snd l) = b} = (if b = 100 then {(1, Dir 0)} else {})"
      using that fs1_val unfolding L by (auto simp del: val.simps split: if_splits)
    then show ?thesis by (simp add: refs_def fs1_sel)
  qed
  have "range_ok fs1" "meta_ok fs1" using fs1_val by (auto simp: range_ok_def meta_ok_def L fs1_sel dstart_def)
  moreover have "count_ok {#} fs1" using R d by (simp add: count_ok_def)
  moreover have "bmp_ok fs1" unfolding bmp_ok_def d using fs1_bits by (simp add: fs1_sel)
  moreover have "blks_ok fs1" by (simp add: blks_ok_def fs1_def)
  moreover have "lay_ok (fs_sb fs1)" by (simp add: lay_ok_def d) (simp add: fs1_sel)
  moreover have "ic_ok fs1" by (simp add: ic_ok_def fs1_sel)
  ultimately show "fs_inv {#} fs1" by (simp add: fs_inv_def)
  show "flushed fs1" by (rule flushed_cold) (simp add: fs1_sel)
  show "formatted demo_log fs1" using fs1_sb by (simp add: formatted_def fs1_sel demo_log_def)
qed

subsection \<open>Counting free blocks and inodes\<close>

lemma fold_count: "fold (\<lambda>x n. if Q x then n + 1 else n) xs n = n + length (filter Q xs)" for n :: nat
  by (induction xs arbitrary: n) simp_all

lemma fold_add: "fold (\<lambda>x n. n + g x) xs n = n + sum_list (map g xs)" for n :: nat
  by (induction xs arbitrary: n) simp_all

lemma upt_rows: "concat (map (\<lambda>i. map (\<lambda>j. i * B + j) [0..<B]) [0..<n]) = [0..<n * B]"
proof (induction n)
  case (Suc n)
  have "map (\<lambda>j. n * B + j) [0..<B] = [n * B..<n * B + B]" by (rule nth_equalityI) simp_all
  then show ?case using Suc upt_add_eq_append [of 0 "n * B" B] by (simp add: add.commute)
qed simp

lemma sum_filter_rows:
  "sum_list (map (\<lambda>i. length (filter (\<lambda>j. Q (i * B + j)) [0..<B])) [0..<n]) = card {b. b < n * B \<and> Q b}"
proof -
  have "sum_list (map (\<lambda>i. length (filter (\<lambda>j. Q (i * B + j)) [0..<B])) ks) =
      length (filter Q (concat (map (\<lambda>i. map (\<lambda>j. i * B + j) [0..<B]) ks)))" for ks
    by (induction ks) (simp_all add: filter_map comp_def)
  also have "length (filter Q (concat (map (\<lambda>i. map (\<lambda>j. i * B + j) [0..<B]) [0..<n]))) = card {b. b < n * B \<and> Q b}"
    unfolding upt_rows by (simp add: length_filter_conv_card) (rule arg_cong [of _ _ card], auto)
  finally show ?thesis .
qed

lemma length_filter_row: "length (filter (\<lambda>i. Q (a + i)) [0..<B]) = card {m. a \<le> m \<and> m < a + B \<and> Q m}"
proof -
  have "map ((+) a) [0..<B] = [a..<a + B]" by (rule nth_equalityI) simp_all
  then have "filter Q [a..<a + B] = map ((+) a) (filter (\<lambda>i. Q (a + i)) [0..<B])" by (metis (no_types, lifting) comp_def filter_cong filter_map)
  then have "length (filter (\<lambda>i. Q (a + i)) [0..<B]) = length (filter Q [a..<a + B])" by simp
  also have "\<dots> = card (set (filter Q [a..<a + B]))" by (rule distinct_card [symmetric]) simp
  also have "set (filter Q [a..<a + B]) = {m. a \<le> m \<and> m < a + B \<and> Q m}" by auto
  finally show ?thesis .
qed

lemma card_cut:
  fixes a c :: nat
  assumes "a \<le> c" "finite A"
  shows "card {m. a \<le> m \<and> m < c \<and> m \<in> A} + card {m. c \<le> m \<and> m \<in> A} = card {m. a \<le> m \<and> m \<in> A}"
proof -
  have "{m. a \<le> m \<and> m \<in> A} = {m. a \<le> m \<and> m < c \<and> m \<in> A} \<union> {m. c \<le> m \<and> m \<in> A}" using assms(1) by auto
  also have "card \<dots> = card {m. a \<le> m \<and> m < c \<and> m \<in> A} + card {m. c \<le> m \<and> m \<in> A}"
    by (rule card_Un_disjoint) (use assms(2) in auto)
  finally show ?thesis by simp
qed

lemma and_push_bit_eq: "x AND push_bit n 1 = 0 \<longleftrightarrow> \<not> bit x n" for x :: nat
  by (simp add: and_exp_eq_0_iff_not_bit)

lemma count_free_blocks_card:
  "count_free_blocks d s = card {b. d \<le> b \<and> b < sb_size (fs_sb s) \<and> \<not> bit_set s b}"
proof -
  let ?Q = "\<lambda>b. d \<le> b \<and> b < sb_size (fs_sb s) \<and> \<not> bit_set s b"
  have t: "(if bi * BPB + k < d \<or> bi * BPB + k \<ge> sb_size (fs_sb s) then n
      else if blk s (sb_bmapstart (fs_sb s) + bi) ! (k div 8) AND push_bit (k mod 8) 1 = 0 then n + 1 else n) =
      (if ?Q (bi * BPB + k) then n + 1 else n)" if "k < BPB" for bi k and n :: nat
  proof -
    have "bit_set s (bi * BPB + k) \<longleftrightarrow> bit (blk s (sb_bmapstart (fs_sb s) + bi) ! (k div 8)) (k mod 8)"
      using bit_set_split [OF that, of s bi] by (simp add: BBLOCK_def mult.commute add.commute)
    then show ?thesis unfolding and_push_bit_eq by auto
  qed
  have inner: "fold (\<lambda>k n. let b = bi * BPB + k in if b < d \<or> b \<ge> sb_size (fs_sb s) then n
      else if blk s (sb_bmapstart (fs_sb s) + bi) ! (k div 8) AND push_bit (k mod 8) 1 = 0 then n + 1 else n) [0..<BPB] n =
      n + length (filter (\<lambda>k. ?Q (bi * BPB + k)) [0..<BPB])" for bi and n :: nat
    unfolding Let_def fold_count [symmetric]
  proof (rule fold_cong [OF refl refl])
    fix k assume "k \<in> set [0..<BPB]"
    then have k: "k < BPB" by simp
    show "(\<lambda>n :: nat. if bi * BPB + k < d \<or> bi * BPB + k \<ge> sb_size (fs_sb s) then n
      else if blk s (sb_bmapstart (fs_sb s) + bi) ! (k div 8) AND push_bit (k mod 8) 1 = 0 then n + 1 else n) =
      (\<lambda>n. if ?Q (bi * BPB + k) then n + 1 else n)" by (rule ext) (rule t [OF k])
  qed
  have "count_free_blocks d s = card {b. b < (sb_size (fs_sb s) div BPB + 1) * BPB \<and> ?Q b}"
    unfolding count_free_blocks_def inner fold_add add_0 by (rule sum_filter_rows [of ?Q])
  also have "b < (sb_size (fs_sb s) div BPB + 1) * BPB" if "b < sb_size (fs_sb s)" for b
    using that dividend_less_div_times [of BPB "sb_size (fs_sb s)"] by (simp add: algebra_simps)
  then have "{b. b < (sb_size (fs_sb s) div BPB + 1) * BPB \<and> ?Q b} = {b. ?Q b}" by blast
  finally show ?thesis .
qed

lemma free_inodes_loop_card:
  "free_inodes_loop s (16 * k + 1) n =
     n + card {m. 16 * k \<le> m \<and> m + 1 < sb_ninodes (fs_sb s) \<and> din_type (blk s (IBLOCK m (fs_sb s))) m = 0}"
proof (induction "sb_ninodes (fs_sb s) - 16 * k" arbitrary: k n rule: less_induct)
  case less
  let ?N = "sb_ninodes (fs_sb s)" and ?Q = "\<lambda>m. m + 1 < sb_ninodes (fs_sb s) \<and> din_type (blk s (IBLOCK m (fs_sb s))) m = 0"
  show ?case
  proof (cases "16 * k + 1 < ?N")
    case False
    then have e: "{m. 16 * k \<le> m \<and> ?Q m} = {}" by auto
    show ?thesis unfolding e by (subst free_inodes_loop.simps) (use False in simp)
  next
    case True
    let ?d = "blk s (IBLOCK (16 * k + 1) (fs_sb s))"
    have "(16 * k + 1) div 16 = k" by presburger
    then have t: "din_type ?d i = din_type (blk s (IBLOCK (16 * k + i) (fs_sb s))) (16 * k + i)" if "i < 16" for i
      using that by (simp add: din_type_def IBLOCK_def)
    have "fold (\<lambda>i n. if 16 * k + 1 + i < ?N \<and> din_type ?d i = 0 then n + 1 else n) [0..<IPB] n =
        n + length (filter (\<lambda>i. 16 * k + 1 + i < ?N \<and> din_type ?d i = 0) [0..<IPB])" by (rule fold_count)
    also have "filter (\<lambda>i. 16 * k + 1 + i < ?N \<and> din_type ?d i = 0) [0..<IPB] = filter (\<lambda>i. ?Q (16 * k + i)) [0..<IPB]"
      using t by (intro filter_cong) auto
    also have "length (filter (\<lambda>i. ?Q (16 * k + i)) [0..<IPB]) = card {m. 16 * k \<le> m \<and> m < 16 * Suc k \<and> ?Q m}"
      using length_filter_row [of ?Q "16 * k" IPB] by (simp add: add.commute)
    finally have f: "fold (\<lambda>i n. if 16 * k + 1 + i < ?N \<and> din_type ?d i = 0 then n + 1 else n) [0..<IPB] n =
        n + card {m. 16 * k \<le> m \<and> m < 16 * Suc k \<and> ?Q m}" .
    have e: "16 * k + 1 + IPB = 16 * Suc k + 1" by simp
    have "free_inodes_loop s (16 * k + 1) n = free_inodes_loop s (16 * Suc k + 1) (n + card {m. 16 * k \<le> m \<and> m < 16 * Suc k \<and> ?Q m})"
      by (subst free_inodes_loop.simps) (simp only: True if_True Let_def f e)
    also have "\<dots> = n + card {m. 16 * k \<le> m \<and> m < 16 * Suc k \<and> ?Q m} + card {m. 16 * Suc k \<le> m \<and> ?Q m}"
      by (rule less) (use True in simp)
    also have "\<dots> = n + card {m. 16 * k \<le> m \<and> ?Q m}"
      using card_cut [of "16 * k" "16 * Suc k" "{m. ?Q m}"] finite_subset [of "{m. ?Q m}" "{..<?N}"] by fastforce
    finally show ?thesis .
  qed
qed

subsection \<open>Properties\<close>





end
