(* ===== verification/Kalloc.thy ===== *)
theory Kalloc
  imports Bio "HOL-Library.Multiset"
begin

section \<open>The page allocator\<close>

text \<open>
  \<^verbatim>\<open>kernel/mm/kalloc.c\<close>: pages of physical memory in one free list per CPU, with reference counts.
  Memory is a function from addresses to bytes. A free list is a pointer, and the pointer to the
  next page is stored in the first eight bytes of each free page, as in the code. The linker's
  symbol \<^verbatim>\<open>end\<close>, the first address after the kernel, is the field \<open>kend\<close>.
\<close>

abbreviation (input) PGSIZE :: nat where "PGSIZE \<equiv> 4096"
abbreviation (input) NCPU :: nat where "NCPU \<equiv> 8"
abbreviation (input) PHYSTOP :: nat where "PHYSTOP \<equiv> 2281701376"

record mm =
  mem :: "nat \<Rightarrow> nat"
  cnt :: "nat \<Rightarrow> int"
  freelist :: "nat list"
  kend :: nat

subsection \<open>Bytes of memory\<close>

primrec ld :: "(nat \<Rightarrow> nat) \<Rightarrow> nat \<Rightarrow> nat \<Rightarrow> nat" where
  "ld m a 0 = 0"
| "ld m a (Suc n) = m a + 256 * ld m (a + 1) n"

primrec st :: "(nat \<Rightarrow> nat) \<Rightarrow> nat \<Rightarrow> nat \<Rightarrow> nat \<Rightarrow> nat \<Rightarrow> nat" where
  "st m a 0 v = m"
| "st m a (Suc n) v = st (m(a := v mod 256)) (a + 1) n (v div 256)"

abbreviation ld64 :: "(nat \<Rightarrow> nat) \<Rightarrow> nat \<Rightarrow> nat" where
  "ld64 m a \<equiv> ld m a 8"

abbreviation st64 :: "(nat \<Rightarrow> nat) \<Rightarrow> nat \<Rightarrow> nat \<Rightarrow> nat \<Rightarrow> nat" where
  "st64 m a v \<equiv> st m a 8 v"

definition memset :: "(nat \<Rightarrow> nat) \<Rightarrow> nat \<Rightarrow> nat \<Rightarrow> nat \<Rightarrow> nat \<Rightarrow> nat" where
  "memset m dst c n = (\<lambda>a. if dst \<le> a \<and> a < dst + n then c mod 256 else m a)"

definition PGROUNDUP :: "nat \<Rightarrow> nat" where
  "PGROUNDUP sz = (sz + (PGSIZE - 1)) mod 2 ^ 64 div PGSIZE * PGSIZE"

definition PGROUNDDOWN :: "nat \<Rightarrow> nat" where
  "PGROUNDDOWN a = a div PGSIZE * PGSIZE"

subsection \<open>The operations\<close>

definition kfree :: "nat \<Rightarrow> nat \<Rightarrow> 'z mm_scheme \<Rightarrow> unit bout \<times> 'z mm_scheme" where
  "kfree cpu pa s =
     (if pa mod PGSIZE \<noteq> 0 \<or> pa < kend s \<or> pa \<ge> PHYSTOP then (BPanic ''kfree'', s)
      else
        (let c = i32 (cnt s (pa div PGSIZE) - 1); s = s\<lparr>cnt := (cnt s)(pa div PGSIZE := c)\<rparr> in
         if c = 0 then
           (BRet (), s\<lparr>mem := st64 (memset (mem s) pa 1 PGSIZE) pa (freelist s ! cpu), freelist := (freelist s)[cpu := pa]\<rparr>)
         else (BRet (), s)))"

definition kalloc_pop :: "nat \<Rightarrow> 'z mm_scheme \<Rightarrow> nat \<times> 'z mm_scheme" where
  "kalloc_pop i s =
     (let r = freelist s ! i in
      (r, s\<lparr>freelist := (freelist s)[i := ld64 (mem s) r], cnt := (cnt s)(r div PGSIZE := 1),
            mem := memset (mem s) r 5 PGSIZE\<rparr>))"

definition kalloc_try :: "nat \<Rightarrow> 'z mm_scheme \<Rightarrow> nat \<times> 'z mm_scheme" where
  "kalloc_try cpu s =
     (if freelist s ! cpu \<noteq> 0 then kalloc_pop cpu s
      else
        case find (\<lambda>antid. antid \<noteq> cpu \<and> freelist s ! antid \<noteq> 0) [0..<NCPU] of
          Some antid \<Rightarrow> kalloc_pop antid s
        | None \<Rightarrow> (0, s))"

function freerange_loop :: "nat \<Rightarrow> nat \<Rightarrow> nat \<Rightarrow> 'z mm_scheme \<Rightarrow> unit bout \<times> 'z mm_scheme" where
  "freerange_loop cpu p pa_end s =
     (if p + PGSIZE \<le> pa_end then
        (case kfree cpu p (s\<lparr>cnt := (cnt s)(p div PGSIZE := 1)\<rparr>) of
           (BRet _, s) \<Rightarrow> freerange_loop cpu (p + PGSIZE) pa_end s
         | (r, s) \<Rightarrow> (r, s))
      else (BRet (), s))"
  by pat_completeness auto
termination by (relation "measure (\<lambda>(cpu, p, pa_end, s). pa_end - p)") auto

declare freerange_loop.simps [simp del]

definition freerange :: "nat \<Rightarrow> nat \<Rightarrow> nat \<Rightarrow> 'z mm_scheme \<Rightarrow> unit bout \<times> 'z mm_scheme" where
  "freerange cpu pa_start pa_end = freerange_loop cpu (PGROUNDUP pa_start) pa_end"

definition kinit :: "nat \<Rightarrow> 'z mm_scheme \<Rightarrow> unit bout \<times> 'z mm_scheme" where
  "kinit cpu s = freerange cpu (kend s) PHYSTOP s"

partial_function (option) run_bytes :: "(nat \<Rightarrow> nat) \<Rightarrow> nat \<Rightarrow> nat \<Rightarrow> nat option" where
  "run_bytes m p dst = (if p = 0 then Some dst else run_bytes m (ld64 m p) ((dst + PGSIZE) mod 2 ^ 64))"

definition freebytes :: "'z mm_scheme \<Rightarrow> nat option" where
  "freebytes s = fold (\<lambda>i d. Option.bind d (run_bytes (mem s) (freelist s ! i))) [0..<8] (Some 0)"

definition krefcnt :: "nat \<Rightarrow> 'z mm_scheme \<Rightarrow> int" where
  "krefcnt pa s = cnt s (pa div PGSIZE)"

definition kaddrefcnt :: "nat \<Rightarrow> 'z mm_scheme \<Rightarrow> int \<times> 'z mm_scheme" where
  "kaddrefcnt pa s =
     (if pa mod PGSIZE \<noteq> 0 \<or> pa < kend s \<or> pa \<ge> PHYSTOP then (- 1, s)
      else (0, s\<lparr>cnt := (cnt s)(pa div PGSIZE := i32 (cnt s (pa div PGSIZE) + 1))\<rparr>))"

text \<open>
  The users of the allocator and the references they hold: a page may be taken, dropped, shared or written to
  by whoever holds it, in any order and on any CPU.
\<close>

definition set_byte :: "nat \<Rightarrow> nat \<Rightarrow> 'z mm_scheme \<Rightarrow> 'z mm_scheme" where
  "set_byte a v s = s\<lparr>mem := (mem s)(a := v)\<rparr>"

inductive kmem_use :: "'z mm_scheme \<times> nat multiset \<Rightarrow> 'z mm_scheme \<times> nat multiset \<Rightarrow> bool" where
  get: "c < NCPU \<Longrightarrow> kalloc_try c s = (p, s') \<Longrightarrow> kmem_use (s, H) (s', if p = 0 then H else add_mset p H)"
| put: "c < NCPU \<Longrightarrow> p \<in># H \<Longrightarrow> kmem_use (s, H) (snd (kfree c p s), H - {#p#})"
| dup: "p \<in># H \<Longrightarrow> count H p < 2147483647 \<Longrightarrow> kmem_use (s, H) (snd (kaddrefcnt p s), add_mset p H)"
| wr: "p \<in># H \<Longrightarrow> p \<le> a \<Longrightarrow> a < p + PGSIZE \<Longrightarrow> kmem_use (s, H) (set_byte a v s, H)"

subsection \<open>Loads and stores\<close>

lemma st_other: "x < a \<or> a + n \<le> x \<Longrightarrow> st m a n v x = m x"
  by (induction n arbitrary: m a v) auto

lemma ld_cong: "(\<And>i. i < n \<Longrightarrow> m (a + i) = m' (b + i)) \<Longrightarrow> ld m a n = ld m' b n"
proof (induction n arbitrary: a b)
  case (Suc n)
  have "m (a + 1 + i) = m' (b + 1 + i)" if "i < n" for i using Suc.prems [of "Suc i"] that by simp
  then have "ld m (a + 1) n = ld m' (b + 1) n" by (rule Suc.IH)
  then show ?case using Suc.prems [of 0] by simp
qed simp

lemma ld_st: "v < 256 ^ n \<Longrightarrow> ld (st m a n v) a n = v"
proof (induction n arbitrary: m a v)
  case (Suc n)
  have "v div 256 < 256 ^ n" using Suc.prems by (simp add: less_mult_imp_div_less mult.commute)
  then have "ld (st (m(a := v mod 256)) (a + 1) n (v div 256)) (a + 1) n = v div 256" by (rule Suc.IH)
  then show ?case by (simp add: st_other)
qed simp

lemma ld_st_other: "a + n \<le> b \<or> b + k \<le> a \<Longrightarrow> ld (st m b k v) a n = ld m a n"
  by (rule ld_cong) (rule st_other, auto)

lemma ld64_st64 [simp]: "v < 2 ^ 64 \<Longrightarrow> ld64 (st64 m a v) a = v"
  by (rule ld_st) simp

lemma memset_other: "x < dst \<or> dst + n \<le> x \<Longrightarrow> memset m dst c n x = m x"
  by (auto simp: memset_def)

text \<open>Two pages that are not the same have no address in common.\<close>

definition inpage :: "nat \<Rightarrow> nat \<Rightarrow> bool" where
  "inpage p a \<longleftrightarrow> p \<le> a \<and> a < p + PGSIZE"

lemma inpage_div: "p mod PGSIZE = 0 \<Longrightarrow> inpage p a \<longleftrightarrow> p = a div PGSIZE * PGSIZE"
proof -
  assume "p mod PGSIZE = 0"
  then obtain k where k: "p = PGSIZE * k" by auto
  have "inpage p a \<longleftrightarrow> a div PGSIZE = k"
  proof
    assume "inpage p a"
    then show "a div PGSIZE = k" by (intro div_nat_eqI) (simp_all add: inpage_def k)
  next
    assume *: "a div PGSIZE = k"
    have "a = PGSIZE * k + a mod PGSIZE" "a mod PGSIZE < PGSIZE" using * mult_div_mod_eq [of PGSIZE a] by auto
    then show "inpage p a" unfolding inpage_def k by linarith
  qed
  then show ?thesis by (auto simp: k)
qed

lemma inpage_unique: "inpage p a \<Longrightarrow> inpage q a \<Longrightarrow> p mod PGSIZE = 0 \<Longrightarrow> q mod PGSIZE = 0 \<Longrightarrow> p = q"
  by (simp add: inpage_div)

subsection \<open>The invariant\<close>

text \<open>
  \<open>chain m p ps\<close>: from \<open>p\<close> the next pointers in memory lead through the pages \<open>ps\<close>. In a good state the lists of
  all CPUs together hold every page whose count is zero, each once.
\<close>

primrec chain :: "(nat \<Rightarrow> nat) \<Rightarrow> nat \<Rightarrow> nat list \<Rightarrow> bool" where
  "chain m p [] \<longleftrightarrow> p = 0"
| "chain m p (q # qs) \<longleftrightarrow> p = q \<and> q \<noteq> 0 \<and> chain m (ld64 m q) qs"

definition pages :: "'z mm_scheme \<Rightarrow> nat set" where
  "pages s = {p. p mod PGSIZE = 0 \<and> kend s \<le> p \<and> p < PHYSTOP}"

definition refs_to :: "'z mm_scheme \<Rightarrow> nat \<Rightarrow> int" where
  "refs_to s p = cnt s (p div PGSIZE)"

definition free_pages :: "'z mm_scheme \<Rightarrow> nat set" where
  "free_pages s = {p \<in> pages s. refs_to s p = 0}"

definition kmem_lists :: "'z mm_scheme \<Rightarrow> nat list list \<Rightarrow> bool" where
  "kmem_lists s L \<longleftrightarrow> length L = NCPU \<and> (\<forall>i < NCPU. chain (mem s) (freelist s ! i) (L ! i)) \<and>
     distinct (concat L) \<and> set (concat L) = free_pages s"

definition kmem_inv :: "'z mm_scheme \<Rightarrow> bool" where
  "kmem_inv s \<longleftrightarrow> 0 < kend s \<and> length (freelist s) = NCPU \<and> (\<exists>L. kmem_lists s L) \<and>
     (\<forall>p \<in> pages s. 0 \<le> refs_to s p \<and> refs_to s p < 2147483648)"

lemma chain_cong: "(\<And>q. q \<in> set ps \<Longrightarrow> ld64 m' q = ld64 m q) \<Longrightarrow> chain m' p ps = chain m p ps"
  by (induction ps arbitrary: p) auto

lemma chain_head: "chain m p ps \<Longrightarrow> p \<noteq> 0 \<Longrightarrow> \<exists>qs. ps = p # qs \<and> chain m (ld64 m p) qs"
  by (cases ps) auto

lemma pages_less: "p \<in> pages s \<Longrightarrow> p < PHYSTOP" "p \<in> pages s \<Longrightarrow> p mod PGSIZE = 0"
  by (simp_all add: pages_def)

lemma ld64_page:
  assumes "\<And>a. \<not> inpage p a \<Longrightarrow> m' a = m a" "p mod PGSIZE = 0" "q mod PGSIZE = 0" "q \<noteq> p"
  shows "ld64 m' q = ld64 m q"
proof (rule ld_cong)
  fix i :: nat assume "i < 8"
  then have "inpage q (q + i)" by (simp add: inpage_def)
  then have "\<not> inpage p (q + i)" using inpage_unique [of q "q + i" p] assms(2-4) by metis
  then show "m' (q + i) = m (q + i)" by (rule assms(1))
qed

lemma concat_take_drop: "i < length L \<Longrightarrow> concat L = concat (take i L) @ L ! i @ concat (drop (Suc i) L)"
  using concat_append [of "take i L" "L ! i # drop (Suc i) L"] by (simp flip: id_take_nth_drop)

lemma concat_upd: "i < length L \<Longrightarrow> concat (L[i := x]) = concat (take i L) @ x @ concat (drop (Suc i) L)"
  by (simp add: upd_conv_take_nth_drop)

lemma refs_to_upd:
  assumes "p \<in> pages s" "q \<in> pages s" "cnt s' = (cnt s)(p div PGSIZE := c)"
  shows "refs_to s' q = (if q = p then c else refs_to s q)"
proof -
  have "q div PGSIZE = p div PGSIZE \<longleftrightarrow> q = p" using pages_less(2) [OF assms(1)] pages_less(2) [OF assms(2)]
    by (metis add.right_neutral div_mult_mod_eq)
  then show "refs_to s' q = (if q = p then c else refs_to s q)" by (simp add: refs_to_def assms(3))
qed

subsection \<open>Allocating and freeing\<close>

text \<open>\<open>touched p s s'\<close>: nothing changed outside page \<open>p\<close>, its count and the free lists.\<close>

definition touched :: "nat \<Rightarrow> 'z mm_scheme \<Rightarrow> 'z mm_scheme \<Rightarrow> bool" where
  "touched p s s' \<longleftrightarrow> kend s' = kend s \<and> mm.more s' = mm.more s \<and> (\<forall>a. \<not> inpage p a \<longrightarrow> mem s' a = mem s a)"

lemma touched_pages: "touched p s s' \<Longrightarrow> pages s' = pages s"
  by (simp add: touched_def pages_def)

lemma kmem_invD:
  assumes "kmem_inv s"
  shows "0 < kend s" "length (freelist s) = NCPU" "\<exists>L. kmem_lists s L"
    "p \<in> pages s \<Longrightarrow> 0 \<le> refs_to s p" "p \<in> pages s \<Longrightarrow> refs_to s p < 2147483648"
  using assms by (auto simp: kmem_inv_def)

lemma chain_touched:
  assumes t: "touched p s s'" and p: "p \<in> pages s" and q: "set qs \<subseteq> pages s" "p \<notin> set qs"
  shows "chain (mem s') h qs = chain (mem s) h qs"
proof (rule chain_cong)
  fix r assume "r \<in> set qs"
  then have "r \<in> pages s" "r \<noteq> p" using q by auto
  then show "ld64 (mem s') r = ld64 (mem s) r"
    using t pages_less(2) [OF p] pages_less(2) [of r] by (intro ld64_page [of p]) (auto simp: touched_def)
qed

lemma set_nth_concat: "j < length L \<Longrightarrow> set (L ! j) \<subseteq> set (concat L)"
  by (auto dest: nth_mem)

text \<open>The list of one CPU changes and the page \<open>r\<close> is in none of the others.\<close>

lemma kmem_lists_upd:
  assumes L: "kmem_lists s L" and t: "touched r s s'" "r \<in> pages s" and i: "i < NCPU" "length (freelist s) = NCPU"
    and h: "freelist s' = (freelist s)[i := h]" "chain (mem s') h x"
    and r: "\<And>j. j < NCPU \<Longrightarrow> j \<noteq> i \<Longrightarrow> r \<notin> set (L ! j)"
    and d: "distinct (concat (L[i := x]))" "set (concat (L[i := x])) = free_pages s'"
  shows "kmem_lists s' (L[i := x])"
proof -
  have l: "length L = NCPU" "set (concat L) = free_pages s" using L by (simp_all add: kmem_lists_def)
  have "chain (mem s') (freelist s' ! j) (L[i := x] ! j)" if j: "j < NCPU" for j
  proof (cases "j = i")
    case False
    have "set (L ! j) \<subseteq> pages s" using set_nth_concat [of j L] l j by (auto simp: free_pages_def)
    from chain_touched [OF t this r [OF j False]] L j show ?thesis using False by (simp add: h kmem_lists_def)
  qed (use i l h in simp)
  then show ?thesis using d l(1) by (simp add: kmem_lists_def)
qed

lemma kalloc_pop_spec:
  assumes inv: "kmem_inv s" and i: "i < NCPU" "freelist s ! i \<noteq> 0"
  shows "\<exists>s'. kalloc_pop i s = (freelist s ! i, s') \<and> kmem_inv s' \<and> freelist s ! i \<in> free_pages s \<and>
    touched (freelist s ! i) s s' \<and> cnt s' = (cnt s)(freelist s ! i div PGSIZE := 1)"
proof -
  note I = kmem_invD [OF inv]
  let ?r = "freelist s ! i"
  define s' where "s' = snd (kalloc_pop i s)"
  have run: "kalloc_pop i s = (?r, s')" by (simp add: s'_def kalloc_pop_def Let_def)
  have s': "cnt s' = (cnt s)(?r div PGSIZE := 1)" "freelist s' = (freelist s)[i := ld64 (mem s) ?r]"
    and t: "touched ?r s s'"
    by (auto simp: s'_def kalloc_pop_def Let_def touched_def inpage_def memset_def)
  from I(3) obtain L where K: "kmem_lists s L" by blast
  then have L: "length L = NCPU" "distinct (concat L)" "set (concat L) = free_pages s" by (auto simp: kmem_lists_def)
  have "chain (mem s) ?r (L ! i)" using K i(1) by (simp add: kmem_lists_def)
  then obtain qs where qs: "L ! i = ?r # qs" "chain (mem s) (ld64 (mem s) ?r) qs" using chain_head i(2) by blast
  have cL: "concat L = concat (take i L) @ (?r # qs) @ concat (drop (Suc i) L)"
    "concat (L[i := qs]) = concat (take i L) @ qs @ concat (drop (Suc i) L)"
    using concat_take_drop [of i L] concat_upd [of i L] i(1) L(1) qs(1) by simp_all
  have r: "?r \<in> free_pages s" "?r \<notin> set (concat (L[i := qs]))" "set (concat (L[i := qs])) = free_pages s - {?r}"
    "distinct (concat (L[i := qs]))"
    using L(2) L(3) [symmetric] unfolding cL by auto
  have rp: "?r \<in> pages s" using r(1) by (simp add: free_pages_def)
  note R = refs_to_upd [OF rp _ s'(1)]
  have fp: "free_pages s' = free_pages s - {?r}"
    using R touched_pages [OF t] by (auto simp: free_pages_def split: if_splits)
  have "set (L[i := qs] ! j) \<subseteq> free_pages s - {?r}" if "j < NCPU" for j
    using set_nth_concat [of j "L[i := qs]"] that L(1) r(3) by simp
  then have sub: "set (L ! j) \<subseteq> free_pages s - {?r}" if "j < NCPU" "j \<noteq> i" for j using that by fastforce
  have "set qs \<subseteq> pages s" "?r \<notin> set qs" using r(2,3) unfolding cL by (auto simp: free_pages_def)
  then have "chain (mem s') (ld64 (mem s) ?r) qs" using chain_touched [OF t rp] qs(2) by blast
  from kmem_lists_upd [OF K t rp i(1) I(2) s'(2) this] have "kmem_lists s' (L[i := qs])" using sub r fp by blast
  moreover have "0 \<le> refs_to s' p \<and> refs_to s' p < 2147483648" if "p \<in> pages s" for p
    using R [OF that] I(4,5) [OF that] by simp
  ultimately have "kmem_inv s'" using I(1,2) s'(2) t touched_pages [OF t] by (auto simp: kmem_inv_def touched_def)
  then show ?thesis using run r(1) t s'(1) by blast
qed

text \<open>The last reference is dropped: the page becomes the head of the list of this CPU.\<close>

lemma kfree_lists:
  assumes inv: "kmem_inv s" and K: "kmem_lists s L" and i: "i < NCPU" and p: "p \<in> pages s" "0 < refs_to s p" and t: "touched p s s'"
    and f: "freelist s' = (freelist s)[i := p]" "mem s' = st64 (memset (mem s) p 1 PGSIZE) p (freelist s ! i)"
    and fp: "free_pages s' = insert p (free_pages s)"
  shows "kmem_lists s' (L[i := p # L ! i])"
proof -
  note I = kmem_invD [OF inv]
  have L: "length L = NCPU" "distinct (concat L)" "set (concat L) = free_pages s" using K by (auto simp: kmem_lists_def)
  have pf: "p \<notin> set (concat L)" using p(2) unfolding L(3) by (simp add: free_pages_def)
  have sub: "set (L ! j) \<subseteq> free_pages s" if "j < NCPU" for j using set_nth_concat [of j L] that unfolding L(1,3) .
  then have pj: "p \<notin> set (L ! j)" if "j < NCPU" for j using pf that unfolding L(3) by blast
  have ch: "chain (mem s) (freelist s ! i) (L ! i)" using K i by (simp add: kmem_lists_def)
  have pg: "set (L ! i) \<subseteq> pages s" using sub [OF i] by (auto simp: free_pages_def)
  have "freelist s ! i < 2 ^ 64" using ch pg pages_less(1) [of "freelist s ! i" s] by (cases "L ! i") auto
  then have "ld64 (mem s') p = freelist s ! i" by (simp add: f(2))
  moreover have "chain (mem s') (freelist s ! i) (L ! i)" using chain_touched [OF t p(1) pg pj [OF i]] ch by simp
  moreover have "p \<noteq> 0" using p(1) I(1) by (auto simp: pages_def)
  ultimately have c: "chain (mem s') p (p # L ! i)" by simp
  have e: "concat L = concat (take i L) @ L ! i @ concat (drop (Suc i) L)"
    "concat (L[i := p # L ! i]) = concat (take i L) @ (p # L ! i) @ concat (drop (Suc i) L)"
    using concat_take_drop [of i L] concat_upd [of i L] i L(1) by simp_all
  have "distinct (concat (L[i := p # L ! i]))" "set (concat (L[i := p # L ! i])) = free_pages s'"
    using L(2) pf fp L(3) [symmetric] unfolding e by auto
  then show ?thesis using pj by (intro kmem_lists_upd [OF K t p(1) i I(2) f(1) c]) blast+
qed

lemma kfree_spec:
  assumes inv: "kmem_inv s" and i: "i < NCPU" and p: "p \<in> pages s" "0 < refs_to s p"
  shows "\<exists>s'. kfree i p s = (BRet (), s') \<and> kmem_inv s' \<and> touched p s s' \<and> cnt s' = (cnt s)(p div PGSIZE := refs_to s p - 1) \<and>
    (refs_to s p \<noteq> 1 \<longrightarrow> mem s' = mem s)"
proof -
  note I = kmem_invD [OF inv]
  have c: "i32 (cnt s (p div PGSIZE) - 1) = refs_to s p - 1"
    using p(2) I(5) [OF p(1)] by (simp add: refs_to_def i32_id)
  have g: "\<not> (p mod PGSIZE \<noteq> 0 \<or> p < kend s \<or> p \<ge> PHYSTOP)" using p(1) by (auto simp: pages_def)
  define s' where "s' = snd (kfree i p s)"
  have run: "kfree i p s = (BRet (), s')" using g by (simp add: s'_def kfree_def Let_def)
  have s': "cnt s' = (cnt s)(p div PGSIZE := refs_to s p - 1)" using g c by (simp add: s'_def kfree_def Let_def)
  have t: "touched p s s'" using g by (auto simp: s'_def kfree_def Let_def touched_def inpage_def st_other memset_other)
  note R = refs_to_upd [OF p(1) _ s']
  from I(3) obtain L where K: "kmem_lists s L" by blast
  have "(\<exists>L. kmem_lists s' L) \<and> length (freelist s') = NCPU \<and> (refs_to s p \<noteq> 1 \<longrightarrow> mem s' = mem s)"
  proof (cases "refs_to s p = 1")
    case True
    have f: "freelist s' = (freelist s)[i := p]" "mem s' = st64 (memset (mem s) p 1 PGSIZE) p (freelist s ! i)"
      using True g c by (simp_all add: s'_def kfree_def Let_def)
    have "free_pages s' = insert p (free_pages s)"
      using R True p(1) touched_pages [OF t] by (auto simp: free_pages_def split: if_splits)
    from kfree_lists [OF inv K i p t f this] show ?thesis using f(1) I(2) True by auto
  next
    case False
    have f: "freelist s' = freelist s" "mem s' = mem s" using False g c by (simp_all add: s'_def kfree_def Let_def)
    have "free_pages s' = free_pages s"
      using R False p(2) touched_pages [OF t] by (auto simp: free_pages_def split: if_splits)
    then have "kmem_lists s' L" using K f by (simp add: kmem_lists_def)
    then show ?thesis using f I(2) by auto
  qed
  moreover have "0 \<le> refs_to s' q \<and> refs_to s' q < 2147483648" if "q \<in> pages s" for q
    using R [OF that] I(4,5) [OF that] p(2) by auto
  ultimately have "kmem_inv s' \<and> (refs_to s p \<noteq> 1 \<longrightarrow> mem s' = mem s)"
    using I(1) t touched_pages [OF t] by (auto simp: kmem_inv_def touched_def)
  with run t s' show ?thesis by blast
qed

lemma kalloc_try_spec:
  assumes inv: "kmem_inv s" and c: "cpu < NCPU"
  shows "free_pages s = {} \<Longrightarrow> kalloc_try cpu s = (0, s)"
    "free_pages s \<noteq> {} \<Longrightarrow> \<exists>p s'. kalloc_try cpu s = (p, s') \<and> p \<in> free_pages s \<and> kmem_inv s' \<and> touched p s s' \<and>
      cnt s' = (cnt s)(p div PGSIZE := 1)"
proof -
  note I = kmem_invD [OF inv]
  from I(3) obtain L where K: "length L = NCPU" "\<And>i. i < NCPU \<Longrightarrow> chain (mem s) (freelist s ! i) (L ! i)" "set (concat L) = free_pages s"
    by (auto simp: kmem_lists_def)
  have z: "freelist s ! i = 0" if "i < NCPU" "free_pages s = {}" for i
  proof -
    have "L ! i = []" using that set_nth_concat [of i L] K(1,3) by auto
    then show ?thesis using K(2) [OF that(1)] by simp
  qed
  have nz: "\<exists>i < NCPU. freelist s ! i \<noteq> 0" if ne: "free_pages s \<noteq> {}"
  proof -
    obtain p where "p \<in> set (concat L)" using ne unfolding K(3) by blast
    then obtain xs where "xs \<in> set L" "p \<in> set xs" by auto
    then obtain i where "i < NCPU" "p \<in> set (L ! i)" using K(1) by (metis in_set_conv_nth)
    then show ?thesis using K(2) [of i] by (cases "L ! i") auto
  qed
  show "kalloc_try cpu s = (0, s)" if "free_pages s = {}"
    using z [OF _ that] c by (auto simp: kalloc_try_def find_None_iff find_Some_iff split: option.split)
  show "\<exists>p s'. kalloc_try cpu s = (p, s') \<and> p \<in> free_pages s \<and> kmem_inv s' \<and> touched p s s' \<and>
      cnt s' = (cnt s)(p div PGSIZE := 1)" if "free_pages s \<noteq> {}"
  proof (cases "freelist s ! cpu = 0")
    case False
    with kalloc_pop_spec [OF inv c] show ?thesis by (auto simp: kalloc_try_def)
  next
    case True
    let ?f = "find (\<lambda>antid. antid \<noteq> cpu \<and> freelist s ! antid \<noteq> 0) [0..<NCPU]"
    have "?f \<noteq> None" using nz [OF that] True by (auto simp: find_None_iff)
    then obtain j where j: "?f = Some j" by blast
    then have "j < NCPU" "freelist s ! j \<noteq> 0" by (auto simp: find_Some_iff)
    with kalloc_pop_spec [OF inv this] True j show ?thesis by (auto simp: kalloc_try_def)
  qed
qed

lemma kaddrefcnt_spec:
  assumes inv: "kmem_inv s" and p: "p \<in> pages s" "0 < refs_to s p" "refs_to s p < 2147483647"
  shows "\<exists>s'. kaddrefcnt p s = (0, s') \<and> kmem_inv s' \<and> touched p s s' \<and> cnt s' = (cnt s)(p div PGSIZE := refs_to s p + 1) \<and> mem s' = mem s"
proof -
  note I = kmem_invD [OF inv]
  have g: "\<not> (p mod PGSIZE \<noteq> 0 \<or> p < kend s \<or> p \<ge> PHYSTOP)" using p(1) by (auto simp: pages_def)
  define s' where "s' = s\<lparr>cnt := (cnt s)(p div PGSIZE := refs_to s p + 1)\<rparr>"
  have run: "kaddrefcnt p s = (0, s')" using g p(2,3) by (simp add: kaddrefcnt_def s'_def refs_to_def i32_id)
  have t: "touched p s s'" by (simp add: s'_def touched_def)
  note R = refs_to_upd [OF p(1), of _ s' "refs_to s p + 1"]
  have "free_pages s' = free_pages s"
    using R p(2) touched_pages [OF t] by (auto simp: free_pages_def s'_def split: if_splits)
  then have "kmem_lists s' L = kmem_lists s L" for L by (simp add: kmem_lists_def s'_def)
  moreover have "0 \<le> refs_to s' q \<and> refs_to s' q < 2147483648" if "q \<in> pages s" for q
    using R [OF that] I(4,5) [OF that] p(2,3) by (auto simp: s'_def)
  moreover have "kend s' = kend s" "freelist s' = freelist s" by (simp_all add: s'_def)
  ultimately have "kmem_inv s'" using I(1-3) touched_pages [OF t] unfolding kmem_inv_def by auto
  with run t show ?thesis by (simp add: s'_def)
qed

text \<open>Whoever holds a page may write to it.\<close>

lemma write_page_inv:
  assumes inv: "kmem_inv s" and p: "p \<in> pages s" "0 < refs_to s p" and m: "\<And>a. \<not> inpage p a \<Longrightarrow> m a = mem s a"
  shows "kmem_inv (s\<lparr>mem := m\<rparr>)"
proof -
  note I = kmem_invD [OF inv]
  let ?s = "s\<lparr>mem := m\<rparr>"
  have t: "touched p s ?s" using m by (simp add: touched_def)
  have fp: "free_pages ?s = free_pages s" "pages ?s = pages s" by (simp_all add: free_pages_def pages_def refs_to_def)
  from I(3) obtain L where K: "kmem_lists s L" by blast
  have "chain m (freelist s ! i) (L ! i)" if i: "i < NCPU" for i
  proof -
    have "set (L ! i) \<subseteq> free_pages s" using set_nth_concat [of i L] K i by (simp add: kmem_lists_def)
    then have "set (L ! i) \<subseteq> pages s" "p \<notin> set (L ! i)" using p(2) by (auto simp: free_pages_def)
    from chain_touched [OF t p(1) this] K i show ?thesis by (simp add: kmem_lists_def)
  qed
  then have "kmem_lists ?s L" using K fp by (simp add: kmem_lists_def)
  then show ?thesis using I fp unfolding kmem_inv_def by (auto simp: refs_to_def)
qed

subsection \<open>The interface of the allocator\<close>

text \<open>
  What the users of the allocator rely on, for every CPU \<open>c\<close>: a new page has no reference; a free page
  keeps the allocator intact when its last reference goes; counts follow; the bytes of other pages
  stay. Users hold references, kept in the multiset \<open>H\<close>; they may store bytes in pages they hold.
\<close>

locale page_pool =
  fixes inv :: "'s \<Rightarrow> bool" and pg :: "'s \<Rightarrow> nat set" and rc :: "'s \<Rightarrow> nat \<Rightarrow> int" and byte :: "'s \<Rightarrow> nat \<Rightarrow> nat"
    and alloc :: "nat \<Rightarrow> 's \<Rightarrow> nat \<times> 's" and free :: "nat \<Rightarrow> nat \<Rightarrow> 's \<Rightarrow> unit bout \<times> 's"
    and share :: "nat \<Rightarrow> 's \<Rightarrow> int \<times> 's" and store :: "nat \<Rightarrow> nat \<Rightarrow> 's \<Rightarrow> 's"
  assumes no_null: "inv s \<Longrightarrow> 0 \<notin> pg s"
    and aligned: "p \<in> pg s \<Longrightarrow> p mod PGSIZE = 0"
    and alloc_none: "inv s \<Longrightarrow> c < NCPU \<Longrightarrow> \<forall>p \<in> pg s. rc s p \<noteq> 0 \<Longrightarrow> alloc c s = (0, s)"
    and alloc_some: "inv s \<Longrightarrow> c < NCPU \<Longrightarrow> \<exists>p \<in> pg s. rc s p = 0 \<Longrightarrow>
      \<exists>p s'. alloc c s = (p, s') \<and> p \<in> pg s \<and> rc s p = 0 \<and> inv s' \<and> pg s' = pg s \<and>
        (\<forall>q \<in> pg s. rc s' q = (if q = p then 1 else rc s q)) \<and> (\<forall>a. \<not> inpage p a \<longrightarrow> byte s' a = byte s a)"
    and free_ok: "inv s \<Longrightarrow> c < NCPU \<Longrightarrow> p \<in> pg s \<Longrightarrow> 0 < rc s p \<Longrightarrow>
      \<exists>s'. free c p s = (BRet (), s') \<and> inv s' \<and> pg s' = pg s \<and> (\<forall>q \<in> pg s. rc s' q = (if q = p then rc s p - 1 else rc s q)) \<and>
        (\<forall>a. \<not> inpage p a \<or> rc s p \<noteq> 1 \<longrightarrow> byte s' a = byte s a)"
    and share_ok: "inv s \<Longrightarrow> p \<in> pg s \<Longrightarrow> 0 < rc s p \<Longrightarrow> rc s p < 2147483647 \<Longrightarrow>
      \<exists>s'. share p s = (0, s') \<and> inv s' \<and> pg s' = pg s \<and> (\<forall>q \<in> pg s. rc s' q = (if q = p then rc s p + 1 else rc s q)) \<and>
        (\<forall>a. byte s' a = byte s a)"
    and store_ok: "inv s \<Longrightarrow> p \<in> pg s \<Longrightarrow> 0 < rc s p \<Longrightarrow> inpage p a \<Longrightarrow>
      inv (store a v s) \<and> pg (store a v s) = pg s \<and> rc (store a v s) = rc s \<and> byte (store a v s) = (byte s)(a := v)"
begin

inductive use :: "'s \<times> nat multiset \<Rightarrow> 's \<times> nat multiset \<Rightarrow> bool" where
  get: "c < NCPU \<Longrightarrow> alloc c s = (p, s') \<Longrightarrow> use (s, H) (s', if p = 0 then H else add_mset p H)"
| put: "c < NCPU \<Longrightarrow> p \<in># H \<Longrightarrow> use (s, H) (snd (free c p s), H - {#p#})"
| dup: "p \<in># H \<Longrightarrow> count H p < 2147483647 \<Longrightarrow> use (s, H) (snd (share p s), add_mset p H)"
| wr: "p \<in># H \<Longrightarrow> inpage p a \<Longrightarrow> use (s, H) (store a v s, H)"

definition accounted :: "'s \<times> nat multiset \<Rightarrow> bool" where
  "accounted x \<longleftrightarrow> inv (fst x) \<and> set_mset (snd x) \<subseteq> pg (fst x) \<and> (\<forall>p \<in> pg (fst x). rc (fst x) p = int (count (snd x) p))"

lemma accountedD:
  assumes "accounted (s, H)"
  shows "inv s" "p \<in># H \<Longrightarrow> p \<in> pg s" "p \<in> pg s \<Longrightarrow> rc s p = int (count H p)" "p \<in># H \<Longrightarrow> 0 < rc s p"
  using assms by (auto simp: accounted_def)

lemma use_accounted:
  assumes "use x y" "accounted x"
  shows "accounted y"
  using assms
proof (induction rule: use.induct)
  case (get c s p s' H)
  note A = accountedD [OF get.prems]
  show ?case
  proof (cases "\<exists>q \<in> pg s. rc s q = 0")
    case True
    from alloc_some [OF A(1) get(1) this] get(2) have p: "p \<in> pg s" "rc s p = 0" "inv s'" "pg s' = pg s"
      "\<forall>q \<in> pg s. rc s' q = (if q = p then 1 else rc s q)" by auto
    moreover have "p \<noteq> 0" using p(1) no_null [OF A(1)] by metis
    ultimately show ?thesis using A(2,3) by (auto simp: accounted_def)
  next
    case False
    with alloc_none [OF A(1) get(1)] get(2,3) show ?thesis by auto
  qed
next
  case (put c p H s)
  note A = accountedD [OF put.prems]
  from free_ok [OF A(1) put(1) A(2) [OF put(2)] A(4) [OF put(2)]] obtain s' where s': "free c p s = (BRet (), s')" "inv s'"
    "pg s' = pg s" "\<forall>q \<in> pg s. rc s' q = (if q = p then rc s p - 1 else rc s q)" by blast
  have "rc s' q = int (count (H - {#p#}) q)" if "q \<in> pg s" for q
    using s'(4) A(3) [OF that] that count_greater_zero_iff [THEN iffD2, OF put(2)] by auto
  moreover have "set_mset (H - {#p#}) \<subseteq> pg s" using A(2) by (auto dest: in_diffD)
  ultimately show ?case using s' by (simp add: accounted_def)
next
  case (dup p H s)
  note A = accountedD [OF dup.prems]
  have "rc s p < 2147483647" using A(3) [OF A(2) [OF dup(1)]] dup(2) by simp
  from share_ok [OF A(1) A(2) [OF dup(1)] A(4) [OF dup(1)] this] obtain s' where s': "share p s = (0, s')" "inv s'"
    "pg s' = pg s" "\<forall>q \<in> pg s. rc s' q = (if q = p then rc s p + 1 else rc s q)" by blast
  then show ?case using A(2,3) dup(1) by (auto simp: accounted_def)
next
  case (wr p H a s v)
  note A = accountedD [OF wr.prems]
  show ?case using store_ok [OF A(1) A(2) [OF wr(1)] A(4) [OF wr(1)] wr(2)] A(2,3) by (auto simp: accounted_def)
qed

lemma run_accounted: "use\<^sup>*\<^sup>* x y \<Longrightarrow> accounted x \<Longrightarrow> accounted y"
  by (induction rule: rtranclp_induct) (auto intro: use_accounted)

lemma use_pg: "use x y \<Longrightarrow> accounted x \<Longrightarrow> pg (fst y) = pg (fst x)"
proof (induction rule: use.induct)
  case (get c s p s' H)
  note A = accountedD [OF get.prems]
  show ?case using alloc_some [OF A(1) get(1)] alloc_none [OF A(1) get(1)] get(2) by (cases "\<exists>q \<in> pg s. rc s q = 0") auto
next
  case (put c p H s)
  note A = accountedD [OF put.prems]
  from free_ok [OF A(1) put(1) A(2) [OF put(2)] A(4) [OF put(2)]] show ?case by auto
next
  case (dup p H s)
  note A = accountedD [OF dup.prems]
  have "rc s p < 2147483647" using A(3) [OF A(2) [OF dup(1)]] dup(2) by simp
  from share_ok [OF A(1) A(2) [OF dup(1)] A(4) [OF dup(1)] this] show ?case by auto
next
  case (wr p H a s v)
  note A = accountedD [OF wr.prems]
  show ?case using store_ok [OF A(1) A(2) [OF wr(1)] A(4) [OF wr(1)] wr(2)] by simp
qed

lemma run_pg: "use\<^sup>*\<^sup>* x y \<Longrightarrow> accounted x \<Longrightarrow> pg (fst y) = pg (fst x)"
  by (induction rule: rtranclp_induct) (auto simp: use_pg run_accounted)

text \<open>A page that is handed out is held by nobody, and there is one unless all are held.\<close>

lemma alloc_fresh:
  assumes "accounted (s, H)" "c < NCPU"
  shows "\<exists>p s'. alloc c s = (p, s') \<and> (if pg s \<subseteq> set_mset H then p = 0 else p \<in> pg s \<and> p \<notin># H)"
proof (cases "\<exists>q \<in> pg s. rc s q = 0")
  case True
  note A = accountedD [OF assms(1)]
  from alloc_some [OF A(1) assms(2) True] obtain p s' where "alloc c s = (p, s')" "p \<in> pg s" "rc s p = 0" by blast
  moreover from this have "p \<notin># H" using A(4) by fastforce
  ultimately show ?thesis by auto
next
  case False
  note A = accountedD [OF assms(1)]
  have "pg s \<subseteq> set_mset H" using A(3) False by (force simp: not_in_iff)
  then show ?thesis using alloc_none [OF A(1) assms(2)] False by auto
qed

text \<open>A step leaves the bytes of held pages alone, except for the store itself and a page whose last reference is dropped.\<close>

lemma use_keeps:
  assumes "use (s, H) (s', H')" "accounted (s, H)" "q \<in># H" "q \<in># H'" "inpage q a"
  shows "byte s' a = byte s a \<or> (\<exists>v. s' = store a v s)"
  using assms(1)
proof (cases rule: use.cases)
  case (get c p)
  note A = accountedD [OF assms(2)]
  show ?thesis
  proof (cases "\<exists>q \<in> pg s. rc s q = 0")
    case True
    from alloc_some [OF A(1) get(2) True] get(3) have p: "p \<in> pg s" "rc s p = 0" "\<forall>a. \<not> inpage p a \<longrightarrow> byte s' a = byte s a" by auto
    have "q \<noteq> p" using p(2) A(4) [OF assms(3)] by auto
    then have "\<not> inpage p a" using inpage_unique [OF assms(5) _ aligned [OF A(2) [OF assms(3)]] aligned [OF p(1)]] by blast
    with p(3) show ?thesis by blast
  next
    case False
    with alloc_none [OF A(1) get(2)] get(3) show ?thesis by auto
  qed
next
  case (put c p)
  note A = accountedD [OF assms(2)]
  from free_ok [OF A(1) put(3) A(2) [OF put(4)] A(4) [OF put(4)]] put(1) have *: "\<forall>a. \<not> inpage p a \<or> rc s p \<noteq> 1 \<longrightarrow> byte s' a = byte s a" by auto
  show ?thesis
  proof (cases "q = p")
    case True
    then have "count H p \<noteq> 1" using assms(4) put(2) by (simp add: in_diff_count)
    then have "rc s p \<noteq> 1" using A(3) [OF A(2) [OF put(4)]] by simp
    with * show ?thesis by blast
  next
    case False
    then have "\<not> inpage p a"
      using inpage_unique [OF assms(5) _ aligned [OF A(2) [OF assms(3)]] aligned [OF A(2) [OF put(4)]]] by blast
    with * show ?thesis by blast
  qed
next
  case (dup p)
  note A = accountedD [OF assms(2)]
  have "rc s p < 2147483647" using A(3) [OF A(2) [OF dup(3)]] dup(4) by simp
  from share_ok [OF A(1) A(2) [OF dup(3)] A(4) [OF dup(3)] this] dup(1) show ?thesis by auto
next
  case (wr p b v)
  note A = accountedD [OF assms(2)]
  show ?thesis using store_ok [OF A(1) A(2) [OF wr(3)] A(4) [OF wr(3)] wr(4), of v] wr(1) by (cases "a = b") auto
qed

end


text \<open>The allocator provides the interface.\<close>

lemma pool_alloc:
  assumes "kmem_inv s" "c < NCPU" "\<exists>p \<in> pages s. refs_to s p = 0"
  shows "\<exists>p s'. kalloc_try c s = (p, s') \<and> p \<in> pages s \<and> refs_to s p = 0 \<and> kmem_inv s' \<and> pages s' = pages s \<and>
    (\<forall>q \<in> pages s. refs_to s' q = (if q = p then 1 else refs_to s q)) \<and> (\<forall>a. \<not> inpage p a \<longrightarrow> mem s' a = mem s a)"
proof -
  have "free_pages s \<noteq> {}" using assms(3) by (auto simp: free_pages_def)
  from kalloc_try_spec(2) [OF assms(1,2) this] obtain p s' where s': "kalloc_try c s = (p, s')" "p \<in> free_pages s" "kmem_inv s'"
    "touched p s s'" "cnt s' = (cnt s)(p div PGSIZE := 1)" by blast
  have p: "p \<in> pages s" "refs_to s p = 0" using s'(2) by (auto simp: free_pages_def)
  show ?thesis using s' p touched_pages [OF s'(4)] refs_to_upd [OF p(1) _ s'(5)] by (auto simp: touched_def)
qed

lemma pool_free:
  assumes "kmem_inv s" "c < NCPU" "p \<in> pages s" "0 < refs_to s p"
  shows "\<exists>s'. kfree c p s = (BRet (), s') \<and> kmem_inv s' \<and> pages s' = pages s \<and>
    (\<forall>q \<in> pages s. refs_to s' q = (if q = p then refs_to s p - 1 else refs_to s q)) \<and>
    (\<forall>a. \<not> inpage p a \<or> refs_to s p \<noteq> 1 \<longrightarrow> mem s' a = mem s a)"
proof -
  from kfree_spec [OF assms] obtain s' where s': "kfree c p s = (BRet (), s')" "kmem_inv s'" "touched p s s'"
    "cnt s' = (cnt s)(p div PGSIZE := refs_to s p - 1)" "refs_to s p \<noteq> 1 \<longrightarrow> mem s' = mem s" by blast
  show ?thesis using s' touched_pages [OF s'(3)] refs_to_upd [OF assms(3) _ s'(4)] by (auto simp: touched_def)
qed

lemma pool_share:
  assumes "kmem_inv s" "p \<in> pages s" "0 < refs_to s p" "refs_to s p < 2147483647"
  shows "\<exists>s'. kaddrefcnt p s = (0, s') \<and> kmem_inv s' \<and> pages s' = pages s \<and>
    (\<forall>q \<in> pages s. refs_to s' q = (if q = p then refs_to s p + 1 else refs_to s q)) \<and> (\<forall>a. mem s' a = mem s a)"
proof -
  from kaddrefcnt_spec [OF assms] obtain s' where s': "kaddrefcnt p s = (0, s')" "kmem_inv s'" "touched p s s'"
    "cnt s' = (cnt s)(p div PGSIZE := refs_to s p + 1)" "mem s' = mem s" by blast
  show ?thesis using s' touched_pages [OF s'(3)] refs_to_upd [OF assms(2) _ s'(4)] by auto
qed

interpretation pool: page_pool kmem_inv pages refs_to mem kalloc_try kfree kaddrefcnt set_byte
proof
  fix s :: "'z mm_scheme" and c p a v
  show "kmem_inv s \<Longrightarrow> 0 \<notin> pages s" by (auto simp: kmem_inv_def pages_def)
  show "p \<in> pages s \<Longrightarrow> p mod PGSIZE = 0" by (rule pages_less)
  show "kalloc_try c s = (0, s)" if "kmem_inv s" "c < NCPU" "\<forall>p \<in> pages s. refs_to s p \<noteq> 0"
    using that(3) by (intro kalloc_try_spec(1) [OF that(1,2)]) (auto simp: free_pages_def)
  show "kmem_inv (set_byte a v s) \<and> pages (set_byte a v s) = pages s \<and> refs_to (set_byte a v s) = refs_to s \<and>
      mem (set_byte a v s) = (mem s)(a := v)" if "kmem_inv s" "p \<in> pages s" "0 < refs_to s p" "inpage p a"
  proof -
    have "kmem_inv (set_byte a v s)" unfolding set_byte_def by (rule write_page_inv [OF that(1-3)]) (use that(4) in auto)
    then show ?thesis by (simp add: set_byte_def pages_def refs_to_def fun_eq_iff)
  qed
qed (fact pool_alloc pool_free pool_share)+

subsection \<open>Start-up\<close>

definition booting :: "nat \<Rightarrow> nat \<Rightarrow> 'z mm_scheme \<Rightarrow> bool" where
  "booting cpu p s \<longleftrightarrow> p mod PGSIZE = 0 \<and> kend s \<le> p \<and> 0 < kend s \<and> cnt s = (\<lambda>_. 0) \<and> length (freelist s) = NCPU \<and>
     (\<forall>i < NCPU. i \<noteq> cpu \<longrightarrow> freelist s ! i = 0) \<and>
     (\<exists>ps. chain (mem s) (freelist s ! cpu) ps \<and> distinct ps \<and> set ps = {q \<in> pages s. q < p})"

lemma freerange_loop_spec:
  "booting cpu p s \<Longrightarrow> cpu < NCPU \<Longrightarrow> \<exists>s' p'. freerange_loop cpu p PHYSTOP s = (BRet (), s') \<and> booting cpu p' s' \<and> PHYSTOP \<le> p' \<and>
     pages s' = pages s"
proof (induction "PHYSTOP - p" arbitrary: p s rule: less_induct)
  case less
  show ?case
  proof (cases "p + PGSIZE \<le> PHYSTOP")
    case False
    have "p mod PGSIZE = 0" using less.prems(1) by (simp add: booting_def)
    then obtain k where "p = PGSIZE * k" by auto
    then have "PHYSTOP \<le> p" using False by simp
    then show ?thesis using False less.prems(1) by (subst freerange_loop.simps) auto
  next
    case True
    from less.prems obtain ps where B: "p mod PGSIZE = 0" "kend s \<le> p" "0 < kend s" "cnt s = (\<lambda>_. 0)" "length (freelist s) = NCPU"
      "\<And>i. i < NCPU \<Longrightarrow> i \<noteq> cpu \<Longrightarrow> freelist s ! i = 0"
      and ps: "chain (mem s) (freelist s ! cpu) ps" "distinct ps" "set ps = {q \<in> pages s. q < p}"
      by (auto simp: booting_def)
    have pp: "p \<in> pages s" using B True by (auto simp: pages_def)
    define s' where "s' = s\<lparr>mem := st64 (memset (mem s) p 1 PGSIZE) p (freelist s ! cpu), freelist := (freelist s)[cpu := p]\<rparr>"
    have e: "(\<lambda>_. 0)(k := 0) = (\<lambda>_. 0 :: int)" for k :: nat by auto
    have run: "kfree cpu p (s\<lparr>cnt := (cnt s)(p div PGSIZE := 1)\<rparr>) = (BRet (), s')"
      using pp B(4) e by (cases s) (auto simp: kfree_def pages_def s'_def i32_def Let_def)
    have t: "touched p s s'" by (auto simp: s'_def touched_def inpage_def st_other memset_other)
    have pg: "pages s' = pages s" by (rule touched_pages [OF t])
    have sub: "set ps \<subseteq> pages s" "p \<notin> set ps" using ps(3) by auto
    have "freelist s ! cpu < 2 ^ 64" using ps(1) sub(1) pages_less(1) [of "freelist s ! cpu" s] by (cases ps) auto
    then have "ld64 (mem s') p = freelist s ! cpu" by (simp add: s'_def)
    moreover have "chain (mem s') (freelist s ! cpu) ps" using chain_touched [OF t pp sub] ps(1) by simp
    ultimately have "chain (mem s') p (p # ps)" using B by auto
    moreover have "{q \<in> pages s. q < p + PGSIZE} = insert p {q \<in> pages s. q < p}"
    proof -
      have "q = p" if "q \<in> pages s" "p \<le> q" "q < p + PGSIZE" for q
        using inpage_unique [of p q q] that B(1) pages_less(2) [OF that(1)] by (simp add: inpage_def)
      then show ?thesis using pp by (auto simp: not_less [symmetric])
    qed
    ultimately have "booting cpu (p + PGSIZE) s'" using B sub(2) ps(2,3) less.prems(2) pg
      unfolding booting_def by (auto simp: s'_def intro!: exI [of _ "p # ps"])
    from less.hyps [OF _ this less.prems(2)] True pg show ?thesis
      by (subst freerange_loop.simps) (auto simp: run)
  qed
qed

lemma PGROUNDUP_spec:
  assumes "k < 2 ^ 63"
  shows "PGROUNDUP k mod PGSIZE = 0" "k \<le> PGROUNDUP k" "q mod PGSIZE = 0 \<Longrightarrow> k \<le> q \<Longrightarrow> PGROUNDUP k \<le> q"
proof -
  have e: "PGROUNDUP k = (k + 4095) div PGSIZE * PGSIZE" using assms by (simp add: PGROUNDUP_def)
  show "PGROUNDUP k mod PGSIZE = 0" by (simp add: e)
  have "k + 4095 = (k + 4095) div PGSIZE * PGSIZE + (k + 4095) mod PGSIZE" by simp
  moreover have "(k + 4095) mod PGSIZE < PGSIZE" by simp
  ultimately show "k \<le> PGROUNDUP k" unfolding e by linarith
  assume q: "q mod PGSIZE = 0" "k \<le> q"
  then obtain j where j: "q = PGSIZE * j" by auto
  have "(k + 4095) div PGSIZE \<le> (q + 4095) div PGSIZE" using q(2) by (intro div_le_mono) simp
  also have "(q + 4095) div PGSIZE = j" by (simp add: j)
  finally show "PGROUNDUP k \<le> q" by (simp add: e j)
qed

text \<open>Memory at start-up: nothing is allocated and all lists are empty.\<close>

definition cold_mm :: "'z mm_scheme \<Rightarrow> bool" where
  "cold_mm s \<longleftrightarrow> 0 < kend s \<and> kend s < 2 ^ 63 \<and> cnt s = (\<lambda>_. 0) \<and> freelist s = replicate NCPU 0"

lemma kinit_spec:
  assumes "cold_mm s" "cpu < NCPU"
  shows "\<exists>s'. kinit cpu s = (BRet (), s') \<and> kmem_inv s' \<and> pages s' = pages s \<and> free_pages s' = pages s"
proof -
  have k: "kend s < 2 ^ 63" using assms(1) by (simp add: cold_mm_def)
  note P = PGROUNDUP_spec [OF k]
  have "q \<notin> {q \<in> pages s. q < PGROUNDUP (kend s)}" for q using P(3) [of q] by (auto simp: pages_def)
  then have "booting cpu (PGROUNDUP (kend s)) s"
    using assms P(1,2) by (auto simp: booting_def cold_mm_def intro!: exI [of _ "[]"])
  from freerange_loop_spec [OF this assms(2)] obtain s' p' where s': "kinit cpu s = (BRet (), s')" "booting cpu p' s'" "PHYSTOP \<le> p'"
    "pages s' = pages s" by (auto simp: kinit_def freerange_def)
  from s'(2) obtain ps where B: "0 < kend s'" "cnt s' = (\<lambda>_. 0)" "length (freelist s') = NCPU"
    "\<And>i. i < NCPU \<Longrightarrow> i \<noteq> cpu \<Longrightarrow> freelist s' ! i = 0"
    and ps: "chain (mem s') (freelist s' ! cpu) ps" "distinct ps" "set ps = {q \<in> pages s'. q < p'}" by (auto simp: booting_def)
  have "q < p'" if "q \<in> pages s'" for q using pages_less(1) [OF that] s'(3) by simp
  then have "set ps = pages s'" using ps(3) by auto
  moreover have f: "free_pages s' = pages s'" using B(2) by (auto simp: free_pages_def refs_to_def)
  moreover have "concat ((replicate NCPU [])[cpu := ps]) = ps"
    using concat_upd [of cpu "replicate NCPU []" ps] assms(2) by simp
  moreover have "chain (mem s') (freelist s' ! i) ((replicate NCPU [])[cpu := ps] ! i)" if "i < NCPU" for i
    using ps(1) B(4) [OF that] that by (cases "i = cpu") simp_all
  ultimately have "kmem_lists s' ((replicate NCPU [])[cpu := ps])" using ps(2) by (simp add: kmem_lists_def)
  then have "kmem_inv s'" using B by (auto simp: kmem_inv_def refs_to_def)
  with s' f show ?thesis by simp
qed

lemma kmem_use_pool: "kmem_use x y \<Longrightarrow> pool.use x y"
proof (induction rule: kmem_use.induct)
  case (wr p H a s v)
  then show ?case by (intro pool.use.wr) (simp_all add: inpage_def)
qed (blast intro: pool.use.intros)+

lemma kmem_run_pool: "kmem_use\<^sup>*\<^sup>* x y \<Longrightarrow> pool.use\<^sup>*\<^sup>* x y"
  by (induction rule: rtranclp_induct) (auto intro: rtranclp.rtrancl_into_rtrancl kmem_use_pool)

subsection \<open>The number of free bytes\<close>

lemma run_bytes_chain:
  "chain m p ps \<Longrightarrow> dst + PGSIZE * length ps < 2 ^ 64 \<Longrightarrow> run_bytes m p dst = Some (dst + PGSIZE * length ps)"
proof (induction ps arbitrary: p dst)
  case (Cons q qs)
  then have "run_bytes m (ld64 m q) (dst + PGSIZE) = Some (dst + PGSIZE + PGSIZE * length qs)" by simp
  then show ?case using Cons.prems by (subst run_bytes.simps) simp
qed (simp add: run_bytes.simps)

lemma card_pages: "finite (pages s)" "PGSIZE * card (pages s) < 2 ^ 64"
proof -
  have sub: "pages s \<subseteq> (\<lambda>k. PGSIZE * k) ` {..<PHYSTOP}" by (auto simp: pages_def image_iff)
  show "finite (pages s)" by (rule finite_subset [OF sub]) simp
  have "card (pages s) \<le> card ((\<lambda>k. PGSIZE * k) ` {..<PHYSTOP})" by (rule card_mono [OF _ sub]) simp
  also have "\<dots> \<le> PHYSTOP" using card_image_le [of "{..<PHYSTOP}"] by simp
  finally show "PGSIZE * card (pages s) < 2 ^ 64" by simp
qed

lemma freebytes_fold:
  assumes "\<And>i. i \<in> set is \<Longrightarrow> chain m (f i) (L ! i)" "d + PGSIZE * sum_list (map (\<lambda>i. length (L ! i)) is) < 2 ^ 64"
  shows "fold (\<lambda>i d. Option.bind d (run_bytes m (f i))) is (Some d) = Some (d + PGSIZE * sum_list (map (\<lambda>i. length (L ! i)) is))"
  using assms
proof (induction "is" arbitrary: d)
  case (Cons i js)
  have "run_bytes m (f i) d = Some (d + PGSIZE * length (L ! i))"
    using Cons.prems by (intro run_bytes_chain) simp_all
  then have "fold (\<lambda>i d. Option.bind d (run_bytes m (f i))) (i # js) (Some d) =
      fold (\<lambda>i d. Option.bind d (run_bytes m (f i))) js (Some (d + PGSIZE * length (L ! i)))" by simp
  also have "\<dots> = Some (d + PGSIZE * length (L ! i) + PGSIZE * sum_list (map (\<lambda>i. length (L ! i)) js))"
    using Cons.prems by (intro Cons.IH) simp_all
  finally show ?case by simp
qed simp

subsection \<open>Properties\<close>

text \<open>
  C17. The allocator never hands out a page that somebody holds. \<^verbatim>\<open>kinit\<close> returns and frees every page
  between the end of the kernel and \<^verbatim>\<open>PHYSTOP\<close>. Then, however the users on all CPUs allocate, free, share and write
  to the pages they hold, the reference count of each page is the number of references held, and the next
  allocation returns a page that nobody holds, or 0 when every page is held; a held page can always
  be freed without panic.
\<close>

theorem kalloc_exclusive:
  assumes "cold_mm s" "cpu < NCPU"
  shows "\<exists>s0. kinit cpu s = (BRet (), s0) \<and>
    (\<forall>s' H c. kmem_use\<^sup>*\<^sup>* (s0, {#}) (s', H) \<and> c < NCPU \<longrightarrow>
       (\<forall>p \<in> pages s. refs_to s' p = int (count H p)) \<and>
       (\<exists>p t. kalloc_try c s' = (p, t) \<and> (if pages s \<subseteq> set_mset H then p = 0 else p \<in> pages s \<and> p \<notin># H)) \<and>
       (\<forall>p \<in># H. fst (kfree c p s') = BRet ()))"
proof -
  from kinit_spec [OF assms] obtain s0 where s0: "kinit cpu s = (BRet (), s0)" "kmem_inv s0" "pages s0 = pages s" "free_pages s0 = pages s" by blast
  have a0: "pool.accounted (s0, {#})" using s0 by (auto simp: pool.accounted_def free_pages_def)
  have "(\<forall>p \<in> pages s. refs_to s' p = int (count H p)) \<and>
       (\<exists>p t. kalloc_try c s' = (p, t) \<and> (if pages s \<subseteq> set_mset H then p = 0 else p \<in> pages s \<and> p \<notin># H)) \<and>
       (\<forall>p \<in># H. fst (kfree c p s') = BRet ())" if r: "kmem_use\<^sup>*\<^sup>* (s0, {#}) (s', H)" and c: "c < NCPU" for s' H c
  proof -
    note run = kmem_run_pool [OF r]
    have a: "pool.accounted (s', H)" by (rule pool.run_accounted [OF run a0])
    have pg: "pages s' = pages s" using pool.run_pg [OF run a0] s0(3) by simp
    note A = pool.accountedD [OF a]
    have "fst (kfree c p s') = BRet ()" if "p \<in># H" for p
      using pool.free_ok [OF A(1) c A(2) [OF that] A(4) [OF that]] by auto
    then show ?thesis using A(3) pool.alloc_fresh [OF a c] unfolding pg by blast
  qed
  with s0(1) show ?thesis by blast
qed

text \<open>
  \<^verbatim>\<open>freebytes\<close> ends: no free list has a cycle, and the result is the size of all free pages together.
\<close>

theorem freebytes_exact:
  assumes "kmem_inv s"
  shows "freebytes s = Some (PGSIZE * card (free_pages s))"
proof -
  from kmem_invD(3) [OF assms] obtain L where L: "length L = NCPU" "\<And>i. i < NCPU \<Longrightarrow> chain (mem s) (freelist s ! i) (L ! i)"
    "distinct (concat L)" "set (concat L) = free_pages s" by (auto simp: kmem_lists_def)
  have "sum_list (map (\<lambda>i. length (L ! i)) [0..<8]) = length (concat L)"
    unfolding L(1) [symmetric] length_concat by (metis map_nth map_map comp_apply map_cong)
  also have "\<dots> = card (free_pages s)" using distinct_card [OF L(3)] L(4) by simp
  finally have n: "sum_list (map (\<lambda>i. length (L ! i)) [0..<8]) = card (free_pages s)" .
  have "card (free_pages s) \<le> card (pages s)" by (rule card_mono [OF card_pages(1)]) (auto simp: free_pages_def)
  then have "0 + PGSIZE * card (free_pages s) < 2 ^ 64" using card_pages(2) [of s] by linarith
  then have "fold (\<lambda>i d. Option.bind d (run_bytes (mem s) (freelist s ! i))) [0..<8] (Some 0) = Some (0 + PGSIZE * card (free_pages s))"
    unfolding n [symmetric] by (intro freebytes_fold) (use L(2) in auto)
  then show ?thesis by (simp add: freebytes_def)
qed

text \<open>A machine with two free pages.\<close>

definition mm0 :: mm where
  "mm0 = \<lparr>mem = (\<lambda>_. 0), cnt = (\<lambda>_. 0), freelist = replicate NCPU 0, kend = 2281693184\<rparr>"

lemma mm0_cold: "cold_mm mm0"
  by (simp add: cold_mm_def mm0_def)

lemma mm0_pages: "pages mm0 = {2281693184, 2281697280}"
proof -
  have "q = 2281693184 \<or> q = 2281697280" if q: "q mod PGSIZE = 0" "2281693184 \<le> q" "q < PHYSTOP" for q :: nat
  proof -
    obtain k where k: "q = PGSIZE * k" using q(1) by auto
    have "k = 557054 \<or> k = 557055" using q(2,3) unfolding k by simp arith
    then show ?thesis using k by auto
  qed
  then show ?thesis by (auto simp: pages_def mm0_def)
qed

theorem kalloc_exclusive_witness:
  "\<exists>s0 p s1 q s2. kinit 0 mm0 = (BRet (), s0) \<and> kalloc_try 0 s0 = (p, s1) \<and> kalloc_try 1 s1 = (q, s2) \<and>
     {p, q} = pages mm0 \<and> p \<noteq> q \<and> fst (kalloc_try 2 s2) = 0"
proof -
  have "(0 :: nat) < NCPU" by simp
  from kalloc_exclusive [OF mm0_cold this] obtain s0 where s0: "kinit 0 mm0 = (BRet (), s0)"
    and K: "\<And>s' H c. kmem_use\<^sup>*\<^sup>* (s0, {#}) (s', H) \<Longrightarrow> c < NCPU \<Longrightarrow>
      \<exists>p t. kalloc_try c s' = (p, t) \<and> (if pages mm0 \<subseteq> set_mset H then p = 0 else p \<in> pages mm0 \<and> p \<notin># H)" by blast
  obtain p s1 where p: "kalloc_try 0 s0 = (p, s1)" "p \<in> pages mm0" using K [of s0 "{#}" 0] by (auto simp: mm0_pages)
  have p0: "p \<noteq> 0" using p(2) by (auto simp: mm0_pages)
  have r1: "kmem_use\<^sup>*\<^sup>* (s0, {#}) (s1, {#p#})" using kmem_use.get [OF _ p(1), of "{#}"] p0 by auto
  obtain q s2 where q: "kalloc_try 1 s1 = (q, s2)" "q \<in> pages mm0" "q \<noteq> p" using K [OF r1, of 1] by (auto simp: mm0_pages split: if_splits)
  have q0: "q \<noteq> 0" using q(2) by (auto simp: mm0_pages)
  have "kmem_use (s1, {#p#}) (s2, {#q, p#})" using kmem_use.get [OF _ q(1), of "{#p#}"] q0 by auto
  then have r2: "kmem_use\<^sup>*\<^sup>* (s0, {#}) (s2, {#q, p#})" using r1 by simp
  have e: "{p, q} = pages mm0" using p(2) q(2,3) by (auto simp: mm0_pages)
  then have "pages mm0 \<subseteq> set_mset {#q, p#}" by auto
  then have "fst (kalloc_try 2 s2) = 0" using K [OF r2, of 2] by auto
  then show ?thesis using s0 p(1) q(1,3) e by blast
qed

theorem freebytes_exact_witness: "\<exists>s0. kinit 0 mm0 = (BRet (), s0) \<and> freebytes s0 = Some 8192"
proof -
  have "(0 :: nat) < NCPU" by simp
  from kinit_spec [OF mm0_cold this] obtain s0 where s0: "kinit 0 mm0 = (BRet (), s0)" "kmem_inv s0" "free_pages s0 = pages mm0" by blast
  from freebytes_exact [OF s0(2)] s0(1,3) show ?thesis by (simp add: mm0_pages)
qed

end
