(* ===== verification/Vm.thy ===== *)
theory Vm
  imports Kalloc
begin

section \<open>Page tables\<close>

text \<open>
  \<^verbatim>\<open>kernel/mm/vm.c\<close>, first part: the three-level page tables of a RISC-V machine, held in pages of the allocator's
  memory; looking an entry up, adding tables on the way, and mapping a range. The state \<open>vm\<close> adds the
  swap area (\<^verbatim>\<open>kernel/mm/swap.c\<close>) to the memory of the allocator.

  \<^verbatim>\<open>kalloc\<close> is here \<^verbatim>\<open>kalloc_try\<close>: that is what it is for a caller that holds a spin lock, as \<^verbatim>\<open>fork\<close>
  does, and for every caller while there is free memory and the medium-term scheduler is off. \<open>cpu\<close> is the CPU that runs the code.

  The lemmas show the tables as a tree of pages, what a write to an entry changes and what it keeps, and the exact effect of
  \<^verbatim>\<open>walk\<close> and \<^verbatim>\<open>mappages\<close> on entries, on the ownership of pages and on the number of free pages.
\<close>

unbundle bit_operations_syntax

abbreviation (input) MAXVA :: nat where "MAXVA \<equiv> 274877906944"
abbreviation (input) SWAP_PAGES :: nat where "SWAP_PAGES \<equiv> 512"
abbreviation (input) SWAP_BLOCKS_PER_PAGE :: nat where "SWAP_BLOCKS_PER_PAGE \<equiv> 4"
abbreviation (input) SWAP_PBUF_SIZE :: nat where "SWAP_PBUF_SIZE \<equiv> 64"

subsection \<open>Page table entries\<close>

definition PX :: "nat \<Rightarrow> nat \<Rightarrow> nat" where
  "PX level va = va div 2 ^ (12 + 9 * level) mod 512"

definition PA2PTE :: "nat \<Rightarrow> nat" where
  "PA2PTE pa = take_bit 64 (push_bit 10 (drop_bit 12 pa))"

definition PTE2PA :: "nat \<Rightarrow> nat" where
  "PTE2PA pte = take_bit 64 (push_bit 12 (drop_bit 10 pte))"

definition PTE_FLAGS :: "nat \<Rightarrow> nat" where
  "PTE_FLAGS pte = take_bit 10 pte"

definition PTE2SWAP :: "nat \<Rightarrow> nat" where
  "PTE2SWAP pte = drop_bit 10 pte"

definition SWAP2PTE :: "nat \<Rightarrow> nat" where
  "SWAP2PTE slot = take_bit 64 (push_bit 10 slot)"

abbreviation pte_V :: "nat \<Rightarrow> bool" where "pte_V pte \<equiv> bit pte 0"
abbreviation pte_W :: "nat \<Rightarrow> bool" where "pte_W pte \<equiv> bit pte 2"
abbreviation pte_U :: "nat \<Rightarrow> bool" where "pte_U pte \<equiv> bit pte 4"
abbreviation pte_A :: "nat \<Rightarrow> bool" where "pte_A pte \<equiv> bit pte 6"
abbreviation pte_F :: "nat \<Rightarrow> bool" where "pte_F pte \<equiv> bit pte 8"
abbreviation pte_S :: "nat \<Rightarrow> bool" where "pte_S pte \<equiv> bit pte 9"

record pbuf =
  pb_valid :: bool
  pb_slot :: nat
  pb_pa :: nat

record vm = mm +
  swapmap :: "nat list"
  swap_hint :: nat
  swapready :: bool
  swapstart :: nat
  swap_window_start :: nat
  swap_events :: nat
  swap_pbuf :: "pbuf list"
  swap_pbuf_hand :: nat
  swap_pbuf_cached :: nat
  swap_pbuf_hits :: nat
  swap_pbuf_misses :: nat
  sdisk :: "nat \<Rightarrow> block"

type_synonym 'a vop = "vm \<Rightarrow> 'a bout \<times> vm"

subsection \<open>Walking and mapping\<close>

definition ld_pte :: "nat \<Rightarrow> vm \<Rightarrow> nat" where
  "ld_pte a s = ld64 (mem s) a"

definition st_pte :: "nat \<Rightarrow> nat \<Rightarrow> vm \<Rightarrow> vm" where
  "st_pte a v s = s\<lparr>mem := st64 (mem s) a v\<rparr>"

text \<open>One turn of the loop of \<^verbatim>\<open>walk\<close>: the table below entry \<open>i\<close>, or none.\<close>

definition walk_turn :: "nat \<Rightarrow> bool \<Rightarrow> nat \<Rightarrow> nat \<Rightarrow> vm \<Rightarrow> nat option \<times> vm" where
  "walk_turn cpu alloc pagetable i s =
     (let a = pagetable + 8 * i; pte = ld_pte a s in
      if pte_V pte then (Some (PTE2PA pte), s)
      else if \<not> alloc then (None, s)
      else
        (let (p, s) = kalloc_try cpu s in
         if p = 0 then (None, s)
         else (Some p, st_pte a (PA2PTE p OR 1) (s\<lparr>mem := memset (mem s) p 0 PGSIZE\<rparr>))))"

definition walk :: "nat \<Rightarrow> nat \<Rightarrow> nat \<Rightarrow> bool \<Rightarrow> nat vop" where
  "walk cpu pagetable va alloc s =
     (if va \<ge> MAXVA then (BPanic ''walk'', s)
      else
        case walk_turn cpu alloc pagetable (PX 2 va) s of
          (None, s) \<Rightarrow> (BRet 0, s)
        | (Some pagetable, s) \<Rightarrow>
            (case walk_turn cpu alloc pagetable (PX 1 va) s of
               (None, s) \<Rightarrow> (BRet 0, s)
             | (Some pagetable, s) \<Rightarrow> (BRet (pagetable + 8 * PX 0 va), s)))"

text \<open>The first test is the panic of \<^verbatim>\<open>walk\<close>, which ends the loop when it runs out of addresses.\<close>

function mappages_loop :: "nat \<Rightarrow> nat \<Rightarrow> nat \<Rightarrow> nat \<Rightarrow> nat \<Rightarrow> nat \<Rightarrow> int vop" where
  "mappages_loop cpu pagetable lasta perm a pa s =
     (if a \<ge> MAXVA then (BPanic ''walk'', s)
      else
        case walk cpu pagetable a True s of
          (BRet pte, s) \<Rightarrow>
            (if pte = 0 then (BRet (- 1), s)
             else if pte_V (ld_pte pte s) then (BPanic ''remap'', s)
             else
               (let s = st_pte pte (PA2PTE pa OR perm OR 1) s in
                if a = lasta then (BRet 0, s)
                else mappages_loop cpu pagetable lasta perm (a + PGSIZE) ((pa + PGSIZE) mod 2 ^ 64) s))
        | (BPanic e, s) \<Rightarrow> (BPanic e, s)
        | (BSleep i, s) \<Rightarrow> (BSleep i, s))"
  by pat_completeness auto
termination by (relation "measure (\<lambda>(cpu, pt, lasta, perm, a, pa, s). MAXVA - a)") auto

declare mappages_loop.simps [simp del]

definition mappages :: "nat \<Rightarrow> nat \<Rightarrow> nat \<Rightarrow> nat \<Rightarrow> nat \<Rightarrow> nat \<Rightarrow> int vop" where
  "mappages cpu pagetable va sz pa perm =
     mappages_loop cpu pagetable (PGROUNDDOWN ((va + sz + (2 ^ 64 - 1)) mod 2 ^ 64)) perm (PGROUNDDOWN va) pa"

definition kvmmap :: "nat \<Rightarrow> nat \<Rightarrow> nat \<Rightarrow> nat \<Rightarrow> nat \<Rightarrow> nat \<Rightarrow> unit vop" where
  "kvmmap cpu kernel_pagetable va pa sz perm =
     bbind (mappages cpu kernel_pagetable va sz pa perm) (\<lambda>r s. if r \<noteq> 0 then (BPanic ''kvmmap'', s) else (BRet (), s))"

definition kvmpa :: "nat \<Rightarrow> nat \<Rightarrow> nat \<Rightarrow> nat vop" where
  "kvmpa cpu kernel_pagetable va =
     bbind (walk cpu kernel_pagetable va False) (\<lambda>pte s.
       if pte = 0 then (BPanic ''kvmpa'', s)
       else if \<not> pte_V (ld_pte pte s) then (BPanic ''kvmpa'', s)
       else (BRet ((PTE2PA (ld_pte pte s) + va mod PGSIZE) mod 2 ^ 64), s))"

subsection \<open>Lemmas on entries\<close>

lemma PA2PTE_id: "pa < 2 ^ 56 \<Longrightarrow> PA2PTE pa = push_bit 10 (drop_bit 12 pa)"
proof -
  assume a: "pa < 2 ^ 56"
  have "drop_bit 12 pa < 2 ^ 44" using a by (simp add: drop_bit_eq_div less_mult_imp_div_less)
  then have "push_bit 10 (drop_bit 12 pa) < 2 ^ 64" by (simp add: push_bit_eq_mult)
  then show ?thesis by (simp add: PA2PTE_def take_bit_nat_eq_self)
qed

lemma drop_small: "x < 2 ^ n \<Longrightarrow> drop_bit n x = 0" for x :: nat
  by (simp add: drop_bit_eq_div)

lemma drop_push [simp]: "drop_bit n (push_bit n x) = x" for x :: nat
  by (simp add: drop_bit_eq_div push_bit_eq_mult)

lemma or_small: "x < 2 ^ n \<Longrightarrow> y < 2 ^ n \<Longrightarrow> x OR y < 2 ^ n" for x y :: nat
  by (metis take_bit_nat_eq_self_iff take_bit_or)

lemma mk_pte:
  assumes "pa < 2 ^ 56" "pa mod PGSIZE = 0" "f < 1024"
  shows "PTE2PA (PA2PTE pa OR f) = pa" "PTE_FLAGS (PA2PTE pa OR f) = f" "PA2PTE pa OR f < 2 ^ 64"
    "k < 10 \<Longrightarrow> bit (PA2PTE pa OR f) k \<longleftrightarrow> bit f k"
proof -
  have d: "drop_bit 10 (PA2PTE pa OR f) = drop_bit 12 pa"
    using assms(3) drop_small [of f 10] by (simp add: PA2PTE_id [OF assms(1)] drop_bit_or)
  have "push_bit 12 (drop_bit 12 pa) = pa" using assms(2) div_mult_mod_eq [of pa PGSIZE] by (simp add: push_bit_eq_mult drop_bit_eq_div)
  then show "PTE2PA (PA2PTE pa OR f) = pa" using assms(1) unfolding PTE2PA_def d by (simp add: take_bit_nat_eq_self)
  have "take_bit 10 (push_bit 10 (drop_bit 12 pa)) = 0" by (simp add: take_bit_push_bit)
  then show "PTE_FLAGS (PA2PTE pa OR f) = f"
    using assms(3) by (simp add: PTE_FLAGS_def PA2PTE_id [OF assms(1)] take_bit_or take_bit_nat_eq_self)
  have "PA2PTE pa < 2 ^ 64" unfolding PA2PTE_def by (rule take_bit_nat_less_exp)
  then show "PA2PTE pa OR f < 2 ^ 64" using assms(3) by (intro or_small) simp_all
  show "k < 10 \<Longrightarrow> bit (PA2PTE pa OR f) k \<longleftrightarrow> bit f k"
    by (simp add: PA2PTE_id [OF assms(1)] bit_or_iff bit_push_bit_iff)
qed

lemma PX_parts: "PX 2 va = va div PGSIZE div 262144 mod 512" "PX 1 va = va div PGSIZE div 512 mod 512" "PX 0 va = va div PGSIZE mod 512"
  by (simp_all add: PX_def div_mult2_eq [symmetric])

lemma PX_less: "PX l va < 512"
  by (simp add: PX_def)

subsection \<open>The tree of tables\<close>

text \<open>
  The tables of an address space with root \<open>r\<close>: the root, those below its entries, and those below the entries
  of these. \<open>tab m r n\<close> is the page of table \<open>n\<close>, and \<open>pte_of m r v\<close> the entry for page number \<open>v\<close>, 0 if there is no table for it.
\<close>

datatype node = Root | Mid nat | Low nat nat

fun node_ok :: "node \<Rightarrow> bool" where
  "node_ok Root = True"
| "node_ok (Mid i) = (i < 512)"
| "node_ok (Low i j) = (i < 512 \<and> j < 512)"

definition sub :: "(nat \<Rightarrow> nat) \<Rightarrow> nat \<Rightarrow> nat \<Rightarrow> nat option" where
  "sub m p i = (let e = ld64 m (p + 8 * i) in if pte_V e then Some (PTE2PA e) else None)"

fun tab :: "(nat \<Rightarrow> nat) \<Rightarrow> nat \<Rightarrow> node \<Rightarrow> nat option" where
  "tab m r Root = Some r"
| "tab m r (Mid i) = sub m r i"
| "tab m r (Low i j) = Option.bind (sub m r i) (\<lambda>p. sub m p j)"

definition low_of :: "nat \<Rightarrow> node" where
  "low_of v = Low (v div 262144 mod 512) (v div 512 mod 512)"

definition pte_of :: "(nat \<Rightarrow> nat) \<Rightarrow> nat \<Rightarrow> nat \<Rightarrow> nat" where
  "pte_of m r v = (case tab m r (low_of v) of None \<Rightarrow> 0 | Some p \<Rightarrow> ld64 m (p + 8 * (v mod 512)))"

abbreviation (input) NVPN :: nat where "NVPN \<equiv> 67108864"

definition nodes :: "(nat \<Rightarrow> nat) \<Rightarrow> nat \<Rightarrow> nat set" where
  "nodes m r = {p. \<exists>n. node_ok n \<and> tab m r n = Some p}"

fun child :: "node \<Rightarrow> nat \<Rightarrow> node" where
  "child Root k = Mid k"
| "child (Mid i) k = Low i k"
| "child (Low i j) k = Low i j"

fun inner :: "node \<Rightarrow> bool" where
  "inner (Low i j) = False"
| "inner _ = True"

text \<open>An entry that is valid and neither readable, writable nor executable leads to a table.\<close>

definition to_table :: "nat \<Rightarrow> bool" where
  "to_table e \<longleftrightarrow> (pte_V e \<longrightarrow> \<not> bit e 1 \<and> \<not> bit e 2 \<and> \<not> bit e 3)"

definition tree_ok :: "(nat \<Rightarrow> nat) \<Rightarrow> nat \<Rightarrow> bool" where
  "tree_ok m r \<longleftrightarrow> (\<forall>p \<in> nodes m r. p mod PGSIZE = 0) \<and>
     (\<forall>n n' p. node_ok n \<and> node_ok n' \<and> tab m r n = Some p \<and> tab m r n' = Some p \<longrightarrow> n = n') \<and>
     (\<forall>n p i. node_ok n \<and> inner n \<and> tab m r n = Some p \<and> i < 512 \<longrightarrow> to_table (ld64 m (p + 8 * i))) \<and>
     (\<forall>i. 256 \<le> i \<and> i < 512 \<longrightarrow> sub m r i = None)"

lemma low_of_ok [simp]: "node_ok (low_of v)"
  by (simp add: low_of_def)

lemma nodesI: "node_ok n \<Longrightarrow> tab m r n = Some p \<Longrightarrow> p \<in> nodes m r"
  by (auto simp: nodes_def)

lemma tree_okD:
  assumes "tree_ok m r"
  shows "p \<in> nodes m r \<Longrightarrow> p mod PGSIZE = 0" "node_ok n \<Longrightarrow> node_ok n' \<Longrightarrow> tab m r n = Some p \<Longrightarrow> tab m r n' = Some p \<Longrightarrow> n = n'"
    "node_ok n \<Longrightarrow> inner n \<Longrightarrow> tab m r n = Some p \<Longrightarrow> i < 512 \<Longrightarrow> to_table (ld64 m (p + 8 * i))"
    "256 \<le> i \<Longrightarrow> i < 512 \<Longrightarrow> sub m r i = None"
  using assms unfolding tree_ok_def by blast+

lemma tab_Low_Mid: "tab m r (Low i j) = Some p \<Longrightarrow> \<exists>q. tab m r (Mid i) = Some q \<and> sub m q j = Some p"
  by (auto simp: Option.bind_eq_Some_conv)

text \<open>An entry lies within its table, and different entries do not overlap.\<close>

lemma entry_in: "i < 512 \<Longrightarrow> k < 8 \<Longrightarrow> inpage p (p + 8 * i + k)"
  by (simp add: inpage_def)

lemma ld_entry: "(\<And>a. inpage p a \<Longrightarrow> m' a = m a) \<Longrightarrow> i < 512 \<Longrightarrow> ld64 m' (p + 8 * i) = ld64 m (p + 8 * i)"
  by (rule ld_cong) (simp add: entry_in)

lemma sub_same: "(\<And>a. inpage p a \<Longrightarrow> m' a = m a) \<Longrightarrow> i < 512 \<Longrightarrow> sub m' p i = sub m p i"
proof -
  assume "\<And>a. inpage p a \<Longrightarrow> m' a = m a" "i < 512"
  then have "ld64 m' (p + 8 * i) = ld64 m (p + 8 * i)" by (rule ld_entry)
  then show ?thesis by (simp only: sub_def)
qed

lemma ld_st_entry: "v < 2 ^ 64 \<Longrightarrow> ld64 (st64 m (p + 8 * i) v) (p + 8 * j) = (if j = i then v else ld64 m (p + 8 * j))"
proof (cases "j = i")
  case False
  then have "p + 8 * j + 8 \<le> p + 8 * i \<or> p + 8 * i + 8 \<le> p + 8 * j" by auto
  then have "ld64 (st64 m (p + 8 * i) v) (p + 8 * j) = ld64 m (p + 8 * j)" by (rule ld_st_other)
  then show ?thesis using False by simp
qed simp

lemma st_entry_out: "i < 512 \<Longrightarrow> \<not> inpage p a \<Longrightarrow> st64 m (p + 8 * i) v a = m a"
  by (rule st_other) (auto simp: inpage_def)

lemma st_entry_page: "i < 512 \<Longrightarrow> p mod PGSIZE = 0 \<Longrightarrow> q mod PGSIZE = 0 \<Longrightarrow> q \<noteq> p \<Longrightarrow> inpage q a \<Longrightarrow> st64 m (p + 8 * i) v a = m a"
proof -
  assume i: "i < 512" and a: "p mod PGSIZE = 0" "q mod PGSIZE = 0" "q \<noteq> p" "inpage q a"
  have "\<not> inpage p a" using inpage_unique [OF a(4) _ a(2,1)] a(3) by blast
  then show ?thesis by (rule st_entry_out [OF i])
qed

text \<open>Memory outside the tables does not matter.\<close>

lemma tab_same:
  assumes "\<And>p a. p \<in> nodes m r \<Longrightarrow> inpage p a \<Longrightarrow> m' a = m a" "node_ok n"
  shows "tab m' r n = tab m r n"
proof -
  have s: "sub m' p i = sub m p i" if "p \<in> nodes m r" "i < 512" for p i
    by (rule sub_same) (use assms(1) that in auto)
  have r: "r \<in> nodes m r" by (rule nodesI [of Root]) simp_all
  show ?thesis
  proof (cases n)
    case (Low i j)
    have "sub m' p j = sub m p j" if "sub m r i = Some p" for p
      using nodesI [of "Mid i" m r p] that assms(2) Low by (intro s) simp_all
    then show ?thesis using s [OF r] assms(2) Low by (cases "sub m r i") simp_all
  qed (use s [OF r] assms(2) in simp_all)
qed

lemma nodes_same: "(\<And>p a. p \<in> nodes m r \<Longrightarrow> inpage p a \<Longrightarrow> m' a = m a) \<Longrightarrow> nodes m' r = nodes m r"
proof -
  assume *: "\<And>p a. p \<in> nodes m r \<Longrightarrow> inpage p a \<Longrightarrow> m' a = m a"
  have "tab m' r n = tab m r n" if "node_ok n" for n by (rule tab_same [OF *]) (use that in auto)
  then show ?thesis unfolding nodes_def by (intro Collect_cong ex_cong1 conj_cong refl) simp
qed

lemma pte_same: "(\<And>p a. p \<in> nodes m r \<Longrightarrow> inpage p a \<Longrightarrow> m' a = m a) \<Longrightarrow> pte_of m' r v = pte_of m r v"
proof -
  assume *: "\<And>p a. p \<in> nodes m r \<Longrightarrow> inpage p a \<Longrightarrow> m' a = m a"
  have t: "tab m' r (low_of v) = tab m r (low_of v)" by (rule tab_same [OF *]) simp_all
  show ?thesis
  proof (cases "tab m r (low_of v)")
    case (Some p)
    then have "p \<in> nodes m r" by (intro nodesI [of "low_of v"]) simp_all
    then have "ld64 m' (p + 8 * (v mod 512)) = ld64 m (p + 8 * (v mod 512))" by (intro ld_entry) (use * in auto)
    then show ?thesis by (simp add: pte_of_def t Some)
  qed (simp add: pte_of_def t)
qed

lemma tree_ok_same:
  assumes "tree_ok m r" "\<And>p a. p \<in> nodes m r \<Longrightarrow> inpage p a \<Longrightarrow> m' a = m a"
  shows "tree_ok m' r"
proof -
  have t: "tab m' r n = tab m r n" if "node_ok n" for n by (rule tab_same) (use assms(2) that in auto)
  have N: "nodes m' r = nodes m r" by (rule nodes_same) (use assms(2) in auto)
  show ?thesis
    unfolding tree_ok_def N
  proof (intro conjI allI impI ballI)
    fix n n' p assume "node_ok n \<and> node_ok n' \<and> tab m' r n = Some p \<and> tab m' r n' = Some p"
    then show "n = n'" using t [of n] t [of n'] by (intro tree_okD(2) [OF assms(1), of n n' p]) simp_all
  next
    fix n p and i :: nat assume a: "node_ok n \<and> inner n \<and> tab m' r n = Some p \<and> i < 512"
    then have p: "tab m r n = Some p" using t [of n] by simp
    have "ld64 m' (p + 8 * i) = ld64 m (p + 8 * i)" by (rule ld_entry) (use assms(2) nodesI [OF _ p] a in auto)
    then show "to_table (ld64 m' (p + 8 * i))" using tree_okD(3) [OF assms(1) _ _ p] a by simp
  next
    fix i assume "256 \<le> i \<and> i < (512 :: nat)"
    then show "sub m' r i = None" using t [of "Mid i"] tree_okD(4) [OF assms(1), of i] by simp
  qed (rule tree_okD(1) [OF assms(1)])
qed

subsection \<open>Changing an entry\<close>

lemma vpn_split: "v < 134217728 \<Longrightarrow> w < 134217728 \<Longrightarrow> low_of v = low_of w \<Longrightarrow> v mod 512 = w mod 512 \<Longrightarrow> v = w"
proof -
  assume a: "v < 134217728" "w < 134217728" "low_of v = low_of w" "v mod 512 = w mod 512"
  have d: "v div 512 div 512 = v div 262144" "w div 512 div 512 = w div 262144" by (simp_all add: div_mult2_eq [symmetric])
  have h: "v div 262144 mod 512 = v div 262144" "w div 262144 mod 512 = w div 262144"
    using a(1,2) by (simp_all add: less_mult_imp_div_less)
  have "v div 262144 = w div 262144" "v div 512 mod 512 = w div 512 mod 512" using a(3) h by (simp_all add: low_of_def)
  then have "v div 512 = w div 512" using d by (metis div_mult_mod_eq)
  with a(4) show "v = w" by (metis div_mult_mod_eq)
qed

text \<open>An entry of a lowest table is changed: the tables stay, and one entry of the address space changes.\<close>

lemma leaf_write:
  assumes t: "tree_ok m r" and p: "tab m r (low_of v) = Some p" and x: "x < 2 ^ 64" and v: "v < 134217728"
  defines "m' \<equiv> st64 m (p + 8 * (v mod 512)) x"
  shows "node_ok n \<Longrightarrow> tab m' r n = tab m r n" "w < 134217728 \<Longrightarrow> pte_of m' r w = (if w = v then x else pte_of m r w)"
    "tree_ok m' r"
proof -
  have k: "v mod 512 < 512" by simp
  have al: "q mod PGSIZE = 0" if "q \<in> nodes m r" for q using tree_okD(1) [OF t that] .
  have pn: "p \<in> nodes m r" by (rule nodesI [OF low_of_ok p])
  have l: "ld64 m' (q + 8 * i) = ld64 m (q + 8 * i)" if "node_ok n" "tab m r n = Some q" "n \<noteq> low_of v" "i < 512" for n q i
  proof (rule ld_entry)
    have q: "q \<in> nodes m r" by (rule nodesI [OF that(1,2)])
    have "q \<noteq> p" using tree_okD(2) [OF t that(1) low_of_ok that(2)] p that(3) by auto
    then show "m' a = m a" if "inpage q a" for a unfolding m'_def using al [OF q] al [OF pn] that by (intro st_entry_page [OF k]) auto
  qed (rule that)
  have s: "sub m' q i = sub m q i" if "node_ok n" "tab m r n = Some q" "n \<noteq> low_of v" "i < 512" for n q i
    unfolding sub_def l [OF that] ..
  have T: "tab m' r n = tab m r n" if "node_ok n" for n
  proof (cases n)
    case (Mid i)
    then show ?thesis using s [of Root r i] that by (simp add: low_of_def)
  next
    case (Low i j)
    have 1: "sub m' r i = sub m r i" using s [of Root r i] that Low by (simp add: low_of_def)
    have "sub m' q j = sub m q j" if "sub m r i = Some q" for q
      using s [of "Mid i" q j] that \<open>node_ok n\<close> Low by (simp add: low_of_def)
    then show ?thesis using Low 1 by (cases "sub m r i") simp_all
  qed simp
  then show "node_ok n \<Longrightarrow> tab m' r n = tab m r n" .
  have N: "nodes m' r = nodes m r" unfolding nodes_def using T by auto
  show "tree_ok m' r"
    unfolding tree_ok_def N
  proof (intro conjI allI impI ballI)
    fix n n' q assume a: "node_ok n \<and> node_ok n' \<and> tab m' r n = Some q \<and> tab m' r n' = Some q"
    then have "tab m r n = Some q" "tab m r n' = Some q" using T [of n] T [of n'] by auto
    then show "n = n'" using a by (intro tree_okD(2) [OF t]) auto
  next
    fix n q and i :: nat assume a: "node_ok n \<and> inner n \<and> tab m' r n = Some q \<and> i < 512"
    then have q: "tab m r n = Some q" using T [of n] by auto
    have "n \<noteq> low_of v" using a by (auto simp: low_of_def)
    then show "to_table (ld64 m' (q + 8 * i))" using l [OF _ q] tree_okD(3) [OF t _ _ q] a by simp
  next
    fix i assume "256 \<le> i \<and> i < (512 :: nat)"
    then show "sub m' r i = None" using T [of "Mid i"] tree_okD(4) [OF t, of i] by simp
  qed (rule al)
  assume w: "w < 134217728"
  show "pte_of m' r w = (if w = v then x else pte_of m r w)"
  proof (cases "tab m r (low_of w)")
    case None
    then show ?thesis using p T [of "low_of w"] by (auto simp: pte_of_def)
  next
    case (Some q)
    have qn: "q \<in> nodes m r" by (rule nodesI [OF low_of_ok Some])
    have e: "pte_of m' r w = ld64 m' (q + 8 * (w mod 512))" "pte_of m r w = ld64 m (q + 8 * (w mod 512))"
      using T [of "low_of w"] Some by (simp_all add: pte_of_def)
    show ?thesis
    proof (cases "q = p")
      case True
      then have lo: "low_of w = low_of v" using tree_okD(2) [OF t low_of_ok low_of_ok Some] p by simp
      have "w = v \<longleftrightarrow> w mod 512 = v mod 512" using vpn_split [OF w v lo] by auto
      then show ?thesis unfolding e unfolding m'_def True using ld_st_entry [OF x, of m p "v mod 512" "w mod 512"] by simp
    next
      case False
      then have "w \<noteq> v" using Some p by auto
      moreover have "ld64 m' (q + 8 * (w mod 512)) = ld64 m (q + 8 * (w mod 512))"
        unfolding m'_def by (rule ld_entry, rule st_entry_page [OF k al [OF pn] al [OF qn] False]) simp_all
      ultimately show ?thesis by (simp add: e)
    qed
  qed
qed

text \<open>A fresh, empty table is entered: no entry of the address space changes.\<close>

lemma tab_child: "inner n \<Longrightarrow> tab m r (child n k) = Option.bind (tab m r n) (\<lambda>p. sub m p k)"
  by (cases n) simp_all

lemma new_entry: "q < 2 ^ 56 \<Longrightarrow> q mod PGSIZE = 0 \<Longrightarrow> to_table (PA2PTE q OR 1)"
  using mk_pte(4) [of q 1] by (simp add: to_table_def bit_1_iff)

lemma new_table_sub:
  assumes t: "tree_ok m r" and n: "node_ok n0" "inner n0" "tab m r n0 = Some pp" and k: "k < 512"
    and q: "q \<notin> nodes m r" "q mod PGSIZE = 0" "q < 2 ^ 56"
    and m1: "m1 = (\<lambda>a. if inpage q a then 0 else m a)"
  defines "m' \<equiv> st64 m1 (pp + 8 * k) (PA2PTE q OR 1)"
  shows "i < 512 \<Longrightarrow> sub m' pp i = (if i = k then Some q else sub m pp i)"
    "p' \<in> nodes m r \<Longrightarrow> p' \<noteq> pp \<Longrightarrow> i < 512 \<Longrightarrow> ld64 m' (p' + 8 * i) = ld64 m (p' + 8 * i)"
    "i < 512 \<Longrightarrow> ld64 m' (q + 8 * i) = 0"
    "i < 512 \<Longrightarrow> to_table (ld64 m (pp + 8 * i)) \<Longrightarrow> to_table (ld64 m' (pp + 8 * i))"
proof -
  have ppn: "pp \<in> nodes m r" by (rule nodesI [OF n(1,3)])
  have al: "p mod PGSIZE = 0" if "p \<in> nodes m r" for p using tree_okD(1) [OF t that] .
  have x: "PA2PTE q OR 1 < 2 ^ 64" "pte_V (PA2PTE q OR 1)" "PTE2PA (PA2PTE q OR 1) = q"
    using mk_pte [OF q(3,2), of 1] by (simp_all add: bit_1_iff flip: One_nat_def)
  have out: "m1 a = m a" if "inpage p a" "p \<in> nodes m r" for p a
    using m1 inpage_unique [OF that(1) _ al [OF that(2)] q(2)] q(1) that(2) by auto
  have pl: "ld64 m' (pp + 8 * i) = (if i = k then PA2PTE q OR 1 else ld64 m (pp + 8 * i))" if i: "i < 512" for i
  proof -
    have "ld64 m' (pp + 8 * i) = (if i = k then PA2PTE q OR 1 else ld64 m1 (pp + 8 * i))"
      unfolding m'_def by (rule ld_st_entry [OF x(1)])
    moreover have "ld64 m1 (pp + 8 * i) = ld64 m (pp + 8 * i)" by (rule ld_entry [OF out [OF _ ppn] i])
    ultimately show ?thesis by simp
  qed
  show "sub m' pp i = (if i = k then Some q else sub m pp i)" if i: "i < 512" using pl [OF i] x(2,3) by (simp add: sub_def)
  show "to_table (ld64 m' (pp + 8 * i))" if "i < 512" "to_table (ld64 m (pp + 8 * i))"
    using pl [OF that(1)] that(2) new_entry [OF q(3,2)] by simp
  have st: "ld64 m' (p' + 8 * i) = ld64 m1 (p' + 8 * i)" if "p' mod PGSIZE = 0" "p' \<noteq> pp" "i < 512" for p' i
    unfolding m'_def by (rule ld_entry, rule st_entry_page [OF k al [OF ppn] that(1,2)]) (use that(3) in simp_all)
  show "ld64 m' (p' + 8 * i) = ld64 m (p' + 8 * i)" if "p' \<in> nodes m r" "p' \<noteq> pp" "i < 512"
    using st [OF al [OF that(1)] that(2,3)] ld_entry [OF out [OF _ that(1)] that(3)] by simp
  show "ld64 m' (q + 8 * i) = 0" if i: "i < 512"
  proof -
    have "ld64 m' (q + 8 * i) = ld64 m1 (q + 8 * i)" using st [OF q(2) _ i] q(1) ppn by blast
    also have "\<dots> = ld (\<lambda>_. 0) 0 8" by (rule ld_cong) (use m1 entry_in [OF i] in auto)
    also have "\<dots> = 0" by code_simp
    finally show ?thesis .
  qed
qed

lemma new_table:
  assumes t: "tree_ok m r" and n: "node_ok n0" "inner n0" "tab m r n0 = Some pp" and k: "k < 512" "sub m pp k = None"
    and q: "q \<notin> nodes m r" "q mod PGSIZE = 0" "q < 2 ^ 56"
    and m1: "m1 = (\<lambda>a. if inpage q a then 0 else m a)"
  defines "m' \<equiv> st64 m1 (pp + 8 * k) (PA2PTE q OR 1)"
  shows "node_ok n \<Longrightarrow> tab m' r n = (if n = child n0 k then Some q else tab m r n)"
    "pte_of m' r v = pte_of m r v"
    "node_ok n \<Longrightarrow> inner n \<Longrightarrow> tab m' r n = Some p \<Longrightarrow> i < 512 \<Longrightarrow> to_table (ld64 m' (p + 8 * i))"
proof -
  note N = new_table_sub [OF t n k(1) q m1, folded m'_def]
  have S: "sub m' p i = (if n1 = n0 \<and> i = k then Some q else sub m p i)" if "node_ok n1" "tab m r n1 = Some p" "i < 512" for n1 p i
  proof (cases "p = pp")
    case True
    then have "n1 = n0" using tree_okD(2) [OF t that(1) n(1) that(2)] n(3) by simp
    then show ?thesis using N(1) [OF that(3)] True by simp
  next
    case False
    then have "n1 \<noteq> n0" using that(2) n(3) by auto
    moreover have "ld64 m' (p + 8 * i) = ld64 m (p + 8 * i)" by (rule N(2) [OF nodesI [OF that(1,2)] False that(3)])
    ultimately show ?thesis by (simp add: sub_def)
  qed
  have S0: "sub m' q i = None" if "i < 512" for i using N(3) [OF that] by (simp add: sub_def)
  have T: "tab m' r n = (if n = child n0 k then Some q else tab m r n)" if ok: "node_ok n" for n
  proof (cases n)
    case Root
    then show ?thesis using n(2) by (cases n0) auto
  next
    case (Mid i)
    then show ?thesis using S [of Root r i] ok n(2) by (cases n0) auto
  next
    case (Low i j)
    have 1: "sub m' r i = (if n0 = Root \<and> i = k then Some q else sub m r i)" using S [of Root r i] ok Low by auto
    have 2: "sub m' p j = (if n0 = Mid i \<and> j = k then Some q else sub m p j)" if "sub m r i = Some p" for p
      using S [of "Mid i" p j] that ok Low by auto
    show ?thesis
    proof (cases "n0 = Root \<and> i = k")
      case True
      then show ?thesis using Low ok 1 S0 n(3) k(2) by auto
    next
      case False
      then show ?thesis using Low ok 1 2 n by (cases n0; cases "sub m r i") auto
    qed
  qed
  then show "node_ok n \<Longrightarrow> tab m' r n = (if n = child n0 k then Some q else tab m r n)" .
  show "to_table (ld64 m' (p + 8 * i))" if a: "node_ok n" "inner n" "tab m' r n = Some p" "i < 512"
  proof (cases "n = child n0 k")
    case True
    then have "p = q" using T [OF a(1)] a(3) by simp
    then show ?thesis using N(3) [OF a(4)] by (simp add: to_table_def)
  next
    case False
    then have p: "tab m r n = Some p" using T [OF a(1)] a(3) by simp
    note e = tree_okD(3) [OF t a(1,2) p a(4)]
    show ?thesis
    proof (cases "p = pp")
      case True
      then show ?thesis using N(4) [OF a(4)] e by simp
    next
      case False
      then show ?thesis using N(2) [OF nodesI [OF a(1) p] False a(4)] e by simp
    qed
  qed
  show "pte_of m' r v = pte_of m r v"
  proof (cases "low_of v = child n0 k")
    case True
    have "tab m r (low_of v) = None" unfolding True tab_child [OF n(2)] by (simp add: n(3) k(2))
    moreover have "tab m' r (low_of v) = Some q" using T [OF low_of_ok, of v] True by simp
    ultimately show ?thesis using N(3) [of "v mod 512"] by (simp add: pte_of_def)
  next
    case False
    then have tt: "tab m' r (low_of v) = tab m r (low_of v)" using T [OF low_of_ok, of v] by simp
    show ?thesis
    proof (cases "tab m r (low_of v)")
      case (Some p)
      then have "p \<noteq> pp" using tree_okD(2) [OF t low_of_ok n(1) Some] n(2,3) by (cases n0) (auto simp: low_of_def)
      then have "ld64 m' (p + 8 * (v mod 512)) = ld64 m (p + 8 * (v mod 512))" by (intro N(2) nodesI [OF low_of_ok Some]) simp_all
      then show ?thesis by (simp add: pte_of_def tt Some)
    qed (simp add: pte_of_def tt)
  qed
qed

text \<open>A tree in which one node more has a page: used for a new table.\<close>

lemma nodes_insert:
  assumes "\<And>n. node_ok n \<Longrightarrow> tab m' r n = (if n = c then Some q else tab m r n)" "node_ok c" "tab m r c = None"
  shows "nodes m' r = insert q (nodes m r)"
proof (intro set_eqI iffI)
  fix p assume "p \<in> nodes m' r"
  then obtain n where "node_ok n" "tab m' r n = Some p" by (auto simp: nodes_def)
  then show "p \<in> insert q (nodes m r)" using assms(1) [of n] by (auto simp: nodes_def split: if_splits)
next
  fix p assume "p \<in> insert q (nodes m r)"
  then show "p \<in> nodes m' r"
  proof
    assume "p = q"
    then show ?thesis using assms(1) [OF assms(2)] assms(2) by (auto intro: nodesI [of c])
  next
    assume "p \<in> nodes m r"
    then obtain n where n: "node_ok n" "tab m r n = Some p" by (auto simp: nodes_def)
    then have "n \<noteq> c" using assms(3) by auto
    then show ?thesis using assms(1) [of n] n by (intro nodesI [of n]) auto
  qed
qed

lemma tree_ok_insert:
  assumes T: "\<And>n. node_ok n \<Longrightarrow> tab m' r n = (if n = c then Some q else tab m r n)" and c: "node_ok c" "tab m r c = None"
    and up: "\<And>i. c = Mid i \<Longrightarrow> i < 256" and t: "tree_ok m r" and q: "q \<notin> nodes m r" "q mod PGSIZE = 0"
    and e: "\<And>n p i. node_ok n \<Longrightarrow> inner n \<Longrightarrow> tab m' r n = Some p \<Longrightarrow> i < 512 \<Longrightarrow> to_table (ld64 m' (p + 8 * i))"
  shows "tree_ok m' r"
proof -
  have N: "nodes m' r = insert q (nodes m r)" by (rule nodes_insert [OF _ c]) (rule T)
  show ?thesis
    unfolding tree_ok_def N
  proof (intro conjI allI impI ballI)
    show "p mod PGSIZE = 0" if "p \<in> insert q (nodes m r)" for p using that q(2) tree_okD(1) [OF t] by blast
    fix n n' p assume a: "node_ok n \<and> node_ok n' \<and> tab m' r n = Some p \<and> tab m' r n' = Some p"
    have "n = c \<and> p = q \<or> tab m r n = Some p \<and> p \<noteq> q" if "node_ok n" "tab m' r n = Some p" for n
      using T [OF that(1)] that q(1) nodesI [OF that(1), of m r p] by (cases "n = c") auto
    from this [of n] this [of n'] a show "n = n'" using tree_okD(2) [OF t, of n n' p] by blast
  next
    fix i assume "256 \<le> i \<and> i < (512 :: nat)"
    then show "sub m' r i = None" using T [of "Mid i"] tree_okD(4) [OF t, of i] up [of i] by auto
  qed (use e in blast)
qed

subsection \<open>Owning pages\<close>

text \<open>
  The allocator's contract with the references counted: \<open>H\<close> is the multiset of all references that are held.
\<close>

lemma kalloc_held:
  assumes "pool.accounted (s, H)" "cpu < NCPU"
  shows "(kalloc_try cpu s = (0, s) \<and> free_pages s = {}) \<or>
    (\<exists>p s'. kalloc_try cpu s = (p, s') \<and> p \<in> pages s \<and> p \<noteq> 0 \<and> p \<notin># H \<and> pool.accounted (s', add_mset p H) \<and> touched p s s')"
proof -
  note A = pool.accountedD [OF assms(1)]
  show ?thesis
  proof (cases "free_pages s = {}")
    case True
    then show ?thesis using kalloc_try_spec(1) [OF A(1) assms(2)] by blast
  next
    case False
    from kalloc_try_spec(2) [OF A(1) assms(2) this] obtain p s' where s': "kalloc_try cpu s = (p, s')" "p \<in> free_pages s" "touched p s s'" by blast
    then have p: "p \<in> pages s" "refs_to s p = 0" by (auto simp: free_pages_def)
    then have nz: "p \<noteq> 0" using pool.no_null [OF A(1)] by metis
    moreover have "p \<notin># H" using A(3) [OF p(1)] p(2) by (simp add: not_in_iff)
    moreover have "pool.accounted (s', add_mset p H)"
      using pool.use_accounted [OF pool.use.get [OF assms(2) s'(1)] assms(1)] nz by simp
    ultimately show ?thesis using s' p(1) by blast
  qed
qed

lemma kfree_held:
  assumes "pool.accounted (s, add_mset p H)" "cpu < NCPU"
  shows "\<exists>s'. kfree cpu p s = (BRet (), s') \<and> pool.accounted (s', H) \<and> touched p s s' \<and> (p \<in># H \<longrightarrow> mem s' = mem s)"
proof -
  note A = pool.accountedD [OF assms(1)]
  have p: "p \<in> pages s" "0 < refs_to s p" using A(2,4) [of p] by simp_all
  from kfree_spec [OF A(1) assms(2) p] obtain s' where s': "kfree cpu p s = (BRet (), s')" "touched p s s'" "refs_to s p \<noteq> 1 \<longrightarrow> mem s' = mem s"
    by blast
  have "pool.accounted (s', H)" using pool.use_accounted [OF pool.use.put [OF assms(2), of p "add_mset p H" s] assms(1)] s'(1) by simp
  moreover have "refs_to s p \<noteq> 1" if "p \<in># H"
    using A(3) [OF p(1)] that by (simp flip: count_greater_zero_iff)
  ultimately show ?thesis using s' by blast
qed

lemma kaddrefcnt_held:
  assumes "pool.accounted (s, H)" "p \<in># H" "count H p < 2147483647"
  shows "\<exists>s'. kaddrefcnt p s = (0, s') \<and> pool.accounted (s', add_mset p H) \<and> touched p s s' \<and> mem s' = mem s"
proof -
  note A = pool.accountedD [OF assms(1)]
  have "refs_to s p < 2147483647" using A(3) [OF A(2) [OF assms(2)]] assms(3) by simp
  from kaddrefcnt_spec [OF A(1) A(2) [OF assms(2)] A(4) [OF assms(2)] this] obtain s' where
    s': "kaddrefcnt p s = (0, s')" "touched p s s'" "mem s' = mem s" by blast
  have "pool.accounted (s', add_mset p H)" using pool.use_accounted [OF pool.use.dup [OF assms(2,3), of s] assms(1)] s'(1) by simp
  then show ?thesis using s' by blast
qed

lemma write_held:
  assumes "pool.accounted (s, H)" "p \<in># H" "\<And>a. \<not> inpage p a \<Longrightarrow> m a = mem s a"
  shows "pool.accounted (s\<lparr>mem := m\<rparr>, H)"
proof -
  note A = pool.accountedD [OF assms(1)]
  have "kmem_inv (s\<lparr>mem := m\<rparr>)" by (rule write_page_inv [OF A(1) A(2) [OF assms(2)] A(4) [OF assms(2)]]) (rule assms(3))
  then show ?thesis using assms(1) by (simp add: pool.accounted_def pages_def refs_to_def)
qed

text \<open>
  \<open>tables s r X\<close>: the address space of root \<open>r\<close> is a tree of tables, each table page is referred to once, by the tree, and
  \<open>X\<close> are all other references. \<open>kept X s s'\<close>: the bytes of the pages of \<open>X\<close> and the state beyond memory are as before.
\<close>

definition tables :: "vm \<Rightarrow> nat \<Rightarrow> nat multiset \<Rightarrow> bool" where
  "tables s r X \<longleftrightarrow> pool.accounted (s, mset_set (nodes (mem s) r) + X) \<and> tree_ok (mem s) r \<and> finite (nodes (mem s) r) \<and>
     (\<forall>p \<in> nodes (mem s) r. p \<notin># X)"

definition kept :: "nat multiset \<Rightarrow> vm \<Rightarrow> vm \<Rightarrow> bool" where
  "kept X s s' \<longleftrightarrow> kend s' = kend s \<and> mm.more s' = mm.more s \<and> (\<forall>p a. p \<in># X \<longrightarrow> inpage p a \<longrightarrow> mem s' a = mem s a)"

lemma kept_refl [simp]: "kept X s s"
  by (simp add: kept_def)

lemma kept_trans: "kept X s s' \<Longrightarrow> kept X s' s'' \<Longrightarrow> kept X s s''"
  unfolding kept_def by simp

lemma kept_pages: "kept X s s' \<Longrightarrow> pages s' = pages s"
  by (simp add: kept_def pages_def)

lemma tablesD:
  assumes "tables s r X"
  shows "pool.accounted (s, mset_set (nodes (mem s) r) + X)" "tree_ok (mem s) r" "finite (nodes (mem s) r)"
    "p \<in> nodes (mem s) r \<Longrightarrow> p \<notin># X" "p \<in> nodes (mem s) r \<Longrightarrow> p \<in> pages s" "p \<in># X \<Longrightarrow> p \<in> pages s"
  using assms pool.accountedD(2) [of s "mset_set (nodes (mem s) r) + X" p] unfolding tables_def by auto

lemma page_small: "p \<in> pages s \<Longrightarrow> p < 2 ^ 56" "p \<in> pages s \<Longrightarrow> p mod PGSIZE = 0"
  using pages_less [of p s] by simp_all

text \<open>\<open>costs k s s'\<close>: at most \<open>k\<close> free pages were taken.\<close>

definition costs :: "nat \<Rightarrow> vm \<Rightarrow> vm \<Rightarrow> bool" where
  "costs k s s' \<longleftrightarrow> card (free_pages s) \<le> card (free_pages s') + k"

lemma costs_trans: "costs i s s' \<Longrightarrow> costs j s' s'' \<Longrightarrow> i + j \<le> k \<Longrightarrow> costs k s s''"
  by (simp add: costs_def)

lemma costs_mono: "costs i s s' \<Longrightarrow> i \<le> k \<Longrightarrow> costs k s s'"
  by (simp add: costs_def)

lemma costs_refl [simp]: "costs k s s"
  by (simp add: costs_def)

lemma free_accounted: "pool.accounted (s, H) \<Longrightarrow> free_pages s = pages s - set_mset H"
  using pool.accountedD(3) [of s H] by (auto simp: free_pages_def not_in_iff) (metis not_in_iff)

lemma costs_accounted:
  assumes "pool.accounted (s, H)" "pool.accounted (s', H')" "pages s' = pages s" "set_mset H' \<subseteq> set_mset H \<union> Q" "finite Q" "card Q \<le> k"
  shows "costs k s s'"
proof -
  have "free_pages s \<subseteq> free_pages s' \<union> Q" using assms(3,4) free_accounted [OF assms(1)] free_accounted [OF assms(2)] by blast
  moreover have "finite (free_pages s')" using card_pages(1) [of s'] by (simp add: free_pages_def)
  ultimately have "card (free_pages s) \<le> card (free_pages s' \<union> Q)" using assms(5) by (intro card_mono) auto
  also have "\<dots> \<le> card (free_pages s') + k" using card_Un_le [of "free_pages s'" Q] assms(6) by simp
  finally show ?thesis by (simp add: costs_def)
qed

text \<open>An entry for page number \<open>v\<close> is written.\<close>

lemma tables_nodes:
  assumes "tables s r X" "node_ok n" "tab (mem s) r n = Some p"
  shows "p \<in> nodes (mem s) r" "p \<in> pages s" "p \<notin># X" "p \<in># mset_set (nodes (mem s) r) + X"
  using tablesD(3-5) [OF assms(1)] nodesI [OF assms(2,3)] by simp_all

lemma tables_store:
  assumes t: "tables s r X" and p: "tab (mem s) r (low_of v) = Some p" and x: "x < 2 ^ 64" and v: "v < NVPN"
  defines "s' \<equiv> st_pte (p + 8 * (v mod 512)) x s"
  shows "tables s' r X" "kept X s s'" "w < NVPN \<Longrightarrow> pte_of (mem s') r w = (if w = v then x else pte_of (mem s) r w)"
    "node_ok n \<Longrightarrow> tab (mem s') r n = tab (mem s) r n"
proof -
  note D = tablesD [OF t] and P = tables_nodes [OF t low_of_ok p]
  have k: "v mod 512 < 512" by simp
  have vv: "v < 134217728" using v by simp
  have m': "mem s' = st64 (mem s) (p + 8 * (v mod 512)) x" by (simp add: s'_def st_pte_def)
  note L = leaf_write [OF D(2) p x vv, folded m']
  have tb: "tab (mem s') r n = tab (mem s) r n" if "node_ok n" for n using L(1) [OF that] .
  then show "node_ok n \<Longrightarrow> tab (mem s') r n = tab (mem s) r n" .
  have N: "nodes (mem s') r = nodes (mem s) r" unfolding nodes_def using tb by auto
  have tr: "tree_ok (mem s') r" by (rule L(3))
  have out: "mem s' a = mem s a" if "\<not> inpage p a" for a
    unfolding m' by (rule st_entry_out [OF k that])
  have s': "s\<lparr>mem := mem s'\<rparr> = s'" by (simp add: s'_def st_pte_def)
  have "pool.accounted (s\<lparr>mem := mem s'\<rparr>, mset_set (nodes (mem s) r) + X)" by (rule write_held [OF D(1) P(4)]) (rule out)
  then have "pool.accounted (s', mset_set (nodes (mem s') r) + X)" unfolding s' N .
  then show "tables s' r X" using tr D(3,4) unfolding tables_def N by blast
  have "mem s' a = mem s a" if "q \<in># X" "inpage q a" for q a
    using out inpage_unique [OF that(2), of p] page_small(2) [OF P(2)] page_small(2) [OF D(6) [OF that(1)]] P(3) that(1) by blast
  then show "kept X s s'" by (simp add: kept_def s'_def st_pte_def)
  show "w < NVPN \<Longrightarrow> pte_of (mem s') r w = (if w = v then x else pte_of (mem s) r w)" using L(2) [of w] by simp
qed

lemma memset_zero: "touched p s s1 \<Longrightarrow> memset (mem s1) p 0 PGSIZE = (\<lambda>a. if inpage p a then 0 else mem s a)"
  by (rule ext) (simp add: touched_def memset_def inpage_def)

text \<open>One turn of \<^verbatim>\<open>walk\<close> that may allocate.\<close>

lemma walk_turn_spec:
  assumes t: "tables s r X" and n: "node_ok n" "inner n" "tab (mem s) r n = Some pp" and i: "i < 512" and up: "n = Root \<Longrightarrow> i < 256" and c: "cpu < NCPU"
  shows "\<exists>res s'. walk_turn cpu True pp i s = (res, s') \<and> tables s' r X \<and> kept X s s' \<and> pte_of (mem s') r = pte_of (mem s) r \<and>
    costs 1 s s' \<and> (case res of None \<Rightarrow> free_pages s' = {} | Some q \<Rightarrow> tab (mem s') r (child n i) = Some q)"
proof (cases "sub (mem s) pp i")
  case (Some q)
  then have "walk_turn cpu True pp i s = (Some q, s)" by (auto simp: walk_turn_def sub_def Let_def ld_pte_def split: if_splits)
  moreover have "tab (mem s) r (child n i) = Some q" using tab_child [OF n(2)] n(3) Some by simp
  ultimately show ?thesis using t by auto
next
  case None
  note D = tablesD [OF t] and P = tables_nodes [OF t n(1,3)]
  have nv: "\<not> pte_V (ld_pte (pp + 8 * i) s)" using None by (simp add: sub_def Let_def ld_pte_def split: if_splits)
  from kalloc_held [OF D(1) c] show ?thesis
  proof
    assume "kalloc_try cpu s = (0, s) \<and> free_pages s = {}"
    then have "walk_turn cpu True pp i s = (None, s)" "free_pages s = {}" using nv by (simp_all add: walk_turn_def)
    then show ?thesis using t by auto
  next
    assume "\<exists>p s'. kalloc_try cpu s = (p, s') \<and> p \<in> pages s \<and> p \<noteq> 0 \<and> p \<notin># mset_set (nodes (mem s) r) + X \<and>
      pool.accounted (s', add_mset p (mset_set (nodes (mem s) r) + X)) \<and> touched p s s'"
    then obtain q s1 where q: "kalloc_try cpu s = (q, s1)" "q \<in> pages s" "q \<noteq> 0" "q \<notin> nodes (mem s) r" "q \<notin># X"
      "pool.accounted (s1, add_mset q (mset_set (nodes (mem s) r) + X))" "touched q s s1" using D(3) by auto
    define m1 where "m1 = (\<lambda>a. if inpage q a then 0 else mem s a)"
    have z: "memset (mem s1) q 0 PGSIZE = m1" unfolding m1_def by (rule memset_zero [OF q(7)])
    define s' where "s' = s1\<lparr>mem := st64 m1 (pp + 8 * i) (PA2PTE q OR 1)\<rparr>"
    have m': "mem s' = st64 m1 (pp + 8 * i) (PA2PTE q OR 1)" by (simp add: s'_def)
    have run: "walk_turn cpu True pp i s = (Some q, s')"
      using nv q(1,3) by (simp add: walk_turn_def Let_def z s'_def st_pte_def)
    note N = new_table [OF D(2) n i None q(4) page_small(2,1) [OF q(2)] m1_def, folded m']
    have T: "tab (mem s') r n' = (if n' = child n i then Some q else tab (mem s) r n')" if "node_ok n'" for n' using N(1) [OF that] .
    have ch: "node_ok (child n i)" "tab (mem s) r (child n i) = None"
      using n i None tab_child [OF n(2), of "mem s" r i] by (cases n; simp)+
    have nd: "nodes (mem s') r = insert q (nodes (mem s) r)" by (rule nodes_insert [OF _ ch]) (rule T)
    have tr: "tree_ok (mem s') r" by (rule tree_ok_insert [OF _ ch _ D(2) q(4) page_small(2) [OF q(2)]]) (rule T, assumption, use n(2) up in \<open>cases n; auto\<close>, rule N(3))
    have "pool.accounted (s1\<lparr>mem := m1\<rparr>, add_mset q (mset_set (nodes (mem s) r) + X))"
      by (rule write_held [OF q(6), of q]) (use q(7) in \<open>auto simp: m1_def touched_def\<close>)
    then have "pool.accounted ((s1\<lparr>mem := m1\<rparr>)\<lparr>mem := mem s'\<rparr>, add_mset q (mset_set (nodes (mem s) r) + X))"
      by (rule write_held [of _ _ pp]) (use P(4) in \<open>auto simp: m' st_entry_out [OF i]\<close>)
    then have "pool.accounted (s', mset_set (nodes (mem s') r) + X)" using nd q(4) D(3) by (simp add: s'_def)
    then have acc: "pool.accounted (s', mset_set (nodes (mem s') r) + X)" .
    have "costs 1 s s'" by (rule costs_accounted [OF D(1) acc, of "{q}"]) (use nd D(3) q(7) touched_pages in \<open>auto simp: s'_def pages_def touched_def\<close>)
    moreover have "tables s' r X" using acc tr nd D(3,4) q(5) by (auto simp: tables_def)
    moreover have "mem s' a = mem s a" if "p \<in># X" "inpage p a" for p a
    proof -
      have al: "p mod PGSIZE = 0" by (rule page_small [OF D(6) [OF that(1)]])
      have ne: "p \<noteq> q" "p \<noteq> pp" using that(1) q(5) P(3) by auto
      have "mem s' a = m1 a" unfolding m' by (rule st_entry_page [OF i page_small(2) [OF P(2)] al ne(2) that(2)])
      moreover have "\<not> inpage q a" using inpage_unique [OF that(2) _ al page_small(2) [OF q(2)]] ne(1) by blast
      ultimately show ?thesis by (simp add: m1_def)
    qed
    then have "kept X s s'" using q(7) by (simp add: kept_def s'_def touched_def)
    ultimately show ?thesis using run N(2) T [OF ch(1)] by (intro exI [of _ "Some q"] exI [of _ s']) auto
  qed
qed

subsection \<open>Walking and mapping, proved\<close>

lemma low_child: "low_of (va div PGSIZE) = child (child Root (PX 2 va)) (PX 1 va)" "va div PGSIZE mod 512 = PX 0 va"
  by (simp_all only: low_of_def PX_parts child.simps)

lemma walk_alloc:
  assumes t: "tables s r X" and va: "va < MAXVA" and c: "cpu < NCPU"
  shows "\<exists>pte s'. walk cpu r va True s = (BRet pte, s') \<and> tables s' r X \<and> kept X s s' \<and> pte_of (mem s') r = pte_of (mem s) r \<and>
    costs 2 s s' \<and> (pte = 0 \<and> free_pages s' = {} \<or>
     (\<exists>p. tab (mem s') r (low_of (va div PGSIZE)) = Some p \<and> pte = p + 8 * (va div PGSIZE mod 512) \<and> pte \<noteq> 0))"
proof -
  have up: "PX 2 va < 256" using va by (simp add: PX_parts)
  from walk_turn_spec [OF t, of Root r "PX 2 va", OF _ _ _ PX_less _ c] up obtain o1 s1 where
    1: "walk_turn cpu True r (PX 2 va) s = (o1, s1)" "tables s1 r X" "kept X s s1" "pte_of (mem s1) r = pte_of (mem s) r" "costs 1 s s1"
      "case o1 of None \<Rightarrow> free_pages s1 = {} | Some q \<Rightarrow> tab (mem s1) r (child Root (PX 2 va)) = Some q" by auto
  show ?thesis
  proof (cases o1)
    case None
    then show ?thesis using 1 va costs_mono [OF 1(5), of 2] by (intro exI [of _ 0] exI [of _ s1]) (simp add: walk_def)
  next
    case (Some p1)
    then have p1: "tab (mem s1) r (child Root (PX 2 va)) = Some p1" using 1(6) by simp
    have "node_ok (child Root (PX 2 va))" "inner (child Root (PX 2 va))" by (simp_all add: PX_less)
    from walk_turn_spec [OF 1(2) this p1 PX_less _ c, of 1 va] obtain o2 s2 where
      2: "walk_turn cpu True p1 (PX 1 va) s1 = (o2, s2)" "tables s2 r X" "kept X s1 s2" "pte_of (mem s2) r = pte_of (mem s1) r" "costs 1 s1 s2"
        "case o2 of None \<Rightarrow> free_pages s2 = {} | Some q \<Rightarrow> tab (mem s2) r (child (child Root (PX 2 va)) (PX 1 va)) = Some q" by auto
    have k: "kept X s s2" using 1(3) 2(3) by (rule kept_trans)
    have c2: "costs 2 s s2" using 1(5) 2(5) by (rule costs_trans) simp
    show ?thesis
    proof (cases o2)
      case None
      then show ?thesis using 1 2 k c2 Some va by (intro exI [of _ 0] exI [of _ s2]) (simp add: walk_def)
    next
      case (Some p2)
      then have p2: "tab (mem s2) r (low_of (va div PGSIZE)) = Some p2" using 2(6) by (simp only: low_child option.case)
      have "p2 \<noteq> 0" using tables_nodes(2) [OF 2(2) low_of_ok p2] pool.no_null [OF pool.accountedD(1) [OF tablesD(1) [OF 2(2)]]] by metis
      then have "p2 + 8 * (va div PGSIZE mod 512) \<noteq> 0" by simp
      moreover have "walk cpu r va True s = (BRet (p2 + 8 * (va div PGSIZE mod 512)), s2)"
        using 1(1) 2(1) \<open>o1 = Some p1\<close> Some va by (simp add: walk_def low_child)
      moreover have "pte_of (mem s2) r = pte_of (mem s) r" using 1(4) 2(4) by simp
      ultimately show ?thesis using 2(2) k c2 p2 by blast
    qed
  qed
qed

text \<open>Without allocation \<^verbatim>\<open>walk\<close> only looks: 0 if there is no table for the page.\<close>

definition pte_slot :: "(nat \<Rightarrow> nat) \<Rightarrow> nat \<Rightarrow> nat \<Rightarrow> nat" where
  "pte_slot m r v = (case tab m r (low_of v) of None \<Rightarrow> 0 | Some p \<Rightarrow> p + 8 * (v mod 512))"

lemma walk_look: "va < MAXVA \<Longrightarrow> walk cpu r va False s = (BRet (pte_slot (mem s) r (va div PGSIZE)), s)"
  by (auto simp: walk_def walk_turn_def pte_slot_def low_child sub_def Let_def ld_pte_def split: option.splits if_splits)

lemma slot_pte:
  assumes "tables s r X"
  shows "pte_slot (mem s) r v = 0 \<Longrightarrow> pte_of (mem s) r v = 0"
    "pte_slot (mem s) r v \<noteq> 0 \<Longrightarrow> \<exists>p. tab (mem s) r (low_of v) = Some p \<and> pte_slot (mem s) r v = p + 8 * (v mod 512) \<and>
       ld_pte (pte_slot (mem s) r v) s = pte_of (mem s) r v"
proof -
  have "p \<noteq> 0" if "tab (mem s) r (low_of v) = Some p" for p
    using tables_nodes(2) [OF assms low_of_ok that] pool.no_null [OF pool.accountedD(1) [OF tablesD(1) [OF assms]]] by metis
  then show "pte_slot (mem s) r v = 0 \<Longrightarrow> pte_of (mem s) r v = 0" by (auto simp: pte_slot_def pte_of_def split: option.splits)
  show "pte_slot (mem s) r v \<noteq> 0 \<Longrightarrow> \<exists>p. tab (mem s) r (low_of v) = Some p \<and> pte_slot (mem s) r v = p + 8 * (v mod 512) \<and>
       ld_pte (pte_slot (mem s) r v) s = pte_of (mem s) r v"
    by (auto simp: pte_slot_def pte_of_def ld_pte_def split: option.splits)
qed

text \<open>
  One page more is mapped. \<open>added s s' r v j f\<close>: the entries of the \<open>j\<close> page numbers from \<open>v\<close> on are those of \<open>f\<close>, all others are as before.
\<close>

definition added :: "vm \<Rightarrow> vm \<Rightarrow> nat \<Rightarrow> nat \<Rightarrow> nat \<Rightarrow> (nat \<Rightarrow> nat) \<Rightarrow> bool" where
  "added s s' r v j f \<longleftrightarrow> (\<forall>w < NVPN. pte_of (mem s') r w = (if v \<le> w \<and> w < v + j then f w else pte_of (mem s) r w))"

lemma added_0: "pte_of (mem s') r = pte_of (mem s) r \<Longrightarrow> added s s' r v 0 f"
  by (simp add: added_def)

lemma added_Suc:
  assumes "\<And>w. w < NVPN \<Longrightarrow> pte_of (mem s1) r w = (if w = v then f v else pte_of (mem s) r w)" "added s1 s2 r (Suc v) j f"
  shows "added s s2 r v (Suc j) f"
  unfolding added_def
proof (intro allI impI)
  fix w :: nat assume w: "w < NVPN"
  show "pte_of (mem s2) r w = (if v \<le> w \<and> w < v + Suc j then f w else pte_of (mem s) r w)"
  proof (cases "Suc v \<le> w \<and> w < Suc v + j")
    case True
    then show ?thesis using assms(2) w by (simp add: added_def)
  next
    case False
    then have "pte_of (mem s2) r w = pte_of (mem s1) r w" using assms(2) w by (auto simp: added_def)
    moreover have "v \<le> w \<and> w < v + Suc j \<longleftrightarrow> w = v" using False by auto
    ultimately show ?thesis using assms(1) [OF w] by simp
  qed
qed

lemma added_cong: "added s s' r v j f \<Longrightarrow> (\<And>w. v \<le> w \<Longrightarrow> f w = g w) \<Longrightarrow> added s s' r v j g"
  by (auto simp: added_def)

lemma addedD: "added s s' r v j f \<Longrightarrow> w < NVPN \<Longrightarrow> pte_of (mem s') r w = (if v \<le> w \<and> w < v + j then f w else pte_of (mem s) r w)"
  by (simp add: added_def)

definition leaf :: "nat \<Rightarrow> nat \<Rightarrow> nat" where
  "leaf pa perm = PA2PTE pa OR perm OR 1"

lemma leaf_parts:
  assumes "pa < 2 ^ 56" "pa mod PGSIZE = 0" "perm < 1024"
  shows "leaf pa perm < 2 ^ 64" "PTE2PA (leaf pa perm) = pa" "PTE_FLAGS (leaf pa perm) = perm OR 1"
    "k < 10 \<Longrightarrow> bit (leaf pa perm) k \<longleftrightarrow> bit perm k \<or> k = 0"
proof -
  have f: "perm OR 1 < 1024" using or_small [of perm 10 1] assms(3) by simp
  have e: "leaf pa perm = PA2PTE pa OR (perm OR 1)" by (simp only: leaf_def or.assoc)
  note M = mk_pte [OF assms(1,2) f, folded e]
  show "leaf pa perm < 2 ^ 64" by (rule M)
  show "PTE2PA (leaf pa perm) = pa" by (rule M)
  show "PTE_FLAGS (leaf pa perm) = perm OR 1" by (rule M)
  show "k < 10 \<Longrightarrow> bit (leaf pa perm) k \<longleftrightarrow> bit perm k \<or> k = 0" using M(4) by (simp add: bit_or_iff bit_1_iff flip: One_nat_def)
qed

lemma map_step:
  assumes t: "tables s r X" "cpu < NCPU" and v: "v < NVPN" "\<not> pte_V (pte_of (mem s) r v)" and pa: "pa < 2 ^ 56" "pa mod PGSIZE = 0" "perm < 1024"
  shows "(\<exists>s1. walk cpu r (v * PGSIZE) True s = (BRet 0, s1) \<and> tables s1 r X \<and> kept X s s1 \<and> pte_of (mem s1) r = pte_of (mem s) r \<and>
      costs 2 s s1 \<and> free_pages s1 = {}) \<or>
    (\<exists>pte s1 s2. walk cpu r (v * PGSIZE) True s = (BRet pte, s1) \<and> pte \<noteq> 0 \<and> \<not> pte_V (ld_pte pte s1) \<and> s2 = st_pte pte (leaf pa perm) s1 \<and>
      tables s2 r X \<and> kept X s s2 \<and> costs 2 s s2 \<and> (\<forall>w < NVPN. pte_of (mem s2) r w = (if w = v then leaf pa perm else pte_of (mem s) r w)))"
proof -
  have va: "v * PGSIZE < MAXVA" "v * PGSIZE div PGSIZE = v" using v(1) by simp_all
  from walk_alloc [OF t(1) va(1) t(2)] obtain pte s1 where
    1: "walk cpu r (v * PGSIZE) True s = (BRet pte, s1)" "tables s1 r X" "kept X s s1" "pte_of (mem s1) r = pte_of (mem s) r" "costs 2 s s1"
      "pte = 0 \<and> free_pages s1 = {} \<or> (\<exists>p. tab (mem s1) r (low_of v) = Some p \<and> pte = p + 8 * (v mod 512) \<and> pte \<noteq> 0)"
    unfolding va(2) by blast
  from 1(6) show ?thesis
  proof
    assume "pte = 0 \<and> free_pages s1 = {}"
    then show ?thesis using 1(1-5) by blast
  next
    assume "\<exists>p. tab (mem s1) r (low_of v) = Some p \<and> pte = p + 8 * (v mod 512) \<and> pte \<noteq> 0"
    then obtain p where p: "tab (mem s1) r (low_of v) = Some p" "pte = p + 8 * (v mod 512)" "pte \<noteq> 0" by blast
    note S = tables_store [OF 1(2) p(1) leaf_parts(1) [OF pa] v(1), folded p(2)]
    have "ld_pte pte s1 = pte_of (mem s1) r v" using p by (simp add: ld_pte_def pte_of_def)
    then have nv: "\<not> pte_V (ld_pte pte s1)" using v(2) unfolding 1(4) by simp
    have e: "pte_of (mem (st_pte pte (leaf pa perm) s1)) r w = (if w = v then leaf pa perm else pte_of (mem s) r w)" if "w < NVPN" for w
      using S(3) [OF that] unfolding 1(4) .
    have "costs 2 s1 (st_pte pte (leaf pa perm) s1)" "costs 2 s (st_pte pte (leaf pa perm) s1)"
      using 1(5) by (simp_all add: costs_def free_pages_def pages_def refs_to_def st_pte_def)
    then show ?thesis using 1(1) p(3) nv S(1) kept_trans [OF 1(3) S(2)] e by blast
  qed
qed

lemma mappages_loop_spec:
  assumes "tables s r X" "cpu < NCPU" "v + k < NVPN" "pa mod PGSIZE = 0" "pa + k * PGSIZE < 2 ^ 56" "perm < 1024"
    "\<And>w. v \<le> w \<Longrightarrow> w \<le> v + k \<Longrightarrow> \<not> pte_V (pte_of (mem s) r w)"
  shows "\<exists>res j s'. mappages_loop cpu r ((v + k) * PGSIZE) perm (v * PGSIZE) pa s = (BRet res, s') \<and> tables s' r X \<and> kept X s s' \<and> costs (2 * Suc k) s s' \<and>
    added s s' r v j (\<lambda>w. leaf (pa + (w - v) * PGSIZE) perm) \<and> (res = 0 \<and> j = Suc k \<or> res = - 1 \<and> j \<le> k \<and> free_pages s' = {})"
  using assms
proof (induction k arbitrary: v pa s)
  case (0 v pa s)
  have va: "v * PGSIZE < MAXVA" "v < NVPN" "pa < 2 ^ 56" using 0(3,5) by simp_all
  have nv: "\<not> pte_V (pte_of (mem s) r v)" using 0(7) [of v] by simp
  from map_step [OF 0(1,2) va(2) nv va(3) 0(4,6)] show ?case
  proof (elim disjE exE conjE)
    fix s1 assume 1: "walk cpu r (v * PGSIZE) True s = (BRet 0, s1)" "tables s1 r X" "kept X s s1" "pte_of (mem s1) r = pte_of (mem s) r" "costs 2 s s1" "free_pages s1 = {}"
    then show ?thesis using va(1) added_0 [OF 1(4)] costs_mono [OF 1(5)]
      by (intro exI [of _ "- 1"] exI [of _ 0] exI [of _ s1]) (simp add: mappages_loop.simps)
  next
    fix pte s1 s2
    assume 1: "walk cpu r (v * PGSIZE) True s = (BRet pte, s1)" "pte \<noteq> 0" "\<not> pte_V (ld_pte pte s1)" "s2 = st_pte pte (leaf pa perm) s1" "tables s2 r X"
      "kept X s s2" "costs 2 s s2" "\<forall>w < NVPN. pte_of (mem s2) r w = (if w = v then leaf pa perm else pte_of (mem s) r w)"
    have "added s s2 r v (Suc 0) (\<lambda>w. leaf (pa + (w - v) * PGSIZE) perm)"
      by (rule added_Suc [of s2]) (use 1(8) in \<open>auto simp: added_0\<close>)
    then show ?thesis using 1 va(1)
      by (intro exI [of _ 0] exI [of _ "Suc 0"] exI [of _ s2]) (simp add: mappages_loop.simps leaf_def Let_def)
  qed
next
  case (Suc k v pa s)
  have va: "v * PGSIZE < MAXVA" "v < NVPN" "pa < 2 ^ 56" "v * PGSIZE \<noteq> (v + Suc k) * PGSIZE" "v * PGSIZE + PGSIZE = Suc v * PGSIZE"
    "(v + Suc k) * PGSIZE = (Suc v + k) * PGSIZE"
    using Suc(4,6) by simp_all
  have nv: "\<not> pte_V (pte_of (mem s) r v)" using Suc(8) [of v] by simp
  from map_step [OF Suc(2,3) va(2) nv va(3) Suc(5,7)] show ?case
  proof (elim disjE exE conjE)
    fix s1 assume 1: "walk cpu r (v * PGSIZE) True s = (BRet 0, s1)" "tables s1 r X" "kept X s s1" "pte_of (mem s1) r = pte_of (mem s) r" "costs 2 s s1" "free_pages s1 = {}"
    then show ?thesis using va(1) added_0 [OF 1(4)] costs_mono [OF 1(5)]
      by (intro exI [of _ "- 1"] exI [of _ 0] exI [of _ s1]) (simp add: mappages_loop.simps)
  next
    fix pte s1 s2
    assume 1: "walk cpu r (v * PGSIZE) True s = (BRet pte, s1)" "pte \<noteq> 0" "\<not> pte_V (ld_pte pte s1)" "s2 = st_pte pte (leaf pa perm) s1" "tables s2 r X"
      "kept X s s2" "costs 2 s s2" "\<forall>w < NVPN. pte_of (mem s2) r w = (if w = v then leaf pa perm else pte_of (mem s) r w)"
    have run: "mappages_loop cpu r ((v + Suc k) * PGSIZE) perm (v * PGSIZE) pa s =
        mappages_loop cpu r ((Suc v + k) * PGSIZE) perm (Suc v * PGSIZE) (pa + PGSIZE) s2"
      using 1(1-3) va(1,4) Suc(6) unfolding va(6) [symmetric] va(5) [symmetric]
      by (subst mappages_loop.simps) (simp add: 1(4) leaf_def Let_def)
    have nv': "\<not> pte_V (pte_of (mem s2) r w)" if "Suc v \<le> w" "w \<le> Suc v + k" for w
      using 1(8) that Suc(8) [of w] Suc(4) by simp
    have al: "(pa + PGSIZE) mod PGSIZE = 0" "pa + PGSIZE + k * PGSIZE < 2 ^ 56" "Suc v + k < NVPN" using Suc(4,5,6) by simp_all
    from Suc.IH [OF 1(5) Suc(3) al(3,1,2) Suc(7) nv'] obtain res j s' where
      2: "mappages_loop cpu r ((Suc v + k) * PGSIZE) perm (Suc v * PGSIZE) (pa + PGSIZE) s2 = (BRet res, s')" "tables s' r X" "kept X s2 s'" "costs (2 * Suc k) s2 s'"
        "added s2 s' r (Suc v) j (\<lambda>w. leaf (pa + PGSIZE + (w - Suc v) * PGSIZE) perm)"
        "res = 0 \<and> j = Suc k \<or> res = - 1 \<and> j \<le> k \<and> free_pages s' = {}" by blast
    have e: "pa + PGSIZE + (w - Suc v) * PGSIZE = pa + (w - v) * PGSIZE" if "Suc v \<le> w" for w
      using that by (simp add: Suc_diff_le [symmetric] flip: mult_Suc)
    have "added s2 s' r (Suc v) j (\<lambda>w. leaf (pa + (w - v) * PGSIZE) perm)" using 2(5) by (rule added_cong) (simp only: e)
    then have "added s s' r v (Suc j) (\<lambda>w. leaf (pa + (w - v) * PGSIZE) perm)" by (intro added_Suc [of s2]) (use 1(8) in auto)
    then show ?thesis using run 2 kept_trans [OF 1(6) 2(3)] costs_trans [OF 1(7) 2(4), of "2 * Suc (Suc k)"]
      by (intro exI [of _ res] exI [of _ "Suc j"] exI [of _ s']) auto
  qed
qed

end
