(* ===== verification/Kstring.thy ===== *)
theory Kstring
  imports Prelude
begin

section \<open>Kernel string functions\<close>

text \<open>
  \<^verbatim>\<open>kernel/lib/string.c\<close> over a memory of bytes: the loops as they are written, and their meaning. \<^verbatim>\<open>get_bytes\<close> and
  \<^verbatim>\<open>put_bytes\<close> are the reference for a transfer of a block of bytes.
\<close>

definition get_bytes :: "(nat \<Rightarrow> nat) \<Rightarrow> nat \<Rightarrow> nat \<Rightarrow> nat list" where
  "get_bytes m a n = map m [a..<a + n]"

definition put_bytes :: "(nat \<Rightarrow> nat) \<Rightarrow> nat \<Rightarrow> nat list \<Rightarrow> nat \<Rightarrow> nat" where
  "put_bytes m a bs = (\<lambda>x. if a \<le> x \<and> x < a + length bs then bs ! (x - a) else m x)"

primrec memcmp :: "(nat \<Rightarrow> nat) \<Rightarrow> nat \<Rightarrow> nat \<Rightarrow> nat \<Rightarrow> int" where
  "memcmp m s1 s2 0 = 0"
| "memcmp m s1 s2 (Suc n) = (if m s1 \<noteq> m s2 then int (m s1) - int (m s2) else memcmp m (s1 + 1) (s2 + 1) n)"

primrec move_up :: "(nat \<Rightarrow> nat) \<Rightarrow> nat \<Rightarrow> nat \<Rightarrow> nat \<Rightarrow> nat \<Rightarrow> nat" where
  "move_up m d s 0 = m"
| "move_up m d s (Suc n) = move_up (m(d := m s)) (d + 1) (s + 1) n"

primrec move_down :: "(nat \<Rightarrow> nat) \<Rightarrow> nat \<Rightarrow> nat \<Rightarrow> nat \<Rightarrow> nat \<Rightarrow> nat" where
  "move_down m d s 0 = m"
| "move_down m d s (Suc n) = move_down (m(d - 1 := m (s - 1))) (d - 1) (s - 1) n"

definition memmove :: "(nat \<Rightarrow> nat) \<Rightarrow> nat \<Rightarrow> nat \<Rightarrow> nat \<Rightarrow> nat \<Rightarrow> nat" where
  "memmove m dst src n = (if src < dst \<and> src + n > dst then move_down m (dst + n) (src + n) n else move_up m dst src n)"

definition memcpy :: "(nat \<Rightarrow> nat) \<Rightarrow> nat \<Rightarrow> nat \<Rightarrow> nat \<Rightarrow> nat \<Rightarrow> nat" where
  "memcpy m dst src n = memmove m dst src n"

primrec strncmp :: "(nat \<Rightarrow> nat) \<Rightarrow> nat \<Rightarrow> nat \<Rightarrow> nat \<Rightarrow> int" where
  "strncmp m p q 0 = 0"
| "strncmp m p q (Suc n) = (if m p \<noteq> 0 \<and> m p = m q then strncmp m (p + 1) (q + 1) n else int (m p) - int (m q))"

primrec put_zeros :: "(nat \<Rightarrow> nat) \<Rightarrow> nat \<Rightarrow> nat \<Rightarrow> nat \<Rightarrow> nat" where
  "put_zeros m s 0 = m"
| "put_zeros m s (Suc n) = put_zeros (m(s := 0)) (s + 1) n"

primrec strncpy_loop :: "(nat \<Rightarrow> nat) \<Rightarrow> nat \<Rightarrow> nat \<Rightarrow> nat \<Rightarrow> nat \<Rightarrow> nat" where
  "strncpy_loop m s t 0 = m"
| "strncpy_loop m s t (Suc n) =
     (let m' = m(s := m t) in if m t \<noteq> 0 then strncpy_loop m' (s + 1) (t + 1) n else put_zeros m' (s + 1) n)"

definition strncpy :: "(nat \<Rightarrow> nat) \<Rightarrow> nat \<Rightarrow> nat \<Rightarrow> int \<Rightarrow> nat \<Rightarrow> nat" where
  "strncpy m s t n = strncpy_loop m s t (nat n)"

primrec safestrcpy_loop :: "(nat \<Rightarrow> nat) \<Rightarrow> nat \<Rightarrow> nat \<Rightarrow> nat \<Rightarrow> nat \<Rightarrow> nat" where
  "safestrcpy_loop m s t 0 = m(s := 0)"
| "safestrcpy_loop m s t (Suc n) =
     (let m' = m(s := m t) in if m t \<noteq> 0 then safestrcpy_loop m' (s + 1) (t + 1) n else m'(s + 1 := 0))"

definition safestrcpy :: "(nat \<Rightarrow> nat) \<Rightarrow> nat \<Rightarrow> nat \<Rightarrow> int \<Rightarrow> nat \<Rightarrow> nat" where
  "safestrcpy m s t n = (if n \<le> 0 then m else safestrcpy_loop m s t (nat (n - 1)))"

text \<open>The loop of \<^verbatim>\<open>strlen\<close> ends only at a zero byte; the counter is an \<^verbatim>\<open>int\<close>.\<close>

partial_function (option) strlen_loop :: "(nat \<Rightarrow> nat) \<Rightarrow> nat \<Rightarrow> nat \<Rightarrow> int option" where
  "strlen_loop m s n = (if m (s + n) = 0 then Some (i32 (int n)) else strlen_loop m s (n + 1))"

definition strlen :: "(nat \<Rightarrow> nat) \<Rightarrow> nat \<Rightarrow> int option" where
  "strlen m s = strlen_loop m s 0"

subsection \<open>Transfers\<close>

lemma length_get_bytes [simp]: "length (get_bytes m a n) = n"
  by (simp add: get_bytes_def)

lemma nth_get_bytes [simp]: "i < n \<Longrightarrow> get_bytes m a n ! i = m (a + i)"
  by (simp add: get_bytes_def)

lemma get_bytes_Suc: "get_bytes m a (Suc n) = m a # get_bytes m (a + 1) n"
  by (simp add: get_bytes_def upt_conv_Cons del: upt_Suc)

lemma get_bytes_cong: "(\<And>i. i < n \<Longrightarrow> m (a + i) = m' (b + i)) \<Longrightarrow> get_bytes m a n = get_bytes m' b n"
  by (rule nth_equalityI) simp_all

lemma put_bytes_in: "i < length bs \<Longrightarrow> put_bytes m a bs (a + i) = bs ! i"
  by (simp add: put_bytes_def)

lemma put_bytes_out: "x < a \<or> a + length bs \<le> x \<Longrightarrow> put_bytes m a bs x = m x"
  by (auto simp: put_bytes_def)

lemma get_put [simp]: "get_bytes (put_bytes m a bs) a (length bs) = bs"
  by (rule nth_equalityI) (simp_all add: put_bytes_in)

lemma put_bytes_Nil [simp]: "put_bytes m a [] = m"
  by (simp add: put_bytes_def fun_eq_iff)

lemma put_get [simp]: "put_bytes m a (get_bytes m a n) = m"
  by (auto simp: put_bytes_def fun_eq_iff)

lemma put_Cons: "put_bytes (m(a := b)) (a + 1) bs = put_bytes m a (b # bs)"
  by (auto simp: put_bytes_def nth_Cons')

lemma put_snoc: "put_bytes (m(a + length bs := b)) a bs = put_bytes m a (bs @ [b])"
  by (auto simp: put_bytes_def nth_append fun_eq_iff)

lemma move_up_eq: "\<not> (s < d \<and> d < s + n) \<Longrightarrow> move_up m d s n = put_bytes m d (get_bytes m s n)"
proof (induction n arbitrary: m d s)
  case (Suc n)
  define m' where "m' = m(d := m s)"
  have "move_up m d s (Suc n) = put_bytes m' (d + 1) (get_bytes m' (s + 1) n)"
    using Suc.IH [of "s + 1" "d + 1" m'] Suc.prems by (auto simp: m'_def [symmetric])
  also have "\<dots> = put_bytes m d (get_bytes m s (Suc n))"
  proof (cases "s = d")
    case False
    have "get_bytes m' (s + 1) n = get_bytes m (s + 1) n" by (rule get_bytes_cong) (use Suc.prems False in \<open>auto simp: m'_def\<close>)
    then show ?thesis by (simp only: m'_def put_Cons get_bytes_Suc)
  qed (simp add: m'_def)
  finally show ?case .
qed (simp add: get_bytes_def)

lemma get_bytes_snoc: "get_bytes m a (Suc n) = get_bytes m a n @ [m (a + n)]"
  by (simp add: get_bytes_def)

lemma move_down_eq: "s \<le> d \<Longrightarrow> move_down m (d + n) (s + n) n = put_bytes m d (get_bytes m s n)"
proof (induction n arbitrary: m)
  case (Suc n)
  define m' where "m' = m(d + n := m (s + n))"
  have "move_down m (d + Suc n) (s + Suc n) (Suc n) = put_bytes m' d (get_bytes m' s n)"
    using Suc.IH [of m'] Suc.prems by (simp add: m'_def [symmetric])
  also have "get_bytes m' s n = get_bytes m s n" by (rule get_bytes_cong) (use Suc.prems in \<open>auto simp: m'_def\<close>)
  also have "put_bytes m' d (get_bytes m s n) = put_bytes m d (get_bytes m s (Suc n))"
    using put_snoc [of m d "get_bytes m s n" "m (s + n)"] by (simp add: m'_def get_bytes_snoc)
  finally show ?case .
qed (simp add: get_bytes_def)

lemma memmove_eq: "memmove m dst src n = put_bytes m dst (get_bytes m src n)"
  using move_up_eq [of src dst n m] move_down_eq [of src dst m n] by (auto simp: memmove_def)

subsection \<open>Strings\<close>

text \<open>The string at an address: the bytes up to the first zero, \<open>n\<close> at most.\<close>

definition cstr :: "(nat \<Rightarrow> nat) \<Rightarrow> nat \<Rightarrow> nat \<Rightarrow> nat list" where
  "cstr m a n = takeWhile (\<lambda>b. b \<noteq> 0) (get_bytes m a n)"

lemma cstr_0 [simp]: "cstr m a 0 = []"
  by (simp add: cstr_def get_bytes_def)

lemma cstr_Suc: "cstr m a (Suc n) = (if m a = 0 then [] else m a # cstr m (a + 1) n)"
  by (simp add: cstr_def get_bytes_Suc)

lemma length_cstr: "length (cstr m a n) \<le> n"
  unfolding cstr_def using length_takeWhile_le [of "\<lambda>b. b \<noteq> 0" "get_bytes m a n"] by simp

lemma memcmp_0: "memcmp m p q n = 0 \<longleftrightarrow> get_bytes m p n = get_bytes m q n"
  by (induction n arbitrary: p q) (simp_all add: get_bytes_Suc, simp add: get_bytes_def)

lemma strncmp_0: "strncmp m p q n = 0 \<longleftrightarrow> cstr m p n = cstr m q n"
  by (induction n arbitrary: p q) (simp_all add: cstr_Suc)

lemma put_zeros_eq: "put_zeros m s n = put_bytes m s (replicate n 0)"
proof (induction n arbitrary: m s)
  case (Suc n)
  show ?case by (simp only: put_zeros.simps Suc.IH put_Cons replicate_Suc)
qed simp

text \<open>\<^verbatim>\<open>strncpy\<close> writes the string and fills up with zeros; source and destination do not overlap.\<close>

lemma strncpy_eq:
  "t + n \<le> s \<or> s + n \<le> t \<Longrightarrow> strncpy_loop m s t n = put_bytes m s (cstr m t n @ replicate (n - length (cstr m t n)) 0)"
proof (induction n arbitrary: m s t)
  case (Suc n)
  define m' where "m' = m(s := m t)"
  have c: "cstr m' (t + 1) n = cstr m (t + 1) n"
    unfolding cstr_def by (rule arg_cong [of _ _ "takeWhile _"], rule get_bytes_cong) (use Suc.prems in \<open>auto simp: m'_def\<close>)
  show ?case
  proof (cases "m t = 0")
    case True
    then have "strncpy_loop m s t (Suc n) = put_bytes m s (0 # replicate n 0)" by (simp only: strncpy_loop.simps Let_def put_zeros_eq put_Cons simp_thms if_False)
    then show ?thesis using True by (simp add: cstr_Suc)
  next
    case False
    have "strncpy_loop m s t (Suc n) = strncpy_loop m' (s + 1) (t + 1) n" using False by (simp add: m'_def)
    also have "\<dots> = put_bytes m' (s + 1) (cstr m (t + 1) n @ replicate (n - length (cstr m (t + 1) n)) 0)"
      using Suc.IH [of "t + 1" "s + 1" m'] Suc.prems c by auto
    finally show ?thesis using False by (simp only: m'_def put_Cons) (simp add: cstr_Suc)
  qed
qed simp

lemma strlen_loop_ends:
  "(\<forall>i < k. m (s + n + i) \<noteq> 0) \<Longrightarrow> m (s + n + k) = 0 \<Longrightarrow> strlen_loop m s n = Some (i32 (int (n + k)))"
proof (induction k arbitrary: n)
  case (Suc k)
  have "m (s + n) \<noteq> 0" using Suc.prems(1) by (metis add.right_neutral zero_less_Suc)
  moreover have "\<forall>i < k. m (s + (n + 1) + i) \<noteq> 0" using Suc.prems(1) by (metis Suc_mono add.assoc add.commute plus_1_eq_Suc)
  ultimately show ?case using Suc.IH [of "n + 1"] Suc.prems(2) by (subst strlen_loop.simps) simp
qed (simp add: strlen_loop.simps)

subsection \<open>Properties\<close>

text \<open>
  C31. \<^verbatim>\<open>memmove\<close> copies as if all bytes were read before any is written, also when source and destination overlap in either
  direction, and changes nothing else; \<^verbatim>\<open>memcpy\<close> does the same. \<^verbatim>\<open>memcmp\<close> returns 0 exactly for equal memory, and \<^verbatim>\<open>strncmp\<close>
  exactly for equal strings, compared up to their zero bytes or the given length.
\<close>

theorem memory_functions_correct:
  "memmove m dst src n = put_bytes m dst (get_bytes m src n) \<and> memcpy m dst src n = put_bytes m dst (get_bytes m src n) \<and>
   (memcmp m dst src n = 0 \<longleftrightarrow> get_bytes m dst n = get_bytes m src n) \<and> (strncmp m dst src n = 0 \<longleftrightarrow> cstr m dst n = cstr m src n)"
  by (simp add: memmove_eq memcpy_def memcmp_0 strncmp_0)

end
