(* ===== verification/Swap.thy ===== *)
theory Swap
  imports Vm Kstring
begin

section \<open>The swap area\<close>

text \<open>
  \<^verbatim>\<open>kernel/mm/swap.c\<close>: slots of the swap area, writing a page to its slot and reading it back, the cache of pages
  that were swapped out a short while ago, the clock scan that chooses a page of a process, and the copy of a slot for \<^verbatim>\<open>fork\<close>.
  \<open>sdisk\<close> is the contents of the disk as the buffer cache shows them.

  Parameters: \<open>wb\<close> writes a page of a shared mapping back to its file (\<^verbatim>\<open>vma_writeback\<close>) and tells whether that succeeded;
  \<open>clk\<close> gives, for each call of \<^verbatim>\<open>swap_throttle\<close>, the ticks on entry and after its sleep.
\<close>

abbreviation (input) MAP_SHARED :: int where "MAP_SHARED \<equiv> 1"
abbreviation (input) MIDSCHED_SWAPBUF_TRIGGER :: nat where "MIDSCHED_SWAPBUF_TRIGGER \<equiv> 128"
abbreviation (input) MIDSCHED_SUSPEND_MINFREE_PAGES :: nat where "MIDSCHED_SUSPEND_MINFREE_PAGES \<equiv> 2048"

subsection \<open>Swap slots\<close>

definition swap_alloc :: "vm \<Rightarrow> int \<times> vm" where
  "swap_alloc s =
     (case find (\<lambda>i. swapmap s ! ((swap_hint s + i) mod SWAP_PAGES) = 0) [0..<SWAP_PAGES] of
        None \<Rightarrow> (- 1, s)
      | Some i \<Rightarrow>
          (let idx = (swap_hint s + i) mod SWAP_PAGES in
           (int idx, s\<lparr>swapmap := (swapmap s)[idx := 1], swap_hint := (idx + 1) mod SWAP_PAGES\<rparr>)))"

definition swapfree :: "nat \<Rightarrow> vm \<Rightarrow> vm" where
  "swapfree slot s = (if slot \<ge> SWAP_PAGES then s else s\<lparr>swapmap := (swapmap s)[slot := 0]\<rparr>)"

definition swap_block :: "nat \<Rightarrow> nat \<Rightarrow> vm \<Rightarrow> nat" where
  "swap_block slot i s = (swapstart s + slot * SWAP_BLOCKS_PER_PAGE + i) mod 2 ^ 32"

definition swapcopy_blocks :: "nat \<Rightarrow> nat \<Rightarrow> vm \<Rightarrow> vm" where
  "swapcopy_blocks oldslot newslot s =
     fold (\<lambda>i s. s\<lparr>sdisk := (sdisk s)(swap_block newslot i s := sdisk s (swap_block oldslot i s))\<rparr>) [0..<SWAP_BLOCKS_PER_PAGE] s"

definition swap_write :: "nat \<Rightarrow> nat \<Rightarrow> vm \<Rightarrow> vm" where
  "swap_write slot src s =
     fold (\<lambda>i s. s\<lparr>sdisk := (sdisk s)(swap_block slot i s := get_bytes (mem s) (src + i * BSIZE) BSIZE)\<rparr>) [0..<SWAP_BLOCKS_PER_PAGE] s"

definition swap_read :: "nat \<Rightarrow> nat \<Rightarrow> vm \<Rightarrow> vm" where
  "swap_read slot dst s =
     fold (\<lambda>i s. s\<lparr>mem := put_bytes (mem s) (dst + i * BSIZE) (sdisk s (swap_block slot i s))\<rparr>) [0..<SWAP_BLOCKS_PER_PAGE] s"

subsection \<open>Pages swapped out a short while ago\<close>

definition swap_pbuf_put :: "nat \<Rightarrow> nat \<Rightarrow> nat \<Rightarrow> unit vop" where
  "swap_pbuf_put cpu slot pa s =
     (let idx = swap_pbuf_hand s; b = swap_pbuf s ! idx in
      bbind (if pb_valid b
             then bbind (kfree cpu (pb_pa b)) (\<lambda>_ s. (BRet (), s\<lparr>swap_pbuf_cached := swap_pbuf_cached s - 1\<rparr>))
             else (\<lambda>s. (BRet (), s)))
        (\<lambda>_ s. (BRet (), s\<lparr>swap_pbuf := (swap_pbuf s)[idx := \<lparr>pb_valid = True, pb_slot = slot, pb_pa = pa\<rparr>],
                          swap_pbuf_cached := (swap_pbuf_cached s + 1) mod 2 ^ 32,
                          swap_pbuf_hand := (idx + 1) mod SWAP_PBUF_SIZE\<rparr>)) s)"

definition swap_pbuf_get :: "nat \<Rightarrow> vm \<Rightarrow> nat \<times> vm" where
  "swap_pbuf_get slot s =
     (case find (\<lambda>i. pb_valid (swap_pbuf s ! i) \<and> pb_slot (swap_pbuf s ! i) = slot) [0..<SWAP_PBUF_SIZE] of
        None \<Rightarrow> (0, s\<lparr>swap_pbuf_misses := (swap_pbuf_misses s + 1) mod 2 ^ 64\<rparr>)
      | Some i \<Rightarrow>
          (let pa = pb_pa (swap_pbuf s ! i);
               s = s\<lparr>swap_pbuf := (swap_pbuf s)[i := (swap_pbuf s ! i)\<lparr>pb_valid := False\<rparr>],
                     swap_pbuf_cached := swap_pbuf_cached s - 1, swap_pbuf_hits := (swap_pbuf_hits s + 1) mod 2 ^ 64\<rparr>
           in (pa, if pa = 0 then s\<lparr>swap_pbuf_misses := (swap_pbuf_misses s + 1) mod 2 ^ 64\<rparr> else s)))"

definition swap_pbuf_stats :: "vm \<Rightarrow> nat \<times> nat \<times> nat" where
  "swap_pbuf_stats s = (swap_pbuf_hits s, swap_pbuf_misses s, swap_pbuf_cached s)"

definition swap_throttle :: "nat \<times> nat \<Rightarrow> vm \<Rightarrow> vm" where
  "swap_throttle t s =
     (let (now, later) = t;
          s = (if u32 (int now - int (swap_window_start s)) \<ge> 20 then s\<lparr>swap_window_start := now, swap_events := 0\<rparr> else s);
          s = s\<lparr>swap_events := (swap_events s + 1) mod 2 ^ 32\<rparr>
      in if swap_events s \<ge> 256 then s\<lparr>swap_window_start := later, swap_events := 0\<rparr> else s)"

definition swapinit :: "nat \<Rightarrow> nat \<Rightarrow> vm \<Rightarrow> unit bout \<times> vm" where
  "swapinit sb_size sb_bmapstart s =
     (let nbitmap = sb_size div (BSIZE * 8) + 1; s = s\<lparr>swapstart := (sb_bmapstart + nbitmap) mod 2 ^ 32\<rparr> in
      if (swapstart s + SWAP_PAGES * 4) mod 2 ^ 32 > sb_size then (BPanic ''swapinit: swap blocks overflow'', s)
      else (BRet (), s\<lparr>swap_hint := 0, swapready := True, swap_window_start := 0, swap_events := 0,
                       swap_pbuf_hand := 0, swap_pbuf_cached := 0, swap_pbuf_hits := 0, swap_pbuf_misses := 0\<rparr>))"

subsection \<open>Swapping in, copying and swapping out\<close>

definition swapin :: "nat \<Rightarrow> nat \<times> nat \<Rightarrow> nat \<Rightarrow> nat \<Rightarrow> int vop" where
  "swapin cpu t pagetable va s =
     (if \<not> swapready s then (BRet (- 1), s)
      else
        bbind (walk cpu pagetable va False) (\<lambda>pte s.
          if pte = 0 then (BRet 1, s)
          else if \<not> pte_S (ld_pte pte s) then (BRet 1, s)
          else
            (let slot = PTE2SWAP (ld_pte pte s);
                 (p, s) = swap_pbuf_get (slot mod 2 ^ 32) s;
                 (p, s) = (if p = 0 then
                             (let (p, s) = kalloc_try cpu s in if p = 0 then (0, s) else (p, swap_read slot p s))
                           else (p, s))
             in if p = 0 then (BRet (- 1), s)
                else
                  (let s = swapfree slot s;
                       s = st_pte pte (PA2PTE p OR set_bit 0 (unset_bit 9 (PTE_FLAGS (ld_pte pte s)))) s
                   in (BRet 0, swap_throttle t s)))) s)"

definition swapcopy :: "nat \<Rightarrow> nat \<Rightarrow> nat \<Rightarrow> nat \<Rightarrow> int vop" where
  "swapcopy cpu pagetable va src_pte s =
     (if \<not> swapready s then (BRet (- 1), s)
      else
        (let (newslot, s) = swap_alloc s in
         if newslot < 0 then (BRet (- 1), s)
         else
           bbind (walk cpu pagetable va True) (\<lambda>pte s.
             if pte = 0 then (BRet (- 1), swapfree (nat newslot) s)
             else (BRet 0, st_pte pte (SWAP2PTE (nat newslot) OR set_bit 9 (unset_bit 0 (PTE_FLAGS src_pte))) s))
             (swapcopy_blocks (PTE2SWAP src_pte) (nat newslot) s)))"

record vma =
  v_used :: bool
  v_addr :: nat
  v_len :: nat
  v_flags :: int

definition vma_lookup :: "vma list \<Rightarrow> nat \<Rightarrow> nat option" where
  "vma_lookup vs va = find (\<lambda>i. v_used (vs ! i) \<and> v_addr (vs ! i) \<le> va \<and> va < (v_addr (vs ! i) + v_len (vs ! i)) mod 2 ^ 64) [0..<length vs]"

text \<open>
  One turn of the clock: the accessed bit gives a page a second chance. The turn goes on to the next page, or
  evicts this one, or finds no slot.
\<close>

datatype turn = Advance | Evicted | NoSlot

definition evict_page :: "nat \<Rightarrow> nat \<times> nat \<Rightarrow> nat \<Rightarrow> nat \<Rightarrow> nat \<Rightarrow> turn vop" where
  "evict_page cpu t pte e pa s =
     (let (slot, s) = swap_alloc s in
      if slot < 0 then (BRet NoSlot, s)
      else
        (let s = swap_write (nat slot) pa s;
             s = st_pte pte (SWAP2PTE (nat slot) OR set_bit 9 (unset_bit 0 (PTE_FLAGS e))) s
         in bbind (swap_pbuf_put cpu (nat slot) pa) (\<lambda>_ s. (BRet Evicted, swap_throttle t s)) s))"

definition evict_turn :: "nat \<Rightarrow> (nat \<Rightarrow> nat \<Rightarrow> nat \<Rightarrow> bool) \<Rightarrow> nat \<times> nat \<Rightarrow> vma list \<Rightarrow> nat \<Rightarrow> nat \<Rightarrow> turn vop" where
  "evict_turn cpu wb t vs pagetable va =
     bbind (walk cpu pagetable va False) (\<lambda>pte s.
       if pte = 0 then (BRet Advance, s)
       else
         (let e = ld_pte pte s in
          if \<not> (pte_V e \<and> pte_U e) then (BRet Advance, s)
          else if pte_A e then (BRet Advance, st_pte pte (unset_bit 6 e) s)
          else
            (let pa = PTE2PA e in
             if krefcnt pa s \<noteq> 1 then (BRet Advance, s)
             else
               case vma_lookup vs va of
                 Some v \<Rightarrow>
                   if v_flags (vs ! v) = MAP_SHARED then
                     (if \<not> wb v va pa then (BRet Advance, s)
                      else bbind (kfree cpu pa) (\<lambda>_ s. (BRet Evicted, swap_throttle t s)) (st_pte pte 0 s))
                   else evict_page cpu t pte e pa s
               | None \<Rightarrow> evict_page cpu t pte e pa s)))"

function swapout_loop :: "nat \<Rightarrow> (nat \<Rightarrow> nat \<Rightarrow> nat \<Rightarrow> bool) \<Rightarrow> (nat \<Rightarrow> nat \<times> nat) \<Rightarrow> vma list \<Rightarrow> nat \<Rightarrow> nat \<Rightarrow> nat \<Rightarrow> nat \<Rightarrow> nat \<Rightarrow> (int \<times> nat option) vop" where
  "swapout_loop cpu wb clk vs pagetable sz max_scans scanned va s =
     (if scanned < max_scans then
        (case evict_turn cpu wb (clk scanned) vs pagetable va s of
           (BRet Advance, s) \<Rightarrow>
             swapout_loop cpu wb clk vs pagetable sz max_scans (scanned + 1) (if va + PGSIZE \<ge> sz then 0 else va + PGSIZE) s
         | (BRet Evicted, s) \<Rightarrow> (BRet (0, Some (if va + PGSIZE \<ge> sz then 0 else va + PGSIZE)), s)
         | (BRet NoSlot, s) \<Rightarrow> (BRet (- 1, None), s)
         | (BPanic e, s) \<Rightarrow> (BPanic e, s)
         | (BSleep i, s) \<Rightarrow> (BSleep i, s))
      else (BRet (- 1, None), s))"
  by pat_completeness auto
termination by (relation "measure (\<lambda>(cpu, wb, clk, vs, pt, sz, mx, scanned, va, s). mx - scanned)") auto

declare swapout_loop.simps [simp del]

text \<open>
  The result of \<^verbatim>\<open>swapout\<close> and, if it changes, the new position of the clock hand of the process. \<open>noff\<close> is the
  number of spin locks the CPU holds.
\<close>

definition swapout :: "nat \<Rightarrow> nat \<Rightarrow> (nat \<Rightarrow> nat \<Rightarrow> nat \<Rightarrow> bool) \<Rightarrow> (nat \<Rightarrow> nat \<times> nat) \<Rightarrow> vma list \<Rightarrow> nat \<Rightarrow> nat \<Rightarrow> nat \<Rightarrow> (int \<times> nat option) vop" where
  "swapout cpu noff wb clk vs pagetable p_sz swap_hand s =
     (if \<not> swapready s \<or> noff > 0 then (BRet (- 1, None), s)
      else
        (let sz = PGROUNDUP p_sz in
         if sz = 0 then (BRet (- 1, None), s)
         else
           (let start = PGROUNDDOWN swap_hand; start = (if start \<ge> sz then 0 else start) in
            swapout_loop cpu wb clk vs pagetable sz (sz div PGSIZE * 2) 0 start s)))"

function swapout_proc_loop :: "nat \<Rightarrow> (nat \<Rightarrow> nat \<Rightarrow> nat \<Rightarrow> bool) \<Rightarrow> (nat \<Rightarrow> nat \<times> nat) \<Rightarrow> vma list \<Rightarrow> nat \<Rightarrow> nat \<Rightarrow> nat \<Rightarrow> int \<Rightarrow> nat \<Rightarrow> int \<Rightarrow> nat \<Rightarrow> (int \<times> nat) vop" where
  "swapout_proc_loop cpu wb clk vs pagetable sz max_scans max_pages scanned swapped va s =
     (if scanned < max_scans \<and> swapped < max_pages then
        (case evict_turn cpu wb (clk scanned) vs pagetable va s of
           (BRet NoSlot, s) \<Rightarrow> (BRet (swapped, va), s)
         | (BRet r, s) \<Rightarrow>
             swapout_proc_loop cpu wb clk vs pagetable sz max_scans max_pages (scanned + 1)
               (if r = Evicted then swapped + 1 else swapped) (if va + PGSIZE \<ge> sz then 0 else va + PGSIZE) s
         | (BPanic e, s) \<Rightarrow> (BPanic e, s)
         | (BSleep i, s) \<Rightarrow> (BSleep i, s))
      else (BRet (swapped, va), s))"
  by pat_completeness auto
termination by (relation "measure (\<lambda>(cpu, wb, clk, vs, pt, sz, mx, mp, scanned, sw, va, s). mx - scanned)") auto

declare swapout_proc_loop.simps [simp del]

definition swapout_proc :: "nat \<Rightarrow> nat \<Rightarrow> (nat \<Rightarrow> nat \<Rightarrow> nat \<Rightarrow> bool) \<Rightarrow> (nat \<Rightarrow> nat \<times> nat) \<Rightarrow> vma list \<Rightarrow> nat \<Rightarrow> nat \<Rightarrow> nat \<Rightarrow> int \<Rightarrow> (int \<times> nat option) vop" where
  "swapout_proc cpu noff wb clk vs pagetable p_sz swap_hand max_pages s =
     (if \<not> swapready s \<or> pagetable = 0 \<or> noff > 0 then (BRet (- 1, None), s)
      else
        (let max_pages = (if max_pages \<le> 0 then 2147483647 else max_pages); sz = PGROUNDUP p_sz in
         if sz = 0 then (BRet (0, None), s)
         else
           (let start = PGROUNDDOWN swap_hand; start = (if start \<ge> sz then 0 else start) in
            bbind (swapout_proc_loop cpu wb clk vs pagetable sz (sz div PGSIZE * 2) max_pages 0 0 start)
              (\<lambda>r s. (BRet (fst r, Some (snd r)), s)) s)))"

subsection \<open>Allocation that swaps out\<close>

text \<open>
  \<^verbatim>\<open>kalloc\<close>: while no page is free and no spin lock is held, pages of the caller (page table, size, areas, clock hand) are swapped out.
  \<open>ms\<close> tells whether the medium-term scheduler is on, and \<open>susp\<close> is its suspension of a process (\<^verbatim>\<open>midsched_suspend_one\<close>).
  Nothing bounds the number of turns, so the loop is partial.
\<close>

definition mem_short :: "vm \<Rightarrow> bool" where
  "mem_short s \<longleftrightarrow> (case freebytes s of None \<Rightarrow> False | Some n \<Rightarrow> n < MIDSCHED_SUSPEND_MINFREE_PAGES * PGSIZE) \<or>
     snd (snd (swap_pbuf_stats s)) \<ge> MIDSCHED_SWAPBUF_TRIGGER"

partial_function (option) kalloc ::
  "nat \<Rightarrow> nat \<Rightarrow> bool \<Rightarrow> (vm \<Rightarrow> int \<times> vm) \<Rightarrow> (nat \<Rightarrow> nat \<Rightarrow> nat \<Rightarrow> bool) \<Rightarrow> (nat \<Rightarrow> nat \<Rightarrow> nat \<times> nat) \<Rightarrow> vma list \<Rightarrow> nat \<Rightarrow> nat \<Rightarrow>
    nat \<Rightarrow> nat \<Rightarrow> vm \<Rightarrow> (nat bout \<times> vm) option" where
  "kalloc cpu noff ms susp wb clk vs pagetable sz hand k s =
     (let (r, s) = kalloc_try cpu s in
      if r \<noteq> 0 then Some (BRet r, if ms \<and> noff = 0 \<and> mem_short s then snd (susp s) else s)
      else if noff > 0 then Some (BRet 0, s)
      else
        case swapout cpu noff wb (clk k) vs pagetable sz hand s of
          (BRet (z, h), s) \<Rightarrow>
            let hand = (case h of None \<Rightarrow> hand | Some h \<Rightarrow> h) in
            if z < 0 then
              (if ms then
                 (let (n, s) = susp s in
                  if n \<le> 0 then Some (BRet 0, s) else kalloc cpu noff ms susp wb clk vs pagetable sz hand (k + 1) s)
               else Some (BRet 0, s))
            else kalloc cpu noff ms susp wb clk vs pagetable sz hand (k + 1) (if ms \<and> mem_short s then snd (susp s) else s)
        | (BSleep i, s) \<Rightarrow> Some (BSleep i, s)
        | (BPanic e, s) \<Rightarrow> Some (BPanic e, s))"

text \<open>While a spin lock is held, and while there is no swap area, \<^verbatim>\<open>kalloc\<close> is \<^verbatim>\<open>kalloc_try\<close>.\<close>

lemma kalloc_locked: "noff > 0 \<Longrightarrow> kalloc cpu noff ms susp wb clk vs pagetable sz hand k s = (case kalloc_try cpu s of (p, s) \<Rightarrow> Some (BRet p, s))"
  by (subst kalloc.simps) (auto split: prod.split)

lemma kalloc_try_swapready: "swapready (snd (kalloc_try cpu s)) = swapready s" for s :: vm
  by (simp add: kalloc_try_def kalloc_pop_def Let_def split: option.split)

lemma kalloc_no_swap:
  "\<not> ms \<Longrightarrow> \<not> swapready s \<Longrightarrow> kalloc cpu noff ms susp wb clk vs pagetable sz hand k s = (case kalloc_try cpu s of (p, s) \<Rightarrow> Some (BRet p, s))"
  using kalloc_try_swapready [of cpu s] by (subst kalloc.simps) (auto simp: swapout_def split: prod.split)

subsection \<open>Slots\<close>

lemma upt_4: "[0..<4] = [0, 1, 2, 3 :: nat]"
  by (simp add: upt_rec)

lemma find_first: "find P [0..<n] = Some i \<longleftrightarrow> i < n \<and> P i \<and> (\<forall>j < i. \<not> P j)" for n i :: nat
  by (auto simp: find_Some_iff)

lemma find_no: "find P [0..<n] = None \<longleftrightarrow> (\<forall>i < n. \<not> P i)" for n :: nat
  by (auto simp: find_None_iff)

definition slots_ok :: "vm \<Rightarrow> bool" where
  "slots_ok s \<longleftrightarrow> length (swapmap s) = SWAP_PAGES \<and> swap_hint s < SWAP_PAGES \<and> swapstart s + SWAP_PAGES * SWAP_BLOCKS_PER_PAGE \<le> 2 ^ 32"

text \<open>The scan from the hint goes round the whole map.\<close>

lemma round_trip: "h < SWAP_PAGES \<Longrightarrow> k < SWAP_PAGES \<Longrightarrow> \<exists>i < SWAP_PAGES. (h + i) mod SWAP_PAGES = k"
  by (rule exI [of _ "(k + SWAP_PAGES - h) mod SWAP_PAGES"]) (auto simp: mod_simps)

lemma swap_alloc_spec:
  assumes "slots_ok s"
  obtains (full) "swap_alloc s = (- 1, s)" "\<forall>k < SWAP_PAGES. swapmap s ! k \<noteq> 0"
  | (slot) k s' where "swap_alloc s = (int k, s')" "k < SWAP_PAGES" "swapmap s ! k = 0" "slots_ok s'"
      "s' = s\<lparr>swapmap := (swapmap s)[k := 1], swap_hint := (k + 1) mod SWAP_PAGES\<rparr>"
proof (cases "find (\<lambda>i. swapmap s ! ((swap_hint s + i) mod SWAP_PAGES) = 0) [0..<SWAP_PAGES]")
  case None
  then have n: "\<forall>i < SWAP_PAGES. swapmap s ! ((swap_hint s + i) mod SWAP_PAGES) \<noteq> 0" by (simp add: find_no)
  have "swapmap s ! k \<noteq> 0" if k: "k < SWAP_PAGES" for k
  proof -
    obtain i where "i < SWAP_PAGES" "(swap_hint s + i) mod SWAP_PAGES = k" using round_trip [OF _ k, of "swap_hint s"] assms by (auto simp: slots_ok_def)
    then show ?thesis using n by blast
  qed
  then show thesis using None by (intro full) (simp_all add: swap_alloc_def)
next
  case (Some i)
  let ?k = "(swap_hint s + i) mod SWAP_PAGES"
  have "swapmap s ! ?k = 0" using Some by (simp add: find_first)
  then show thesis using Some assms by (intro slot [of ?k]) (auto simp: swap_alloc_def Let_def slots_ok_def)
qed

lemma swap_block_no_wrap: "slots_ok s \<Longrightarrow> k < SWAP_PAGES \<Longrightarrow> i < 4 \<Longrightarrow> swap_block k i s = swapstart s + k * 4 + i"
  unfolding swap_block_def by (rule mod_less) (simp add: slots_ok_def)

lemma swap_write_frame:
  "swapstart (swap_write k src s) = swapstart s" "mem (swap_write k src s) = mem s" "slots_ok (swap_write k src s) = slots_ok s"
  "swapmap (swap_write k src s) = swapmap s"
  by (simp_all add: swap_write_def upt_4 slots_ok_def)

lemma fold_upd_out: "(\<And>j. j < n \<Longrightarrow> f j \<noteq> x) \<Longrightarrow> fold (\<lambda>i d. d(f i := g i)) [0..<n] d x = d x"
  by (induction n) auto

lemma fold_upd_in: "(\<And>j. j < n \<Longrightarrow> f j = f i \<Longrightarrow> j = i) \<Longrightarrow> i < n \<Longrightarrow> fold (\<lambda>i d. d(f i := g i)) [0..<n] d (f i) = g i"
proof (induction n)
  case (Suc n)
  show ?case
  proof (cases "i = n")
    case False
    have "fold (\<lambda>i d. d(f i := g i)) [0..<n] d (f i) = g i" by (rule Suc.IH) (use Suc.prems False in \<open>simp_all add: less_Suc_eq\<close>)
    moreover have "f n \<noteq> f i" using Suc.prems(1) [of n] False by auto
    moreover define F where "F = (\<lambda>i (d :: 'a \<Rightarrow> 'b). d(f i := g i))"
    ultimately have "F n (fold F [0..<n] d) (f i) = g i" by (simp add: F_def)
    then show ?thesis unfolding F_def [symmetric] by simp
  qed simp
qed simp

lemma swap_write_fold: "sdisk (swap_write k src s) = fold (\<lambda>i d. d(swap_block k i s := get_bytes (mem s) (src + i * BSIZE) BSIZE)) [0..<4] (sdisk s)"
proof -
  have "fold (\<lambda>i s. s\<lparr>sdisk := (sdisk s)(swap_block k i s := get_bytes (mem s) (src + i * BSIZE) BSIZE)\<rparr>) is s =
      s\<lparr>sdisk := fold (\<lambda>i d. d(swap_block k i s := get_bytes (mem s) (src + i * BSIZE) BSIZE)) is (sdisk s)\<rparr>" for "is" and s :: vm
    by (induction "is" arbitrary: s) (simp_all add: swap_block_def)
  then show ?thesis by (simp add: swap_write_def)
qed

lemma swap_write_disk:
  assumes "slots_ok s" "k < SWAP_PAGES" "k' < SWAP_PAGES" "i < 4"
  shows "sdisk (swap_write k src s) (swap_block k' i s) =
    (if k' = k then get_bytes (mem s) (src + i * BSIZE) BSIZE else sdisk s (swap_block k' i s))"
proof -
  have b: "swap_block k' i s = swap_block k j s \<longleftrightarrow> k' = k \<and> i = j" if "j < 4" for j
    using swap_block_no_wrap [OF assms(1,2) that] swap_block_no_wrap [OF assms(1,3,4)] assms(4) that by presburger
  show ?thesis
  proof (cases "k' = k")
    case True
    have "j = i" if "j < 4" "swap_block k j s = swap_block k i s" for j using b [OF that(1)] that(2) True by simp
    then show ?thesis unfolding swap_write_fold True using assms(4) by (subst fold_upd_in) auto
  next
    case False
    then have "swap_block k j s \<noteq> swap_block k' i s" if "j < 4" for j using b [OF that] by simp
    then show ?thesis unfolding swap_write_fold using False by (subst fold_upd_out) auto
  qed
qed

lemma get_bytes_add: "get_bytes m a (n + k) = get_bytes m a n @ get_bytes m (a + n) k"
  using upt_add_eq_append [of a "a + n" k] by (simp add: get_bytes_def add.assoc)

lemma put_bytes_append: "put_bytes (put_bytes m a xs) (a + length xs) ys = put_bytes m a (xs @ ys)"
  by (auto simp: put_bytes_def nth_append fun_eq_iff)

lemma get_blocks: "get_bytes m a (n * B) = concat (map (\<lambda>i. get_bytes m (a + i * B) B) [0..<n])"
proof (induction n)
  case (Suc n)
  have "get_bytes m a (Suc n * B) = get_bytes m a (n * B) @ get_bytes m (a + n * B) B"
    using get_bytes_add [of m a "n * B" B] by (simp add: add.commute)
  also have "\<dots> = concat (map (\<lambda>i. get_bytes m (a + i * B) B) [0..<n]) @ get_bytes m (a + n * B) B" by (simp only: Suc)
  finally show ?case by simp
qed (simp add: get_bytes_def)

lemma length_blocks: "(\<And>i. i < n \<Longrightarrow> length (g i) = B) \<Longrightarrow> length (concat (map g [0..<n])) = n * B"
  by (induction n) simp_all

lemma put_blocks: "(\<And>i. i < n \<Longrightarrow> length (g i) = B) \<Longrightarrow>
    fold (\<lambda>i m. put_bytes m (a + i * B) (g i)) [0..<n] m = put_bytes m a (concat (map g [0..<n]))"
proof (induction n)
  case (Suc n)
  have "length (concat (map g [0..<n])) = n * B" by (rule length_blocks) (simp add: Suc.prems)
  then show ?case using Suc put_bytes_append [of m a "concat (map g [0..<n])" "g n"] by simp
qed simp

lemma swap_read_fold: "mem (swap_read k dst s) = fold (\<lambda>i m. put_bytes m (dst + i * BSIZE) (sdisk s (swap_block k i s))) [0..<4] (mem s)"
proof -
  have "fold (\<lambda>i s. s\<lparr>mem := put_bytes (mem s) (dst + i * BSIZE) (sdisk s (swap_block k i s))\<rparr>) is s =
      s\<lparr>mem := fold (\<lambda>i m. put_bytes m (dst + i * BSIZE) (sdisk s (swap_block k i s))) is (mem s)\<rparr>" for "is" and s :: vm
    by (induction "is" arbitrary: s) (simp_all add: swap_block_def)
  then show ?thesis by (simp add: swap_read_def)
qed

lemma swap_read_mem:
  assumes "\<And>i. i < 4 \<Longrightarrow> sdisk s (swap_block k i s) = get_bytes m (src + i * BSIZE) BSIZE"
  shows "mem (swap_read k dst s) = put_bytes (mem s) dst (get_bytes m src PGSIZE)"
proof -
  have "mem (swap_read k dst s) = put_bytes (mem s) dst (concat (map (\<lambda>i. sdisk s (swap_block k i s)) [0..<4]))"
    unfolding swap_read_fold by (rule put_blocks) (simp add: assms)
  also have "map (\<lambda>i. sdisk s (swap_block k i s)) [0..<4] = map (\<lambda>i. get_bytes m (src + i * BSIZE) BSIZE) [0..<4]"
    by (rule map_cong) (use assms in auto)
  also have "concat \<dots> = get_bytes m src PGSIZE" using get_blocks [of m src 4 BSIZE] by simp
  finally show ?thesis .
qed

text \<open>Later evictions: the memory has changed, and the page at \<open>pb\<close> goes to slot \<open>j\<close>.\<close>

definition evictions :: "((nat \<Rightarrow> nat) \<times> nat \<times> nat) list \<Rightarrow> vm \<Rightarrow> vm" where
  "evictions ws s = fold (\<lambda>(m, j, pb) s. swap_write j pb (s\<lparr>mem := m\<rparr>)) ws s"

lemma evictions_keep:
  "slots_ok s \<Longrightarrow> k < SWAP_PAGES \<Longrightarrow> \<forall>(m, j, pb) \<in> set ws. j < SWAP_PAGES \<and> j \<noteq> k \<Longrightarrow>
    slots_ok (evictions ws s) \<and> (\<forall>i. swap_block k i (evictions ws s) = swap_block k i s) \<and>
    (\<forall>i < 4. sdisk (evictions ws s) (swap_block k i s) = sdisk s (swap_block k i s))"
proof (induction ws arbitrary: s)
  case Nil
  then show ?case by (simp add: evictions_def)
next
  case (Cons w ws)
  obtain m j pb where w: "w = (m, j, pb)" by (cases w)
  let ?s = "s\<lparr>mem := m\<rparr>"
  define s1 where "s1 = swap_write j pb ?s"
  have o: "slots_ok ?s" "swap_block k i ?s = swap_block k i s" for i using Cons.prems(1) by (simp_all add: slots_ok_def swap_block_def)
  have j: "j < SWAP_PAGES" "j \<noteq> k" using Cons.prems(3) w by auto
  have o1: "slots_ok s1" "swap_block k i s1 = swap_block k i s" for i
    using o swap_write_frame(1,3) [of j pb ?s] by (simp_all add: s1_def swap_block_def)
  have "sdisk s1 (swap_block k i s) = sdisk s (swap_block k i s)" if "i < 4" for i
    using swap_write_disk [OF o(1) j(1) Cons.prems(2) that, of pb] j(2) o(2) by (simp add: s1_def)
  moreover have "evictions (w # ws) s = evictions ws s1" by (simp add: evictions_def w s1_def)
  ultimately show ?case using Cons.IH [OF o1(1) Cons.prems(2)] Cons.prems(3) o1(2) by simp
qed

text \<open>
  C9. A page that goes to swap comes back as it was. When \<^verbatim>\<open>swap_alloc\<close> returns a slot, the slot was free; and after the
  page has been written to it, whatever happens to memory and however many pages are written to other slots, reading
  the slot into any page restores all 4096 bytes, and touches nothing else. When there is no free slot, \<^verbatim>\<open>swap_alloc\<close> says so.
\<close>

theorem swap_roundtrip:
  assumes "slots_ok s" "swap_alloc s = (k, s1)" "\<forall>(m, j, pb) \<in> set ws. j < SWAP_PAGES \<and> int j \<noteq> k"
  shows "if k < 0 then \<forall>j < SWAP_PAGES. swapmap s ! j \<noteq> 0
    else swapmap s ! nat k = 0 \<and> swapmap s1 = (swapmap s)[nat k := 1] \<and> slots_ok s1 \<and>
      (let s2 = evictions ws (swap_write (nat k) pa s1) in mem (swap_read (nat k) dst s2) = put_bytes (mem s2) dst (get_bytes (mem s) pa PGSIZE))"
  using assms(1)
proof (cases rule: swap_alloc_spec)
  case full
  then have "k = - 1" using assms(2) by simp
  then show ?thesis using full(2) by simp
next
  case (slot k0 s')
  then have k: "k = int k0" "s1 = s'" using assms(2) by simp_all
  let ?s2 = "swap_write k0 pa s'"
  have o: "slots_ok ?s2" using slot(4) by (simp add: swap_write_frame)
  have w: "\<forall>(m, j, pb) \<in> set ws. j < SWAP_PAGES \<and> j \<noteq> k0" using assms(3) unfolding k by simp
  note E = evictions_keep [OF o slot(2) w]
  have m: "mem s' = mem s" using slot(5) by simp
  have b: "swap_block k0 i ?s2 = swap_block k0 i s'" for i by (simp add: swap_block_def swap_write_frame)
  have "sdisk (evictions ws ?s2) (swap_block k0 i (evictions ws ?s2)) = get_bytes (mem s) (pa + i * BSIZE) BSIZE" if "i < 4" for i
    using E that swap_write_disk [OF slot(4,2,2) that, of pa] b m by simp
  note r = swap_read_mem [OF this, of dst]
  have "swapmap s' = (swapmap s)[k0 := 1]" using slot(5) by simp
  then show ?thesis unfolding k Let_def nat_int using r slot(3,4) by simp
qed

subsection \<open>The cache of pages swapped out\<close>

lemma kfree_more: "mm.more (snd (kfree cpu pa s)) = mm.more s"
  by (simp add: kfree_def Let_def)

lemma vm_more: "mm.more s' = mm.more s \<Longrightarrow>
    swap_pbuf s' = swap_pbuf s \<and> swap_pbuf_hand s' = swap_pbuf_hand s \<and> swap_pbuf_cached s' = swap_pbuf_cached s"
  for s s' :: vm
  by (cases s; cases s') simp

definition pbuf_ok :: "vm \<Rightarrow> bool" where
  "pbuf_ok s \<longleftrightarrow> length (swap_pbuf s) = SWAP_PBUF_SIZE \<and> swap_pbuf_hand s < SWAP_PBUF_SIZE \<and>
     swap_pbuf_cached s = card {i. i < SWAP_PBUF_SIZE \<and> pb_valid (swap_pbuf s ! i)}"

lemma valid_upd:
  assumes "length bs = n" "i < n"
  shows "card {j. j < n \<and> pb_valid (bs[i := b] ! j)} =
    (if pb_valid b then 1 else 0) + (card {j. j < n \<and> pb_valid (bs ! j)} - (if pb_valid (bs ! i) then 1 else 0))"
proof -
  let ?A = "{j. j < n \<and> pb_valid (bs ! j)}"
  have "{j. j < n \<and> pb_valid (bs[i := b] ! j)} = (if pb_valid b then insert i (?A - {i}) else ?A - {i})"
    using assms by (auto simp: nth_list_update split: if_splits)
  moreover have "card (?A - {i}) = card ?A - (if pb_valid (bs ! i) then 1 else 0)" using assms(2) by (simp add: card_Diff_singleton_if)
  moreover have "card (insert i (?A - {i})) = 1 + card (?A - {i})" by (subst card_insert_disjoint) auto
  ultimately show ?thesis by (cases "pb_valid b") (simp_all only: if_True if_False add_0)
qed

lemma valid_some: "i < n \<Longrightarrow> pb_valid (bs ! i) \<Longrightarrow> 0 < card {j. j < n \<and> pb_valid (bs ! j)}"
  by (auto simp: card_gt_0_iff)

lemma cached_le: "pbuf_ok s \<Longrightarrow> swap_pbuf_cached s \<le> SWAP_PBUF_SIZE"
  unfolding pbuf_ok_def using card_mono [of "{..<SWAP_PBUF_SIZE}" "{i. i < SWAP_PBUF_SIZE \<and> pb_valid (swap_pbuf s ! i)}"] by auto

lemma pbuf_put_ok:
  assumes "pbuf_ok s" "swap_pbuf_put cpu slot pa s = (BRet (), s')"
  shows "pbuf_ok s'"
proof -
  let ?i = "swap_pbuf_hand s" and ?v = "pb_valid (swap_pbuf s ! swap_pbuf_hand s)"
  have ok: "length (swap_pbuf s) = SWAP_PBUF_SIZE" "?i < SWAP_PBUF_SIZE"
    "swap_pbuf_cached s = card {i. i < SWAP_PBUF_SIZE \<and> pb_valid (swap_pbuf s ! i)}" using assms(1) by (simp_all add: pbuf_ok_def)
  define s1 where "s1 = (if ?v then snd (kfree cpu (pb_pa (swap_pbuf s ! ?i)) s) else s)"
  have m: "swap_pbuf s1 = swap_pbuf s" "swap_pbuf_cached s1 = swap_pbuf_cached s" using vm_more [of s1 s] by (simp_all add: s1_def kfree_more)
  have s': "swap_pbuf s' = (swap_pbuf s)[?i := \<lparr>pb_valid = True, pb_slot = slot, pb_pa = pa\<rparr>]" "swap_pbuf_hand s' = (?i + 1) mod SWAP_PBUF_SIZE"
    "swap_pbuf_cached s' = (swap_pbuf_cached s - (if ?v then 1 else 0) + 1) mod 2 ^ 32"
    using assms(2) m unfolding swap_pbuf_put_def s1_def
    by (auto simp: bbind_def Let_def split: prod.splits bout.splits if_splits)
  have "swap_pbuf_cached s - (if ?v then 1 else 0) + 1 < 2 ^ 32" using cached_le [OF assms(1)] by simp
  then show ?thesis using valid_upd [OF ok(1,2), of "\<lparr>pb_valid = True, pb_slot = slot, pb_pa = pa\<rparr>"] ok s' by (simp add: pbuf_ok_def)
qed

lemma pbuf_get_ok:
  assumes "pbuf_ok s"
  shows "pbuf_ok (snd (swap_pbuf_get slot s))"
proof (cases "find (\<lambda>i. pb_valid (swap_pbuf s ! i) \<and> pb_slot (swap_pbuf s ! i) = slot) [0..<SWAP_PBUF_SIZE]")
  case None
  then show ?thesis using assms by (simp add: swap_pbuf_get_def pbuf_ok_def)
next
  case (Some i)
  then have i: "i < SWAP_PBUF_SIZE" "pb_valid (swap_pbuf s ! i)" by (simp_all add: find_first)
  have ok: "length (swap_pbuf s) = SWAP_PBUF_SIZE" using assms by (simp add: pbuf_ok_def)
  show ?thesis using assms Some valid_upd [OF ok i(1), of "(swap_pbuf s ! i)\<lparr>pb_valid := False\<rparr>"] i(2)
    by (simp add: swap_pbuf_get_def pbuf_ok_def Let_def)
qed

text \<open>With one free slot only, that slot is found.\<close>

lemma swap_alloc_only:
  assumes "slots_ok s" "k < SWAP_PAGES" "\<forall>j < SWAP_PAGES. swapmap s ! j = 0 \<longleftrightarrow> j = k"
  shows "swap_alloc s = (int k, s\<lparr>swapmap := (swapmap s)[k := 1], swap_hint := (k + 1) mod SWAP_PAGES\<rparr>)"
  using assms(1)
proof (cases rule: swap_alloc_spec)
  case full
  then show ?thesis using assms(2,3) by blast
next
  case (slot k' s')
  then have "k' = k" using assms(3) by blast
  then show ?thesis using slot by simp
qed

text \<open>
  C33. A cached page outlives its slot. \<^verbatim>\<open>swapfree\<close> does not look at the cache of pages that were swapped out: when slot \<open>k\<close> is
  the only free one, a page \<open>pa\<close> is swapped out to it, the slot is freed (its process exits) and given to another page \<open>pb\<close>,
  then the lookup of the slot when \<open>pb\<close> is needed returns the old page \<open>pa\<close>: the second process gets the memory of the first.
\<close>

theorem swap_pbuf_stale:
  assumes "slots_ok s" "k < SWAP_PAGES" "\<forall>j < SWAP_PAGES. swapmap s ! j = 0 \<longleftrightarrow> j = k"
    "swap_pbuf s = replicate SWAP_PBUF_SIZE \<lparr>pb_valid = False, pb_slot = 0, pb_pa = 0\<rparr>" "swap_pbuf_hand s = 0"
  shows "\<exists>s1 s2 s3 s4. swap_alloc s = (int k, s1) \<and> swap_pbuf_put cpu k pa (swap_write k pa s1) = (BRet (), s2) \<and>
    swap_alloc (swapfree k s2) = (int k, s3) \<and> swap_pbuf_put cpu k pb (swap_write k pb s3) = (BRet (), s4) \<and> fst (swap_pbuf_get k s4) = pa"
proof -
  let ?inv = "\<lparr>pb_valid = False, pb_slot = 0, pb_pa = 0\<rparr>" and ?e = "\<lambda>p. \<lparr>pb_valid = True, pb_slot = k, pb_pa = p\<rparr>"
  define s1 where "s1 = s\<lparr>swapmap := (swapmap s)[k := 1], swap_hint := (k + 1) mod SWAP_PAGES\<rparr>"
  define t1 where "t1 = swap_write k pa s1"
  define s2 where "s2 = t1\<lparr>swap_pbuf := (swap_pbuf t1)[0 := ?e pa], swap_pbuf_cached := (swap_pbuf_cached t1 + 1) mod 2 ^ 32, swap_pbuf_hand := 1\<rparr>"
  define t2 where "t2 = swapfree k s2"
  define s3 where "s3 = t2\<lparr>swapmap := (swapmap t2)[k := 1], swap_hint := (k + 1) mod SWAP_PAGES\<rparr>"
  define t3 where "t3 = swap_write k pb s3"
  define s4 where "s4 = t3\<lparr>swap_pbuf := (swap_pbuf t3)[1 := ?e pb], swap_pbuf_cached := (swap_pbuf_cached t3 + 1) mod 2 ^ 32, swap_pbuf_hand := 2\<rparr>"
  have f: "swap_pbuf (swap_write k p u) = swap_pbuf u" "swap_pbuf_hand (swap_write k p u) = swap_pbuf_hand u" "swap_hint (swap_write k p u) = swap_hint u"
    for p and u :: vm by (simp_all add: swap_write_def upt_4)
  have 1: "swap_alloc s = (int k, s1)" unfolding s1_def by (rule swap_alloc_only [OF assms(1-3)])
  have b1: "swap_pbuf t1 = replicate SWAP_PBUF_SIZE ?inv" "swap_pbuf_hand t1 = 0" using assms(4,5) f by (simp_all add: t1_def s1_def)
  have 2: "swap_pbuf_put cpu k pa t1 = (BRet (), s2)" using b1 by (simp add: swap_pbuf_put_def bbind_def s2_def)
  have sm: "swapmap t2 = (swapmap s)[k := 0]" "swapstart t2 = swapstart s" "swap_hint t2 = (k + 1) mod SWAP_PAGES"
    using assms(2) swap_write_frame(1,4) [of k pa s1] f(3) [of pa s1] by (simp_all add: t2_def swapfree_def s2_def t1_def s1_def)
  have o: "slots_ok t2" using assms(1) sm by (simp add: slots_ok_def)
  have "\<forall>j < SWAP_PAGES. swapmap t2 ! j = 0 \<longleftrightarrow> j = k" using assms(1,3) unfolding sm(1) by (auto simp: slots_ok_def nth_list_update)
  then have 3: "swap_alloc t2 = (int k, s3)" unfolding s3_def by (rule swap_alloc_only [OF o assms(2)])
  have b3: "swap_pbuf t3 = (replicate SWAP_PBUF_SIZE ?inv)[0 := ?e pa]" "swap_pbuf_hand t3 = 1"
    using b1 f assms(2) by (simp_all add: t3_def s3_def t2_def swapfree_def s2_def)
  have 4: "swap_pbuf_put cpu k pb t3 = (BRet (), s4)" using b3 by (simp add: swap_pbuf_put_def bbind_def s4_def)
  have "swap_pbuf s4 ! 0 = ?e pa" using b3 by (simp add: s4_def)
  then have "find (\<lambda>i. pb_valid (swap_pbuf s4 ! i) \<and> pb_slot (swap_pbuf s4 ! i) = k) [0..<SWAP_PBUF_SIZE] = Some 0"
    by (simp only: find_first) simp
  then have "fst (swap_pbuf_get k s4) = pa" using \<open>swap_pbuf s4 ! 0 = ?e pa\<close> by (simp add: swap_pbuf_get_def Let_def)
  then show ?thesis using 1 2 3 4 unfolding t1_def t2_def t3_def by blast
qed

text \<open>
  The counter of cached pages is exact and bounded: it always equals the number of valid entries of the table, so that \<^verbatim>\<open>swap_pbuf_stats\<close>
  never reports more than 64 (and \<^verbatim>\<open>MIDSCHED_SWAPBUF_TRIGGER\<close>, 128, is never reached).
\<close>

theorem swap_pbuf_bounded:
  assumes "pbuf_ok s"
  shows "snd (snd (swap_pbuf_stats s)) \<le> 64 \<and> (\<forall>cpu slot pa s'. swap_pbuf_put cpu slot pa s = (BRet (), s') \<longrightarrow> pbuf_ok s') \<and>
    (\<forall>slot. pbuf_ok (snd (swap_pbuf_get slot s)))"
  using cached_le [OF assms] pbuf_put_ok [OF assms] pbuf_get_ok [OF assms] by (auto simp: swap_pbuf_stats_def)

definition swap0 :: vm where
  "swap0 = \<lparr>mem = (\<lambda>_. 0), cnt = (\<lambda>_. 0), freelist = replicate NCPU 0, kend = 2281693184, swapmap = (replicate SWAP_PAGES 1)[7 := 0], swap_hint = 0,
     swapready = True, swapstart = 100, swap_window_start = 0, swap_events = 0,
     swap_pbuf = replicate SWAP_PBUF_SIZE \<lparr>pb_valid = False, pb_slot = 0, pb_pa = 0\<rparr>, swap_pbuf_hand = 0, swap_pbuf_cached = 0, swap_pbuf_hits = 0,
     swap_pbuf_misses = 0, sdisk = (\<lambda>_. replicate BSIZE 0)\<rparr>"

lemma swap0_ok: "slots_ok swap0" "\<forall>j < SWAP_PAGES. swapmap swap0 ! j = 0 \<longleftrightarrow> j = 7"
  by (auto simp: slots_ok_def swap0_def nth_list_update)

theorem swap_pbuf_stale_witness:
  "\<exists>s1 s2 s3 s4. swap_alloc swap0 = (7, s1) \<and> swap_pbuf_put 0 7 2281693184 (swap_write 7 2281693184 s1) = (BRet (), s2) \<and>
    swap_alloc (swapfree 7 s2) = (7, s3) \<and> swap_pbuf_put 0 7 2281697280 (swap_write 7 2281697280 s3) = (BRet (), s4) \<and>
    fst (swap_pbuf_get 7 s4) = 2281693184"
  using swap_pbuf_stale [OF swap0_ok(1) _ swap0_ok(2), of 0 2281693184 2281697280] by (simp add: swap0_def)

theorem swap_roundtrip_witness:
  "swapmap swap0 ! 7 = 0 \<and> (\<exists>s1. swap_alloc swap0 = (7, s1) \<and>
    (let s2 = evictions [(\<lambda>_. 9, 3, 0)] (swap_write 7 0 s1) in mem (swap_read 7 4096 s2) = put_bytes (mem s2) 4096 (get_bytes (mem swap0) 0 PGSIZE)))"
proof -
  obtain s1 where a: "swap_alloc swap0 = (7, s1)" using swap_alloc_only [OF swap0_ok(1) _ swap0_ok(2)] by simp
  from swap_roundtrip [OF swap0_ok(1) a, of "[(\<lambda>_. 9, 3, 0)]" 0 4096] a show ?thesis by (simp add: Let_def)
qed

theorem swap_pbuf_bounded_witness: "pbuf_ok swap0 \<and> snd (snd (swap_pbuf_stats swap0)) \<le> 64"
proof -
  have "{i. i < SWAP_PBUF_SIZE \<and> pb_valid (replicate SWAP_PBUF_SIZE \<lparr>pb_valid = False, pb_slot = 0, pb_pa = 0\<rparr> ! i)} = {}" by auto
  then have ok: "pbuf_ok swap0" by (simp add: pbuf_ok_def swap0_def)
  from swap_pbuf_bounded [OF ok] ok show ?thesis by simp
qed

end
