(* ===== verification/Uvm.thy ===== *)
theory Uvm
  imports Swap
begin

section \<open>User address spaces\<close>

text \<open>
  \<^verbatim>\<open>kernel/mm/vm.c\<close>, second part: mapping, unmapping, growing and shrinking user memory, the copy-on-write copy for
  \<^verbatim>\<open>fork\<close>, the duplication of a page on a write (\<^verbatim>\<open>kernel/mm/kalloc.c\<close>, \<^verbatim>\<open>cowalloc\<close>), and the copies between kernel
  and user memory.
\<close>

subsection \<open>Address spaces\<close>

definition uvmunmap_page :: "nat \<Rightarrow> nat \<Rightarrow> bool \<Rightarrow> nat \<Rightarrow> unit vop" where
  "uvmunmap_page cpu pagetable do_free a =
     bbind (walk cpu pagetable a False) (\<lambda>pte s.
       if pte = 0 then (BRet (), s)
       else
         (let e = ld_pte pte s in
          if \<not> pte_V e then
            (BRet (), st_pte pte 0 (if do_free \<and> pte_S e then swapfree (PTE2SWAP e) s else s))
          else if PTE_FLAGS e = 1 then (BPanic ''uvmunmap: not a leaf'', s)
          else
            bbind (if do_free then kfree cpu (PTE2PA e) else (\<lambda>s. (BRet (), s))) (\<lambda>_ s. (BRet (), st_pte pte 0 s)) s))"

function uvmunmap_loop :: "nat \<Rightarrow> nat \<Rightarrow> bool \<Rightarrow> nat \<Rightarrow> nat \<Rightarrow> unit vop" where
  "uvmunmap_loop cpu pagetable do_free enda a s =
     (if a < enda then
        (case uvmunmap_page cpu pagetable do_free a s of
           (BRet _, s) \<Rightarrow> uvmunmap_loop cpu pagetable do_free enda (a + PGSIZE) s
         | (BPanic e, s) \<Rightarrow> (BPanic e, s)
         | (BSleep i, s) \<Rightarrow> (BSleep i, s))
      else (BRet (), s))"
  by pat_completeness auto
termination by (relation "measure (\<lambda>(cpu, pt, f, e, a, s). e - a)") auto

declare uvmunmap_loop.simps [simp del]

definition uvmunmap :: "nat \<Rightarrow> nat \<Rightarrow> nat \<Rightarrow> nat \<Rightarrow> bool \<Rightarrow> unit vop" where
  "uvmunmap cpu pagetable va npages do_free s =
     (if va mod PGSIZE \<noteq> 0 then (BPanic ''uvmunmap: not aligned'', s)
      else uvmunmap_loop cpu pagetable do_free ((va + npages * PGSIZE) mod 2 ^ 64) va s)"

definition uvmcreate :: "nat \<Rightarrow> vm \<Rightarrow> nat \<times> vm" where
  "uvmcreate cpu s =
     (let (pagetable, s) = kalloc_try cpu s in
      if pagetable = 0 then (0, s) else (pagetable, s\<lparr>mem := memset (mem s) pagetable 0 PGSIZE\<rparr>))"

definition uvmdealloc :: "nat \<Rightarrow> nat \<Rightarrow> nat \<Rightarrow> nat \<Rightarrow> nat vop" where
  "uvmdealloc cpu pagetable oldsz newsz s =
     (if newsz \<ge> oldsz then (BRet oldsz, s)
      else
        bbind (if PGROUNDUP newsz < PGROUNDUP oldsz
               then uvmunmap cpu pagetable (PGROUNDUP newsz) (nat (u64 (i32 (int ((PGROUNDUP oldsz - PGROUNDUP newsz) div PGSIZE))))) True
               else (\<lambda>s. (BRet (), s))) (\<lambda>_ s. (BRet newsz, s)) s)"

text \<open>A turn of the loop of \<^verbatim>\<open>uvmalloc\<close> tells whether the page was added.\<close>

definition uvmalloc_page :: "nat \<Rightarrow> nat \<Rightarrow> nat \<Rightarrow> bool vop" where
  "uvmalloc_page cpu pagetable a s =
     (let (p, s) = kalloc_try cpu s in
      if p = 0 then (BRet False, s)
      else
        bbind (mappages cpu pagetable a PGSIZE p 30) (\<lambda>r.
          if r \<noteq> 0 then bbind (kfree cpu p) (\<lambda>_ s. (BRet False, s)) else (\<lambda>s. (BRet True, s)))
          (s\<lparr>mem := memset (mem s) p 0 PGSIZE\<rparr>))"

function uvmalloc_loop :: "nat \<Rightarrow> nat \<Rightarrow> nat \<Rightarrow> nat \<Rightarrow> nat \<Rightarrow> nat vop" where
  "uvmalloc_loop cpu pagetable oldsz newsz a s =
     (if a < newsz then
        (case uvmalloc_page cpu pagetable a s of
           (BRet True, s) \<Rightarrow> uvmalloc_loop cpu pagetable oldsz newsz (a + PGSIZE) s
         | (BRet False, s) \<Rightarrow> bbind (uvmdealloc cpu pagetable a oldsz) (\<lambda>_ s. (BRet 0, s)) s
         | (BPanic e, s) \<Rightarrow> (BPanic e, s)
         | (BSleep i, s) \<Rightarrow> (BSleep i, s))
      else (BRet newsz, s))"
  by pat_completeness auto
termination by (relation "measure (\<lambda>(cpu, pt, oldsz, newsz, a, s). newsz - a)") auto

declare uvmalloc_loop.simps [simp del]

definition uvmalloc :: "nat \<Rightarrow> nat \<Rightarrow> nat \<Rightarrow> nat \<Rightarrow> nat vop" where
  "uvmalloc cpu pagetable oldsz newsz s =
     (if newsz < oldsz then (BRet oldsz, s)
      else uvmalloc_loop cpu pagetable (PGROUNDUP oldsz) newsz (PGROUNDUP oldsz) s)"

text \<open>
  \<^verbatim>\<open>uvmcopy\<close>: both processes keep the frame, read-only and marked (\<^verbatim>\<open>PTE_F\<close>) where it was writable. A turn
  that returns \<open>False\<close> is an error; then the pages mapped so far are dropped again.
\<close>

definition uvmcopy_page :: "nat \<Rightarrow> nat \<Rightarrow> nat \<Rightarrow> nat \<Rightarrow> bool vop" where
  "uvmcopy_page cpu old new i =
     bbind (walk cpu old i False) (\<lambda>pte s.
       if pte = 0 then (BRet True, s)
       else
         (let e = ld_pte pte s in
          if \<not> pte_V e then
            (if pte_S e then bbind (swapcopy cpu new i e) (\<lambda>r s. (BRet (r \<ge> 0), s)) s else (BRet True, s))
          else
            (let pa = PTE2PA e;
                 flags = (if pte_W (PTE_FLAGS e) then unset_bit 2 (set_bit 8 (PTE_FLAGS e)) else PTE_FLAGS e);
                 s = (if pte_W (PTE_FLAGS e) then st_pte pte (PA2PTE pa OR flags) s else s)
             in bbind (mappages cpu new i PGSIZE pa flags) (\<lambda>r s.
                  if r \<noteq> 0 then (BRet False, s) else (BRet True, snd (kaddrefcnt pa s))) s)))"

function uvmcopy_loop :: "nat \<Rightarrow> nat \<Rightarrow> nat \<Rightarrow> nat \<Rightarrow> nat \<Rightarrow> int vop" where
  "uvmcopy_loop cpu old new sz i s =
     (if i < sz then
        (case uvmcopy_page cpu old new i s of
           (BRet True, s) \<Rightarrow> uvmcopy_loop cpu old new sz (i + PGSIZE) s
         | (BRet False, s) \<Rightarrow> bbind (uvmunmap cpu new 0 (i div PGSIZE) True) (\<lambda>_ s. (BRet (- 1), s)) s
         | (BPanic e, s) \<Rightarrow> (BPanic e, s)
         | (BSleep k, s) \<Rightarrow> (BSleep k, s))
      else (BRet 0, s))"
  by pat_completeness auto
termination by (relation "measure (\<lambda>(cpu, old, new, sz, i, s). sz - i)") auto

declare uvmcopy_loop.simps [simp del]

definition uvmcopy :: "nat \<Rightarrow> nat \<Rightarrow> nat \<Rightarrow> nat \<Rightarrow> int vop" where
  "uvmcopy cpu old new sz = uvmcopy_loop cpu old new sz 0"

definition uvmclear :: "nat \<Rightarrow> nat \<Rightarrow> nat \<Rightarrow> unit vop" where
  "uvmclear cpu pagetable va =
     bbind (walk cpu pagetable va False) (\<lambda>pte s.
       if pte = 0 then (BPanic ''uvmclear'', s) else (BRet (), st_pte pte (unset_bit 4 (ld_pte pte s)) s))"

text \<open>
  \<^verbatim>\<open>freewalk\<close> descends into the tables below; the first argument bounds its depth, and three levels
  are all there are. Leaves that are still mapped are skipped.
\<close>

fun freewalk :: "nat \<Rightarrow> nat \<Rightarrow> nat \<Rightarrow> unit vop" and freewalk_entries :: "nat \<Rightarrow> nat \<Rightarrow> nat \<Rightarrow> nat list \<Rightarrow> unit vop" where
  "freewalk depth cpu pagetable s = bbind (freewalk_entries depth cpu pagetable [0..<512]) (\<lambda>_. kfree cpu pagetable) s"
| "freewalk_entries depth cpu pagetable [] s = (BRet (), s)"
| "freewalk_entries 0 cpu pagetable (i # is) s = (BPanic ''out of depth'', s)"
| "freewalk_entries (Suc depth) cpu pagetable (i # is) s =
     (let pte = ld_pte (pagetable + 8 * i) s in
      if pte_V pte \<and> \<not> bit pte 1 \<and> \<not> bit pte 2 \<and> \<not> bit pte 3 then
        (case freewalk depth cpu (PTE2PA pte) s of
           (BRet _, s) \<Rightarrow> freewalk_entries (Suc depth) cpu pagetable is (st_pte (pagetable + 8 * i) 0 s)
         | (r, s) \<Rightarrow> (r, s))
      else freewalk_entries (Suc depth) cpu pagetable is s)"

definition uvmfree :: "nat \<Rightarrow> nat \<Rightarrow> nat \<Rightarrow> unit vop" where
  "uvmfree cpu pagetable sz =
     bbind (if sz > 0 then uvmunmap cpu pagetable 0 (PGROUNDUP sz div PGSIZE) True else (\<lambda>s. (BRet (), s)))
       (\<lambda>_. freewalk 3 cpu pagetable)"

text \<open>\<^verbatim>\<open>uvminit\<close> does not test whether it got a page.\<close>

definition uvminit :: "nat \<Rightarrow> nat \<Rightarrow> nat list \<Rightarrow> unit vop" where
  "uvminit cpu pagetable src s =
     (if length src \<ge> PGSIZE then (BPanic ''inituvm: more than a page'', s)
      else
        (let (p, s) = kalloc_try cpu s in
         bbind (mappages cpu pagetable 0 PGSIZE p 30) (\<lambda>_ s. (BRet (), s\<lparr>mem := put_bytes (mem s) p src\<rparr>))
           (s\<lparr>mem := memset (mem s) p 0 PGSIZE\<rparr>)))"

definition growproc :: "nat \<Rightarrow> nat \<Rightarrow> nat \<Rightarrow> int \<Rightarrow> (int \<times> nat) vop" where
  "growproc cpu pagetable p_sz n s =
     (let sz = p_sz mod 2 ^ 32; newsz = nat (u32 (int sz + n)) in
      if n > 0 then
        bbind (uvmalloc cpu pagetable sz newsz) (\<lambda>r s.
          if r mod 2 ^ 32 = 0 then (BRet (- 1, p_sz), s) else (BRet (0, r mod 2 ^ 32), s)) s
      else if n < 0 then bbind (uvmdealloc cpu pagetable sz newsz) (\<lambda>r s. (BRet (0, r mod 2 ^ 32), s)) s
      else (BRet (0, sz), s))"

subsection \<open>Looking up user pages, copy on write\<close>

definition walkaddr :: "nat \<Rightarrow> nat \<times> nat \<Rightarrow> nat \<Rightarrow> nat \<Rightarrow> nat vop" where
  "walkaddr cpu t pagetable va s =
     (if va \<ge> MAXVA then (BRet 0, s)
      else
        bbind (walk cpu pagetable va False) (\<lambda>pte.
        bbind (\<lambda>s.
          if pte = 0 then (BRet 0, s)
          else if pte_V (ld_pte pte s) then (BRet pte, s)
          else if pte_S (ld_pte pte s) then
            bbind (swapin cpu t pagetable (PGROUNDDOWN va)) (\<lambda>r.
              if r = 0 then walk cpu pagetable va False else (\<lambda>s. (BRet 0, s))) s
          else (BRet 0, s)) (\<lambda>pte s.
        if pte = 0 then (BRet 0, s)
        else if \<not> pte_V (ld_pte pte s) then (BRet 0, s)
        else if \<not> pte_U (ld_pte pte s) then (BRet 0, s)
        else (BRet (PTE2PA (ld_pte pte s)), s))) s)"

definition cowpage :: "nat \<Rightarrow> nat \<Rightarrow> nat \<Rightarrow> int vop" where
  "cowpage cpu pagetable va s =
     (if va \<ge> MAXVA then (BRet (- 1), s)
      else
        bbind (walk cpu pagetable va False) (\<lambda>pte s.
          if pte = 0 then (BRet (- 1), s)
          else if \<not> pte_V (ld_pte pte s) then (BRet (- 1), s)
          else (BRet (if pte_F (ld_pte pte s) then 0 else - 1), s)) s)"

definition cowalloc :: "nat \<Rightarrow> nat \<times> nat \<Rightarrow> nat \<Rightarrow> nat \<Rightarrow> nat vop" where
  "cowalloc cpu t pagetable va s =
     (if va mod PGSIZE \<noteq> 0 then (BRet 0, s)
      else
        bbind (walkaddr cpu t pagetable va) (\<lambda>pa.
          if pa = 0 then (\<lambda>s. (BRet 0, s))
          else
            bbind (walk cpu pagetable va False) (\<lambda>pte s.
              if krefcnt pa s = 1 then
                (BRet pa, st_pte pte (unset_bit 8 (set_bit 2 (ld_pte pte s))) s)
              else
                (let (p, s) = kalloc_try cpu s in
                 if p = 0 then (BRet 0, s)
                 else
                   (let s = s\<lparr>mem := memmove (mem s) p pa PGSIZE\<rparr>;
                        s = st_pte pte (unset_bit 0 (ld_pte pte s)) s
                    in bbind (mappages cpu pagetable va PGSIZE p (unset_bit 8 (set_bit 2 (PTE_FLAGS (ld_pte pte s))))) (\<lambda>r.
                         if r \<noteq> 0 then bbind (kfree cpu p) (\<lambda>_ s. (BRet 0, st_pte pte (set_bit 0 (ld_pte pte s)) s))
                         else bbind (kfree cpu (PGROUNDDOWN pa)) (\<lambda>_ s. (BRet p, s))) s)))) s)"

text \<open>\<^verbatim>\<open>uvmshare\<close> maps the same frames without copy on write, for threads.\<close>

definition uvmshare_page :: "nat \<Rightarrow> nat \<times> nat \<Rightarrow> nat \<Rightarrow> nat \<Rightarrow> nat \<Rightarrow> bool vop" where
  "uvmshare_page cpu t old new i =
     bbind (walk cpu old i False) (\<lambda>pte s.
       if pte = 0 then (BRet True, s)
       else
         bbind (if pte_V (ld_pte pte s) then (\<lambda>s. (BRet (0, pte), s))
                else if pte_S (ld_pte pte s) then
                  bbind (swapin cpu t old i) (\<lambda>r.
                    if r < 0 then (\<lambda>s. (BRet (- 1, 0), s)) else bbind (walk cpu old i False) (\<lambda>pte s. (BRet (0, pte), s)))
                else (\<lambda>s. (BRet (0, 0), s))) (\<lambda>(r :: int, pte) s.
           if r < 0 then (BRet False, s)
           else if pte = 0 then (BRet True, s)
           else if \<not> pte_V (ld_pte pte s) then (BRet True, s)
           else
             (let pa = PTE2PA (ld_pte pte s) in
              bbind (mappages cpu new i PGSIZE pa (PTE_FLAGS (ld_pte pte s))) (\<lambda>r s.
                if r \<noteq> 0 then (BRet False, s) else (BRet True, snd (kaddrefcnt pa s))) s)) s)"

function uvmshare_loop :: "nat \<Rightarrow> (nat \<Rightarrow> nat \<times> nat) \<Rightarrow> nat \<Rightarrow> nat \<Rightarrow> nat \<Rightarrow> nat \<Rightarrow> int vop" where
  "uvmshare_loop cpu clk old new sz i s =
     (if i < sz then
        (case uvmshare_page cpu (clk i) old new i s of
           (BRet True, s) \<Rightarrow> uvmshare_loop cpu clk old new sz (i + PGSIZE) s
         | (BRet False, s) \<Rightarrow> bbind (uvmunmap cpu new 0 (i div PGSIZE) True) (\<lambda>_ s. (BRet (- 1), s)) s
         | (BPanic e, s) \<Rightarrow> (BPanic e, s)
         | (BSleep k, s) \<Rightarrow> (BSleep k, s))
      else (BRet 0, s))"
  by pat_completeness auto
termination by (relation "measure (\<lambda>(cpu, clk, old, new, sz, i, s). sz - i)") auto

declare uvmshare_loop.simps [simp del]

definition uvmshare :: "nat \<Rightarrow> (nat \<Rightarrow> nat \<times> nat) \<Rightarrow> nat \<Rightarrow> nat \<Rightarrow> nat \<Rightarrow> int vop" where
  "uvmshare cpu clk old new sz = uvmshare_loop cpu clk old new sz 0"

subsection \<open>Copies between kernel and user memory\<close>

text \<open>
  The current process as \<^verbatim>\<open>ensure_user_page\<close> sees it, and \<^verbatim>\<open>mmap_handler\<close> as a parameter.
\<close>

record uproc =
  u_pagetable :: nat
  u_sp :: nat
  u_sz :: nat

definition ensure_user_page :: "nat \<Rightarrow> uproc option \<Rightarrow> (nat \<Rightarrow> nat \<Rightarrow> int vop) \<Rightarrow> nat \<Rightarrow> nat \<Rightarrow> nat \<Rightarrow> int vop" where
  "ensure_user_page cpu cur mmap_handler pagetable va cause s =
     (case cur of
        None \<Rightarrow> (BRet (- 1), s)
      | Some p \<Rightarrow>
          if u_pagetable p \<noteq> pagetable then (BRet (- 1), s)
          else
            bbind (mmap_handler va cause) (\<lambda>mmret s.
              if mmret = 0 then (BRet 0, s)
              else if mmret < 0 then (BRet (- 1), s)
              else if u64 (int (PGROUNDUP (u_sp p)) - 1) < int va \<and> va < u_sz p then
                (let (pa, s) = kalloc_try cpu s in
                 if pa = 0 then (BRet (- 1), s)
                 else
                   bbind (mappages cpu pagetable (PGROUNDDOWN va) PGSIZE pa 30) (\<lambda>r.
                     if r \<noteq> 0 then bbind (kfree cpu pa) (\<lambda>_ s. (BRet (- 1), s)) else (\<lambda>s. (BRet 0, s)))
                     (s\<lparr>mem := memset (mem s) pa 0 PGSIZE\<rparr>))
              else (BRet (- 1), s)) s)"

text \<open>The physical address of a user page for a copy; \<open>eup\<close> is \<^verbatim>\<open>ensure_user_page\<close> for the current process.\<close>

definition user_page :: "nat \<Rightarrow> nat \<times> nat \<Rightarrow> (nat \<Rightarrow> nat \<Rightarrow> nat \<Rightarrow> int vop) \<Rightarrow> nat \<Rightarrow> nat \<Rightarrow> nat \<Rightarrow> nat option vop" where
  "user_page cpu t eup cause pagetable va0 =
     bbind (walkaddr cpu t pagetable va0) (\<lambda>pa0.
       if pa0 = 0 then
         bbind (eup pagetable va0 cause) (\<lambda>r.
           if r < 0 then (\<lambda>s. (BRet None, s))
           else bbind (walkaddr cpu t pagetable va0) (\<lambda>pa0 s. (BRet (Some pa0), s)))
       else (\<lambda>s. (BRet (Some pa0), s)))"

function copyout :: "nat \<Rightarrow> nat \<times> nat \<Rightarrow> (nat \<Rightarrow> nat \<Rightarrow> nat \<Rightarrow> int vop) \<Rightarrow> nat \<Rightarrow> nat \<Rightarrow> nat list \<Rightarrow> int vop" where
  "copyout cpu t eup pagetable dstva src s =
     (if src = [] then (BRet 0, s)
      else
        (let va0 = PGROUNDDOWN dstva; n = min (PGSIZE - (dstva - va0)) (length src) in
         case bbind (user_page cpu t eup 15 pagetable va0) (\<lambda>pa0.
                case pa0 of
                  None \<Rightarrow> (\<lambda>s. (BRet 0, s))
                | Some pa0 \<Rightarrow>
                    bbind (cowpage cpu pagetable va0) (\<lambda>r.
                      if r = 0 then cowalloc cpu t pagetable va0 else (\<lambda>s. (BRet pa0, s)))) s of
           (BRet pa0, s) \<Rightarrow>
             (if pa0 = 0 then (BRet (- 1), s)
              else copyout cpu t eup pagetable (va0 + PGSIZE) (drop n src)
                     (s\<lparr>mem := put_bytes (mem s) (pa0 + (dstva - va0)) (take n src)\<rparr>))
         | (BPanic e, s) \<Rightarrow> (BPanic e, s)
         | (BSleep i, s) \<Rightarrow> (BSleep i, s)))"
  by pat_completeness auto

lemma page_rest: "0 < PGSIZE - (a - PGROUNDDOWN a)"
proof -
  have "a - PGROUNDDOWN a = a mod PGSIZE" by (simp add: PGROUNDDOWN_def minus_div_mult_eq_mod)
  then show ?thesis by simp
qed

termination copyout
proof (relation "measure (\<lambda>(cpu, t, eup, pt, a, src, s). length src)")
  fix src :: "nat list" and dstva va0 n :: nat
  assume "src \<noteq> []" "va0 = PGROUNDDOWN dstva" "n = min (PGSIZE - (dstva - va0)) (length src)"
  then have "0 < n" using page_rest [of dstva] by simp
  then show "((cpu, t, eup, pt, va0 + PGSIZE, drop n src, s'), cpu, t, eup, pt, dstva, src, s) \<in> measure (\<lambda>(cpu, t, eup, pt, a, src, s). length src)"
    for cpu t eup pt s s' using \<open>src \<noteq> []\<close> by simp
qed simp

declare copyout.simps [simp del]

text \<open>\<^verbatim>\<open>copyin\<close> and \<^verbatim>\<open>copyinstr\<close> return their result and the bytes they stored.\<close>

function copyin :: "nat \<Rightarrow> nat \<times> nat \<Rightarrow> (nat \<Rightarrow> nat \<Rightarrow> nat \<Rightarrow> int vop) \<Rightarrow> nat \<Rightarrow> nat \<Rightarrow> nat \<Rightarrow> (int \<times> nat list) vop" where
  "copyin cpu t eup pagetable srcva len s =
     (if len = 0 then (BRet (0, []), s)
      else
        (let va0 = PGROUNDDOWN srcva; n = min (PGSIZE - (srcva - va0)) len in
         case user_page cpu t eup 13 pagetable va0 s of
           (BRet None, s) \<Rightarrow> (BRet (- 1, []), s)
         | (BRet (Some pa0), s) \<Rightarrow>
             (if pa0 = 0 then (BRet (- 1, []), s)
              else bbind (copyin cpu t eup pagetable (va0 + PGSIZE) (len - n))
                     (\<lambda>(r, bs) s'. (BRet (r, get_bytes (mem s) (pa0 + (srcva - va0)) n @ bs), s')) s)
         | (BPanic e, s) \<Rightarrow> (BPanic e, s)
         | (BSleep i, s) \<Rightarrow> (BSleep i, s)))"
  by pat_completeness auto
termination
proof (relation "measure (\<lambda>(cpu, t, eup, pt, a, len, s). len)")
  fix len srcva va0 n :: nat
  assume "len \<noteq> 0" "va0 = PGROUNDDOWN srcva" "n = min (PGSIZE - (srcva - va0)) len"
  then show "((cpu, t, eup, pt, va0 + PGSIZE, len - n, s'), cpu, t, eup, pt, srcva, len, s) \<in> measure (\<lambda>(cpu, t, eup, pt, a, len, s). len)"
    for cpu t eup pt s s' using page_rest [of srcva] by simp
qed simp

declare copyin.simps [simp del]

text \<open>The inner loop of \<^verbatim>\<open>copyinstr\<close>: the bytes up to and with the first zero, and whether there is one.\<close>

primrec copy_page_str :: "(nat \<Rightarrow> nat) \<Rightarrow> nat \<Rightarrow> nat \<Rightarrow> nat list \<times> bool" where
  "copy_page_str m p 0 = ([], False)"
| "copy_page_str m p (Suc n) =
     (if m p = 0 then ([0], True) else (let (bs, got_null) = copy_page_str m (p + 1) n in (m p # bs, got_null)))"

function copyinstr :: "nat \<Rightarrow> nat \<times> nat \<Rightarrow> (nat \<Rightarrow> nat \<Rightarrow> nat \<Rightarrow> int vop) \<Rightarrow> nat \<Rightarrow> nat \<Rightarrow> nat \<Rightarrow> (int \<times> nat list) vop" where
  "copyinstr cpu t eup pagetable srcva maxn s =
     (if maxn = 0 then (BRet (- 1, []), s)
      else
        (let va0 = PGROUNDDOWN srcva; n = min (PGSIZE - (srcva - va0)) maxn in
         case user_page cpu t eup 13 pagetable va0 s of
           (BRet None, s) \<Rightarrow> (BRet (- 1, []), s)
         | (BRet (Some pa0), s) \<Rightarrow>
             (if pa0 = 0 then (BRet (- 1, []), s)
              else
                (let (bs, got_null) = copy_page_str (mem s) (pa0 + (srcva - va0)) n in
                 if got_null then (BRet (0, bs), s)
                 else bbind (copyinstr cpu t eup pagetable (va0 + PGSIZE) (maxn - n)) (\<lambda>(r, bs') s'. (BRet (r, bs @ bs'), s')) s))
         | (BPanic e, s) \<Rightarrow> (BPanic e, s)
         | (BSleep i, s) \<Rightarrow> (BSleep i, s)))"
  by pat_completeness auto
termination
proof (relation "measure (\<lambda>(cpu, t, eup, pt, a, len, s). len)")
  fix len srcva va0 n :: nat
  assume "len \<noteq> 0" "va0 = PGROUNDDOWN srcva" "n = min (PGSIZE - (srcva - va0)) len"
  then show "((cpu, t, eup, pt, va0 + PGSIZE, len - n, s'), cpu, t, eup, pt, srcva, len, s) \<in> measure (\<lambda>(cpu, t, eup, pt, a, len, s). len)"
    for cpu t eup pt s s' using page_rest [of srcva] by simp
qed simp

declare copyinstr.simps [simp del]

subsection \<open>Entries and frames\<close>

definition entry_set :: "vm \<Rightarrow> vm \<Rightarrow> nat \<Rightarrow> nat \<Rightarrow> nat \<Rightarrow> bool" where
  "entry_set s s' r v e \<longleftrightarrow> (\<forall>w < NVPN. pte_of (mem s') r w = (if w = v then e else pte_of (mem s) r w))"

definition same_entries :: "vm \<Rightarrow> vm \<Rightarrow> nat \<Rightarrow> bool" where
  "same_entries s s' r \<longleftrightarrow> (\<forall>w < NVPN. pte_of (mem s') r w = pte_of (mem s) r w)"

lemma same_entriesI: "pte_of (mem s') r = pte_of (mem s) r \<Longrightarrow> same_entries s s' r"
  by (simp add: same_entries_def)

text \<open>\<open>frames m r A\<close>: the pages that the entries for the page numbers in \<open>A\<close> refer to.\<close>

definition frames :: "(nat \<Rightarrow> nat) \<Rightarrow> nat \<Rightarrow> nat set \<Rightarrow> nat multiset" where
  "frames m r A = image_mset (\<lambda>v. PTE2PA (pte_of m r v)) (mset_set {v \<in> A. pte_V (pte_of m r v)})"

definition frame_of :: "nat \<Rightarrow> nat multiset" where
  "frame_of e = (if pte_V e then {#PTE2PA e#} else {#})"

lemma frames_empty [simp]: "frames m r {} = {#}"
  by (simp add: frames_def)

lemma frames_insert: "finite A \<Longrightarrow> v \<notin> A \<Longrightarrow> frames m r (insert v A) = frame_of (pte_of m r v) + frames m r A"
proof -
  assume a: "finite A" "v \<notin> A"
  have "{w \<in> insert v A. pte_V (pte_of m r w)} =
      (if pte_V (pte_of m r v) then insert v {w \<in> A. pte_V (pte_of m r w)} else {w \<in> A. pte_V (pte_of m r w)})" by auto
  then show ?thesis using a by (simp add: frames_def frame_of_def)
qed

lemma frames_cong: "(\<And>v. v \<in> A \<Longrightarrow> pte_of m' r v = pte_of m r v) \<Longrightarrow> frames m' r A = frames m r A"
proof -
  assume a: "\<And>v. v \<in> A \<Longrightarrow> pte_of m' r v = pte_of m r v"
  then have e: "{v \<in> A. pte_V (pte_of m' r v)} = {v \<in> A. pte_V (pte_of m r v)}" by auto
  have i: "w \<in> A" if "w \<in># mset_set {v \<in> A. pte_V (pte_of m r v)}" for w
    using that by (cases "finite {v \<in> A. pte_V (pte_of m r v)}") auto
  show ?thesis unfolding frames_def e by (rule image_mset_cong) (simp add: a [OF i])
qed

lemma frames_Un:
  assumes "finite A" "finite B" "A \<inter> B = {}"
  shows "frames m r (A \<union> B) = frames m r A + frames m r B"
  using assms(2,3)
proof (induction B rule: finite_induct)
  case (insert v B)
  have "frames m r (insert v (A \<union> B)) = frame_of (pte_of m r v) + frames m r (A \<union> B)"
    using insert.hyps insert.prems assms(1) by (intro frames_insert) auto
  then show ?case using insert by (simp add: frames_insert)
qed simp

lemma frames_upd:
  assumes "finite A" "v \<in> A" "\<And>w. w \<in> A \<Longrightarrow> pte_of m' r w = (if w = v then e else pte_of m r w)"
  shows "frames m' r A + frame_of (pte_of m r v) = frames m r A + frame_of e"
proof -
  have A: "A = insert v (A - {v})" using assms(2) by auto
  have "frames m' r (A - {v}) = frames m r (A - {v})" by (rule frames_cong) (use assms(3) in auto)
  moreover have "pte_of m' r v = e" using assms(3) [OF assms(2)] by simp
  ultimately show ?thesis using frames_insert [of "A - {v}" v m r] frames_insert [of "A - {v}" v m' r] assms(1) A by simp
qed

text \<open>What happens outside the tables does not change the address space.\<close>

lemma tables_frame:
  assumes t: "tables s r X" and same: "\<And>p a. p \<in> nodes (mem s) r \<Longrightarrow> inpage p a \<Longrightarrow> mem s' a = mem s a"
    and acc: "pool.accounted (s', mset_set (nodes (mem s) r) + X')" and X': "\<And>p. p \<in> nodes (mem s) r \<Longrightarrow> p \<notin># X'"
  shows "tables s' r X'" "pte_of (mem s') r = pte_of (mem s) r" "node_ok n \<Longrightarrow> tab (mem s') r n = tab (mem s) r n"
    "nodes (mem s') r = nodes (mem s) r"
proof -
  note D = tablesD [OF t]
  show N: "nodes (mem s') r = nodes (mem s) r" by (rule nodes_same) (use same in auto)
  have "tree_ok (mem s') r" by (rule tree_ok_same [OF D(2)]) (use same in auto)
  then show "tables s' r X'" using acc X' D(3) N by (simp add: tables_def)
  show "pte_of (mem s') r = pte_of (mem s) r" by (rule ext, rule pte_same) (use same in auto)
  show "node_ok n \<Longrightarrow> tab (mem s') r n = tab (mem s) r n" by (rule tab_same) (use same in auto)
qed

lemma kept_touched:
  assumes "touched f s s'" "f \<in> pages s" "\<And>p. p \<in># X \<Longrightarrow> p \<in> pages s" "f \<in># X \<longrightarrow> mem s' = mem s"
  shows "kept X s s'"
proof -
  have "mem s' a = mem s a" if "p \<in># X" "inpage p a" for p a
  proof (cases "p = f")
    case False
    have "\<not> inpage f a" using inpage_unique [OF that(2) _ page_small(2) [OF assms(3) [OF that(1)]] page_small(2) [OF assms(2)]] False by blast
    then show ?thesis using assms(1) by (simp add: touched_def)
  qed (use assms(4) that(1) in simp)
  then show ?thesis using assms(1) by (simp add: kept_def touched_def)
qed

subsection \<open>Mapping and unmapping pages\<close>

lemma PGROUNDDOWN_page [simp]: "PGROUNDDOWN (v * PGSIZE) = v * PGSIZE"
  by (simp add: PGROUNDDOWN_def)

lemma last_page: "v < NVPN \<Longrightarrow> PGROUNDDOWN ((v * PGSIZE + PGSIZE + (2 ^ 64 - 1)) mod 2 ^ 64) = v * PGSIZE"
proof -
  assume v: "v < NVPN"
  have "(v * PGSIZE + PGSIZE + (2 ^ 64 - 1)) mod 2 ^ 64 = (v * PGSIZE + 4095 + 2 ^ 64) mod 2 ^ 64" by simp
  also have "\<dots> = (v * PGSIZE + 4095) mod 2 ^ 64" by (rule mod_add_self2)
  also have "\<dots> = v * PGSIZE + 4095" using v by (intro mod_less) simp
  finally show ?thesis by (simp add: PGROUNDDOWN_def)
qed

lemma mappages_page:
  assumes "tables s r X" "cpu < NCPU" "v < NVPN" "\<not> pte_V (pte_of (mem s) r v)" "pa < 2 ^ 56" "pa mod PGSIZE = 0" "perm < 1024"
  shows "\<exists>res s'. mappages cpu r (v * PGSIZE) PGSIZE pa perm s = (BRet res, s') \<and> tables s' r X \<and> kept X s s' \<and> costs 2 s s' \<and>
    (res = 0 \<and> entry_set s s' r v (leaf pa perm) \<or> res = - 1 \<and> same_entries s s' r \<and> free_pages s' = {})"
proof -
  have pre: "v + 0 < NVPN" "pa + 0 * PGSIZE < 2 ^ 56" "\<And>w. v \<le> w \<Longrightarrow> w \<le> v + 0 \<Longrightarrow> \<not> pte_V (pte_of (mem s) r w)"
    using assms(3-5) by auto
  from mappages_loop_spec [OF assms(1,2) pre(1) assms(6) pre(2) assms(7) pre(3)] obtain res j s' where
    l: "mappages_loop cpu r ((v + 0) * PGSIZE) perm (v * PGSIZE) pa s = (BRet res, s')" "tables s' r X" "kept X s s'" "costs (2 * Suc 0) s s'"
      "added s s' r v j (\<lambda>w. leaf (pa + (w - v) * PGSIZE) perm)" "res = 0 \<and> j = Suc 0 \<or> res = - 1 \<and> j \<le> 0 \<and> free_pages s' = {}" by blast
  have run: "mappages cpu r (v * PGSIZE) PGSIZE pa perm s = (BRet res, s')"
    using l(1) by (simp only: mappages_def last_page [OF assms(3)] PGROUNDDOWN_page add_0_right)
  have "entry_set s s' r v (leaf pa perm)" if "j = Suc 0"
    unfolding entry_set_def
  proof (intro allI impI)
    fix w :: nat assume "w < NVPN"
    from addedD [OF l(5) this] show "pte_of (mem s') r w = (if w = v then leaf pa perm else pte_of (mem s) r w)"
      using that by (cases "w = v") auto
  qed
  moreover have "same_entries s s' r" if "j = 0" using l(5) that by (simp add: added_def same_entries_def)
  ultimately show ?thesis using run l(2-4,6) by (intro exI [of _ res] exI [of _ s']) auto
qed

text \<open>An entry that unmapping can deal with without swap slots: a leaf, or not in use.\<close>

definition plain :: "nat \<Rightarrow> bool" where
  "plain e \<longleftrightarrow> (if pte_V e then PTE_FLAGS e \<noteq> 1 else \<not> pte_S e)"

lemma unmap_page:
  assumes t: "tables s r (frame_of (pte_of (mem s) r v) + X)" and c: "cpu < NCPU" and v: "v < NVPN" "plain (pte_of (mem s) r v)"
  shows "\<exists>s'. uvmunmap_page cpu r True (v * PGSIZE) s = (BRet (), s') \<and> tables s' r X \<and> kept X s s' \<and> entry_set s s' r v 0"
proof -
  let ?e = "pte_of (mem s) r v"
  have va: "v * PGSIZE < MAXVA" "v * PGSIZE div PGSIZE = v" using v(1) by simp_all
  note W = walk_look [OF va(1), of cpu r s, unfolded va(2)] and D = tablesD [OF t]
  show ?thesis
  proof (cases "pte_slot (mem s) r v = 0")
    case True
    then have "?e = 0" by (rule slot_pte(1) [OF t])
    then have "tables s r X" "entry_set s s r v 0" using t by (simp_all add: frame_of_def entry_set_def)
    then show ?thesis using W True by (intro exI [of _ s]) (simp add: uvmunmap_page_def bbind_def)
  next
    case False
    from slot_pte(2) [OF t False] obtain p where p: "tab (mem s) r (low_of v) = Some p" "pte_slot (mem s) r v = p + 8 * (v mod 512)"
      "ld_pte (pte_slot (mem s) r v) s = ?e" by blast
    have st: "tables (st_pte (pte_slot (mem s) r v) 0 s1) r X \<and> kept X s (st_pte (pte_slot (mem s) r v) 0 s1) \<and>
        entry_set s (st_pte (pte_slot (mem s) r v) 0 s1) r v 0"
      if s1: "tables s1 r X" "kept X s s1" "pte_of (mem s1) r = pte_of (mem s) r" "tab (mem s1) r (low_of v) = Some p" for s1
    proof -
      note S = tables_store [OF s1(1,4) _ v(1), of 0, folded p(2)]
      show ?thesis using S(1,2) kept_trans [OF s1(2)] S(3) s1(3) by (simp add: entry_set_def)
    qed
    show ?thesis
    proof (cases "pte_V ?e")
      case False
      then have "tables s r X" using t by (simp add: frame_of_def)
      from st [OF this kept_refl refl p(1)] show ?thesis using W False v(2) p(3) \<open>pte_slot (mem s) r v \<noteq> 0\<close>
        by (intro exI [of _ "st_pte (pte_slot (mem s) r v) 0 s"]) (simp add: uvmunmap_page_def bbind_def plain_def)
    next
      case True
      then have "pool.accounted (s, add_mset (PTE2PA ?e) (mset_set (nodes (mem s) r) + X))" using D(1) by (simp add: frame_of_def)
      from kfree_held [OF this c] obtain s1 where s1: "kfree cpu (PTE2PA ?e) s = (BRet (), s1)" "pool.accounted (s1, mset_set (nodes (mem s) r) + X)"
        "touched (PTE2PA ?e) s s1" "PTE2PA ?e \<in># mset_set (nodes (mem s) r) + X \<longrightarrow> mem s1 = mem s" by blast
      have fp: "PTE2PA ?e \<in> pages s" "PTE2PA ?e \<notin> nodes (mem s) r" using D(4,6) True by (auto simp: frame_of_def)
      have kn: "kept (mset_set (nodes (mem s) r) + X) s s1"
        by (rule kept_touched [OF s1(3) fp(1)]) (use s1(4) D(3,5,6) in auto)
      then have nd: "mem s1 a = mem s a" if "p \<in> nodes (mem s) r" "inpage p a" for p a using that D(3) by (auto simp: kept_def)
      have k1: "kept X s s1" using kn by (simp add: kept_def)
      have nX: "p \<notin># X" if "p \<in> nodes (mem s) r" for p using D(4) [OF that] by simp
      have t1: "tables s1 r X" "pte_of (mem s1) r = pte_of (mem s) r" "tab (mem s1) r (low_of v) = tab (mem s) r (low_of v)"
        using nd nX by (auto intro!: tables_frame [OF t _ s1(2)])
      from st [OF t1(1) k1 t1(2)] t1(3) p(1) W True v(2) p(3) s1(1) False show ?thesis
        by (intro exI [of _ "st_pte (pte_slot (mem s) r v) 0 s1"]) (simp add: uvmunmap_page_def bbind_def plain_def)
    qed
  qed
qed

lemma plain_cong: "entry_set s s' r v e \<Longrightarrow> w < NVPN \<Longrightarrow> w \<noteq> v \<Longrightarrow> plain (pte_of (mem s) r w) \<Longrightarrow> plain (pte_of (mem s') r w)"
  by (simp add: entry_set_def)

lemma unmap_loop:
  assumes "tables s r (frames (mem s) r {v..<v + k} + X)" "cpu < NCPU" "v + k \<le> NVPN" "\<And>w. v \<le> w \<Longrightarrow> w < v + k \<Longrightarrow> plain (pte_of (mem s) r w)"
  shows "\<exists>s'. uvmunmap_loop cpu r True ((v + k) * PGSIZE) (v * PGSIZE) s = (BRet (), s') \<and> tables s' r X \<and> kept X s s' \<and> added s s' r v k (\<lambda>_. 0)"
  using assms
proof (induction k arbitrary: v s)
  case 0
  then show ?case by (intro exI [of _ s]) (simp add: uvmunmap_loop.simps added_def)
next
  case (Suc k v s)
  have v: "v < NVPN" "Suc v + k \<le> NVPN" using Suc.prems(3) by simp_all
  have "{v..<v + Suc k} = insert v {Suc v..<Suc v + k}" by auto
  then have f: "frames (mem s) r {v..<v + Suc k} = frame_of (pte_of (mem s) r v) + frames (mem s) r {Suc v..<Suc v + k}"
    by (simp add: frames_insert)
  have "tables s r (frame_of (pte_of (mem s) r v) + (frames (mem s) r {Suc v..<Suc v + k} + X))" using Suc.prems(1) unfolding f by (simp add: ac_simps)
  from unmap_page [OF this Suc.prems(2) v(1)] Suc.prems(4) [of v] obtain s1 where
    1: "uvmunmap_page cpu r True (v * PGSIZE) s = (BRet (), s1)" "tables s1 r (frames (mem s) r {Suc v..<Suc v + k} + X)"
      "kept (frames (mem s) r {Suc v..<Suc v + k} + X) s s1" "entry_set s s1 r v 0" by auto
  have "frames (mem s1) r {Suc v..<Suc v + k} = frames (mem s) r {Suc v..<Suc v + k}"
    using 1(4) v(2) by (intro frames_cong) (auto simp: entry_set_def)
  then have t1: "tables s1 r (frames (mem s1) r {Suc v..<Suc v + k} + X)" using 1(2) by simp
  have "plain (pte_of (mem s1) r w)" if "Suc v \<le> w" "w < Suc v + k" for w
    using that v(2) Suc.prems(4) [of w] by (intro plain_cong [OF 1(4)]) auto
  from Suc.IH [OF t1 Suc.prems(2) v(2) this] obtain s2 where
    2: "uvmunmap_loop cpu r True ((Suc v + k) * PGSIZE) (Suc v * PGSIZE) s1 = (BRet (), s2)" "tables s2 r X" "kept X s1 s2" "added s1 s2 r (Suc v) k (\<lambda>_. 0)" by blast
  have "v * PGSIZE + PGSIZE = Suc v * PGSIZE" "(v + Suc k) * PGSIZE = (Suc v + k) * PGSIZE" "v * PGSIZE < (v + Suc k) * PGSIZE" by simp_all
  then have "uvmunmap_loop cpu r True ((v + Suc k) * PGSIZE) (v * PGSIZE) s = (BRet (), s2)"
    using 1(1) 2(1) by (subst uvmunmap_loop.simps) (simp add: add.commute)
  moreover have "kept X s s2" using 1(3) 2(3) by (auto simp: kept_def)
  moreover have "added s s2 r v (Suc k) (\<lambda>_. 0)" using 1(4) by (intro added_Suc [OF _ 2(4)]) (simp add: entry_set_def)
  ultimately show ?case using 2(2) by blast
qed

lemma uvmunmap_spec:
  assumes "tables s r (frames (mem s) r {v..<v + k} + X)" "cpu < NCPU" "v + k \<le> NVPN" "\<And>w. v \<le> w \<Longrightarrow> w < v + k \<Longrightarrow> plain (pte_of (mem s) r w)"
  shows "\<exists>s'. uvmunmap cpu r (v * PGSIZE) k True s = (BRet (), s') \<and> tables s' r X \<and> kept X s s' \<and> added s s' r v k (\<lambda>_. 0)"
proof -
  have "(v * PGSIZE + k * PGSIZE) mod 2 ^ 64 = v * PGSIZE + k * PGSIZE" using assms(3) by (intro mod_less) simp
  then have "uvmunmap cpu r (v * PGSIZE) k True s = uvmunmap_loop cpu r True ((v + k) * PGSIZE) (v * PGSIZE) s"
    by (simp add: uvmunmap_def add_mult_distrib)
  then show ?thesis using unmap_loop [OF assms] by simp
qed

text \<open>The number of pages that hold \<open>x\<close> bytes.\<close>

definition pgs :: "nat \<Rightarrow> nat" where
  "pgs x = (x + 4095) div PGSIZE"

lemma PGROUNDUP_pgs: "x \<le> MAXVA \<Longrightarrow> PGROUNDUP x = pgs x * PGSIZE"
  by (simp add: PGROUNDUP_def pgs_def)

lemma pgs_mono: "x \<le> y \<Longrightarrow> pgs x \<le> pgs y"
  unfolding pgs_def by (rule div_le_mono) simp

lemma pgs_page [simp]: "pgs (v * PGSIZE) = v"
  by (simp add: pgs_def)

lemma pgs_MAXVA: "x \<le> MAXVA \<Longrightarrow> pgs x \<le> NVPN"
  using pgs_mono [of x MAXVA] by (simp add: pgs_def)

lemma pgs_less: "v * PGSIZE < x \<longleftrightarrow> v < pgs x"
proof -
  have "v < pgs x \<longleftrightarrow> Suc v \<le> (x + 4095) div PGSIZE" by (simp add: pgs_def Suc_le_eq)
  also have "\<dots> \<longleftrightarrow> Suc v * PGSIZE \<le> x + 4095" by (simp add: less_eq_div_iff_mult_less_eq)
  also have "\<dots> \<longleftrightarrow> v * PGSIZE < x" by auto
  finally show ?thesis by simp
qed

lemma npages_id: "k \<le> NVPN \<Longrightarrow> nat (u64 (i32 (int k))) = k"
  by (simp add: i32_def u64_def)

lemma uvmdealloc_spec:
  assumes t: "tables s r (frames (mem s) r {pgs newsz..<pgs oldsz} + X)" and c: "cpu < NCPU" and sz: "newsz < oldsz" "oldsz \<le> MAXVA"
    and p: "\<And>w. pgs newsz \<le> w \<Longrightarrow> w < pgs oldsz \<Longrightarrow> plain (pte_of (mem s) r w)"
  shows "\<exists>s'. uvmdealloc cpu r oldsz newsz s = (BRet newsz, s') \<and> tables s' r X \<and> kept X s s' \<and>
    added s s' r (pgs newsz) (pgs oldsz - pgs newsz) (\<lambda>_. 0)"
proof -
  have le: "pgs newsz \<le> pgs oldsz" "pgs oldsz \<le> NVPN" "PGROUNDUP newsz = pgs newsz * PGSIZE" "PGROUNDUP oldsz = pgs oldsz * PGSIZE"
    using sz pgs_mono [of newsz oldsz] pgs_MAXVA [of oldsz] PGROUNDUP_pgs [of newsz] PGROUNDUP_pgs [of oldsz] by simp_all
  define k where "k = pgs oldsz - pgs newsz"
  have k: "pgs newsz + k = pgs oldsz" "k \<le> NVPN" "(pgs oldsz * PGSIZE - pgs newsz * PGSIZE) div PGSIZE = k"
    using le(1,2) by (simp_all add: k_def flip: diff_mult_distrib)
  show ?thesis
  proof (cases "k = 0")
    case True
    then have "pgs newsz = pgs oldsz" using k(1) by simp
    then show ?thesis using t sz(1) le(3,4) by (intro exI [of _ s]) (simp add: uvmdealloc_def added_def bbind_def)
  next
    case False
    from uvmunmap_spec [of s r "pgs newsz" k X cpu] t c k(1) le(2) p obtain s' where
      s': "uvmunmap cpu r (pgs newsz * PGSIZE) k True s = (BRet (), s')" "tables s' r X" "kept X s s'" "added s s' r (pgs newsz) k (\<lambda>_. 0)" by auto
    have "pgs newsz * PGSIZE < pgs oldsz * PGSIZE" using False k(1) by simp
    then have "uvmdealloc cpu r oldsz newsz s = (BRet newsz, s')"
      using s'(1) sz(1) unfolding uvmdealloc_def le(3,4) k(3) npages_id [OF k(2)] by (simp add: bbind_def)
    then show ?thesis using s'(2-4) by (auto simp: k_def)
  qed
qed

subsection \<open>Growing\<close>

text \<open>A new page, which its owner has filled.\<close>

lemma tables_kalloc:
  assumes t: "tables s r X" and c: "cpu < NCPU"
  shows "(kalloc_try cpu s = (0, s) \<and> free_pages s = {}) \<or>
    (\<exists>p s1. kalloc_try cpu s = (p, s1) \<and> p \<noteq> 0 \<and> p \<in> pages s \<and> p \<notin># X \<and> p \<notin> nodes (mem s) r \<and> touched p s s1 \<and>
      (\<forall>m. (\<forall>a. \<not> inpage p a \<longrightarrow> m a = mem s a) \<longrightarrow>
        tables (s1\<lparr>mem := m\<rparr>) r (add_mset p X) \<and> kept X s (s1\<lparr>mem := m\<rparr>) \<and> pte_of m r = pte_of (mem s) r \<and> costs 1 s (s1\<lparr>mem := m\<rparr>) \<and>
        (\<forall>n. node_ok n \<longrightarrow> tab m r n = tab (mem s) r n)))"
proof -
  note D = tablesD [OF t]
  from kalloc_held [OF D(1) c] show ?thesis
  proof (elim disjE exE conjE)
    fix p s1
    assume p: "kalloc_try cpu s = (p, s1)" "p \<in> pages s" "p \<noteq> 0" "p \<notin># mset_set (nodes (mem s) r) + X"
      "pool.accounted (s1, add_mset p (mset_set (nodes (mem s) r) + X))" "touched p s s1"
    have "tables (s1\<lparr>mem := m\<rparr>) r (add_mset p X) \<and> kept X s (s1\<lparr>mem := m\<rparr>) \<and> pte_of m r = pte_of (mem s) r \<and> costs 1 s (s1\<lparr>mem := m\<rparr>) \<and>
        (\<forall>n. node_ok n \<longrightarrow> tab m r n = tab (mem s) r n)"
      if m: "\<forall>a. \<not> inpage p a \<longrightarrow> m a = mem s a" for m
    proof -
      let ?s = "s1\<lparr>mem := m\<rparr>"
      have acc: "pool.accounted (?s, add_mset p (mset_set (nodes (mem s) r) + X))"
        by (rule write_held [OF p(5), of p]) (use m p(6) in \<open>auto simp: touched_def\<close>)
      have tc: "touched p s ?s" using p(6) m by (simp add: touched_def)
      have k: "kept (mset_set (nodes (mem s) r) + X) s ?s"
        by (rule kept_touched [OF tc p(2)]) (use p(4) D(3,5,6) in auto)
      then have nd: "mem ?s a = mem s a" if "q \<in> nodes (mem s) r" "inpage q a" for q a using that D(3) by (auto simp: kept_def)
      have acc': "pool.accounted (?s, mset_set (nodes (mem s) r) + add_mset p X)" using acc by simp
      have nX: "q \<notin># add_mset p X" if "q \<in> nodes (mem s) r" for q using D(3) D(4) [OF that] p(4) that by auto
      have "tables ?s r (add_mset p X)" by (rule tables_frame(1) [OF t _ acc']) (use nd nX in auto)
      moreover have "pte_of (mem ?s) r = pte_of (mem s) r" by (rule tables_frame(2) [OF t _ acc']) (use nd nX in auto)
      moreover have "tab (mem ?s) r n = tab (mem s) r n" if "node_ok n" for n by (rule tables_frame(3) [OF t _ acc']) (use nd nX that in auto)
      moreover have "costs 1 s ?s" by (rule costs_accounted [OF D(1) acc, of "{p}"]) (use touched_pages [OF tc] in auto)
      ultimately show ?thesis using k by (simp add: kept_def)
    qed
    moreover have "p \<notin># X" "p \<notin> nodes (mem s) r" using p(4) D(3) by auto
    ultimately show ?thesis using p(1-3,6) by blast
  qed blast
qed

definition fresh_page :: "(nat \<Rightarrow> nat) \<Rightarrow> nat \<Rightarrow> nat multiset \<Rightarrow> nat \<Rightarrow> bool" where
  "fresh_page m r Y v \<longleftrightarrow> (\<exists>p. pte_of m r v = leaf p 30 \<and> count Y p = 1 \<and> p < 2 ^ 56 \<and> p mod PGSIZE = 0 \<and> (\<forall>a. inpage p a \<longrightarrow> m a = 0))"

lemma uvmalloc_page_spec:
  assumes t: "tables s r X" and c: "cpu < NCPU" and v: "v < NVPN" "\<not> pte_V (pte_of (mem s) r v)"
  shows "(\<exists>s'. uvmalloc_page cpu r (v * PGSIZE) s = (BRet False, s') \<and> tables s' r X \<and> kept X s s' \<and> same_entries s s' r \<and> card (free_pages s) \<le> 3) \<or>
    (\<exists>p s'. uvmalloc_page cpu r (v * PGSIZE) s = (BRet True, s') \<and> p \<notin># X \<and> tables s' r (add_mset p X) \<and> kept X s s' \<and>
       entry_set s s' r v (leaf p 30) \<and> fresh_page (mem s') r (add_mset p X) v \<and> costs 3 s s' \<and> p < 2 ^ 56 \<and> p mod PGSIZE = 0)"
proof -
  from tables_kalloc [OF t c] show ?thesis
  proof (elim disjE exE conjE)
    assume "kalloc_try cpu s = (0, s)" "free_pages s = {}"
    then show ?thesis using t by (intro disjI1 exI [of _ s]) (simp add: uvmalloc_page_def same_entries_def)
  next
    fix p s1
    assume p: "kalloc_try cpu s = (p, s1)" "p \<noteq> 0" "p \<in> pages s" "p \<notin># X" "p \<notin> nodes (mem s) r" "touched p s s1"
      and m: "\<forall>m. (\<forall>a. \<not> inpage p a \<longrightarrow> m a = mem s a) \<longrightarrow>
        tables (s1\<lparr>mem := m\<rparr>) r (add_mset p X) \<and> kept X s (s1\<lparr>mem := m\<rparr>) \<and> pte_of m r = pte_of (mem s) r \<and> costs 1 s (s1\<lparr>mem := m\<rparr>) \<and>
        (\<forall>n. node_ok n \<longrightarrow> tab m r n = tab (mem s) r n)"
    define s2 where "s2 = s1\<lparr>mem := memset (mem s1) p 0 PGSIZE\<rparr>"
    have z: "memset (mem s1) p 0 PGSIZE = (\<lambda>a. if inpage p a then 0 else mem s a)" by (rule memset_zero [OF p(6)])
    have 2: "tables s2 r (add_mset p X)" "kept X s s2" "pte_of (mem s2) r = pte_of (mem s) r" "costs 1 s s2"
      using m [rule_format, of "memset (mem s1) p 0 PGSIZE"] unfolding z by (simp_all add: s2_def z)
    have v2: "\<not> pte_V (pte_of (mem s2) r v)" using v(2) 2(3) by simp
    from mappages_page [OF 2(1) c v(1) v2 page_small [OF p(3)], of 30] obtain res s3 where
      3: "mappages cpu r (v * PGSIZE) PGSIZE p 30 s2 = (BRet res, s3)" "tables s3 r (add_mset p X)" "kept (add_mset p X) s2 s3" "costs 2 s2 s3"
        "res = 0 \<and> entry_set s2 s3 r v (leaf p 30) \<or> res = - 1 \<and> same_entries s2 s3 r \<and> free_pages s3 = {}" by auto
    have run: "uvmalloc_page cpu r (v * PGSIZE) s =
        (if res \<noteq> 0 then bbind (kfree cpu p) (\<lambda>_ s. (BRet False, s)) s3 else (BRet True, s3))"
      using p(1,2) 3(1) by (simp add: uvmalloc_page_def bbind_def s2_def)
    have k3: "kept X s s3" using kept_trans [OF 2(2), of s3] 3(3) by (simp add: kept_def)
    show ?thesis
    proof (cases "res = 0")
      case True
      then have e: "entry_set s s3 r v (leaf p 30)" using 3(5) 2(3) by (simp add: entry_set_def)
      have "mem s3 a = 0" if "inpage p a" for a using 3(3) that by (simp add: kept_def s2_def z)
      then have "fresh_page (mem s3) r (add_mset p X) v"
        using e v(1) p(4) page_small [OF p(3)] unfolding fresh_page_def entry_set_def by (intro exI [of _ p]) (simp add: not_in_iff)
      moreover have "costs 3 s s3" by (rule costs_trans [OF 2(4) 3(4)]) simp
      ultimately show ?thesis using run True p(4) 3(2) k3 e page_small [OF p(3)] by auto
    next
      case False
      then have f: "same_entries s2 s3 r" "free_pages s3 = {}" using 3(5) by auto
      note D = tablesD [OF 3(2)]
      have acc: "pool.accounted (s3, add_mset p (mset_set (nodes (mem s3) r) + X))" using D(1) by simp
      from kfree_held [OF acc c] obtain s4 where
        4: "kfree cpu p s3 = (BRet (), s4)" "pool.accounted (s4, mset_set (nodes (mem s3) r) + X)" "touched p s3 s4" by blast
      have pp: "p \<in> pages s3" "p \<notin> nodes (mem s3) r" using D(4) D(6) [of p] by auto
      have kk: "kept (mset_set (nodes (mem s3) r) + X) s3 s4"
        by (rule kept_touched [OF 4(3) pp(1)]) (use D(3,5,6) pp p(4) in auto)
      then have nd: "mem s4 a = mem s3 a" if "q \<in> nodes (mem s3) r" "inpage q a" for q a using that D(3) by (auto simp: kept_def)
      have nX: "q \<notin># X" if "q \<in> nodes (mem s3) r" for q using D(4) [OF that] by simp
      have t4: "tables s4 r X" "pte_of (mem s4) r = pte_of (mem s3) r" using nd nX by (auto intro!: tables_frame [OF 3(2) _ 4(2)])
      have "kept X s s4" using kept_trans [OF k3, of s4] kk by (simp add: kept_def)
      moreover have "same_entries s s4 r" using f(1) 2(3) t4(2) by (simp add: same_entries_def)
      moreover have "card (free_pages s) \<le> 3" using 2(4) 3(4) f(2) by (simp add: costs_def)
      ultimately show ?thesis using run False 4(1) t4(1) by (auto simp: bbind_def)
    qed
  qed
qed

lemma fresh_kept:
  assumes "fresh_page (mem s) r Y w" "kept Y s s'" "pte_of (mem s') r w = pte_of (mem s) r w" "p \<notin># Y"
  shows "fresh_page (mem s') r (add_mset p Y) w"
proof -
  from assms(1) obtain q where q: "pte_of (mem s) r w = leaf q 30" "count Y q = 1" "q < 2 ^ 56" "q mod PGSIZE = 0" "\<forall>a. inpage q a \<longrightarrow> mem s a = 0"
    by (auto simp: fresh_page_def)
  have "q \<in># Y" using q(2) by (metis count_inI zero_neq_one)
  then have "\<forall>a. inpage q a \<longrightarrow> mem s' a = 0" "q \<noteq> p" using assms(2,4) q(5) by (auto simp: kept_def)
  then show ?thesis using q assms(3) unfolding fresh_page_def by (intro exI [of _ q]) simp
qed

lemma fresh_plain: "fresh_page m r Y w \<Longrightarrow> plain (pte_of m r w) \<and> pte_V (pte_of m r w)"
proof -
  assume "fresh_page m r Y w"
  then obtain p where p: "pte_of m r w = leaf p 30" "p < 2 ^ 56" "p mod PGSIZE = 0" by (auto simp: fresh_page_def)
  have "PTE_FLAGS (leaf p 30) = 30 OR 1" "pte_V (leaf p 30)" using leaf_parts(3,4) [OF p(2,3), of 30] by simp_all
  then show ?thesis by (simp add: plain_def p(1))
qed

lemma frame_of_leaf: "p < 2 ^ 56 \<Longrightarrow> p mod PGSIZE = 0 \<Longrightarrow> perm < 1024 \<Longrightarrow> frame_of (leaf p perm) = {#p#}"
  using leaf_parts(2,4) [of p perm] by (simp add: frame_of_def)

lemma uvmalloc_undo:
  assumes t: "tables s r (frames (mem s) r {v0..<v} + X)" and c: "cpu < NCPU" and v: "v0 \<le> v" "v \<le> NVPN"
    and f: "\<And>w. v0 \<le> w \<Longrightarrow> w < v \<Longrightarrow> plain (pte_of (mem s) r w)"
  shows "\<exists>s'. bbind (uvmdealloc cpu r (v * PGSIZE) (v0 * PGSIZE)) (\<lambda>_ s. (BRet 0, s)) s = (BRet (0 :: nat), s') \<and> tables s' r X \<and> kept X s s' \<and>
    added s s' r v0 (v - v0) (\<lambda>_. 0)"
proof (cases "v0 = v")
  case True
  then show ?thesis using t by (intro exI [of _ s]) (simp add: uvmdealloc_def bbind_def added_def)
next
  case False
  then have "v0 * PGSIZE < v * PGSIZE" "v * PGSIZE \<le> MAXVA" using v by simp_all
  from uvmdealloc_spec [of s r "v0 * PGSIZE" "v * PGSIZE" X, unfolded pgs_page, OF t c this f] show ?thesis by (auto simp: bbind_def)
qed

lemma uvmalloc_loop_spec:
  assumes "tables s r (frames (mem s) r {v0..<v} + X)" "cpu < NCPU" "v0 \<le> v" "pgs newsz = v + k" "newsz \<le> MAXVA"
    "\<And>w. v0 \<le> w \<Longrightarrow> w < v \<Longrightarrow> fresh_page (mem s) r (frames (mem s) r {v0..<v} + X) w"
    "\<And>w. v \<le> w \<Longrightarrow> w < v + k \<Longrightarrow> \<not> pte_V (pte_of (mem s) r w)"
  shows "\<exists>res s'. uvmalloc_loop cpu r (v0 * PGSIZE) newsz (v * PGSIZE) s = (BRet res, s') \<and> kept X s s' \<and>
    (res = newsz \<and> tables s' r (frames (mem s') r {v0..<v + k} + X) \<and>
       (\<forall>w < NVPN. w \<notin> {v0..<v + k} \<longrightarrow> pte_of (mem s') r w = pte_of (mem s) r w) \<and>
       (\<forall>w \<in> {v0..<v + k}. fresh_page (mem s') r (frames (mem s') r {v0..<v + k} + X) w) \<or>
     res = 0 \<and> tables s' r X \<and> (\<forall>w < NVPN. w \<notin> {v0..<v + k} \<longrightarrow> pte_of (mem s') r w = pte_of (mem s) r w) \<and>
       (\<forall>w \<in> {v0..<v + k}. pte_of (mem s') r w = 0 \<or> pte_of (mem s') r w = pte_of (mem s) r w \<and> v \<le> w) \<and> card (free_pages s) \<le> 3 * k)"
  using assms
proof (induction k arbitrary: v s)
  case 0
  then have "\<not> v * PGSIZE < newsz" by (simp add: pgs_less)
  then have "uvmalloc_loop cpu r (v0 * PGSIZE) newsz (v * PGSIZE) s = (BRet newsz, s)" by (simp add: uvmalloc_loop.simps)
  then show ?case using 0 by (intro exI [of _ newsz] exI [of _ s]) auto
next
  case (Suc k v s)
  define Y where "Y = frames (mem s) r {v0..<v} + X"
  have lt: "v * PGSIZE < newsz" "v < NVPN" using Suc.prems(4) pgs_MAXVA [OF Suc.prems(5)] by (simp_all only: pgs_less)
  have tY: "tables s r Y" using Suc.prems(1) by (simp add: Y_def)
  have nv: "\<not> pte_V (pte_of (mem s) r v)" using Suc.prems(7) [of v] by simp
  from uvmalloc_page_spec [OF tY Suc.prems(2) lt(2) nv] show ?case
  proof (elim disjE exE conjE)
    fix s1 assume 1: "uvmalloc_page cpu r (v * PGSIZE) s = (BRet False, s1)" "tables s1 r Y" "kept Y s s1" "same_entries s s1 r" "card (free_pages s) \<le> 3"
    have "frames (mem s1) r {v0..<v} = frames (mem s) r {v0..<v}" using 1(4) lt(2) by (intro frames_cong) (simp add: same_entries_def)
    then have t1: "tables s1 r (frames (mem s1) r {v0..<v} + X)" using 1(2) by (simp add: Y_def)
    have pl: "plain (pte_of (mem s1) r w)" if "v0 \<le> w" "w < v" for w
      using fresh_plain [OF Suc.prems(6) [OF that]] 1(4) that lt(2) by (simp add: same_entries_def)
    from uvmalloc_undo [OF t1 Suc.prems(2,3) _ pl] lt(2) obtain s2 where
      2: "bbind (uvmdealloc cpu r (v * PGSIZE) (v0 * PGSIZE)) (\<lambda>_ s. (BRet 0, s)) s1 = (BRet (0 :: nat), s2)" "tables s2 r X" "kept X s1 s2"
        "added s1 s2 r v0 (v - v0) (\<lambda>_. 0)" by auto
    have run: "uvmalloc_loop cpu r (v0 * PGSIZE) newsz (v * PGSIZE) s = (BRet 0, s2)"
      using lt(1) 1(1) 2(1) by (subst uvmalloc_loop.simps) simp
    have e: "pte_of (mem s2) r w = (if v0 \<le> w \<and> w < v then 0 else pte_of (mem s) r w)" if "w < NVPN" for w
      using addedD [OF 2(4) that] 1(4) that Suc.prems(3) by (simp add: same_entries_def)
    have "kept X s s2" using 1(3) 2(3) by (auto simp: kept_def Y_def)
    moreover have "v + Suc k \<le> NVPN" using Suc.prems(4) pgs_MAXVA [OF Suc.prems(5)] by simp
    ultimately show ?thesis using run 2(2) e 1(5) by (intro exI [of _ 0] exI [of _ s2]) auto
  next
    fix p s1
    assume 1: "uvmalloc_page cpu r (v * PGSIZE) s = (BRet True, s1)" "p \<notin># Y" "tables s1 r (add_mset p Y)" "kept Y s s1"
      "entry_set s s1 r v (leaf p 30)" "fresh_page (mem s1) r (add_mset p Y) v" "costs 3 s s1" "p < 2 ^ 56" "p mod PGSIZE = 0"
    have lt': "v + Suc k \<le> NVPN" using Suc.prems(4) pgs_MAXVA [OF Suc.prems(5)] by simp
    have e: "pte_of (mem s1) r w = (if w = v then leaf p 30 else pte_of (mem s) r w)" if "w < NVPN" for w
      using 1(5) that by (simp add: entry_set_def)
    have "{v0..<Suc v} = insert v {v0..<v}" using Suc.prems(3) by auto
    moreover have "frames (mem s1) r {v0..<v} = frames (mem s) r {v0..<v}" using e lt(2) by (intro frames_cong) auto
    moreover have "frame_of (pte_of (mem s1) r v) = {#p#}"
      using e [OF lt(2)] frame_of_leaf [OF 1(8,9), of 30] by simp
    ultimately have f1: "frames (mem s1) r {v0..<Suc v} + X = add_mset p Y" by (simp add: frames_insert Y_def)
    have t1: "tables s1 r (frames (mem s1) r {v0..<Suc v} + X)" using 1(3) f1 by simp
    have fr: "fresh_page (mem s1) r (frames (mem s1) r {v0..<Suc v} + X) w" if "v0 \<le> w" "w < Suc v" for w
    proof (cases "w = v")
      case False
      then have "fresh_page (mem s) r Y w" using Suc.prems(6) [of w] that by (simp add: Y_def)
      moreover have "pte_of (mem s1) r w = pte_of (mem s) r w" using e [of w] False that lt(2) by simp
      ultimately show ?thesis unfolding f1 using fresh_kept [OF _ 1(4) _ 1(2)] by blast
    qed (use 1(6) f1 in simp)
    have nv1: "\<not> pte_V (pte_of (mem s1) r w)" if "Suc v \<le> w" "w < Suc v + k" for w
      using e [of w] that lt' Suc.prems(7) [of w] by simp
    have pre: "v0 \<le> Suc v" "pgs newsz = Suc v + k" using Suc.prems(3,4) by simp_all
    from Suc.IH [OF t1 Suc.prems(2) pre Suc.prems(5) fr nv1] obtain res s' where
      2: "uvmalloc_loop cpu r (v0 * PGSIZE) newsz (Suc v * PGSIZE) s1 = (BRet res, s')" "kept X s1 s'"
      and cs: "res = newsz \<and> tables s' r (frames (mem s') r {v0..<Suc v + k} + X) \<and>
       (\<forall>w < NVPN. w \<notin> {v0..<Suc v + k} \<longrightarrow> pte_of (mem s') r w = pte_of (mem s1) r w) \<and>
       (\<forall>w \<in> {v0..<Suc v + k}. fresh_page (mem s') r (frames (mem s') r {v0..<Suc v + k} + X) w) \<or>
     res = 0 \<and> tables s' r X \<and> (\<forall>w < NVPN. w \<notin> {v0..<Suc v + k} \<longrightarrow> pte_of (mem s') r w = pte_of (mem s1) r w) \<and>
       (\<forall>w \<in> {v0..<Suc v + k}. pte_of (mem s') r w = 0 \<or> pte_of (mem s') r w = pte_of (mem s1) r w \<and> Suc v \<le> w) \<and> card (free_pages s1) \<le> 3 * k"
      by blast
    have "v * PGSIZE + PGSIZE = Suc v * PGSIZE" by simp
    then have run: "uvmalloc_loop cpu r (v0 * PGSIZE) newsz (v * PGSIZE) s = (BRet res, s')"
      using lt(1) 1(1) 2(1) by (subst uvmalloc_loop.simps) (simp add: add.commute)
    have k: "kept X s s'" using 1(4) 2(2) by (auto simp: kept_def Y_def)
    have sv: "Suc v + k = v + Suc k" by simp
    have ent: "pte_of (mem s1) r w = pte_of (mem s) r w" if "w < NVPN" "w \<notin> {v0..<v + Suc k} \<or> Suc v \<le> w" for w
      using e [OF that(1)] that(2) Suc.prems(3) by auto
    have cd: "card (free_pages s) \<le> card (free_pages s1) + 3" using 1(7) by (simp add: costs_def)
    from cs show ?thesis
    proof (elim disjE conjE)
      assume a: "res = 0" "tables s' r X" "\<forall>w < NVPN. w \<notin> {v0..<Suc v + k} \<longrightarrow> pte_of (mem s') r w = pte_of (mem s1) r w"
        "\<forall>w \<in> {v0..<Suc v + k}. pte_of (mem s') r w = 0 \<or> pte_of (mem s') r w = pte_of (mem s1) r w \<and> Suc v \<le> w" "card (free_pages s1) \<le> 3 * k"
      have "pte_of (mem s') r w = 0 \<or> pte_of (mem s') r w = pte_of (mem s) r w \<and> v \<le> w" if "w \<in> {v0..<v + Suc k}" for w
        using a(4) that ent [of w] lt' unfolding sv by fastforce
      moreover have "pte_of (mem s') r w = pte_of (mem s) r w" if "w < NVPN" "w \<notin> {v0..<v + Suc k}" for w
        using a(3) ent [OF that(1)] that unfolding sv by simp
      ultimately show ?thesis using run k a(1,2,5) cd by (intro exI [of _ res] exI [of _ s']) auto
    next
      assume a: "res = newsz" "tables s' r (frames (mem s') r {v0..<Suc v + k} + X)"
        "\<forall>w < NVPN. w \<notin> {v0..<Suc v + k} \<longrightarrow> pte_of (mem s') r w = pte_of (mem s1) r w"
        "\<forall>w \<in> {v0..<Suc v + k}. fresh_page (mem s') r (frames (mem s') r {v0..<Suc v + k} + X) w"
      have "pte_of (mem s') r w = pte_of (mem s) r w" if "w < NVPN" "w \<notin> {v0..<v + Suc k}" for w
        using a(3) ent [OF that(1)] that unfolding sv by simp
      then show ?thesis using run k a(1,2,4) unfolding sv by (intro exI [of _ res] exI [of _ s']) auto
    qed
  qed
qed

end
