(* ===== verification/Spaces.thy ===== *)
theory Spaces
  imports Uvm
begin

section \<open>Isolation of address spaces\<close>

text \<open>
  All processes of the machine and the kernel together: every process grows, shrinks, forks, writes to its memory and takes
  copy-on-write faults, in any order, and the kernel takes, drops and writes pages of its own. In every state that can be reached
  no page is writable in one address space and visible in another, and no step of one process changes what another one sees.
\<close>

subsection \<open>The system\<close>

text \<open>
  A system is the memory, the sizes of the user memories by the root of their page table, and the pages the kernel holds for
  itself. \<open>ubyte\<close> is what a user program sees at an address.
\<close>

record system =
  vmem :: vm
  usize :: "nat \<rightharpoonup> nat"
  kpages :: "nat multiset"

definition uentry :: "vm \<Rightarrow> nat \<Rightarrow> nat \<Rightarrow> nat" where
  "uentry s r a = pte_of (mem s) r (a div PGSIZE)"

definition ubyte :: "vm \<Rightarrow> nat \<Rightarrow> nat \<Rightarrow> nat option" where
  "ubyte s r a = (if pte_V (uentry s r a) then Some (mem s (PTE2PA (uentry s r a) + a mod PGSIZE)) else None)"

text \<open>A store of a user program, to a page that is mapped, accessible and writable.\<close>

definition ustore :: "nat \<Rightarrow> nat \<Rightarrow> nat \<Rightarrow> vm \<Rightarrow> vm" where
  "ustore r a b s = s\<lparr>mem := (mem s)(PTE2PA (uentry s r a) + a mod PGSIZE := b)\<rparr>"

text \<open>
  The steps, with the root of the address space that makes them, 0 for the kernel. A fork that fails leaves the new table, without
  pages, to be freed.
\<close>

inductive vm_step :: "nat \<Rightarrow> system \<Rightarrow> system \<Rightarrow> bool" where
  create: "cpu < NCPU \<Longrightarrow> uvmcreate cpu s = (q, s') \<Longrightarrow> q \<noteq> 0 \<Longrightarrow>
    vm_step 0 \<lparr>vmem = s, usize = P, kpages = K\<rparr> \<lparr>vmem = s', usize = P(q \<mapsto> 0), kpages = K\<rparr>"
| grow: "cpu < NCPU \<Longrightarrow> P r = Some sz \<Longrightarrow> sz \<le> newsz \<Longrightarrow> newsz \<le> MAXVA \<Longrightarrow>
    (\<forall>v. pgs sz \<le> v \<longrightarrow> v < pgs newsz \<longrightarrow> pte_of (mem s) r v = 0) \<Longrightarrow> uvmalloc cpu r sz newsz s = (BRet z, s') \<Longrightarrow>
    vm_step r \<lparr>vmem = s, usize = P, kpages = K\<rparr> \<lparr>vmem = s', usize = (if z = 0 then P else P(r \<mapsto> z)), kpages = K\<rparr>"
| shrink: "cpu < NCPU \<Longrightarrow> P r = Some sz \<Longrightarrow> newsz < sz \<Longrightarrow> uvmdealloc cpu r sz newsz s = (BRet z, s') \<Longrightarrow>
    vm_step r \<lparr>vmem = s, usize = P, kpages = K\<rparr> \<lparr>vmem = s', usize = P(r \<mapsto> z), kpages = K\<rparr>"
| fork: "cpu < NCPU \<Longrightarrow> P r = Some sz \<Longrightarrow> P q = Some 0 \<Longrightarrow> q \<noteq> r \<Longrightarrow> (\<forall>v < pgs sz. pte_of (mem s) q v = 0) \<Longrightarrow>
    (\<forall>p \<in> pages s. refs_to s p < 2000000000) \<Longrightarrow> uvmcopy cpu r q sz s = (BRet z, s') \<Longrightarrow>
    vm_step r \<lparr>vmem = s, usize = P, kpages = K\<rparr> \<lparr>vmem = s', usize = (if z = 0 then P(q \<mapsto> sz) else P), kpages = K\<rparr>"
| cow: "cpu < NCPU \<Longrightarrow> P r = Some sz \<Longrightarrow> va mod PGSIZE = 0 \<Longrightarrow> va < sz \<Longrightarrow> pte_V (uentry s r va) \<Longrightarrow> pte_F (uentry s r va) \<Longrightarrow>
    cowalloc cpu t r va s = (BRet z, s') \<Longrightarrow>
    vm_step r \<lparr>vmem = s, usize = P, kpages = K\<rparr> \<lparr>vmem = s', usize = P, kpages = K\<rparr>"
| store: "P r = Some sz \<Longrightarrow> a < sz \<Longrightarrow> pte_V (uentry s r a) \<Longrightarrow> pte_U (uentry s r a) \<Longrightarrow> pte_W (uentry s r a) \<Longrightarrow>
    vm_step r \<lparr>vmem = s, usize = P, kpages = K\<rparr> \<lparr>vmem = ustore r a b s, usize = P, kpages = K\<rparr>"
| destroy: "cpu < NCPU \<Longrightarrow> P r = Some sz \<Longrightarrow> (\<forall>v. pgs sz \<le> v \<longrightarrow> v < NVPN \<longrightarrow> \<not> pte_V (pte_of (mem s) r v)) \<Longrightarrow>
    uvmfree cpu r sz s = (BRet (), s') \<Longrightarrow>
    vm_step r \<lparr>vmem = s, usize = P, kpages = K\<rparr> \<lparr>vmem = s', usize = P(r := None), kpages = K\<rparr>"
| kget: "cpu < NCPU \<Longrightarrow> kalloc_try cpu s = (p, s') \<Longrightarrow>
    vm_step 0 \<lparr>vmem = s, usize = P, kpages = K\<rparr> \<lparr>vmem = s', usize = P, kpages = (if p = 0 then K else add_mset p K)\<rparr>"
| kput: "cpu < NCPU \<Longrightarrow> p \<in># K \<Longrightarrow>
    vm_step 0 \<lparr>vmem = s, usize = P, kpages = K\<rparr> \<lparr>vmem = snd (kfree cpu p s), usize = P, kpages = K - {#p#}\<rparr>"
| kwrite: "p \<in># K \<Longrightarrow> inpage p a \<Longrightarrow>
    vm_step 0 \<lparr>vmem = s, usize = P, kpages = K\<rparr> \<lparr>vmem = set_byte a b s, usize = P, kpages = K\<rparr>"

subsection \<open>The invariant\<close>

definition own :: "(nat \<Rightarrow> nat) \<Rightarrow> nat \<Rightarrow> nat \<Rightarrow> nat multiset" where
  "own m r sz = mset_set (nodes m r) + frames m r {..<pgs sz}"

definition rest :: "vm \<Rightarrow> (nat \<rightharpoonup> nat) \<Rightarrow> nat multiset \<Rightarrow> nat \<Rightarrow> nat multiset" where
  "rest s P K r = (\<Sum>q \<in> dom P - {r}. own (mem s) q (the (P q))) + K"

text \<open>A good entry: 64 bits, a leaf, and if it is writable nobody else refers to the page.\<close>

definition good_entry :: "vm \<Rightarrow> nat \<Rightarrow> bool" where
  "good_entry s e \<longleftrightarrow> plain e \<and> e < 2 ^ 64 \<and> (pte_V e \<longrightarrow> pte_W e \<longrightarrow> refs_to s (PTE2PA e) = 1)"

definition good_space :: "vm \<Rightarrow> nat \<Rightarrow> nat \<Rightarrow> nat multiset \<Rightarrow> bool" where
  "good_space s r sz R \<longleftrightarrow> tables s r (frames (mem s) r {..<pgs sz} + R) \<and> sz \<le> MAXVA \<and> (\<forall>v < pgs sz. good_entry s (pte_of (mem s) r v))"

definition spaces :: "system \<Rightarrow> bool" where
  "spaces S \<longleftrightarrow> finite (dom (usize S)) \<and>
     pool.accounted (vmem S, (\<Sum>q \<in> dom (usize S). own (mem (vmem S)) q (the (usize S q))) + kpages S) \<and>
     (\<forall>r sz. usize S r = Some sz \<longrightarrow> good_space (vmem S) r sz (rest (vmem S) (usize S) (kpages S) r))"

definition all_refs :: "vm \<Rightarrow> (nat \<rightharpoonup> nat) \<Rightarrow> nat multiset \<Rightarrow> nat multiset" where
  "all_refs s P K = (\<Sum>q \<in> dom P. own (mem s) q (the (P q))) + K"

lemma refs_split: "finite (dom P) \<Longrightarrow> P r = Some sz \<Longrightarrow> all_refs s P K = own (mem s) r sz + rest s P K r"
proof -
  assume "finite (dom P)" "P r = Some sz"
  then have "(\<Sum>q \<in> dom P. own (mem s) q (the (P q))) = own (mem s) r sz + (\<Sum>q \<in> dom P - {r}. own (mem s) q (the (P q)))"
    by (subst sum.remove [of _ r]) auto
  then show ?thesis by (simp add: all_refs_def rest_def)
qed

lemma own_sub_sum: "finite A \<Longrightarrow> q \<in> A \<Longrightarrow> own m q (f q) \<subseteq># (\<Sum>q \<in> A. own m q (f q))"
  by (simp add: sum.remove)

lemma own_sub_rest: "finite (dom P) \<Longrightarrow> P q = Some z \<Longrightarrow> q \<noteq> r \<Longrightarrow> own (mem s) q z \<subseteq># rest s P K r"
proof -
  assume "finite (dom P)" "P q = Some z" "q \<noteq> r"
  then have "own (mem s) q z \<subseteq># (\<Sum>q \<in> dom P - {r}. own (mem s) q (the (P q)))"
    using own_sub_sum [of "dom P - {r}" q "mem s" "\<lambda>q. the (P q)"] by auto
  then show ?thesis by (simp add: rest_def subset_mset.add_increasing2)
qed

lemma kept_mono: "kept X s s' \<Longrightarrow> Y \<subseteq># X \<Longrightarrow> kept Y s s'"
  using mset_subset_eqD [of Y X] unfolding kept_def by blast

lemma spacesD:
  assumes "spaces S"
  shows "finite (dom (usize S))" "pool.accounted (vmem S, all_refs (vmem S) (usize S) (kpages S))"
    "usize S r = Some sz \<Longrightarrow> good_space (vmem S) r sz (rest (vmem S) (usize S) (kpages S) r)"
  using assms by (auto simp: spaces_def all_refs_def)

lemma spacesI:
  assumes "finite (dom P)" "pool.accounted (s, all_refs s P K)" "\<And>r sz. P r = Some sz \<Longrightarrow> good_space s r sz (rest s P K r)"
  shows "spaces \<lparr>vmem = s, usize = P, kpages = K\<rparr>"
  using assms by (auto simp: spaces_def all_refs_def)

lemma good_spaceD:
  assumes "good_space s r sz R"
  shows "tables s r (frames (mem s) r {..<pgs sz} + R)" "sz \<le> MAXVA" "v < pgs sz \<Longrightarrow> good_entry s (pte_of (mem s) r v)"
    "pool.accounted (s, own (mem s) r sz + R)" "finite (nodes (mem s) r)"
  using assms tablesD(1,3) [of s r "frames (mem s) r {..<pgs sz} + R"] unfolding good_space_def own_def by (auto simp: ac_simps)

lemma frame_in: "v < pgs sz \<Longrightarrow> pte_V (pte_of m r v) \<Longrightarrow> PTE2PA (pte_of m r v) \<in># frames m r {..<pgs sz}"
  by (auto simp: frames_def)

lemma frames_in: "p \<in># frames m r A \<Longrightarrow> \<exists>v \<in> A. pte_V (pte_of m r v) \<and> p = PTE2PA (pte_of m r v)"
  by (cases "finite {v \<in> A. pte_V (pte_of m r v)}") (auto simp: frames_def)

lemma page_of: "a < sz \<Longrightarrow> a div PGSIZE < pgs sz"
  using pgs_less [of "a div PGSIZE" sz] div_times_less_eq_dividend [of a PGSIZE] by linarith

lemma inpage_off: "inpage p (p + a mod PGSIZE)"
  by (simp add: inpage_def)

text \<open>A space whose pages are left alone stays as it is.\<close>

lemma space_keep:
  assumes g: "good_space s q z R" and k: "kept (own (mem s) q z) s s'" and acc: "pool.accounted (s', own (mem s) q z + R')"
    and ns: "\<And>p. p \<in># own (mem s) q z \<Longrightarrow> p \<notin># R \<Longrightarrow> p \<notin># R'"
  shows "good_space s' q z R'" "own (mem s') q z = own (mem s) q z" "pte_of (mem s') q = pte_of (mem s) q"
    "a < z \<Longrightarrow> ubyte s' q a = ubyte s q a"
proof -
  note G = good_spaceD [OF g] and D = tablesD [OF good_spaceD(1) [OF g]]
  let ?F = "frames (mem s) q {..<pgs z}"
  have nd: "mem s' a = mem s a" if "p \<in> nodes (mem s) q" "inpage p a" for p a
    using k that G(5) by (auto simp: kept_def own_def)
  have acc': "pool.accounted (s', mset_set (nodes (mem s) q) + (?F + R'))" using acc by (simp add: own_def ac_simps)
  have nX: "p \<notin># ?F + R'" if "p \<in> nodes (mem s) q" for p
    using D(4) [OF that] ns [of p] that G(5) by (auto simp: own_def)
  have t: "tables s' q (?F + R')" by (rule tables_frame(1) [OF G(1) _ acc']) (use nd nX in auto)
  show pt: "pte_of (mem s') q = pte_of (mem s) q" by (rule tables_frame(2) [OF G(1) _ acc']) (use nd nX in auto)
  have N: "nodes (mem s') q = nodes (mem s) q" by (rule tables_frame(4) [OF G(1) _ acc']) (use nd nX in auto)
  have F: "frames (mem s') q {..<pgs z} = ?F" by (simp add: frames_def pt)
  show "own (mem s') q z = own (mem s) q z" by (simp add: own_def N F)
  have "good_entry s' (pte_of (mem s) q v)" if "v < pgs z" for v
  proof -
    let ?f = "PTE2PA (pte_of (mem s) q v)"
    note e = G(3) [OF that]
    have "refs_to s' ?f = 1" if V: "pte_V (pte_of (mem s) q v)" "pte_W (pte_of (mem s) q v)"
    proof -
      have f: "?f \<in># own (mem s) q z" using frame_in [OF \<open>v < pgs z\<close> V(1)] by (simp add: own_def)
      then have pg: "?f \<in> pages s" "?f \<in> pages s'" using pool.accountedD(2) [OF G(4)] pool.accountedD(2) [OF acc] by auto
      have "count (own (mem s) q z) ?f + count R ?f = 1" using e V pool.accountedD(3) [OF G(4) pg(1)] by (simp add: good_entry_def)
      moreover have "0 < count (own (mem s) q z) ?f" using f by simp
      ultimately have "count (own (mem s) q z) ?f = 1" "count R ?f = 0" by linarith+
      moreover from this have "count R' ?f = 0" using ns [OF f] by (simp add: not_in_iff)
      ultimately show ?thesis using pool.accountedD(3) [OF acc pg(2)] by simp
    qed
    then show ?thesis using e by (simp add: good_entry_def)
  qed
  then show "good_space s' q z R'" using t F pt G(2) by (simp add: good_space_def)
  show "ubyte s' q a = ubyte s q a" if a: "a < z"
  proof (cases "pte_V (uentry s q a)")
    case True
    then have "PTE2PA (uentry s q a) \<in># own (mem s) q z" using frame_in [OF page_of [OF a]] by (simp add: own_def uentry_def)
    then have "mem s' (PTE2PA (uentry s q a) + a mod PGSIZE) = mem s (PTE2PA (uentry s q a) + a mod PGSIZE)"
      using k inpage_off by (auto simp: kept_def)
    then show ?thesis by (simp add: ubyte_def uentry_def pt)
  qed (simp add: ubyte_def uentry_def pt)
qed

text \<open>
  A step of one space: it ends in a good space, leaves the pages of all others alone and maps no page of theirs that it did not map before.
\<close>

lemma rest_cong:
  assumes "\<And>q z. q \<noteq> r \<Longrightarrow> P q = Some z \<Longrightarrow> own (mem s') q z = own (mem s) q z" "\<And>q. q \<noteq> r \<Longrightarrow> P' q = P q"
  shows "rest s' P' K r = rest s P K r"
proof -
  have "dom P' - {r} = dom P - {r}" using assms(2) by (auto simp: dom_def)
  then have "(\<Sum>q \<in> dom P' - {r}. own (mem s') q (the (P' q))) = (\<Sum>q \<in> dom P - {r}. own (mem s) q (the (P q)))"
    by (rule sum.cong) (use assms in auto)
  then show ?thesis by (simp add: rest_def)
qed

lemma mset_swap:
  fixes A B R Z :: "'a multiset"
  assumes "A \<subseteq># R"
  shows "A + (B + (R - A)) = B + R" "A + Z = B + R \<Longrightarrow> Z = B + (R - A)"
proof -
  obtain C where C: "R = A + C" using assms by (auto simp: subset_mset.le_iff_add)
  show "A + (B + (R - A)) = B + R" by (simp add: C ac_simps)
  assume "A + Z = B + R"
  then have "A + Z = A + (B + C)" by (simp add: C ac_simps)
  then show "Z = B + (R - A)" by (simp add: C)
qed

lemma space_step:
  assumes S: "spaces \<lparr>vmem = s, usize = P, kpages = K\<rparr>" and r: "P r = Some sz" and R: "R = rest s P K r"
    and g: "good_space s' r sz' R" and k: "kept R s s'"
    and ns: "\<And>p. p \<in># R \<Longrightarrow> p \<notin># frames (mem s) r {..<pgs sz} \<Longrightarrow> p \<notin># frames (mem s') r {..<pgs sz'}"
  shows "spaces \<lparr>vmem = s', usize = P(r \<mapsto> sz'), kpages = K\<rparr>"
    "q \<noteq> r \<Longrightarrow> P q = Some z \<Longrightarrow> pte_of (mem s') q = pte_of (mem s) q \<and> (\<forall>a < z. ubyte s' q a = ubyte s q a)"
proof -
  note D = spacesD [OF S, simplified] and G = good_spaceD [OF g]
  have acc': "pool.accounted (s', own (mem s') r sz' + R)" by (rule G(4))
  have tot: "own (mem s) q z + rest s P K q = own (mem s) r sz + R" if "P q = Some z" for q z
    using refs_split [OF D(1) that, of s K] refs_split [OF D(1) r, of s K] R by simp
  have sub: "own (mem s) q z \<subseteq># R" if "q \<noteq> r" "P q = Some z" for q z
    unfolding R by (rule own_sub_rest [OF D(1) that(2,1)])
  have keep: "good_space s' q z (own (mem s') r sz' + (R - own (mem s) q z)) \<and> own (mem s') q z = own (mem s) q z \<and>
      pte_of (mem s') q = pte_of (mem s) q \<and> (\<forall>a < z. ubyte s' q a = ubyte s q a)" if q: "q \<noteq> r" "P q = Some z" for q z
  proof -
    note gq = D(3) [OF q(2)] and kq = kept_mono [OF k sub [OF q]]
    have a: "pool.accounted (s', own (mem s) q z + (own (mem s') r sz' + (R - own (mem s) q z)))"
      unfolding mset_swap(1) [OF sub [OF q]] by (rule acc')
    have n: "p \<notin># own (mem s') r sz' + (R - own (mem s) q z)" if "p \<in># own (mem s) q z" "p \<notin># rest s P K q" for p
    proof -
      have pR: "p \<in># R" by (rule mset_subset_eqD [OF sub [OF q] that(1)])
      have "rest s P K q = own (mem s) r sz + (R - own (mem s) q z)"
        by (rule mset_swap(2) [OF sub [OF q] tot [OF q(2)]])
      then have "p \<notin># own (mem s) r sz" "p \<notin># R - own (mem s) q z" using that(2) by simp_all
      moreover from this have "p \<notin># frames (mem s') r {..<pgs sz'}" using ns [OF pR] by (simp add: own_def)
      moreover have "p \<notin> nodes (mem s') r" using tablesD(4) [OF G(1)] pR by auto
      ultimately show ?thesis using G(5) by (simp add: own_def)
    qed
    show ?thesis using space_keep [OF gq kq a n] by blast
  qed
  then show "q \<noteq> r \<Longrightarrow> P q = Some z \<Longrightarrow> pte_of (mem s') q = pte_of (mem s) q \<and> (\<forall>a < z. ubyte s' q a = ubyte s q a)" by blast
  define P' where "P' = P(r \<mapsto> sz')"
  have P': "P' r = Some sz'" "\<And>q. q \<noteq> r \<Longrightarrow> P' q = P q" by (simp_all add: P'_def)
  have Rr: "rest s' P' K r = R" unfolding R by (rule rest_cong) (use keep P'(2) in auto)
  have fin: "finite (dom P')" using D(1) by (simp add: P'_def)
  have T: "all_refs s' P' K = own (mem s') r sz' + R" using refs_split [OF fin P'(1), of s' K] Rr by simp
  show "spaces \<lparr>vmem = s', usize = P(r \<mapsto> sz'), kpages = K\<rparr>"
    unfolding P'_def [symmetric]
  proof (rule spacesI [OF fin])
    show "pool.accounted (s', all_refs s' P' K)" using acc' T by simp
    fix q z assume q: "P' q = Some z"
    show "good_space s' q z (rest s' P' K q)"
    proof (cases "q = r")
      case True
      then show ?thesis using g q Rr P'(1) by simp
    next
      case False
      then have Pq: "P q = Some z" using q P'(2) by simp
      have "own (mem s) q z + rest s' P' K q = own (mem s') r sz' + R"
        using refs_split [OF fin q, of s' K] T keep [OF False Pq] by simp
      then have "rest s' P' K q = own (mem s') r sz' + (R - own (mem s) q z)"
        by (rule mset_swap(2) [OF sub [OF False Pq]])
      then show ?thesis using keep [OF False Pq] by simp
    qed
  qed
qed

text \<open>A step of the kernel: the pages of all spaces are left alone.\<close>

lemma kernel_step:
  assumes S: "spaces \<lparr>vmem = s, usize = P, kpages = K\<rparr>" and acc: "pool.accounted (s', (\<Sum>q \<in> dom P. own (mem s) q (the (P q))) + K')"
    and k: "kept (\<Sum>q \<in> dom P. own (mem s) q (the (P q))) s s'"
    and ns: "\<And>p. p \<in># (\<Sum>q \<in> dom P. own (mem s) q (the (P q))) \<Longrightarrow> p \<notin># K \<Longrightarrow> p \<notin># K'"
  shows "spaces \<lparr>vmem = s', usize = P, kpages = K'\<rparr>"
    "P q = Some z \<Longrightarrow> pte_of (mem s') q = pte_of (mem s) q \<and> (\<forall>a < z. ubyte s' q a = ubyte s q a)"
proof -
  note D = spacesD [OF S, simplified]
  let ?O = "\<Sum>q \<in> dom P. own (mem s) q (the (P q))"
  have keep: "good_space s' q z (rest s P K' q) \<and> own (mem s') q z = own (mem s) q z \<and>
      pte_of (mem s') q = pte_of (mem s) q \<and> (\<forall>a < z. ubyte s' q a = ubyte s q a)" if q: "P q = Some z" for q z
  proof -
    have sub: "own (mem s) q z \<subseteq># ?O" using own_sub_sum [OF D(1), of q "mem s" "\<lambda>q. the (P q)"] q by auto
    have a: "pool.accounted (s', own (mem s) q z + rest s P K' q)" using acc refs_split [OF D(1) q, of s K'] by (simp add: all_refs_def)
    have n: "p \<notin># rest s P K' q" if "p \<in># own (mem s) q z" "p \<notin># rest s P K q" for p
      using ns [OF mset_subset_eqD [OF sub that(1)]] that(2) by (simp add: rest_def)
    show ?thesis using space_keep [OF D(3) [OF q] kept_mono [OF k sub] a n] by blast
  qed
  then show "P q = Some z \<Longrightarrow> pte_of (mem s') q = pte_of (mem s) q \<and> (\<forall>a < z. ubyte s' q a = ubyte s q a)" by blast
  have o: "(\<Sum>q \<in> dom P. own (mem s') q (the (P q))) = ?O" by (rule sum.cong) (use keep in auto)
  have "rest s' P K' q = rest s P K' q" for q by (rule rest_cong) (use keep in auto)
  then show "spaces \<lparr>vmem = s', usize = P, kpages = K'\<rparr>" using keep acc o D(1) by (intro spacesI) (auto simp: all_refs_def)
qed

subsection \<open>The steps of one space\<close>

lemma refs_tables: "tables s r X \<Longrightarrow> p \<in># X \<Longrightarrow> refs_to s p = int (count X p)"
proof -
  assume t: "tables s r X" and p: "p \<in># X"
  note D = tablesD [OF t]
  have "p \<notin> nodes (mem s) r" using D(4) p by blast
  then have "count (mset_set (nodes (mem s) r) + X) p = count X p" by (simp add: count_mset_set')
  then show ?thesis using pool.accountedD(3) [OF D(1) D(6) [OF p]] by simp
qed

text \<open>The references of a space as \<open>tables\<close> has them.\<close>

lemma good_entry_refs:
  assumes "good_space s r sz R" "v < pgs sz" "pte_V (pte_of (mem s) r v)" "pte_W (pte_of (mem s) r v)"
  shows "count (frames (mem s) r {..<pgs sz} + R) (PTE2PA (pte_of (mem s) r v)) = 1"
proof -
  note G = good_spaceD [OF assms(1)]
  have "PTE2PA (pte_of (mem s) r v) \<in># frames (mem s) r {..<pgs sz} + R" using frame_in [OF assms(2,3)] by simp
  from refs_tables [OF G(1) this] show ?thesis using G(3) [OF assms(2)] assms(3,4) by (simp add: good_entry_def)
qed

lemma good_spaceI:
  assumes "tables s r (frames (mem s) r {..<pgs sz} + R)" "sz \<le> MAXVA"
    "\<And>v. v < pgs sz \<Longrightarrow> plain (pte_of (mem s) r v) \<and> pte_of (mem s) r v < 2 ^ 64"
    "\<And>v. v < pgs sz \<Longrightarrow> pte_V (pte_of (mem s) r v) \<Longrightarrow> pte_W (pte_of (mem s) r v) \<Longrightarrow>
       count (frames (mem s) r {..<pgs sz} + R) (PTE2PA (pte_of (mem s) r v)) = 1"
  shows "good_space s r sz R"
  unfolding good_space_def good_entry_def
proof (intro conjI allI impI)
  fix v assume v: "v < pgs sz"
  show "plain (pte_of (mem s) r v)" "pte_of (mem s) r v < 2 ^ 64" using assms(3) [OF v] by blast+
  assume V: "pte_V (pte_of (mem s) r v)" "pte_W (pte_of (mem s) r v)"
  have "PTE2PA (pte_of (mem s) r v) \<in># frames (mem s) r {..<pgs sz} + R" using frame_in [OF v V(1)] by simp
  from refs_tables [OF assms(1) this] assms(4) [OF v V] show "refs_to s (PTE2PA (pte_of (mem s) r v)) = 1" by simp
qed (use assms(1,2) in auto)

lemma range_split: "i \<le> j \<Longrightarrow> frames m r {..<j} = frames m r {..<i} + frames m r {i..<j}"
  using frames_Un [of "{..<i}" "{i..<j}" m r] by (simp add: ivl_disj_un_one(2) ivl_disj_int_one(2) flip: ivl_disj_un_one(2))

text \<open>Fresh pages next to a space: the space stays good and takes nothing from others.\<close>

lemma fresh_less: "fresh_page m r Y w \<Longrightarrow> pte_of m r w < 2 ^ 64"
  using leaf_parts(1) [of _ 30] by (auto simp: fresh_page_def)

lemma good_grow:
  assumes g: "good_space s r sz R" and sz: "sz \<le> newsz" "newsz \<le> MAXVA"
    and t: "tables s' r (frames (mem s') r {pgs sz..<pgs newsz} + (frames (mem s) r {..<pgs sz} + R))"
    and e: "\<And>v. v < pgs sz \<Longrightarrow> pte_of (mem s') r v = pte_of (mem s) r v"
    and f: "\<And>v. pgs sz \<le> v \<Longrightarrow> v < pgs newsz \<Longrightarrow>
      fresh_page (mem s') r (frames (mem s') r {pgs sz..<pgs newsz} + (frames (mem s) r {..<pgs sz} + R)) v"
  shows "good_space s' r newsz R" "p \<in># R \<Longrightarrow> p \<notin># frames (mem s) r {..<pgs sz} \<Longrightarrow> p \<notin># frames (mem s') r {..<pgs newsz}"
proof -
  note G = good_spaceD [OF g]
  let ?N = "frames (mem s') r {pgs sz..<pgs newsz}" and ?X = "frames (mem s) r {..<pgs sz} + R"
  have old: "frames (mem s') r {..<pgs sz} = frames (mem s) r {..<pgs sz}" by (rule frames_cong) (use e in auto)
  have F: "frames (mem s') r {..<pgs newsz} = frames (mem s) r {..<pgs sz} + ?N"
    using range_split [OF pgs_mono [OF sz(1)], of "mem s'" r] old by simp
  have FR: "frames (mem s') r {..<pgs newsz} + R = ?N + ?X" by (simp add: F)
  have new: "\<exists>v. pgs sz \<le> v \<and> v < pgs newsz \<and> PTE2PA (pte_of (mem s') r v) = p \<and> count (?N + ?X) p = 1" if pN: "p \<in># ?N" for p
  proof -
    from frames_in [OF pN] obtain v where v: "pgs sz \<le> v" "v < pgs newsz" "p = PTE2PA (pte_of (mem s') r v)" by auto
    from f [OF v(1,2)] obtain q where q: "pte_of (mem s') r v = leaf q 30" "count (?N + ?X) q = 1" "q < 2 ^ 56" "q mod PGSIZE = 0"
      unfolding fresh_page_def by (elim exE conjE) (rule that)
    have "PTE2PA (leaf q 30) = q" by (rule leaf_parts(2) [OF q(3,4)]) simp
    then show ?thesis using v q(1,2) by auto
  qed
  have disj: "p \<notin># ?X" if "p \<in># ?N" for p
  proof
    assume "p \<in># ?X"
    then have "0 < count ?X p" "0 < count ?N p" using that by (simp_all only: count_greater_zero_iff)
    moreover have "count ?N p + count ?X p = 1" using new [OF that] by auto
    ultimately show False by linarith
  qed
  show "p \<in># R \<Longrightarrow> p \<notin># frames (mem s) r {..<pgs sz} \<Longrightarrow> p \<notin># frames (mem s') r {..<pgs newsz}"
    using disj [of p] by (auto simp: F)
  show "good_space s' r newsz R"
  proof (rule good_spaceI [OF _ sz(2)])
    show "tables s' r (frames (mem s') r {..<pgs newsz} + R)" unfolding FR by (rule t)
    fix v assume v: "v < pgs newsz"
    show "plain (pte_of (mem s') r v) \<and> pte_of (mem s') r v < 2 ^ 64"
      using fresh_plain [OF f [OF _ v]] fresh_less [OF f [OF _ v]] G(3) [of v] e [of v] by (cases "v < pgs sz") (auto simp: good_entry_def)
    assume V: "pte_V (pte_of (mem s') r v)" "pte_W (pte_of (mem s') r v)"
    let ?p = "PTE2PA (pte_of (mem s') r v)"
    show "count (frames (mem s') r {..<pgs newsz} + R) ?p = 1"
      unfolding FR
    proof (cases "v < pgs sz")
      case True
      then have c: "count ?X ?p = 1" using good_entry_refs [OF g True] V e [OF True] by simp
      then have "?p \<in># ?X" by (metis count_inI zero_neq_one)
      then have "?p \<notin># ?N" using disj by blast
      then show "count (?N + ?X) ?p = 1" using c by (simp add: not_in_iff)
    next
      case False
      then have "?p \<in># ?N" using v V(1) by (auto simp: frames_def)
      from new [OF this] show "count (?N + ?X) ?p = 1" by auto
    qed
  qed
qed

lemma uvmalloc_spec:
  assumes g: "good_space s r sz R" and c: "cpu < NCPU" and sz: "sz \<le> newsz" "newsz \<le> MAXVA"
    and free: "\<And>v. pgs sz \<le> v \<Longrightarrow> v < pgs newsz \<Longrightarrow> pte_of (mem s) r v = 0"
  shows "\<exists>z s'. uvmalloc cpu r sz newsz s = (BRet z, s') \<and> kept (frames (mem s) r {..<pgs sz} + R) s s' \<and>
    (z = newsz \<and> good_space s' r newsz R \<and> (\<forall>p \<in># R. p \<notin># frames (mem s) r {..<pgs sz} \<longrightarrow> p \<notin># frames (mem s') r {..<pgs newsz}) \<and>
       (\<forall>v < NVPN. v \<notin> {pgs sz..<pgs newsz} \<longrightarrow> pte_of (mem s') r v = pte_of (mem s) r v) \<and>
       (\<forall>v \<in> {pgs sz..<pgs newsz}. fresh_page (mem s') r (frames (mem s') r {..<pgs newsz} + R) v) \<or>
     z = 0 \<and> good_space s' r sz R \<and> same_entries s s' r \<and> card (free_pages s) \<le> 3 * (pgs newsz - pgs sz))"
proof -
  note G = good_spaceD [OF g]
  let ?X = "frames (mem s) r {..<pgs sz} + R" and ?k = "pgs newsz - pgs sz"
  have le: "pgs sz + ?k = pgs newsz" "pgs newsz \<le> NVPN" using pgs_mono [OF sz(1)] pgs_MAXVA [OF sz(2)] by simp_all
  have pre: "tables s r (frames (mem s) r {pgs sz..<pgs sz} + ?X)" "pgs newsz = pgs sz + ?k" using G(1) le(1) by simp_all
  have nv: "\<not> pte_V (pte_of (mem s) r w)" if "pgs sz \<le> w" "w < pgs sz + ?k" for w using free [of w] that le(1) by simp
  have run: "uvmalloc cpu r sz newsz s = uvmalloc_loop cpu r (pgs sz * PGSIZE) newsz (pgs sz * PGSIZE) s"
    using sz G(2) by (simp add: uvmalloc_def PGROUNDUP_pgs)
  from uvmalloc_loop_spec [OF pre(1) c order.refl pre(2) sz(2) _ nv] obtain z s' where
    l: "uvmalloc cpu r sz newsz s = (BRet z, s')" "kept ?X s s'"
    and cs: "z = newsz \<and> tables s' r (frames (mem s') r {pgs sz..<pgs newsz} + ?X) \<and>
       (\<forall>w < NVPN. w \<notin> {pgs sz..<pgs newsz} \<longrightarrow> pte_of (mem s') r w = pte_of (mem s) r w) \<and>
       (\<forall>w \<in> {pgs sz..<pgs newsz}. fresh_page (mem s') r (frames (mem s') r {pgs sz..<pgs newsz} + ?X) w) \<or>
     z = 0 \<and> tables s' r ?X \<and> (\<forall>w < NVPN. w \<notin> {pgs sz..<pgs newsz} \<longrightarrow> pte_of (mem s') r w = pte_of (mem s) r w) \<and>
       (\<forall>w \<in> {pgs sz..<pgs newsz}. pte_of (mem s') r w = 0 \<or> pte_of (mem s') r w = pte_of (mem s) r w \<and> pgs sz \<le> w) \<and> card (free_pages s) \<le> 3 * ?k"
    unfolding run le(1) by auto
  have lt: "v < NVPN" if "v < pgs sz" for v using that le by simp
  from cs show ?thesis
  proof (elim disjE conjE)
    assume a: "z = newsz" "tables s' r (frames (mem s') r {pgs sz..<pgs newsz} + ?X)"
      "\<forall>w < NVPN. w \<notin> {pgs sz..<pgs newsz} \<longrightarrow> pte_of (mem s') r w = pte_of (mem s) r w"
      "\<forall>w \<in> {pgs sz..<pgs newsz}. fresh_page (mem s') r (frames (mem s') r {pgs sz..<pgs newsz} + ?X) w"
    have e: "pte_of (mem s') r v = pte_of (mem s) r v" if "v < pgs sz" for v using a(3) lt [OF that] that by simp
    have f: "fresh_page (mem s') r (frames (mem s') r {pgs sz..<pgs newsz} + ?X) v" if "pgs sz \<le> v" "v < pgs newsz" for v
      using a(4) that by simp
    note GG = good_grow [OF g sz a(2) e f]
    have "frames (mem s') r {..<pgs sz} = frames (mem s) r {..<pgs sz}" by (rule frames_cong) (use e in auto)
    then have FR: "frames (mem s') r {..<pgs newsz} + R = frames (mem s') r {pgs sz..<pgs newsz} + ?X"
      using range_split [OF pgs_mono [OF sz(1)], of "mem s'" r] by simp
    show ?thesis using l a(1,3) a(4) [folded FR] GG by blast
  next
    assume a: "z = 0" "tables s' r ?X" "\<forall>w < NVPN. w \<notin> {pgs sz..<pgs newsz} \<longrightarrow> pte_of (mem s') r w = pte_of (mem s) r w"
      "\<forall>w \<in> {pgs sz..<pgs newsz}. pte_of (mem s') r w = 0 \<or> pte_of (mem s') r w = pte_of (mem s) r w \<and> pgs sz \<le> w" "card (free_pages s) \<le> 3 * ?k"
    have same: "pte_of (mem s') r w = pte_of (mem s) r w" if "w < NVPN" for w
      using a(3,4) free [of w] that by (cases "w \<in> {pgs sz..<pgs newsz}") auto
    have F: "frames (mem s') r {..<pgs sz} = frames (mem s) r {..<pgs sz}" by (rule frames_cong) (use same lt in auto)
    have "good_space s' r sz R"
      by (rule good_spaceI) (use a(2) F G(2,3) same lt good_entry_refs [OF g] in \<open>auto simp: good_entry_def\<close>)
    then show ?thesis using l a(1,5) same by (intro exI [of _ z] exI [of _ s']) (auto simp: same_entries_def)
  qed
qed

lemma count_once: "p \<in># A \<Longrightarrow> count (A + B) p = 1 \<Longrightarrow> count A p = 1 \<and> p \<notin># B"
proof -
  assume "p \<in># A" "count (A + B) p = 1"
  then have "0 < count A p" "count A p + count B p = 1" by simp_all
  then have "count A p = 1" "count B p = 0" by linarith+
  then show ?thesis by (simp add: not_in_iff)
qed

lemma shrink_spec:
  assumes g: "good_space s r sz R" and c: "cpu < NCPU" and sz: "newsz < sz"
  shows "\<exists>s'. uvmdealloc cpu r sz newsz s = (BRet newsz, s') \<and> kept (frames (mem s) r {..<pgs newsz} + R) s s' \<and> good_space s' r newsz R \<and>
    (\<forall>v < NVPN. pte_of (mem s') r v = (if v \<in> {pgs newsz..<pgs sz} then 0 else pte_of (mem s) r v)) \<and>
    frames (mem s') r {..<pgs newsz} \<subseteq># frames (mem s) r {..<pgs sz}"
proof -
  note G = good_spaceD [OF g]
  let ?X = "frames (mem s) r {..<pgs newsz} + R"
  have le: "pgs newsz \<le> pgs sz" "pgs sz \<le> NVPN" using sz pgs_mono pgs_MAXVA [OF G(2)] by simp_all
  have sp: "frames (mem s) r {..<pgs sz} = frames (mem s) r {..<pgs newsz} + frames (mem s) r {pgs newsz..<pgs sz}" by (rule range_split [OF le(1)])
  have t: "tables s r (frames (mem s) r {pgs newsz..<pgs sz} + ?X)" using G(1) unfolding sp by (simp add: ac_simps)
  have pl: "plain (pte_of (mem s) r w)" if "w < pgs sz" for w using G(3) [OF that] by (simp add: good_entry_def)
  from uvmdealloc_spec [OF t c sz G(2) pl] obtain s' where
    s': "uvmdealloc cpu r sz newsz s = (BRet newsz, s')" "tables s' r ?X" "kept ?X s s'" "added s s' r (pgs newsz) (pgs sz - pgs newsz) (\<lambda>_. 0)" by blast
  have e: "pte_of (mem s') r v = (if v \<in> {pgs newsz..<pgs sz} then 0 else pte_of (mem s) r v)" if "v < NVPN" for v
    using addedD [OF s'(4) that] le(1) by simp
  have F: "frames (mem s') r {..<pgs newsz} = frames (mem s) r {..<pgs newsz}" by (rule frames_cong) (use e le in auto)
  have "good_space s' r newsz R"
  proof (rule good_spaceI)
    fix v assume v: "v < pgs newsz"
    then have ev: "pte_of (mem s') r v = pte_of (mem s) r v" using e [of v] le by simp
    show "plain (pte_of (mem s') r v) \<and> pte_of (mem s') r v < 2 ^ 64" using G(3) [of v] v le ev by (simp add: good_entry_def)
    assume V: "pte_V (pte_of (mem s') r v)" "pte_W (pte_of (mem s') r v)"
    have "count (frames (mem s) r {..<pgs newsz} + (frames (mem s) r {pgs newsz..<pgs sz} + R)) (PTE2PA (pte_of (mem s) r v)) = 1"
      using good_entry_refs [OF g, of v] v le(1) V ev by (simp add: sp)
    from count_once [OF frame_in [OF v, of "mem s" r] this] V(1) ev
    show "count (frames (mem s') r {..<pgs newsz} + R) (PTE2PA (pte_of (mem s') r v)) = 1" unfolding F ev by (simp add: not_in_iff)
  qed (use s'(2) F G(2) sz in auto)
  then show ?thesis using s'(1,3) e F sp by auto
qed

text \<open>A user store reaches only the page that its own table maps at the address.\<close>

lemma frames_once:
  assumes "finite A" "v \<in> A" "w \<in> A" "pte_V (pte_of m r v)" "pte_V (pte_of m r w)" "PTE2PA (pte_of m r w) = PTE2PA (pte_of m r v)"
    "count (frames m r A) (PTE2PA (pte_of m r v)) = 1"
  shows "w = v"
proof (rule ccontr)
  assume "w \<noteq> v"
  then have A: "A = insert v (insert w (A - {v, w}))" "v \<notin> insert w (A - {v, w})" "w \<notin> A - {v, w}" using assms(2,3) by auto
  have "frames m r A = frame_of (pte_of m r v) + (frame_of (pte_of m r w) + frames m r (A - {v, w}))"
    by (subst A(1)) (use A(2,3) assms(1) in \<open>simp add: frames_insert\<close>)
  then show False using assms(4-7) by (simp add: frame_of_def)
qed

lemma store_spec:
  assumes g: "good_space s r sz R" and a: "a < sz" "pte_V (uentry s r a)" "pte_W (uentry s r a)"
  shows "good_space (ustore r a b s) r sz R" "kept R s (ustore r a b s)" "pte_of (mem (ustore r a b s)) r = pte_of (mem s) r"
    "a' < sz \<Longrightarrow> ubyte (ustore r a b s) r a' = (if a' = a then Some b else ubyte s r a')"
proof -
  note G = good_spaceD [OF g] and D = tablesD [OF good_spaceD(1) [OF g]]
  let ?F = "frames (mem s) r {..<pgs sz}" and ?f = "PTE2PA (uentry s r a)" and ?s = "ustore r a b s"
  have v: "a div PGSIZE < pgs sz" by (rule page_of [OF a(1)])
  have c: "count (?F + R) ?f = 1" using good_entry_refs [OF g v] a(2,3) by (simp add: uentry_def)
  have fF: "?f \<in># ?F" using frame_in [OF v] a(2) by (simp add: uentry_def)
  have cF: "count ?F ?f = 1" "?f \<notin># R" using count_once [OF fF c] by simp_all
  have fp: "?f \<in> pages s" "?f \<notin> nodes (mem s) r" using D(4) D(6) [of ?f] fF by auto
  have out: "mem ?s x = mem s x" if "\<not> inpage ?f x" for x using that inpage_off by (auto simp: ustore_def)
  have tc: "touched ?f s ?s" using out by (simp add: touched_def) (simp add: ustore_def)
  have "pool.accounted (s\<lparr>mem := mem ?s\<rparr>, mset_set (nodes (mem s) r) + (?F + R))"
    by (rule write_held [OF D(1), of ?f]) (use fF out in auto)
  then have acc: "pool.accounted (?s, mset_set (nodes (mem s) r) + (?F + R))" by (simp add: ustore_def)
  have al: "p \<in> pages s" if "p \<in># mset_set (nodes (mem s) r) + R" for p using that D(3,5,6) by auto
  have k: "kept (mset_set (nodes (mem s) r) + R) s ?s" by (rule kept_touched [OF tc fp(1) al]) (use cF(2) fp(2) D(3) in auto)
  then show "kept R s ?s" by (simp add: kept_def)
  have nd: "mem ?s x = mem s x" if "p \<in> nodes (mem s) r" "inpage p x" for p x using k that D(3) by (auto simp: kept_def)
  show pt: "pte_of (mem ?s) r = pte_of (mem s) r" by (rule tables_frame(2) [OF G(1) _ acc]) (use nd D(4) in auto)
  have t: "tables ?s r (?F + R)" by (rule tables_frame(1) [OF G(1) _ acc]) (use nd D(4) in auto)
  have F: "frames (mem ?s) r {..<pgs sz} = ?F" by (simp add: frames_def pt)
  show "good_space ?s r sz R"
    by (rule good_spaceI) (use t F pt G(2,3) good_entry_refs [OF g] in \<open>auto simp: good_entry_def\<close>)
  show "ubyte ?s r a' = (if a' = a then Some b else ubyte s r a')" if a': "a' < sz"
  proof (cases "pte_V (uentry s r a')")
    case True
    let ?f' = "PTE2PA (uentry s r a')"
    have "?f' + a' mod PGSIZE = ?f + a mod PGSIZE \<longleftrightarrow> a' = a"
    proof
      assume eq: "?f' + a' mod PGSIZE = ?f + a mod PGSIZE"
      have "?f' \<in> pages s" using frame_in [OF page_of [OF a'], of "mem s" r] True D(6) by (auto simp: uentry_def)
      then have ff: "?f' = ?f" using inpage_unique [of ?f' "?f' + a' mod PGSIZE" ?f] inpage_off eq page_small(2) fp(1) by metis
      have "a' div PGSIZE = a div PGSIZE"
        by (rule frames_once [of "{..<pgs sz}" _ _ "mem s" r]) (use ff cF(1) v page_of [OF a'] a(2) True in \<open>auto simp: uentry_def\<close>)
      then show "a' = a" using eq ff by (metis add_left_cancel div_mult_mod_eq)
    qed simp
    then show ?thesis using True by (auto simp: ubyte_def uentry_def pt) (auto simp: ustore_def uentry_def)
  next
    case False
    then have "a' \<noteq> a" using a(2) by auto
    then show ?thesis using False by (simp add: ubyte_def uentry_def pt)
  qed
qed

subsection \<open>Copy on write\<close>

text \<open>Changing flag bits of an entry leaves its page alone.\<close>

lemma flag_bits:
  assumes "k < 10" "e < 2 ^ 64"
  shows "set_bit k e < 2 ^ 64" "unset_bit k e < 2 ^ 64" "PTE2PA (set_bit k e) = PTE2PA e" "PTE2PA (unset_bit k e) = PTE2PA e"
proof -
  have d: "drop_bit 10 (set_bit k e) = drop_bit 10 e" "drop_bit 10 (unset_bit k e) = drop_bit 10 e"
    using assms(1) by (auto intro!: bit_eqI simp: bit_drop_bit_eq bit_set_bit_iff bit_unset_bit_iff)
  show "PTE2PA (set_bit k e) = PTE2PA e" "PTE2PA (unset_bit k e) = PTE2PA e" by (simp_all add: PTE2PA_def d)
  have "take_bit 64 (set_bit k e) = set_bit k (take_bit 64 e)" "take_bit 64 (unset_bit k e) = unset_bit k (take_bit 64 e)"
    using assms(1) by (simp_all add: take_bit_set_bit_eq take_bit_unset_bit_eq)
  moreover have "take_bit 64 e = e" using assms(2) by (simp add: take_bit_nat_eq_self)
  ultimately show "set_bit k e < 2 ^ 64" "unset_bit k e < 2 ^ 64"
    using take_bit_nat_less_exp [of 64 "set_bit k e"] take_bit_nat_less_exp [of 64 "unset_bit k e"] by simp_all
qed

lemma flags_bit: "bit (PTE_FLAGS e) k \<longleftrightarrow> k < 10 \<and> bit e k" "PTE_FLAGS e < 1024"
  using take_bit_nat_less_exp [of 10 e] by (simp_all add: PTE_FLAGS_def bit_take_bit_iff)

lemma bits_nat: "bit (set_bit k e) j \<longleftrightarrow> j = k \<or> bit e j" "bit (unset_bit k e) j \<longleftrightarrow> j \<noteq> k \<and> bit e j" for e :: nat
  by (auto simp: bit_set_bit_iff bit_unset_bit_iff)

text \<open>An entry with another bit than the valid bit is not a table.\<close>

lemma plainI: "k < 10 \<Longrightarrow> 0 < k \<Longrightarrow> bit e k \<Longrightarrow> pte_V e \<Longrightarrow> plain e"
proof -
  assume k: "k < 10" "0 < k" "bit e k" "pte_V e"
  have "bit (PTE_FLAGS e) k" using k by (simp add: flags_bit)
  then have "PTE_FLAGS e \<noteq> 1" using k(2) by (auto simp: bit_1_iff simp flip: One_nat_def)
  then show "plain e" using k(4) by (simp add: plain_def)
qed

text \<open>The table is there: mapping a page that is not mapped only writes the entry.\<close>

lemma walk_present: "va < MAXVA \<Longrightarrow> tab (mem s) r (low_of (va div PGSIZE)) = Some p \<Longrightarrow> walk cpu r va alloc s = (BRet (p + 8 * (va div PGSIZE mod 512)), s)"
  by (auto simp: walk_def walk_turn_def low_child sub_def Let_def ld_pte_def Option.bind_eq_Some_conv split: option.splits if_splits)

lemma mappages_present:
  assumes "tables s r X" "v < NVPN" "tab (mem s) r (low_of v) = Some p" "\<not> pte_V (pte_of (mem s) r v)"
  shows "mappages cpu r (v * PGSIZE) PGSIZE pa perm s = (BRet 0, st_pte (p + 8 * (v mod 512)) (leaf pa perm) s)"
proof -
  have va: "v * PGSIZE < MAXVA" "v * PGSIZE div PGSIZE = v" using assms(2) by simp_all
  have "p \<noteq> 0" using tables_nodes(2) [OF assms(1) low_of_ok assms(3)] pool.no_null [OF pool.accountedD(1) [OF tablesD(1) [OF assms(1)]]] by metis
  moreover have "ld_pte (p + 8 * (v mod 512)) s = pte_of (mem s) r v" using assms(3) by (simp add: ld_pte_def pte_of_def)
  moreover have "walk cpu r (v * PGSIZE) True s = (BRet (p + 8 * (v mod 512)), s)"
    using walk_present [OF va(1), of s r p cpu True] assms(3) unfolding va(2) by simp
  ultimately show ?thesis
    using assms(4) va(1) unfolding mappages_def last_page [OF assms(2)] PGROUNDDOWN_page by (simp add: mappages_loop.simps leaf_def Let_def)
qed

lemma walkaddr_valid:
  assumes "v < NVPN" "tab (mem s) r (low_of v) = Some p" "p \<noteq> 0" "pte_V (pte_of (mem s) r v)"
  shows "walkaddr cpu t r (v * PGSIZE) s = (BRet (if pte_U (pte_of (mem s) r v) then PTE2PA (pte_of (mem s) r v) else 0), s)"
proof -
  have va: "v * PGSIZE < MAXVA" "v * PGSIZE div PGSIZE = v" using assms(1) by simp_all
  have "ld_pte (p + 8 * (v mod 512)) s = pte_of (mem s) r v" using assms(2) by (simp add: ld_pte_def pte_of_def)
  moreover have "walk cpu r (v * PGSIZE) False s = (BRet (p + 8 * (v mod 512)), s)"
    using walk_present [OF va(1), of s r p cpu False] assms(2) unfolding va(2) by simp
  ultimately show ?thesis using assms(3,4) va(1) by (simp add: walkaddr_def bbind_def)
qed

lemma good_replace:
  assumes g: "good_space s r sz R" and v: "v < pgs sz" "pte_V (pte_of (mem s) r v)"
    and t: "tables s' r (frames (mem s') r {..<pgs sz} + R)"
    and e: "\<And>w. w < pgs sz \<Longrightarrow> pte_of (mem s') r w = (if w = v then e' else pte_of (mem s) r w)" "plain e'" "e' < 2 ^ 64"
      "pte_V e' \<Longrightarrow> pte_W e' \<Longrightarrow> count (frames (mem s') r {..<pgs sz} + R) (PTE2PA e') = 1"
    and c: "\<And>q. q \<in># frames (mem s) r {..<pgs sz} + R \<Longrightarrow> q \<noteq> PTE2PA (pte_of (mem s) r v) \<Longrightarrow>
      count (frames (mem s') r {..<pgs sz} + R) q = count (frames (mem s) r {..<pgs sz} + R) q"
  shows "good_space s' r sz R"
proof (rule good_spaceI [OF t good_spaceD(2) [OF g]])
  fix w assume w: "w < pgs sz"
  show "plain (pte_of (mem s') r w) \<and> pte_of (mem s') r w < 2 ^ 64"
    using e(1) [OF w] e(2,3) good_spaceD(3) [OF g w] by (simp add: good_entry_def)
  assume V: "pte_V (pte_of (mem s') r w)" "pte_W (pte_of (mem s') r w)"
  show "count (frames (mem s') r {..<pgs sz} + R) (PTE2PA (pte_of (mem s') r w)) = 1"
  proof (cases "w = v")
    case True
    then show ?thesis using e(1) [OF w] e(4) V by simp
  next
    case False
    let ?q = "PTE2PA (pte_of (mem s) r w)"
    have ew: "pte_of (mem s') r w = pte_of (mem s) r w" using e(1) [OF w] False by simp
    have c1: "count (frames (mem s) r {..<pgs sz} + R) ?q = 1" by (rule good_entry_refs [OF g w]) (use V ew in simp_all)
    have qF: "?q \<in># frames (mem s) r {..<pgs sz}" using frame_in [OF w] V(1) ew by simp
    have "?q \<noteq> PTE2PA (pte_of (mem s) r v)"
      using frames_once [of "{..<pgs sz}" w v "mem s" r] count_once [OF qF c1] v w V(1) ew False by auto
    then show ?thesis using c [of ?q] qF c1 ew by simp
  qed
qed

text \<open>What the other holders see of the pages that the space keeps.\<close>

lemma ubyte_same:
  assumes "a < sz" "uentry s' r a = uentry s r a" "kept (frames (mem s) r {..<pgs sz}) s s'"
  shows "ubyte s' r a = ubyte s r a"
proof (cases "pte_V (uentry s r a)")
  case True
  then have "PTE2PA (uentry s r a) \<in># frames (mem s) r {..<pgs sz}" using frame_in [OF page_of [OF assms(1)]] by (simp add: uentry_def)
  then have "mem s' (PTE2PA (uentry s r a) + a mod PGSIZE) = mem s (PTE2PA (uentry s r a) + a mod PGSIZE)"
    using assms(3) inpage_off unfolding kept_def by blast
  then show ?thesis by (simp add: ubyte_def assms(2))
qed (simp add: ubyte_def assms(2))

text \<open>The last holder of the page just makes it writable again.\<close>

lemma cow_last:
  assumes g: "good_space s r sz R" and v: "v < pgs sz" "tab (mem s) r (low_of v) = Some p" "pte_V (pte_of (mem s) r v)"
    and one: "refs_to s (PTE2PA (pte_of (mem s) r v)) = 1"
  defines "e' \<equiv> unset_bit 8 (set_bit 2 (pte_of (mem s) r v))"
  defines "s' \<equiv> st_pte (p + 8 * (v mod 512)) e' s"
  shows "good_space s' r sz R" "kept (frames (mem s) r {..<pgs sz} + R) s s'"
    "w < NVPN \<Longrightarrow> pte_of (mem s') r w = (if w = v then e' else pte_of (mem s) r w)" "PTE2PA e' = PTE2PA (pte_of (mem s) r v)"
    "frames (mem s') r {..<pgs sz} = frames (mem s) r {..<pgs sz}"
proof -
  note G = good_spaceD [OF g]
  let ?e = "pte_of (mem s) r v" and ?F = "frames (mem s) r {..<pgs sz}"
  have vn: "v < NVPN" "pgs sz \<le> NVPN" using v(1) pgs_MAXVA [OF G(2)] by simp_all
  have e: "plain ?e" "?e < 2 ^ 64" using G(3) [OF v(1)] by (simp_all add: good_entry_def)
  have e': "e' < 2 ^ 64" "PTE2PA e' = PTE2PA ?e" "pte_V e'" "bit e' 2"
    using flag_bits [of 2 ?e] flag_bits [of 8 "set_bit 2 ?e"] e(2) v(3) by (simp_all add: e'_def bits_nat)
  then show "PTE2PA e' = PTE2PA ?e" by simp
  have pl: "plain e'" by (rule plainI [of 2]) (use e' in simp_all)
  note S = tables_store [OF G(1) v(2) e'(1) vn(1), folded s'_def]
  show k: "kept (?F + R) s s'" by (rule S(2))
  show ent: "w < NVPN \<Longrightarrow> pte_of (mem s') r w = (if w = v then e' else pte_of (mem s) r w)" for w by (rule S(3))
  have "frames (mem s') r {..<pgs sz} + frame_of ?e = ?F + frame_of e'"
    by (rule frames_upd) (use v(1) vn(2) ent in auto)
  then show F: "frames (mem s') r {..<pgs sz} = ?F" using e' v(3) by (simp add: frame_of_def)
  have f: "PTE2PA ?e \<in># ?F + R" using frame_in [OF v(1,3)] by simp
  show "good_space s' r sz R"
  proof (rule good_replace [OF g v(1,3)])
    show "tables s' r (frames (mem s') r {..<pgs sz} + R)" using S(1) F by simp
    show "pte_of (mem s') r w = (if w = v then e' else pte_of (mem s) r w)" if "w < pgs sz" for w using ent [of w] that vn(2) by simp
    show "count (frames (mem s') r {..<pgs sz} + R) (PTE2PA e') = 1" using refs_tables [OF G(1) f] one e'(2) F by simp
  qed (use F pl e'(1) in simp_all)
qed

text \<open>Otherwise the space gets a copy of the page, and the old page loses a reference.\<close>

lemma drop_ref:
  assumes t: "tables s r (add_mset f X)" and c: "cpu < NCPU" and f: "f \<in># X"
  shows "\<exists>s'. kfree cpu f s = (BRet (), s') \<and> tables s' r X \<and> mem s' = mem s \<and> kept X s s'"
proof -
  note D = tablesD [OF t]
  have "pool.accounted (s, add_mset f (mset_set (nodes (mem s) r) + X))" using D(1) by simp
  from kfree_held [OF this c] f obtain s' where s': "kfree cpu f s = (BRet (), s')" "pool.accounted (s', mset_set (nodes (mem s) r) + X)"
    "touched f s s'" "mem s' = mem s" by auto
  have "tables s' r X" by (rule tables_frame(1) [OF t _ s'(2)]) (use s'(4) D(4) in auto)
  then show ?thesis using s' by (auto simp: kept_def touched_def)
qed

definition cow_entry :: "nat \<Rightarrow> nat \<Rightarrow> nat" where
  "cow_entry p e = leaf p (unset_bit 8 (set_bit 2 (PTE_FLAGS (unset_bit 0 e))))"

lemma cow_entry_parts:
  assumes "p < 2 ^ 56" "p mod PGSIZE = 0"
  shows "cow_entry p e < 2 ^ 64" "PTE2PA (cow_entry p e) = p" "pte_V (cow_entry p e)" "pte_W (cow_entry p e)" "\<not> pte_F (cow_entry p e)"
    "pte_U (cow_entry p e) \<longleftrightarrow> pte_U e" "plain (cow_entry p e)"
proof -
  let ?f = "unset_bit 8 (set_bit 2 (PTE_FLAGS (unset_bit 0 e)))"
  have "drop_bit 10 ?f = 0" by (rule bit_eqI) (auto simp: bit_drop_bit_eq bits_nat flags_bit)
  then have f: "?f < 1024" by (simp add: drop_bit_eq_div div_eq_0_iff)
  note L = leaf_parts [OF assms f, folded cow_entry_def]
  show "cow_entry p e < 2 ^ 64" "PTE2PA (cow_entry p e) = p" by (rule L)+
  show V: "pte_V (cow_entry p e)" and W: "pte_W (cow_entry p e)" and "\<not> pte_F (cow_entry p e)" "pte_U (cow_entry p e) \<longleftrightarrow> pte_U e"
    by (simp_all add: L(4) bits_nat flags_bit)
  show "plain (cow_entry p e)" by (rule plainI [of 2]) (use V W in simp_all)
qed

lemma cow_copy:
  assumes g: "good_space s r sz R" and c: "cpu < NCPU" and v: "v < pgs sz" "tab (mem s) r (low_of v) = Some pp" "pte_V (pte_of (mem s) r v)"
    and more: "refs_to s (PTE2PA (pte_of (mem s) r v)) \<noteq> 1"
    and p: "kalloc_try cpu s = (p, s1)" "p \<in> pages s" "p \<notin># frames (mem s) r {..<pgs sz} + R"
      "\<forall>m. (\<forall>a. \<not> inpage p a \<longrightarrow> m a = mem s a) \<longrightarrow> tables (s1\<lparr>mem := m\<rparr>) r (add_mset p (frames (mem s) r {..<pgs sz} + R)) \<and>
        kept (frames (mem s) r {..<pgs sz} + R) s (s1\<lparr>mem := m\<rparr>) \<and> pte_of m r = pte_of (mem s) r \<and> (\<forall>n. node_ok n \<longrightarrow> tab m r n = tab (mem s) r n)"
      "touched p s s1"
  defines "f \<equiv> PTE2PA (pte_of (mem s) r v)" and "k \<equiv> pp + 8 * (v mod 512)"
  defines "s2 \<equiv> s1\<lparr>mem := memmove (mem s1) p f PGSIZE\<rparr>"
  defines "s4 \<equiv> st_pte k (cow_entry p (pte_of (mem s) r v)) (st_pte k (unset_bit 0 (pte_of (mem s) r v)) s2)"
  shows "tables (st_pte k (unset_bit 0 (pte_of (mem s) r v)) s2) r (add_mset p (frames (mem s) r {..<pgs sz} + R))"
    "pte_of (mem s2) r v = pte_of (mem s) r v"
    "tab (mem (st_pte k (unset_bit 0 (pte_of (mem s) r v)) s2)) r (low_of v) = Some pp" "tab (mem s2) r (low_of v) = Some pp"
    "pte_of (mem (st_pte k (unset_bit 0 (pte_of (mem s) r v)) s2)) r v = unset_bit 0 (pte_of (mem s) r v)"
    "\<exists>s'. kfree cpu f s4 = (BRet (), s') \<and> kept (frames (mem s) r {..<pgs sz} + R) s s' \<and> good_space s' r sz R \<and>
       (\<forall>w < NVPN. pte_of (mem s') r w = (if w = v then cow_entry p (pte_of (mem s) r v) else pte_of (mem s) r w)) \<and>
       (\<forall>i < PGSIZE. mem s' (p + i) = mem s (f + i)) \<and>
       (\<forall>q \<in># frames (mem s') r {..<pgs sz}. q = p \<or> q \<in># frames (mem s) r {..<pgs sz})"
proof -
  note G = good_spaceD [OF g] and D = tablesD [OF good_spaceD(1) [OF g]]
  let ?e = "pte_of (mem s) r v" and ?F = "frames (mem s) r {..<pgs sz}"
  let ?X = "?F + R"
  have vn: "v < NVPN" "pgs sz \<le> NVPN" using v(1) pgs_MAXVA [OF G(2)] by simp_all
  have e: "plain ?e" "?e < 2 ^ 64" using G(3) [OF v(1)] by (simp_all add: good_entry_def)
  have fF: "f \<in># ?F" using frame_in [OF v(1,3)] by (simp add: f_def)
  then have fp: "f \<in> pages s" "f \<noteq> p" using D(6) [of f] p(3) by auto
  have mm: "memmove (mem s1) p f PGSIZE = (\<lambda>a. if inpage p a then mem s1 (f + (a - p)) else mem s1 a)"
    by (auto simp: memmove_eq put_bytes_def inpage_def fun_eq_iff)
  have "\<forall>a. \<not> inpage p a \<longrightarrow> memmove (mem s1) p f PGSIZE a = mem s a" using p(5) by (simp add: mm touched_def)
  from p(4) [THEN spec, THEN mp, OF this] have 2: "tables s2 r (add_mset p ?X)" "kept ?X s s2" "pte_of (mem s2) r = pte_of (mem s) r"
    "tab (mem s2) r (low_of v) = Some pp" using v(2) by (simp_all add: s2_def)
  then show "pte_of (mem s2) r v = ?e" "tab (mem s2) r (low_of v) = Some pp" by simp_all
  define s3 where "s3 = st_pte k (unset_bit 0 ?e) s2"
  note S3 = tables_store [OF 2(1,4) flag_bits(2) [OF _ e(2), of 0] vn(1), folded k_def s3_def, simplified]
  show "tables (st_pte k (unset_bit 0 ?e) s2) r (add_mset p ?X)" using S3(1) unfolding s3_def .
  have t3: "tab (mem s3) r (low_of v) = Some pp" using S3(4) [OF low_of_ok] 2(4) by simp
  then show "tab (mem (st_pte k (unset_bit 0 ?e) s2)) r (low_of v) = Some pp" unfolding s3_def .
  show "pte_of (mem (st_pte k (unset_bit 0 ?e) s2)) r v = unset_bit 0 ?e" using S3(3) [of v] vn(1) unfolding s3_def by simp
  note E = cow_entry_parts [OF page_small [OF p(2)], of ?e]
  note S4 = tables_store [OF S3(1) t3 E(1) vn(1), folded k_def s3_def, folded s4_def [folded s3_def]]
  have ent4: "pte_of (mem s4) r w = (if w = v then cow_entry p ?e else pte_of (mem s) r w)" if "w < NVPN" for w
    using S4(3) [OF that] S3(3) that 2(3) by simp
  obtain F0 where F0: "?F = add_mset f F0" using fF by (metis insert_DiffM)
  have f2: "f \<in># F0 + R"
  proof (rule ccontr)
    assume "f \<notin># F0 + R"
    then have "count (F0 + R) f = 0" by (simp only: not_in_iff)
    moreover have "refs_to s f = int (count ?X f)" by (rule refs_tables [OF G(1)]) (use fF in simp)
    ultimately show False using more by (simp add: F0 f_def)
  qed
  have "tables s4 r (add_mset f (add_mset p (F0 + R)))" using S4(1) by (simp add: F0 add_mset_commute)
  from drop_ref [OF this c] f2 obtain s5 where
    5: "kfree cpu f s4 = (BRet (), s5)" "tables s5 r (add_mset p (F0 + R))" "mem s5 = mem s4" "kept (add_mset p (F0 + R)) s4 s5" by auto
  have "frames (mem s5) r {..<pgs sz} + frame_of ?e = ?F + frame_of (cow_entry p ?e)"
    by (rule frames_upd) (use v(1) vn(2) ent4 5(3) in auto)
  then have F5: "frames (mem s5) r {..<pgs sz} = add_mset p F0" using v(3) E(2,3) by (simp add: frame_of_def F0 f_def)
  have k24: "kept (add_mset p ?X) s2 s4" using kept_trans [OF S3(2) S4(2)] .
  have "kept ?X s s5" using 2(2) k24 5(3,4) by (auto simp: kept_def)
  moreover have "mem s5 (p + i) = mem s (f + i)" if "i < PGSIZE" for i
  proof -
    have "inpage p (p + i)" "inpage f (f + i)" using that by (simp_all add: inpage_def)
    then have "mem s5 (p + i) = mem s2 (p + i)" "\<not> inpage p (f + i)"
      using k24 5(3) inpage_unique [of f "f + i" p, OF _ _ page_small(2) [OF fp(1)] page_small(2) [OF p(2)]] fp(2) by (auto simp: kept_def)
    then show ?thesis using \<open>inpage p (p + i)\<close> p(5) by (simp add: s2_def mm touched_def)
  qed
  moreover have "good_space s5 r sz R"
  proof (rule good_replace [OF g v(1,3), of _ "cow_entry p ?e"])
    show "tables s5 r (frames (mem s5) r {..<pgs sz} + R)" using 5(2) by (simp add: F5)
    show "count (frames (mem s5) r {..<pgs sz} + R) (PTE2PA (cow_entry p ?e)) = 1"
      using p(3) E(2) by (simp add: F5) (simp add: F0 not_in_iff)
    show "count (frames (mem s5) r {..<pgs sz} + R) q = count ?X q" if "q \<in># ?X" "q \<noteq> PTE2PA ?e" for q
      using that p(3) by (auto simp: F5) (auto simp: F0 f_def)
  qed (use E ent4 vn(2) 5(3) in auto)
  ultimately show "\<exists>s'. kfree cpu f s4 = (BRet (), s') \<and> kept ?X s s' \<and> good_space s' r sz R \<and>
       (\<forall>w < NVPN. pte_of (mem s') r w = (if w = v then cow_entry p ?e else pte_of (mem s) r w)) \<and>
       (\<forall>i < PGSIZE. mem s' (p + i) = mem s (f + i)) \<and> (\<forall>q \<in># frames (mem s') r {..<pgs sz}. q = p \<or> q \<in># ?F)"
    using 5(1,3) ent4 F5 F0 by auto
qed

lemma slot_there:
  assumes "tables s r X" "pte_V (pte_of (mem s) r v)"
  obtains p where "tab (mem s) r (low_of v) = Some p" "p \<noteq> 0"
proof (cases "tab (mem s) r (low_of v)")
  case None
  then show ?thesis using assms(2) by (simp add: pte_of_def)
next
  case (Some p)
  then show ?thesis
    using that tables_nodes(2) [OF assms(1) low_of_ok Some] pool.no_null [OF pool.accountedD(1) [OF tablesD(1) [OF assms(1)]]] by metis
qed

lemma krefcnt_refs: "krefcnt p s = refs_to s p"
  by (simp add: krefcnt_def refs_to_def)

lemma ld_slot: "tab (mem s) r (low_of v) = Some p \<Longrightarrow> ld_pte (p + 8 * (v mod 512)) s = pte_of (mem s) r v"
  by (simp add: ld_pte_def pte_of_def)

lemma cowalloc_spec:
  assumes g: "good_space s r sz R" and c: "cpu < NCPU" and v: "v < pgs sz" "pte_V (pte_of (mem s) r v)"
  shows "\<exists>z s'. cowalloc cpu t r (v * PGSIZE) s = (BRet z, s') \<and> kept R s s' \<and> good_space s' r sz R \<and>
    (\<forall>q \<in># R. q \<notin># frames (mem s) r {..<pgs sz} \<longrightarrow> q \<notin># frames (mem s') r {..<pgs sz}) \<and> (\<forall>a < sz. ubyte s' r a = ubyte s r a) \<and>
    (z = 0 \<and> same_entries s s' r \<and> (\<not> pte_U (pte_of (mem s) r v) \<or> free_pages s = {}) \<or>
     z \<noteq> 0 \<and> PTE2PA (pte_of (mem s') r v) = z \<and> pte_V (pte_of (mem s') r v) \<and> pte_W (pte_of (mem s') r v) \<and> \<not> pte_F (pte_of (mem s') r v))"
proof -
  note G = good_spaceD [OF g] and D = tablesD [OF good_spaceD(1) [OF g]]
  let ?e = "pte_of (mem s) r v" and ?F = "frames (mem s) r {..<pgs sz}"
  let ?f = "PTE2PA ?e" and ?X = "?F + R"
  have vn: "v < NVPN" "pgs sz \<le> NVPN" using v(1) pgs_MAXVA [OF G(2)] by simp_all
  have va: "v * PGSIZE < MAXVA" "v * PGSIZE div PGSIZE = v" using vn(1) by simp_all
  obtain p where p: "tab (mem s) r (low_of v) = Some p" "p \<noteq> 0" by (rule slot_there [OF G(1) v(2)])
  note wa = walkaddr_valid [OF vn(1) p v(2), of cpu t]
  have wk: "walk cpu r (v * PGSIZE) False s = (BRet (p + 8 * (v mod 512)), s)"
    using walk_present [OF va(1), of s r p cpu False] p(1) unfolding va(2) by simp
  have fp: "?f \<in> pages s" using frame_in [OF v] D(6) by auto
  have fz: "?f \<noteq> 0" using fp pool.no_null [OF pool.accountedD(1) [OF G(4)]] by metis
  show ?thesis
  proof (cases "pte_U ?e")
    case False
    then have "cowalloc cpu t r (v * PGSIZE) s = (BRet 0, s)" using wa by (simp add: cowalloc_def bbind_def)
    then show ?thesis using g False by (intro exI [of _ 0] exI [of _ s]) (simp add: same_entries_def)
  next
    case U: True
    show ?thesis
    proof (cases "refs_to s ?f = 1")
      case True
      note L = cow_last [OF g v(1) p(1) v(2) True]
      define s' where "s' = st_pte (p + 8 * (v mod 512)) (unset_bit 8 (set_bit 2 ?e)) s"
      have run: "cowalloc cpu t r (v * PGSIZE) s = (BRet ?f, s')"
        using wa wk U True fz by (simp add: cowalloc_def bbind_def krefcnt_refs s'_def ld_slot [OF p(1)])
      have "ubyte s' r a = ubyte s r a" if "a < sz" for a
      proof (cases "a div PGSIZE = v")
        case False
        then have "uentry s' r a = uentry s r a" using L(3) [of "a div PGSIZE"] page_of [OF that] vn(2) by (simp add: uentry_def s'_def)
        then show ?thesis using L(2) unfolding s'_def by (intro ubyte_same [OF that]) (simp_all add: kept_def)
      next
        case True
        have "mem s' (?f + a mod PGSIZE) = mem s (?f + a mod PGSIZE)"
          using L(2) frame_in [OF v] inpage_off unfolding s'_def by (auto simp: kept_def)
        then show ?thesis using L(3) [of v] L(4) True v(2) vn(1) by (simp add: ubyte_def uentry_def s'_def bits_nat)
      qed
      then show ?thesis using run L(1-5) fz v(2) vn(1) unfolding s'_def [symmetric]
        by (intro exI [of _ ?f] exI [of _ s']) (auto simp: kept_def bits_nat)
    next
      case More: False
      from tables_kalloc [OF G(1) c] show ?thesis
      proof (elim disjE exE conjE)
        assume "kalloc_try cpu s = (0, s)" "free_pages s = {}"
        then have "cowalloc cpu t r (v * PGSIZE) s = (BRet 0, s)"
          using wa wk U More fz by (simp add: cowalloc_def bbind_def krefcnt_refs)
        then show ?thesis using g \<open>free_pages s = {}\<close> by (intro exI [of _ 0] exI [of _ s]) (simp add: same_entries_def)
      next
        fix q s1
        assume q: "kalloc_try cpu s = (q, s1)" "q \<noteq> 0" "q \<in> pages s" "q \<notin># ?X" "q \<notin> nodes (mem s) r" "touched q s s1"
          and m: "\<forall>m. (\<forall>a. \<not> inpage q a \<longrightarrow> m a = mem s a) \<longrightarrow>
            tables (s1\<lparr>mem := m\<rparr>) r (add_mset q ?X) \<and> kept ?X s (s1\<lparr>mem := m\<rparr>) \<and> pte_of m r = pte_of (mem s) r \<and> costs 1 s (s1\<lparr>mem := m\<rparr>) \<and>
            (\<forall>n. node_ok n \<longrightarrow> tab m r n = tab (mem s) r n)"
        have m': "\<forall>m. (\<forall>a. \<not> inpage q a \<longrightarrow> m a = mem s a) \<longrightarrow> tables (s1\<lparr>mem := m\<rparr>) r (add_mset q ?X) \<and> kept ?X s (s1\<lparr>mem := m\<rparr>) \<and>
          pte_of m r = pte_of (mem s) r \<and> (\<forall>n. node_ok n \<longrightarrow> tab m r n = tab (mem s) r n)" using m by blast
        note C = cow_copy [OF g c v(1) p(1) v(2) More q(1,3,4) m' q(6)]
        define s2 where "s2 = s1\<lparr>mem := memmove (mem s1) q ?f PGSIZE\<rparr>"
        define s3 where "s3 = st_pte (p + 8 * (v mod 512)) (unset_bit 0 ?e) s2"
        have C3: "tables s3 r (add_mset q ?X)" "pte_of (mem s2) r v = ?e" "tab (mem s3) r (low_of v) = Some p" "tab (mem s2) r (low_of v) = Some p"
          "pte_of (mem s3) r v = unset_bit 0 ?e" using C(1-5) unfolding s3_def s2_def .
        from C(6) obtain s' where s': "kfree cpu ?f (st_pte (p + 8 * (v mod 512)) (cow_entry q ?e) s3) = (BRet (), s')" "kept ?X s s'" "good_space s' r sz R"
          "\<And>w. w < NVPN \<Longrightarrow> pte_of (mem s') r w = (if w = v then cow_entry q ?e else pte_of (mem s) r w)"
          "\<And>i. i < PGSIZE \<Longrightarrow> mem s' (q + i) = mem s (?f + i)" "\<forall>x \<in># frames (mem s') r {..<pgs sz}. x = q \<or> x \<in># ?F"
          unfolding s3_def s2_def by blast
        have "\<not> pte_V (pte_of (mem s3) r v)" using C3(5) by (simp add: bits_nat)
        note mp = mappages_present [OF C3(1) vn(1) C3(3) this, of cpu q]
        have al: "PGROUNDDOWN ?f = ?f" using page_small(2) [OF fp] div_mult_mod_eq [of ?f PGSIZE] by (simp add: PGROUNDDOWN_def)
        have run: "cowalloc cpu t r (v * PGSIZE) s = (BRet q, s')"
          using wa wk U More fz q(1,2) mp s'(1) al C3(5)
          by (simp add: cowalloc_def bbind_def krefcnt_refs Let_def s2_def [symmetric] ld_slot [OF C3(4)] C3(2) s3_def [symmetric] ld_slot [OF C3(3)] cow_entry_def)
        note E = cow_entry_parts [OF page_small [OF q(3)], of ?e]
        have "ubyte s' r a = ubyte s r a" if "a < sz" for a
        proof (cases "a div PGSIZE = v")
          case False
          then have "uentry s' r a = uentry s r a" using s'(4) [of "a div PGSIZE"] page_of [OF that] vn(2) by (simp add: uentry_def)
          then show ?thesis using s'(2) by (intro ubyte_same [OF that]) (simp_all add: kept_def)
        next
          case True
          then show ?thesis using s'(4) [of v] s'(5) [of "a mod PGSIZE"] E v(2) vn(1) by (simp add: ubyte_def uentry_def)
        qed
        then show ?thesis using run s'(2-4) s'(6) q(2,4) E vn(1) by (intro exI [of _ q] exI [of _ s']) (auto simp: kept_def)
      qed
    qed
  qed
qed

end
