(* ===== verification/Fork.thy ===== *)
theory Fork
  imports Spaces
begin

section \<open>Fork\<close>

text \<open>
  The copy-on-write copy of an address space (\<^verbatim>\<open>uvmcopy\<close>): parent and child share every page, none of them writable any
  more, and each sees the memory as it was. With it the isolation of all address spaces is complete.
\<close>

subsection \<open>Two address spaces\<close>

definition pair :: "vm \<Rightarrow> nat \<Rightarrow> nat \<Rightarrow> nat multiset \<Rightarrow> bool" where
  "pair s a b Z \<longleftrightarrow> tables s a (mset_set (nodes (mem s) b) + Z) \<and> tables s b (mset_set (nodes (mem s) a) + Z)"

lemma pair_sym: "pair s a b Z \<Longrightarrow> pair s b a Z"
  by (simp add: pair_def)

text \<open>A step of one of them leaves the other alone.\<close>

lemma pair_step:
  assumes p: "pair s a b Z" and t: "tables s' b (mset_set (nodes (mem s) a) + Z')" and k: "kept (mset_set (nodes (mem s) a)) s s'"
    and nz: "\<And>q. q \<in> nodes (mem s) a \<Longrightarrow> q \<notin># Z'"
  shows "pair s' a b Z'" "pte_of (mem s') a = pte_of (mem s) a" "nodes (mem s') a = nodes (mem s) a"
    "node_ok n \<Longrightarrow> tab (mem s') a n = tab (mem s) a n"
proof -
  have ta: "tables s a (mset_set (nodes (mem s) b) + Z)" using p by (simp add: pair_def)
  note A = tablesD [OF ta] and B = tablesD [OF t]
  have nd: "mem s' x = mem s x" if "q \<in> nodes (mem s) a" "inpage q x" for q x using k that A(3) by (auto simp: kept_def)
  have acc: "pool.accounted (s', mset_set (nodes (mem s) a) + (mset_set (nodes (mem s') b) + Z'))" using B(1) by (simp add: ac_simps)
  have nX: "q \<notin># mset_set (nodes (mem s') b) + Z'" if "q \<in> nodes (mem s) a" for q
    using B(3) B(4) [of q] nz [OF that] that A(3) by auto
  show N: "nodes (mem s') a = nodes (mem s) a" by (rule tables_frame(4) [OF ta _ acc]) (use nd nX in auto)
  show "pte_of (mem s') a = pte_of (mem s) a" by (rule tables_frame(2) [OF ta _ acc]) (use nd nX in auto)
  show "node_ok n \<Longrightarrow> tab (mem s') a n = tab (mem s) a n" by (rule tables_frame(3) [OF ta _ acc]) (use nd nX in auto)
  have "tables s' a (mset_set (nodes (mem s') b) + Z')" by (rule tables_frame(1) [OF ta _ acc]) (use nd nX in auto)
  then show "pair s' a b Z'" using t N by (simp add: pair_def)
qed

subsection \<open>One page\<close>

text \<open>The flags both sides get, the entry that stays in the parent and the one of the child.\<close>

definition cow_flags :: "nat \<Rightarrow> nat" where
  "cow_flags e = (if pte_W (PTE_FLAGS e) then unset_bit 2 (set_bit 8 (PTE_FLAGS e)) else PTE_FLAGS e)"

definition parent_entry :: "nat \<Rightarrow> nat" where
  "parent_entry e = (if pte_V e \<and> pte_W (PTE_FLAGS e) then PA2PTE (PTE2PA e) OR cow_flags e else e)"

definition child_entry :: "nat \<Rightarrow> nat" where
  "child_entry e = (if pte_V e then leaf (PTE2PA e) (cow_flags e) else 0)"

lemma cow_flags_bits:
  "k < 10 \<Longrightarrow> bit (cow_flags e) k \<longleftrightarrow> (if pte_W e then k = 8 \<or> (k \<noteq> 2 \<and> bit e k) else bit e k)" "cow_flags e < 1024"
proof -
  show "k < 10 \<Longrightarrow> bit (cow_flags e) k \<longleftrightarrow> (if pte_W e then k = 8 \<or> (k \<noteq> 2 \<and> bit e k) else bit e k)"
    by (auto simp: cow_flags_def bits_nat flags_bit)
  have "drop_bit 10 (cow_flags e) = 0" by (rule bit_eqI) (auto simp: bit_drop_bit_eq bits_nat flags_bit cow_flags_def)
  then show "cow_flags e < 1024" by (simp add: drop_bit_eq_div div_eq_0_iff)
qed

lemma child_entry_parts:
  assumes "pte_V e" "plain e" "PTE2PA e < 2 ^ 56" "PTE2PA e mod PGSIZE = 0"
  shows "child_entry e < 2 ^ 64" "PTE2PA (child_entry e) = PTE2PA e" "pte_V (child_entry e)" "\<not> pte_W (child_entry e)"
    "k < 10 \<Longrightarrow> k \<noteq> 2 \<Longrightarrow> k \<noteq> 8 \<Longrightarrow> bit (child_entry e) k \<longleftrightarrow> bit e k" "pte_F (child_entry e) \<longleftrightarrow> pte_F e \<or> pte_W e"
    "plain (child_entry e)"
proof -
  have c: "child_entry e = leaf (PTE2PA e) (cow_flags e)" using assms(1) by (simp add: child_entry_def)
  note L = leaf_parts [OF assms(3,4) cow_flags_bits(2) [of e], folded c]
  show "child_entry e < 2 ^ 64" "PTE2PA (child_entry e) = PTE2PA e" by (rule L)+
  show V: "pte_V (child_entry e)" "\<not> pte_W (child_entry e)" "pte_F (child_entry e) \<longleftrightarrow> pte_F e \<or> pte_W e"
    by (auto simp: L(4) cow_flags_bits(1))
  show "k < 10 \<Longrightarrow> k \<noteq> 2 \<Longrightarrow> k \<noteq> 8 \<Longrightarrow> bit (child_entry e) k \<longleftrightarrow> bit e k" for k
    using assms(1) by (auto simp: L(4) cow_flags_bits(1))
  show "plain (child_entry e)"
  proof (cases "pte_W e")
    case True
    then show ?thesis by (intro plainI [of 8]) (use V in simp_all)
  next
    case False
    then have "cow_flags e = PTE_FLAGS e" by (simp add: cow_flags_def flags_bit)
    then have "PTE_FLAGS (child_entry e) = PTE_FLAGS e OR 1" using L(3) by simp
    also have "\<dots> = PTE_FLAGS e" using assms(1) by (intro bit_eqI) (auto simp: bit_or_iff bit_1_iff flags_bit simp flip: One_nat_def)
    finally show ?thesis using assms(1,2) V(1) by (simp add: plain_def)
  qed
qed

lemma parent_entry_child: "pte_V e \<Longrightarrow> pte_W e \<Longrightarrow> parent_entry e = child_entry e"
proof -
  assume e: "pte_V e" "pte_W e"
  have "cow_flags e OR 1 = cow_flags e"
    using cow_flags_bits(1) [of 0 e] e by (intro bit_eqI) (auto simp: bit_or_iff bit_1_iff simp flip: One_nat_def)
  then show ?thesis using e by (simp add: parent_entry_def child_entry_def leaf_def flags_bit or.assoc flip: One_nat_def)
qed

lemma parent_entry_other: "\<not> (pte_V e \<and> pte_W e) \<Longrightarrow> parent_entry e = e"
  by (auto simp: parent_entry_def flags_bit)

lemma parent_entry_parts:
  assumes "e < 2 ^ 64" "plain e" "pte_V e \<longrightarrow> PTE2PA e < 2 ^ 56 \<and> PTE2PA e mod PGSIZE = 0"
  shows "parent_entry e < 2 ^ 64" "pte_V (parent_entry e) \<longleftrightarrow> pte_V e" "pte_V e \<Longrightarrow> PTE2PA (parent_entry e) = PTE2PA e"
    "plain (parent_entry e)" "pte_V e \<Longrightarrow> \<not> pte_W (parent_entry e)" "frame_of (parent_entry e) = frame_of e"
proof -
  have "parent_entry e < 2 ^ 64 \<and> (pte_V (parent_entry e) \<longleftrightarrow> pte_V e) \<and> (pte_V e \<longrightarrow> PTE2PA (parent_entry e) = PTE2PA e) \<and>
    plain (parent_entry e) \<and> (pte_V e \<longrightarrow> \<not> pte_W (parent_entry e))"
  proof (cases "pte_V e \<and> pte_W e")
    case True
    then show ?thesis using child_entry_parts(1-4,7) [OF _ assms(2)] assms(3) parent_entry_child by simp
  next
    case False
    then show ?thesis using parent_entry_other [OF False] assms(1,2) by auto
  qed
  then show "parent_entry e < 2 ^ 64" "pte_V (parent_entry e) \<longleftrightarrow> pte_V e" "pte_V e \<Longrightarrow> PTE2PA (parent_entry e) = PTE2PA e"
    "plain (parent_entry e)" "pte_V e \<Longrightarrow> \<not> pte_W (parent_entry e)" "frame_of (parent_entry e) = frame_of e"
    by (auto simp: frame_of_def)
qed

lemma pair_share:
  assumes p: "pair s a b Z" and f: "f \<in># Z" "count Z f < 2147483647"
  shows "\<exists>s'. kaddrefcnt f s = (0, s') \<and> pair s' a b (add_mset f Z) \<and> mem s' = mem s \<and> kept Z s s' \<and> free_pages s' = free_pages s"
proof -
  have t: "tables s a (mset_set (nodes (mem s) b) + Z)" "tables s b (mset_set (nodes (mem s) a) + Z)" using p by (simp_all add: pair_def)
  note A = tablesD [OF t(1)] and B = tablesD [OF t(2)]
  let ?H = "mset_set (nodes (mem s) a) + (mset_set (nodes (mem s) b) + Z)"
  have "f \<notin> nodes (mem s) a" "f \<notin> nodes (mem s) b" using A(4) [of f] B(4) [of f] f(1) by auto
  then have "count ?H f = count Z f" by (simp add: count_mset_set')
  then have "count ?H f < 2147483647" "f \<in># ?H" using f by simp_all
  from kaddrefcnt_held [OF A(1) this(2,1)] obtain s' where
    s': "kaddrefcnt f s = (0, s')" "pool.accounted (s', add_mset f ?H)" "touched f s s'" "mem s' = mem s" by blast
  have acc: "pool.accounted (s', mset_set (nodes (mem s) a) + (mset_set (nodes (mem s) b) + add_mset f Z))"
    "pool.accounted (s', mset_set (nodes (mem s) b) + (mset_set (nodes (mem s) a) + add_mset f Z))" using s'(2) by (simp_all add: ac_simps)
  have "tables s' a (mset_set (nodes (mem s) b) + add_mset f Z)" by (rule tables_frame(1) [OF t(1) _ acc(1)]) (use s'(4) A(4) \<open>f \<notin> nodes (mem s) a\<close> in auto)
  moreover have "tables s' b (mset_set (nodes (mem s) a) + add_mset f Z)" by (rule tables_frame(1) [OF t(2) _ acc(2)]) (use s'(4) B(4) \<open>f \<notin> nodes (mem s) b\<close> in auto)
  moreover have "free_pages s' = free_pages s"
    using free_accounted [OF A(1)] free_accounted [OF s'(2)] touched_pages [OF s'(3)] f(1) by auto
  ultimately show ?thesis using s' by (auto simp: pair_def kept_def touched_def)
qed

lemma free_st_pte: "free_pages (st_pte k x s) = free_pages s"
  by (simp add: free_pages_def pages_def refs_to_def st_pte_def)

text \<open>The entry of the parent loses its write permission.\<close>

lemma parent_step:
  assumes p: "pair s old new Z" and v: "v < NVPN" "tab (mem s) old (low_of v) = Some k"
    and e: "e = pte_of (mem s) old v" "pte_V e" "plain e" "e < 2 ^ 64" "PTE2PA e < 2 ^ 56" "PTE2PA e mod PGSIZE = 0"
  defines "s' \<equiv> (if pte_W (PTE_FLAGS e) then st_pte (k + 8 * (v mod 512)) (PA2PTE (PTE2PA e) OR cow_flags e) s else s)"
  shows "pair s' old new Z" "kept Z s s'" "entry_set s s' old v (parent_entry e)" "pte_of (mem s') new = pte_of (mem s) new" "free_pages s' = free_pages s"
proof -
  have "pair s' old new Z \<and> kept Z s s' \<and> entry_set s s' old v (parent_entry e) \<and> pte_of (mem s') new = pte_of (mem s) new \<and> free_pages s' = free_pages s"
  proof (cases "pte_W e")
    case False
    then have "s' = s" "parent_entry e = e" using parent_entry_other by (simp_all add: s'_def flags_bit)
    then show ?thesis using p e(1) by (simp add: entry_set_def)
  next
    case True
    have pe: "PA2PTE (PTE2PA e) OR cow_flags e = parent_entry e" using e(2) True by (simp add: parent_entry_def flags_bit)
    have s': "s' = st_pte (k + 8 * (v mod 512)) (parent_entry e) s" using True by (simp add: s'_def flags_bit pe)
    have t: "tables s old (mset_set (nodes (mem s) new) + Z)" using p by (simp add: pair_def)
    have lt: "parent_entry e < 2 ^ 64" using parent_entry_parts(1) [OF e(4,3)] e(5,6) by simp
    note S = tables_store [OF t v(2) lt v(1), folded s']
    have kn: "kept (mset_set (nodes (mem s) new)) s s'" "kept Z s s'" using S(2) by (simp_all add: kept_def)
    have nz: "q \<notin># Z" if "q \<in> nodes (mem s) new" for q using p tablesD(4) that unfolding pair_def by fastforce
    have "pair s' new old Z" "pte_of (mem s') new = pte_of (mem s) new"
      by (rule pair_step [OF pair_sym [OF p] S(1) kn(1)], rule nz, assumption)+
    then show ?thesis using kn(2) S(3) pair_sym by (auto simp: entry_set_def s' free_st_pte)
  qed
  then show "pair s' old new Z" "kept Z s s'" "entry_set s s' old v (parent_entry e)" "pte_of (mem s') new = pte_of (mem s) new" "free_pages s' = free_pages s"
    by blast+
qed

text \<open>A page is copied, or memory ran out.\<close>

lemma copy_page:
  assumes p: "pair s old new Z" and c: "cpu < NCPU" and v: "v < NVPN" "pte_of (mem s) new v = 0"
    and e: "e = pte_of (mem s) old v" "plain e" "e < 2 ^ 64" "pte_V e \<longrightarrow> PTE2PA e \<in># Z \<and> count Z (PTE2PA e) < 2147483647"
  shows "(\<exists>s'. uvmcopy_page cpu old new (v * PGSIZE) s = (BRet True, s') \<and> pair s' old new (frame_of e + Z) \<and> kept Z s s' \<and> costs 2 s s' \<and>
      entry_set s s' old v (parent_entry e) \<and> entry_set s s' new v (child_entry e)) \<or>
    (\<exists>s'. uvmcopy_page cpu old new (v * PGSIZE) s = (BRet False, s') \<and> pair s' old new Z \<and> kept Z s s' \<and> card (free_pages s) \<le> 2 \<and>
      entry_set s s' old v (parent_entry e) \<and> same_entries s s' new)"
proof -
  have t: "tables s old (mset_set (nodes (mem s) new) + Z)" using p by (simp add: pair_def)
  have va: "v * PGSIZE < MAXVA" "v * PGSIZE div PGSIZE = v" using v(1) by simp_all
  note W = walk_look [OF va(1), of cpu old s, unfolded va(2)]
  show ?thesis
  proof (cases "pte_V e")
    case False
    have "pte_slot (mem s) old v = 0 \<or> ld_pte (pte_slot (mem s) old v) s = e" using slot_pte(2) [OF t, of v] e(1) by blast
    then have "uvmcopy_page cpu old new (v * PGSIZE) s = (BRet True, s)"
      using W False e(2) by (auto simp: uvmcopy_page_def bbind_def plain_def Let_def)
    moreover have "parent_entry e = e" "child_entry e = 0" "frame_of e = {#}" using False parent_entry_other by (simp_all add: child_entry_def frame_of_def)
    ultimately show ?thesis using p e(1) v(2) by (intro disjI1 exI [of _ s]) (simp add: entry_set_def)
  next
    case True
    obtain k where k: "tab (mem s) old (low_of v) = Some k" "k \<noteq> 0" using slot_there [OF t] True e(1) by blast
    have sl: "pte_slot (mem s) old v = k + 8 * (v mod 512)" "ld_pte (k + 8 * (v mod 512)) s = e"
      using k(1) ld_slot [OF k(1)] e(1) by (simp_all add: pte_slot_def)
    have fZ: "PTE2PA e \<in># Z" "count Z (PTE2PA e) < 2147483647" using e(4) True by simp_all
    have fp: "PTE2PA e < 2 ^ 56" "PTE2PA e mod PGSIZE = 0" using page_small tablesD(6) [OF t, of "PTE2PA e"] fZ(1) by auto
    define s1 where "s1 = (if pte_W (PTE_FLAGS e) then st_pte (k + 8 * (v mod 512)) (PA2PTE (PTE2PA e) OR cow_flags e) s else s)"
    note S1 = parent_step [OF p v(1) k(1) e(1) True e(2,3) fp, folded s1_def]
    have t1: "tables s1 new (mset_set (nodes (mem s1) old) + Z)" using S1(1) by (simp add: pair_def)
    have "\<not> pte_V (pte_of (mem s1) new v)" using S1(4) v(2) by simp
    from mappages_page [OF t1 c v(1) this fp cow_flags_bits(2) [of e]] obtain res s2 where
      2: "mappages cpu new (v * PGSIZE) PGSIZE (PTE2PA e) (cow_flags e) s1 = (BRet res, s2)" "tables s2 new (mset_set (nodes (mem s1) old) + Z)"
        "kept (mset_set (nodes (mem s1) old) + Z) s1 s2" "costs 2 s1 s2"
        "res = 0 \<and> entry_set s1 s2 new v (leaf (PTE2PA e) (cow_flags e)) \<or> res = - 1 \<and> same_entries s1 s2 new \<and> free_pages s2 = {}" by blast
    have run: "uvmcopy_page cpu old new (v * PGSIZE) s = (if res \<noteq> 0 then (BRet False, s2) else (BRet True, snd (kaddrefcnt (PTE2PA e) s2)))"
      using W sl k(2) True 2(1) by (cases "pte_W (PTE_FLAGS e)") (simp_all add: uvmcopy_page_def bbind_def Let_def cow_flags_def s1_def)
    have nz: "q \<notin># Z" if "q \<in> nodes (mem s1) old" for q using S1(1) tablesD(4) that unfolding pair_def by fastforce
    have k2: "kept (mset_set (nodes (mem s1) old)) s1 s2" "kept Z s1 s2" using 2(3) by (simp_all add: kept_def)
    have P2: "pair s2 old new Z" "pte_of (mem s2) old = pte_of (mem s1) old"
      by (rule pair_step [OF S1(1) 2(2) k2(1)], rule nz, assumption)+
    have kk: "kept Z s s2" by (rule kept_trans [OF S1(2) k2(2)])
    have eo: "entry_set s s2 old v (parent_entry e)" using S1(3) P2(2) by (simp add: entry_set_def)
    have cc: "costs 2 s s2" using 2(4) S1(5) by (simp add: costs_def)
    show ?thesis
    proof (cases "res = 0")
      case True
      then have en: "entry_set s s2 new v (child_entry e)" using 2(5) S1(4) \<open>pte_V e\<close> by (simp add: entry_set_def child_entry_def)
      from pair_share [OF P2(1) fZ] obtain s3 where
        3: "kaddrefcnt (PTE2PA e) s2 = (0, s3)" "pair s3 old new (add_mset (PTE2PA e) Z)" "mem s3 = mem s2" "kept Z s2 s3" "free_pages s3 = free_pages s2" by blast
      have "entry_set s s3 old v (parent_entry e)" "entry_set s s3 new v (child_entry e)" "costs 2 s s3"
        using eo en 3(3,5) cc by (simp_all add: entry_set_def costs_def)
      then show ?thesis using run True 3(1,2) kept_trans [OF kk 3(4)] \<open>pte_V e\<close> by (auto simp: frame_of_def)
    next
      case False
      then have "same_entries s s2 new" "free_pages s2 = {}" using 2(5) S1(4) by (auto simp: same_entries_def)
      moreover from this have "card (free_pages s) \<le> 2" using cc by (simp add: costs_def)
      ultimately show ?thesis using run False P2(1) kk eo by auto
    qed
  qed
qed

subsection \<open>All pages\<close>

text \<open>The state of the loop at page \<open>v\<close>, with \<open>Z\<close> the references other than those of the child.\<close>

definition copying :: "vm \<Rightarrow> vm \<Rightarrow> nat \<Rightarrow> nat \<Rightarrow> nat \<Rightarrow> nat multiset \<Rightarrow> bool" where
  "copying s0 s old new v Z \<longleftrightarrow> pair s old new (frames (mem s) new {..<v} + Z) \<and> kept Z s0 s \<and>
     (\<forall>w < NVPN. pte_of (mem s) old w = (if w < v then parent_entry (pte_of (mem s0) old w) else pte_of (mem s0) old w)) \<and>
     (\<forall>w < NVPN. pte_of (mem s) new w = (if w < v then child_entry (pte_of (mem s0) old w) else pte_of (mem s0) new w))"

lemma count_frames_le: "count (frames m r {..<v}) f \<le> v"
proof -
  have "count (frames m r {..<v}) f \<le> size (frames m r {..<v})" by (rule count_le_size)
  also have "\<dots> = card {w \<in> {..<v}. pte_V (pte_of m r w)}" by (simp add: frames_def)
  also have "\<dots> \<le> card {..<v}" by (rule card_mono) auto
  finally show ?thesis by simp
qed

lemma frames_lessThan_Suc: "frames m r {..<Suc v} = frame_of (pte_of m r v) + frames m r {..<v}"
  by (simp add: lessThan_Suc frames_insert)

lemma child_frame: "pte_V e \<longrightarrow> PTE2PA e < 2 ^ 56 \<and> PTE2PA e mod PGSIZE = 0 \<Longrightarrow> plain e \<Longrightarrow> frame_of (child_entry e) = frame_of e"
  using child_entry_parts(2,3) [of e] by (auto simp: frame_of_def child_entry_def)

lemma copyingD:
  assumes "copying s0 s old new v Z"
  shows "pair s old new (frames (mem s) new {..<v} + Z)" "kept Z s0 s"
    "w < NVPN \<Longrightarrow> pte_of (mem s) old w = (if w < v then parent_entry (pte_of (mem s0) old w) else pte_of (mem s0) old w)"
    "w < NVPN \<Longrightarrow> pte_of (mem s) new w = (if w < v then child_entry (pte_of (mem s0) old w) else pte_of (mem s0) new w)"
  using assms by (simp_all add: copying_def)

text \<open>The pages that can be copied.\<close>

definition copyable :: "nat multiset \<Rightarrow> nat \<Rightarrow> bool" where
  "copyable Z e \<longleftrightarrow> plain e \<and> e < 2 ^ 64 \<and> (pte_V e \<longrightarrow> PTE2PA e \<in># Z \<and> count Z (PTE2PA e) < 2000000000 \<and> PTE2PA e < 2 ^ 56 \<and> PTE2PA e mod PGSIZE = 0)"

lemma plain_0 [simp]: "plain 0"
  by (simp add: plain_def)

lemma plain_child: "copyable Z e \<Longrightarrow> plain (child_entry e)"
  using child_entry_parts(7) [of e] by (cases "pte_V e") (auto simp: copyable_def child_entry_def)

lemma copy_advance:
  assumes C: "copying s0 s old new v Z" and v: "v < NVPN" "copyable Z (pte_of (mem s0) old v)" and e: "e = pte_of (mem s0) old v"
    and s1: "pair s1 old new (frame_of e + (frames (mem s) new {..<v} + Z))" "kept (frames (mem s) new {..<v} + Z) s s1"
      "entry_set s s1 old v (parent_entry e)" "entry_set s s1 new v (child_entry e)"
  shows "copying s0 s1 old new (Suc v) Z"
proof -
  note D = copyingD [OF C]
  have "frames (mem s1) new {..<v} = frames (mem s) new {..<v}" using s1(4) v(1) by (intro frames_cong) (auto simp: entry_set_def)
  moreover have "frame_of (pte_of (mem s1) new v) = frame_of e"
    using s1(4) v child_frame [of e] e by (simp add: entry_set_def copyable_def)
  ultimately have "frames (mem s1) new {..<Suc v} + Z = frame_of e + (frames (mem s) new {..<v} + Z)" by (simp add: frames_lessThan_Suc ac_simps)
  then have "pair s1 old new (frames (mem s1) new {..<Suc v} + Z)" using s1(1) by (simp add: add.assoc)
  moreover have "kept Z s0 s1" using D(2) s1(2) by (auto simp: kept_def)
  moreover have "pte_of (mem s1) old w = (if w < Suc v then parent_entry (pte_of (mem s0) old w) else pte_of (mem s0) old w)" if "w < NVPN" for w
    using s1(3) D(3) [OF that] that e by (auto simp: entry_set_def less_Suc_eq)
  moreover have "pte_of (mem s1) new w = (if w < Suc v then child_entry (pte_of (mem s0) old w) else pte_of (mem s0) new w)" if "w < NVPN" for w
    using s1(4) D(4) [OF that] that e by (auto simp: entry_set_def less_Suc_eq)
  ultimately show ?thesis by (simp add: copying_def)
qed

lemma copy_undo:
  assumes p: "pair s old new (frames (mem s) new {..<v} + Z)" and c: "cpu < NCPU" and v: "v \<le> NVPN" "\<And>w. w < v \<Longrightarrow> plain (pte_of (mem s) new w)"
  shows "\<exists>s'. bbind (uvmunmap cpu new 0 v True) (\<lambda>_ s. (BRet (- 1), s)) s = (BRet (- 1 :: int), s') \<and> pair s' old new Z \<and> kept Z s s' \<and>
    pte_of (mem s') old = pte_of (mem s) old \<and> (\<forall>w < NVPN. pte_of (mem s') new w = (if w < v then 0 else pte_of (mem s) new w))"
proof -
  have b: "{0..<0 + v} = {..<v}" by auto
  have "tables s new (frames (mem s) new {0..<0 + v} + (mset_set (nodes (mem s) old) + Z))" using p unfolding b by (simp add: pair_def ac_simps)
  from uvmunmap_spec [OF this c] v obtain s' where
    s': "uvmunmap cpu new (0 * PGSIZE) v True s = (BRet (), s')" "tables s' new (mset_set (nodes (mem s) old) + Z)"
      "kept (mset_set (nodes (mem s) old) + Z) s s'" "added s s' new 0 v (\<lambda>_. 0)" by auto
  have k: "kept (mset_set (nodes (mem s) old)) s s'" "kept Z s s'" using s'(3) by (simp_all add: kept_def)
  have nz: "q \<notin># Z" if "q \<in> nodes (mem s) old" for q using p tablesD(4) that unfolding pair_def by fastforce
  have "pair s' old new Z" "pte_of (mem s') old = pte_of (mem s) old" by (rule pair_step [OF p s'(2) k(1)], rule nz, assumption)+
  moreover have "pte_of (mem s') new w = (if w < v then 0 else pte_of (mem s) new w)" if "w < NVPN" for w using addedD [OF s'(4) that] by simp
  ultimately show ?thesis using s'(1) k(2) by (auto simp: bbind_def)
qed

lemma copy_loop:
  assumes "copying s0 s old new v Z" "cpu < NCPU" "pgs sz = v + k" "sz \<le> MAXVA"
    "\<And>w. w < pgs sz \<Longrightarrow> copyable Z (pte_of (mem s0) old w)" "\<And>w. w < pgs sz \<Longrightarrow> pte_of (mem s0) new w = 0"
  shows "\<exists>z s'. uvmcopy_loop cpu old new sz (v * PGSIZE) s = (BRet z, s') \<and>
    (z = 0 \<and> copying s0 s' old new (pgs sz) Z \<or>
     z = - 1 \<and> pair s' old new Z \<and> kept Z s0 s' \<and> card (free_pages s) \<le> 2 * k \<and>
       (\<forall>w < NVPN. pte_of (mem s') old w = pte_of (mem s0) old w \<or> w < pgs sz \<and> pte_of (mem s') old w = parent_entry (pte_of (mem s0) old w)) \<and>
       (\<forall>w < NVPN. pte_of (mem s') new w = pte_of (mem s0) new w))"
  using assms
proof (induction k arbitrary: v s)
  case 0
  then have "\<not> v * PGSIZE < sz" by (simp add: pgs_less)
  then show ?case using 0 by (intro exI [of _ 0] exI [of _ s]) (simp add: uvmcopy_loop.simps)
next
  case (Suc k v s)
  note C = copyingD [OF Suc.prems(1)]
  let ?e = "pte_of (mem s0) old v"
  have lt: "v * PGSIZE < sz" "v < NVPN" "v < pgs sz" "pgs sz \<le> NVPN" using Suc.prems(3) pgs_MAXVA [OF Suc.prems(4)] by (simp_all add: pgs_less)
  have ev: "?e = pte_of (mem s) old v" "pte_of (mem s) new v = 0" using C(3,4) [OF lt(2)] Suc.prems(6) [OF lt(3)] by simp_all
  have ce: "copyable Z ?e" by (rule Suc.prems(5) [OF lt(3)])
  let ?Z = "frames (mem s) new {..<v} + Z"
  have cnt: "pte_V ?e \<longrightarrow> PTE2PA ?e \<in># ?Z \<and> count ?Z (PTE2PA ?e) < 2147483647"
    using ce count_frames_le [of "mem s" new v "PTE2PA ?e"] lt(2) by (auto simp: copyable_def)
  have "plain ?e" "?e < 2 ^ 64" using ce by (simp_all add: copyable_def)
  from copy_page [OF C(1) Suc.prems(2) lt(2) ev(2,1) this cnt] show ?case
  proof (elim disjE exE conjE)
    fix s1 assume 1: "uvmcopy_page cpu old new (v * PGSIZE) s = (BRet True, s1)" "pair s1 old new (frame_of ?e + ?Z)" "kept ?Z s s1" "costs 2 s s1"
      "entry_set s s1 old v (parent_entry ?e)" "entry_set s s1 new v (child_entry ?e)"
    have "copying s0 s1 old new (Suc v) Z" by (rule copy_advance [OF Suc.prems(1) lt(2) ce refl 1(2,3,5,6)])
    from Suc.IH [OF this Suc.prems(2) _ Suc.prems(4-6)] Suc.prems(3) obtain z s' where
      2: "uvmcopy_loop cpu old new sz (Suc v * PGSIZE) s1 = (BRet z, s')"
      and cs: "z = 0 \<and> copying s0 s' old new (pgs sz) Z \<or>
     z = - 1 \<and> pair s' old new Z \<and> kept Z s0 s' \<and> card (free_pages s1) \<le> 2 * k \<and>
       (\<forall>w < NVPN. pte_of (mem s') old w = pte_of (mem s0) old w \<or> w < pgs sz \<and> pte_of (mem s') old w = parent_entry (pte_of (mem s0) old w)) \<and>
       (\<forall>w < NVPN. pte_of (mem s') new w = pte_of (mem s0) new w)" by auto
    have "uvmcopy_loop cpu old new sz (v * PGSIZE) s = (BRet z, s')"
      using lt(1) 1(1) 2 by (subst uvmcopy_loop.simps) (simp add: add.commute)
    moreover have "card (free_pages s) \<le> card (free_pages s1) + 2" using 1(4) by (simp add: costs_def)
    ultimately show ?thesis using cs by (intro exI [of _ z] exI [of _ s']) auto
  next
    fix s1 assume 1: "uvmcopy_page cpu old new (v * PGSIZE) s = (BRet False, s1)" "pair s1 old new ?Z" "kept ?Z s s1" "card (free_pages s) \<le> 2"
      "entry_set s s1 old v (parent_entry ?e)" "same_entries s s1 new"
    have "frames (mem s1) new {..<v} = frames (mem s) new {..<v}" using 1(6) lt(2) by (intro frames_cong) (auto simp: same_entries_def)
    then have p1: "pair s1 old new (frames (mem s1) new {..<v} + Z)" using 1(2) by simp
    have pl: "plain (pte_of (mem s1) new w)" if "w < v" for w
      using 1(6) C(4) [of w] that lt plain_child [OF Suc.prems(5), of w] by (simp add: same_entries_def)
    from copy_undo [OF p1 Suc.prems(2) _ pl] lt(2) obtain s2 where
      2: "bbind (uvmunmap cpu new 0 v True) (\<lambda>_ s. (BRet (- 1), s)) s1 = (BRet (- 1 :: int), s2)" "pair s2 old new Z" "kept Z s1 s2"
        "pte_of (mem s2) old = pte_of (mem s1) old" "\<forall>w < NVPN. pte_of (mem s2) new w = (if w < v then 0 else pte_of (mem s1) new w)" by auto
    have run: "uvmcopy_loop cpu old new sz (v * PGSIZE) s = (BRet (- 1), s2)"
      using lt(1) 1(1) 2(1) by (subst uvmcopy_loop.simps) simp
    have "pte_of (mem s2) old w = pte_of (mem s0) old w \<or> w < pgs sz \<and> pte_of (mem s2) old w = parent_entry (pte_of (mem s0) old w)" if "w < NVPN" for w
      using C(3) [OF that] 1(5) 2(4) that lt(3) by (auto simp: entry_set_def)
    moreover have "pte_of (mem s2) new w = pte_of (mem s0) new w" if "w < NVPN" for w
      using C(4) [OF that] 1(6) 2(5) that Suc.prems(6) [of w] lt(3) by (auto simp: same_entries_def)
    moreover have "kept Z s0 s2" using C(2) 1(3) 2(3) by (auto simp: kept_def)
    ultimately show ?thesis using run 2(2) 1(4) by (intro exI [of _ "- 1"] exI [of _ s2]) auto
  qed
qed

subsection \<open>Fork among all address spaces\<close>

definition rest2 :: "vm \<Rightarrow> (nat \<rightharpoonup> nat) \<Rightarrow> nat multiset \<Rightarrow> nat \<Rightarrow> nat \<Rightarrow> nat multiset" where
  "rest2 s P K r q = (\<Sum>x \<in> dom P - {r, q}. own (mem s) x (the (P x))) + K"

lemma rest_rest2: "finite (dom P) \<Longrightarrow> P q = Some z \<Longrightarrow> q \<noteq> r \<Longrightarrow> rest s P K r = own (mem s) q z + rest2 s P K r q"
proof -
  assume a: "finite (dom P)" "P q = Some z" "q \<noteq> r"
  have "dom P - {r} - {q} = dom P - {r, q}" by auto
  then have "(\<Sum>x \<in> dom P - {r}. own (mem s) x (the (P x))) = own (mem s) q z + (\<Sum>x \<in> dom P - {r, q}. own (mem s) x (the (P x)))"
    using a by (subst sum.remove [of _ q]) auto
  then show ?thesis by (simp add: rest_def rest2_def)
qed

lemma rest2_sym: "rest2 s P K r q = rest2 s P K q r"
  by (simp add: rest2_def insert_commute)

lemma own_sub_rest2: "finite (dom P) \<Longrightarrow> P x = Some z \<Longrightarrow> x \<noteq> r \<Longrightarrow> x \<noteq> q \<Longrightarrow> own (mem s) x z \<subseteq># rest2 s P K r q"
proof -
  assume "finite (dom P)" "P x = Some z" "x \<noteq> r" "x \<noteq> q"
  then have "own (mem s) x z \<subseteq># (\<Sum>x \<in> dom P - {r, q}. own (mem s) x (the (P x)))"
    using own_sub_sum [of "dom P - {r, q}" x "mem s" "\<lambda>x. the (P x)"] by auto
  then show ?thesis by (simp add: rest2_def subset_mset.add_increasing2)
qed

lemma two_step:
  assumes S: "spaces \<lparr>vmem = s, usize = P, kpages = K\<rparr>" and r: "P r = Some sz" "P q = Some z" "q \<noteq> r" and R: "R = rest2 s P K r q"
    and gr: "good_space s' r sz' (own (mem s') q z' + R)" and gq: "good_space s' q z' (own (mem s') r sz' + R)" and k: "kept R s s'"
    and ns: "\<And>p. p \<in># R \<Longrightarrow> p \<notin># own (mem s) r sz + own (mem s) q z \<Longrightarrow> p \<notin># own (mem s') r sz' + own (mem s') q z'"
  shows "spaces \<lparr>vmem = s', usize = P(r \<mapsto> sz', q \<mapsto> z'), kpages = K\<rparr>"
    "x \<noteq> r \<Longrightarrow> x \<noteq> q \<Longrightarrow> P x = Some y \<Longrightarrow> pte_of (mem s') x = pte_of (mem s) x \<and> (\<forall>a < y. ubyte s' x a = ubyte s x a)"
proof -
  note D = spacesD [OF S, simplified]
  let ?A = "own (mem s) r sz + own (mem s) q z" and ?B = "own (mem s') r sz' + own (mem s') q z'"
  have acc': "pool.accounted (s', ?B + R)" using good_spaceD(4) [OF gr] by (simp add: ac_simps)
  have tot: "own (mem s) x y + rest s P K x = ?A + R" if "P x = Some y" for x y
    using refs_split [OF D(1) that, of s K] refs_split [OF D(1) r(1), of s K] rest_rest2 [OF D(1) r(2,3), of s K] R by (simp add: ac_simps)
  have sub: "own (mem s) x y \<subseteq># R" if "x \<noteq> r" "x \<noteq> q" "P x = Some y" for x y
    unfolding R by (rule own_sub_rest2 [OF D(1) that(3,1,2)])
  have keep: "good_space s' x y (?B + (R - own (mem s) x y)) \<and> own (mem s') x y = own (mem s) x y \<and>
      pte_of (mem s') x = pte_of (mem s) x \<and> (\<forall>a < y. ubyte s' x a = ubyte s x a)" if x: "x \<noteq> r" "x \<noteq> q" "P x = Some y" for x y
  proof -
    note gx = D(3) [OF x(3)] and kx = kept_mono [OF k sub [OF x]]
    have a: "pool.accounted (s', own (mem s) x y + (?B + (R - own (mem s) x y)))" unfolding mset_swap(1) [OF sub [OF x]] by (rule acc')
    have n: "p \<notin># ?B + (R - own (mem s) x y)" if "p \<in># own (mem s) x y" "p \<notin># rest s P K x" for p
    proof -
      have pR: "p \<in># R" by (rule mset_subset_eqD [OF sub [OF x] that(1)])
      have "rest s P K x = ?A + (R - own (mem s) x y)" by (rule mset_swap(2) [OF sub [OF x] tot [OF x(3)]])
      then have "p \<notin># ?A" "p \<notin># R - own (mem s) x y" using that(2) by simp_all
      then show ?thesis using ns [OF pR] by simp
    qed
    show ?thesis using space_keep [OF gx kx a n] by blast
  qed
  then show "x \<noteq> r \<Longrightarrow> x \<noteq> q \<Longrightarrow> P x = Some y \<Longrightarrow> pte_of (mem s') x = pte_of (mem s) x \<and> (\<forall>a < y. ubyte s' x a = ubyte s x a)" by blast
  define P' where "P' = P(r \<mapsto> sz', q \<mapsto> z')"
  have P': "P' r = Some sz'" "P' q = Some z'" "\<And>x. x \<noteq> r \<Longrightarrow> x \<noteq> q \<Longrightarrow> P' x = P x" "dom P' = insert r (insert q (dom P))" using r(3) by (auto simp: P'_def)
  have fin: "finite (dom P')" using D(1) P'(4) by simp
  have "rest2 s' P' K r q = R"
  proof -
    have d: "dom P' - {r, q} = dom P - {r, q}" using P'(4) by auto
    have "(\<Sum>x \<in> dom P' - {r, q}. own (mem s') x (the (P' x))) = (\<Sum>x \<in> dom P - {r, q}. own (mem s) x (the (P x)))"
      by (rule sum.cong [OF d]) (use keep P'(3) in auto)
    then show ?thesis by (simp add: R rest2_def)
  qed
  then have rr: "rest s' P' K r = own (mem s') q z' + R" "rest s' P' K q = own (mem s') r sz' + R"
    using rest_rest2 [OF fin P'(2), of r s' K] rest_rest2 [OF fin P'(1), of q s' K] rest2_sym [of s' P' K q r] r(3) by auto
  have T: "all_refs s' P' K = ?B + R" using refs_split [OF fin P'(1), of s' K] rr(1) by (simp add: ac_simps)
  show "spaces \<lparr>vmem = s', usize = P(r \<mapsto> sz', q \<mapsto> z'), kpages = K\<rparr>"
    unfolding P'_def [symmetric]
  proof (rule spacesI [OF fin])
    show "pool.accounted (s', all_refs s' P' K)" using acc' T by simp
    fix x y assume x: "P' x = Some y"
    consider "x = r" | "x = q" | "x \<noteq> r" "x \<noteq> q" by blast
    then show "good_space s' x y (rest s' P' K x)"
    proof cases
      case 3
      then have Px: "P x = Some y" using x P'(3) by simp
      have "own (mem s) x y + rest s' P' K x = ?B + R" using refs_split [OF fin x, of s' K] T keep [OF 3 Px] by simp
      then have "rest s' P' K x = ?B + (R - own (mem s) x y)" by (rule mset_swap(2) [OF sub [OF 3 Px]])
      then show ?thesis using keep [OF 3 Px] by simp
    qed (use gr gq rr x P'(1,2) in auto)
  qed
qed

lemma frames_frame_of:
  assumes "finite A" "\<And>v. v \<in> A \<Longrightarrow> frame_of (pte_of m' r' v) = frame_of (pte_of m r v)"
  shows "frames m' r' A = frames m r A"
  using assms by (induction A rule: finite_induct) (auto simp: frames_insert)

lemma pair_tables:
  assumes "pair s r q (frames (mem s) q {..<pgs z} + (frames (mem s) r {..<pgs sz} + R))"
  shows "tables s r (frames (mem s) r {..<pgs sz} + (own (mem s) q z + R))" "tables s q (frames (mem s) q {..<pgs z} + (own (mem s) r sz + R))"
  using assms by (simp_all add: pair_def own_def ac_simps)

text \<open>The start of the copy.\<close>

lemma fork_start:
  assumes S: "spaces \<lparr>vmem = s, usize = P, kpages = K\<rparr>" and r: "P r = Some sz" "P q = Some 0" "q \<noteq> r"
    and b: "\<forall>p \<in> pages s. refs_to s p < 2000000000"
  defines "Z \<equiv> frames (mem s) r {..<pgs sz} + rest2 s P K r q"
  shows "copying s s r q 0 Z" "v < pgs sz \<Longrightarrow> copyable Z (pte_of (mem s) r v)"
proof -
  note D = spacesD [OF S, simplified]
  note gr = D(3) [OF r(1)] and gq = D(3) [OF r(2)]
  have p0: "pgs 0 = 0" by (simp add: pgs_def)
  have q0: "own (mem s) q 0 = mset_set (nodes (mem s) q)" by (simp add: own_def p0)
  have "rest s P K r = mset_set (nodes (mem s) q) + rest2 s P K r q" using rest_rest2 [OF D(1) r(2,3), of s K] q0 by simp
  then have tr: "tables s r (mset_set (nodes (mem s) q) + Z)" using good_spaceD(1) [OF gr] by (simp add: Z_def ac_simps)
  have "rest s P K q = own (mem s) r sz + rest2 s P K r q" using rest_rest2 [OF D(1) r(1), of q s K] r(3) rest2_sym [of s P K q r] by simp
  then have tq: "tables s q (mset_set (nodes (mem s) r) + Z)" using good_spaceD(1) [OF gq] by (simp add: Z_def own_def p0 ac_simps)
  show "copying s s r q 0 Z" using tr tq by (simp add: copying_def pair_def)
  assume v: "v < pgs sz"
  have "pte_V (pte_of (mem s) r v) \<longrightarrow> PTE2PA (pte_of (mem s) r v) \<in># Z \<and> count Z (PTE2PA (pte_of (mem s) r v)) < 2000000000 \<and>
      PTE2PA (pte_of (mem s) r v) < 2 ^ 56 \<and> PTE2PA (pte_of (mem s) r v) mod PGSIZE = 0"
  proof
    assume V: "pte_V (pte_of (mem s) r v)"
    let ?f = "PTE2PA (pte_of (mem s) r v)"
    have f: "?f \<in># Z" using frame_in [OF v V] by (simp add: Z_def)
    then have fX: "?f \<in># mset_set (nodes (mem s) q) + Z" by simp
    have pg: "?f \<in> pages s" by (rule tablesD(6) [OF tr fX])
    have "int (count Z ?f) \<le> refs_to s ?f" using refs_tables [OF tr fX] by simp
    moreover have "refs_to s ?f < 2000000000" using b pg by (rule bspec)
    ultimately have "count Z ?f < 2000000000" by linarith
    then show "?f \<in># Z \<and> count Z ?f < 2000000000 \<and> ?f < 2 ^ 56 \<and> ?f mod PGSIZE = 0" using f page_small [OF pg] by (intro conjI)
  qed
  moreover have "plain (pte_of (mem s) r v)" "pte_of (mem s) r v < 2 ^ 64" using good_spaceD(3) [OF gr v] by (simp_all add: good_entry_def)
  ultimately show "copyable Z (pte_of (mem s) r v)" unfolding copyable_def by (simp only: simp_thms)
qed

lemma same_byte: "pte_V e' = pte_V e \<Longrightarrow> (pte_V e \<Longrightarrow> PTE2PA e' = PTE2PA e) \<Longrightarrow> (pte_V e \<Longrightarrow> PTE2PA e \<in># Z) \<Longrightarrow> kept Z s s' \<Longrightarrow>
    uentry s r a = e \<Longrightarrow> uentry s' q a = e' \<Longrightarrow> ubyte s' q a = ubyte s r a"
  using inpage_off by (auto simp: ubyte_def kept_def)

lemma copyable_parent:
  assumes "copyable Z e"
  shows "parent_entry e < 2 ^ 64" "pte_V (parent_entry e) \<longleftrightarrow> pte_V e" "pte_V e \<Longrightarrow> PTE2PA (parent_entry e) = PTE2PA e"
    "plain (parent_entry e)" "pte_V e \<Longrightarrow> \<not> pte_W (parent_entry e)" "frame_of (parent_entry e) = frame_of e"
proof -
  have "e < 2 ^ 64" "plain e" "pte_V e \<longrightarrow> PTE2PA e < 2 ^ 56 \<and> PTE2PA e mod PGSIZE = 0" using assms unfolding copyable_def by blast+
  note P = parent_entry_parts [OF this]
  show "parent_entry e < 2 ^ 64" "pte_V (parent_entry e) \<longleftrightarrow> pte_V e" "plain (parent_entry e)" "frame_of (parent_entry e) = frame_of e" by (rule P)+
  show "pte_V e \<Longrightarrow> PTE2PA (parent_entry e) = PTE2PA e" "pte_V e \<Longrightarrow> \<not> pte_W (parent_entry e)" by (rule P, assumption)+
qed

lemma copyable_child:
  assumes "copyable Z e"
  shows "child_entry e < 2 ^ 64" "pte_V (child_entry e) \<longleftrightarrow> pte_V e" "pte_V e \<Longrightarrow> PTE2PA (child_entry e) = PTE2PA e"
    "plain (child_entry e)" "pte_V e \<Longrightarrow> \<not> pte_W (child_entry e)" "frame_of (child_entry e) = frame_of e"
proof -
  have c: "plain e" "pte_V e \<longrightarrow> PTE2PA e < 2 ^ 56 \<and> PTE2PA e mod PGSIZE = 0" using assms unfolding copyable_def by blast+
  have "child_entry e < 2 ^ 64 \<and> (pte_V (child_entry e) \<longleftrightarrow> pte_V e) \<and> (pte_V e \<longrightarrow> PTE2PA (child_entry e) = PTE2PA e) \<and>
    (pte_V e \<longrightarrow> \<not> pte_W (child_entry e))"
  proof (cases "pte_V e")
    case True
    then have "PTE2PA e < 2 ^ 56" "PTE2PA e mod PGSIZE = 0" using c(2) by simp_all
    note P = child_entry_parts(1-4) [OF True c(1) this]
    show ?thesis using True P by simp
  qed (simp add: child_entry_def)
  then show "child_entry e < 2 ^ 64" "pte_V (child_entry e) \<longleftrightarrow> pte_V e" "pte_V e \<Longrightarrow> PTE2PA (child_entry e) = PTE2PA e"
    "pte_V e \<Longrightarrow> \<not> pte_W (child_entry e)" by blast+
  show "plain (child_entry e)" by (rule plain_child [OF assms])
  show "frame_of (child_entry e) = frame_of e" by (rule child_frame [OF c(2,1)])
qed

lemma fork_ok:
  assumes S: "spaces \<lparr>vmem = s, usize = P, kpages = K\<rparr>" and r: "P r = Some sz" "P q = Some 0" "q \<noteq> r"
    and cp: "\<And>v. v < pgs sz \<Longrightarrow> copyable Z (pte_of (mem s) r v)" and Z: "Z = frames (mem s) r {..<pgs sz} + rest2 s P K r q"
    and C: "copying s s' r q (pgs sz) Z"
  shows "spaces \<lparr>vmem = s', usize = P(q \<mapsto> sz), kpages = K\<rparr>" "a < sz \<Longrightarrow> ubyte s' r a = ubyte s r a \<and> ubyte s' q a = ubyte s r a"
    "x \<noteq> r \<Longrightarrow> x \<noteq> q \<Longrightarrow> P x = Some y \<Longrightarrow> pte_of (mem s') x = pte_of (mem s) x \<and> (\<forall>a < y. ubyte s' x a = ubyte s x a)"
    "frames (mem s') r {..<pgs sz} = frames (mem s) r {..<pgs sz} \<and> frames (mem s') q {..<pgs sz} = frames (mem s) r {..<pgs sz}"
proof -
  note D = spacesD [OF S, simplified] and E = copyingD [OF C]
  let ?N = "pgs sz" and ?F = "frames (mem s) r {..<pgs sz}" and ?R = "rest2 s P K r q"
  have szm: "sz \<le> MAXVA" by (rule good_spaceD(2) [OF D(3) [OF r(1)]])
  have N: "v < NVPN" if "v < ?N" for v using that pgs_MAXVA [OF szm] by simp
  have er: "pte_of (mem s') r v = parent_entry (pte_of (mem s) r v)" "pte_of (mem s') q v = child_entry (pte_of (mem s) r v)" if "v < ?N" for v
    using E(3,4) [OF N [OF that]] that by simp_all
  note pp = copyable_parent and cc = copyable_child
  have fo: "frame_of (pte_of (mem s') r v) = frame_of (pte_of (mem s) r v)" "frame_of (pte_of (mem s') q v) = frame_of (pte_of (mem s) r v)"
    if "v \<in> {..<?N}" for v using that er [of v] pp(6) [OF cp, of v] cc(6) [OF cp, of v] by simp_all
  have Fr: "frames (mem s') r {..<?N} = ?F" "frames (mem s') q {..<?N} = ?F" by (rule frames_frame_of, simp, erule fo)+
  then show "frames (mem s') r {..<pgs sz} = frames (mem s) r {..<pgs sz} \<and> frames (mem s') q {..<pgs sz} = frames (mem s) r {..<pgs sz}" by simp
  have "pair s' r q (frames (mem s') q {..<?N} + (frames (mem s') r {..<?N} + ?R))" using E(1) Fr Z by simp
  note T = pair_tables [OF this]
  have gr: "good_space s' r sz (own (mem s') q sz + ?R)"
  proof (rule good_spaceI [OF T(1) szm])
    fix v assume v: "v < ?N"
    show "plain (pte_of (mem s') r v) \<and> pte_of (mem s') r v < 2 ^ 64" using pp(1,4) [OF cp [OF v]] er(1) [OF v] by simp
    assume "pte_V (pte_of (mem s') r v)" "pte_W (pte_of (mem s') r v)"
    then show "count (frames (mem s') r {..<?N} + (own (mem s') q sz + ?R)) (PTE2PA (pte_of (mem s') r v)) = 1"
      using pp(2,5) [OF cp [OF v]] er(1) [OF v] by simp
  qed
  have gq: "good_space s' q sz (own (mem s') r sz + ?R)"
  proof (rule good_spaceI [OF T(2) szm])
    fix v assume v: "v < ?N"
    show "plain (pte_of (mem s') q v) \<and> pte_of (mem s') q v < 2 ^ 64" using cc(1,4) [OF cp [OF v]] er(2) [OF v] by simp
    assume "pte_V (pte_of (mem s') q v)" "pte_W (pte_of (mem s') q v)"
    then show "count (frames (mem s') q {..<?N} + (own (mem s') r sz + ?R)) (PTE2PA (pte_of (mem s') q v)) = 1"
      using cc(2,5) [OF cp [OF v]] er(2) [OF v] by simp
  qed
  have k: "kept ?R s s'" by (rule kept_mono [OF E(2)]) (simp add: Z)
  have ns: "p \<notin># own (mem s') r sz + own (mem s') q sz" if "p \<in># ?R" "p \<notin># own (mem s) r sz + own (mem s) q 0" for p
  proof -
    have "p \<notin> nodes (mem s') r" "p \<notin> nodes (mem s') q" using tablesD(4) [OF T(1), of p] tablesD(4) [OF T(2), of p] that(1) by auto
    then show ?thesis using that(2) Fr tablesD(3) [OF T(1)] tablesD(3) [OF T(2)] by (simp add: own_def)
  qed
  note W = two_step [OF S r refl gr gq k ns]
  have "P(r \<mapsto> sz, q \<mapsto> sz) = P(q \<mapsto> sz)" using r(1) by auto
  then show "spaces \<lparr>vmem = s', usize = P(q \<mapsto> sz), kpages = K\<rparr>" using W(1) by simp
  show "x \<noteq> r \<Longrightarrow> x \<noteq> q \<Longrightarrow> P x = Some y \<Longrightarrow> pte_of (mem s') x = pte_of (mem s) x \<and> (\<forall>a < y. ubyte s' x a = ubyte s x a)" using W(2) by blast
  assume a: "a < sz"
  let ?e = "uentry s r a"
  note v = page_of [OF a]
  have fz: "PTE2PA ?e \<in># Z" if "pte_V ?e" using frame_in [OF v, of "mem s" r] that Z by (simp add: uentry_def)
  have ce: "copyable Z ?e" using cp [OF v] by (simp add: uentry_def)
  have "ubyte s' r a = ubyte s r a" by (rule same_byte [OF pp(2) [OF ce] pp(3) [OF ce] fz E(2) refl]) (simp_all add: uentry_def er [OF v])
  moreover have "ubyte s' q a = ubyte s r a" by (rule same_byte [OF cc(2) [OF ce] cc(3) [OF ce] fz E(2) refl]) (simp_all add: uentry_def er [OF v])
  ultimately show "ubyte s' r a = ubyte s r a \<and> ubyte s' q a = ubyte s r a" by simp
qed

lemma fork_fail:
  assumes S: "spaces \<lparr>vmem = s, usize = P, kpages = K\<rparr>" and r: "P r = Some sz" "P q = Some 0" "q \<noteq> r"
    and cp: "\<And>v. v < pgs sz \<Longrightarrow> copyable Z (pte_of (mem s) r v)" and Z: "Z = frames (mem s) r {..<pgs sz} + rest2 s P K r q"
    and p: "pair s' r q Z" "kept Z s s'"
    and e: "\<And>v. v < NVPN \<Longrightarrow> pte_of (mem s') r v = pte_of (mem s) r v \<or> v < pgs sz \<and> pte_of (mem s') r v = parent_entry (pte_of (mem s) r v)"
  shows "spaces \<lparr>vmem = s', usize = P, kpages = K\<rparr>" "a < sz \<Longrightarrow> ubyte s' r a = ubyte s r a"
    "x \<noteq> r \<Longrightarrow> x \<noteq> q \<Longrightarrow> P x = Some y \<Longrightarrow> pte_of (mem s') x = pte_of (mem s) x \<and> (\<forall>a < y. ubyte s' x a = ubyte s x a)"
    "frames (mem s') r {..<pgs sz} = frames (mem s) r {..<pgs sz}"
proof -
  note D = spacesD [OF S, simplified]
  note g = D(3) [OF r(1)]
  let ?N = "pgs sz" and ?F = "frames (mem s) r {..<pgs sz}" and ?R = "rest2 s P K r q"
  have szm: "sz \<le> MAXVA" by (rule good_spaceD(2) [OF g])
  have p0: "pgs 0 = 0" by (simp add: pgs_def)
  have ee: "pte_of (mem s') r v = pte_of (mem s) r v \<or> pte_of (mem s') r v = parent_entry (pte_of (mem s) r v)" if "v < ?N" for v
    using e [of v] that pgs_MAXVA [OF szm] by auto
  note pp = copyable_parent
  have fo: "frame_of (pte_of (mem s') r v) = frame_of (pte_of (mem s) r v)" if "v \<in> {..<?N}" for v
    using that ee [of v] pp(6) [OF cp, of v] by auto
  show Fr: "frames (mem s') r {..<?N} = ?F" by (rule frames_frame_of, simp, erule fo)
  have "pair s' r q (frames (mem s') q {..<pgs 0} + (frames (mem s') r {..<?N} + ?R))" using p(1) Fr Z by (simp add: p0)
  note T = pair_tables [OF this]
  have q0: "own m q 0 = mset_set (nodes m q)" for m by (simp add: own_def p0)
  have gr: "good_space s' r sz (own (mem s') q 0 + ?R)"
  proof (rule good_spaceI [OF T(1) szm])
    fix v assume v: "v < ?N"
    show "plain (pte_of (mem s') r v) \<and> pte_of (mem s') r v < 2 ^ 64"
      using pp(1,4) [OF cp [OF v]] ee [OF v] good_spaceD(3) [OF g v] by (auto simp: good_entry_def)
    assume V: "pte_V (pte_of (mem s') r v)" "pte_W (pte_of (mem s') r v)"
    let ?f = "PTE2PA (pte_of (mem s) r v)"
    have eq: "pte_of (mem s') r v = pte_of (mem s) r v" using ee [OF v] V pp(2,5) [OF cp [OF v]] by auto
    have fF: "?f \<in># ?F" using frame_in [OF v] V(1) eq by simp
    have "count (?F + rest s P K r) ?f = 1" using good_entry_refs [OF g v] V eq by simp
    from count_once [OF fF this] have c: "count ?F ?f = 1" "?f \<notin># ?R" using rest_rest2 [OF D(1) r(2,3), of s K] by auto
    have "?f \<notin> nodes (mem s') q" using tablesD(4) [OF T(2), of ?f] fF Fr by (auto simp: own_def)
    then show "count (frames (mem s') r {..<?N} + (own (mem s') q 0 + ?R)) (PTE2PA (pte_of (mem s') r v)) = 1"
      using c by (simp add: Fr q0 eq not_in_iff count_mset_set')
  qed
  have gq: "good_space s' q 0 (own (mem s') r sz + ?R)" by (rule good_spaceI [OF T(2)]) (simp_all add: p0)
  have k: "kept ?R s s'" by (rule kept_mono [OF p(2)]) (simp add: Z)
  have ns: "x \<notin># own (mem s') r sz + own (mem s') q 0" if "x \<in># ?R" "x \<notin># own (mem s) r sz + own (mem s) q 0" for x
  proof -
    have "x \<notin> nodes (mem s') r" "x \<notin> nodes (mem s') q" using tablesD(4) [OF T(1), of x] tablesD(4) [OF T(2), of x] that(1) by auto
    then show ?thesis using that(2) Fr tablesD(3) [OF T(1)] tablesD(3) [OF T(2)] by (simp add: own_def p0)
  qed
  note W = two_step [OF S r refl gr gq k ns]
  have "P(r \<mapsto> sz, q \<mapsto> 0) = P" using r by auto
  then show "spaces \<lparr>vmem = s', usize = P, kpages = K\<rparr>" using W(1) by simp
  show "x \<noteq> r \<Longrightarrow> x \<noteq> q \<Longrightarrow> P x = Some y \<Longrightarrow> pte_of (mem s') x = pte_of (mem s) x \<and> (\<forall>a < y. ubyte s' x a = ubyte s x a)" using W(2) by blast
  assume a: "a < sz"
  let ?e = "uentry s r a"
  note v = page_of [OF a]
  have fz: "PTE2PA ?e \<in># Z" if "pte_V ?e" using frame_in [OF v, of "mem s" r] that Z by (simp add: uentry_def)
  have ce: "copyable Z ?e" using cp [OF v] by (simp add: uentry_def)
  from ee [OF v] show "ubyte s' r a = ubyte s r a"
  proof
    assume "pte_of (mem s') r (a div PGSIZE) = pte_of (mem s) r (a div PGSIZE)"
    then show ?thesis by (intro same_byte [OF refl refl fz p(2) refl]) (simp_all add: uentry_def)
  next
    assume "pte_of (mem s') r (a div PGSIZE) = parent_entry (pte_of (mem s) r (a div PGSIZE))"
    then show ?thesis by (intro same_byte [OF pp(2) [OF ce] pp(3) [OF ce] fz p(2) refl]) (simp_all add: uentry_def)
  qed
qed

lemma fork_spec:
  assumes S: "spaces \<lparr>vmem = s, usize = P, kpages = K\<rparr>" and c: "cpu < NCPU" and r: "P r = Some sz" "P q = Some 0" "q \<noteq> r"
    and q: "\<forall>v < pgs sz. pte_of (mem s) q v = 0" and b: "\<forall>p \<in> pages s. refs_to s p < 2000000000"
  shows "\<exists>z s'. uvmcopy cpu r q sz s = (BRet z, s') \<and> spaces \<lparr>vmem = s', usize = (if z = 0 then P(q \<mapsto> sz) else P), kpages = K\<rparr> \<and>
    (z = 0 \<or> z = - 1 \<and> card (free_pages s) \<le> 2 * pgs sz) \<and> (\<forall>a < sz. ubyte s' r a = ubyte s r a \<and> (z = 0 \<longrightarrow> ubyte s' q a = ubyte s r a)) \<and>
    (\<forall>x y. x \<noteq> r \<longrightarrow> x \<noteq> q \<longrightarrow> P x = Some y \<longrightarrow> pte_of (mem s') x = pte_of (mem s) x \<and> (\<forall>a < y. ubyte s' x a = ubyte s x a)) \<and>
    frames (mem s') r {..<pgs sz} = frames (mem s) r {..<pgs sz} \<and> (z = 0 \<longrightarrow> frames (mem s') q {..<pgs sz} = frames (mem s) r {..<pgs sz})"
proof -
  define Z where "Z = frames (mem s) r {..<pgs sz} + rest2 s P K r q"
  note C = fork_start [OF S r b, folded Z_def]
  have szm: "sz \<le> MAXVA" by (rule good_spaceD(2) [OF spacesD(3) [OF S]]) (use r(1) in simp)
  have cp: "copyable Z (pte_of (mem s) r v)" if "v < pgs sz" for v by (rule C(2) [OF that])
  have q': "pte_of (mem s) q v = 0" if "v < pgs sz" for v using q that by simp
  from copy_loop [OF C(1) c, of sz "pgs sz", OF _ szm cp q'] obtain z s' where
    run: "uvmcopy cpu r q sz s = (BRet z, s')"
    and cs: "z = 0 \<and> copying s s' r q (pgs sz) Z \<or>
     z = - 1 \<and> pair s' r q Z \<and> kept Z s s' \<and> card (free_pages s) \<le> 2 * pgs sz \<and>
       (\<forall>w < NVPN. pte_of (mem s') r w = pte_of (mem s) r w \<or> w < pgs sz \<and> pte_of (mem s') r w = parent_entry (pte_of (mem s) r w)) \<and>
       (\<forall>w < NVPN. pte_of (mem s') q w = pte_of (mem s) q w)" by (auto simp: uvmcopy_def)
  from cs show ?thesis
  proof (elim disjE conjE)
    assume a: "z = 0" "copying s s' r q (pgs sz) Z"
    from fork_ok [OF S r cp Z_def a(2)] run a(1) show ?thesis by (intro exI [of _ z] exI [of _ s']) auto
  next
    assume a: "z = - 1" "pair s' r q Z" "kept Z s s'" "card (free_pages s) \<le> 2 * pgs sz"
      "\<forall>w < NVPN. pte_of (mem s') r w = pte_of (mem s) r w \<or> w < pgs sz \<and> pte_of (mem s') r w = parent_entry (pte_of (mem s) r w)"
    have e: "pte_of (mem s') r v = pte_of (mem s) r v \<or> v < pgs sz \<and> pte_of (mem s') r v = parent_entry (pte_of (mem s) r v)" if "v < NVPN" for v
      using a(5) that by blast
    from fork_fail [OF S r cp Z_def a(2,3) e] run a(1,4) show ?thesis by (intro exI [of _ z] exI [of _ s']) auto
  qed
qed

end
