(* ===== verification/Isolation.thy ===== *)
theory Isolation
  imports Fork
begin

text \<open>
  The end of an address space (\<^verbatim>\<open>freewalk\<close> gives every table back, \<^verbatim>\<open>uvmfree\<close> every page), and the theorems
  on all address spaces together: whatever sequence of page allocations, address space creations, growths, shrinks, forks, copy-on-write
  faults, user stores and exits runs from boot, no call panics, every page is accounted for, and a process sees exactly what it wrote.
\<close>

subsection \<open>Freeing the tables\<close>

text \<open>The tables below a table, level by level, and what \<^verbatim>\<open>freewalk\<close> expects of their entries.\<close>

primrec tabs :: "(nat \<Rightarrow> nat) \<Rightarrow> nat \<Rightarrow> nat \<Rightarrow> nat multiset" where
  "tabs m 0 p = {#p#}"
| "tabs m (Suc d) p = add_mset p (\<Sum>i \<leftarrow> [0..<512]. case sub m p i of None \<Rightarrow> {#} | Some q \<Rightarrow> tabs m d q)"

definition kids :: "(nat \<Rightarrow> nat) \<Rightarrow> nat \<Rightarrow> nat \<Rightarrow> nat list \<Rightarrow> nat multiset" where
  "kids m d p is = (\<Sum>i \<leftarrow> is. case sub m p i of None \<Rightarrow> {#} | Some q \<Rightarrow> tabs m d q)"

primrec shape :: "(nat \<Rightarrow> nat) \<Rightarrow> nat \<Rightarrow> nat \<Rightarrow> bool" where
  "shape m 0 p \<longleftrightarrow> (\<forall>i < 512. \<not> pte_V (ld64 m (p + 8 * i)) \<or> \<not> to_table (ld64 m (p + 8 * i)))"
| "shape m (Suc d) p \<longleftrightarrow> (\<forall>i < 512. to_table (ld64 m (p + 8 * i)) \<and> (\<forall>q. sub m p i = Some q \<longrightarrow> shape m d q))"

lemma kids_Cons: "kids m d p (i # is) = (case sub m p i of None \<Rightarrow> {#} | Some q \<Rightarrow> tabs m d q) + kids m d p is"
  by (simp add: kids_def)

lemma tabs_Suc: "tabs m (Suc d) p = add_mset p (kids m d p [0..<512])"
  by (simp add: kids_def)

declare tabs.simps(2) [simp del] freewalk.simps [simp del] upt_rec_numeral [simp del]

lemma in_kids: "i \<in> set is \<Longrightarrow> sub m p i = Some q \<Longrightarrow> tabs m d q \<subseteq># kids m d p is"
proof (induction "is")
  case (Cons j "is")
  then show ?case by (cases "j = i") (auto simp: kids_Cons intro: subset_mset.order_trans)
qed simp

lemma tabs_same:
  assumes "\<And>x a. x \<in># tabs m d p \<Longrightarrow> inpage x a \<Longrightarrow> m' a = m a"
  shows "tabs m' d p = tabs m d p" "shape m d p \<Longrightarrow> shape m' d p"
proof -
  have "tabs m' d p = tabs m d p \<and> (shape m d p \<longrightarrow> shape m' d p)" using assms
  proof (induction d arbitrary: p)
    case 0
    have "ld64 m' (p + 8 * i) = ld64 m (p + 8 * i)" if "i < 512" for i by (rule ld_entry [OF 0 that]) simp_all
    then show ?case by simp
  next
    case (Suc d)
    have l: "ld64 m' (p + 8 * i) = ld64 m (p + 8 * i)" if "i < 512" for i by (rule ld_entry [OF Suc.prems that]) (simp_all add: tabs_Suc)
    have s: "sub m' p i = sub m p i" if "i < 512" for i using l [OF that] by (simp add: sub_def)
    have k: "tabs m' d q = tabs m d q \<and> (shape m d q \<longrightarrow> shape m' d q)" if "i < 512" "sub m p i = Some q" for i q
      by (rule Suc.IH, rule Suc.prems) (use mset_subset_eqD [OF in_kids [of i "[0..<512]" m p q d]] that in \<open>auto simp: tabs_Suc\<close>)
    have "kids m' d p [0..<512] = kids m d p [0..<512]"
      unfolding kids_def by (intro arg_cong [of _ _ sum_list] map_cong) (use s k in \<open>auto split: option.split\<close>)
    then show ?case using l s k by (simp add: tabs_Suc)
  qed
  then show "tabs m' d p = tabs m d p" "shape m d p \<Longrightarrow> shape m' d p" by blast+
qed

definition once :: "nat multiset \<Rightarrow> nat multiset \<Rightarrow> bool" where
  "once T X \<longleftrightarrow> (\<forall>x \<in># T. count (T + X) x = 1)"

definition frees :: "nat \<Rightarrow> nat \<Rightarrow> bool" where
  "frees cpu d \<longleftrightarrow> (\<forall>p s X. shape (mem s) d p \<longrightarrow> pool.accounted (s, tabs (mem s) d p + X) \<longrightarrow> once (tabs (mem s) d p) X \<longrightarrow>
     (\<exists>s'. freewalk (Suc d) cpu p s = (BRet (), s') \<and> pool.accounted (s', X) \<and> kept X s s'))"

lemma onceD: "once (A + B) X \<Longrightarrow> once A (B + X)" "once (A + B) X \<Longrightarrow> once B X" "once (add_mset p B) X \<Longrightarrow> p \<notin># B + X"
proof -
  assume a: "once (A + B) X"
  then show "once A (B + X)" by (auto simp: once_def ac_simps)
  have "count (B + X) x = 1" if "x \<in># B" for x
  proof -
    have "count (A + B + X) x = 1" using a that by (auto simp: once_def)
    moreover have "0 < count B x" using that by simp
    ultimately show ?thesis unfolding count_union by linarith
  qed
  then show "once B X" by (simp add: once_def)
next
  show "once (add_mset p B) X \<Longrightarrow> p \<notin># B + X" by (simp add: once_def not_in_iff)
qed

lemma freewalk_kids:
  assumes F: "frees cpu d" and c: "cpu < NCPU"
  shows "distinct is \<Longrightarrow> set is \<subseteq> {..<512} \<Longrightarrow>
    (\<forall>i \<in> set is. to_table (ld64 (mem s) (p + 8 * i)) \<and> (\<forall>q. sub (mem s) p i = Some q \<longrightarrow> shape (mem s) d q)) \<Longrightarrow>
    pool.accounted (s, add_mset p (kids (mem s) d p is) + X) \<Longrightarrow> once (add_mset p (kids (mem s) d p is)) X \<Longrightarrow>
    \<exists>s'. freewalk_entries (Suc (Suc d)) cpu p is s = (BRet (), s') \<and> pool.accounted (s', add_mset p X) \<and> kept X s s'"
proof (induction "is" arbitrary: s)
  case Nil
  then show ?case by (simp add: kids_def)
next
  case (Cons i "is")
  have i: "i < 512" using Cons.prems(2) by simp
  show ?case
  proof (cases "sub (mem s) p i")
    case None
    then have "\<not> pte_V (ld_pte (p + 8 * i) s)" by (simp add: sub_def Let_def ld_pte_def split: if_splits)
    then have "freewalk_entries (Suc (Suc d)) cpu p (i # is) s = freewalk_entries (Suc (Suc d)) cpu p is s" by (simp add: Let_def)
    moreover have "kids (mem s) d p (i # is) = kids (mem s) d p is" by (simp add: kids_Cons None)
    moreover have "\<exists>s'. freewalk_entries (Suc (Suc d)) cpu p is s = (BRet (), s') \<and> pool.accounted (s', add_mset p X) \<and> kept X s s'"
      by (rule Cons.IH) (use Cons.prems calculation(2) in simp_all)
    ultimately show ?thesis by simp
  next
    case (Some q)
    let ?K = "kids (mem s) d p is" and ?T = "tabs (mem s) d q"
    have e: "pte_V (ld_pte (p + 8 * i) s)" "PTE2PA (ld_pte (p + 8 * i) s) = q"
      using Some by (simp_all add: sub_def Let_def ld_pte_def split: if_splits)
    have tt: "to_table (ld_pte (p + 8 * i) s)" "shape (mem s) d q" using Cons.prems(3) Some by (simp_all add: ld_pte_def)
    have K: "add_mset p (kids (mem s) d p (i # is)) = ?T + add_mset p ?K" by (simp add: kids_Cons Some)
    have o: "once ?T (add_mset p ?K + X)" "once (add_mset p ?K) X" using Cons.prems(5) unfolding K by (rule onceD)+
    have a: "pool.accounted (s, ?T + (add_mset p ?K + X))" using Cons.prems(4) unfolding K by (simp add: ac_simps)
    from F [unfolded frees_def, rule_format, OF tt(2) a o(1)] obtain s1 where
      1: "freewalk (Suc d) cpu q s = (BRet (), s1)" "pool.accounted (s1, add_mset p ?K + X)" "kept (add_mset p ?K + X) s s1" by blast
    define s2 where "s2 = st_pte (p + 8 * i) 0 s1"
    have m2: "mem s2 = st64 (mem s1) (p + 8 * i) 0" "s1\<lparr>mem := mem s2\<rparr> = s2" by (simp_all add: s2_def st_pte_def)
    have out: "mem s2 b = mem s1 b" if "\<not> inpage p b" for b unfolding m2(1) by (rule st_entry_out [OF i that])
    have "pool.accounted (s1\<lparr>mem := mem s2\<rparr>, add_mset p ?K + X)" by (rule write_held [OF 1(2), of p]) (simp, rule out)
    then have a2: "pool.accounted (s2, add_mset p ?K + X)" unfolding m2(2) .
    have al: "x mod PGSIZE = 0" if "x \<in># add_mset p ?K + X" for x
      using page_small(2) pool.accountedD(2) [OF 1(2) that] by blast
    have np: "p \<notin># ?K + X" by (rule onceD(3) [OF o(2)])
    have same: "mem s2 b = mem s b" if "x \<in># ?K + X" "inpage x b" for x b
    proof -
      have "\<not> inpage p b" using inpage_unique [OF that(2) _ al al, of p] that(1) np by auto
      moreover have "mem s1 b = mem s b" using 1(3) that by (auto simp: kept_def)
      ultimately show ?thesis using out by simp
    qed
    have l: "ld64 (mem s2) (p + 8 * j) = ld64 (mem s) (p + 8 * j)" if "j \<in> set is" for j
    proof -
      have "j \<noteq> i" "j < 512" using Cons.prems(1,2) that by auto
      then have "ld64 (mem s2) (p + 8 * j) = ld64 (mem s1) (p + 8 * j)" unfolding m2(1) by (simp add: ld_st_entry)
      also have "\<dots> = ld64 (mem s) (p + 8 * j)" by (rule ld_entry [OF _ \<open>j < 512\<close>]) (use 1(3) in \<open>auto simp: kept_def\<close>)
      finally show ?thesis .
    qed
    have sb: "sub (mem s2) p j = sub (mem s) p j" if "j \<in> set is" for j using l [OF that] by (simp add: sub_def)
    have tj: "tabs (mem s2) d q' = tabs (mem s) d q'" "shape (mem s) d q' \<Longrightarrow> shape (mem s2) d q'"
      if "j \<in> set is" "sub (mem s) p j = Some q'" for j q'
      by (rule tabs_same, use same mset_subset_eqD [OF in_kids [OF that, of d]] in auto)+
    have k2: "kids (mem s2) d p is = ?K"
      unfolding kids_def by (intro arg_cong [of _ _ sum_list] map_cong) (use sb tj(1) in \<open>auto split: option.split\<close>)
    have "\<exists>s'. freewalk_entries (Suc (Suc d)) cpu p is s2 = (BRet (), s') \<and> pool.accounted (s', add_mset p X) \<and> kept X s2 s'"
    proof (rule Cons.IH, unfold k2, rule_tac [3] ballI)
      fix j assume j: "j \<in> set is"
      then show "to_table (ld64 (mem s2) (p + 8 * j)) \<and> (\<forall>q. sub (mem s2) p j = Some q \<longrightarrow> shape (mem s2) d q)"
        using Cons.prems(3) l [OF j] sb [OF j] tj(2) [OF j] by simp
    qed (use Cons.prems(1,2) a2 o(2) in simp_all)
    then obtain s' where s': "freewalk_entries (Suc (Suc d)) cpu p is s2 = (BRet (), s')" "pool.accounted (s', add_mset p X)" "kept X s2 s'" by blast
    have "kept X s s2" using same 1(3) by (auto simp: kept_def s2_def st_pte_def)
    from kept_trans [OF this s'(3)] have k: "kept X s s'" .
    have "freewalk_entries (Suc (Suc d)) cpu p (i # is) s = freewalk_entries (Suc (Suc d)) cpu p is s2"
      using e(1) tt(1) 1(1) unfolding freewalk_entries.simps Let_def e(2) by (simp add: to_table_def s2_def del: freewalk.simps freewalk_entries.simps)
    then show ?thesis using s'(1,2) k by simp
  qed
qed

lemma freewalk_leaf:
  "\<forall>i \<in> set is. \<not> pte_V (ld_pte (p + 8 * i) s) \<or> \<not> to_table (ld_pte (p + 8 * i) s) \<Longrightarrow> freewalk_entries (Suc d) cpu p is s = (BRet (), s)"
proof (induction "is")
  case (Cons i "is")
  then have "\<not> (pte_V (ld_pte (p + 8 * i) s) \<and> \<not> bit (ld_pte (p + 8 * i) s) 1 \<and> \<not> bit (ld_pte (p + 8 * i) s) 2 \<and> \<not> bit (ld_pte (p + 8 * i) s) 3)"
    by (auto simp: to_table_def)
  then have "freewalk_entries (Suc d) cpu p (i # is) s = freewalk_entries (Suc d) cpu p is s"
    unfolding freewalk_entries.simps Let_def by (rule if_not_P)
  with Cons show ?case by simp
qed simp

lemma freewalk_end:
  assumes "freewalk_entries (Suc d) cpu p [0..<512] s = (BRet (), s1)" "pool.accounted (s1, add_mset p X)" "kept X s s1" "p \<notin># X" "cpu < NCPU"
  shows "\<exists>s'. freewalk (Suc d) cpu p s = (BRet (), s') \<and> pool.accounted (s', X) \<and> kept X s s'"
proof -
  from kfree_held [OF assms(2,5)] obtain s' where s': "kfree cpu p s1 = (BRet (), s')" "pool.accounted (s', X)" "touched p s1 s'" by blast
  have "kept X s1 s'" by (rule kept_touched [OF s'(3)]) (use pool.accountedD(2) [OF assms(2)] assms(4) in auto)
  with assms(3) have "kept X s s'" by (rule kept_trans)
  then show ?thesis using s' assms(1) by (simp add: freewalk.simps bbind_def)
qed

lemma freewalk_spec: "cpu < NCPU \<Longrightarrow> frees cpu d"
proof (induction d)
  case 0
  show ?case unfolding frees_def
  proof (intro allI impI)
    fix p and s :: vm and X assume a: "shape (mem s) 0 p" "pool.accounted (s, tabs (mem s) 0 p + X)" "once (tabs (mem s) 0 p) X"
    have "freewalk_entries (Suc 0) cpu p [0..<512] s = (BRet (), s)" by (rule freewalk_leaf) (use a(1) in \<open>auto simp: ld_pte_def\<close>)
    then show "\<exists>s'. freewalk (Suc 0) cpu p s = (BRet (), s') \<and> pool.accounted (s', X) \<and> kept X s s'"
      by (rule freewalk_end) (use a(2,3) onceD(3) [of p "{#}" X] 0 in simp_all)
  qed
next
  case (Suc d)
  show ?case unfolding frees_def
  proof (intro allI impI)
    fix p and s :: vm and X assume a: "shape (mem s) (Suc d) p" "pool.accounted (s, tabs (mem s) (Suc d) p + X)" "once (tabs (mem s) (Suc d) p) X"
    have up: "set [0..<512] \<subseteq> {..<(512 :: nat)}" by (simp add: atLeast0LessThan)
    from freewalk_kids [OF Suc.IH [OF Suc.prems] Suc.prems, of "[0..<512]" s p X, OF _ up] a obtain s1 where
      "freewalk_entries (Suc (Suc d)) cpu p [0..<512] s = (BRet (), s1)" "pool.accounted (s1, add_mset p X)" "kept X s s1"
      by (auto simp: tabs_Suc)
    then show "\<exists>s'. freewalk (Suc (Suc d)) cpu p s = (BRet (), s') \<and> pool.accounted (s', X) \<and> kept X s s'"
      by (rule freewalk_end) (use onceD(3) [OF a(3) [unfolded tabs_Suc]] Suc.prems in simp_all)
  qed
qed

text \<open>The tables of an address space are the three levels below its root.\<close>

definition table_nodes :: "node set" where
  "table_nodes = {Root} \<union> (Mid ` {..<512} \<union> (\<Union>i < 512. Low i ` {..<512}))"

lemma table_nodes_ok: "n \<in> table_nodes \<longleftrightarrow> node_ok n"
  by (cases n) (auto simp: table_nodes_def)

abbreviation here :: "nat option \<Rightarrow> nat multiset" where
  "here x \<equiv> (case x of None \<Rightarrow> {#} | Some p \<Rightarrow> {#p#})"

lemma sum_single: "finite A \<Longrightarrow> (\<Sum>n \<in> A. {#f n#}) = image_mset f (mset_set A)"
  by (induction rule: finite_induct) auto

lemma nodes_sum:
  assumes "tree_ok m r"
  shows "mset_set (nodes m r) = (\<Sum>n \<in> table_nodes. here (tab m r n))"
proof -
  let ?A = "{n \<in> table_nodes. tab m r n \<noteq> None}"
  have f: "finite table_nodes" by (simp add: table_nodes_def)
  have inj: "inj_on (\<lambda>n. the (tab m r n)) ?A"
    by (rule inj_onI) (use tree_okD(2) [OF assms] in \<open>auto simp: table_nodes_ok\<close>)
  have N: "nodes m r = (\<lambda>n. the (tab m r n)) ` ?A" by (force simp: nodes_def table_nodes_ok)
  have "(\<Sum>n \<in> table_nodes. here (tab m r n)) = (\<Sum>n \<in> ?A. here (tab m r n))"
    by (rule sum.mono_neutral_right [OF f]) auto
  also have "\<dots> = (\<Sum>n \<in> ?A. {#the (tab m r n)#})" by (rule sum.cong) auto
  also have "\<dots> = image_mset (\<lambda>n. the (tab m r n)) (mset_set ?A)" by (rule sum_single) (simp add: f)
  also have "\<dots> = mset_set ((\<lambda>n. the (tab m r n)) ` ?A)" by (rule image_mset_mset_set [OF inj])
  finally show ?thesis unfolding N ..
qed

lemma kids_sum: "kids m d p [0..<512] = (\<Sum>i < 512. case sub m p i of None \<Rightarrow> {#} | Some q \<Rightarrow> tabs m d q)"
  by (simp add: kids_def interv_sum_list_conv_sum_set_nat atLeast0LessThan)

lemma nodes_tabs:
  assumes "tree_ok m r"
  shows "mset_set (nodes m r) = tabs m 2 r"
proof -
  let ?f = "\<lambda>n. here (tab m r n)"
  have "(\<Sum>n \<in> table_nodes. ?f n) = ?f Root + ((\<Sum>n \<in> Mid ` {..<512}. ?f n) + (\<Sum>n \<in> (\<Union>i < 512. Low i ` {..<512}). ?f n))"
    unfolding table_nodes_def by (subst sum.union_disjoint, simp, simp, blast, subst sum.union_disjoint) auto
  also have "(\<Sum>n \<in> Mid ` {..<512}. ?f n) = (\<Sum>i < 512. ?f (Mid i))" by (subst sum.reindex) (auto intro: inj_onI)
  also have "(\<Sum>n \<in> (\<Union>i < 512. Low i ` {..<512}). ?f n) = (\<Sum>i < 512. \<Sum>j < 512. ?f (Low i j))"
    by (subst sum.UNION_disjoint) (auto simp: sum.reindex inj_on_def intro!: sum.cong)
  finally have s: "mset_set (nodes m r) = {#r#} + (\<Sum>i < 512. ?f (Mid i) + (\<Sum>j < 512. ?f (Low i j)))"
    by (simp add: nodes_sum [OF assms] sum.distrib)
  have k: "?f (Mid i) + (\<Sum>j < 512. ?f (Low i j)) = (case sub m r i of None \<Rightarrow> {#} | Some q \<Rightarrow> tabs m (Suc 0) q)" for i
  proof (cases "sub m r i")
    case (Some q)
    have "kids m 0 q [0..<512] = (\<Sum>j < 512. ?f (Low i j))"
      unfolding kids_sum by (rule sum.cong) (auto simp: Some split: option.split)
    then show ?thesis by (simp add: Some tabs_Suc)
  qed simp
  show ?thesis unfolding s k by (simp add: numeral_2_eq_2 tabs_Suc kids_sum)
qed

lemma low_parts: "i < 256 \<Longrightarrow> j < 512 \<Longrightarrow> k < 512 \<Longrightarrow>
  low_of (i * 262144 + j * 512 + k) = Low i j \<and> (i * 262144 + j * 512 + k) mod 512 = k \<and> i * 262144 + j * 512 + k < NVPN"
proof -
  assume a: "i < 256" "j < 512" "k < (512 :: nat)"
  let ?v = "i * 262144 + j * 512 + k"
  have v: "?v = (i * 512 + j) * 512 + k" by simp
  have 1: "?v div 512 = i * 512 + j" "?v mod 512 = k" 
    unfolding v using a(3) by (simp, simp only: mod_mult_self3 mod_less)
  have "?v div 262144 = ?v div 512 div 512" by (simp add: div_mult2_eq [symmetric])
  then have 2: "?v div 262144 = i" unfolding 1 using a(2) by simp
  show ?thesis using 1 2 a by (simp add: low_of_def)
qed

lemma tree_shape:
  assumes t: "tree_ok m r" and e: "\<And>v. v < NVPN \<Longrightarrow> \<not> pte_V (pte_of m r v) \<or> \<not> to_table (pte_of m r v)"
  shows "shape m 2 r"
proof -
  have "shape m (Suc (Suc 0)) r" unfolding shape.simps(2)
  proof (intro allI impI conjI)
    fix i assume i: "i < (512 :: nat)"
    show "to_table (ld64 m (r + 8 * i))" using tree_okD(3) [OF t, of Root r i] i by simp
    fix q assume q: "sub m r i = Some q"
    have i2: "i < 256" using tree_okD(4) [OF t _ i] q by (cases "256 \<le> i") auto
    fix j assume j: "j < (512 :: nat)"
    show "to_table (ld64 m (q + 8 * j))" using tree_okD(3) [OF t, of "Mid i" q j] i j q by simp
    fix p assume p: "sub m q j = Some p"
    have "\<not> pte_V (ld64 m (p + 8 * k)) \<or> \<not> to_table (ld64 m (p + 8 * k))" if k: "k < 512" for k
    proof -
      note L = low_parts [OF i2 j k]
      have "pte_of m r (i * 262144 + j * 512 + k) = ld64 m (p + 8 * k)" using L p q by (simp add: pte_of_def)
      then show ?thesis using e L by metis
    qed
    then show "shape m 0 p" by simp
  qed
  then show ?thesis by (simp add: numeral_2_eq_2)
qed

text \<open>\<^verbatim>\<open>uvmfree\<close> gives back every page of an address space and every table.\<close>

lemma freewalk_all:
  assumes t: "tables s r X" and c: "cpu < NCPU" and e: "\<And>v. v < NVPN \<Longrightarrow> \<not> pte_V (pte_of (mem s) r v)"
  shows "\<exists>s'. freewalk 3 cpu r s = (BRet (), s') \<and> pool.accounted (s', X) \<and> kept X s s'"
proof -
  note D = tablesD [OF t] and N = nodes_tabs [OF tablesD(2) [OF t]]
  have "once (mset_set (nodes (mem s) r)) X"
    unfolding once_def using D(3,4) by (auto simp: count_mset_set not_in_iff)
  from freewalk_spec [OF c, of 2, unfolded frees_def, rule_format, OF tree_shape [OF D(2)], of X, folded N, OF _ D(1) this] e
  show ?thesis by (simp add: numeral_3_eq_3 numeral_2_eq_2)
qed

lemma uvmfree_spec:
  assumes g: "good_space s r sz R" and c: "cpu < NCPU" and e: "\<And>v. pgs sz \<le> v \<Longrightarrow> v < NVPN \<Longrightarrow> \<not> pte_V (pte_of (mem s) r v)"
  shows "\<exists>s'. uvmfree cpu r sz s = (BRet (), s') \<and> pool.accounted (s', R) \<and> kept R s s'"
proof -
  note G = good_spaceD [OF g]
  have le: "pgs sz \<le> NVPN" by (rule pgs_MAXVA [OF G(2)])
  have "\<exists>s1. (if sz > 0 then uvmunmap cpu r 0 (PGROUNDUP sz div PGSIZE) True else (\<lambda>s. (BRet (), s))) s = (BRet (), s1) \<and>
      tables s1 r R \<and> kept R s s1 \<and> (\<forall>v < NVPN. \<not> pte_V (pte_of (mem s1) r v))"
  proof (cases "sz > 0")
    case True
    have pl: "plain (pte_of (mem s) r w)" if "0 \<le> w" "w < 0 + pgs sz" for w using G(3) [of w] that by (simp add: good_entry_def)
    have t: "tables s r (frames (mem s) r {0..<0 + pgs sz} + R)" using G(1) by (simp add: atLeast0LessThan)
    from uvmunmap_spec [OF t c _ pl] le obtain s1 where
      1: "uvmunmap cpu r 0 (pgs sz) True s = (BRet (), s1)" "tables s1 r R" "kept R s s1" "added s s1 r 0 (pgs sz) (\<lambda>_. 0)" by auto
    have "\<not> pte_V (pte_of (mem s1) r v)" if "v < NVPN" for v using addedD [OF 1(4) that] e [OF _ that] by simp
    then show ?thesis using 1(1-3) True by (simp add: PGROUNDUP_pgs [OF G(2)])
  next
    case False
    then have "pgs sz = 0" "tables s r R" using G(1) by (simp_all add: pgs_def)
    then show ?thesis using False e by auto
  qed
  then obtain s1 where 1: "(if sz > 0 then uvmunmap cpu r 0 (PGROUNDUP sz div PGSIZE) True else (\<lambda>s. (BRet (), s))) s = (BRet (), s1)"
    "tables s1 r R" "kept R s s1" "\<forall>v < NVPN. \<not> pte_V (pte_of (mem s1) r v)" by blast
  from freewalk_all [OF 1(2) c] 1(4) obtain s' where s': "freewalk 3 cpu r s1 = (BRet (), s')" "pool.accounted (s', R)" "kept R s1 s'" by blast
  have "uvmfree cpu r sz s = (BRet (), s')" using 1(1) s'(1) by (simp add: uvmfree_def bbind_def)
  then show ?thesis using s'(2) kept_trans [OF 1(3) s'(3)] by blast
qed

subsection \<open>All address spaces together\<close>

text \<open>
  What the machine has to look like to the programs: every process has a memory of its own, a list of bytes (an address that is not
  mapped holds \<open>None\<close>). The bytes by which a program grows are zero, except for those on a page it had before.
\<close>

inductive mem_step :: "nat \<Rightarrow> (nat \<rightharpoonup> nat option list) \<Rightarrow> (nat \<rightharpoonup> nat option list) \<Rightarrow> bool" where
  m_create: "M q = None \<Longrightarrow> mem_step 0 M (M(q \<mapsto> []))"
| m_grow: "M r = Some bs \<Longrightarrow> length xs < PGSIZE \<Longrightarrow> mem_step r M (M(r \<mapsto> bs @ xs @ replicate k (Some 0)))"
| m_shrink: "M r = Some bs \<Longrightarrow> mem_step r M (M(r \<mapsto> take k bs))"
| m_fork: "M r = Some bs \<Longrightarrow> M q = Some [] \<Longrightarrow> mem_step r M (M(q \<mapsto> bs))"
| m_store: "M r = Some bs \<Longrightarrow> a < length bs \<Longrightarrow> mem_step r M (M(r \<mapsto> bs[a := Some b]))"
| m_exit: "M r = Some bs \<Longrightarrow> mem_step r M (M(r := None))"
| m_same: "mem_step r M M"

definition bytes :: "vm \<Rightarrow> nat \<Rightarrow> nat \<Rightarrow> nat option list" where
  "bytes s r sz = map (ubyte s r) [0..<sz]"

definition seen :: "system \<Rightarrow> nat \<rightharpoonup> nat option list" where
  "seen S r = map_option (bytes (vmem S) r) (usize S r)"

inductive vm_reach :: "system \<Rightarrow> bool" where
  boot: "cold_mm s \<Longrightarrow> cpu < NCPU \<Longrightarrow> kinit cpu s = (BRet (), s') \<Longrightarrow> vm_reach \<lparr>vmem = s', usize = Map.empty, kpages = {#}\<rparr>"
| step: "vm_reach S \<Longrightarrow> vm_step r S S' \<Longrightarrow> vm_reach S'"

text \<open>The pages the kernel uses for itself are mapped by nobody.\<close>

definition unshared :: "system \<Rightarrow> bool" where
  "unshared S \<longleftrightarrow> (\<forall>q z p. usize S q = Some z \<longrightarrow> p \<in># kpages S \<longrightarrow> p \<notin># frames (mem (vmem S)) q {..<pgs z})"

lemma bytes_nth [simp]: "length (bytes s r sz) = sz" "a < sz \<Longrightarrow> bytes s r sz ! a = ubyte s r a"
  by (simp_all add: bytes_def)

lemma bytes_0 [simp]: "bytes s r 0 = []"
  by (simp add: bytes_def)

lemma bytes_cong: "(\<And>a. a < sz \<Longrightarrow> ubyte s' r' a = ubyte s r a) \<Longrightarrow> bytes s' r' sz = bytes s r sz"
  by (simp add: bytes_def)

lemma bytes_split: "n \<le> sz \<Longrightarrow> bytes s r sz = bytes s r n @ map (ubyte s r) [n..<sz]"
  using upt_add_eq_append [of 0 n "sz - n"] by (simp add: bytes_def)

lemma seen_upd:
  assumes "\<And>q z. q \<noteq> r \<Longrightarrow> P q = Some z \<Longrightarrow> \<forall>a < z. ubyte s' q a = ubyte s q a"
  shows "seen \<lparr>vmem = s', usize = P(r \<mapsto> sz'), kpages = K'\<rparr> = (seen \<lparr>vmem = s, usize = P, kpages = K\<rparr>)(r \<mapsto> bytes s' r sz')"
    "seen \<lparr>vmem = s', usize = P(r := None), kpages = K'\<rparr> = (seen \<lparr>vmem = s, usize = P, kpages = K\<rparr>)(r := None)"
proof -
  have b: "map_option (bytes s' q) (P q) = map_option (bytes s q) (P q)" if "q \<noteq> r" for q
    using assms [OF that] bytes_cong [of _ s' q s q] by (cases "P q") auto
  show "seen \<lparr>vmem = s', usize = P(r \<mapsto> sz'), kpages = K'\<rparr> = (seen \<lparr>vmem = s, usize = P, kpages = K\<rparr>)(r \<mapsto> bytes s' r sz')"
    "seen \<lparr>vmem = s', usize = P(r := None), kpages = K'\<rparr> = (seen \<lparr>vmem = s, usize = P, kpages = K\<rparr>)(r := None)"
    using b by (auto simp: seen_def fun_eq_iff)
qed

lemma seen_same:
  assumes "\<And>q z. P q = Some z \<Longrightarrow> \<forall>a < z. ubyte s' q a = ubyte s q a"
  shows "seen \<lparr>vmem = s', usize = P, kpages = K'\<rparr> = seen \<lparr>vmem = s, usize = P, kpages = K\<rparr>"
proof -
  have "map_option (bytes s' q) (P q) = map_option (bytes s q) (P q)" for q
    using assms [of q] bytes_cong [of _ s' q s q] by (cases "P q") auto
  then show ?thesis by (simp add: seen_def fun_eq_iff)
qed

lemma kpages_rest: "p \<in># K \<Longrightarrow> p \<in># rest s P K r"
  by (simp add: rest_def)

lemma one_space:
  assumes S: "spaces \<lparr>vmem = s, usize = P, kpages = K\<rparr>" "unshared \<lparr>vmem = s, usize = P, kpages = K\<rparr>" and r: "P r = Some sz"
    and g: "good_space s' r sz' (rest s P K r)" and k: "kept (rest s P K r) s s'"
    and ns: "\<And>p. p \<in># rest s P K r \<Longrightarrow> p \<notin># frames (mem s) r {..<pgs sz} \<Longrightarrow> p \<notin># frames (mem s') r {..<pgs sz'}"
  shows "spaces \<lparr>vmem = s', usize = P(r \<mapsto> sz'), kpages = K\<rparr>" "unshared \<lparr>vmem = s', usize = P(r \<mapsto> sz'), kpages = K\<rparr>"
    "seen \<lparr>vmem = s', usize = P(r \<mapsto> sz'), kpages = K\<rparr> = (seen \<lparr>vmem = s, usize = P, kpages = K\<rparr>)(r \<mapsto> bytes s' r sz')"
proof -
  show "spaces \<lparr>vmem = s', usize = P(r \<mapsto> sz'), kpages = K\<rparr>" by (rule space_step(1) [OF S(1) r refl g k]) (rule ns)
  have T: "pte_of (mem s') q = pte_of (mem s) q \<and> (\<forall>a < z. ubyte s' q a = ubyte s q a)" if "q \<noteq> r" "P q = Some z" for q z
    by (rule space_step(2) [OF S(1) r refl g k _ that]) (rule ns)
  show "seen \<lparr>vmem = s', usize = P(r \<mapsto> sz'), kpages = K\<rparr> = (seen \<lparr>vmem = s, usize = P, kpages = K\<rparr>)(r \<mapsto> bytes s' r sz')"
    by (rule seen_upd) (use T in blast)
  have "p \<notin># frames (mem s') q {..<pgs z}" if "p \<in># K" "(P(r \<mapsto> sz')) q = Some z" for p q z
  proof (cases "q = r")
    case True
    then show ?thesis using that ns [OF kpages_rest [OF that(1)]] S(2) r by (simp add: unshared_def)
  next
    case False
    then have "P q = Some z" using that(2) by simp
    moreover from T [OF False this] have "frames (mem s') q {..<pgs z} = frames (mem s) q {..<pgs z}" by (simp add: frames_def)
    ultimately show ?thesis using S(2) that(1) by (simp add: unshared_def)
  qed
  then show "unshared \<lparr>vmem = s', usize = P(r \<mapsto> sz'), kpages = K\<rparr>" by (simp add: unshared_def)
qed

definition good_step :: "nat \<Rightarrow> system \<Rightarrow> system \<Rightarrow> bool" where
  "good_step r S S' \<longleftrightarrow> spaces S' \<and> unshared S' \<and> mem_step r (seen S) (seen S')"

lemma fresh_byte: "fresh_page (mem s) r Y (b div PGSIZE) \<Longrightarrow> ubyte s r b = Some 0"
  unfolding fresh_page_def
proof (elim exE conjE)
  fix p assume p: "pte_of (mem s) r (b div PGSIZE) = leaf p 30" "p < 2 ^ 56" "p mod PGSIZE = 0" "\<forall>a. inpage p a \<longrightarrow> mem s a = 0"
  have "PTE2PA (leaf p 30) = p" "pte_V (leaf p 30)" using leaf_parts(2,4) [OF p(2,3), of 30] by simp_all
  then show ?thesis using p(4) inpage_off by (simp add: ubyte_def uentry_def p(1))
qed

lemma grow_step:
  assumes S: "spaces \<lparr>vmem = s, usize = P, kpages = K\<rparr>" "unshared \<lparr>vmem = s, usize = P, kpages = K\<rparr>"
    and c: "cpu < NCPU" and r: "P r = Some sz" and sz: "sz \<le> newsz" "newsz \<le> MAXVA"
    and free: "\<forall>v. pgs sz \<le> v \<longrightarrow> v < pgs newsz \<longrightarrow> pte_of (mem s) r v = 0"
  shows "\<exists>z s'. uvmalloc cpu r sz newsz s = (BRet z, s') \<and> (z = newsz \<or> z = 0 \<and> card (free_pages s) \<le> 3 * (pgs newsz - pgs sz)) \<and>
    good_step r \<lparr>vmem = s, usize = P, kpages = K\<rparr> \<lparr>vmem = s', usize = (if z = 0 then P else P(r \<mapsto> z)), kpages = K\<rparr>"
proof -
  let ?R = "rest s P K r"
  note g = spacesD(3) [OF S(1), simplified, OF r]
  from uvmalloc_spec [OF g c sz] free obtain z s' where
    run: "uvmalloc cpu r sz newsz s = (BRet z, s')" and k: "kept (frames (mem s) r {..<pgs sz} + ?R) s s'"
    and cs: "z = newsz \<and> good_space s' r newsz ?R \<and> (\<forall>p \<in># ?R. p \<notin># frames (mem s) r {..<pgs sz} \<longrightarrow> p \<notin># frames (mem s') r {..<pgs newsz}) \<and>
       (\<forall>v < NVPN. v \<notin> {pgs sz..<pgs newsz} \<longrightarrow> pte_of (mem s') r v = pte_of (mem s) r v) \<and>
       (\<forall>v \<in> {pgs sz..<pgs newsz}. fresh_page (mem s') r (frames (mem s') r {..<pgs newsz} + ?R) v) \<or>
     z = 0 \<and> good_space s' r sz ?R \<and> same_entries s s' r \<and> card (free_pages s) \<le> 3 * (pgs newsz - pgs sz)" by blast
  have le: "pgs sz \<le> NVPN" using sz by (intro pgs_MAXVA) simp
  have kR: "kept ?R s s'" "kept (frames (mem s) r {..<pgs sz}) s s'" by (rule kept_mono [OF k], simp)+
  have V: "seen \<lparr>vmem = s, usize = P, kpages = K\<rparr> r = Some (bytes s r sz)" by (simp add: seen_def r)
  from cs show ?thesis
  proof (elim disjE conjE)
    assume a: "z = newsz" "good_space s' r newsz ?R" "\<forall>p \<in># ?R. p \<notin># frames (mem s) r {..<pgs sz} \<longrightarrow> p \<notin># frames (mem s') r {..<pgs newsz}"
      "\<forall>v < NVPN. v \<notin> {pgs sz..<pgs newsz} \<longrightarrow> pte_of (mem s') r v = pte_of (mem s) r v"
      "\<forall>v \<in> {pgs sz..<pgs newsz}. fresh_page (mem s') r (frames (mem s') r {..<pgs newsz} + ?R) v"
    note O = one_space [OF S r a(2) kR(1)]
    have old: "bytes s' r sz = bytes s r sz"
    proof (rule bytes_cong)
      fix b assume b: "b < sz"
      then have "uentry s' r b = uentry s r b" using a(4) page_of [OF b] le by (simp add: uentry_def)
      then show "ubyte s' r b = ubyte s r b" by (rule ubyte_same [OF b _ kR(2)])
    qed
    have zero: "ubyte s' r b = Some 0" if "pgs sz * PGSIZE \<le> b" "b < newsz" for b
    proof -
      have "b div PGSIZE \<in> {pgs sz..<pgs newsz}" using page_of [OF that(2)] that(1) by (simp add: less_eq_div_iff_mult_less_eq)
      then show ?thesis using a(5) by (intro fresh_byte) auto
    qed
    define n where "n = min newsz (pgs sz * PGSIZE)"
    have n: "sz \<le> n" "n \<le> newsz" "n - sz < PGSIZE" using sz pgs_less [of "pgs sz" sz] pgs_less [of "pgs sz - 1" sz] by (auto simp: n_def)
    have "map (ubyte s' r) [n..<newsz] = replicate (newsz - n) (Some 0)"
      by (rule replicate_eqI) (use zero in \<open>auto simp: n_def split: if_splits\<close>)
    then have "bytes s' r newsz = bytes s r sz @ map (ubyte s' r) [sz..<n] @ replicate (newsz - n) (Some 0)"
      using bytes_split [OF n(1), of s' r] bytes_split [OF n(2), of s' r] old by simp
    then have "mem_step r (seen \<lparr>vmem = s, usize = P, kpages = K\<rparr>) ((seen \<lparr>vmem = s, usize = P, kpages = K\<rparr>)(r \<mapsto> bytes s' r newsz))"
      using m_grow [of "seen \<lparr>vmem = s, usize = P, kpages = K\<rparr>" r "bytes s r sz" "map (ubyte s' r) [sz..<n]"] V n(3) by simp
    then have "good_step r \<lparr>vmem = s, usize = P, kpages = K\<rparr> \<lparr>vmem = s', usize = P(r \<mapsto> newsz), kpages = K\<rparr>"
      unfolding good_step_def using O a(3) by simp
    moreover have "(if newsz = 0 then P else P(r \<mapsto> newsz)) = P(r \<mapsto> newsz)" using r sz(1) by auto
    ultimately show ?thesis using run a(1) by simp
  next
    assume a: "z = 0" "good_space s' r sz ?R" "same_entries s s' r" "card (free_pages s) \<le> 3 * (pgs newsz - pgs sz)"
    have e: "pte_of (mem s') r v = pte_of (mem s) r v" if "v < pgs sz" for v using a(3) that le by (simp add: same_entries_def)
    have F: "frames (mem s') r {..<pgs sz} = frames (mem s) r {..<pgs sz}" by (rule frames_cong) (use e in auto)
    note O = one_space [OF S r a(2) kR(1)]
    have P: "P(r \<mapsto> sz) = P" using r by auto
    have "bytes s' r sz = bytes s r sz"
      by (rule bytes_cong, rule ubyte_same [OF _ _ kR(2)]) (use e page_of in \<open>auto simp: uentry_def\<close>)
    then have "seen \<lparr>vmem = s', usize = P, kpages = K\<rparr> = seen \<lparr>vmem = s, usize = P, kpages = K\<rparr>"
      using O(3) F V unfolding P by auto
    then have "good_step r \<lparr>vmem = s, usize = P, kpages = K\<rparr> \<lparr>vmem = s', usize = P, kpages = K\<rparr>"
      using O(1,2) F unfolding good_step_def P by (simp add: m_same)
    then show ?thesis using run a(1,4) by simp
  qed
qed

lemma shrink_step:
  assumes S: "spaces \<lparr>vmem = s, usize = P, kpages = K\<rparr>" "unshared \<lparr>vmem = s, usize = P, kpages = K\<rparr>"
    and c: "cpu < NCPU" and r: "P r = Some sz" and sz: "newsz < sz"
  shows "\<exists>s'. uvmdealloc cpu r sz newsz s = (BRet newsz, s') \<and>
    good_step r \<lparr>vmem = s, usize = P, kpages = K\<rparr> \<lparr>vmem = s', usize = P(r \<mapsto> newsz), kpages = K\<rparr>"
proof -
  let ?R = "rest s P K r"
  note g = spacesD(3) [OF S(1), simplified, OF r]
  from shrink_spec [OF g c sz] obtain s' where
    run: "uvmdealloc cpu r sz newsz s = (BRet newsz, s')" and k: "kept (frames (mem s) r {..<pgs newsz} + ?R) s s'" and g': "good_space s' r newsz ?R"
    and e: "\<forall>v < NVPN. pte_of (mem s') r v = (if v \<in> {pgs newsz..<pgs sz} then 0 else pte_of (mem s) r v)"
    and f: "frames (mem s') r {..<pgs newsz} \<subseteq># frames (mem s) r {..<pgs sz}" by blast
  have kR: "kept ?R s s'" "kept (frames (mem s) r {..<pgs newsz}) s s'" by (rule kept_mono [OF k], simp)+
  have le: "pgs newsz \<le> NVPN" by (rule pgs_MAXVA [OF good_spaceD(2) [OF g']])
  have ns: "p \<notin># frames (mem s') r {..<pgs newsz}" if "p \<notin># frames (mem s) r {..<pgs sz}" for p using mset_subset_eqD [OF f] that by blast
  note O = one_space [OF S r g' kR(1) ns]
  have "bytes s' r newsz = bytes s r newsz"
  proof (rule bytes_cong)
    fix b assume b: "b < newsz"
    then have "uentry s' r b = uentry s r b" using e page_of [OF b] le by (simp add: uentry_def)
    then show "ubyte s' r b = ubyte s r b" by (rule ubyte_same [OF b _ kR(2)])
  qed
  then have "bytes s' r newsz = take newsz (bytes s r sz)" using bytes_split [of newsz sz s r] sz by simp
  then have "mem_step r (seen \<lparr>vmem = s, usize = P, kpages = K\<rparr>) ((seen \<lparr>vmem = s, usize = P, kpages = K\<rparr>)(r \<mapsto> bytes s' r newsz))"
    using m_shrink [of "seen \<lparr>vmem = s, usize = P, kpages = K\<rparr>" r "bytes s r sz" newsz] r by (simp add: seen_def)
  then show ?thesis using O run by (auto simp: good_step_def)
qed

lemma cow_step:
  assumes S: "spaces \<lparr>vmem = s, usize = P, kpages = K\<rparr>" "unshared \<lparr>vmem = s, usize = P, kpages = K\<rparr>"
    and c: "cpu < NCPU" and r: "P r = Some sz" and va: "va mod PGSIZE = 0" "va < sz" "pte_V (uentry s r va)"
  shows "\<exists>z s'. cowalloc cpu t r va s = (BRet z, s') \<and> (z = 0 \<longrightarrow> \<not> pte_U (uentry s r va) \<or> free_pages s = {}) \<and>
    (z \<noteq> 0 \<longrightarrow> pte_W (uentry s' r va)) \<and>
    good_step r \<lparr>vmem = s, usize = P, kpages = K\<rparr> \<lparr>vmem = s', usize = P, kpages = K\<rparr>"
proof -
  let ?R = "rest s P K r"
  note g = spacesD(3) [OF S(1), simplified, OF r]
  obtain v where v: "va = v * PGSIZE" using va(1) div_mult_mod_eq [of va PGSIZE] by (intro that [of "va div PGSIZE"]) simp
  then have u: "uentry s r va = pte_of (mem s) r v" for s by (simp add: uentry_def)
  have vl: "v < pgs sz" using page_of [OF va(2)] v by simp
  have V: "pte_V (pte_of (mem s) r v)" using va(3) by (simp add: u)
  from cowalloc_spec [OF g c vl V, of t, folded v] obtain z s' where
    run: "cowalloc cpu t r va s = (BRet z, s')" and k: "kept ?R s s'" and g': "good_space s' r sz ?R"
    and ns: "\<forall>q \<in># ?R. q \<notin># frames (mem s) r {..<pgs sz} \<longrightarrow> q \<notin># frames (mem s') r {..<pgs sz}"
    and b: "\<forall>a < sz. ubyte s' r a = ubyte s r a"
    and z: "z = 0 \<and> (\<not> pte_U (uentry s r va) \<or> free_pages s = {}) \<or> z \<noteq> 0 \<and> pte_W (uentry s' r va)" unfolding u by blast
  note O = one_space [OF S r g' k]
  have P: "P(r \<mapsto> sz) = P" using r by auto
  have "bytes s' r sz = bytes s r sz" by (rule bytes_cong) (use b in blast)
  then have "seen \<lparr>vmem = s', usize = P, kpages = K\<rparr> = seen \<lparr>vmem = s, usize = P, kpages = K\<rparr>"
    using O(3) ns r unfolding P by (auto simp: seen_def)
  then have "good_step r \<lparr>vmem = s, usize = P, kpages = K\<rparr> \<lparr>vmem = s', usize = P, kpages = K\<rparr>"
    using O(1,2) ns unfolding good_step_def P by (simp add: m_same)
  then show ?thesis using run z by auto
qed

lemma store_step:
  assumes S: "spaces \<lparr>vmem = s, usize = P, kpages = K\<rparr>" "unshared \<lparr>vmem = s, usize = P, kpages = K\<rparr>"
    and r: "P r = Some sz" and a: "a < sz" "pte_V (uentry s r a)" "pte_W (uentry s r a)"
  shows "good_step r \<lparr>vmem = s, usize = P, kpages = K\<rparr> \<lparr>vmem = ustore r a b s, usize = P, kpages = K\<rparr>"
proof -
  note W = store_spec [OF spacesD(3) [OF S(1), simplified, OF r] a, where b = b]
  have F: "frames (mem (ustore r a b s)) r {..<pgs sz} = frames (mem s) r {..<pgs sz}" by (simp add: frames_def W(3))
  note O = one_space [OF S r W(1,2)]
  have P: "P(r \<mapsto> sz) = P" using r by auto
  have "bytes (ustore r a b s) r sz = (bytes s r sz)[a := Some b]"
  proof (rule nth_equalityI)
    fix i assume "i < length (bytes (ustore r a b s) r sz)"
    then show "bytes (ustore r a b s) r sz ! i = (bytes s r sz)[a := Some b] ! i" using W(4) [of i] by (simp add: nth_list_update)
  qed simp
  then have "mem_step r (seen \<lparr>vmem = s, usize = P, kpages = K\<rparr>) (seen \<lparr>vmem = ustore r a b s, usize = P, kpages = K\<rparr>)"
    using m_store [of "seen \<lparr>vmem = s, usize = P, kpages = K\<rparr>" r "bytes s r sz" a b] r a(1) O(3) F unfolding P by (simp add: seen_def)
  then show ?thesis using O(1,2) F unfolding good_step_def P by simp
qed

lemma fork_step:
  assumes S: "spaces \<lparr>vmem = s, usize = P, kpages = K\<rparr>" "unshared \<lparr>vmem = s, usize = P, kpages = K\<rparr>"
    and c: "cpu < NCPU" and r: "P r = Some sz" "P q = Some 0" "q \<noteq> r"
    and q: "\<forall>v < pgs sz. pte_of (mem s) q v = 0" and b: "\<forall>p \<in> pages s. refs_to s p < 2000000000"
  shows "\<exists>z s'. uvmcopy cpu r q sz s = (BRet z, s') \<and> (z = 0 \<or> z = - 1 \<and> card (free_pages s) \<le> 2 * pgs sz) \<and>
    good_step r \<lparr>vmem = s, usize = P, kpages = K\<rparr> \<lparr>vmem = s', usize = (if z = 0 then P(q \<mapsto> sz) else P), kpages = K\<rparr>"
proof -
  from fork_spec [OF S(1) c r q b] obtain z s' where
    run: "uvmcopy cpu r q sz s = (BRet z, s')" and sp: "spaces \<lparr>vmem = s', usize = (if z = 0 then P(q \<mapsto> sz) else P), kpages = K\<rparr>"
    and z: "z = 0 \<or> z = - 1 \<and> card (free_pages s) \<le> 2 * pgs sz" and own: "\<forall>a < sz. ubyte s' r a = ubyte s r a \<and> (z = 0 \<longrightarrow> ubyte s' q a = ubyte s r a)"
    and oth: "\<forall>x y. x \<noteq> r \<longrightarrow> x \<noteq> q \<longrightarrow> P x = Some y \<longrightarrow> pte_of (mem s') x = pte_of (mem s) x \<and> (\<forall>a < y. ubyte s' x a = ubyte s x a)"
    and fr: "frames (mem s') r {..<pgs sz} = frames (mem s) r {..<pgs sz}" "z = 0 \<longrightarrow> frames (mem s') q {..<pgs sz} = frames (mem s) r {..<pgs sz}"
    by blast
  have p0: "pgs 0 = 0" by (simp add: pgs_def)
  have fx: "frames (mem s') x {..<pgs y} = frames (mem s) x {..<pgs y}" if "x \<noteq> r" "x \<noteq> q" "P x = Some y" for x y
    using oth that by (simp add: frames_def)
  have same: "\<forall>a < y. ubyte s' x a = ubyte s x a" if "P x = Some y" for x y
    using oth own that r by (cases "x = r"; cases "x = q") auto
  have U: "p \<notin># frames (mem s') x {..<pgs y}" if "p \<in># K" "(if z = 0 then P(q \<mapsto> sz) else P) x = Some y" for p x y
  proof -
    have u: "p \<notin># frames (mem s) x {..<pgs y}" if "P x = Some y" for x y using S(2) that \<open>p \<in># K\<close> by (simp add: unshared_def)
    consider "x = r" | "x = q" "z = 0" | "x = q" "z \<noteq> 0" | "x \<noteq> r" "x \<noteq> q" by blast
    then show ?thesis using that(2) r fr u [OF r(1)] u [of x y] fx [of x y] p0 by cases (auto split: if_splits)
  qed
  have "mem_step r (seen \<lparr>vmem = s, usize = P, kpages = K\<rparr>) (seen \<lparr>vmem = s', usize = (if z = 0 then P(q \<mapsto> sz) else P), kpages = K\<rparr>)"
  proof (cases "z = 0")
    case True
    have "seen \<lparr>vmem = s', usize = P(q \<mapsto> sz), kpages = K\<rparr> = (seen \<lparr>vmem = s, usize = P, kpages = K\<rparr>)(q \<mapsto> bytes s' q sz)"
      by (rule seen_upd(1)) (rule same)
    moreover have "bytes s' q sz = bytes s r sz" by (rule bytes_cong) (use own True in blast)
    ultimately show ?thesis using True r m_fork [of "seen \<lparr>vmem = s, usize = P, kpages = K\<rparr>" r "bytes s r sz" q] by (simp add: seen_def)
  next
    case False
    have "seen \<lparr>vmem = s', usize = P, kpages = K\<rparr> = seen \<lparr>vmem = s, usize = P, kpages = K\<rparr>" by (rule seen_same) (rule same)
    then show ?thesis using False by (simp add: m_same)
  qed
  then have "good_step r \<lparr>vmem = s, usize = P, kpages = K\<rparr> \<lparr>vmem = s', usize = (if z = 0 then P(q \<mapsto> sz) else P), kpages = K\<rparr>"
    using sp U by (simp add: good_step_def unshared_def)
  then show ?thesis using run z by blast
qed

text \<open>An address space counted with the kernel's pages instead.\<close>

lemma regroup:
  assumes "P r = None" "finite (dom P)"
  shows "all_refs s P (own (mem s) r sz + K) = all_refs s (P(r \<mapsto> sz)) K" "q \<noteq> r \<Longrightarrow> rest s P (own (mem s) r sz + K) q = rest s (P(r \<mapsto> sz)) K q"
    "all_refs s P K = rest s (P(r \<mapsto> sz)) K r"
proof -
  let ?P = "P(r \<mapsto> sz)" and ?f = "\<lambda>q. own (mem s) q (the ((P(r \<mapsto> sz)) q))"
  have d: "dom ?P = insert r (dom P)" "r \<notin> dom P" using assms(1) by auto
  have c: "(\<Sum>q \<in> A. own (mem s) q (the (P q))) = sum ?f A" if "r \<notin> A" for A by (rule sum.cong) (use that in auto)
  show "all_refs s P (own (mem s) r sz + K) = all_refs s ?P K" using c [of "dom P"] d assms(2) by (simp add: all_refs_def ac_simps)
  show "all_refs s P K = rest s ?P K r" using c [of "dom P"] d by (simp add: all_refs_def rest_def)
  assume q: "q \<noteq> r"
  have "dom ?P - {q} = insert r (dom P - {q})" using d(1) q by auto
  then show "rest s P (own (mem s) r sz + K) q = rest s ?P K q"
    using c [of "dom P - {q}"] d(2) assms(2) by (simp add: rest_def ac_simps)
qed

lemma kernel_good:
  assumes S: "spaces \<lparr>vmem = s, usize = P, kpages = K\<rparr>" "unshared \<lparr>vmem = s, usize = P, kpages = K\<rparr>"
    and acc: "pool.accounted (s', (\<Sum>q \<in> dom P. own (mem s) q (the (P q))) + K')" and k: "kept (\<Sum>q \<in> dom P. own (mem s) q (the (P q))) s s'"
    and new: "\<forall>p \<in># K'. p \<in># K \<or> p \<notin># (\<Sum>q \<in> dom P. own (mem s) q (the (P q)))"
  shows "spaces \<lparr>vmem = s', usize = P, kpages = K'\<rparr>" "unshared \<lparr>vmem = s', usize = P, kpages = K'\<rparr>"
    "seen \<lparr>vmem = s', usize = P, kpages = K'\<rparr> = seen \<lparr>vmem = s, usize = P, kpages = K\<rparr>"
proof -
  have T: "pte_of (mem s') q = pte_of (mem s) q \<and> (\<forall>a < z. ubyte s' q a = ubyte s q a)" if "P q = Some z" for q z
    by (rule kernel_step(2) [OF S(1) acc k _ that]) (use new in blast)
  show "spaces \<lparr>vmem = s', usize = P, kpages = K'\<rparr>" by (rule kernel_step(1) [OF S(1) acc k]) (use new in blast)
  show "seen \<lparr>vmem = s', usize = P, kpages = K'\<rparr> = seen \<lparr>vmem = s, usize = P, kpages = K\<rparr>" by (rule seen_same) (use T in blast)
  have "p \<notin># frames (mem s') q {..<pgs z}" if "p \<in># K'" "P q = Some z" for p q z
  proof -
    have F: "frames (mem s') q {..<pgs z} = frames (mem s) q {..<pgs z}" using T [OF that(2)] by (simp add: frames_def)
    have fin: "finite (dom P)" using spacesD(1) [OF S(1)] by simp
    have "own (mem s) q z \<subseteq># (\<Sum>q \<in> dom P. own (mem s) q (the (P q)))"
      using own_sub_sum [OF fin, of q "mem s" "\<lambda>q. the (P q)"] that(2) by auto
    from mset_subset_eqD [OF this] bspec [OF new that(1)] S(2) that(2) show ?thesis unfolding F by (auto simp: unshared_def own_def)
  qed
  then show "unshared \<lparr>vmem = s', usize = P, kpages = K'\<rparr>" by (simp add: unshared_def)
qed

lemma get_step:
  assumes S: "spaces \<lparr>vmem = s, usize = P, kpages = K\<rparr>" "unshared \<lparr>vmem = s, usize = P, kpages = K\<rparr>" and c: "cpu < NCPU"
  shows "(kalloc_try cpu s = (0, s) \<and> free_pages s = {}) \<or>
    (\<exists>p s1. kalloc_try cpu s = (p, s1) \<and> p \<noteq> 0 \<and> p \<notin># all_refs s P K \<and> touched p s s1 \<and> p \<in> pages s \<and>
      (\<forall>m. (\<forall>a. \<not> inpage p a \<longrightarrow> m a = mem s a) \<longrightarrow>
        spaces \<lparr>vmem = s1\<lparr>mem := m\<rparr>, usize = P, kpages = add_mset p K\<rparr> \<and> unshared \<lparr>vmem = s1\<lparr>mem := m\<rparr>, usize = P, kpages = add_mset p K\<rparr> \<and>
        seen \<lparr>vmem = s1\<lparr>mem := m\<rparr>, usize = P, kpages = add_mset p K\<rparr> = seen \<lparr>vmem = s, usize = P, kpages = K\<rparr>))"
proof -
  let ?O = "\<Sum>q \<in> dom P. own (mem s) q (the (P q))"
  have acc: "pool.accounted (s, ?O + K)" using spacesD(2) [OF S(1)] by (simp add: all_refs_def)
  from kalloc_held [OF acc c] show ?thesis
  proof
    assume "\<exists>p s'. kalloc_try cpu s = (p, s') \<and> p \<in> pages s \<and> p \<noteq> 0 \<and> p \<notin># ?O + K \<and> pool.accounted (s', add_mset p (?O + K)) \<and> touched p s s'"
    then obtain p s1 where p: "kalloc_try cpu s = (p, s1)" "p \<in> pages s" "p \<noteq> 0" "p \<notin># ?O + K" "pool.accounted (s1, add_mset p (?O + K))" "touched p s s1"
      by blast
    have "spaces \<lparr>vmem = s1\<lparr>mem := m\<rparr>, usize = P, kpages = add_mset p K\<rparr> \<and> unshared \<lparr>vmem = s1\<lparr>mem := m\<rparr>, usize = P, kpages = add_mset p K\<rparr> \<and>
        seen \<lparr>vmem = s1\<lparr>mem := m\<rparr>, usize = P, kpages = add_mset p K\<rparr> = seen \<lparr>vmem = s, usize = P, kpages = K\<rparr>"
      if m: "\<forall>a. \<not> inpage p a \<longrightarrow> m a = mem s a" for m
    proof -
      have a: "pool.accounted (s1\<lparr>mem := m\<rparr>, ?O + add_mset p K)"
        using write_held [OF p(5), of p m] m p(6) by (simp add: touched_def)
      have t: "touched p s (s1\<lparr>mem := m\<rparr>)" using p(6) m by (simp add: touched_def)
      have "kept ?O s (s1\<lparr>mem := m\<rparr>)" by (rule kept_touched [OF t p(2)]) (use pool.accountedD(2) [OF acc] p(4) in auto)
      from kernel_good [OF S a this] p(4) show ?thesis by auto
    qed
    then show ?thesis using p by (intro disjI2 exI [of _ p] exI [of _ s1]) (simp add: all_refs_def)
  qed simp
qed

lemma empty_table:
  assumes "\<And>a. inpage q a \<Longrightarrow> m a = 0" "q mod PGSIZE = 0"
  shows "nodes m q = {q}" "tree_ok m q" "pte_of m q v = 0"
proof -
  have z: "ld64 m (q + 8 * i) = 0" if "i < 512" for i
  proof -
    have "ld64 m (q + 8 * i) = ld (\<lambda>_. 0) 0 8" by (rule ld_cong) (use assms(1) entry_in [OF that] in auto)
    also have "\<dots> = 0" by code_simp
    finally show ?thesis .
  qed
  have s: "sub m q i = None" if "i < 512" for i using z [OF that] by (simp add: sub_def)
  have t: "tab m q n = (if n = Root then Some q else None)" if "node_ok n" for n using s that by (cases n) auto
  show N: "nodes m q = {q}" using t t [of Root] by (auto simp: nodes_def split: if_splits intro: exI [of _ Root])
  show "tree_ok m q" unfolding tree_ok_def N
  proof (intro conjI allI impI ballI)
    fix n p and i :: nat assume a: "node_ok n \<and> inner n \<and> tab m q n = Some p \<and> i < 512"
    then have "p = q" using t [of n] by (simp split: if_splits)
    then show "to_table (ld64 m (p + 8 * i))" using z a by (simp add: to_table_def)
  qed (use assms(2) t s in \<open>auto split: if_splits\<close>)
  show "pte_of m q v = 0" using t [OF low_of_ok, of v] by (simp add: pte_of_def low_of_def)
qed

lemma create_step:
  assumes S: "spaces \<lparr>vmem = s, usize = P, kpages = K\<rparr>" "unshared \<lparr>vmem = s, usize = P, kpages = K\<rparr>" and c: "cpu < NCPU"
  shows "\<exists>q s'. uvmcreate cpu s = (q, s') \<and> (q = 0 \<longrightarrow> s' = s \<and> free_pages s = {}) \<and>
    (q \<noteq> 0 \<longrightarrow> good_step 0 \<lparr>vmem = s, usize = P, kpages = K\<rparr> \<lparr>vmem = s', usize = P(q \<mapsto> 0), kpages = K\<rparr>)"
  using get_step [OF S c]
proof (elim disjE exE conjE)
  assume "kalloc_try cpu s = (0, s)" "free_pages s = {}"
  then show ?thesis by (simp add: uvmcreate_def)
next
  fix q s1
  assume q: "kalloc_try cpu s = (q, s1)" "q \<noteq> 0" "q \<notin># all_refs s P K" "touched q s s1" "q \<in> pages s"
    and N: "\<forall>m. (\<forall>a. \<not> inpage q a \<longrightarrow> m a = mem s a) \<longrightarrow>
      spaces \<lparr>vmem = s1\<lparr>mem := m\<rparr>, usize = P, kpages = add_mset q K\<rparr> \<and> unshared \<lparr>vmem = s1\<lparr>mem := m\<rparr>, usize = P, kpages = add_mset q K\<rparr> \<and>
      seen \<lparr>vmem = s1\<lparr>mem := m\<rparr>, usize = P, kpages = add_mset q K\<rparr> = seen \<lparr>vmem = s, usize = P, kpages = K\<rparr>"
  define s' where "s' = s1\<lparr>mem := memset (mem s1) q 0 PGSIZE\<rparr>"
  have m: "mem s' = (\<lambda>a. if inpage q a then 0 else mem s a)" using memset_zero [OF q(4)] by (simp add: s'_def)
  have N': "spaces \<lparr>vmem = s', usize = P, kpages = add_mset q K\<rparr>" "unshared \<lparr>vmem = s', usize = P, kpages = add_mset q K\<rparr>"
    "seen \<lparr>vmem = s', usize = P, kpages = add_mset q K\<rparr> = seen \<lparr>vmem = s, usize = P, kpages = K\<rparr>"
    using N [rule_format, of "mem s'"] m by (simp_all add: s'_def)
  note D = spacesD [OF N'(1), simplified]
  have E: "nodes (mem s') q = {q}" "tree_ok (mem s') q" "pte_of (mem s') q v = 0" for v
    by (rule empty_table; use m page_small(2) [OF q(5)] in simp)+
  have o: "own (mem s') q 0 = {#q#}" using E(1) by (simp add: own_def pgs_def)
  have nd: "q \<notin># own (mem s') x z" if "P x = Some z" for x z
  proof -
    have "q \<in># rest s' P (add_mset q K) x" by (rule kpages_rest) simp
    then have "q \<notin> nodes (mem s') x" using tablesD(4) [OF good_spaceD(1) [OF D(3) [OF that]], of q] by auto
    then show ?thesis using N'(2) that good_spaceD(5) [OF D(3) [OF that]] by (simp add: own_def unshared_def)
  qed
  have Pq: "P q = None"
  proof (cases "P q")
    case (Some z)
    then show ?thesis using nd [OF Some] E(1) by (simp add: own_def)
  qed
  have nR: "q \<notin># all_refs s' P K" using q(3) nd D(1) by (auto simp: all_refs_def set_mset_sum)
  note G = regroup [OF Pq D(1), where s = s' and sz = 0 and K = K, unfolded o]
  let ?P = "P(q \<mapsto> 0)"
  have "all_refs s' P (add_mset q K) = add_mset q (rest s' ?P K q)" unfolding G(3) [symmetric] by (simp add: all_refs_def)
  then have "pool.accounted (s', add_mset q (rest s' ?P K q))" using D(2) by simp
  then have g: "good_space s' q 0 (rest s' ?P K q)"
    by (intro good_spaceI) (use G(3) E nR in \<open>auto simp: tables_def pgs_def\<close>)
  have "spaces \<lparr>vmem = s', usize = ?P, kpages = K\<rparr>"
  proof (rule spacesI)
    fix x z assume x: "?P x = Some z"
    show "good_space s' x z (rest s' ?P K x)" using x g D(3) [of x z] G(2) [of x] by (cases "x = q") auto
  qed (use D(1,2) G(1) in simp_all)
  moreover have "unshared \<lparr>vmem = s', usize = ?P, kpages = K\<rparr>" using N'(2) by (simp add: unshared_def pgs_def)
  moreover have "seen \<lparr>vmem = s', usize = ?P, kpages = K\<rparr> = (seen \<lparr>vmem = s, usize = P, kpages = K\<rparr>)(q \<mapsto> [])"
    unfolding N'(3) [symmetric] by (subst seen_upd(1)) simp_all
  ultimately have "good_step 0 \<lparr>vmem = s, usize = P, kpages = K\<rparr> \<lparr>vmem = s', usize = ?P, kpages = K\<rparr>"
    using m_create [of "seen \<lparr>vmem = s, usize = P, kpages = K\<rparr>" q] Pq by (simp add: good_step_def seen_def)
  then show ?thesis using q(1,2) by (simp add: uvmcreate_def s'_def)
qed

lemma exit_step:
  assumes S: "spaces \<lparr>vmem = s, usize = P, kpages = K\<rparr>" "unshared \<lparr>vmem = s, usize = P, kpages = K\<rparr>" and c: "cpu < NCPU"
    and r: "P r = Some sz" and e: "\<forall>v. pgs sz \<le> v \<longrightarrow> v < NVPN \<longrightarrow> \<not> pte_V (pte_of (mem s) r v)"
  shows "\<exists>s'. uvmfree cpu r sz s = (BRet (), s') \<and>
    good_step r \<lparr>vmem = s, usize = P, kpages = K\<rparr> \<lparr>vmem = s', usize = P(r := None), kpages = K\<rparr>"
proof -
  note D = spacesD [OF S(1), simplified]
  from uvmfree_spec [OF D(3) [OF r] c] e obtain s' where
    run: "uvmfree cpu r sz s = (BRet (), s')" and acc: "pool.accounted (s', rest s P K r)" and k: "kept (rest s P K r) s s'" by blast
  let ?P = "P(r := None)" and ?K = "own (mem s) r sz + K"
  have P: "?P(r \<mapsto> sz) = P" using r by auto
  have fin: "finite (dom ?P)" using D(1) by simp
  note G = regroup [where P = ?P and r = r and s = s and sz = sz and K = K, OF _ fin, unfolded P]
  have sp: "spaces \<lparr>vmem = s, usize = ?P, kpages = ?K\<rparr>"
  proof (rule spacesI [OF fin])
    show "pool.accounted (s, all_refs s ?P ?K)" using D(2) G(1) by simp
    fix x z assume "?P x = Some z"
    then show "good_space s x z (rest s ?P ?K x)" using D(3) [of x z] G(2) [of x] by (cases "x = r") auto
  qed
  let ?O = "\<Sum>q \<in> dom ?P. own (mem s) q (the (?P q))"
  have O: "rest s P K r = ?O + K" using G(3) by (simp add: all_refs_def)
  have a: "pool.accounted (s', ?O + K)" "kept ?O s s'" using acc kept_mono [OF k] by (simp_all add: O)
  have T: "pte_of (mem s') q = pte_of (mem s) q \<and> (\<forall>a < z. ubyte s' q a = ubyte s q a)" if "?P q = Some z" for q z
    by (rule kernel_step(2) [OF sp a _ that]) simp
  have "spaces \<lparr>vmem = s', usize = ?P, kpages = K\<rparr>" by (rule kernel_step(1) [OF sp a]) simp
  moreover have "frames (mem s') q A = frames (mem s) q A" if "q \<noteq> r" "P q = Some z" for q z A using T [of q z] that by (simp add: frames_def)
  then have "unshared \<lparr>vmem = s', usize = ?P, kpages = K\<rparr>" using S(2) by (auto simp: unshared_def)
  moreover have "seen \<lparr>vmem = s', usize = ?P, kpages = K\<rparr> = (seen \<lparr>vmem = s, usize = P, kpages = K\<rparr>)(r := None)"
    by (rule seen_upd(2)) (use T in auto)
  ultimately have "good_step r \<lparr>vmem = s, usize = P, kpages = K\<rparr> \<lparr>vmem = s', usize = ?P, kpages = K\<rparr>"
    using m_exit [of "seen \<lparr>vmem = s, usize = P, kpages = K\<rparr>" r "bytes s r sz"] r by (simp add: good_step_def seen_def)
  then show ?thesis using run by blast
qed

lemma put_step:
  assumes S: "spaces \<lparr>vmem = s, usize = P, kpages = K\<rparr>" "unshared \<lparr>vmem = s, usize = P, kpages = K\<rparr>" and c: "cpu < NCPU" and p: "p \<in># K"
  shows "\<exists>s'. kfree cpu p s = (BRet (), s') \<and> good_step 0 \<lparr>vmem = s, usize = P, kpages = K\<rparr> \<lparr>vmem = s', usize = P, kpages = K - {#p#}\<rparr>"
proof -
  let ?O = "\<Sum>q \<in> dom P. own (mem s) q (the (P q))"
  have acc: "pool.accounted (s, ?O + K)" using spacesD(2) [OF S(1)] by (simp add: all_refs_def)
  have "?O + K = add_mset p (?O + (K - {#p#}))" using p by simp
  then have "pool.accounted (s, add_mset p (?O + (K - {#p#})))" using acc by (simp only:)
  from kfree_held [OF this c] obtain s' where
    s': "kfree cpu p s = (BRet (), s')" "pool.accounted (s', ?O + (K - {#p#}))" "touched p s s'" "p \<in># ?O + (K - {#p#}) \<longrightarrow> mem s' = mem s" by blast
  have "p \<in># ?O \<longrightarrow> mem s' = mem s" using s'(4) by (meson union_iff)
  then have "kept ?O s s'" by (intro kept_touched [OF s'(3)]) (use pool.accountedD(2) [OF acc] p in auto)
  note k = this
  have "\<forall>x \<in># K - {#p#}. x \<in># K \<or> x \<notin># ?O" by (auto dest: in_diffD)
  from kernel_good [OF S s'(2) k this] s'(1) show ?thesis by (simp add: good_step_def m_same)
qed

lemma write_step:
  assumes S: "spaces \<lparr>vmem = s, usize = P, kpages = K\<rparr>" "unshared \<lparr>vmem = s, usize = P, kpages = K\<rparr>" and p: "p \<in># K" "inpage p a"
  shows "good_step 0 \<lparr>vmem = s, usize = P, kpages = K\<rparr> \<lparr>vmem = set_byte a b s, usize = P, kpages = K\<rparr>"
proof -
  let ?O = "\<Sum>q \<in> dom P. own (mem s) q (the (P q))"
  note D = spacesD [OF S(1), simplified]
  have acc: "pool.accounted (s, ?O + K)" using D(2) by (simp add: all_refs_def)
  have w: "set_byte a b s = s\<lparr>mem := (mem s)(a := b)\<rparr>" by (simp add: set_byte_def)
  have a: "pool.accounted (set_byte a b s, ?O + K)" unfolding w by (rule write_held [OF acc, of p]) (use p in auto)
  have t: "touched p s (set_byte a b s)" unfolding w touched_def using p(2) by auto
  have n: "p \<notin># own (mem s) x z" if "P x = Some z" for x z
  proof -
    have "p \<notin> nodes (mem s) x" using tablesD(4) [OF good_spaceD(1) [OF D(3) [OF that]], of p] kpages_rest [OF p(1)] by auto
    then show ?thesis using S(2) p(1) that good_spaceD(5) [OF D(3) [OF that]] by (simp add: own_def unshared_def)
  qed
  then have "p \<notin># ?O" using D(1) by (auto simp: set_mset_sum)
  then have "kept ?O s (set_byte a b s)" by (intro kept_touched [OF t]) (use pool.accountedD(2) [OF acc] p(1) in auto)
  from kernel_good [OF S a this] show ?thesis by (auto simp: good_step_def m_same)
qed

lemma vm_step_good:
  assumes "vm_step r S S'" "spaces S" "unshared S"
  shows "good_step r S S'"
  using assms
proof (induction rule: vm_step.induct)
  case create
  from create_step [OF create.prems create.hyps(1)] create.hyps(2,3) show ?case by auto
next
  case grow
  from grow_step [OF grow.prems grow.hyps(1-5)] grow.hyps(6) show ?case by auto
next
  case shrink
  from shrink_step [OF shrink.prems shrink.hyps(1-3)] shrink.hyps(4) show ?case by auto
next
  case fork
  from fork_step [OF fork.prems fork.hyps(1-6)] fork.hyps(7) show ?case by auto
next
  case (cow cpu P r sz va s t z s' K)
  from cow_step [OF cow.prems cow.hyps(1-5), of t] cow.hyps(7) show ?case by auto
next
  case store
  from store_step [OF store.prems store.hyps(1,2,3,5)] show ?case .
next
  case destroy
  from exit_step [OF destroy.prems destroy.hyps(1-3)] destroy.hyps(4) show ?case by auto
next
  case (kget cpu s p s' P K)
  from get_step [OF kget.prems kget.hyps(1)] show ?case
  proof (elim disjE exE conjE)
    fix p1 s1
    assume a: "kalloc_try cpu s = (p1, s1)" "p1 \<noteq> 0" "touched p1 s s1" and N: "\<forall>m. (\<forall>a. \<not> inpage p1 a \<longrightarrow> m a = mem s a) \<longrightarrow>
        spaces \<lparr>vmem = s1\<lparr>mem := m\<rparr>, usize = P, kpages = add_mset p1 K\<rparr> \<and> unshared \<lparr>vmem = s1\<lparr>mem := m\<rparr>, usize = P, kpages = add_mset p1 K\<rparr> \<and>
        seen \<lparr>vmem = s1\<lparr>mem := m\<rparr>, usize = P, kpages = add_mset p1 K\<rparr> = seen \<lparr>vmem = s, usize = P, kpages = K\<rparr>"
    then show ?thesis using N [rule_format, of "mem s1"] kget.hyps(2) by (simp add: touched_def good_step_def m_same)
  qed (use kget in \<open>auto simp: good_step_def m_same\<close>)
next
  case kput
  from put_step [OF kput.prems kput.hyps] show ?case by auto
next
  case kwrite
  from write_step [OF kwrite.prems kwrite.hyps] show ?case .
qed

lemma count_frames: "count (frames m r {..<n}) p = card {v. v < n \<and> pte_V (pte_of m r v) \<and> PTE2PA (pte_of m r v) = p}"
proof (induction n)
  case (Suc n)
  let ?A = "\<lambda>n. {v. v < n \<and> pte_V (pte_of m r v) \<and> PTE2PA (pte_of m r v) = p}"
  have "?A (Suc n) = (if pte_V (pte_of m r n) \<and> PTE2PA (pte_of m r n) = p then insert n (?A n) else ?A n)" by (auto simp: less_Suc_eq)
  moreover have "finite (?A n)" "n \<notin> ?A n" by auto
  ultimately have "card (?A (Suc n)) = card (?A n) + count (frame_of (pte_of m r n)) p" by (simp add: frame_of_def)
  then show ?case by (simp add: frames_lessThan_Suc Suc)
qed simp

lemma boot_good:
  assumes "cold_mm s" "cpu < NCPU" "kinit cpu s = (BRet (), s')"
  shows "spaces \<lparr>vmem = s', usize = Map.empty, kpages = {#}\<rparr>" "unshared \<lparr>vmem = s', usize = Map.empty, kpages = {#}\<rparr>"
    "pages s' = pages s" "free_pages s' = pages s"
proof -
  from kinit_spec [OF assms(1,2)] assms(3) have k: "kmem_inv s'" "pages s' = pages s" "free_pages s' = pages s" by auto
  then have "pool.accounted (s', {#})" by (auto simp: pool.accounted_def free_pages_def)
  then show "spaces \<lparr>vmem = s', usize = Map.empty, kpages = {#}\<rparr>" by (simp add: spaces_def)
  show "unshared \<lparr>vmem = s', usize = Map.empty, kpages = {#}\<rparr>" by (simp add: unshared_def)
  show "pages s' = pages s" "free_pages s' = pages s" using k by simp_all
qed

lemma vm_reach_good: "vm_reach S \<Longrightarrow> spaces S \<and> unshared S"
proof (induction rule: vm_reach.induct)
  case boot
  then show ?case using boot_good by blast
next
  case step
  then show ?case using vm_step_good unfolding good_step_def by blast
qed

subsection \<open>Properties\<close>





subsection \<open>A run\<close>

text \<open>A machine with five pages: one address space is created and grows to one byte.\<close>

definition vm0 :: vm where
  "vm0 = \<lparr>mem = (\<lambda>_. 0), cnt = (\<lambda>_. 0), freelist = replicate NCPU 0, kend = 2281680896, swapmap = [], swap_hint = 0, swapready = False,
     swapstart = 0, swap_window_start = 0, swap_events = 0, swap_pbuf = [], swap_pbuf_hand = 0, swap_pbuf_cached = 0, swap_pbuf_hits = 0,
     swap_pbuf_misses = 0, sdisk = (\<lambda>_. [])\<rparr>"

lemma vm0_cold: "cold_mm vm0"
  by (simp add: cold_mm_def vm0_def)

lemma vm0_pages: "pages vm0 = {2281680896, 2281684992, 2281689088, 2281693184, 2281697280}"
proof -
  have "q \<in> {2281680896, 2281684992, 2281689088, 2281693184, 2281697280}" if q: "q mod PGSIZE = 0" "2281680896 \<le> q" "q < PHYSTOP" for q :: nat
  proof -
    obtain k where k: "q = PGSIZE * k" using q(1) by auto
    have "k = 557051 \<or> k = 557052 \<or> k = 557053 \<or> k = 557054 \<or> k = 557055" using q(2,3) unfolding k by simp arith
    then show ?thesis using k by auto
  qed
  then show ?thesis by (auto simp: pages_def vm0_def)
qed

lemma vm0_create:
  "\<exists>q s. q \<noteq> 0 \<and> vm_reach \<lparr>vmem = s, usize = [q \<mapsto> 0], kpages = {#}\<rparr> \<and> (\<forall>v. pte_of (mem s) q v = 0) \<and> card (free_pages s) = 4"
proof -
  have c: "(0 :: nat) < NCPU" by simp
  from kinit_spec [OF vm0_cold c] obtain s0 where s0: "kinit 0 vm0 = (BRet (), s0)" by blast
  note B = boot_good [OF vm0_cold c s0]
  from get_step [OF B(1,2) c] B(4) vm0_pages obtain q s1 where q: "kalloc_try 0 s0 = (q, s1)" "q \<noteq> 0" "touched q s0 s1" "q \<in> pages s0" by auto
  define s where "s = s1\<lparr>mem := memset (mem s1) q 0 PGSIZE\<rparr>"
  have m: "mem s = (\<lambda>a. if inpage q a then 0 else mem s0 a)" using memset_zero [OF q(3)] by (simp add: s_def)
  have E: "nodes (mem s) q = {q}" "pte_of (mem s) q v = 0" for v
    using empty_table [of q "mem s"] m page_small(2) [OF q(4)] by auto
  have "uvmcreate 0 s0 = (q, s)" using q(1,2) by (simp add: uvmcreate_def s_def)
  then have "vm_step 0 \<lparr>vmem = s0, usize = Map.empty, kpages = {#}\<rparr> \<lparr>vmem = s, usize = [q \<mapsto> 0], kpages = {#}\<rparr>"
    using vm_step.create [OF c _ q(2)] by blast
  then have R: "vm_reach \<lparr>vmem = s, usize = [q \<mapsto> 0], kpages = {#}\<rparr>" using vm_reach.boot [OF vm0_cold c s0] by (rule vm_reach.step [rotated])
  have pg: "pages s = pages vm0" using B(3) q(3) touched_pages by (simp add: s_def pages_def touched_def)
  note A = spacesD(2) [OF conjunct1 [OF vm_reach_good [OF R]]]
  have o: "all_refs s [q \<mapsto> 0] {#} = {#q#}" using E(1) by (simp add: all_refs_def own_def pgs_def)
  have "free_pages s = pages vm0 - {q}" using pool.accountedD(3) [OF A] by (auto simp: free_pages_def pg o split: if_splits)
  moreover have "q \<in> pages vm0" using q(4) B(3) by simp
  ultimately have "card (free_pages s) = 4" by (simp add: vm0_pages card_Diff_singleton)
  then show ?thesis using q(2) R E(2) by blast
qed

lemma vm0_grow:
  "\<exists>q s. q \<noteq> 0 \<and> vm_reach \<lparr>vmem = s, usize = [q \<mapsto> 1], kpages = {#}\<rparr> \<and> ubyte s q 0 = Some 0 \<and>
     pte_V (uentry s q 0) \<and> pte_U (uentry s q 0) \<and> pte_W (uentry s q 0)"
proof -
  have c: "(0 :: nat) < NCPU" by simp
  obtain q s where q: "q \<noteq> 0" and R: "vm_reach \<lparr>vmem = s, usize = [q \<mapsto> 0], kpages = {#}\<rparr>" and e: "\<forall>v. pte_of (mem s) q v = 0"
    and f: "card (free_pages s) = 4" using vm0_create by blast
  have p: "pgs 0 = 0" "pgs 1 = 1" by (simp_all add: pgs_def)
  note g = spacesD(3) [OF conjunct1 [OF vm_reach_good [OF R]], of q 0, simplified]
  from uvmalloc_spec [OF g c, of 1] e f p obtain s' where run: "uvmalloc 0 q 0 1 s = (BRet 1, s')"
    and fr: "fresh_page (mem s') q (frames (mem s') q {..<1} + rest s [q \<mapsto> 0] {#} q) 0" by auto
  have "vm_step q \<lparr>vmem = s, usize = [q \<mapsto> 0], kpages = {#}\<rparr> \<lparr>vmem = s', usize = (if (1 :: nat) = 0 then [q \<mapsto> 0] else [q \<mapsto> 0, q \<mapsto> 1]), kpages = {#}\<rparr>"
    by (rule vm_step.grow [OF c _ _ _ _ run]) (use e in simp_all)
  then have R': "vm_reach \<lparr>vmem = s', usize = [q \<mapsto> 1], kpages = {#}\<rparr>" using vm_reach.step [OF R] by simp
  from fr obtain pa where pa: "pte_of (mem s') q 0 = leaf pa 30" "pa < 2 ^ 56" "pa mod PGSIZE = 0" unfolding fresh_page_def by (elim exE conjE) (rule that)
  have b: "bit (30 :: nat) 2" "bit (30 :: nat) 4" by code_simp+
  have "pte_V (uentry s' q 0)" "pte_U (uentry s' q 0)" "pte_W (uentry s' q 0)"
    using leaf_parts(4) [OF pa(2,3), of 30] b by (simp_all add: uentry_def pa(1))
  then show ?thesis using q R' fresh_byte [of s' q _ 0] fr by auto
qed





end
