(* ===== verification/Slots.thy ===== *)
theory Slots
  imports Prelude
begin

section \<open>Tables of slots with a key\<close>

text \<open>
  Many tables of the kernel are arrays of slots: a slot is in use or not, a slot in use has a key, and a lookup scans for
  the first slot in use with the wanted key. The locale says what such a table stores: a finite map from keys to slots, as long as no two
  slots in use have the same key.
\<close>

locale slot_table =
  fixes in_use :: "'s \<Rightarrow> bool" and key :: "'s \<Rightarrow> 'k"
begin

definition unique :: "'s list \<Rightarrow> bool" where
  "unique t \<longleftrightarrow> (\<forall>i < length t. \<forall>j < length t. in_use (t ! i) \<and> in_use (t ! j) \<and> key (t ! i) = key (t ! j) \<longrightarrow> i = j)"

definition entry :: "'s list \<Rightarrow> 'k \<rightharpoonup> 's" where
  "entry t k = map_option (\<lambda>i. t ! i) (find_idx (\<lambda>s. in_use s \<and> key s = k) t)"

lemma find_unique:
  assumes "unique t" "i < length t" "in_use (t ! i)"
  shows "find_idx (\<lambda>s. in_use s \<and> key s = key (t ! i)) t = Some i"
proof (rule find_idx_SomeI [OF assms(2)], simp add: assms(3), intro allI impI)
  fix j assume "j < i"
  then show "\<not> (in_use (t ! j) \<and> key (t ! j) = key (t ! i))"
    using assms(1) [unfolded unique_def, rule_format, of j i] assms(2,3) by auto
qed

lemma entry_Some: "unique t \<Longrightarrow> entry t k = Some s \<longleftrightarrow> (\<exists>i < length t. t ! i = s \<and> in_use s \<and> key s = k)"
proof
  assume u: "unique t" and "\<exists>i < length t. t ! i = s \<and> in_use s \<and> key s = k"
  then obtain i where "i < length t" "t ! i = s" "in_use s" "key s = k" by blast
  with find_unique [OF u, of i] show "entry t k = Some s" by (simp add: entry_def)
next
  assume "entry t k = Some s"
  then obtain i where "find_idx (\<lambda>s. in_use s \<and> key s = k) t = Some i" "s = t ! i" by (auto simp: entry_def)
  then show "\<exists>i < length t. t ! i = s \<and> in_use s \<and> key s = k" by (auto dest: find_idx_SomeD)
qed

lemma entry_None: "entry t k = None \<longleftrightarrow> (\<forall>i < length t. in_use (t ! i) \<longrightarrow> key (t ! i) \<noteq> k)"
  by (auto simp: entry_def find_idx_None_iff)

lemma entry_find: "find_idx (\<lambda>s. in_use s \<and> key s = k) t = Some i \<Longrightarrow> entry t k = Some (t ! i)"
  by (simp add: entry_def)

lemma entry_idx: "find_idx (\<lambda>s. in_use s \<and> key s = k) t = None \<longleftrightarrow> entry t k = None"
  by (simp add: entry_def)

lemma unique_upd:
  assumes "unique t" "i < length t" "in_use s \<Longrightarrow> entry t (key s) = None \<or> in_use (t ! i) \<and> key (t ! i) = key s"
  shows "unique (t[i := s])"
proof -
  have o: "j = i" if "j < length t" "in_use (t ! j)" "in_use s" "key (t ! j) = key s" for j
    using assms(3) [OF that(3)] that assms(1,2) by (auto simp: entry_None unique_def)
  show ?thesis unfolding unique_def
  proof (intro allI impI)
    fix a b assume a: "a < length (t[i := s])" "b < length (t[i := s])"
      "in_use (t[i := s] ! a) \<and> in_use (t[i := s] ! b) \<and> key (t[i := s] ! a) = key (t[i := s] ! b)"
    have l: "a < length t" "b < length t" using a(1,2) by simp_all
    consider "a = i" "b = i" | "a = i" "b \<noteq> i" | "a \<noteq> i" "b = i" | "a \<noteq> i" "b \<noteq> i" by blast
    then show "a = b"
    proof cases
      case 2
      then show ?thesis using a(3) o [OF l(2)] assms(2) by simp
    next
      case 3
      then show ?thesis using a(3) o [OF l(1)] assms(2) by simp
    next
      case 4
      then have "in_use (t ! a) \<and> in_use (t ! b) \<and> key (t ! a) = key (t ! b)" using a(3) by simp
      then show ?thesis using assms(1) l unfolding unique_def by blast
    qed simp
  qed
qed

text \<open>A slot is put in: a free one, or the one that has the key already.\<close>

lemma entry_put:
  assumes "unique t" "i < length t" "in_use s" "entry t (key s) = None \<and> \<not> in_use (t ! i) \<or> in_use (t ! i) \<and> key (t ! i) = key s"
  shows "entry (t[i := s]) = (entry t)(key s \<mapsto> s)"
proof
  fix k
  have u: "unique (t[i := s])" by (rule unique_upd [OF assms(1,2)]) (use assms(4) in blast)
  show "entry (t[i := s]) k = ((entry t)(key s \<mapsto> s)) k"
  proof (cases "k = key s")
    case True
    have "entry (t[i := s]) (key s) = Some s" unfolding entry_Some [OF u] using assms(2,3) by (intro exI [of _ i]) simp
    then show ?thesis using True by simp
  next
    case False
    have "entry (t[i := s]) k = Some x \<longleftrightarrow> entry t k = Some x" for x
      unfolding entry_Some [OF u] entry_Some [OF assms(1)] using False assms(2,4) by (auto simp: nth_list_update split: if_splits)
    then have "entry (t[i := s]) k = entry t k" by (metis option.exhaust)
    then show ?thesis using False by simp
  qed
qed

text \<open>A slot is given up.\<close>

lemma entry_drop:
  assumes "unique t" "i < length t" "in_use (t ! i)" "\<not> in_use s"
  shows "unique (t[i := s])" "entry (t[i := s]) = (entry t)(key (t ! i) := None)"
proof -
  show u: "unique (t[i := s])" by (rule unique_upd [OF assms(1,2)]) (use assms(4) in blast)
  show "entry (t[i := s]) = (entry t)(key (t ! i) := None)"
  proof
    fix k
    show "entry (t[i := s]) k = ((entry t)(key (t ! i) := None)) k"
    proof (cases "k = key (t ! i)")
      case True
      have "entry (t[i := s]) k = None" unfolding entry_None True using assms by (auto simp: nth_list_update unique_def)
      then show ?thesis using True by simp
    next
      case False
      have "entry (t[i := s]) k = Some x \<longleftrightarrow> entry t k = Some x" for x
        unfolding entry_Some [OF u] entry_Some [OF assms(1)] using False assms(2,4) by (auto simp: nth_list_update split: if_splits)
      then have "entry (t[i := s]) k = entry t k" by (metis option.exhaust)
      then show ?thesis using False by simp
    qed
  qed
qed

lemma entry_inj: "unique t \<Longrightarrow> i < length t \<Longrightarrow> in_use (t ! i) \<Longrightarrow> entry t (key (t ! i)) = Some (t ! i)"
  using entry_Some by blast

text \<open>The keys of the slots in use, in the order of the table, are the domain of the map.\<close>

lemma keys_distinct: "unique t \<Longrightarrow> distinct (map key (filter in_use t))"
proof (induction t)
  case (Cons s t)
  have "i = j" if "i < length t" "j < length t" "in_use (t ! i)" "in_use (t ! j)" "key (t ! i) = key (t ! j)" for i j
    using Cons.prems [unfolded unique_def, rule_format, of "Suc i" "Suc j"] that by simp
  then have "unique t" unfolding unique_def by blast
  moreover have "key s \<noteq> key u" if "in_use s" "u \<in> set t" "in_use u" for u
  proof -
    obtain j where "j < length t" "t ! j = u" using \<open>u \<in> set t\<close> by (auto simp: in_set_conv_nth)
    then show ?thesis using Cons.prems [unfolded unique_def, rule_format, of 0 "Suc j"] that by auto
  qed
  ultimately show ?case using Cons.IH by auto
qed simp

lemma keys_dom: "unique t \<Longrightarrow> set (map key (filter in_use t)) = dom (entry t)"
  by (auto simp: dom_def entry_Some in_set_conv_nth image_iff)

text \<open>There is a free slot as long as the map is smaller than the table.\<close>

lemma free_slot:
  assumes "unique t"
  shows "(\<exists>i < length t. \<not> in_use (t ! i)) \<longleftrightarrow> card (dom (entry t)) < length t" "finite (dom (entry t))"
proof -
  let ?U = "{i. i < length t \<and> in_use (t ! i)}"
  have d: "dom (entry t) = (\<lambda>i. key (t ! i)) ` ?U"
    by (auto simp: dom_def image_iff entry_Some [OF assms])
  have "inj_on (\<lambda>i. key (t ! i)) ?U" using assms by (auto simp: inj_on_def unique_def)
  then have c: "card (dom (entry t)) = card ?U" unfolding d by (rule card_image)
  show "finite (dom (entry t))" unfolding d by simp
  show "(\<exists>i < length t. \<not> in_use (t ! i)) \<longleftrightarrow> card (dom (entry t)) < length t"
  proof
    assume "\<exists>i < length t. \<not> in_use (t ! i)"
    then have "?U \<subset> {..<length t}" by auto
    from psubset_card_mono [OF _ this] show "card (dom (entry t)) < length t" unfolding c by simp
  next
    assume a: "card (dom (entry t)) < length t"
    show "\<exists>i < length t. \<not> in_use (t ! i)"
    proof (rule ccontr)
      assume "\<not> (\<exists>i < length t. \<not> in_use (t ! i))"
      then have "?U = {..<length t}" by auto
      then have "card ?U = length t" by (simp only: card_lessThan)
      then show False using a c by simp
    qed
  qed
qed

end

end
