(* ===== verification/Xattr.thy ===== *)
theory Xattr
  imports Slots Kstring
begin

section \<open>Extended attributes\<close>

text \<open>
  \<^verbatim>\<open>kernel/filesystem/xattr.c\<close>: a table of up to 64 files, each with up to 8 attributes. A C string is the list of its bytes before the
  terminating zero; a value is a buffer of 256 bytes of which the first \<^verbatim>\<open>value_len\<close> count. The table implements a map from files to
  maps from names to values, within its capacity.
\<close>

abbreviation (input) XATTR_NAME_MAX :: nat where "XATTR_NAME_MAX \<equiv> 64"
abbreviation (input) XATTR_VALUE_MAX :: int where "XATTR_VALUE_MAX \<equiv> 256"

record xattr_entry =
  xe_name :: "nat list"
  xe_value :: "nat list"
  xe_len :: nat
  xe_used :: bool

record xattr_inode =
  xi_dev :: nat
  xi_inum :: nat
  xi_attrs :: "xattr_entry list"
  xi_used :: bool

type_synonym xtable = "xattr_inode list"

subsection \<open>Strings as lists\<close>

fun sncmp :: "nat \<Rightarrow> nat list \<Rightarrow> nat list \<Rightarrow> int" where
  "sncmp 0 p q = 0"
| "sncmp (Suc n) p q =
     (let a = (case p of [] \<Rightarrow> 0 | x # _ \<Rightarrow> x); b = (case q of [] \<Rightarrow> 0 | x # _ \<Rightarrow> x) in
      if a \<noteq> 0 \<and> a = b then sncmp n (tl p) (tl q) else int a - int b)"

text \<open>It is \<^verbatim>\<open>strncmp\<close> on the strings that the two pointers show.\<close>

lemma strncmp_cstr: "strncmp m p q n = sncmp n (cstr m p n) (cstr m q n)"
proof (induction n arbitrary: p q)
  case (Suc n)
  show ?case
  proof (cases "m p = 0")
    case True
    then show ?thesis by (cases "m q = 0") (simp_all add: cstr_Suc)
  next
    case False
    then show ?thesis using Suc [of "p + 1" "q + 1"] by (cases "m q = 0") (simp_all add: cstr_Suc)
  qed
qed simp

lemma sncmp_eq: "0 \<notin> set p \<Longrightarrow> 0 \<notin> set q \<Longrightarrow> length p < n \<Longrightarrow> sncmp n p q = 0 \<longleftrightarrow> p = q"
proof (induction n p q rule: sncmp.induct)
  case (2 n p q)
  then show ?case by (cases p; cases q) (auto simp: Let_def)
qed simp

subsection \<open>Operations\<close>

definition xattrinit :: "xtable \<Rightarrow> xtable" where
  "xattrinit t = map (\<lambda>x. x\<lparr>xi_used := False\<rparr>) t"

definition xattr_find_or_create :: "nat \<Rightarrow> nat \<Rightarrow> bool \<Rightarrow> xtable \<Rightarrow> nat option \<times> xtable" where
  "xattr_find_or_create dev inum create t =
     (case find_idx (\<lambda>x. xi_used x \<and> xi_dev x = dev \<and> xi_inum x = inum) t of
        Some i \<Rightarrow> (Some i, t)
      | None \<Rightarrow>
          (case find_idx (\<lambda>x. \<not> xi_used x) t of
             Some i \<Rightarrow>
               if create then
                 (Some i, upd_at t i (\<lambda>x. x\<lparr>xi_dev := dev, xi_inum := inum, xi_used := True,
                    xi_attrs := map (\<lambda>e. e\<lparr>xe_used := False\<rparr>) (xi_attrs x)\<rparr>))
               else (None, t)
           | None \<Rightarrow> (None, t)))"

definition xattr_named :: "nat list \<Rightarrow> xattr_entry list \<Rightarrow> nat option" where
  "xattr_named name es = find_idx (\<lambda>e. xe_used e \<and> sncmp XATTR_NAME_MAX (xe_name e) name = 0) es"

definition upd_attrs :: "nat \<Rightarrow> (xattr_entry list \<Rightarrow> xattr_entry list) \<Rightarrow> xtable \<Rightarrow> xtable" where
  "upd_attrs i f t = upd_at t i (\<lambda>x. x\<lparr>xi_attrs := f (xi_attrs x)\<rparr>)"

definition put_value :: "nat list \<Rightarrow> nat \<Rightarrow> xattr_entry \<Rightarrow> xattr_entry" where
  "put_value value sz e = e\<lparr>xe_value := take sz value @ drop sz (xe_value e), xe_len := sz\<rparr>"

definition xattr_set :: "nat \<Rightarrow> nat \<Rightarrow> nat list \<Rightarrow> nat list \<Rightarrow> int \<Rightarrow> xtable \<Rightarrow> int \<times> xtable" where
  "xattr_set dev inum name value sz t =
     (if length name = 0 \<or> length name \<ge> XATTR_NAME_MAX then (- 1, t)
      else if sz < 0 \<or> sz > XATTR_VALUE_MAX then (- 1, t)
      else
        (case xattr_find_or_create dev inum True t of
           (None, t) \<Rightarrow> (- 1, t)
         | (Some xi, t) \<Rightarrow>
             (case xattr_named name (xi_attrs (t ! xi)) of
                Some i \<Rightarrow> (0, upd_attrs xi (\<lambda>es. upd_at es i (put_value value (nat sz))) t)
              | None \<Rightarrow>
                  (case find_idx (\<lambda>e. \<not> xe_used e) (xi_attrs (t ! xi)) of
                     Some i \<Rightarrow>
                       (0, upd_attrs xi (\<lambda>es. upd_at es i (\<lambda>e. (put_value value (nat sz) e)\<lparr>xe_name := name, xe_used := True\<rparr>)) t)
                   | None \<Rightarrow> (- 1, t)))))"

text \<open>The result and the bytes stored in the caller's buffer.\<close>

definition xattr_get :: "nat \<Rightarrow> nat \<Rightarrow> nat list \<Rightarrow> int \<Rightarrow> xtable \<Rightarrow> int \<times> nat list" where
  "xattr_get dev inum name sz t =
     (case fst (xattr_find_or_create dev inum False t) of
        None \<Rightarrow> (- 1, [])
      | Some xi \<Rightarrow>
          (case xattr_named name (xi_attrs (t ! xi)) of
             None \<Rightarrow> (- 1, [])
           | Some i \<Rightarrow>
               (let e = xi_attrs (t ! xi) ! i in
                if sz = 0 then (int (xe_len e), [])
                else if sz < int (xe_len e) then (- 1, [])
                else (int (xe_len e), take (xe_len e) (xe_value e)))))"

definition xattr_clear :: "nat \<Rightarrow> nat \<Rightarrow> xtable \<Rightarrow> xtable" where
  "xattr_clear dev inum t =
     (case fst (xattr_find_or_create dev inum False t) of
        None \<Rightarrow> t
      | Some xi \<Rightarrow> upd_at t xi (\<lambda>x. x\<lparr>xi_used := False\<rparr>))"

definition xattr_total :: "xattr_entry list \<Rightarrow> int" where
  "xattr_total es = sum_list (map (\<lambda>e. if xe_used e then int (length (xe_name e)) + 1 else 0) es)"

definition xattr_names :: "xattr_entry list \<Rightarrow> nat list" where
  "xattr_names es = concat (map (\<lambda>e. if xe_used e then xe_name e @ [0] else []) es)"

definition xattr_list :: "nat \<Rightarrow> nat \<Rightarrow> int \<Rightarrow> xtable \<Rightarrow> int \<times> nat list" where
  "xattr_list dev inum sz t =
     (case fst (xattr_find_or_create dev inum False t) of
        None \<Rightarrow> (0, [])
      | Some xi \<Rightarrow>
          (let es = xi_attrs (t ! xi); total = xattr_total es in
           if sz = 0 then (total, [])
           else if sz < total then (- 1, [])
           else (total, xattr_names es)))"

definition xattr_remove :: "nat \<Rightarrow> nat \<Rightarrow> nat list \<Rightarrow> xtable \<Rightarrow> int \<times> xtable" where
  "xattr_remove dev inum name t =
     (case fst (xattr_find_or_create dev inum False t) of
        None \<Rightarrow> (- 1, t)
      | Some xi \<Rightarrow>
          (case xattr_named name (xi_attrs (t ! xi)) of
             None \<Rightarrow> (- 1, t)
           | Some i \<Rightarrow>
               (let t = upd_attrs xi (\<lambda>es. upd_at es i (\<lambda>e. e\<lparr>xe_used := False\<rparr>)) t in
                (0, if list_ex xe_used (xi_attrs (t ! xi)) then t else upd_at t xi (\<lambda>x. x\<lparr>xi_used := False\<rparr>)))))"

subsection \<open>The map that a table stores\<close>

interpretation xa: slot_table xe_used xe_name .

interpretation xi: slot_table xi_used "\<lambda>x. (xi_dev x, xi_inum x)" .

definition attr_ok :: "xattr_entry \<Rightarrow> bool" where
  "attr_ok e \<longleftrightarrow> xe_name e \<noteq> [] \<and> length (xe_name e) < XATTR_NAME_MAX \<and> 0 \<notin> set (xe_name e) \<and> xe_len e \<le> 256"

definition attrs_ok :: "xattr_entry list \<Rightarrow> bool" where
  "attrs_ok es \<longleftrightarrow> length es = 8 \<and> xa.unique es \<and> (\<forall>e \<in> set es. length (xe_value e) = 256 \<and> (xe_used e \<longrightarrow> attr_ok e))"

definition file_ok :: "xattr_inode \<Rightarrow> bool" where
  "file_ok x \<longleftrightarrow> length (xi_attrs x) = 8 \<and> (\<forall>e \<in> set (xi_attrs x). length (xe_value e) = 256) \<and>
     (xi_used x \<longrightarrow> attrs_ok (xi_attrs x) \<and> list_ex xe_used (xi_attrs x))"

definition xtable_ok :: "xtable \<Rightarrow> bool" where
  "xtable_ok t \<longleftrightarrow> length t = 64 \<and> xi.unique t \<and> (\<forall>x \<in> set t. file_ok x)"

definition attrs :: "xattr_entry list \<Rightarrow> nat list \<rightharpoonup> nat list" where
  "attrs es name = map_option (\<lambda>e. take (xe_len e) (xe_value e)) (xa.entry es name)"

definition xattrs :: "xtable \<Rightarrow> nat \<times> nat \<Rightarrow> nat list \<rightharpoonup> nat list" where
  "xattrs t f = (case xi.entry t f of None \<Rightarrow> Map.empty | Some x \<Rightarrow> attrs (xi_attrs x))"

lemma find_idx_cong: "(\<And>x. x \<in> set xs \<Longrightarrow> P x = Q x) \<Longrightarrow> find_idx P xs = find_idx Q xs"
  by (induction xs) auto

lemma named_find: "attrs_ok es \<Longrightarrow> 0 \<notin> set name \<Longrightarrow> xattr_named name es = find_idx (\<lambda>e. xe_used e \<and> xe_name e = name) es"
  unfolding xattr_named_def
proof (rule find_idx_cong)
  fix e assume a: "attrs_ok es" "0 \<notin> set name" "e \<in> set es"
  then have "xe_used e \<Longrightarrow> sncmp XATTR_NAME_MAX (xe_name e) name = 0 \<longleftrightarrow> xe_name e = name" by (intro sncmp_eq) (auto simp: attrs_ok_def attr_ok_def)
  then show "(xe_used e \<and> sncmp XATTR_NAME_MAX (xe_name e) name = 0) = (xe_used e \<and> xe_name e = name)" by blast
qed

lemma named_cases:
  assumes "attrs_ok es" "0 \<notin> set name"
  obtains (no) "xattr_named name es = None" "attrs es name = None" "xa.entry es name = None"
  | (yes) i where "xattr_named name es = Some i" "i < 8" "xe_used (es ! i)" "xe_name (es ! i) = name" "xa.entry es name = Some (es ! i)"
      "attrs es name = Some (take (xe_len (es ! i)) (xe_value (es ! i)))"
proof (cases "xattr_named name es")
  case None
  then show thesis using named_find [OF assms] xa.entry_idx [of name es] by (intro no) (simp_all add: attrs_def)
next
  case (Some i)
  then have f: "find_idx (\<lambda>e. xe_used e \<and> xe_name e = name) es = Some i" by (simp add: named_find [OF assms])
  from find_idx_SomeD [OF f] xa.entry_find [OF f] show thesis using Some assms(1) by (intro yes) (auto simp: attrs_ok_def attrs_def)
qed

lemma find_file: "fst (xattr_find_or_create dev inum False t) = find_idx (\<lambda>x. xi_used x \<and> (xi_dev x, xi_inum x) = (dev, inum)) t"
  by (simp add: xattr_find_or_create_def split: option.split)

lemma file_cases:
  assumes "xtable_ok t"
  obtains (no) "fst (xattr_find_or_create dev inum False t) = None" "xi.entry t (dev, inum) = None" "xattrs t (dev, inum) = Map.empty"
  | (yes) x where "fst (xattr_find_or_create dev inum False t) = Some x" "x < 64" "xi_used (t ! x)" "xi_dev (t ! x) = dev" "xi_inum (t ! x) = inum"
      "xi.entry t (dev, inum) = Some (t ! x)" "xattrs t (dev, inum) = attrs (xi_attrs (t ! x))" "attrs_ok (xi_attrs (t ! x))"
proof (cases "fst (xattr_find_or_create dev inum False t)")
  case None
  then show thesis using xi.entry_idx [of "(dev, inum)" t] by (intro no) (simp_all add: find_file xattrs_def)
next
  case (Some x)
  then have f: "find_idx (\<lambda>x. xi_used x \<and> (xi_dev x, xi_inum x) = (dev, inum)) t = Some x" by (simp add: find_file)
  note D = find_idx_SomeD [OF f] and E = xi.entry_find [OF f]
  have "t ! x \<in> set t" "x < 64" using D assms by (auto simp: xtable_ok_def)
  then show thesis using Some D E assms by (intro yes [of x]) (auto simp: xtable_ok_def file_ok_def xattrs_def)
qed

text \<open>One attribute is set or removed.\<close>

lemma put_attr:
  assumes es: "attrs_ok es" and i: "i < 8" and e: "xe_used e" "attr_ok e" "length (xe_value e) = 256"
    and c: "xa.entry es (xe_name e) = None \<and> \<not> xe_used (es ! i) \<or> xe_used (es ! i) \<and> xe_name (es ! i) = xe_name e"
  shows "attrs_ok (es[i := e])" "attrs (es[i := e]) = (attrs es)(xe_name e \<mapsto> take (xe_len e) (xe_value e))" "list_ex xe_used (es[i := e])"
proof -
  have l: "i < length es" and u: "xa.unique es" using es i by (simp_all add: attrs_ok_def)
  have "xa.unique (es[i := e])" by (rule xa.unique_upd [OF u l]) (use c in blast)
  moreover have "\<forall>e \<in> set (es[i := e]). length (xe_value e) = 256 \<and> (xe_used e \<longrightarrow> attr_ok e)"
    using es e by (intro ball_set_upd) (simp_all add: attrs_ok_def)
  ultimately show "attrs_ok (es[i := e])" using es by (simp add: attrs_ok_def)
  show "attrs (es[i := e]) = (attrs es)(xe_name e \<mapsto> take (xe_len e) (xe_value e))"
    by (auto simp: fun_eq_iff attrs_def xa.entry_put [OF u l e(1) c])
  have "e \<in> set (es[i := e])" using l by (rule set_update_memI)
  then show "list_ex xe_used (es[i := e])" using e(1) by (auto simp: list_ex_iff)
qed

lemma drop_attr:
  assumes es: "attrs_ok es" and i: "i < 8" "xe_used (es ! i)"
  defines "es' \<equiv> es[i := (es ! i)\<lparr>xe_used := False\<rparr>]"
  shows "attrs_ok es'" "attrs es' = (attrs es)(xe_name (es ! i) := None)"
proof -
  let ?e = "(es ! i)\<lparr>xe_used := False\<rparr>"
  have l: "i < length es" and u: "xa.unique es" using es i by (simp_all add: attrs_ok_def)
  have d: "xa.unique es'" "xa.entry es' = (xa.entry es)(xe_name (es ! i) := None)"
    unfolding es'_def by (rule xa.entry_drop [OF u l i(2)], simp)+
  have "\<forall>e \<in> set es'. length (xe_value e) = 256 \<and> (xe_used e \<longrightarrow> attr_ok e)"
    unfolding es'_def using es l by (intro ball_set_upd) (simp_all add: attrs_ok_def)
  then show "attrs_ok es'" using es d(1) by (simp add: attrs_ok_def es'_def)
  show "attrs es' = (attrs es)(xe_name (es ! i) := None)" by (auto simp: fun_eq_iff attrs_def d(2))
qed

text \<open>The attributes of one file are replaced; the slot is the one of the file, or free.\<close>

lemma put_file:
  assumes t: "xtable_ok t" and x: "x < 64" and r: "xi_used r" "attrs_ok (xi_attrs r)" "list_ex xe_used (xi_attrs r)"
    and c: "xi.entry t (xi_dev r, xi_inum r) = None \<and> \<not> xi_used (t ! x) \<or> xi_used (t ! x) \<and> xi_dev (t ! x) = xi_dev r \<and> xi_inum (t ! x) = xi_inum r"
  shows "xtable_ok (t[x := r])" "xattrs (t[x := r]) = (xattrs t)((xi_dev r, xi_inum r) := attrs (xi_attrs r))"
proof -
  have l: "x < length t" and u: "xi.unique t" using t x by (simp_all add: xtable_ok_def)
  have u': "xi.unique (t[x := r])" by (rule xi.unique_upd [OF u l]) (use c in blast)
  have e: "xi.entry (t[x := r]) = (xi.entry t)((xi_dev r, xi_inum r) \<mapsto> r)" by (rule xi.entry_put [OF u l r(1)]) (use c in simp)
  have "file_ok r" using r by (simp add: file_ok_def attrs_ok_def)
  then have "\<forall>x \<in> set (t[x := r]). file_ok x" using t by (intro ball_set_upd) (simp_all add: xtable_ok_def)
  then show "xtable_ok (t[x := r])" using t u' by (simp add: xtable_ok_def)
  show "xattrs (t[x := r]) = (xattrs t)((xi_dev r, xi_inum r) := attrs (xi_attrs r))" by (auto simp: fun_eq_iff xattrs_def e)
qed

lemma drop_file:
  assumes t: "xtable_ok t" and x: "x < 64" "xi_used (t ! x)" and r: "\<not> xi_used r" "length (xi_attrs r) = 8" "\<forall>e \<in> set (xi_attrs r). length (xe_value e) = 256"
  shows "xtable_ok (t[x := r])" "xattrs (t[x := r]) = (xattrs t)((xi_dev (t ! x), xi_inum (t ! x)) := Map.empty)"
proof -
  have l: "x < length t" and u: "xi.unique t" using t x by (simp_all add: xtable_ok_def)
  note d = xi.entry_drop [OF u l x(2) r(1)]
  have "file_ok r" using r by (simp add: file_ok_def)
  then have "\<forall>x \<in> set (t[x := r]). file_ok x" using t by (intro ball_set_upd) (simp_all add: xtable_ok_def)
  then show "xtable_ok (t[x := r])" using t d(1) by (simp add: xtable_ok_def)
  show "xattrs (t[x := r]) = (xattrs t)((xi_dev (t ! x), xi_inum (t ! x)) := Map.empty)" by (auto simp: fun_eq_iff xattrs_def d(2))
qed

subsection \<open>The operations implement the map\<close>

text \<open>An attribute fits when the file is known or a file slot is free, and the name is known or an attribute slot of the file is free.\<close>

definition fits :: "nat \<times> nat \<Rightarrow> nat list \<Rightarrow> xtable \<Rightarrow> bool" where
  "fits f name t \<longleftrightarrow> (xattrs t f \<noteq> Map.empty \<or> card {g. xattrs t g \<noteq> Map.empty} < 64) \<and>
     (name \<in> dom (xattrs t f) \<or> card (dom (xattrs t f)) < 8)"

lemma dom_attrs: "dom (attrs es) = dom (xa.entry es)"
  by (auto simp: attrs_def dom_def)

lemma free_attr: "attrs_ok es \<Longrightarrow> find_idx (\<lambda>e. \<not> xe_used e) es = None \<longleftrightarrow> \<not> card (dom (attrs es)) < 8"
  using xa.free_slot(1) [of es] by (auto simp: dom_attrs attrs_ok_def find_idx_None_iff)

lemma some_attr: "attrs_ok es \<Longrightarrow> attrs es = Map.empty \<longleftrightarrow> \<not> list_ex xe_used es"
proof -
  assume "attrs_ok es"
  then have u: "xa.unique es" by (simp add: attrs_ok_def)
  have "attrs es = Map.empty \<longleftrightarrow> (\<forall>k. xa.entry es k = None)" by (auto simp: fun_eq_iff attrs_def)
  also have "\<dots> \<longleftrightarrow> \<not> list_ex xe_used es" unfolding xa.entry_None list_ex_iff by (metis in_set_conv_nth)
  finally show ?thesis .
qed

lemma known_files: "xtable_ok t \<Longrightarrow> xattrs t f \<noteq> Map.empty \<longleftrightarrow> f \<in> dom (xi.entry t)"
proof -
  assume t: "xtable_ok t"
  show ?thesis
  proof (cases "xi.entry t f")
    case (Some x)
    then have "x \<in> set t" "xi_used x" using t by (auto simp: xtable_ok_def xi.entry_Some in_set_conv_nth)
    then have "attrs_ok (xi_attrs x)" "list_ex xe_used (xi_attrs x)" using t by (auto simp: xtable_ok_def file_ok_def)
    then show ?thesis using Some by (simp add: xattrs_def some_attr dom_def)
  qed (simp add: xattrs_def dom_def)
qed

lemma free_file: "xtable_ok t \<Longrightarrow> find_idx (\<lambda>x. \<not> xi_used x) t = None \<longleftrightarrow> \<not> card {g. xattrs t g \<noteq> Map.empty} < 64"
  using xi.free_slot(1) [of t] by (auto simp: known_files xtable_ok_def find_idx_None_iff)

text \<open>\<^verbatim>\<open>xattr_find_or_create\<close> gives the slot of the file, or makes a free slot the file's, with no attributes.\<close>

lemma create_cases:
  assumes t: "xtable_ok t"
  obtains (old) x where "xattr_find_or_create d i True t = (Some x, t)" "x < 64" "xi_used (t ! x)" "xi_dev (t ! x) = d" "xi_inum (t ! x) = i"
      "attrs_ok (xi_attrs (t ! x))" "xattrs t (d, i) = attrs (xi_attrs (t ! x))" "xattrs t (d, i) \<noteq> Map.empty"
  | (new) x es where "xattr_find_or_create d i True t = (Some x, t[x := (t ! x)\<lparr>xi_dev := d, xi_inum := i, xi_used := True, xi_attrs := es\<rparr>])"
      "x < 64" "\<not> xi_used (t ! x)" "xi.entry t (d, i) = None" "attrs_ok es" "attrs es = Map.empty" "xattrs t (d, i) = Map.empty"
      "card {g. xattrs t g \<noteq> Map.empty} < 64"
  | (full) "xattr_find_or_create d i True t = (None, t)" "xattrs t (d, i) = Map.empty" "\<not> card {g. xattrs t g \<noteq> Map.empty} < 64"
proof (rule file_cases [OF t, of d i])
  fix x assume a: "fst (xattr_find_or_create d i False t) = Some x" "x < 64" "xi_used (t ! x)" "xi_dev (t ! x) = d" "xi_inum (t ! x) = i"
    "xi.entry t (d, i) = Some (t ! x)" "xattrs t (d, i) = attrs (xi_attrs (t ! x))" "attrs_ok (xi_attrs (t ! x))"
  have "find_idx (\<lambda>x. xi_used x \<and> xi_dev x = d \<and> xi_inum x = i) t = Some x" using a(1) unfolding find_file by simp
  then have "xattr_find_or_create d i True t = (Some x, t)" by (simp add: xattr_find_or_create_def)
  moreover have "xattrs t (d, i) \<noteq> Map.empty" using a(6) by (simp add: known_files [OF t] dom_def)
  ultimately show thesis using a by (intro old) simp_all
next
  assume a: "fst (xattr_find_or_create d i False t) = None" "xi.entry t (d, i) = None" "xattrs t (d, i) = Map.empty"
  have n: "find_idx (\<lambda>x. xi_used x \<and> xi_dev x = d \<and> xi_inum x = i) t = None" using a(1) unfolding find_file by simp
  show thesis
  proof (cases "find_idx (\<lambda>x. \<not> xi_used x) t")
    case None
    then show thesis using a n free_file [OF t] by (intro full) (simp_all add: xattr_find_or_create_def)
  next
    case (Some x)
    define es where "es = map (\<lambda>e. e\<lparr>xe_used := False\<rparr>) (xi_attrs (t ! x))"
    have x: "x < 64" "\<not> xi_used (t ! x)" using find_idx_SomeD [OF Some] t by (auto simp: xtable_ok_def)
    then have "file_ok (t ! x)" using t by (simp add: xtable_ok_def)
    then have e: "attrs_ok es" by (auto simp: es_def attrs_ok_def file_ok_def xa.unique_def)
    then have "attrs es = Map.empty" by (simp add: some_attr) (auto simp: es_def list_ex_iff)
    then show thesis using a n free_file [OF t] Some x e t
      by (intro new [of x es]) (simp_all add: xattr_find_or_create_def es_def xtable_ok_def)
  qed
qed


text \<open>\<^verbatim>\<open>xattr_set\<close>.\<close>

lemma store_attr:
  assumes es: "attrs_ok es" and n: "name \<noteq> []" "length name < 64" "0 \<notin> set name" and v: "s \<le> 256" "s \<le> length value"
    and c: "xattr_named name es = Some i \<and> es' = es[i := put_value value s (es ! i)] \<or>
      xattr_named name es = None \<and> find_idx (\<lambda>e. \<not> xe_used e) es = Some i \<and>
        es' = es[i := (put_value value s (es ! i))\<lparr>xe_name := name, xe_used := True\<rparr>]"
  shows "attrs_ok es' \<and> attrs es' = (attrs es)(name \<mapsto> take s value) \<and> list_ex xe_used es'"
proof -
  have i: "i < 8"
  proof (rule named_cases [OF es n(3)])
    assume "xattr_named name es = None"
    then have "i < length es" using c find_idx_SomeD by fastforce
    then show ?thesis using es by (simp add: attrs_ok_def)
  qed (use c in auto)
  let ?v = "take s value @ drop s (xe_value (es ! i))"
  have "length (xe_value (es ! i)) = 256" using es i by (simp add: attrs_ok_def)
  then have l: "length ?v = 256" "take s ?v = take s value" using v by simp_all
  show ?thesis
  proof (rule named_cases [OF es n(3)])
    assume no: "xattr_named name es = None" "xa.entry es name = None"
    let ?e = "(put_value value s (es ! i))\<lparr>xe_name := name, xe_used := True\<rparr>"
    have e: "es' = es[i := ?e]" and f: "find_idx (\<lambda>e. \<not> xe_used e) es = Some i" using no c by auto
    have u: "\<not> xe_used (es ! i)" using find_idx_SomeD [OF f] by blast
    show ?thesis unfolding e using put_attr [OF es i, of ?e] no u n v l by (simp add: put_value_def attr_ok_def)
  next
    fix j assume yes: "xattr_named name es = Some j" "xe_used (es ! j)" "xe_name (es ! j) = name"
    let ?e = "put_value value s (es ! i)"
    have e: "j = i" "es' = es[i := ?e]" using yes c by auto
    show ?thesis unfolding e(2) using put_attr [OF es i, of ?e] yes e(1) n v l by (simp add: put_value_def attr_ok_def)
  qed
qed

lemma xattr_set_spec:
  assumes t: "xtable_ok t" and n: "0 \<notin> set name" and v: "nat s \<le> length value"
    and a: "name \<noteq> []" "length name < 64" "0 \<le> s" "s \<le> 256"
  shows "if fits (d, i) name t
    then \<exists>t'. xattr_set d i name value s t = (0, t') \<and> xtable_ok t' \<and>
      xattrs t' = (xattrs t)((d, i) := (xattrs t (d, i))(name \<mapsto> take (nat s) value))
    else xattr_set d i name value s t = (- 1, t)"
proof -
  have ok: "\<exists>t'. xattr_set d i name value s t = (0, t') \<and> xtable_ok t' \<and>
      xattrs t' = (xattrs t)((d, i) := (xattrs t (d, i))(name \<mapsto> take (nat s) value))"
    if fc: "xattr_find_or_create d i True t = (Some x, t[x := r])" and x: "x < 64"
      and r: "xi_used r" "xi_dev r = d" "xi_inum r = i" "attrs_ok (xi_attrs r)" "attrs (xi_attrs r) = xattrs t (d, i)"
      and c: "xi.entry t (d, i) = None \<and> \<not> xi_used (t ! x) \<or> xi_used (t ! x) \<and> xi_dev (t ! x) = d \<and> xi_inum (t ! x) = i"
      and f: "name \<in> dom (xattrs t (d, i)) \<or> card (dom (xattrs t (d, i))) < 8" for x r
  proof -
    let ?es = "xi_attrs r"
    have l: "x < length t" using x t by (simp add: xtable_ok_def)
    obtain k es' where k: "xattr_named name ?es = Some k \<and> es' = ?es[k := put_value value (nat s) (?es ! k)] \<or>
      xattr_named name ?es = None \<and> find_idx (\<lambda>e. \<not> xe_used e) ?es = Some k \<and>
        es' = ?es[k := (put_value value (nat s) (?es ! k))\<lparr>xe_name := name, xe_used := True\<rparr>]"
    proof (rule named_cases [OF r(4) n])
      assume "xattr_named name ?es = None" "attrs ?es name = None"
      moreover from this have "find_idx (\<lambda>e. \<not> xe_used e) ?es \<noteq> None" using f unfolding free_attr [OF r(4)] r(5) [symmetric] by (simp add: domIff)
      ultimately show thesis using that by blast
    next
      fix k assume "xattr_named name ?es = Some k"
      then show thesis using that by blast
    qed
    have e: "attrs_ok es' \<and> attrs es' = (attrs ?es)(name \<mapsto> take (nat s) value) \<and> list_ex xe_used es'"
      by (rule store_attr [OF r(4) a(1,2) n _ v k]) (use a in simp)
    have "xattr_set d i name value s t = (0, t[x := r\<lparr>xi_attrs := es'\<rparr>])"
      using k a l by (auto simp: xattr_set_def fc upd_attrs_def)
    moreover have "xtable_ok (t[x := r\<lparr>xi_attrs := es'\<rparr>])" "xattrs (t[x := r\<lparr>xi_attrs := es'\<rparr>]) = (xattrs t)((d, i) := attrs es')"
      using put_file [OF t x, of "r\<lparr>xi_attrs := es'\<rparr>"] r c e by simp_all
    ultimately show ?thesis using e r(5) by simp
  qed
  show ?thesis
  proof (rule create_cases [OF t, of d i])
    fix x assume x: "xattr_find_or_create d i True t = (Some x, t)" "x < 64" "xi_used (t ! x)" "xi_dev (t ! x) = d" "xi_inum (t ! x) = i"
      "attrs_ok (xi_attrs (t ! x))" "xattrs t (d, i) = attrs (xi_attrs (t ! x))" "xattrs t (d, i) \<noteq> Map.empty"
    show ?thesis
    proof (cases "fits (d, i) name t")
      case True
      then show ?thesis using ok [of x "t ! x"] x by (simp add: fits_def)
    next
      case False
      have f: "attrs (xi_attrs (t ! x)) name = None" "\<not> card (dom (attrs (xi_attrs (t ! x)))) < 8"
        using False x(7,8) unfolding fits_def by (simp_all add: domIff)
      have "find_idx (\<lambda>e. \<not> xe_used e) (xi_attrs (t ! x)) = None" using f(2) unfolding free_attr [OF x(6)] .
      moreover have "xattr_named name (xi_attrs (t ! x)) = None" by (rule named_cases [OF x(6) n]) (simp_all add: f(1))
      ultimately show ?thesis using False x(1) by (simp add: xattr_set_def)
    qed
  next
    fix x es assume x: "xattr_find_or_create d i True t = (Some x, t[x := (t ! x)\<lparr>xi_dev := d, xi_inum := i, xi_used := True, xi_attrs := es\<rparr>])"
      "x < 64" "\<not> xi_used (t ! x)" "xi.entry t (d, i) = None" "attrs_ok es" "attrs es = Map.empty" "xattrs t (d, i) = Map.empty"
      "card {g. xattrs t g \<noteq> Map.empty} < 64"
    from x(7,8) have "fits (d, i) name t" by (simp add: fits_def)
    then show ?thesis using ok [OF x(1,2)] x by simp
  next
    assume "xattr_find_or_create d i True t = (None, t)" "xattrs t (d, i) = Map.empty" "\<not> card {g. xattrs t g \<noteq> Map.empty} < 64"
    then show ?thesis by (simp add: fits_def xattr_set_def)
  qed
qed


text \<open>\<^verbatim>\<open>xattr_get\<close>, \<^verbatim>\<open>xattr_list\<close>, \<^verbatim>\<open>xattr_remove\<close> and \<^verbatim>\<open>xattr_clear\<close>.\<close>

lemma xattr_get_spec:
  assumes t: "xtable_ok t" and n: "0 \<notin> set name"
  shows "xattr_get d i name s t = (case xattrs t (d, i) name of None \<Rightarrow> (- 1, [])
    | Some v \<Rightarrow> if s = 0 then (int (length v), []) else if s < int (length v) then (- 1, []) else (int (length v), v))"
proof (rule file_cases [OF t, of d i])
  fix x assume x: "fst (xattr_find_or_create d i False t) = Some x" "xattrs t (d, i) = attrs (xi_attrs (t ! x))" "attrs_ok (xi_attrs (t ! x))"
  show ?thesis
  proof (rule named_cases [OF x(3) n])
    fix k assume k: "xattr_named name (xi_attrs (t ! x)) = Some k" "k < 8" "xe_used (xi_attrs (t ! x) ! k)"
      "attrs (xi_attrs (t ! x)) name = Some (take (xe_len (xi_attrs (t ! x) ! k)) (xe_value (xi_attrs (t ! x) ! k)))"
    let ?e = "xi_attrs (t ! x) ! k"
    have "?e \<in> set (xi_attrs (t ! x))" using k(2) x(3) by (simp add: attrs_ok_def)
    then have "xe_len ?e \<le> length (xe_value ?e)" using x(3) k(3) by (auto simp: attrs_ok_def attr_ok_def)
    then have "length (take (xe_len ?e) (xe_value ?e)) = xe_len ?e" by simp
    then show ?thesis using x k by (simp add: xattr_get_def Let_def)
  qed (simp add: xattr_get_def x)
qed (simp add: xattr_get_def)

text \<open>The list is the names, each with its terminating zero.\<close>

definition name_list :: "nat list list \<Rightarrow> nat list" where
  "name_list ns = concat (map (\<lambda>n. n @ [0]) ns)"

lemma names_filter: "xattr_names es = name_list (map xe_name (filter xe_used es))"
  by (induction es) (simp_all add: xattr_names_def name_list_def)

lemma total_names: "xattr_total es = int (length (xattr_names es))"
  by (induction es) (simp_all add: xattr_total_def xattr_names_def)

lemma xattr_list_spec:
  assumes t: "xtable_ok t"
  shows "\<exists>ns. distinct ns \<and> set ns = dom (xattrs t (d, i)) \<and>
    xattr_list d i s t = (if ns = [] then (0, []) else if s = 0 then (int (length (name_list ns)), [])
      else if s < int (length (name_list ns)) then (- 1, []) else (int (length (name_list ns)), name_list ns))"
proof (rule file_cases [OF t, of d i])
  fix x assume x: "fst (xattr_find_or_create d i False t) = Some x" "xattrs t (d, i) = attrs (xi_attrs (t ! x))" "attrs_ok (xi_attrs (t ! x))"
    "xi.entry t (d, i) = Some (t ! x)"
  let ?es = "xi_attrs (t ! x)" and ?ns = "map xe_name (filter xe_used (xi_attrs (t ! x)))"
  have u: "xa.unique ?es" using x(3) by (simp add: attrs_ok_def)
  have s: "set ?ns = dom (xattrs t (d, i))" unfolding x(2) dom_attrs by (rule xa.keys_dom [OF u])
  have "xattrs t (d, i) \<noteq> Map.empty" using x(4) by (simp add: known_files [OF t] dom_def)
  then have "?ns \<noteq> []" using s by (metis dom_eq_empty_conv list.set(1))
  then have "xattr_list d i s t = (if ?ns = [] then (0, []) else if s = 0 then (int (length (name_list ?ns)), [])
      else if s < int (length (name_list ?ns)) then (- 1, []) else (int (length (name_list ?ns)), name_list ?ns))"
    unfolding names_filter [symmetric] total_names [symmetric] by (simp add: xattr_list_def x(1) Let_def)
  then show ?thesis using xa.keys_distinct [OF u] s by blast
next
  assume "fst (xattr_find_or_create d i False t) = None" "xattrs t (d, i) = Map.empty"
  then show ?thesis by (intro exI [of _ "[]"]) (simp add: xattr_list_def)
qed

lemma xattr_clear_spec:
  assumes t: "xtable_ok t"
  shows "xtable_ok (xattr_clear d i t) \<and> xattrs (xattr_clear d i t) = (xattrs t)((d, i) := Map.empty)"
proof (rule file_cases [OF t, of d i])
  fix x assume x: "fst (xattr_find_or_create d i False t) = Some x" "x < 64" "xi_used (t ! x)" "xi_dev (t ! x) = d" "xi_inum (t ! x) = i"
    "attrs_ok (xi_attrs (t ! x))"
  then show ?thesis using drop_file [OF t x(2,3), of "(t ! x)\<lparr>xi_used := False\<rparr>"] by (simp add: xattr_clear_def attrs_ok_def)
next
  assume "fst (xattr_find_or_create d i False t) = None" "xattrs t (d, i) = Map.empty"
  then show ?thesis using t by (simp add: xattr_clear_def fun_upd_idem)
qed


lemma xattr_remove_spec:
  assumes t: "xtable_ok t" and n: "0 \<notin> set name"
  shows "if name \<in> dom (xattrs t (d, i))
    then \<exists>t'. xattr_remove d i name t = (0, t') \<and> xtable_ok t' \<and> xattrs t' = (xattrs t)((d, i) := (xattrs t (d, i))(name := None))
    else xattr_remove d i name t = (- 1, t)"
proof (rule file_cases [OF t, of d i])
  fix x assume x: "fst (xattr_find_or_create d i False t) = Some x" "x < 64" "xi_used (t ! x)" "xi_dev (t ! x) = d" "xi_inum (t ! x) = i"
    "xattrs t (d, i) = attrs (xi_attrs (t ! x))" "attrs_ok (xi_attrs (t ! x))"
  let ?es = "xi_attrs (t ! x)"
  show ?thesis
  proof (rule named_cases [OF x(7) n])
    fix k assume k: "xattr_named name ?es = Some k" "k < 8" "xe_used (?es ! k)" "xe_name (?es ! k) = name" "attrs ?es name = Some (take (xe_len (?es ! k)) (xe_value (?es ! k)))"
    define es where "es = ?es[k := (?es ! k)\<lparr>xe_used := False\<rparr>]"
    have l: "x < length t" using t x(2) by (simp add: xtable_ok_def)
    have e: "attrs_ok es" "attrs es = (attrs ?es)(name := None)" using drop_attr [OF x(7) k(2,3)] k(4) by (simp_all add: es_def)
    let ?r = "(t ! x)\<lparr>xi_attrs := es\<rparr>"
    have r: "xattr_remove d i name t = (0, t[x := if list_ex xe_used es then ?r else ?r\<lparr>xi_used := False\<rparr>])"
      using l by (simp add: xattr_remove_def x(1) k(1) Let_def upd_attrs_def es_def)
    have "xtable_ok (t[x := if list_ex xe_used es then ?r else ?r\<lparr>xi_used := False\<rparr>]) \<and>
      xattrs (t[x := if list_ex xe_used es then ?r else ?r\<lparr>xi_used := False\<rparr>]) = (xattrs t)((d, i) := attrs es)"
    proof (cases "list_ex xe_used es")
      case True
      then show ?thesis using put_file [OF t x(2), of ?r] x e by simp
    next
      case False
      then have "attrs es = Map.empty" using some_attr [OF e(1)] by simp
      then show ?thesis using False drop_file [OF t x(2,3), of "?r\<lparr>xi_used := False\<rparr>"] x e by (simp add: attrs_ok_def)
    qed
    then show ?thesis using r e(2) x(6) k(5) by (simp add: domIff)
  next
    assume "xattr_named name ?es = None" "attrs ?es name = None"
    then show ?thesis using x(1,6) by (simp add: xattr_remove_def domIff)
  qed
next
  assume "fst (xattr_find_or_create d i False t) = None" "xattrs t (d, i) = Map.empty"
  then show ?thesis by (simp add: xattr_remove_def)
qed

text \<open>The table at boot, with the zeroes of the kernel image in it, is empty.\<close>

definition xtable0 :: xtable where
  "xtable0 = replicate 64 \<lparr>xi_dev = 0, xi_inum = 0, xi_attrs = replicate 8 \<lparr>xe_name = [], xe_value = replicate 256 0, xe_len = 0, xe_used = False\<rparr>, xi_used = False\<rparr>"

lemma xattrinit_spec: "xtable_ok (xattrinit xtable0) \<and> xattrs (xattrinit xtable0) = (\<lambda>_. Map.empty)"
proof -
  have u: "\<not> xi_used (xattrinit xtable0 ! i)" if "i < 64" for i using that by (simp add: xattrinit_def xtable0_def)
  have l: "length (xattrinit xtable0) = 64" by (simp add: xattrinit_def xtable0_def)
  have "xi.unique (xattrinit xtable0)" unfolding xi.unique_def l using u by blast
  moreover have "\<forall>x \<in> set (xattrinit xtable0). file_ok x" by (simp add: xattrinit_def xtable0_def file_ok_def)
  moreover have "xi.entry (xattrinit xtable0) f = None" for f unfolding xi.entry_None l using u by blast
  ultimately show ?thesis using l by (simp add: xtable_ok_def xattrs_def fun_eq_iff)
qed

text \<open>
  C32. Extended attributes (\<^verbatim>\<open>xattr.c\<close>) are a map from files to maps from names to values. From the empty table of
  \<^verbatim>\<open>xattrinit\<close>, every operation keeps the table well formed and does to the map what it says. \<^verbatim>\<open>xattr_set\<close> refuses a bad name or size and
  changes nothing; otherwise it stores the value of the name, and only that one, exactly when there is room (the name is known or the file has fewer
  than 8 attributes, and the file has attributes or fewer than 64 files have some). \<^verbatim>\<open>xattr_get\<close> returns the length of the value, and
  the value itself when the buffer is large enough. \<^verbatim>\<open>xattr_list\<close> returns every name once. \<^verbatim>\<open>xattr_remove\<close> removes the one attribute or
  fails when it is not there, and \<^verbatim>\<open>xattr_clear\<close> removes those of the file.
\<close>

theorem xattr_implements_map:
  assumes "xtable_ok t" "0 \<notin> set name" "nat s \<le> length value"
  shows "xtable_ok (xattrinit xtable0) \<and> xattrs (xattrinit xtable0) = (\<lambda>_. Map.empty) \<and>
    (if name = [] \<or> 64 \<le> length name \<or> s < 0 \<or> 256 < s \<or> \<not> fits (d, i) name t then xattr_set d i name value s t = (- 1, t)
     else \<exists>t'. xattr_set d i name value s t = (0, t') \<and> xtable_ok t' \<and>
       xattrs t' = (xattrs t)((d, i) := (xattrs t (d, i))(name \<mapsto> take (nat s) value))) \<and>
    xattr_get d i name s t = (case xattrs t (d, i) name of None \<Rightarrow> (- 1, [])
      | Some v \<Rightarrow> if s = 0 then (int (length v), []) else if s < int (length v) then (- 1, []) else (int (length v), v)) \<and>
    (\<exists>ns. distinct ns \<and> set ns = dom (xattrs t (d, i)) \<and>
      xattr_list d i s t = (if ns = [] then (0, []) else if s = 0 then (int (length (name_list ns)), [])
        else if s < int (length (name_list ns)) then (- 1, []) else (int (length (name_list ns)), name_list ns))) \<and>
    (if name \<in> dom (xattrs t (d, i))
     then \<exists>t'. xattr_remove d i name t = (0, t') \<and> xtable_ok t' \<and> xattrs t' = (xattrs t)((d, i) := (xattrs t (d, i))(name := None))
     else xattr_remove d i name t = (- 1, t)) \<and>
    xtable_ok (xattr_clear d i t) \<and> xattrs (xattr_clear d i t) = (xattrs t)((d, i) := Map.empty)"
proof -
  have "if name = [] \<or> 64 \<le> length name \<or> s < 0 \<or> 256 < s \<or> \<not> fits (d, i) name t then xattr_set d i name value s t = (- 1, t)
     else \<exists>t'. xattr_set d i name value s t = (0, t') \<and> xtable_ok t' \<and>
       xattrs t' = (xattrs t)((d, i) := (xattrs t (d, i))(name \<mapsto> take (nat s) value))"
  proof (cases "name = [] \<or> 64 \<le> length name \<or> s < 0 \<or> 256 < s")
    case True
    then have "xattr_set d i name value s t = (- 1, t)" by (auto simp: xattr_set_def)
    then show ?thesis using True by auto
  next
    case False
    then show ?thesis using xattr_set_spec [OF assms] by simp
  qed
  then show ?thesis using xattrinit_spec xattr_get_spec [OF assms(1,2)] xattr_list_spec [OF assms(1)]
      xattr_remove_spec [OF assms(1,2)] xattr_clear_spec [OF assms(1)] by (intro conjI) simp_all
qed

theorem xattr_implements_map_witness:
  "\<exists>t. xattr_set 1 5 [117, 115] [7, 8, 9] 2 (xattrinit xtable0) = (0, t) \<and> xattrs t = (\<lambda>_. Map.empty)((1, 5) := [[117, 115] \<mapsto> [7, 8]])"
proof -
  have "fits (1, 5) [117, 115] (xattrinit xtable0)" by (simp add: fits_def xattrinit_spec)
  then show ?thesis
    using xattr_implements_map [of "xattrinit xtable0" "[117, 115]" 2 "[7, 8, 9]" 1 5, OF conjunct1 [OF xattrinit_spec]]
    by (auto simp: xattrinit_spec)
qed

end
