(* ===== verification/Spec2Isabelle.thy ===== *)
theory Spec2Isabelle
  imports Banker Sched Sem Monitor Dmsg Mount Isolation Xattr
begin

text \<open>
  A verification of the Oops-OS kernel, a RISC-V teaching kernel in C descended from xv6. All paths
  below are relative to \<^verbatim>\<open>src/\<close>.

  \<^bold>\<open>Reading of the C code.\<close> A table is a list and a pointer into it an index; \<^verbatim>\<open>int\<close> and \<^verbatim>\<open>uint\<close>
  values are integers or naturals with the wrap-around written out (\<open>i32\<close>, \<open>u32\<close>, \<open>mod 4294967296\<close>)
  where the code can reach it; a \<^verbatim>\<open>panic\<close> is an error value (\<open>Inl (Panic msg)\<close>, or \<open>BPanic msg\<close> in the
  storage layers). A handler that sleeps is cut at its sleeps: each segment ends with a result or
  \<open>Blocked\<close>, and the segment after the wakeup is a definition of its own (\<open>..._woken\<close>). Interleavings
  are sequences of segments, written as inductive step relations; a segment runs under the lock that
  the code holds, so it is atomic. Where a component uses another only through its contract (copies to user memory in the
  pipes and system calls, the page allocator in allocproc, the disk hardware), the other is a parameter.

  \<^bold>\<open>Theories.\<close>
  \<^item> \<open>Prelude\<close>: C integers, constants of \<^verbatim>\<open>kernel/include/param.h\<close>, table scans (\<open>find_idx\<close>) and
    element-wise loops (\<open>for_vec\<close>).
  \<^item> \<open>Proc\<close>: \<^verbatim>\<open>struct proc\<close>, sleep and wakeup, kill and killtree (\<^verbatim>\<open>kernel/proc/proc.c\<close>). The tree walk
    of killtree marks exactly the descendants.
  \<^item> \<open>Banker\<close>: the banker's algorithm (\<^verbatim>\<open>proc.c\<close>, \<^verbatim>\<open>kernel/sysproc.c\<close>). The safety check decides the
    existence of a completion order; all reachable states are safe and conserve the resources,
    except for one operation that is shown to break safety.
  \<^item> \<open>Sched\<close>: static priority, dynamic priority, multi-level feedback, least-laxity real time and the
    medium-term scheduler. Each choice is characterised; the locale \<open>selector\<close> is the contract of a
    scan for a best candidate.
  \<^item> \<open>Sync\<close>, \<open>Sem\<close>, \<open>Monitor\<close>: priority donation, the wait-for walk of the deadlock detector,
    semaphores with sets and the AND operation, monitors with condition variables, sleep locks
    (\<^verbatim>\<open>kernel/sysproc.c\<close>, \<^verbatim>\<open>kernel/lock/sleeplock.c\<close>). The locale \<open>mutex\<close> derives mutual exclusion
    over runs from the laws of single events.
  \<^item> \<open>Pipe\<close>, \<open>Dmsg\<close>: pipes (\<^verbatim>\<open>kernel/proc/pipe.c\<close>) and direct messages. Both are interpretations of the
    locale \<open>bounded_queue\<close>; order, bounds and the absence of lost wakeups follow.
  \<^item> \<open>Bio\<close>, \<open>Log\<close>: the buffer cache (\<^verbatim>\<open>kernel/filesystem/bio.c\<close>) and the write-ahead log
    (\<^verbatim>\<open>kernel/filesystem/log.c\<close>). The locale \<open>block_cache\<close> is what the log needs of the cache: a view of
    the disk contents that reading keeps and writing changes at one block. Crash atomicity quantifies
    over every prefix of the disk writes of a commit.
  \<^item> \<open>Fs\<close>, \<open>Bmap\<close>, \<open>Inode\<close>, \<open>Trunc\<close>, \<open>Share\<close>, \<open>Clone\<close>: block allocation with shared-block counts, block maps and inode contents
    (\<^verbatim>\<open>kernel/filesystem/fs.c\<close>). The state is the contents of the disk as the buffer cache shows them
    (\<open>blk\<close>), the counts \<open>bref\<close>, the allocation hint, the inode cache and the set of blocks passed to
    \<^verbatim>\<open>log_write\<close>. The invariant \<open>fs_inv P\<close> says that every count equals the number of references to the
    block from all files plus those in the multiset \<open>P\<close> that an operation holds, that the bitmap
    marks exactly the referenced blocks, that indirect blocks are never shared, and that all block
    numbers are data blocks. The triple \<open>spec k s m Q\<close> says that \<open>m\<close> started in \<open>s\<close> returns with \<open>Q\<close>,
    or panics for lack of blocks when fewer than \<open>k\<close> are free.

  \<^item> \<open>Mount\<close>: start-up of the file system (\<^verbatim>\<open>fsinit\<close>, \<^verbatim>\<open>bref_init\<close>, \<^verbatim>\<open>fsinfo\<close>). It joins the log and the files: after a crash at
    any disk write of a commit, recovery and the recount of the references give a state that satisfies \<open>fs_inv\<close>, with the contents of
    before or of after the transaction.
  \<^item> \<open>Kalloc\<close>: the page allocator (\<^verbatim>\<open>kernel/mm/kalloc.c\<close>) over a memory of bytes, in which the free lists are threaded through the free
    pages. The locale \<open>page_pool\<close> is the contract of an allocator with reference counts; exclusive ownership follows for all runs.
  \<^item> \<open>Vm\<close>: page tables (\<^verbatim>\<open>kernel/mm/vm.c\<close>, \<^verbatim>\<open>kernel/include/riscv.h\<close>), entries bit by bit. \<open>tree_ok\<close> is the type of a page table: three
    levels of distinct aligned pages. The walk finds or makes the entry of an address.
  \<^item> \<open>Kstring\<close>: \<^verbatim>\<open>kernel/lib/string.c\<close>; the pointer loops are equal to functions on lists of bytes.
  \<^item> \<open>Swap\<close>: swap slots, transfers, the cache of swapped-out pages and the clock scans (\<^verbatim>\<open>kernel/mm/swap.c\<close>), with the
    retrying \<^verbatim>\<open>kalloc\<close> on top of them.
  \<^item> \<open>Uvm\<close>, \<open>Spaces\<close>, \<open>Fork\<close>, \<open>Isolation\<close>: user address spaces (\<^verbatim>\<open>vm.c\<close>, \<^verbatim>\<open>kalloc.c\<close>, \<^verbatim>\<open>proc.c\<close>): growth, shrinking, the copy of fork,
    copy-on-write, destruction, copies between kernel and user memory. \<open>good_space\<close> is the invariant of one space, \<open>spaces\<close> that of all
    together: counts equal mappings, and a page that is mapped twice is mapped read-only. \<open>vm_step\<close> is the step of any process or of the kernel;
    \<open>mem_step\<close> is the abstract machine with a private memory per process, which the steps implement.
  \<^item> \<open>Slots\<close>, \<open>Xattr\<close>: the locale \<open>slot_table\<close> is an array of slots with keys and the finite map that it stores; extended attributes
    (\<^verbatim>\<open>kernel/filesystem/xattr.c\<close>) are two such tables, one inside the other, and implement a map of maps.

  \<^bold>\<open>Bounds.\<close> Loops terminate by structure or by a measure, apart from five that the code does not bound and that are
  \<open>partial_function (option)\<close>: the refresh of a real-time process (returns when the clock is not about to wrap), the walk along the parents
  of a process in \<^verbatim>\<open>killtree\<close> (returns when there is no cycle), the length of
  a string (returns when there is a zero byte), the count of free bytes along a free list (returns when the list is well formed) and the
  retrying \<^verbatim>\<open>kalloc\<close> (returns while a spin lock is held and while there is no swap area). \<open>freewalk\<close> has the depth of the page table as a bound, three levels.
  The reference counts of pages are \<^verbatim>\<open>int\<close>s in C; the copy of fork assumes that they stay below 2000000000.

  \<^bold>\<open>Not modelled.\<close> Assembly (trampoline, context switch, trap vectors), device drivers and their memory-mapped
  registers, the network stack and user programs: their behaviour is that of hardware or of
  code outside the kernel's data structures. Directories and path names, the open-file table and the system calls over it, the FAT file
  system, shared memory, message queues and the process table side of fork, exit and wait are parts of the kernel that the development does
  not reach; the components above do not depend on them.
\<close>

end
